(* ===== verification/Prelude.thy ===== *)
theory Prelude
  imports "HOL-Library.Word" "HOL-Library.List_Lexorder"
begin

unbundle bit_operations_syntax

text \<open>
  Shared vocabulary of the development: the machine types of the Go code, the three ways a Go call
  can end (a value, an error value, a run-time panic), 64-bit signed wrap-around of \<open>int\<close>
  expressions, slicing, and the generic lemmas on lists and words that the components share.
  Collections: \<open>bytes_len\<close> (lengths of encodings), \<open>codec_rt\<close> (decode-after-encode
  facts), \<open>go_eval\<close> (definitions unfolded to evaluate a closed instance).
\<close>

named_theorems bytes_len "lengths of encoded byte sequences"
named_theorems codec_rt "decode after encode"
named_theorems go_eval "definitions that a closed instance evaluates with"

subsection \<open>Machine types\<close>

type_synonym byte = "8 word"
type_synonym u16 = "16 word"
type_synonym u32 = "32 word"
type_synonym u64 = "64 word"
type_synonym bytes = "byte list"

text \<open>
  \<open>int\<close> of the Go code is 64 bits wide. A Go \<open>int\<close> value is modelled as an \<open>int\<close> in
  the range of a signed 64-bit word, and \<open>wrap64\<close> is what the hardware does to a result that
  leaves this range. A conversion \<open>int(x)\<close> of an unsigned word \<open>x\<close> is \<open>sint x\<close>.
\<close>

definition wrap64 :: "int \<Rightarrow> int" where
  "wrap64 i = sint (word_of_int i :: u64)"

lemma wrap64_id: "- (2 ^ 63) \<le> i \<Longrightarrow> i < 2 ^ 63 \<Longrightarrow> wrap64 i = i"
  by (simp add: wrap64_def sint_sbintrunc' signed_take_bit_int_eq_self)

lemma sint_u64_small: "unat (x :: u64) < 2 ^ 63 \<Longrightarrow> sint x = int (unat x)"
proof -
  assume a: "unat x < 2 ^ 63"
  have u: "uint x < 2 ^ 63" using a by (metis of_nat_less_numeral_power_cancel_iff uint_nat)
  have "sint x = signed_take_bit 63 (uint x)"
    by (simp add: sint_uint)
  also have "\<dots> = uint x"
    using u by (intro signed_take_bit_int_eq_self) (auto intro: order_trans [OF _ uint_ge_0])
  finally show ?thesis by simp
qed

subsection \<open>How a Go call ends\<close>

text \<open>
  \<open>Ok v\<close>: the call returned \<open>v\<close> and a nil error. \<open>Fail e\<close>: it returned the
  error \<open>e\<close>. \<open>Panic\<close>: it hit a run-time panic (index or slice bounds, nil
  dereference, negative \<open>make\<close> length).
\<close>

datatype ('e, 'a) outcome = Ok 'a | Fail 'e | Panic

fun obind :: "('e, 'a) outcome \<Rightarrow> ('a \<Rightarrow> ('e, 'b) outcome) \<Rightarrow> ('e, 'b) outcome" where
  "obind (Ok a) f = f a"
| "obind (Fail e) f = Fail e"
| "obind Panic f = Panic"

lemma obind_Ok_iff: "obind m f = Ok b \<longleftrightarrow> (\<exists>a. m = Ok a \<and> f a = Ok b)"
  by (cases m) auto

lemma obind_assoc: "obind (obind m f) g = obind m (\<lambda>a. obind (f a) g)"
  by (cases m) auto

lemma obind_not_Panic: "m \<noteq> Panic \<Longrightarrow> (\<And>a. m = Ok a \<Longrightarrow> f a \<noteq> Panic) \<Longrightarrow> obind m f \<noteq> Panic"
  by (cases m) auto

subsection \<open>Slices\<close>

definition sub :: "'a list \<Rightarrow> nat \<Rightarrow> nat \<Rightarrow> 'a list" where
  "sub xs lo hi = take (hi - lo) (drop lo xs)"

lemma length_sub [simp]: "length (sub xs lo hi) = min (hi - lo) (length xs - lo)"
  by (simp add: sub_def min.commute)

lemma sub_append_right: "length xs \<le> lo \<Longrightarrow> sub (xs @ ys) lo hi = sub ys (lo - length xs) (hi - length xs)"
  by (simp add: sub_def)

lemma sub_append_left: "hi \<le> length xs \<Longrightarrow> sub (xs @ ys) lo hi = sub xs lo hi"
  by (cases "lo \<le> hi") (auto simp: sub_def)

lemma sub_full [simp]: "sub xs 0 (length xs) = xs"
  by (simp add: sub_def)

lemma sub_mid: "sub (xs @ ys @ zs) (length xs) (length xs + length ys) = ys"
  by (simp add: sub_def)

lemma sub_mid_len: "length ys = n \<Longrightarrow> sub (xs @ ys @ zs) (length xs) (length xs + n) = ys"
  using sub_mid [of xs ys zs] by simp

lemma sub_self [simp]: "sub xs n n = []"
  by (simp add: sub_def)

lemma sub_snoc: "lo \<le> hi \<Longrightarrow> hi < length xs \<Longrightarrow> sub xs lo (Suc hi) = sub xs lo hi @ [xs ! hi]"
  by (simp add: sub_def Suc_diff_le take_Suc_conv_app_nth)

lemma nth_sub: "i < hi - lo \<Longrightarrow> lo + i < length xs \<Longrightarrow> sub xs lo hi ! i = xs ! (lo + i)"
  by (simp add: sub_def)

lemma sub_append: "lo \<le> mid \<Longrightarrow> mid \<le> hi \<Longrightarrow> sub xs lo mid @ sub xs mid hi = sub xs lo hi"
proof -
  assume a: "lo \<le> mid" "mid \<le> hi"
  have "take (hi - lo) (drop lo xs) = take ((mid - lo) + (hi - mid)) (drop lo xs)"
    using a by simp
  then show ?thesis
    using a by (simp only: sub_def take_add) simp
qed

lemma split_sub: "take off v @ sub v off (off + k) @ drop (off + k) v = v"
proof -
  have "sub v off (off + k) @ drop (off + k) v = drop off v"
    using append_take_drop_id [of k "drop off v"] by (simp add: sub_def add.commute)
  then show ?thesis by simp
qed

text \<open>A Go slice expression \<open>xs[lo:hi]\<close> panics unless \<open>0 \<le> lo \<le> hi \<le> len\<close>.\<close>

definition go_slice :: "'a list \<Rightarrow> int \<Rightarrow> int \<Rightarrow> ('e, 'a list) outcome" where
  "go_slice xs lo hi =
     (if 0 \<le> lo \<and> lo \<le> hi \<and> hi \<le> int (length xs) then Ok (sub xs (nat lo) (nat hi)) else Panic)"

lemma go_slice_Ok [simp]: "lo \<le> hi \<Longrightarrow> hi \<le> length xs \<Longrightarrow> go_slice xs (int lo) (int hi) = Ok (sub xs lo hi)"
  by (simp add: go_slice_def)

subsection \<open>Words\<close>

lemma unat_drop_bit: "unat (drop_bit n (w :: 'a :: len word)) = unat w div 2 ^ n"
  by (simp add: unat_drop_bit_eq flip: drop_bit_eq_div)

lemma unat_ucast_byte: "unat (ucast (w :: 'a :: len word) :: byte) = unat w mod 256"
  by (simp add: unsigned_ucast_eq take_bit_eq_mod)

lemma unat_of_nat_u64: "n < 2 ^ 64 \<Longrightarrow> unat (of_nat n :: u64) = n"
  by (simp add: unat_of_nat take_bit_nat_eq_self)

lemma unat_of_nat_u32: "n < 2 ^ 32 \<Longrightarrow> unat (of_nat n :: u32) = n"
  by (simp add: unat_of_nat take_bit_nat_eq_self)

lemma unat_of_nat_byte: "n < 256 \<Longrightarrow> unat (of_nat n :: byte) = n"
  by (simp add: unat_of_nat take_bit_nat_eq_self)


subsection \<open>The order of byte strings\<close>

text \<open>
  \<open>bytes.Compare(a, b) < 0\<close> as the code computes it. It is the lexicographic order of the library,
  so proofs use the linear order \<open><\<close> of byte lists.
\<close>

fun bytes_less :: "bytes \<Rightarrow> bytes \<Rightarrow> bool" where
  "bytes_less a [] = False"
| "bytes_less [] (y # b) = True"
| "bytes_less (x # a) (y # b) = (x < y \<or> x = y \<and> bytes_less a b)"

lemma bytes_less_iff: "bytes_less a b = (a < b)"
  by (induction a b rule: bytes_less.induct) auto

definition bytes_compare :: "bytes \<Rightarrow> bytes \<Rightarrow> int" where
  "bytes_compare a b = (if a = b then 0 else if bytes_less a b then - 1 else 1)"

lemma bytes_compare_simps [simp]:
  "bytes_compare a b < 0 \<longleftrightarrow> a < b" "0 < bytes_compare a b \<longleftrightarrow> b < a" "bytes_compare a b = 0 \<longleftrightarrow> a = b"
  by (auto simp: bytes_compare_def bytes_less_iff)

end
