(* ===== verification/Go_Binary.thy ===== *)
theory Go_Binary
  imports Prelude
begin

text \<open>
  The parts of Go's \<open>encoding/binary\<close> that the repository calls: little- and big-endian fixed
  width integers and unsigned varints, and the locale \<open>codec\<close> (an encoder with a decoder that
  also returns the number of bytes it consumed) with the lemmas every wire format of the program
  reuses.
\<close>

subsection \<open>Fixed-width integers\<close>

text \<open>
  \<open>binary.LittleEndian.PutUint32/PutUint64\<close>: byte \<open>i\<close> is \<open>byte(v >> 8*i)\<close>; \<open>Uint32/Uint64\<close>
  combine the bytes by shift and or. The number of bytes is a parameter.
\<close>

fun le_bytes :: "nat \<Rightarrow> 'a :: len word \<Rightarrow> bytes" where
  "le_bytes 0 v = []"
| "le_bytes (Suc n) v = ucast v # le_bytes n (drop_bit 8 v)"

fun le_word :: "bytes \<Rightarrow> 'a :: len word" where
  "le_word [] = 0"
| "le_word (b # bs) = ucast b OR push_bit 8 (le_word bs)"

definition put_u32 :: "u32 \<Rightarrow> bytes" where "put_u32 = le_bytes 4"
definition put_u64 :: "u64 \<Rightarrow> bytes" where "put_u64 = le_bytes 8"
definition get_u32 :: "bytes \<Rightarrow> u32" where "get_u32 bs = le_word (take 4 bs)"
definition get_u64 :: "bytes \<Rightarrow> u64" where "get_u64 bs = le_word (take 8 bs)"
definition put_u64_be :: "u64 \<Rightarrow> bytes" where "put_u64_be v = rev (put_u64 v)"
definition get_u64_be :: "bytes \<Rightarrow> u64" where "get_u64_be bs = le_word (rev (take 8 bs))"

text \<open>The bytes one by one, to evaluate closed instances.\<close>

lemma put_u32_eval [go_eval]: "put_u32 v = (let a = drop_bit 8 v; b = drop_bit 8 a in
  [ucast v, ucast a, ucast b, ucast (drop_bit 8 b)])"
  by (simp add: put_u32_def eval_nat_numeral)

lemma put_u64_eval [go_eval]: "put_u64 v = (let a = drop_bit 8 v; b = drop_bit 8 a; c = drop_bit 8 b; d = drop_bit 8 c;
    e = drop_bit 8 d; f = drop_bit 8 e
  in [ucast v, ucast a, ucast b, ucast c, ucast d, ucast e, ucast f, ucast (drop_bit 8 f)])"
  by (simp add: put_u64_def eval_nat_numeral)

declare get_u32_def [go_eval] get_u64_def [go_eval] put_u64_be_def [go_eval] get_u64_be_def [go_eval]

lemma length_le_bytes [simp, bytes_len]: "length (le_bytes n v) = n"
  by (induction n arbitrary: v) auto

lemma length_put_u32 [simp, bytes_len]: "length (put_u32 v) = 4"
  by (simp add: put_u32_def)

lemma length_put_u64 [simp, bytes_len]: "length (put_u64 v) = 8"
  by (simp add: put_u64_def)

lemma length_put_u64_be [simp, bytes_len]: "length (put_u64_be v) = 8"
  by (simp add: put_u64_be_def)

lemma ucast_byte_or_drop: "(ucast (ucast v :: byte) :: 'a :: len word) OR push_bit 8 (take_bit n (drop_bit 8 v)) = take_bit (8 + n) v"
  by (rule bit_word_eqI) (auto simp: bit_simps)

lemma le_word_le_bytes: "le_word (le_bytes n v) = take_bit (8 * n) v"
proof (induction n arbitrary: v)
  case 0
  then show ?case by simp
next
  case (Suc n)
  have "le_word (le_bytes (Suc n) v) = ucast (ucast v :: byte) OR push_bit 8 (take_bit (8 * n) (drop_bit 8 v))"
    by (simp add: Suc.IH)
  also have "\<dots> = take_bit (8 * Suc n) v"
    by (simp add: ucast_byte_or_drop)
  finally show ?case .
qed

lemma get_put_u32 [simp, codec_rt]: "get_u32 (put_u32 v @ rest) = v"
  by (simp add: get_u32_def put_u32_def le_word_le_bytes take_bit_word_eq_self)

lemma get_put_u64 [simp, codec_rt]: "get_u64 (put_u64 v @ rest) = v"
  by (simp add: get_u64_def put_u64_def le_word_le_bytes take_bit_word_eq_self)

lemma get_put_u64_be [simp, codec_rt]: "get_u64_be (put_u64_be v @ rest) = v"
  by (simp add: get_u64_be_def put_u64_be_def put_u64_def le_word_le_bytes take_bit_word_eq_self)

lemma get_put_u32_nil [simp, codec_rt]: "get_u32 (put_u32 v) = v"
  using get_put_u32 [of v "[]"] by simp

lemma get_put_u64_nil [simp, codec_rt]: "get_u64 (put_u64 v) = v"
  using get_put_u64 [of v "[]"] by simp

lemma le_bytes_inject: "length bs = n \<Longrightarrow> 8 * n \<le> LENGTH('a) \<Longrightarrow> le_bytes n (le_word bs :: 'a :: len word) = bs"
proof (induction bs arbitrary: n)
  case Nil
  then show ?case by simp
next
  case (Cons b bs)
  then obtain m where m: "n = Suc m" "length bs = m" by auto
  have lo: "(ucast (ucast b OR push_bit 8 (le_word bs :: 'a word)) :: byte) = b"
    using Cons.prems m by (intro bit_word_eqI) (auto simp: bit_simps)
  have hi: "drop_bit 8 (ucast b OR push_bit 8 (le_word bs :: 'a word)) = take_bit (LENGTH('a) - 8) (le_word bs)"
    using Cons.prems m by (intro bit_word_eqI) (auto simp: bit_simps dest: bit_imp_le_length)
  have tb: "le_bytes k (take_bit q w) = le_bytes k w" if "8 * k \<le> q" for k q and w :: "'a word"
    using that
  proof (induction k arbitrary: q w)
    case (Suc k)
    have "(ucast (take_bit q w) :: byte) = ucast w"
      using Suc.prems by (intro bit_word_eqI) (auto simp: bit_simps)
    moreover have "drop_bit 8 (take_bit q w) = take_bit (q - 8) (drop_bit 8 w)"
      by (simp add: drop_bit_take_bit)
    ultimately show ?case using Suc by simp
  qed simp
  show ?case
    using Cons.IH [of m] Cons.prems m by (simp add: lo hi tb del: drop_bit_or)
qed

subsection \<open>Unsigned varints\<close>

text \<open>
  \<open>binary.AppendUvarint\<close> / \<open>PutUvarint\<close>: seven bits per byte, low bits first, the top bit set
  on every byte but the last. \<open>MaxVarintLen64\<close> is 10.
\<close>

function put_uvarint :: "u64 \<Rightarrow> bytes" where
  "put_uvarint v = (if v < 0x80 then [ucast v] else (ucast v OR 0x80) # put_uvarint (drop_bit 7 v))"
  by pat_completeness auto
termination
proof (relation "measure unat", goal_cases)
  case (2 v)
  then have "0 < unat v" by (simp add: word_less_nat_alt)
  then show ?case by (simp add: unat_drop_bit)
qed simp

declare put_uvarint.simps [simp del]

text \<open>
  \<open>binary.Uvarint\<close>: the value and the number of bytes read; 0 bytes when the buffer is too short,
  a negative count when the value overflows 64 bits. \<open>i\<close>, \<open>x\<close>, \<open>s\<close> are the loop's index,
  accumulator and shift.
\<close>

fun uvarint_loop :: "nat \<Rightarrow> u64 \<Rightarrow> nat \<Rightarrow> bytes \<Rightarrow> u64 \<times> int" where
  "uvarint_loop i x s [] = (0, 0)"
| "uvarint_loop i x s (b # bs) =
     (if i = 10 then (0, - (int i + 1))
      else if b < 0x80 then
        (if i = 9 \<and> 1 < b then (0, - (int i + 1))
         else (x OR push_bit s (ucast b), int i + 1))
      else uvarint_loop (Suc i) (x OR push_bit s (ucast (b AND 0x7F))) (s + 7) bs)"

definition get_uvarint :: "bytes \<Rightarrow> u64 \<times> int" where
  "get_uvarint bs = uvarint_loop 0 0 0 bs"

declare get_uvarint_def [go_eval]

lemma put_uvarint_not_Nil [simp]: "put_uvarint v \<noteq> []"
  by (subst put_uvarint.simps) simp

lemma length_put_uvarint_pos: "0 < length (put_uvarint v)"
  by simp

lemma length_put_uvarint_bound: "unat v < 2 ^ (7 * n) \<Longrightarrow> 0 < n \<Longrightarrow> length (put_uvarint v) \<le> n"
proof (induction v arbitrary: n rule: put_uvarint.induct)
  case (1 v)
  show ?case
  proof (cases "v < 0x80")
    case True
    then show ?thesis using 1 by (simp add: put_uvarint.simps [of v])
  next
    case False
    then have ge: "128 \<le> unat v" by (simp add: word_less_nat_alt)
    with 1 obtain m where m: "n = Suc m" "0 < m"
      by (cases n; cases "n = 1") auto
    have "unat (drop_bit 7 v) < 2 ^ (7 * m)"
      using 1(2) m by (simp add: unat_drop_bit power_add less_mult_imp_div_less)
    then have "length (put_uvarint (drop_bit 7 v)) \<le> m"
      using 1(1) [OF False] m by simp
    with False m show ?thesis by (simp add: put_uvarint.simps [of v])
  qed
qed

lemma length_put_uvarint_le: "length (put_uvarint v) \<le> 10"
  by (rule length_put_uvarint_bound) (auto intro: less_trans [OF unsigned_less])

lemma bit_0x80_iff: "bit (0x80 :: int) k \<longleftrightarrow> k = 7"
proof -
  have e: "(0x80 :: int) = 2 ^ 7" by simp
  show ?thesis unfolding e by (auto simp only: bit_exp_iff possible_bit_def) simp
qed

lemma bit_0x7F_iff: "bit (0x7F :: int) k \<longleftrightarrow> k < 7"
proof -
  have e: "(0x7F :: int) = mask 7" by (simp add: mask_eq_exp_minus_1)
  show ?thesis unfolding e by (auto simp only: bit_mask_iff possible_bit_def) simp
qed

lemma uvarint_byte_parts:
  "push_bit s (ucast ((ucast v OR 0x80 :: byte) AND 0x7F) :: u64) OR push_bit (s + 7) (drop_bit 7 v) = push_bit s v"
proof (rule bit_word_eqI)
  fix n assume "n < LENGTH(64)"
  then show "bit (push_bit s (ucast ((ucast v OR 0x80 :: byte) AND 0x7F) :: u64) OR push_bit (s + 7) (drop_bit 7 v)) n
      = bit (push_bit s v) n"
    by (cases "s + 7 \<le> n") (auto simp: bit_simps bit_0x80_iff bit_0x7F_iff)
qed

lemma continuation_byte: "\<not> (ucast (v :: u64) OR 0x80 :: byte) < 0x80"
proof -
  have "(0x80 :: byte) \<le> ucast v OR 0x80"
    by (subst or.commute) (rule le_word_or2)
  then show ?thesis by simp
qed

lemma uvarint_loop_put:
  "i \<le> 9 \<Longrightarrow> s = 7 * i \<Longrightarrow> unat v < 2 ^ (64 - 7 * i) \<Longrightarrow>
   uvarint_loop i x s (put_uvarint v @ rest) = (x OR push_bit s v, int i + int (length (put_uvarint v)))"
proof (induction v arbitrary: i x s rule: put_uvarint.induct)
  case (1 v)
  show ?case
  proof (cases "v < 0x80")
    case True
    then have u: "unat v < 128" by (simp add: word_less_nat_alt)
    then have b: "unat (ucast v :: byte) = unat v" by (simp add: unat_ucast_byte)
    have lt: "(ucast v :: byte) < 0x80" using u b by (simp add: word_less_nat_alt)
    have rt: "ucast (ucast v :: byte) = v"
    proof (rule word_unat_eq_iff [THEN iffD2])
      have e: "LENGTH(8) = 8" "LENGTH(64) = 64" by simp_all
      have t: "take_bit 8 (unat v) = unat v" "take_bit 64 (unat v) = unat v"
        using u by (simp_all only: take_bit_nat_eq_self_iff) simp_all
      show "unat (ucast (ucast v :: byte) :: u64) = unat v"
        by (simp only: unsigned_ucast_eq ucast_id unsigned_take_bit_eq e t)
    qed
    have "i = 9 \<Longrightarrow> \<not> 1 < (ucast v :: byte)"
      using "1.prems" b by (simp add: word_less_nat_alt)
    with True lt rt "1.prems" show ?thesis
      by (auto simp: put_uvarint.simps [of v])
  next
    case False
    then have ge: "128 \<le> unat v" by (simp add: word_less_nat_alt)
    have i: "i < 9"
    proof (rule ccontr)
      assume "\<not> i < 9"
      then have "i = 9" using "1.prems"(1) by simp
      with "1.prems"(3) have "unat v < 2" by simp
      with ge show False by simp
    qed
    note hb = continuation_byte [of v]
    have "(2 :: nat) ^ (64 - 7 * i) = 2 ^ ((64 - 7 * Suc i) + 7)"
      using i by (intro arg_cong [where f = "power 2"]) arith
    with "1.prems"(3) have "unat v < 2 ^ (64 - 7 * Suc i) * 2 ^ 7"
      by (simp only: power_add)
    then have d: "unat (drop_bit 7 v) < 2 ^ (64 - 7 * Suc i)"
      unfolding unat_drop_bit by (rule less_mult_imp_div_less)
    have "uvarint_loop i x s (put_uvarint v @ rest)
        = uvarint_loop (Suc i) (x OR push_bit s (ucast ((ucast v OR 0x80 :: byte) AND 0x7F))) (s + 7)
            (put_uvarint (drop_bit 7 v) @ rest)"
      using False hb i by (subst put_uvarint.simps) (simp del: One_nat_def)
    also have "\<dots> = ((x OR push_bit s (ucast ((ucast v OR 0x80 :: byte) AND 0x7F)))
        OR push_bit (s + 7) (drop_bit 7 v), int (Suc i) + int (length (put_uvarint (drop_bit 7 v))))"
      using i "1.prems" d by (intro "1.IH" [OF False]) auto
    also have "\<dots> = (x OR push_bit s v, int i + int (length (put_uvarint v)))"
      using False by (simp add: or.assoc uvarint_byte_parts put_uvarint.simps [of v])
    finally show ?thesis .
  qed
qed

lemma get_put_uvarint [simp, codec_rt]: "get_uvarint (put_uvarint v @ rest) = (v, int (length (put_uvarint v)))"
proof -
  have "unat v < 2 ^ 64" using unsigned_less [of v] by simp
  then show ?thesis
    by (simp add: get_uvarint_def uvarint_loop_put)
qed

text \<open>A proper prefix of a varint reads as a truncated buffer.\<close>

lemma uvarint_loop_prefix:
  "i + length (put_uvarint v) \<le> 10 \<Longrightarrow> k < length (put_uvarint v) \<Longrightarrow>
   uvarint_loop i x s (take k (put_uvarint v)) = (0, 0)"
proof (induction v arbitrary: i x s k rule: put_uvarint.induct)
  case (1 v)
  show ?case
  proof (cases k)
    case (Suc j)
    with "1.prems" have ge: "\<not> v < 0x80" by (auto simp: put_uvarint.simps [of v])
    with "1.prems" Suc have "i < 10" "j < length (put_uvarint (drop_bit 7 v))"
      "Suc i + length (put_uvarint (drop_bit 7 v)) \<le> 10"
      by (auto simp: put_uvarint.simps [of v])
    with "1.IH" [OF ge] ge Suc continuation_byte [of v] show ?thesis
      by (simp add: put_uvarint.simps [of v])
  qed simp
qed

lemma get_uvarint_prefix: "k < length (put_uvarint v) \<Longrightarrow> get_uvarint (take k (put_uvarint v)) = (0, 0)"
  using length_put_uvarint_le [of v] by (simp add: get_uvarint_def uvarint_loop_prefix)

lemma uvarint_loop_count:
  "uvarint_loop i x s bs = (v, n) \<Longrightarrow> 0 < n \<Longrightarrow> i \<le> 10 \<Longrightarrow> int i < n \<and> n \<le> int i + int (length bs) \<and> n \<le> 10"
  by (induction i x s bs rule: uvarint_loop.induct) (fastforce split: if_splits)+

lemma get_uvarint_count: "get_uvarint bs = (v, n) \<Longrightarrow> 0 < n \<Longrightarrow> n \<le> int (length bs) \<and> n \<le> 10"
  by (auto simp: get_uvarint_def dest: uvarint_loop_count)

subsection \<open>Codecs\<close>

text \<open>
  A decoder reads at an absolute offset of a buffer and returns the value with the offset behind it.
  \<open>dec_times\<close> is the shape of every counted decoding loop of the program: read \<open>n\<close>
  items, stop at the first error. The law asks for buffers shorter than \<open>2 ^ 63\<close> bytes, which
  every Go slice is, because the bounds checks of the code are done in 64-bit \<open>int\<close> arithmetic.
\<close>

fun dec_times :: "(bytes \<Rightarrow> nat \<Rightarrow> ('e, 'a \<times> nat) outcome) \<Rightarrow> nat \<Rightarrow> bytes \<Rightarrow> nat \<Rightarrow> ('e, 'a list \<times> nat) outcome" where
  "dec_times dec 0 data off = Ok ([], off)"
| "dec_times dec (Suc n) data off =
     obind (dec data off) (\<lambda>(x, off'). obind (dec_times dec n data off') (\<lambda>(xs, off''). Ok (x # xs, off'')))"

locale codec =
  fixes enc :: "'a \<Rightarrow> bytes"
    and dec :: "bytes \<Rightarrow> nat \<Rightarrow> ('e, 'a \<times> nat) outcome"
    and valid :: "'a \<Rightarrow> bool"
  assumes dec_enc: "valid x \<Longrightarrow> length (pre @ enc x @ rest) < 2 ^ 63 \<Longrightarrow>
    dec (pre @ enc x @ rest) (length pre) = Ok (x, length pre + length (enc x))"
begin

lemma enc_prefix_free:
  assumes "valid x" and "valid y" and "length (enc x @ r) < 2 ^ 63" and "enc x @ r = enc y @ s"
  shows "x = y \<and> r = s"
proof -
  have l: "length (enc y @ s) < 2 ^ 63"
    using assms(3) unfolding assms(4) .
  have "dec (enc x @ r) 0 = Ok (x, length (enc x))"
    using dec_enc [of x "[]" r] assms(1,3) by simp
  moreover have "dec (enc y @ s) 0 = Ok (y, length (enc y))"
    using dec_enc [of y "[]" s] assms(2) l by simp
  ultimately have "x = y" using assms(4) by simp
  with assms(4) show ?thesis by simp
qed

lemma dec_times_concat:
  "list_all valid xs \<Longrightarrow> length (pre @ concat (map enc xs) @ rest) < 2 ^ 63 \<Longrightarrow>
   dec_times dec (length xs) (pre @ concat (map enc xs) @ rest) (length pre)
     = Ok (xs, length pre + length (concat (map enc xs)))"
proof (induction xs arbitrary: pre)
  case Nil
  then show ?case by simp
next
  case (Cons x xs)
  have "dec (pre @ enc x @ (concat (map enc xs) @ rest)) (length pre) = Ok (x, length pre + length (enc x))"
    using Cons.prems by (intro dec_enc) auto
  moreover have "dec_times dec (length xs) ((pre @ enc x) @ concat (map enc xs) @ rest) (length (pre @ enc x))
      = Ok (xs, length (pre @ enc x) + length (concat (map enc xs)))"
    using Cons.prems by (intro Cons.IH) auto
  ultimately show ?case by simp
qed

end

end
