(* ===== verification/Go_Crc32.thy ===== *)
theory Go_Crc32
  imports Go_Binary
begin

text \<open>
  Go's \<open>hash/crc32\<close> as the program calls it (\<open>ChecksumIEEE\<close> and \<open>Checksum\<close> with the
  Koopman table), and what a stored checksum detects: the locale \<open>checksum\<close> states that a
  corruption confined to four adjacent bytes always changes the sum, and derives that a sealed
  buffer (payload followed by its sum) is accepted as written and rejected after such a corruption.
\<close>

subsection \<open>The checksum function\<close>

text \<open>\<open>crc_tab poly i\<close> is entry \<open>i\<close> of \<open>crc32.MakeTable(poly)\<close>; \<open>crc_byte\<close> is one round of \<open>simpleUpdate\<close>.\<close>

definition crc_bit :: "u32 \<Rightarrow> u32 \<Rightarrow> u32" where
  "crc_bit poly c = (if c AND 1 = 1 then drop_bit 1 c XOR poly else drop_bit 1 c)"

definition crc_tab :: "u32 \<Rightarrow> byte \<Rightarrow> u32" where
  "crc_tab poly i = (crc_bit poly ^^ 8) (ucast i)"

definition crc_byte :: "u32 \<Rightarrow> u32 \<Rightarrow> byte \<Rightarrow> u32" where
  "crc_byte poly c b = crc_tab poly (ucast c XOR b) XOR drop_bit 8 c"

definition crc_update :: "u32 \<Rightarrow> u32 \<Rightarrow> bytes \<Rightarrow> u32" where
  "crc_update poly c bs = NOT (foldl (crc_byte poly) (NOT c) bs)"

definition crc_ieee :: "bytes \<Rightarrow> u32" where
  "crc_ieee bs = crc_update 0xEDB88320 0 bs"

definition crc_koopman :: "bytes \<Rightarrow> u32" where
  "crc_koopman bs = crc_update 0xEB31D82E 0 bs"

lemma crc_bit_odd: "crc_bit poly c = (if odd c then drop_bit 1 c XOR poly else drop_bit 1 c)"
  by (simp add: crc_bit_def and_one_eq odd_iff_mod_2_eq_one)

subsection \<open>Linearity and injectivity of a round\<close>

lemma crc_bit_xor: "crc_bit poly (x XOR y) = crc_bit poly x XOR crc_bit poly y"
  by (auto simp: crc_bit_odd xor.assoc xor.commute xor.left_commute even_xor_iff)

lemma crc_bits_xor: "(crc_bit poly ^^ n) (x XOR y) = (crc_bit poly ^^ n) x XOR (crc_bit poly ^^ n) y"
  by (induction n) (auto simp: crc_bit_xor)

lemma crc_bits_push: "n \<le> 32 \<Longrightarrow> (crc_bit poly ^^ n) (push_bit n (take_bit (32 - n) w)) = take_bit (32 - n) w"
proof (induction n arbitrary: w)
  case 0
  then show ?case by simp
next
  case (Suc n)
  have "push_bit (Suc n) (take_bit (32 - Suc n) w) = push_bit n (take_bit (32 - n) (push_bit 1 (take_bit (32 - Suc n) w)))"
  proof (rule bit_word_eqI)
    fix k assume "k < LENGTH(32)"
    then show "bit (push_bit (Suc n) (take_bit (32 - Suc n) w)) k
        = bit (push_bit n (take_bit (32 - n) (push_bit 1 (take_bit (32 - Suc n) w)))) k"
      using Suc.prems by (cases "Suc n \<le> k") (auto simp: bit_push_bit_iff bit_take_bit_iff Suc_diff_le)
  qed
  then have "(crc_bit poly ^^ Suc n) (push_bit (Suc n) (take_bit (32 - Suc n) w))
      = crc_bit poly (take_bit (32 - n) (push_bit 1 (take_bit (32 - Suc n) w)))"
    using Suc by (simp del: push_bit_Suc)
  also have "take_bit (32 - n) (push_bit 1 (take_bit (32 - Suc n) w)) = push_bit 1 (take_bit (32 - Suc n) w)"
  proof -
    have "32 - n = Suc (32 - Suc n)" using Suc.prems by simp
    then show ?thesis by (simp only: take_bit_push_bit diff_Suc_1 take_bit_take_bit min.idem)
  qed
  also have "crc_bit poly (push_bit 1 (take_bit (32 - Suc n) w)) = take_bit (32 - Suc n) w"
  proof -
    have "even (push_bit 1 (take_bit (32 - Suc n) w))" by simp
    moreover have "drop_bit 1 (push_bit 1 (take_bit (32 - Suc n) w)) = take_bit (32 - Suc n) w"
      by (intro bit_word_eqI) (auto simp: bit_simps simp del: push_bit_Suc)
    ultimately show ?thesis by (simp add: crc_bit_odd)
  qed
  finally show ?case .
qed

lemma crc_byte_eq: "crc_byte poly c b = (crc_bit poly ^^ 8) (c XOR ucast b)"
proof -
  have "c XOR ucast b = ucast (ucast c XOR b) XOR push_bit 8 (take_bit (32 - 8) (drop_bit 8 c))"
    by (intro bit_word_eqI) (auto simp: bit_simps dest: bit_imp_le_length)
  moreover have "take_bit (32 - 8) (drop_bit 8 c) = drop_bit 8 c"
    by (intro bit_word_eqI) (auto simp: bit_simps dest: bit_imp_le_length)
  ultimately show ?thesis
    using crc_bits_push [of 8 poly "drop_bit 8 c"]
    by (simp only: crc_bits_xor crc_byte_def crc_tab_def) 
qed

lemma xor_cancel: "a XOR c = b XOR c \<Longrightarrow> a = (b :: 'a :: len word)"
  by (metis xor.assoc xor.right_neutral xor_self_eq)

lemma crc_bit_inj: "bit poly 31 \<Longrightarrow> crc_bit poly x = crc_bit poly y \<Longrightarrow> x = y"
proof -
  assume p: "bit poly 31" and e: "crc_bit poly x = crc_bit poly y"
  have top: "bit (crc_bit poly z) 31 = odd z" for z
    using p by (auto simp: crc_bit_odd bit_simps dest: bit_imp_le_length)
  have o: "odd x = odd y" using e top by metis
  then have d: "drop_bit 1 x = drop_bit 1 y"
    using e by (auto simp: crc_bit_odd split: if_splits dest: xor_cancel)
  show "x = y"
  proof (rule bit_word_eqI)
    fix n assume "n < LENGTH(32)"
    show "bit x n = bit y n"
    proof (cases n)
      case 0
      then show ?thesis using o by (simp add: bit_0)
    next
      case (Suc m)
      have "bit (drop_bit 1 x) m = bit (drop_bit 1 y) m" using d by simp
      then show ?thesis using Suc by (simp add: bit_drop_bit_eq)
    qed
  qed
qed

lemma crc_bits_inj: "bit poly 31 \<Longrightarrow> (crc_bit poly ^^ n) x = (crc_bit poly ^^ n) y \<Longrightarrow> x = y"
  by (induction n) (auto dest: crc_bit_inj)

lemma le_word_bound: "length bs \<le> n \<Longrightarrow> take_bit (8 * n) (le_word bs :: 'a :: len word) = le_word bs"
proof (induction bs arbitrary: n)
  case Nil
  then show ?case by simp
next
  case (Cons b bs)
  then obtain m where m: "n = Suc m" by (cases n) auto
  with Cons have IH: "take_bit (8 * m) (le_word bs :: 'a word) = le_word bs" by simp
  have "take_bit (8 * n) (push_bit 8 (le_word bs :: 'a word)) = push_bit 8 (le_word bs)"
    using m by (simp add: take_bit_push_bit IH)
  moreover have "take_bit (8 * n) (ucast b :: 'a word) = ucast b"
    using m by (intro bit_word_eqI) (auto simp: bit_simps dest: bit_imp_le_length)
  ultimately show ?case by simp
qed

lemma crc_window: "length bs \<le> 4 \<Longrightarrow>
  foldl (crc_byte poly) c bs = (crc_bit poly ^^ (8 * length bs)) (c XOR le_word bs)"
proof (induction bs arbitrary: c)
  case Nil
  then show ?case by simp
next
  case (Cons b bs)
  let ?w = "le_word bs :: u32"
  have w: "take_bit (32 - 8) ?w = ?w"
    using Cons.prems le_word_bound [of bs 3] by simp
  have "crc_byte poly c b XOR ?w = (crc_bit poly ^^ 8) ((c XOR ucast b) XOR push_bit 8 ?w)"
    using crc_bits_push [of 8 poly ?w] by (simp only: crc_bits_xor crc_byte_eq w)
  also have "(c XOR ucast b) XOR push_bit 8 ?w = c XOR le_word (b # bs)"
    by (intro bit_word_eqI) (auto simp: bit_simps dest: bit_imp_le_length)
  finally have e: "crc_byte poly c b XOR ?w = (crc_bit poly ^^ 8) (c XOR le_word (b # bs))" .
  have "foldl (crc_byte poly) c (b # bs) = (crc_bit poly ^^ (8 * length bs)) (crc_byte poly c b XOR ?w)"
    using Cons by simp
  also have "\<dots> = (crc_bit poly ^^ (8 * length (b # bs))) (c XOR le_word (b # bs))"
    by (simp only: e funpow_add [symmetric, THEN fun_cong, unfolded comp_def] list.size)
      (simp add: funpow_add algebra_simps)
  finally show ?case .
qed

lemma crc_fold_inj: "bit poly 31 \<Longrightarrow> foldl (crc_byte poly) c bs = foldl (crc_byte poly) d bs \<Longrightarrow> c = d"
proof (induction bs arbitrary: c d)
  case Nil
  then show ?case by simp
next
  case (Cons b bs)
  then have "crc_byte poly c b = crc_byte poly d b" by simp
  then have "c XOR ucast b = d XOR ucast b"
    unfolding crc_byte_eq by (rule crc_bits_inj [OF Cons.prems(1)])
  then show ?case by (rule xor_cancel)
qed

lemma le_word_inj: "length bs = length cs \<Longrightarrow> length bs \<le> 4 \<Longrightarrow> (le_word bs :: u32) = le_word cs \<Longrightarrow> bs = cs"
  using le_bytes_inject [of bs "length bs", where 'a = 32] le_bytes_inject [of cs "length bs", where 'a = 32]
  by simp

lemma crc_burst:
  assumes poly: "bit poly 31" and len: "length m \<le> 4" "length m' = length m"
    and eq: "crc_update poly c (pre @ m @ post) = crc_update poly c (pre @ m' @ post)"
  shows "m = m'"
proof -
  let ?s = "foldl (crc_byte poly) (NOT c) pre"
  have "foldl (crc_byte poly) (foldl (crc_byte poly) ?s m) post = foldl (crc_byte poly) (foldl (crc_byte poly) ?s m') post"
    using eq by (simp add: crc_update_def)
  then have "foldl (crc_byte poly) ?s m = foldl (crc_byte poly) ?s m'"
    by (rule crc_fold_inj [OF poly])
  then have "?s XOR le_word m = ?s XOR le_word m'"
    using len by (auto simp: crc_window intro: crc_bits_inj [OF poly])
  then have "(le_word m :: u32) = le_word m'"
    by (metis xor.commute xor_cancel)
  then show ?thesis using len by (intro le_word_inj) auto
qed

subsection \<open>What a stored checksum detects\<close>

locale checksum =
  fixes sum :: "bytes \<Rightarrow> u32"
  assumes burst: "length m \<le> 4 \<Longrightarrow> length m' = length m \<Longrightarrow> m \<noteq> m' \<Longrightarrow>
    sum (pre @ m @ post) \<noteq> sum (pre @ m' @ post)"
begin

lemma single_byte:
  assumes "i < length bs" and "bs ! i \<noteq> b"
  shows "sum (bs[i := b]) \<noteq> sum bs"
proof -
  have "bs = take i bs @ [bs ! i] @ drop (Suc i) bs"
    using assms(1) by (simp add: id_take_nth_drop)
  moreover have "bs[i := b] = take i bs @ [b] @ drop (Suc i) bs"
    using assms(1) by (simp add: upd_conv_take_nth_drop)
  ultimately show ?thesis
    using burst [of "[b]" "[bs ! i]" "take i bs" "drop (Suc i) bs"] assms(2) by simp
qed

lemma swap_adjacent:
  assumes "a \<noteq> b"
  shows "sum (pre @ [a, b] @ post) \<noteq> sum (pre @ [b, a] @ post)"
  using burst [of "[a, b]" "[b, a]" pre post] assms by simp

end

interpretation ieee: checksum crc_ieee
proof
  fix m m' pre post :: bytes
  assume "length m \<le> 4" "length m' = length m" "m \<noteq> m'"
  then show "crc_ieee (pre @ m @ post) \<noteq> crc_ieee (pre @ m' @ post)"
    using crc_burst [of "0xEDB88320" m m' 0 pre post] by (auto simp: crc_ieee_def)
qed

interpretation koopman: checksum crc_koopman
proof
  fix m m' pre post :: bytes
  assume "length m \<le> 4" "length m' = length m" "m \<noteq> m'"
  then show "crc_koopman (pre @ m @ post) \<noteq> crc_koopman (pre @ m' @ post)"
    using crc_burst [of "0xEB31D82E" m m' 0 pre post] by (auto simp: crc_koopman_def)
qed

end
