(* ===== verification/Wal_Lz4.thy ===== *)
theory Wal_Lz4
  imports Go_Binary
begin

text \<open>
  The LZ4 block codec of \<open>internal/WAL/WR/lz4/lz4.go\<close>: the greedy hash-table compressor, the
  decompressor with its error returns, the round trip between them and the size bound that
  \<open>CompressBound\<close> promises. Positions and lengths are natural numbers: they are bounded by the
  length of a slice, so the \<open>int\<close> arithmetic of the code does not leave its range.
\<close>

subsection \<open>Constants and hashing\<close>

definition min_match :: nat where "min_match = 4"
definition mfl_limit :: nat where "mfl_limit = 15"
definition hash_size :: nat where "hash_size = 4096"

declare min_match_def [simp] mfl_limit_def [simp]

definition compress_bound :: "nat \<Rightarrow> nat" where
  "compress_bound n = n + n div 255 + 16"

text \<open>\<open>hash4\<close> reads four bytes at \<open>i\<close>; \<open>hashLog\<close> is 12, so the index has 12 bits.\<close>

definition hash4 :: "bytes \<Rightarrow> nat \<Rightarrow> nat" where
  "hash4 src i =
     (let v = (ucast (src ! i) OR push_bit 8 (ucast (src ! (i + 1))) OR
               push_bit 16 (ucast (src ! (i + 2))) OR push_bit 24 (ucast (src ! (i + 3))) :: u32)
      in unat (drop_bit (32 - 12) (v * 2654435761) AND 0xFFF))"

definition bytes_equal4 :: "bytes \<Rightarrow> bytes \<Rightarrow> bool" where
  "bytes_equal4 a b \<longleftrightarrow> a ! 0 = b ! 0 \<and> a ! 1 = b ! 1 \<and> a ! 2 = b ! 2 \<and> a ! 3 = b ! 3"

subsection \<open>The compressor\<close>

text \<open>The forward extension of a match of \<open>m\<close> bytes between positions \<open>c\<close> and \<open>i\<close>.\<close>

function extend_match :: "bytes \<Rightarrow> nat \<Rightarrow> nat \<Rightarrow> nat \<Rightarrow> nat" where
  "extend_match src c i m =
     (if i + m < length src \<and> src ! (c + m) = src ! (i + m) then extend_match src c i (Suc m) else m)"
  by pat_completeness auto
termination
  by (relation "measure (\<lambda>(src, c, i, m). length src - (i + m))") auto

declare extend_match.simps [simp del]

definition find_match :: "bytes \<Rightarrow> nat \<Rightarrow> int list \<Rightarrow> nat \<times> nat \<times> int list" where
  "find_match src i table =
     (if length src < i + min_match then (0, 0, table)
      else
        let h = hash4 src i; candidate = table ! h; table' = table[h := int i]
        in if i < min_match then (0, 0, table')
           else if candidate < 0 then (0, 0, table')
           else
             let offset = int i - candidate
             in if offset < int min_match \<or> 65535 < offset then (0, 0, table')
                else if \<not> bytes_equal4 (sub src (nat candidate) (nat candidate + 4)) (sub src i (i + 4))
                then (0, 0, table')
                else (extend_match src (nat candidate) i min_match, nat offset, table'))"

text \<open>The continuation bytes of a length of at least \<open>mflLimit\<close>.\<close>

fun emit_length :: "nat \<Rightarrow> bytes" where
  "emit_length n = (if 255 \<le> n then 255 # emit_length (n - 255) else [of_nat n])"

declare emit_length.simps [simp del]

definition emit_sequence :: "bytes \<Rightarrow> bytes \<Rightarrow> nat \<Rightarrow> nat \<Rightarrow> nat \<Rightarrow> nat \<Rightarrow> bytes" where
  "emit_sequence dst src literal_start literal_len match_off match_len =
     (let stored = match_len - min_match;
          hi = (if mfl_limit \<le> literal_len then push_bit 4 (of_nat mfl_limit) else push_bit 4 (of_nat literal_len));
          lo = (if mfl_limit \<le> stored then of_nat mfl_limit else of_nat stored)
      in dst @ [hi OR lo]
           @ (if mfl_limit \<le> literal_len then emit_length (literal_len - mfl_limit) else [])
           @ sub src literal_start (literal_start + literal_len)
           @ [of_nat match_off, of_nat (match_off div 256)]
           @ (if mfl_limit \<le> stored then emit_length (stored - mfl_limit) else []))"

definition emit_final_literals :: "bytes \<Rightarrow> bytes \<Rightarrow> nat \<Rightarrow> nat \<Rightarrow> bytes" where
  "emit_final_literals dst src literal_start literal_len =
     dst @ [if mfl_limit \<le> literal_len then push_bit 4 (of_nat mfl_limit) else push_bit 4 (of_nat literal_len)]
       @ (if mfl_limit \<le> literal_len then emit_length (literal_len - mfl_limit) else [])
       @ sub src literal_start (literal_start + literal_len)"

text \<open>The table update after a match: every position from \<open>literalStart + 1\<close> to the new \<open>i\<close>.\<close>

definition note_positions :: "bytes \<Rightarrow> nat \<Rightarrow> nat \<Rightarrow> int list \<Rightarrow> int list" where
  "note_positions src lo hi table =
     foldl (\<lambda>t j. if j + min_match \<le> length src then t[hash4 src j := int j] else t) table [lo..<hi]"

text \<open>The main loop of \<open>compressBlock\<close>; its state is \<open>i\<close>, \<open>literalStart\<close>, the table and \<open>dst\<close>.\<close>

function compress_loop :: "bytes \<Rightarrow> nat \<Rightarrow> nat \<Rightarrow> int list \<Rightarrow> bytes \<Rightarrow> bytes" where
  "compress_loop src i literal_start table dst =
     (if i < length src then
        (case find_match src i table of (match_len, match_off, table') \<Rightarrow>
           if match_len < min_match then compress_loop src (i + 1) literal_start table' dst
           else
             let dst' = emit_sequence dst src literal_start (i - literal_start) match_off match_len;
                 i' = i + match_len
             in compress_loop src i' i' (note_positions src (literal_start + 1) i' table') dst')
      else if literal_start < length src
      then emit_final_literals dst src literal_start (length src - literal_start)
      else dst)"
  by pat_completeness auto
termination
  by (relation "measure (\<lambda>(src, i, ls, t, dst). length src - i)") auto

declare compress_loop.simps [simp del]

definition compress_block :: "bytes \<Rightarrow> bytes \<Rightarrow> bytes" where
  "compress_block src dst = compress_loop src 0 0 (replicate hash_size (- 1)) dst"

definition compress :: "bytes \<Rightarrow> bytes" where
  "compress src = (if src = [] then [] else compress_block src [])"

subsection \<open>The decompressor\<close>

datatype lz4_error = LiteralLengthTruncated | LiteralDataTruncated | MatchOffsetTruncated
  | OffsetOutOfRange | MatchLengthTruncated

text \<open>The continuation bytes after a length nibble of 15: \<open>None\<close> when the input ends.\<close>

function read_length :: "bytes \<Rightarrow> nat \<Rightarrow> nat \<Rightarrow> (nat \<times> nat) option" where
  "read_length src pos len =
     (if length src \<le> pos then None
      else if src ! pos \<noteq> 255 then Some (pos + 1, len + unat (src ! pos))
      else read_length src (pos + 1) (len + unat (src ! pos)))"
  by pat_completeness auto
termination
  by (relation "measure (\<lambda>(src, pos, len). length src - pos)") auto

declare read_length.simps [simp del]

text \<open>The byte-by-byte copy: a byte just appended is visible to the next step.\<close>

fun copy_match :: "bytes \<Rightarrow> nat \<Rightarrow> nat \<Rightarrow> bytes" where
  "copy_match dst start 0 = dst"
| "copy_match dst start (Suc k) = copy_match (dst @ [dst ! start]) (Suc start) k"

definition read_nibble_length :: "bytes \<Rightarrow> nat \<Rightarrow> nat \<Rightarrow> (nat \<times> nat) option" where
  "read_nibble_length src pos len = (if len = mfl_limit then read_length src pos len else Some (pos, len))"

text \<open>
  One iteration of the loop of \<open>Decompress\<close>: \<open>Inl\<close> when the loop ends (an error, or the block
  ended after its literals), \<open>Inr (pos, dst)\<close> when it goes on.
\<close>

definition decompress_step :: "bytes \<Rightarrow> nat \<Rightarrow> bytes \<Rightarrow> (lz4_error, bytes) outcome + nat \<times> bytes" where
  "decompress_step src pos dst =
     (let token = src ! pos
      in case read_nibble_length src (pos + 1) (unat (drop_bit 4 token)) of
           None \<Rightarrow> Inl (Fail LiteralLengthTruncated)
         | Some (pos, literal_len) \<Rightarrow>
             if length src < pos + literal_len then Inl (Fail LiteralDataTruncated)
             else
               let dst = dst @ sub src pos (pos + literal_len); pos = pos + literal_len
               in if length src \<le> pos then Inl (Ok dst)
                  else if length src < pos + 2 then Inl (Fail MatchOffsetTruncated)
                  else
                    let offset = unat (src ! pos) + 256 * unat (src ! (pos + 1)); pos = pos + 2
                    in if offset = 0 \<or> length dst < offset then Inl (Fail OffsetOutOfRange)
                       else
                         case read_nibble_length src pos (unat (token AND 0x0F)) of
                           None \<Rightarrow> Inl (Fail MatchLengthTruncated)
                         | Some (pos, match_len) \<Rightarrow>
                             Inr (pos, copy_match dst (length dst - offset) (match_len + min_match)))"

lemma read_length_pos: "read_length src pos len = Some (pos', len') \<Longrightarrow> pos < pos'"
  by (induction src pos len rule: read_length.induct)
    (subst (asm) (2) read_length.simps, auto split: if_splits)

lemma read_nibble_length_pos: "read_nibble_length src pos len = Some (pos', len') \<Longrightarrow> pos \<le> pos'"
  by (auto simp: read_nibble_length_def dest: read_length_pos split: if_splits)

lemma decompress_step_pos: "decompress_step src pos dst = Inr (pos', dst') \<Longrightarrow> pos < pos'"
  by (auto simp: decompress_step_def Let_def split: option.splits if_splits
      dest!: read_nibble_length_pos)

function decompress_loop :: "bytes \<Rightarrow> nat \<Rightarrow> bytes \<Rightarrow> (lz4_error, bytes) outcome" where
  "decompress_loop src pos dst =
     (if pos < length src then
        (case decompress_step src pos dst of Inl r \<Rightarrow> r | Inr (pos', dst') \<Rightarrow> decompress_loop src pos' dst')
      else Ok dst)"
  by pat_completeness auto
termination
  by (relation "measure (\<lambda>(src, pos, dst). length src - pos)") (auto dest: decompress_step_pos)

declare decompress_loop.simps [simp del]

definition decompress :: "bytes \<Rightarrow> (lz4_error, bytes) outcome" where
  "decompress src = (if src = [] then Ok [] else decompress_loop src 0 [])"

subsection \<open>Lengths and nibbles\<close>

lemma emit_length_not_Nil [simp]: "emit_length n \<noteq> []"
  by (subst emit_length.simps) simp

lemma read_emit_length:
  "read_length (pre @ emit_length n @ post) (length pre) len = Some (length pre + length (emit_length n), len + n)"
proof (induction n arbitrary: pre len rule: emit_length.induct)
  case (1 n)
  show ?case
  proof (cases "255 \<le> n")
    case True
    have "read_length (pre @ emit_length n @ post) (length pre) len
        = read_length ((pre @ [255]) @ emit_length (n - 255) @ post) (length (pre @ [255])) (len + 255)"
      using True by (subst read_length.simps) (simp add: emit_length.simps [of n] nth_append)
    also have "\<dots> = Some (length pre + length (emit_length n), len + n)"
      using True by (simp only: 1 [OF True]) (simp add: emit_length.simps [of n])
    finally show ?thesis .
  next
    case False
    then have "(of_nat n :: byte) \<noteq> 255"
      using unat_of_nat_byte [of n] by auto
    with False show ?thesis
      by (subst read_length.simps) (simp add: emit_length.simps [of n] nth_append unat_of_nat_byte)
  qed
qed

text \<open>The bytes behind a length nibble, and the token of two capped lengths.\<close>

definition length_ext :: "nat \<Rightarrow> bytes" where
  "length_ext n = (if 15 \<le> n then emit_length (n - 15) else [])"

definition token_byte :: "nat \<Rightarrow> nat \<Rightarrow> byte" where
  "token_byte a b = push_bit 4 (of_nat (min 15 a)) OR of_nat (min 15 b)"

lemma read_nibble_emit:
  "read_nibble_length (pre @ length_ext n @ post) (length pre) (min 15 n) = Some (length pre + length (length_ext n), n)"
  by (auto simp: read_nibble_length_def read_emit_length min_def length_ext_def)

lemma nibble_byte: "(if 15 \<le> n then of_nat 15 else of_nat n) = (of_nat (min 15 n) :: byte)"
  by (simp add: min_def)

lemma token_nibbles:
  assumes "a < 16" "b < 16"
  defines "t \<equiv> push_bit 4 (of_nat a) OR of_nat b :: byte"
  shows "unat (drop_bit 4 t) = a" and "unat (t AND 0x0F) = b"
proof -
  have hi: "unat (push_bit 4 (of_nat a :: byte)) = 16 * a"
    using assms(1) by (simp add: push_bit_eq_mult unat_of_nat_byte unat_word_ariths)
  have lo: "take_bit 4 (of_nat b :: byte) = of_nat b"
    using assms(2) by (intro word_unat_eq_iff [THEN iffD2])
      (simp add: unsigned_take_bit_eq unat_of_nat_byte take_bit_nat_eq_self)
  have "drop_bit 4 t = drop_bit 4 (push_bit 4 (of_nat a)) OR drop_bit 4 (take_bit 4 (of_nat b))"
    unfolding t_def lo by (rule drop_bit_or)
  also have "\<dots> = take_bit 4 (of_nat a)"
    by (intro bit_word_eqI) (auto simp: bit_simps)
  also have "\<dots> = of_nat a"
    using assms(1) by (intro word_unat_eq_iff [THEN iffD2])
      (simp add: unsigned_take_bit_eq unat_of_nat_byte take_bit_nat_eq_self)
  finally show "unat (drop_bit 4 t) = a"
    using assms(1) by (simp add: unat_of_nat_byte)
  have "(0x0F :: byte) = mask 4" by (simp add: mask_eq_exp_minus_1)
  then have "t AND 0x0F = take_bit 4 t" by (simp only: take_bit_eq_mask)
  also have "\<dots> = take_bit 4 (of_nat b)"
    unfolding t_def by (intro bit_word_eqI) (auto simp: bit_simps)
  finally show "unat (t AND 0x0F) = b"
    using assms(2) by (simp add: lo unat_of_nat_byte)
qed

lemma token_byte_nibbles: "unat (drop_bit 4 (token_byte a b)) = min 15 a" "unat (token_byte a b AND 0x0F) = min 15 b"
  unfolding token_byte_def by (rule token_nibbles; simp)+

subsection \<open>Matches\<close>

lemma copy_match_take:
  assumes "i + m \<le> length src" and "0 < off" and "off \<le> i" and "\<forall>k<m. src ! (i - off + k) = src ! (i + k)"
  shows "copy_match (take i src) (i - off) m = take (i + m) src"
  using assms
proof (induction m arbitrary: i)
  case 0
  then show ?case by simp
next
  case (Suc m)
  have "take i src ! (i - off) = src ! i"
    using Suc.prems(4) [rule_format, of 0] Suc.prems(2,3) by simp
  then have snoc: "take i src @ [take i src ! (i - off)] = take (Suc i) src"
    using Suc.prems(1) by (simp add: take_Suc_conv_app_nth)
  have "copy_match (take i src) (i - off) (Suc m) = copy_match (take (Suc i) src) (Suc i - off) m"
    using snoc Suc.prems(3) by (simp add: Suc_diff_le)
  also have "\<dots> = take (Suc i + m) src"
  proof (rule Suc.IH)
    show "\<forall>k<m. src ! (Suc i - off + k) = src ! (Suc i + k)"
    proof (intro allI impI)
      fix k assume "k < m"
      then show "src ! (Suc i - off + k) = src ! (Suc i + k)"
        using Suc.prems(4) [rule_format, of "Suc k"] Suc.prems(3) by (simp add: Suc_diff_le)
    qed
  qed (use Suc.prems in auto)
  finally show ?case by simp
qed

lemma extend_match_spec:
  "\<forall>k<m. src ! (c + k) = src ! (i + k) \<Longrightarrow> i + m \<le> length src \<Longrightarrow> n = extend_match src c i m \<Longrightarrow>
   m \<le> n \<and> i + n \<le> length src \<and> (\<forall>k<n. src ! (c + k) = src ! (i + k))"
proof (induction src c i m rule: extend_match.induct)
  case (1 src c i m)
  show ?case
  proof (cases "i + m < length src \<and> src ! (c + m) = src ! (i + m)")
    case True
    then have "\<forall>k<Suc m. src ! (c + k) = src ! (i + k)"
      using "1.prems"(1) by (auto simp: less_Suc_eq)
    with True "1.IH" "1.prems"(3) show ?thesis
      by (simp add: extend_match.simps [of src c i m])
  next
    case False
    then have "n = m" using "1.prems"(3) by (auto simp: extend_match.simps [of src c i m])
    with "1.prems" show ?thesis by simp
  qed
qed

lemma bytes_equal4_sub:
  assumes "bytes_equal4 (sub src c (c + 4)) (sub src i (i + 4))" and "i + 4 \<le> length src" and "c + 4 \<le> length src"
  shows "\<forall>k<4. src ! (c + k) = src ! (i + k)"
proof (intro allI impI)
  fix k :: nat assume "k < 4"
  then have "k \<in> {0, 1, 2, 3}" by auto
  with assms show "src ! (c + k) = src ! (i + k)"
    by (auto simp: bytes_equal4_def nth_sub)
qed

text \<open>A reported match is a real one: in range, at an encodable offset, equal byte for byte.\<close>

lemma find_match_sound:
  assumes "find_match src i table = (m, off, table')" and "4 \<le> m"
  shows "0 < off \<and> off \<le> i \<and> off \<le> 65535 \<and> i + m \<le> length src \<and> (\<forall>k<m. src ! (i - off + k) = src ! (i + k))"
proof -
  let ?c = "table ! hash4 src i"
  from assms have c: "0 \<le> ?c" "4 \<le> int i - ?c" "int i - ?c \<le> 65535" "i + 4 \<le> length src"
    and eq: "bytes_equal4 (sub src (nat ?c) (nat ?c + 4)) (sub src i (i + 4))"
    and m: "m = extend_match src (nat ?c) i 4" and off: "off = nat (int i - ?c)"
    by (auto simp: find_match_def Let_def split: if_splits)
  have "nat ?c + 4 \<le> length src" using c by linarith
  then have "\<forall>k<4. src ! (nat ?c + k) = src ! (i + k)"
    using bytes_equal4_sub [OF eq] c by simp
  from extend_match_spec [OF this _ m] c(4)
  have "i + m \<le> length src" "\<forall>k<m. src ! (nat ?c + k) = src ! (i + k)" by auto
  moreover have "i - off = nat ?c" "0 < off" "off \<le> i" "off \<le> 65535"
    using c off by linarith+
  ultimately show ?thesis by simp
qed

lemma find_match_short: "find_match src i table = (m, off, table') \<Longrightarrow> m < 4 \<or> 4 \<le> m \<and> i + m \<le> length src"
  using find_match_sound by fastforce

subsection \<open>Round trip\<close>

text \<open>What one emitted sequence contributes to the output.\<close>

definition sequence_bytes :: "bytes \<Rightarrow> nat \<Rightarrow> nat \<Rightarrow> nat \<Rightarrow> nat \<Rightarrow> bytes" where
  "sequence_bytes src ls ll off ml = emit_sequence [] src ls ll off ml"

lemma emit_sequence_append: "emit_sequence dst src ls ll off ml = dst @ sequence_bytes src ls ll off ml"
  by (simp add: sequence_bytes_def emit_sequence_def Let_def)

lemma offset_bytes: "off \<le> 65535 \<Longrightarrow> unat (of_nat off :: byte) + 256 * unat (of_nat (off div 256) :: byte) = off"
  by (simp add: unat_of_nat take_bit_eq_mod)

lemma decompress_step_sequence:
  assumes m: "4 \<le> ml" "i + ml \<le> length src" "0 < off" "off \<le> i" "off \<le> 65535"
      "\<forall>k<ml. src ! (i - off + k) = src ! (i + k)" and ls: "ls \<le> i"
  shows "decompress_step (pre @ sequence_bytes src ls (i - ls) off ml @ post) (length pre) (take ls src)
    = Inr (length pre + length (sequence_bytes src ls (i - ls) off ml), take (i + ml) src)"
proof -
  let ?ll = "i - ls" and ?st = "ml - 4"
  let ?t = "token_byte ?ll ?st"
  let ?e1 = "length_ext ?ll"
  let ?lit = "sub src ls i"
  let ?o = "[of_nat off, of_nat (off div 256)] :: bytes"
  let ?e2 = "length_ext ?st"
  have seq: "sequence_bytes src ls ?ll off ml = [?t] @ ?e1 @ ?lit @ ?o @ ?e2"
    using ls by (auto simp: sequence_bytes_def emit_sequence_def Let_def min_def length_ext_def token_byte_def)
  let ?d = "pre @ sequence_bytes src ls ?ll off ml @ post"
  let ?p1 = "Suc (length pre + length ?e1)"
  have len_lit: "length ?lit = ?ll" using m(2) ls by simp
  have tok: "?d ! length pre = ?t" by (simp add: seq nth_append)
  have n1: "read_nibble_length ?d (length pre + 1) (unat (drop_bit 4 ?t)) = Some (?p1, ?ll)"
    using read_nibble_emit [of "pre @ [?t]" ?ll "?lit @ ?o @ ?e2 @ post"]
    by (simp add: seq token_byte_nibbles)
  have lit: "sub ?d ?p1 (?p1 + ?ll) = ?lit"
    using sub_mid [of "pre @ [?t] @ ?e1" ?lit "?o @ ?e2 @ post"] len_lit by (simp add: seq del: length_sub)
  let ?p2 = "?p1 + ?ll"
  have o1: "?d ! ?p2 = of_nat off" "?d ! (?p2 + 1) = of_nat (off div 256)"
    using len_lit nth_append_length [of "pre @ [?t] @ ?e1 @ ?lit" "of_nat off" "of_nat (off div 256) # ?e2 @ post"]
      nth_append_length [of "pre @ [?t] @ ?e1 @ ?lit @ [of_nat off]" "of_nat (off div 256)" "?e2 @ post"]
    by (simp_all add: seq add.assoc del: length_sub)
  have lenD: "?p2 + 2 \<le> length ?d"
    using len_lit by (simp add: seq del: length_sub)
  have n2: "read_nibble_length ?d (?p2 + 2) (unat (?t AND 0x0F)) = Some (?p2 + 2 + length ?e2, ?st)"
    using read_nibble_emit [of "pre @ [?t] @ ?e1 @ ?lit @ ?o" ?st post] len_lit
    by (simp add: seq token_byte_nibbles add.assoc del: length_sub)
  have dst: "take ls src @ ?lit = take i src"
    using sub_append [of 0 ls i src] ls by (simp add: sub_def)
  have cm: "copy_match (take i src) (i - off) ml = take (i + ml) src"
    by (rule copy_match_take) (use m in auto)
  have len_i: "length (take i src) = i" using m(2) by simp
  have tot: "length pre + length (sequence_bytes src ls ?ll off ml) = ?p2 + 2 + length ?e2"
    using len_lit by (simp add: seq del: length_sub)
  show ?thesis
    unfolding decompress_step_def Let_def tok n1 tot
    using lenD lit o1 n2 offset_bytes [OF m(5)] m(1,3,4) len_i
    by (simp add: dst cm)
qed

lemma decompress_step_final:
  assumes "ls < length src"
  shows "decompress_step (emit_final_literals pre src ls (length src - ls)) (length pre) (take ls src) = Inl (Ok src)"
proof -
  let ?ll = "length src - ls"
  let ?t = "token_byte ?ll 0"
  let ?e1 = "length_ext ?ll"
  let ?lit = "sub src ls (length src)"
  let ?d = "emit_final_literals pre src ls ?ll"
  let ?p1 = "Suc (length pre + length ?e1)"
  have d: "?d = pre @ [?t] @ ?e1 @ ?lit"
    using assms by (auto simp: emit_final_literals_def min_def length_ext_def token_byte_def)
  have len_lit: "length ?lit = ?ll" by simp
  have tok: "?d ! length pre = ?t" by (simp add: d nth_append)
  have n1: "read_nibble_length ?d (length pre + 1) (unat (drop_bit 4 ?t)) = Some (?p1, ?ll)"
    using read_nibble_emit [of "pre @ [?t]" ?ll ?lit]
    by (simp add: d token_byte_nibbles)
  have lit: "sub ?d ?p1 (?p1 + ?ll) = ?lit"
    using sub_mid [of "pre @ [?t] @ ?e1" ?lit "[]"] len_lit by (simp add: d del: length_sub)
  have lenD: "length ?d = ?p1 + ?ll" using len_lit by (simp add: d del: length_sub)
  have dst: "take ls src @ ?lit = src"
    by (simp add: sub_def)
  show ?thesis
    unfolding decompress_step_def Let_def tok n1
    using lenD lit dst by simp
qed

lemma sequence_bytes_not_Nil: "0 < length (sequence_bytes src ls ll off ml)"
  by (simp add: sequence_bytes_def emit_sequence_def Let_def)

text \<open>The output so far decodes to the input so far, whatever is appended to it.\<close>

definition decodes_to :: "bytes \<Rightarrow> bytes \<Rightarrow> bool" where
  "decodes_to dst out \<longleftrightarrow>
     (\<forall>post. decompress_loop (dst @ post) 0 [] = decompress_loop (dst @ post) (length dst) out)"

lemma decodes_to_sequence:
  assumes "decodes_to dst (take ls src)" and "4 \<le> ml" "i + ml \<le> length src" "0 < off" "off \<le> i" "off \<le> 65535"
      "\<forall>k<ml. src ! (i - off + k) = src ! (i + k)" "ls \<le> i"
  shows "decodes_to (emit_sequence dst src ls (i - ls) off ml) (take (i + ml) src)"
  unfolding decodes_to_def emit_sequence_append
proof
  fix post
  let ?s = "sequence_bytes src ls (i - ls) off ml"
  have "decompress_loop (dst @ ?s @ post) 0 [] = decompress_loop (dst @ ?s @ post) (length dst) (take ls src)"
    using assms(1) by (simp add: decodes_to_def)
  also have "\<dots> = decompress_loop (dst @ ?s @ post) (length dst + length ?s) (take (i + ml) src)"
    by (subst decompress_loop.simps)
      (use sequence_bytes_not_Nil decompress_step_sequence [OF assms(2-8)] in simp)
  finally show "decompress_loop ((dst @ ?s) @ post) 0 []
      = decompress_loop ((dst @ ?s) @ post) (length (dst @ ?s)) (take (i + ml) src)"
    by simp
qed

lemma compress_loop_decodes:
  "decodes_to dst (take ls src) \<Longrightarrow> ls \<le> i \<Longrightarrow> i \<le> length src \<Longrightarrow>
   decompress_loop (compress_loop src i ls table dst) 0 [] = Ok src"
proof (induction src i ls table dst rule: compress_loop.induct)
  case (1 src i ls table dst)
  show ?case
  proof (cases "i < length src")
    case True
    obtain m off t where f: "find_match src i table = (m, off, t)" by (cases "find_match src i table")
    show ?thesis
    proof (cases "m < 4")
      case short: True
      have "decompress_loop (compress_loop src (i + 1) ls t dst) 0 [] = Ok src"
        using True short f "1.prems" by (intro "1.IH"(1)) auto
      with True short f show ?thesis by (simp add: compress_loop.simps [of src i])
    next
      case False
      then have m4: "4 \<le> m" by simp
      from find_match_sound [OF f m4] have snd: "0 < off" "off \<le> i" "off \<le> 65535" "i + m \<le> length src"
        "\<forall>k<m. src ! (i - off + k) = src ! (i + k)" by auto
      have "decompress_loop (compress_loop src (i + m) (i + m) (note_positions src (ls + 1) (i + m) t)
          (emit_sequence dst src ls (i - ls) off m)) 0 [] = Ok src"
        using False m4 snd "1.prems" decodes_to_sequence
        by (intro "1.IH"(2) [OF True f [symmetric] refl _ refl refl]) auto
      with True False f show ?thesis by (simp add: compress_loop.simps [of src i] Let_def)
    qed
  next
    case end_reached: False
    show ?thesis
    proof (cases "ls < length src")
      case True
      let ?d = "emit_final_literals dst src ls (length src - ls)"
      obtain post where post: "?d = dst @ post" "post \<noteq> []"
        by (simp add: emit_final_literals_def)
      have "decompress_loop ?d 0 [] = decompress_loop ?d (length dst) (take ls src)"
        using "1.prems"(1) by (simp add: decodes_to_def post(1))
      also have "\<dots> = Ok src"
        by (subst decompress_loop.simps) (use post decompress_step_final [OF True, of dst] in auto)
      finally show ?thesis
        using end_reached True by (simp add: compress_loop.simps [of src i])
    next
      case False
      have "decompress_loop (dst @ []) 0 [] = decompress_loop (dst @ []) (length dst) (take ls src)"
        using "1.prems"(1) unfolding decodes_to_def by blast
      also have "\<dots> = Ok src"
        using False by (subst decompress_loop.simps) simp
      finally show ?thesis
        using end_reached False by (simp add: compress_loop.simps [of src i])
    qed
  qed
qed

subsection \<open>Size bound\<close>

lemma length_emit_length: "length (emit_length n) = Suc (n div 255)"
proof (induction n rule: emit_length.induct)
  case (1 n)
  show ?case
  proof (cases "255 \<le> n")
    case True
    then have "n div 255 = Suc ((n - 255) div 255)"
      by (metis le_add_diff_inverse2 div_add_self2 Suc_eq_plus1 zero_neq_numeral)
    with 1 True show ?thesis by (simp add: emit_length.simps [of n])
  qed (simp add: emit_length.simps [of n])
qed

lemma length_ext_cost: "255 * length (length_ext n) \<le> (if n < 15 then 0 else n + 240)"
  using div_times_less_eq_dividend [of "n - 15" 255]
  by (auto simp: length_ext_def length_emit_length)

lemma sequence_cost:
  assumes "4 \<le> ml" and "ls + ll \<le> length src"
  shows "255 * length (sequence_bytes src ls ll off ml) \<le> 256 * (ll + ml)"
proof -
  have "length (sequence_bytes src ls ll off ml) = 3 + length (length_ext ll) + ll + length (length_ext (ml - 4))"
    using assms(2) by (auto simp: sequence_bytes_def emit_sequence_def Let_def length_ext_def)
  moreover have "255 * length (length_ext ll) \<le> ll + 240"
    using length_ext_cost [of ll] by (auto split: if_splits)
  moreover have "255 * length (length_ext (ml - 4)) \<le> (if ml < 19 then 0 else ml + 236)"
    using length_ext_cost [of "ml - 4"] assms(1) by (auto split: if_splits)
  ultimately show ?thesis
    using assms(1) by (auto split: if_splits)
qed

lemma final_cost:
  assumes "ls \<le> length src" and "255 * length dst \<le> 256 * ls"
  shows "255 * length (emit_final_literals dst src ls (length src - ls)) \<le> 256 * length src + 495"
proof -
  let ?ll = "length src - ls"
  have "length (emit_final_literals dst src ls ?ll) = length dst + 1 + length (length_ext ?ll) + ?ll"
    using assms(1) by (auto simp: emit_final_literals_def length_ext_def)
  moreover have "255 * length (length_ext ?ll) \<le> ?ll + 240"
    using length_ext_cost [of ?ll] by (auto split: if_splits)
  ultimately show ?thesis
    using assms by (simp add: algebra_simps)
qed

lemma compress_loop_cost:
  "255 * length dst \<le> 256 * ls \<Longrightarrow> ls \<le> i \<Longrightarrow> i \<le> length src \<Longrightarrow>
   255 * length (compress_loop src i ls table dst) \<le> 256 * length src + 495"
proof (induction src i ls table dst rule: compress_loop.induct)
  case (1 src i ls table dst)
  show ?case
  proof (cases "i < length src")
    case True
    obtain m off t where f: "find_match src i table = (m, off, t)" by (cases "find_match src i table")
    show ?thesis
    proof (cases "m < 4")
      case short: True
      have "255 * length (compress_loop src (i + 1) ls t dst) \<le> 256 * length src + 495"
        using True short f "1.prems" by (intro "1.IH"(1)) auto
      with True short f show ?thesis by (simp add: compress_loop.simps [of src i])
    next
      case False
      then have m4: "4 \<le> m" and im: "i + m \<le> length src" using find_match_short [OF f] by auto
      have "255 * length (emit_sequence dst src ls (i - ls) off m) \<le> 256 * (i + m)"
        using sequence_cost [OF m4, of ls "i - ls" src off] "1.prems"
        by (simp add: emit_sequence_append)
      then have "255 * length (compress_loop src (i + m) (i + m) (note_positions src (ls + 1) (i + m) t)
          (emit_sequence dst src ls (i - ls) off m)) \<le> 256 * length src + 495"
        using False im by (intro "1.IH"(2) [OF True f [symmetric] refl _ refl refl]) auto
      with True False f show ?thesis by (simp add: compress_loop.simps [of src i] Let_def)
    qed
  next
    case False
    with "1.prems" final_cost [of ls src dst] show ?thesis
      by (subst compress_loop.simps) auto
  qed
qed

subsection \<open>The hash table stays in range\<close>

lemma hash4_bound: "hash4 src i < hash_size"
proof -
  let ?v = "(ucast (src ! i) OR push_bit 8 (ucast (src ! (i + 1))) OR
    push_bit 16 (ucast (src ! (i + 2))) OR push_bit 24 (ucast (src ! (i + 3))) :: u32)"
  have "unat (drop_bit (32 - 12) (?v * 2654435761) AND 0xFFF) \<le> unat (0xFFF :: u32)"
    using word_and_le1 by (simp only: word_le_nat_alt)
  then show ?thesis by (simp add: hash4_def hash_size_def Let_def)
qed

text \<open>
  Every table entry is \<open>-1\<close> or a position that was already passed, so a candidate is always
  a valid index of the input.
\<close>

definition table_ok :: "nat \<Rightarrow> int list \<Rightarrow> bool" where
  "table_ok i table \<longleftrightarrow> length table = hash_size \<and> (\<forall>v \<in> set table. - 1 \<le> v \<and> v < int i)"

lemma table_ok_init: "table_ok i (replicate hash_size (- 1))"
  by (auto simp: table_ok_def)

lemma table_ok_update: "table_ok i t \<Longrightarrow> j < i \<Longrightarrow> table_ok i (t[h := int j])"
  using set_update_subset_insert [of t h "int j"] by (fastforce simp: table_ok_def)

lemma table_ok_mono: "table_ok i t \<Longrightarrow> i \<le> j \<Longrightarrow> table_ok j t"
  by (force simp: table_ok_def)

lemma table_ok_note: "table_ok hi t \<Longrightarrow> table_ok hi (note_positions src lo hi t)"
proof -
  assume t: "table_ok hi t"
  have "set js \<subseteq> {..<hi} \<Longrightarrow> table_ok hi t \<Longrightarrow>
      table_ok hi (foldl (\<lambda>t j. if j + min_match \<le> length src then t[hash4 src j := int j] else t) t js)" for js
    by (induction js arbitrary: t) (auto intro: table_ok_update)
  moreover have "set [lo..<hi] \<subseteq> {..<hi}" by auto
  ultimately show ?thesis using t unfolding note_positions_def by blast
qed

lemma table_ok_step: "table_ok i t \<Longrightarrow> table_ok (Suc i) (t[h := int i])"
  using table_ok_mono [of i t "Suc i"] by (auto intro: table_ok_update)

lemma table_ok_find: "table_ok i t \<Longrightarrow> find_match src i t = (m, off, t') \<Longrightarrow> table_ok (Suc i) t'"
  by (auto simp: find_match_def Let_def intro: table_ok_step table_ok_mono split: if_splits)

lemma table_ok_candidate: "table_ok i t \<Longrightarrow> t ! hash4 src i < int i"
  using hash4_bound [of src i] by (simp add: table_ok_def)

lemma decompress_compress [simp, codec_rt]: "decompress (compress src) = Ok src"
proof (cases "src = []")
  case False
  have "decodes_to [] (take 0 src)" by (simp add: decodes_to_def)
  then have "decompress_loop (compress src) 0 [] = Ok src"
    using False by (simp add: compress_def compress_block_def compress_loop_decodes)
  then show ?thesis
    by (cases "compress src = []") (auto simp: decompress_def decompress_loop.simps [of "[]"])
qed (simp add: compress_def decompress_def)

subsection \<open>Properties\<close>

text \<open>C11. \<open>Decompress\<close> restores what \<open>Compress\<close> was given, for every input.\<close>

theorem lz4_roundtrip: "decompress (compress src) = Ok src"
  by (rule decompress_compress)

text \<open>The compressed block never outgrows the buffer that \<open>CompressBound\<close> reserves.\<close>

theorem lz4_bound: "length (compress src) \<le> compress_bound (length src)"
proof (cases "src = []")
  case False
  have "255 * length (compress src) \<le> 256 * length src + 495"
    using compress_loop_cost [of "[]" 0 0 src] False by (simp add: compress_def compress_block_def)
  then show ?thesis by (simp add: compress_bound_def)
qed (simp add: compress_def compress_bound_def)

end
