(* ===== verification/Wal_Record.thy ===== *)
theory Wal_Record
  imports Go_Crc32 Wal_Lz4
begin

text \<open>
  The WAL record and segment header formats of \<open>internal/WAL/WR/encode.go\<close> and \<open>header.go\<close>:
  \<open>[length:varint][body][crc32:4]\<close> with an optionally LZ4-compressed body, the per-type
  payloads, the decoder with its three error values and its run-time panics, and the 12-byte header.
  Cursor values are the code's \<open>int\<close>s; the sums that involve a length read from the wire are
  written with \<open>wrap64\<close>, the others are bounded by a buffer length plus \<open>MaxRecordLen\<close>.
\<close>

subsection \<open>Records\<close>

definition rt_data :: byte where "rt_data = 0"
definition rt_commit :: byte where "rt_commit = 1"
definition rt_rollback :: byte where "rt_rollback = 2"
definition rt_checkpoint :: byte where "rt_checkpoint = 3"
definition rt_merge :: byte where "rt_merge = 4"

named_theorems rt_types "the record type constants"
declare rt_data_def [rt_types] rt_commit_def [rt_types] rt_rollback_def [rt_types]
  rt_checkpoint_def [rt_types] rt_merge_def [rt_types]

record log_record =
  rtype :: byte
  txn_id :: u64
  rkey :: bytes
  rvalue :: bytes
  block_id :: u64
  pay_crc_fail :: bool

datatype wal_error = ErrTruncatedRecord | ErrUnknownRecord | ErrCorrupt

definition max_record_len :: nat where "max_record_len = 4 * 1024 * 1024"

subsection \<open>Encoding\<close>

definition append_payload :: "bytes \<Rightarrow> log_record \<Rightarrow> bytes" where
  "append_payload buf r =
     (if rtype r = rt_data then
        buf @ put_u64 (block_id r) @ put_u32 (crc_ieee (rvalue r))
            @ put_uvarint (of_nat (length (rvalue r))) @ rvalue r
      else if rtype r = rt_commit then buf @ put_u64 (block_id r)
      else if rtype r = rt_rollback then buf
      else if rtype r = rt_merge then
        buf @ put_u64 (block_id r) @ put_uvarint (of_nat (length (rkey r))) @ rkey r
            @ put_uvarint (of_nat (length (rvalue r))) @ rvalue r
      else if rtype r = rt_checkpoint then
        buf @ (if length (rkey r) = 24 then rkey r else replicate 24 0)
            @ put_uvarint (block_id r) @ rvalue r
      else buf @ put_uvarint (of_nat (length (rvalue r))) @ rvalue r)"

definition record_body :: "log_record \<Rightarrow> bytes" where
  "record_body r = append_payload (put_uvarint (txn_id r) @ [rtype r]) r"

text \<open>The envelope around the bytes that go to disk.\<close>

definition envelope :: "bytes \<Rightarrow> bytes" where
  "envelope disk_body =
     put_uvarint (of_nat (length disk_body + 4)) @ disk_body @ put_u32 (crc_ieee disk_body)"

definition disk_body_of :: "log_record \<Rightarrow> bool \<Rightarrow> bytes" where
  "disk_body_of r lz = (let body = record_body r in if lz \<and> body \<noteq> [] then compress body else body)"

definition encode_record_compressed :: "log_record \<Rightarrow> bool \<Rightarrow> bytes" where
  "encode_record_compressed r lz = envelope (disk_body_of r lz)"

definition encode_record :: "log_record \<Rightarrow> bytes" where
  "encode_record r = encode_record_compressed r False"

text \<open>\<open>maxPayloadSize\<close> is the capacity hint of the body buffer; \<open>MaxVarintLen64\<close> is 10.\<close>

definition max_payload_size :: "log_record \<Rightarrow> nat" where
  "max_payload_size r =
     (if rtype r = rt_data then 8 + 4 + 10 + length (rvalue r)
      else if rtype r = rt_commit then 8
      else if rtype r = rt_rollback then 0
      else if rtype r = rt_merge then 8 + 10 * 2 + length (rkey r) + length (rvalue r)
      else if rtype r = rt_checkpoint then 24 + 10 + length (rvalue r)
      else 10 + length (rvalue r))"

subsection \<open>Decoding\<close>

text \<open>\<open>DecodeVarint\<close>: the value and the bytes consumed, or \<open>-1\<close>.\<close>

definition decode_varint :: "bytes \<Rightarrow> int \<Rightarrow> u64 \<times> int" where
  "decode_varint data off =
     (if off < 0 \<or> int (length data) \<le> off then (0, - 1)
      else case get_uvarint (drop (nat off) data) of (v, n) \<Rightarrow>
        if n \<le> 0 then (0, - 1)
        else if int (length data) < off + n then (0, - 1)
        else (v, n))"

text \<open>
  \<open>decodePayload\<close>, one definition per \<open>case\<close> of its switch. A result is the record with the
  fields filled so far and the new cursor; a truncated payload leaves the rest of the fields
  untouched. \<open>go_slice\<close> is the slice expression of the code and panics as it does (the \<open>make\<close>
  beside it panics on the same lengths).
\<close>

definition decode_data_payload :: "bytes \<Rightarrow> int \<Rightarrow> log_record \<Rightarrow> (wal_error, log_record \<times> int) outcome" where
  "decode_data_payload body cur r =
     (if int (length body) < cur + 12 then Ok (r, cur)
      else
        let r = r\<lparr>block_id := get_u64 (drop (nat cur) body)\<rparr>;
            stored = get_u32 (drop (nat (cur + 8)) body);
            cur = cur + 12
        in case decode_varint body cur of (data_len, n) \<Rightarrow>
             if n < 0 \<or> int (length body) < wrap64 (cur + n + sint data_len) then Ok (r, cur)
             else
               let cur = cur + n
               in obind (go_slice body cur (wrap64 (cur + sint data_len))) (\<lambda>d.
                    let r = (if stored \<noteq> crc_ieee d then r\<lparr>pay_crc_fail := True\<rparr> else r)
                    in Ok (r\<lparr>rvalue := d\<rparr>, wrap64 (cur + sint data_len))))"

definition decode_commit_payload :: "bytes \<Rightarrow> int \<Rightarrow> log_record \<Rightarrow> (wal_error, log_record \<times> int) outcome" where
  "decode_commit_payload body cur r =
     (if int (length body) < cur + 8 then Ok (r, cur)
      else Ok (r\<lparr>block_id := get_u64 (drop (nat cur) body)\<rparr>, cur + 8))"

definition decode_merge_payload :: "bytes \<Rightarrow> int \<Rightarrow> log_record \<Rightarrow> (wal_error, log_record \<times> int) outcome" where
  "decode_merge_payload body cur r =
     (if int (length body) < cur + 8 then Ok (r, cur)
      else
        let r = r\<lparr>block_id := get_u64 (drop (nat cur) body)\<rparr>; cur = cur + 8
        in case decode_varint body cur of (del_len, n) \<Rightarrow>
             if n < 0 then Ok (r, cur)
             else
               let cur = cur + n
               in if int (length body) < wrap64 (cur + sint del_len) then Ok (r, cur)
                  else obind (go_slice body cur (wrap64 (cur + sint del_len))) (\<lambda>k.
                    let r = r\<lparr>rkey := k\<rparr>; cur = wrap64 (cur + sint del_len)
                    in case decode_varint body cur of (add_len, n) \<Rightarrow>
                         if n < 0 then Ok (r, cur)
                         else
                           let cur = cur + n
                           in if int (length body) < wrap64 (cur + sint add_len) then Ok (r, cur)
                              else obind (go_slice body cur (wrap64 (cur + sint add_len))) (\<lambda>v.
                                Ok (r\<lparr>rvalue := v\<rparr>, wrap64 (cur + sint add_len)))))"

definition decode_checkpoint_payload :: "bytes \<Rightarrow> int \<Rightarrow> log_record \<Rightarrow> (wal_error, log_record \<times> int) outcome" where
  "decode_checkpoint_payload body cur r =
     (if int (length body) < cur + 24 then Ok (r, cur)
      else
        let r = r\<lparr>rkey := take 24 (drop (nat cur) body)\<rparr>; cur = cur + 24
        in case decode_varint body cur of (count, n) \<Rightarrow>
             if n < 0 then Ok (r, cur)
             else Ok (r\<lparr>block_id := count, rvalue := drop (nat (cur + n)) body\<rparr>, int (length body)))"

definition decode_unknown_payload :: "bytes \<Rightarrow> int \<Rightarrow> log_record \<Rightarrow> (wal_error, log_record \<times> int) outcome" where
  "decode_unknown_payload body cur r =
     (case decode_varint body cur of (data_len, n) \<Rightarrow>
        if n < 0 \<or> int (length body) < wrap64 (cur + n + sint data_len) then Ok (r, cur)
        else
          let cur = cur + n
          in obind (go_slice body cur (wrap64 (cur + sint data_len))) (\<lambda>d.
               Ok (r\<lparr>rvalue := d\<rparr>, wrap64 (cur + sint data_len))))"

definition decode_payload :: "bytes \<Rightarrow> int \<Rightarrow> log_record \<Rightarrow> (wal_error, log_record \<times> int) outcome" where
  "decode_payload body cur r =
     (if rtype r = rt_data then decode_data_payload body cur r
      else if rtype r = rt_commit then decode_commit_payload body cur r
      else if rtype r = rt_rollback then Ok (r, cur)
      else if rtype r = rt_merge then decode_merge_payload body cur r
      else if rtype r = rt_checkpoint then decode_checkpoint_payload body cur r
      else decode_unknown_payload body cur r)"

definition blank_record :: "byte \<Rightarrow> u64 \<Rightarrow> log_record" where
  "blank_record t txn = \<lparr>rtype = t, txn_id = txn, rkey = [], rvalue = [], block_id = 0, pay_crc_fail = False\<rparr>"

lemma rtype_blank [simp]: "rtype (blank_record t x) = t"
  by (simp add: blank_record_def)

text \<open>The part of \<open>decodeRecordCompressed\<close> after the envelope is verified.\<close>

definition decode_body :: "bytes \<Rightarrow> (wal_error, log_record) outcome" where
  "decode_body body =
     (case decode_varint body 0 of (txn, txn_n) \<Rightarrow>
        if txn_n < 0 then Fail ErrTruncatedRecord
        else if int (length body) \<le> txn_n then Fail ErrTruncatedRecord
        else obind (decode_payload body (txn_n + 1) (blank_record (body ! nat txn_n) txn)) (\<lambda>(r, _). Ok r))"

definition open_disk_body :: "bytes \<Rightarrow> bool \<Rightarrow> (wal_error, bytes) outcome" where
  "open_disk_body disk_body lz =
     (if lz \<and> disk_body \<noteq> [] then
        (case decompress disk_body of Ok b \<Rightarrow> Ok b | Fail _ \<Rightarrow> Fail ErrCorrupt | Panic \<Rightarrow> Panic)
      else Ok disk_body)"

text \<open>
  \<open>decodeRecordCompressed\<close> with its decompression step as a parameter: the client of the
  \<open>body_seal\<close> interface below.
\<close>

definition decode_enveloped :: "(bytes \<Rightarrow> (wal_error, bytes) outcome) \<Rightarrow> bytes \<Rightarrow> int \<Rightarrow> (wal_error, log_record \<times> int) outcome" where
  "decode_enveloped unseal data off =
     (if off < 0 \<or> int (length data) \<le> off then Fail ErrTruncatedRecord
      else case decode_varint data off of (len, hdr_n) \<Rightarrow>
        if hdr_n < 0 then Fail ErrTruncatedRecord
        else if of_nat max_record_len < len then Fail ErrUnknownRecord
        else if len < 4 then Fail ErrCorrupt
        else
          let body_len = unat len - 4; body_start = nat (off + hdr_n); crc_start = body_start + body_len
          in if length data < crc_start + 4 then Fail ErrTruncatedRecord
             else
               let disk_body = sub data body_start crc_start
               in if get_u32 (drop crc_start data) \<noteq> crc_ieee disk_body then Fail ErrCorrupt
                  else obind (unseal disk_body) (\<lambda>body.
                    obind (decode_body body) (\<lambda>r. Ok (r, hdr_n + int (unat len)))))"

definition decode_record_compressed :: "bytes \<Rightarrow> int \<Rightarrow> bool \<Rightarrow> (wal_error, log_record \<times> int) outcome" where
  "decode_record_compressed data off lz = decode_enveloped (\<lambda>d. open_disk_body d lz) data off"

definition decode_record :: "bytes \<Rightarrow> int \<Rightarrow> (wal_error, log_record \<times> int) outcome" where
  "decode_record data off = decode_record_compressed data off False"

subsection \<open>Checkpoint payloads\<close>

record checkpoint =
  cp_lsn :: u64
  cp_catalog_root :: u64
  cp_manifest_sum :: u32
  cp_active :: "u64 list"

definition append_checkpoint_payload :: "checkpoint \<Rightarrow> bytes \<times> bytes" where
  "append_checkpoint_payload cp =
     (put_u64 (cp_lsn cp) @ put_u64 (cp_catalog_root cp) @ put_u32 (cp_manifest_sum cp) @ replicate 4 0,
      concat (map put_uvarint (cp_active cp)))"

subsection \<open>Segment header\<close>

definition wal_magic :: bytes where "wal_magic = [0x57, 0x4C, 0x4F, 0x47]"
definition wal_header_size :: nat where "wal_header_size = 12"
definition max_supported_version :: byte where "max_supported_version = 1"
definition flag_compression_lz4 :: byte where "flag_compression_lz4 = 1"

definition header_encode :: bytes where
  "header_encode = wal_magic @ [1] @ replicate 7 0"

definition header_encode_compressed :: bytes where
  "header_encode_compressed = wal_magic @ [1, flag_compression_lz4] @ replicate 6 0"

definition segment_header :: "byte \<Rightarrow> bytes" where
  "segment_header flags = (if flags AND flag_compression_lz4 \<noteq> 0 then header_encode_compressed else header_encode)"

definition validate_segment_header :: "bytes \<Rightarrow> (wal_error, unit) outcome" where
  "validate_segment_header buf =
     (if length buf < wal_header_size then Fail ErrCorrupt
      else if take 4 buf \<noteq> wal_magic then Fail ErrCorrupt
      else if buf ! 4 = 0 then Fail ErrCorrupt
      else if max_supported_version < buf ! 4 then Fail ErrCorrupt
      else Ok ())"

subsection \<open>Decoding what was encoded\<close>

lemma decode_varint_put [simp, codec_rt]:
  "decode_varint (pre @ put_uvarint v @ rest) (int (length pre)) = (v, int (length (put_uvarint v)))"
  by (simp add: decode_varint_def not_le add_pos_nonneg)

lemma sint_of_nat_u64: "n < 2 ^ 63 \<Longrightarrow> sint (of_nat n :: u64) = int n"
  by (simp add: sint_u64_small unat_of_nat take_bit_nat_eq_self)

lemma wrap64_of_nat: "n < 2 ^ 63 \<Longrightarrow> wrap64 (int n) = int n"
  by (simp add: wrap64_id)

text \<open>A varint length followed by that many bytes: the guard passes and the slice is the bytes.\<close>

lemma decode_blob:
  assumes "length (pre @ put_uvarint (of_nat (length d)) @ d @ rest) < 2 ^ 63"
  defines "body \<equiv> pre @ put_uvarint (of_nat (length d)) @ d @ rest"
    and "n \<equiv> int (length (put_uvarint (of_nat (length d))))"
  shows "decode_varint body (int (length pre)) = (of_nat (length d), n)"
    and "wrap64 (int (length pre) + n + sint (of_nat (length d) :: u64)) = int (length pre) + n + int (length d)"
    and "go_slice body (int (length pre) + n) (int (length pre) + n + int (length d)) = (Ok d :: (wal_error, bytes) outcome)"
    and "int (length pre) + n + int (length d) \<le> int (length body)"
proof -
  show "decode_varint body (int (length pre)) = (of_nat (length d), n)"
    by (simp add: body_def n_def)
  have "sint (of_nat (length d) :: u64) = int (length d)"
    using assms(1) by (intro sint_of_nat_u64) simp
  then show "wrap64 (int (length pre) + n + sint (of_nat (length d) :: u64)) = int (length pre) + n + int (length d)"
    using assms(1) by (simp add: n_def wrap64_id)
  have "go_slice body (int (length (pre @ put_uvarint (of_nat (length d)))))
      (int (length (pre @ put_uvarint (of_nat (length d))) + length d)) = (Ok d :: (wal_error, bytes) outcome)"
    unfolding body_def using sub_mid [of "pre @ put_uvarint (of_nat (length d))" d rest]
    by (subst go_slice_Ok) auto
  then show "go_slice body (int (length pre) + n) (int (length pre) + n + int (length d)) = (Ok d :: (wal_error, bytes) outcome)"
    by (simp add: n_def)
  show "int (length pre) + n + int (length d) \<le> int (length body)"
    by (simp add: body_def n_def)
qed

text \<open>
  What a record looks like after the wire: each type keeps the fields its payload carries.
\<close>

definition wire_view :: "log_record \<Rightarrow> log_record" where
  "wire_view r = (let b = blank_record (rtype r) (txn_id r) in
     if rtype r = rt_data then b\<lparr>block_id := block_id r, rvalue := rvalue r\<rparr>
     else if rtype r = rt_commit then b\<lparr>block_id := block_id r\<rparr>
     else if rtype r = rt_rollback then b
     else if rtype r = rt_merge then b\<lparr>block_id := block_id r, rkey := rkey r, rvalue := rvalue r\<rparr>
     else if rtype r = rt_checkpoint then
       b\<lparr>rkey := (if length (rkey r) = 24 then rkey r else replicate 24 0),
         block_id := block_id r, rvalue := rvalue r\<rparr>
     else b\<lparr>rvalue := rvalue r\<rparr>)"

lemma decode_data_payload_rt:
  assumes "length (buf @ put_u64 (block_id r) @ put_u32 (crc_ieee (rvalue r))
      @ put_uvarint (of_nat (length (rvalue r))) @ rvalue r) < 2 ^ 63"
  shows "\<exists>cur. decode_data_payload (buf @ put_u64 (block_id r) @ put_u32 (crc_ieee (rvalue r))
      @ put_uvarint (of_nat (length (rvalue r))) @ rvalue r) (int (length buf)) b
    = Ok (b\<lparr>block_id := block_id r, rvalue := rvalue r\<rparr>, cur)"
proof -
  let ?v = "rvalue r" and ?pre = "buf @ put_u64 (block_id r) @ put_u32 (crc_ieee (rvalue r))"
  let ?body = "?pre @ put_uvarint (of_nat (length ?v)) @ ?v @ []"
  have len: "length ?body < 2 ^ 63" using assms by simp
  note blob = decode_blob [OF len]
  have cur: "int (length buf) + 12 = int (length ?pre)" by simp
  have "nat (int (length buf) + 8) = length (buf @ put_u64 (block_id r))" by simp
  then have d8: "drop (nat (int (length buf) + 8)) ?body = put_u32 (crc_ieee ?v) @ put_uvarint (of_nat (length ?v)) @ ?v"
    by (simp only: append_assoc append_Nil2) simp
  have "decode_data_payload ?body (int (length buf)) b
      = Ok (b\<lparr>block_id := block_id r, rvalue := ?v\<rparr>, int (length ?pre) + int (length (put_uvarint (of_nat (length ?v)))) + int (length ?v))"
    unfolding decode_data_payload_def Let_def d8 cur
    using blob by simp
  then show ?thesis by simp
qed

lemma decode_commit_payload_rt:
  "decode_commit_payload (buf @ put_u64 x) (int (length buf)) b = Ok (b\<lparr>block_id := x\<rparr>, int (length buf) + 8)"
  by (simp add: decode_commit_payload_def)

lemma decode_unknown_payload_rt:
  assumes "length (buf @ put_uvarint (of_nat (length d)) @ d) < 2 ^ 63"
  shows "\<exists>cur. decode_unknown_payload (buf @ put_uvarint (of_nat (length d)) @ d) (int (length buf)) b
    = Ok (b\<lparr>rvalue := d\<rparr>, cur)"
proof -
  have len: "length (buf @ put_uvarint (of_nat (length d)) @ d @ []) < 2 ^ 63" using assms by simp
  show ?thesis
    using decode_blob [OF len] by (simp add: decode_unknown_payload_def)
qed

lemma decode_checkpoint_payload_rt:
  assumes "length k = 24"
  shows "\<exists>cur. decode_checkpoint_payload (buf @ k @ put_uvarint n @ v) (int (length buf)) b
    = Ok (b\<lparr>rkey := k, block_id := n, rvalue := v\<rparr>, cur)"
proof -
  have cur: "int (length buf) + 24 = int (length (buf @ k))" using assms by simp
  have v: "decode_varint ((buf @ k) @ put_uvarint n @ v) (int (length (buf @ k))) = (n, int (length (put_uvarint n)))"
    by (rule decode_varint_put)
  have d: "nat (int (length (buf @ k)) + int (length (put_uvarint n))) = length (buf @ k @ put_uvarint n)"
    by simp
  have t: "take 24 (drop (nat (int (length buf))) (buf @ k @ put_uvarint n @ v)) = k"
    using assms by simp
  have "decode_checkpoint_payload (buf @ k @ put_uvarint n @ v) (int (length buf)) b
      = Ok (b\<lparr>rkey := k, block_id := n, rvalue := v\<rparr>, int (length (buf @ k @ put_uvarint n @ v)))"
    unfolding decode_checkpoint_payload_def Let_def cur t using v d assms by simp
  then show ?thesis by blast
qed

lemma decode_merge_payload_rt:
  assumes "length (buf @ put_u64 x @ put_uvarint (of_nat (length k)) @ k @ put_uvarint (of_nat (length v)) @ v) < 2 ^ 63"
  shows "\<exists>cur. decode_merge_payload (buf @ put_u64 x @ put_uvarint (of_nat (length k)) @ k
      @ put_uvarint (of_nat (length v)) @ v) (int (length buf)) b
    = Ok (b\<lparr>block_id := x, rkey := k, rvalue := v\<rparr>, cur)"
proof -
  let ?p1 = "buf @ put_u64 x" and ?vk = "put_uvarint (of_nat (length k))" and ?vv = "put_uvarint (of_nat (length v))"
  let ?p2 = "?p1 @ ?vk @ k"
  let ?body = "buf @ put_u64 x @ ?vk @ k @ ?vv @ v"
  have l1: "length (?p1 @ ?vk @ k @ (?vv @ v)) < 2 ^ 63" and l2: "length (?p2 @ ?vv @ v @ []) < 2 ^ 63"
    using assms by simp_all
  have c1: "int (length buf) + 8 = int (length ?p1)" by simp
  have c2: "int (length ?p1) + int (length ?vk) + int (length k) = int (length ?p2)" by simp
  have b1: "?p1 @ ?vk @ k @ (?vv @ v) = ?body" and b2: "?p2 @ ?vv @ v @ [] = ?body" by simp_all
  note m1 = decode_blob [OF l1, unfolded b1 c2] and m2 = decode_blob [OF l2, unfolded b2]
  have g: "get_u64 (drop (nat (int (length buf))) ?body) = x" by simp
  have "decode_merge_payload ?body (int (length buf)) b
    = Ok (b\<lparr>block_id := x, rkey := k, rvalue := v\<rparr>, int (length ?p2) + int (length ?vv) + int (length v))"
    unfolding decode_merge_payload_def Let_def c1 g
    using m1 m2 by (simp only: split prod.case if_False obind.simps not_less not_le) simp
  then show ?thesis by blast
qed

lemma decode_payload_rt:
  assumes "length (append_payload buf r) < 2 ^ 63"
  shows "\<exists>cur. decode_payload (append_payload buf r) (int (length buf)) (blank_record (rtype r) (txn_id r))
    = Ok (wire_view r, cur)"
proof -
  let ?b = "blank_record (rtype r) (txn_id r)"
  have len24: "length (if length (rkey r) = 24 then rkey r else replicate 24 0) = 24" by simp
  consider "rtype r = rt_data" | "rtype r = rt_commit" | "rtype r = rt_rollback" | "rtype r = rt_merge"
    | "rtype r = rt_checkpoint" | "rtype r \<notin> {rt_data, rt_commit, rt_rollback, rt_merge, rt_checkpoint}"
    by blast
  then show ?thesis
  proof cases
    case 1
    then show ?thesis
      using assms decode_data_payload_rt [of buf r ?b]
      by (simp add: decode_payload_def append_payload_def wire_view_def Let_def)
  next
    case 2
    then show ?thesis
      using assms decode_commit_payload_rt [of buf "block_id r" ?b]
      by (simp add: decode_payload_def append_payload_def wire_view_def Let_def rt_types)
  next
    case 3
    then show ?thesis
      by (simp add: decode_payload_def append_payload_def wire_view_def Let_def rt_types)
  next
    case 4
    then show ?thesis
      using assms decode_merge_payload_rt [of buf "block_id r" "rkey r" "rvalue r" ?b]
      by (auto simp: decode_payload_def append_payload_def wire_view_def Let_def rt_types blank_record_def)
  next
    case 5
    have "\<exists>cur. decode_payload (append_payload buf r) (int (length buf)) ?b
        = Ok (?b\<lparr>rkey := (if length (rkey r) = 24 then rkey r else replicate 24 0), block_id := block_id r, rvalue := rvalue r\<rparr>, cur)"
      using decode_checkpoint_payload_rt [OF len24, of buf "block_id r" "rvalue r" ?b] 5
      by (simp add: decode_payload_def append_payload_def rt_types)
    with 5 show ?thesis by (simp add: wire_view_def Let_def rt_types)
  next
    case 6
    then show ?thesis
      using assms decode_unknown_payload_rt [of buf "rvalue r" ?b]
      by (simp add: decode_payload_def append_payload_def wire_view_def Let_def)
  qed
qed

lemma append_payload_prefix: "append_payload (a @ buf) r = a @ append_payload buf r"
  by (simp add: append_payload_def)

lemma append_payload_Nil: "append_payload buf r = buf @ append_payload [] r"
  using append_payload_prefix [of buf "[]" r] by simp

lemma decode_body_rt [codec_rt]: "length (record_body r) < 2 ^ 63 \<Longrightarrow> decode_body (record_body r) = Ok (wire_view r)"
proof -
  assume len: "length (record_body r) < 2 ^ 63"
  let ?tx = "put_uvarint (txn_id r)"
  have body: "record_body r = [] @ ?tx @ ([rtype r] @ append_payload [] r)"
    unfolding record_body_def by (subst append_payload_Nil) simp
  have v: "decode_varint (record_body r) 0 = (txn_id r, int (length ?tx))"
    unfolding body using decode_varint_put [of "[]" "txn_id r" "[rtype r] @ append_payload [] r"]
    by (simp del: append_Cons)
  have t: "record_body r ! length ?tx = rtype r" and l: "length ?tx < length (record_body r)"
    unfolding body by simp_all
  obtain cur where p: "decode_payload (record_body r) (int (length (?tx @ [rtype r]))) (blank_record (rtype r) (txn_id r))
      = Ok (wire_view r, cur)"
    using decode_payload_rt [of "?tx @ [rtype r]" r] len unfolding record_body_def by blast
  have "int (length (?tx @ [rtype r])) = int (length ?tx) + 1" by simp
  then show ?thesis
    using p l by (simp only: decode_body_def v prod.case) (simp add: t not_le)
qed

subsection \<open>The body sealing interface\<close>

text \<open>The length field of an envelope that is within the limits.\<close>

lemma length_field:
  assumes "n \<le> max_record_len" and "4 \<le> n"
  shows "unat (of_nat n :: u64) = n" and "\<not> of_nat max_record_len < (of_nat n :: u64)" and "\<not> (of_nat n :: u64) < 4"
proof -
  show un: "unat (of_nat n :: u64) = n"
    using assms(1) by (intro unat_of_nat_u64) (simp add: max_record_len_def)
  have "unat (of_nat max_record_len :: u64) = max_record_len"
    by (rule unat_of_nat_u64) (simp add: max_record_len_def)
  then show "\<not> of_nat max_record_len < (of_nat n :: u64)" and "\<not> (of_nat n :: u64) < 4"
    using assms un by (simp_all add: word_less_nat_alt)
qed

text \<open>
  The envelope code relies on one law of the compression step: what was sealed opens again. The
  client lemmas (round trip, detection of corruption, torn tails, oversize records) are proved once
  under this law; the two instances are the uncompressed and the LZ4 format.
\<close>

locale body_seal =
  fixes seal :: "bytes \<Rightarrow> bytes" and unseal :: "bytes \<Rightarrow> (wal_error, bytes) outcome"
  assumes unseal_seal: "b \<noteq> [] \<Longrightarrow> unseal (seal b) = Ok b"
begin

lemma decode_envelope:
  assumes "length d + 4 \<le> max_record_len"
  shows "decode_enveloped unseal (pre @ envelope d @ rest) (int (length pre))
    = obind (unseal d) (\<lambda>body. obind (decode_body body) (\<lambda>r. Ok (r, int (length (envelope d)))))"
proof -
  let ?n = "length d + 4" and ?h = "put_uvarint (of_nat (length d + 4))"
  let ?data = "pre @ ?h @ d @ put_u32 (crc_ieee d) @ rest"
  have data: "pre @ envelope d @ rest = ?data" by (simp add: envelope_def)
  note un = length_field(1) [OF assms le_add2] and small = length_field(2) [OF assms le_add2]
    and big = length_field(3) [OF assms le_add2]
  have v: "decode_varint ?data (int (length pre)) = (of_nat ?n, int (length ?h))"
    by (rule decode_varint_put)
  have start: "nat (int (length pre) + int (length ?h)) = length (pre @ ?h)" by simp
  have s: "sub ?data (length (pre @ ?h)) (length (pre @ ?h) + length d) = d"
    using sub_mid [of "pre @ ?h" d "put_u32 (crc_ieee d) @ rest"] by simp
  have c: "get_u32 (drop (length (pre @ ?h) + length d) ?data) = crc_ieee d" by simp
  have l: "int (length (envelope d)) = int (length ?h) + int ?n" by (simp add: envelope_def)
  show ?thesis
    unfolding data decode_enveloped_def v Let_def start prod.case un add_diff_cancel_right' s c l
    using small big by (simp del: of_nat_add)
qed

text \<open>A record longer than \<open>MaxRecordLen\<close> is refused whatever its body is.\<close>

lemma decode_oversize:
  assumes "max_record_len < length d + 4" and "length d + 4 < 2 ^ 64"
  shows "decode_enveloped unseal (pre @ envelope d @ rest) (int (length pre)) = Fail ErrUnknownRecord"
proof -
  let ?h = "put_uvarint (of_nat (length d + 4))"
  have v: "decode_varint (pre @ envelope d @ rest) (int (length pre)) = (of_nat (length d + 4), int (length ?h))"
    unfolding envelope_def append_assoc by (rule decode_varint_put)
  have "unat (of_nat (length d + 4) :: u64) = length d + 4" using assms(2) by (rule unat_of_nat_u64)
  moreover have "unat (of_nat max_record_len :: u64) = max_record_len"
    by (rule unat_of_nat_u64) (simp add: max_record_len_def)
  ultimately have "of_nat max_record_len < (of_nat (length d + 4) :: u64)"
    using assms(1) by (simp add: word_less_nat_alt del: of_nat_add)
  moreover have "0 < length (envelope d)" by (simp add: envelope_def)
  ultimately show ?thesis
    by (simp add: decode_enveloped_def v del: of_nat_add)
qed

text \<open>A torn write: the buffer ends before the record does.\<close>

lemma decode_torn:
  assumes "length d + 4 \<le> max_record_len" and "k < length (envelope d)"
  shows "decode_enveloped unseal (pre @ take k (envelope d)) (int (length pre)) = Fail ErrTruncatedRecord"
proof (cases "k < length (put_uvarint (of_nat (length d + 4)))")
  case True
  let ?h = "put_uvarint (of_nat (length d + 4))"
  have "take k (envelope d) = take k ?h" using True by (simp add: envelope_def)
  moreover have "decode_varint (pre @ take k ?h) (int (length pre)) = (0, - 1)"
    using True get_uvarint_prefix [OF True] by (simp add: decode_varint_def)
  ultimately show ?thesis by (simp add: decode_enveloped_def)
next
  case False
  let ?n = "length d + 4" and ?h = "put_uvarint (of_nat (length d + 4))"
  obtain t where t: "take k (envelope d) = ?h @ t" "length t = k - length ?h"
    using False assms(2) by (simp add: envelope_def)
  have tl: "length t < ?n" using t(2) assms(2) False by (simp add: envelope_def)
  note un = length_field(1) [OF assms(1) le_add2] and small = length_field(2) [OF assms(1) le_add2]
    and big = length_field(3) [OF assms(1) le_add2]
  have v: "decode_varint (pre @ ?h @ t) (int (length pre)) = (of_nat ?n, int (length ?h))"
    by (rule decode_varint_put)
  have start: "nat (int (length pre) + int (length ?h)) = length (pre @ ?h)" by simp
  have "0 < length (?h @ t)" by simp
  then show ?thesis
    unfolding t(1) decode_enveloped_def v Let_def start prod.case un
    using small big tl by (simp del: of_nat_add length_greater_0_conv)
qed

text \<open>Corruption confined to four adjacent bytes of the body on disk is always detected.\<close>

lemma decode_corrupt_body:
  assumes "length (a @ m @ b) + 4 \<le> max_record_len" and "length m \<le> 4" and "length m' = length m" and "m' \<noteq> m"
  shows "decode_enveloped unseal
      (pre @ put_uvarint (of_nat (length (a @ m @ b) + 4)) @ (a @ m' @ b) @ put_u32 (crc_ieee (a @ m @ b)) @ rest)
      (int (length pre)) = Fail ErrCorrupt"
proof -
  let ?d = "a @ m @ b" and ?d' = "a @ m' @ b"
  let ?n = "length ?d + 4" and ?h = "put_uvarint (of_nat (length (a @ m @ b) + 4))"
  let ?data = "pre @ ?h @ ?d' @ put_u32 (crc_ieee ?d) @ rest"
  note un = length_field(1) [OF assms(1) le_add2] and small = length_field(2) [OF assms(1) le_add2]
    and big = length_field(3) [OF assms(1) le_add2]
  have v: "decode_varint ?data (int (length pre)) = (of_nat ?n, int (length ?h))"
    by (rule decode_varint_put)
  have start: "nat (int (length pre) + int (length ?h)) = length (pre @ ?h)" by simp
  have dl: "length ?d = length ?d'" using assms(3) by simp
  have s: "sub ?data (length (pre @ ?h)) (length (pre @ ?h) + length ?d) = ?d'"
    using sub_mid_len [OF dl [symmetric], of "pre @ ?h" "put_u32 (crc_ieee ?d) @ rest"] by (simp only: append_assoc)
  have "length (pre @ ?h @ ?d') = length (pre @ ?h) + length ?d" using dl by simp
  then have "drop (length (pre @ ?h) + length ?d) ((pre @ ?h @ ?d') @ put_u32 (crc_ieee ?d) @ rest)
      = put_u32 (crc_ieee ?d) @ rest"
    by (metis append_eq_conv_conj)
  then have c: "get_u32 (drop (length (pre @ ?h) + length ?d) ?data) = crc_ieee ?d"
    by (simp only: append_assoc get_put_u32)
  have ne: "crc_ieee ?d \<noteq> crc_ieee ?d'"
    using ieee.burst [of m m' a b] assms by auto
  have l1: "\<not> length ?data < length (pre @ ?h) + length ?d + 4" and l2: "\<not> int (length ?data) \<le> int (length pre)"
    using assms(3) by simp_all
  show ?thesis
    unfolding decode_enveloped_def v Let_def start prod.case un add_diff_cancel_right' s c
    using small big ne l1 l2 by (simp only: if_False of_nat_less_0_iff simp_thms) simp
qed

lemma decode_sealed_record:
  assumes "length (seal (record_body r)) + 4 \<le> max_record_len" and "length (record_body r) < 2 ^ 63"
  shows "decode_enveloped unseal (pre @ envelope (seal (record_body r)) @ rest) (int (length pre))
    = Ok (wire_view r, int (length (envelope (seal (record_body r)))))"
proof -
  have "record_body r \<noteq> []" by (simp add: record_body_def append_payload_def)
  then show ?thesis
    using assms by (simp add: decode_envelope unseal_seal decode_body_rt)
qed

end

interpretation plain: body_seal "\<lambda>b. b" "\<lambda>d. open_disk_body d False"
  by unfold_locales (simp add: open_disk_body_def)

interpretation lz4: body_seal compress "\<lambda>d. open_disk_body d True"
proof
  fix b :: bytes assume "b \<noteq> []"
  moreover have "compress [] = []" by (simp add: compress_def)
  ultimately have "compress b \<noteq> []"
    by (metis decompress_compress outcome.inject(1))
  then show "open_disk_body (compress b) True = Ok b"
    by (simp add: open_disk_body_def)
qed

lemma encode_as_envelope: "encode_record_compressed r lz = envelope (if lz then compress (record_body r) else record_body r)"
  by (auto simp: encode_record_compressed_def disk_body_of_def Let_def compress_def)

lemma disk_body_cases: "disk_body_of r lz = (if lz then compress (record_body r) else record_body r)"
  by (auto simp: disk_body_of_def Let_def compress_def)

lemma decode_encode_record [codec_rt]:
  "length (disk_body_of r lz) + 4 \<le> max_record_len \<Longrightarrow> length (record_body r) < 2 ^ 63 \<Longrightarrow>
   decode_record_compressed (pre @ encode_record_compressed r lz @ rest) (int (length pre)) lz
     = Ok (wire_view r, int (length (encode_record_compressed r lz)))"
  unfolding decode_record_compressed_def encode_as_envelope disk_body_cases
  by (cases lz) (simp_all add: plain.decode_sealed_record lz4.decode_sealed_record)

lemma decode_torn_record:
  "length (disk_body_of r lz) + 4 \<le> max_record_len \<Longrightarrow> k < length (encode_record_compressed r lz) \<Longrightarrow>
   decode_record_compressed (pre @ take k (encode_record_compressed r lz)) (int (length pre)) lz = Fail ErrTruncatedRecord"
  unfolding decode_record_compressed_def encode_record_compressed_def
  by (cases lz) (simp_all add: plain.decode_torn lz4.decode_torn)

lemma decode_oversize_record:
  "max_record_len < length (disk_body_of r lz) + 4 \<Longrightarrow> length (disk_body_of r lz) + 4 < 2 ^ 64 \<Longrightarrow>
   decode_record_compressed (pre @ encode_record_compressed r lz @ rest) (int (length pre)) lz = Fail ErrUnknownRecord"
  unfolding decode_record_compressed_def encode_record_compressed_def
  by (cases lz) (simp_all add: plain.decode_oversize lz4.decode_oversize)

lemma length_append_payload: "length (append_payload buf r) \<le> length buf + max_payload_size r"
  using length_put_uvarint_le [of "of_nat (length (rvalue r))"] length_put_uvarint_le [of "of_nat (length (rkey r))"]
    length_put_uvarint_le [of "block_id r"]
  by (auto simp: append_payload_def max_payload_size_def)

lemma validate_segment_header_ok: "validate_segment_header (segment_header flags) = Ok ()"
  by (simp add: validate_segment_header_def segment_header_def header_encode_def header_encode_compressed_def
      wal_magic_def wal_header_size_def max_supported_version_def)

lemma segment_header_flag: "(segment_header flags ! 5) AND flag_compression_lz4 = flags AND flag_compression_lz4"
proof -
  have "(1 :: byte) AND 1 = 1" by simp
  moreover have "flags AND 1 \<noteq> 0 \<Longrightarrow> flags AND 1 = 1"
    by (simp add: and_one_eq mod_2_eq_odd split: if_splits)
  ultimately show ?thesis
    by (auto simp: segment_header_def header_encode_def header_encode_compressed_def wal_magic_def
        flag_compression_lz4_def)
qed

lemma length_segment_header [simp]: "length (segment_header flags) = 12"
  by (simp add: segment_header_def header_encode_def header_encode_compressed_def wal_magic_def)

subsection \<open>Properties\<close>

definition sample_commit :: log_record where
  "sample_commit = \<lparr>rtype = rt_commit, txn_id = 7, rkey = [], rvalue = [], block_id = 9, pay_crc_fail = False\<rparr>"

lemma sample_commit_body: "record_body sample_commit = [7, 1, 9, 0, 0, 0, 0, 0, 0, 0]"
  by (simp add: record_body_def sample_commit_def append_payload_def rt_types put_uvarint.simps go_eval)

text \<open>
  C1. A record whose stored body and checksum take at most \<open>MaxRecordLen\<close> (4 MB), read back from the offset where
  it was appended, is the record that was written (each type with the fields its payload carries), and the reader
  advances by exactly the bytes written, with and without compression. Of larger records, which Append accepts up
  to the size of a segment, this says nothing: the decoder refuses them.
\<close>

theorem wal_record_roundtrip:
  assumes "length (disk_body_of r lz) + 4 \<le> max_record_len" and "length (record_body r) < 2 ^ 63"
  shows "decode_record_compressed (pre @ encode_record_compressed r lz @ rest) (int (length pre)) lz
    = Ok (wire_view r, int (length (encode_record_compressed r lz)))"
  using assms by (rule decode_encode_record)

theorem wal_record_roundtrip_witness:
  "decode_record_compressed ([1, 2] @ encode_record_compressed sample_commit False @ [3]) 2 False
    = Ok (wire_view sample_commit, int (length (encode_record_compressed sample_commit False)))"
proof -
  have "length (disk_body_of sample_commit False) + 4 \<le> max_record_len" "length (record_body sample_commit) < 2 ^ 63"
    by (simp_all add: disk_body_of_def sample_commit_body max_record_len_def)
  from wal_record_roundtrip [OF this, of "[1, 2]" "[3]"] show ?thesis by simp
qed

text \<open>
  Graceful end of segment: if a crash tore the last record anywhere before its last byte, the
  decoder reports \<open>ErrTruncatedRecord\<close> and never a wrong record or a corruption.
\<close>

theorem wal_torn_tail:
  assumes "length (disk_body_of r lz) + 4 \<le> max_record_len" and "k < length (encode_record_compressed r lz)"
  shows "decode_record_compressed (pre @ take k (encode_record_compressed r lz)) (int (length pre)) lz
    = Fail ErrTruncatedRecord"
  using assms by (rule decode_torn_record)

theorem wal_torn_tail_witness:
  "decode_record_compressed (take 5 (encode_record_compressed sample_commit False)) 0 False = Fail ErrTruncatedRecord"
proof -
  have "length (disk_body_of sample_commit False) + 4 \<le> max_record_len"
    "5 < length (encode_record_compressed sample_commit False)"
    by (simp_all add: disk_body_of_def encode_record_compressed_def envelope_def sample_commit_body max_record_len_def)
  from wal_torn_tail [OF this, of "[]"] show ?thesis by simp
qed

text \<open>
  C36. In a record whose stored body and checksum take at most \<open>MaxRecordLen\<close> (4 MB), a corruption of the stored
  body that is confined to four adjacent bytes (any single byte in particular) is reported as \<open>ErrCorrupt\<close>,
  whatever surrounds the record. The length and the checksum are as written; a larger body is refused before its
  checksum is read.
\<close>

theorem wal_corruption_detected:
  assumes "length (a @ m @ b) + 4 \<le> max_record_len" and "length m \<le> 4" and "length m' = length m" and "m' \<noteq> m"
  shows "decode_record_compressed
      (pre @ put_uvarint (of_nat (length (a @ m @ b) + 4)) @ (a @ m' @ b) @ put_u32 (crc_ieee (a @ m @ b)) @ rest)
      (int (length pre)) lz = Fail ErrCorrupt"
  unfolding decode_record_compressed_def
  using plain.decode_corrupt_body [OF assms] lz4.decode_corrupt_body [OF assms] by (cases lz) simp_all

theorem wal_corruption_detected_witness:
  "decode_record_compressed
      ([] @ put_uvarint (of_nat (length ([7, 1] @ [9] @ [0 :: byte]) + 4)) @ ([7, 1] @ [8] @ [0 :: byte])
        @ put_u32 (crc_ieee ([7, 1] @ [9] @ [0])) @ []) (int (length ([] :: bytes))) False = Fail ErrCorrupt"
  by (rule wal_corruption_detected) (simp_all add: max_record_len_def)

text \<open>
  The encoded body never outgrows the buffer that \<open>encodeRecordCompressed\<close> allocates for
  it (\<open>maxPayloadSize + MaxVarintLen64 + 1\<close>), for every record type.
\<close>

theorem wal_body_fits_capacity: "length (record_body r) \<le> max_payload_size r + 10 + 1"
  using length_append_payload [of "put_uvarint (txn_id r) @ [rtype r]" r] length_put_uvarint_le [of "txn_id r"]
  by (simp add: record_body_def)

text \<open>
  The decoder panics on a body whose envelope checksum is valid but whose data length is
  \<open>2 ^ 63\<close> or more: the length is converted to a negative \<open>int\<close>, passes the bounds check and
  reaches the slice expression.
\<close>

theorem wal_huge_length_panics:
  "decode_record_compressed (envelope ([0, 0] @ replicate 12 0 @ put_uvarint (2 ^ 63))) 0 False = Panic"
proof -
  let ?b = "[0, 0] @ replicate 12 0 @ put_uvarint (2 ^ 63) :: bytes"
  have pv: "put_uvarint (2 ^ 63) = [0x80, 0x80, 0x80, 0x80, 0x80, 0x80, 0x80, 0x80, 0x80, 1]"
    by (simp add: put_uvarint.simps)
  have "decode_body ?b = Panic"
    unfolding pv by code_simp
  moreover have "length ?b + 4 \<le> max_record_len"
    unfolding pv by (simp add: max_record_len_def)
  ultimately show ?thesis
    using plain.decode_envelope [of ?b "[]" "[]"]
    by (simp add: decode_record_compressed_def open_disk_body_def)
qed

text \<open>The header a writer puts on a segment validates and carries its compression flag.\<close>

theorem wal_segment_header_roundtrip:
  "validate_segment_header (segment_header flags) = Ok () \<and>
   (segment_header flags ! 5) AND flag_compression_lz4 = flags AND flag_compression_lz4"
  by (simp add: validate_segment_header_ok segment_header_flag)

end
