(* ===== verification/Wal_Writer.thy ===== *)
theory Wal_Writer
  imports Wal_Record "HOL-Library.Sublist"
begin

text \<open>
  The WAL writer of \<open>internal/WAL/WR/wr.go\<close>: the active segment with its write buffer, append
  with rotation and LSN assignment, flush, sync, asynchronous sync and close. The kernel calls
  (\<open>pwrite\<close>, \<open>fsync\<close>, the open of \<open>CreateSegment\<close>) and the capacity growth of Go's
  \<open>append\<close> are the parameters \<open>os\<close>; what the code relies on is \<open>os_laws\<close>. Every method of
  the writer holds its mutex from entry to exit, so a method is one step on the state.
\<close>

subsection \<open>State\<close>

definition seg_size :: nat where "seg_size = 64 * 1024 * 1024"
definition wal_buf_size :: nat where "wal_buf_size = 256 * 1024"

text \<open>\<open>LSNFor\<close>, in the 64-bit arithmetic of the code.\<close>

definition lsn_for :: "u64 \<Rightarrow> u64 \<Rightarrow> u64" where
  "lsn_for n off = n * of_nat seg_size + off"

record os_calls =
  os_pwrite :: "u64 \<Rightarrow> bytes \<Rightarrow> nat \<Rightarrow> bytes \<Rightarrow> nat option \<times> bytes"
  os_fsync :: "u64 \<Rightarrow> bytes \<Rightarrow> bool"
  os_create :: "u64 \<Rightarrow> bool"
  os_grow :: "nat \<Rightarrow> nat \<Rightarrow> nat"

text \<open>
  \<open>os_pwrite seg buf off file\<close>: the count written (\<open>None\<close> for an error) and the file afterwards.
  \<open>pwrite(2)\<close>: a full write stores the buffer at the offset (the file grows with zeros up to it), and
  no write changes the bytes before the offset. Go's \<open>append\<close> makes the capacity large enough.
\<close>

definition splice :: "bytes \<Rightarrow> nat \<Rightarrow> bytes \<Rightarrow> bytes" where
  "splice file off buf = take off file @ replicate (off - length file) 0 @ buf @ drop (off + length buf) file"

definition os_laws :: "os_calls \<Rightarrow> bool" where
  "os_laws os \<longleftrightarrow>
     (\<forall>n buf off file file'. os_pwrite os n buf off file = (Some (length buf), file') \<longrightarrow> file' = splice file off buf) \<and>
     (\<forall>n buf off file. off \<le> length file \<longrightarrow> take off (snd (os_pwrite os n buf off file)) = take off file) \<and>
     (\<forall>c n. n \<le> os_grow os c n)"

record wal_segment =
  seg_number :: u64
  seg_off :: nat
  seg_buf :: bytes
  seg_cap :: nat

record wal_writer =
  w_files :: "u64 \<rightharpoonup> bytes"
  w_stable :: "u64 \<rightharpoonup> bytes"
  w_seg :: "wal_segment option"
  w_closed :: bool
  w_synced :: u64
  w_readonly :: bool
  w_compress :: bool
  w_max_record :: int
  w_inflight :: "(u64 \<times> nat) list"

text \<open>
  \<open>w_files\<close> is what a read of a segment file returns, \<open>w_stable\<close> what is sure to be left of it after a
  power failure: a successful \<open>fsync\<close> makes the two agree on that file.
\<close>

datatype wr_error = WrClosed | WrReadOnly | WrTooBig | WrIO | WrShortPwrite | WrShortHeader | WrOpen

definition file_of :: "wal_writer \<Rightarrow> u64 \<Rightarrow> bytes" where
  "file_of w n = (case w_files w n of None \<Rightarrow> [] | Some f \<Rightarrow> f)"

text \<open>\<open>NewWithOptions\<close> on a directory that holds \<open>files\<close>.\<close>

definition new_writer :: "(u64 \<rightharpoonup> bytes) \<Rightarrow> bool \<Rightarrow> bool \<Rightarrow> wal_writer" where
  "new_writer files readonly lz =
     \<lparr>w_files = files, w_stable = files, w_seg = None, w_closed = False, w_synced = 0, w_readonly = readonly,
      w_compress = lz, w_max_record = 0, w_inflight = []\<rparr>"

subsection \<open>Operations\<close>

definition flush_buffer :: "os_calls \<Rightarrow> wal_writer \<Rightarrow> wal_writer \<times> wr_error option" where
  "flush_buffer os w =
     (case w_seg w of None \<Rightarrow> (w, None)
      | Some s \<Rightarrow>
          if seg_buf s = [] then (w, None)
          else
            let off = seg_off s - length (seg_buf s)
            in case os_pwrite os (seg_number s) (seg_buf s) off (file_of w (seg_number s)) of (res, file') \<Rightarrow>
                 let w' = w\<lparr>w_files := (w_files w)(seg_number s \<mapsto> file')\<rparr>
                 in case res of None \<Rightarrow> (w', Some WrIO)
                    | Some n \<Rightarrow>
                        if n \<noteq> length (seg_buf s) then (w', Some WrShortPwrite)
                        else (w'\<lparr>w_seg := Some (s\<lparr>seg_buf := []\<rparr>)\<rparr>, None))"

text \<open>
  \<open>openSegmentLocked\<close>: \<open>CreateSegment\<close> opens with \<open>O_RDWR|O_CREAT\<close> and without
  \<open>O_TRUNC\<close>, so an existing file keeps its bytes; the header is written at offset 0.
\<close>

definition open_segment :: "os_calls \<Rightarrow> u64 \<Rightarrow> wal_writer \<Rightarrow> wal_writer \<times> wr_error option" where
  "open_segment os n w =
     (if \<not> os_create os n then (w, Some WrOpen)
      else
        let header = segment_header (if w_compress w then flag_compression_lz4 else 0)
        in case os_pwrite os n header 0 (file_of w n) of (res, file') \<Rightarrow>
             let w' = w\<lparr>w_files := (w_files w)(n \<mapsto> file')\<rparr>
             in case res of None \<Rightarrow> (w', Some WrIO)
                | Some k \<Rightarrow>
                    if k \<noteq> wal_header_size then (w', Some WrShortHeader)
                    else (w'\<lparr>w_seg := Some \<lparr>seg_number = n, seg_off = wal_header_size, seg_buf = [],
                                           seg_cap = wal_buf_size\<rparr>\<rparr>, None))"

definition rotate :: "os_calls \<Rightarrow> wal_segment \<Rightarrow> wal_writer \<Rightarrow> wal_writer \<times> wr_error option" where
  "rotate os s w = open_segment os (seg_number s + 1) w"

definition max_record :: "wal_writer \<Rightarrow> int" where
  "max_record w = (if w_max_record w \<le> 0 then int seg_size else w_max_record w)"

text \<open>Flush and rotate when the record does not fit in the segment.\<close>

definition make_room :: "os_calls \<Rightarrow> wal_segment \<Rightarrow> nat \<Rightarrow> wal_writer \<Rightarrow> wal_writer \<times> wr_error option" where
  "make_room os s rec_len w =
     (if seg_size < seg_off s + rec_len then
        (case flush_buffer os w of (w1, Some e) \<Rightarrow> (w1, Some e) | (w1, None) \<Rightarrow> rotate os s w1)
      else (w, None))"

text \<open>Flush when the record does not fit in the free capacity of the buffer.\<close>

definition make_buffer_room :: "os_calls \<Rightarrow> wal_segment \<Rightarrow> nat \<Rightarrow> wal_writer \<Rightarrow> wal_writer \<times> wr_error option" where
  "make_buffer_room os s rec_len w =
     (if int (seg_cap s) - int (length (seg_buf s)) < int rec_len then flush_buffer os w else (w, None))"

text \<open>
  The body of the loop of \<open>Append\<close> for one record: the LSN it got, or the error that ends the call.
  \<open>seg_of\<close> reads \<open>w.seg\<close>, which the loop dereferences without a check; it is never nil there.
\<close>

definition seg_of :: "wal_writer \<Rightarrow> wal_segment" where
  "seg_of w = (case w_seg w of Some s \<Rightarrow> s | None \<Rightarrow> \<lparr>seg_number = 0, seg_off = 0, seg_buf = [], seg_cap = 0\<rparr>)"

text \<open>The last step of an append: the encoding goes to the end of the buffer.\<close>

definition push_record :: "os_calls \<Rightarrow> bytes \<Rightarrow> wal_writer \<Rightarrow> wal_writer" where
  "push_record os enc w =
     (let s = seg_of w; buf = seg_buf s @ enc
      in w\<lparr>w_seg := Some (s\<lparr>seg_buf := buf, seg_off := seg_off s + length enc,
             seg_cap := (if length buf \<le> seg_cap s then seg_cap s else os_grow os (seg_cap s) (length buf))\<rparr>)\<rparr>)"

definition append_one :: "os_calls \<Rightarrow> u64 \<Rightarrow> wal_writer \<Rightarrow> log_record \<Rightarrow> wal_writer \<times> (wr_error + u64)" where
  "append_one os txn w r =
     (let encoded = encode_record_compressed (r\<lparr>txn_id := txn\<rparr>) (w_compress w); rec_len = length encoded
      in if max_record w < int rec_len then (w, Inl WrTooBig)
         else case make_room os (seg_of w) rec_len w of
           (w1, Some e) \<Rightarrow> (w1, Inl e)
         | (w1, None) \<Rightarrow>
             let lsn = lsn_for (seg_number (seg_of w1)) (of_nat (seg_off (seg_of w1)))
             in case make_buffer_room os (seg_of w1) rec_len w1 of
                  (w2, Some e) \<Rightarrow> (w2, Inl e)
                | (w2, None) \<Rightarrow>
                    (push_record os encoded w2, Inr lsn))"

fun append_loop :: "os_calls \<Rightarrow> u64 \<Rightarrow> wal_writer \<Rightarrow> u64 \<Rightarrow> log_record list \<Rightarrow> wal_writer \<times> u64 \<times> wr_error option" where
  "append_loop os txn w lsn0 [] = (w, lsn0, None)"
| "append_loop os txn w lsn0 (r # rs) =
     (case append_one os txn w r of
        (w', Inl e) \<Rightarrow> (w', lsn0, Some e)
      | (w', Inr lsn) \<Rightarrow> append_loop os txn w' lsn rs)"

text \<open>\<open>Append\<close>: the LSN of the last record and the error.\<close>

definition append_batch :: "os_calls \<Rightarrow> u64 \<Rightarrow> log_record list \<Rightarrow> wal_writer \<Rightarrow> wal_writer \<times> u64 \<times> wr_error option" where
  "append_batch os txn recs w =
     (if recs = [] then (w, 0, None)
      else if w_closed w then (w, 0, Some WrClosed)
      else if w_readonly w then (w, 0, Some WrReadOnly)
      else case (if w_seg w = None then open_segment os 0 w else (w, None)) of
        (w1, Some e) \<Rightarrow> (w1, 0, Some e)
      | (w1, None) \<Rightarrow> append_loop os txn w1 0 recs)"

definition note_synced :: "u64 \<Rightarrow> nat \<Rightarrow> wal_writer \<Rightarrow> wal_writer" where
  "note_synced n pending_end w =
     (let lsn = lsn_for n (of_nat pending_end) in if w_synced w < lsn then w\<lparr>w_synced := lsn\<rparr> else w)"

definition fsync_segment :: "os_calls \<Rightarrow> u64 \<Rightarrow> wal_writer \<Rightarrow> wal_writer \<times> bool" where
  "fsync_segment os n w =
     (if os_fsync os n (file_of w n) then (w\<lparr>w_stable := (w_stable w)(n \<mapsto> file_of w n)\<rparr>, True) else (w, False))"

definition sync :: "os_calls \<Rightarrow> wal_writer \<Rightarrow> wal_writer \<times> wr_error option" where
  "sync os w =
     (if w_closed w then (w, None)
      else case w_seg w of None \<Rightarrow> (w, None)
        | Some s \<Rightarrow>
            if seg_buf s = [] then (w, None)
            else case flush_buffer os w of
              (w1, Some e) \<Rightarrow> (w1, Some e)
            | (w1, None) \<Rightarrow>
                (case fsync_segment os (seg_number s) w1 of
                   (w2, False) \<Rightarrow> (w2, Some WrIO)
                 | (w2, True) \<Rightarrow> (note_synced (seg_number s) (seg_off s) w2, None)))"

text \<open>
  \<open>SyncAsync\<close>: the part under the mutex, which flushes and registers the pending fsync, and the
  goroutine's completion of one pending fsync. \<open>Inl\<close> is the result delivered at once.
\<close>

definition sync_async :: "os_calls \<Rightarrow> wal_writer \<Rightarrow> wal_writer \<times> (wr_error option \<times> u64 + unit)" where
  "sync_async os w =
     (if w_closed w then (w, Inl (None, 0))
      else case w_seg w of None \<Rightarrow> (w, Inl (None, 0))
        | Some s \<Rightarrow>
            if seg_buf s = [] then (w, Inl (None, w_synced w))
            else case flush_buffer os w of
              (w1, Some e) \<Rightarrow> (w1, Inl (Some e, 0))
            | (w1, None) \<Rightarrow> (w1\<lparr>w_inflight := w_inflight w1 @ [(seg_number s, seg_off s)]\<rparr>, Inr ()))"

definition finish_async :: "os_calls \<Rightarrow> nat \<Rightarrow> wal_writer \<Rightarrow> wal_writer \<times> wr_error option \<times> u64" where
  "finish_async os i w =
     (case w_inflight w ! i of (n, pending_end) \<Rightarrow>
        let w1 = w\<lparr>w_inflight := take i (w_inflight w) @ drop (Suc i) (w_inflight w)\<rparr>
        in case fsync_segment os n w1 of
             (w2, True) \<Rightarrow> (note_synced n pending_end w2, None, lsn_for n (of_nat pending_end))
           | (w2, False) \<Rightarrow> (w2, Some WrIO, 0))"

text \<open>
  \<open>Close\<close>: the first caller tears down, once no asynchronous fsync is in flight (it waits for them);
  the teardown goes on after an error and the first error is returned.
\<close>

definition close_writer :: "os_calls \<Rightarrow> wal_writer \<Rightarrow> wal_writer \<times> wr_error option" where
  "close_writer os w =
     (if w_closed w then (w, None)
      else
        let w = w\<lparr>w_closed := True\<rparr>
        in case w_seg w of None \<Rightarrow> (w, None)
           | Some s \<Rightarrow>
               if seg_buf s = [] then (w\<lparr>w_seg := None\<rparr>, None)
               else case flush_buffer os w of (w1, e1) \<Rightarrow>
                 (case fsync_segment os (seg_number s) w1 of (w2, synced) \<Rightarrow>
                    ((note_synced (seg_number s) (seg_off s) w2)\<lparr>w_seg := None\<rparr>,
                     case e1 of Some e \<Rightarrow> Some e | None \<Rightarrow> if synced then None else Some WrIO)))"


subsection \<open>The log a writer stands for\<close>

text \<open>
  \<open>wal_view w n\<close>: the bytes of segment \<open>n\<close> as a log, the flushed prefix followed by the
  write buffer when \<open>n\<close> is active, and the file otherwise.
\<close>

definition flushed :: "wal_segment \<Rightarrow> nat" where
  "flushed s = seg_off s - length (seg_buf s)"

definition wal_view :: "wal_writer \<Rightarrow> u64 \<Rightarrow> bytes" where
  "wal_view w n =
     (case w_seg w of
        Some s \<Rightarrow> if seg_number s = n then take (flushed s) (file_of w n) @ seg_buf s else file_of w n
      | None \<Rightarrow> file_of w n)"

definition writer_flags :: "wal_writer \<Rightarrow> byte" where
  "writer_flags w = (if w_compress w then flag_compression_lz4 else 0)"

definition seg_ok :: "wal_writer \<Rightarrow> wal_segment \<Rightarrow> bool" where
  "seg_ok w s \<longleftrightarrow>
     wal_header_size + length (seg_buf s) \<le> seg_off s \<and>
     flushed s \<le> length (file_of w (seg_number s)) \<and>
     seg_off s \<le> seg_size + wal_header_size \<and>
     length (seg_buf s) \<le> seg_cap s \<and>
     take wal_header_size (file_of w (seg_number s)) = segment_header (writer_flags w)"

definition writer_ok :: "wal_writer \<Rightarrow> bool" where
  "writer_ok w \<longleftrightarrow> max_record w \<le> int seg_size \<and> (\<forall>s. w_seg w = Some s \<longrightarrow> seg_ok w s)"

named_theorems wr_defs "definitions of the writer's state and operations"

declare flush_buffer_def [wr_defs] open_segment_def [wr_defs] rotate_def [wr_defs] make_room_def [wr_defs]
  make_buffer_room_def [wr_defs] seg_of_def [wr_defs] wal_view_def [wr_defs] flushed_def [wr_defs]
  file_of_def [wr_defs] writer_flags_def [wr_defs]

lemma length_header [simp]: "length (segment_header f) = wal_header_size"
  by (simp add: wal_header_size_def)

lemma os_full: "os_laws os \<Longrightarrow> os_pwrite os n buf off file = (Some (length buf), file') \<Longrightarrow> file' = splice file off buf"
  by (simp add: os_laws_def)

lemma os_prefix: "os_laws os \<Longrightarrow> off \<le> length file \<Longrightarrow> os_pwrite os n buf off file = (res, file') \<Longrightarrow>
    take off file' = take off file"
  unfolding os_laws_def by (metis snd_conv)

lemma os_grow_le: "os_laws os \<Longrightarrow> n \<le> os_grow os c n"
  by (simp add: os_laws_def)

lemma take_splice: "off \<le> length file \<Longrightarrow> take (off + length buf) (splice file off buf) = take off file @ buf"
  by (simp add: splice_def)

lemma take_eq_length: "take n xs = take n ys \<Longrightarrow> n \<le> length ys \<Longrightarrow> n \<le> length xs"
  by (metis length_take min.absorb_iff2 min.commute)

lemma take_eq_mono: "take n xs = take n ys \<Longrightarrow> m \<le> n \<Longrightarrow> take m xs = take m ys"
  by (metis min.absorb1 take_take)


subsection \<open>Flush, open, rotate\<close>

text \<open>A flush, failed or not, leaves the log as it was and the rest of the state alone.\<close>

lemma flush_frame:
  "flush_buffer os w = (w', e) \<Longrightarrow>
     w_closed w' = w_closed w \<and> w_readonly w' = w_readonly w \<and> w_compress w' = w_compress w \<and>
     w_max_record w' = w_max_record w \<and> w_synced w' = w_synced w \<and> w_stable w' = w_stable w \<and>
     w_inflight w' = w_inflight w \<and> max_record w' = max_record w \<and> writer_flags w' = writer_flags w"
  by (auto simp: flush_buffer_def max_record_def writer_flags_def Let_def split: option.splits prod.splits if_splits)

lemma flush_write:
  assumes laws: "os_laws os" and seg: "w_seg w = Some s" and ok: "seg_ok w s" and ne: "seg_buf s \<noteq> []"
    and p: "os_pwrite os (seg_number s) (seg_buf s) (flushed s) (file_of w (seg_number s)) = (res, file')"
  shows "take (flushed s) file' = take (flushed s) (file_of w (seg_number s))"
    and "take wal_header_size file' = segment_header (writer_flags w)"
    and "flushed s \<le> length file'"
    and "res = Some (length (seg_buf s)) \<Longrightarrow> take (seg_off s) file' = take (flushed s) (file_of w (seg_number s)) @ seg_buf s"
    and "res = Some (length (seg_buf s)) \<Longrightarrow> seg_off s \<le> length file'"
proof -
  let ?f = "file_of w (seg_number s)"
  have len: "flushed s \<le> length ?f" "wal_header_size \<le> flushed s" "flushed s + length (seg_buf s) = seg_off s"
    and hd: "take wal_header_size ?f = segment_header (writer_flags w)"
    using ok by (auto simp: seg_ok_def flushed_def)
  show t: "take (flushed s) file' = take (flushed s) ?f"
    using os_prefix [OF laws len(1) p] .
  show "take wal_header_size file' = segment_header (writer_flags w)"
    using take_eq_mono [OF t len(2)] hd by simp
  show "flushed s \<le> length file'"
    using take_eq_length [OF t len(1)] .
  assume r: "res = Some (length (seg_buf s))"
  have "file' = splice ?f (flushed s) (seg_buf s)"
    using os_full [OF laws] p r by blast
  then show tt: "take (seg_off s) file' = take (flushed s) ?f @ seg_buf s"
    using take_splice [OF len(1), of "seg_buf s"] len(3) by simp
  show "seg_off s \<le> length file'"
    using arg_cong [OF tt, of length] len by simp
qed

lemma flush_spec:
  assumes laws: "os_laws os" and seg: "w_seg w = Some s" and ok: "seg_ok w s" and f: "flush_buffer os w = (w', e)"
  defines "s' \<equiv> s\<lparr>seg_buf := if e = None then [] else seg_buf s\<rparr>"
  shows "w_seg w' = Some s' \<and> seg_ok w' s' \<and> wal_view w' = wal_view w"
proof (cases "seg_buf s = []")
  case True
  have "s' = s" using True by (simp add: s'_def)
  then show ?thesis using True f seg ok by (simp add: flush_buffer_def)
next
  case False
  obtain res file' where p: "os_pwrite os (seg_number s) (seg_buf s) (flushed s) (file_of w (seg_number s)) = (res, file')"
    by (cases "os_pwrite os (seg_number s) (seg_buf s) (flushed s) (file_of w (seg_number s))")
  note fw = flush_write [OF laws seg ok False p]
  have ok': "flushed s \<le> length (file_of w (seg_number s))" "wal_header_size + length (seg_buf s) \<le> seg_off s"
    "seg_off s \<le> seg_size + wal_header_size" "length (seg_buf s) \<le> seg_cap s"
    using ok by (auto simp: seg_ok_def)
  show ?thesis
  proof (cases "res = Some (length (seg_buf s))")
    case True
    have w': "w' = w\<lparr>w_files := (w_files w)(seg_number s \<mapsto> file'), w_seg := Some (s\<lparr>seg_buf := []\<rparr>)\<rparr>" "e = None"
      using f p seg False True by (auto simp: flush_buffer_def Let_def flushed_def split: prod.splits)
    show ?thesis
      using fw(2,3) fw(4,5) [OF True] ok' seg
      by (auto simp: s'_def w' seg_ok_def file_of_def writer_flags_def wal_view_def flushed_def)
  next
    case False
    have w': "w' = w\<lparr>w_files := (w_files w)(seg_number s \<mapsto> file')\<rparr>" "e \<noteq> None"
      using f p seg False \<open>seg_buf s \<noteq> []\<close> by (auto simp: flush_buffer_def Let_def flushed_def split: prod.splits option.splits if_splits)
    have "s' = s" using w'(2) by (auto simp: s'_def)
    then show ?thesis
      using fw(1,2,3) ok' seg w'
      by (auto simp: seg_ok_def file_of_def writer_flags_def wal_view_def flushed_def)
  qed
qed

lemma open_segment_frame:
  "open_segment os n w = (w', e) \<Longrightarrow>
     w_closed w' = w_closed w \<and> w_readonly w' = w_readonly w \<and> w_compress w' = w_compress w \<and>
     w_max_record w' = w_max_record w \<and> w_synced w' = w_synced w \<and> w_stable w' = w_stable w \<and>
     w_inflight w' = w_inflight w \<and> max_record w' = max_record w \<and> writer_flags w' = writer_flags w \<and>
     (\<forall>m. m \<noteq> n \<longrightarrow> file_of w' m = file_of w m) \<and> (e \<noteq> None \<longrightarrow> w_seg w' = w_seg w)"
  by (auto simp: open_segment_def max_record_def writer_flags_def file_of_def Let_def
      split: option.splits prod.splits if_splits)

lemma open_segment_spec:
  assumes laws: "os_laws os" and o: "open_segment os n w = (w', None)"
  defines "s' \<equiv> \<lparr>seg_number = n, seg_off = wal_header_size, seg_buf = [], seg_cap = wal_buf_size\<rparr>"
  shows "w_seg w' = Some s' \<and> seg_ok w' s' \<and> wal_view w' n = segment_header (writer_flags w)"
proof -
  let ?h = "segment_header (writer_flags w)"
  obtain res file' where p: "os_pwrite os n ?h 0 (file_of w n) = (res, file')"
    by (cases "os_pwrite os n ?h 0 (file_of w n)")
  have w': "w' = w\<lparr>w_files := (w_files w)(n \<mapsto> file'), w_seg := Some s'\<rparr>" "res = Some (length ?h)"
    using o p unfolding s'_def writer_flags_def
    by (auto simp: open_segment_def Let_def wal_header_size_def split: if_splits option.splits)
  have "file' = splice (file_of w n) 0 ?h"
    using os_full [OF laws] p w'(2) by blast
  then have "take wal_header_size file' = ?h" "wal_header_size \<le> length file'"
    by (auto simp: splice_def wal_header_size_def)
  then show ?thesis
    by (simp add: w' s'_def seg_ok_def wal_view_def flushed_def file_of_def writer_flags_def)
qed


subsection \<open>Appending\<close>

lemma make_room_spec:
  assumes laws: "os_laws os" and seg: "w_seg w = Some s" and ok: "seg_ok w s"
    and m: "make_room os s k w = (w1, None)"
  obtains (stay) "w1 = w" "seg_off s + k \<le> seg_size"
  | (rotated) "w_seg w1 = Some \<lparr>seg_number = seg_number s + 1, seg_off = wal_header_size, seg_buf = [], seg_cap = wal_buf_size\<rparr>"
      "seg_ok w1 (seg_of w1)" "seg_size < seg_off s + k" "wal_view w1 (seg_number s + 1) = segment_header (writer_flags w)"
      "prefix (wal_view w (seg_number s)) (wal_view w1 (seg_number s))"
      "\<And>n. n \<noteq> seg_number s \<Longrightarrow> n \<noteq> seg_number s + 1 \<Longrightarrow> wal_view w1 n = wal_view w n"
proof (cases "seg_size < seg_off s + k")
  case False
  then show ?thesis using m stay by (simp add: make_room_def)
next
  case True
  obtain w0 where f: "flush_buffer os w = (w0, None)" and o: "open_segment os (seg_number s + 1) w0 = (w1, None)"
    using m True by (auto simp: make_room_def rotate_def split: prod.splits option.splits)
  have fs: "w_seg w0 = Some (s\<lparr>seg_buf := []\<rparr>)" "seg_ok w0 (s\<lparr>seg_buf := []\<rparr>)" "wal_view w0 = wal_view w"
    using flush_spec [OF laws seg ok f] by simp_all
  note ff = flush_frame [OF f] and of1 = open_segment_frame [OF o] and os1 = open_segment_spec [OF laws o]
  have same: "\<And>n. n \<noteq> seg_number s + 1 \<Longrightarrow> wal_view w1 n = file_of w0 n"
    using os1 of1 by (simp add: wal_view_def)
  have "wal_view w (seg_number s) = take (seg_off s) (file_of w0 (seg_number s))"
    using fs by (simp add: wal_view_def flushed_def flip: fs(3))
  then have pre: "prefix (wal_view w (seg_number s)) (wal_view w1 (seg_number s))"
    using same by (simp add: take_is_prefix)
  have other: "wal_view w1 n = wal_view w n" if "n \<noteq> seg_number s" "n \<noteq> seg_number s + 1" for n
    using that same fs(1) by (simp add: wal_view_def flip: fs(3))
  show ?thesis
    using rotated [OF _ _ True _ pre other] os1 ff by (simp add: seg_of_def)
qed

lemma seg_ok_view_length: "w_seg w = Some s \<Longrightarrow> seg_ok w s \<Longrightarrow> length (wal_view w (seg_number s)) = seg_off s"
  by (auto simp: seg_ok_def wal_view_def flushed_def)

lemma push_record_spec:
  assumes laws: "os_laws os" and seg: "w_seg w = Some s" and ok: "seg_ok w s"
    and fit: "seg_off s + length enc \<le> seg_size + wal_header_size"
  shows "\<exists>s'. w_seg (push_record os enc w) = Some s' \<and> seg_number s' = seg_number s \<and>
     seg_off s' = seg_off s + length enc \<and> seg_ok (push_record os enc w) s'"
    and "wal_view (push_record os enc w) (seg_number s) = wal_view w (seg_number s) @ enc"
    and "n \<noteq> seg_number s \<Longrightarrow> wal_view (push_record os enc w) n = wal_view w n"
  using seg ok fit os_grow_le [OF laws]
  by (auto simp: push_record_def seg_of_def Let_def seg_ok_def flushed_def file_of_def writer_flags_def wal_view_def)

lemma append_one_cases:
  assumes "append_one os txn w r = (w', Inr lsn)"
  obtains w1 w2 where "int (length (encode_record_compressed (r\<lparr>txn_id := txn\<rparr>) (w_compress w))) \<le> max_record w"
    "make_room os (seg_of w) (length (encode_record_compressed (r\<lparr>txn_id := txn\<rparr>) (w_compress w))) w = (w1, None)"
    "lsn = lsn_for (seg_number (seg_of w1)) (of_nat (seg_off (seg_of w1)))"
    "w2 = w1 \<or> flush_buffer os w1 = (w2, None)"
    "w' = push_record os (encode_record_compressed (r\<lparr>txn_id := txn\<rparr>) (w_compress w)) w2"
  using assms
  by (auto simp: append_one_def make_buffer_room_def Let_def split: if_splits prod.splits option.splits)


text \<open>
  One record appended with success: it starts at the returned LSN and ends the log of the active
  segment; what that log held before is kept, unless the segment was just opened.
\<close>

definition entry_at :: "wal_writer \<Rightarrow> u64 \<Rightarrow> nat \<Rightarrow> bytes \<Rightarrow> bool" where
  "entry_at w n off enc \<longleftrightarrow> off + length enc \<le> length (wal_view w n) \<and> sub (wal_view w n) off (off + length enc) = enc"

lemma entry_at_prefix: "entry_at w n off enc \<Longrightarrow> prefix (wal_view w n) (wal_view w' n) \<Longrightarrow> entry_at w' n off enc"
  by (auto simp: entry_at_def prefix_def sub_append_left)

lemma append_one_spec:
  assumes laws: "os_laws os" and ok: "writer_ok w" and seg: "w_seg w = Some s"
    and a: "append_one os txn w r = (w', Inr lsn)"
  defines "enc \<equiv> encode_record_compressed (r\<lparr>txn_id := txn\<rparr>) (w_compress w)"
  obtains s' off where "w_seg w' = Some s'" "seg_ok w' s'" "max_record w' = max_record w"
    "off + length enc = seg_off s'" "off \<le> seg_size" "wal_header_size \<le> off"
    "lsn = lsn_for (seg_number s') (of_nat off)" "entry_at w' (seg_number s') off enc"
    "(seg_number s' = seg_number s \<and> off = seg_off s \<and> seg_off s + length enc \<le> seg_size) \<or>
     (seg_number s' = seg_number s + 1 \<and> off = wal_header_size \<and> seg_size < seg_off s + length enc)"
    "\<And>n. seg_number s' = seg_number s \<or> n \<noteq> seg_number s' \<Longrightarrow> prefix (wal_view w n) (wal_view w' n)"
    "w_stable w' = w_stable w" "w_synced w' = w_synced w" "w_compress w' = w_compress w"
proof -
  obtain w1 w2 where big: "int (length enc) \<le> max_record w"
    and m: "make_room os s (length enc) w = (w1, None)"
    and l: "lsn = lsn_for (seg_number (seg_of w1)) (of_nat (seg_off (seg_of w1)))"
    and f: "w2 = w1 \<or> flush_buffer os w1 = (w2, None)" and w': "w' = push_record os enc w2"
    using append_one_cases [OF a] seg unfolding enc_def seg_of_def by (metis option.simps(5))
  have sok: "seg_ok w s" and mx: "max_record w \<le> int seg_size" using ok seg by (auto simp: writer_ok_def)
  have big': "length enc \<le> seg_size" using big mx by simp
  have frame1: "max_record w1 = max_record w \<and> w_stable w1 = w_stable w \<and> w_synced w1 = w_synced w \<and> w_compress w1 = w_compress w"
    using m flush_frame open_segment_frame
    by (force simp: make_room_def rotate_def split: if_splits prod.splits option.splits)
  have frame2: "max_record w2 = max_record w1 \<and> w_stable w2 = w_stable w1 \<and> w_synced w2 = w_synced w1 \<and> w_compress w2 = w_compress w1"
    using f flush_frame by blast
  have frame3: "max_record w' = max_record w2 \<and> w_stable w' = w_stable w2 \<and> w_synced w' = w_synced w2 \<and> w_compress w' = w_compress w2"
    by (simp add: w' push_record_def Let_def max_record_def)
  obtain s1 where s1: "w_seg w1 = Some s1" "seg_ok w1 s1" "wal_header_size \<le> seg_off s1" "seg_off s1 \<le> seg_size"
      "seg_off s1 + length enc \<le> seg_size + wal_header_size"
      "(seg_number s1 = seg_number s \<and> seg_off s1 = seg_off s \<and> seg_off s + length enc \<le> seg_size) \<or>
       (seg_number s1 = seg_number s + 1 \<and> seg_off s1 = wal_header_size \<and> seg_size < seg_off s + length enc)"
      "\<And>n. seg_number s1 = seg_number s \<or> n \<noteq> seg_number s1 \<Longrightarrow> prefix (wal_view w n) (wal_view w1 n)"
  proof (cases rule: make_room_spec [OF laws seg sok m])
    case 1
    then show ?thesis using that [of s] seg sok by (auto simp: seg_ok_def)
  next
    case 2
    have grows: "prefix (wal_view w n) (wal_view w1 n)" if "n \<noteq> seg_number s + 1" for n
      using 2(5) 2(6) [of n] that by (cases "n = seg_number s") auto
    show ?thesis
      by (rule that [of "seg_of w1"])
        (use 2 big' grows in \<open>auto simp: seg_of_def wal_header_size_def seg_size_def\<close>)
  qed
  obtain s2 where s2: "w_seg w2 = Some s2" "seg_ok w2 s2" "seg_number s2 = seg_number s1" "seg_off s2 = seg_off s1"
    and v2: "wal_view w2 = wal_view w1"
    using f
  proof
    assume "w2 = w1"
    then show ?thesis using that [of s1] s1 by simp
  next
    assume "flush_buffer os w1 = (w2, None)"
    from flush_spec [OF laws s1(1,2) this] show ?thesis using that by simp
  qed
  have fit: "seg_off s2 + length enc \<le> seg_size + wal_header_size" using s1 s2 by simp
  note p = push_record_spec [OF laws s2(1,2) fit, folded w']
  obtain s' where s': "w_seg w' = Some s'" "seg_number s' = seg_number s2" "seg_off s' = seg_off s2 + length enc" "seg_ok w' s'"
    using p(1) by blast
  have len: "length (wal_view w2 (seg_number s2)) = seg_off s2" using seg_ok_view_length [OF s2(1,2)] .
  have ent: "entry_at w' (seg_number s') (seg_off s2) enc"
    using p(2) len s'(2) by (simp add: entry_at_def sub_def)
  have grow: "prefix (wal_view w1 n) (wal_view w' n)" for n
    using p(2,3) v2 by (cases "n = seg_number s2") auto
  have pre: "prefix (wal_view w n) (wal_view w' n)" if "seg_number s' = seg_number s \<or> n \<noteq> seg_number s'" for n
    using s1(7) [of n] grow [of n] that s' s2 by (auto intro: prefix_order.trans)
  show ?thesis
    by (rule that [OF s'(1,4) _ _ _ _ _ ent _ pre]) (use s' s2 s1 l frame1 frame2 frame3 in \<open>auto simp: seg_of_def\<close>)
qed


subsection \<open>Positions and LSNs\<close>

definition position :: "u64 \<times> nat \<Rightarrow> nat" where
  "position p = unat (fst p) * seg_size + snd p"

definition writer_end :: "wal_writer \<Rightarrow> nat" where
  "writer_end w = (case w_seg w of None \<Rightarrow> 0 | Some s \<Rightarrow> position (seg_number s, seg_off s))"

lemma seg_size_pos [simp]: "0 < seg_size"
  by (simp add: seg_size_def)

lemma unat_lsn_for:
  "unat n < 2 ^ 37 \<Longrightarrow> off \<le> seg_size + wal_header_size \<Longrightarrow> unat (lsn_for n (of_nat off)) = position (n, off)"
proof -
  assume n: "unat n < 2 ^ 37" and off: "off \<le> seg_size + wal_header_size"
  have "lsn_for n (of_nat off) = (of_nat (unat n * seg_size + off) :: u64)"
    by (simp add: lsn_for_def)
  moreover have "unat n * seg_size + off < 2 ^ 64"
    using n off by (simp add: seg_size_def wal_header_size_def)
  ultimately show ?thesis
    by (simp add: position_def unat_of_nat_u64 del: of_nat_add of_nat_mult)
qed

text \<open>A position within a segment is recovered from its LSN.\<close>

lemma position_inject:
  "off \<le> seg_size - 1 \<Longrightarrow> off' \<le> seg_size - 1 \<Longrightarrow> position (n, off) = position (n', off') \<Longrightarrow> n = n' \<and> off = off'"
proof -
  assume a: "off \<le> seg_size - 1" "off' \<le> seg_size - 1" "position (n, off) = position (n', off')"
  have lt: "off < seg_size" "off' < seg_size" using a(1,2) by (simp_all add: seg_size_def)
  have e: "off + unat n * seg_size = off' + unat n' * seg_size" using a(3) by (simp add: position_def)
  have "off = off'" using arg_cong [OF e, of "\<lambda>x. x mod seg_size"] lt by simp
  then have "unat n * seg_size = unat n' * seg_size" using e by simp
  then have "unat n = unat n'" using seg_size_pos by (metis mult_cancel2 less_irrefl)
  then show ?thesis using \<open>off = off'\<close> by (simp add: word_unat_eq_iff)
qed

lemma unat_Suc_u64: "unat (n :: u64) + 1 < 2 ^ 64 \<Longrightarrow> unat (n + 1) = unat n + 1"
  by (simp add: unat_word_ariths)

lemma enc_nonempty: "0 < length (encode_record_compressed r lz)"
  by (simp add: encode_record_compressed_def envelope_def)

subsection \<open>A batch\<close>

type_synonym place = "u64 \<times> nat"

definition placed :: "wal_writer \<Rightarrow> u64 \<Rightarrow> place \<Rightarrow> log_record \<Rightarrow> bool" where
  "placed w txn p r \<longleftrightarrow> entry_at w (fst p) (snd p) (encode_record_compressed (r\<lparr>txn_id := txn\<rparr>) (w_compress w))"

lemma append_one_place:
  assumes laws: "os_laws os" and ok: "writer_ok w" and seg: "w_seg w = Some s" and few: "unat (seg_number s) + 1 < 2 ^ 37"
    and a: "append_one os txn w r = (w', Inr lsn)"
  obtains s' p where "w_seg w' = Some s'" "writer_ok w'" "w_compress w' = w_compress w"
    "unat (seg_number s) \<le> unat (seg_number s')" "unat (seg_number s') \<le> unat (seg_number s) + 1"
    "fst p = seg_number s'" "snd p \<le> seg_size" "placed w' txn p r" "unat lsn = position p" "lsn = lsn_for (fst p) (of_nat (snd p))"
    "writer_end w \<le> position p" "position p < writer_end w'"
    "\<And>n. unat n \<le> unat (seg_number s) \<Longrightarrow> prefix (wal_view w n) (wal_view w' n)"
    "w_stable w' = w_stable w"
proof -
  let ?enc = "encode_record_compressed (r\<lparr>txn_id := txn\<rparr>) (w_compress w)"
  obtain s' off where sp: "w_seg w' = Some s'" "seg_ok w' s'" "max_record w' = max_record w"
      "off + length ?enc = seg_off s'" "off \<le> seg_size" "wal_header_size \<le> off"
      "lsn = lsn_for (seg_number s') (of_nat off)" "entry_at w' (seg_number s') off ?enc"
      "(seg_number s' = seg_number s \<and> off = seg_off s \<and> seg_off s + length ?enc \<le> seg_size) \<or>
       (seg_number s' = seg_number s + 1 \<and> off = wal_header_size \<and> seg_size < seg_off s + length ?enc)"
      "\<And>n. seg_number s' = seg_number s \<or> n \<noteq> seg_number s' \<Longrightarrow> prefix (wal_view w n) (wal_view w' n)"
      "w_stable w' = w_stable w" "w_compress w' = w_compress w"
    by (rule append_one_spec [OF laws ok seg a]) blast
  have sok: "seg_off s \<le> seg_size + wal_header_size" using ok seg by (auto simp: writer_ok_def seg_ok_def)
  have up: "unat (seg_number s + 1) = unat (seg_number s) + 1" using few by (intro unat_Suc_u64) simp
  have num: "unat (seg_number s) \<le> unat (seg_number s')" "unat (seg_number s') \<le> unat (seg_number s) + 1"
    using sp(9) up by auto
  have lsn: "unat lsn = position (seg_number s', off)"
    unfolding sp(7) by (rule unat_lsn_for) (use num few sp(5) in \<open>auto simp: wal_header_size_def\<close>)
  have "writer_end w \<le> position (seg_number s', off)"
    using sp(9) sok up by (auto simp: writer_end_def seg position_def)
  moreover have "position (seg_number s', off) < writer_end w'"
  proof -
    have "off < seg_off s'" using enc_nonempty [of "r\<lparr>txn_id := txn\<rparr>" "w_compress w"] sp(4) by linarith
    then show ?thesis using sp(1) by (simp add: writer_end_def position_def)
  qed
  moreover have "prefix (wal_view w n) (wal_view w' n)" if "unat n \<le> unat (seg_number s)" for n
    using sp(9) up that by (intro sp(10)) auto
  moreover have "writer_ok w'" using ok sp by (simp add: writer_ok_def)
  ultimately show ?thesis
    using that [of s' "(seg_number s', off)"] sp num lsn by (simp add: placed_def)
qed

lemma placed_prefix: "placed w txn p r \<Longrightarrow> prefix (wal_view w (fst p)) (wal_view w' (fst p)) \<Longrightarrow> w_compress w' = w_compress w \<Longrightarrow> placed w' txn p r"
  unfolding placed_def using entry_at_prefix [of w "fst p" "snd p"] by simp

definition batch_places :: "wal_writer \<Rightarrow> wal_writer \<Rightarrow> u64 \<Rightarrow> place list \<Rightarrow> log_record list \<Rightarrow> bool" where
  "batch_places w w' txn ps rs \<longleftrightarrow>
     list_all2 (placed w' txn) ps rs \<and> sorted_wrt (<) (map position ps) \<and>
     (\<forall>p \<in> set ps. writer_end w \<le> position p \<and> position p < writer_end w' \<and> snd p \<le> seg_size)"

lemma batch_places_Cons:
  assumes "batch_places w1 w' txn ps rs" and "placed w' txn p r" and "snd p \<le> seg_size"
    and "writer_end w \<le> position p" and "position p < writer_end w1" and "writer_end w1 \<le> writer_end w'"
  shows "batch_places w w' txn (p # ps) (r # rs)"
proof -
  have "position p < position q" if "q \<in> set ps" for q
    using assms(1,5) that by (force simp: batch_places_def)
  moreover have "writer_end w \<le> position q" if "q \<in> set ps" for q
    using assms(1,4,5) that by (force simp: batch_places_def)
  ultimately show ?thesis
    using assms by (auto simp: batch_places_def)
qed

lemma append_loop_spec:
  assumes "os_laws os" and "writer_ok w" and "w_seg w = Some s" and "unat (seg_number s) + length rs < 2 ^ 37"
    and "append_loop os txn w l0 rs = (w', lsn, None)"
  shows "\<exists>ps s'. w_seg w' = Some s' \<and> writer_ok w' \<and> w_compress w' = w_compress w \<and> w_stable w' = w_stable w \<and>
    batch_places w w' txn ps rs \<and> writer_end w \<le> writer_end w' \<and>
    (rs \<noteq> [] \<longrightarrow> unat lsn = position (last ps)) \<and>
    (\<forall>n. unat n \<le> unat (seg_number s) \<longrightarrow> prefix (wal_view w n) (wal_view w' n))"
  using assms
proof (induction rs arbitrary: w s l0)
  case Nil
  then show ?case by (auto simp: batch_places_def)
next
  case (Cons r rs)
  obtain w1 lsn1 where a: "append_one os txn w r = (w1, Inr lsn1)" and l: "append_loop os txn w1 lsn1 rs = (w', lsn, None)"
    using Cons.prems(5) by (auto split: prod.splits sum.splits)
  obtain s1 p where p: "w_seg w1 = Some s1" "writer_ok w1" "w_compress w1 = w_compress w"
    "unat (seg_number s) \<le> unat (seg_number s1)" "unat (seg_number s1) \<le> unat (seg_number s) + 1"
    "fst p = seg_number s1" "snd p \<le> seg_size" "placed w1 txn p r" "unat lsn1 = position p" "lsn1 = lsn_for (fst p) (of_nat (snd p))"
    "writer_end w \<le> position p" "position p < writer_end w1"
    "\<And>n. unat n \<le> unat (seg_number s) \<Longrightarrow> prefix (wal_view w n) (wal_view w1 n)" "w_stable w1 = w_stable w"
  proof (rule append_one_place [OF Cons.prems(1-3) _ a])
    show "unat (seg_number s) + 1 < 2 ^ 37" using Cons.prems(4) by simp
  qed blast
  have few: "unat (seg_number s1) + length rs < 2 ^ 37" using p(5) Cons.prems(4) by simp
  obtain ps s' where ps: "w_seg w' = Some s'" "writer_ok w'" "w_compress w' = w_compress w1" "w_stable w' = w_stable w1"
    "batch_places w1 w' txn ps rs" "writer_end w1 \<le> writer_end w'" "rs \<noteq> [] \<Longrightarrow> unat lsn = position (last ps)"
    "\<And>n. unat n \<le> unat (seg_number s1) \<Longrightarrow> prefix (wal_view w1 n) (wal_view w' n)"
    using Cons.IH [OF Cons.prems(1) p(2,1) few l] by blast
  have head: "placed w' txn p r"
    by (rule placed_prefix [OF p(8)]) (use p(6) ps(3,8) in auto)
  have len: "length ps = length rs" using ps(5) by (auto simp: batch_places_def dest: list_all2_lengthD)
  have "batch_places w w' txn (p # ps) (r # rs)"
    by (rule batch_places_Cons [OF ps(5) head p(7,11,12) ps(6)])
  moreover have "unat lsn = position (last (p # ps))"
  proof (cases rs)
    case Nil
    then show ?thesis using l p(9) len by simp
  next
    case (Cons r' rs')
    then have "ps \<noteq> []" using len by auto
    then show ?thesis using ps(7) Cons by simp
  qed
  moreover have "prefix (wal_view w n) (wal_view w' n)" if "unat n \<le> unat (seg_number s)" for n
    using p(13) [OF that] ps(8) [of n] that p(4) by (auto intro: prefix_order.trans)
  moreover have "writer_end w \<le> writer_end w'" using p(11,12) ps(6) by linarith
  ultimately show ?case
    using ps(1-4) p(3,14) by (intro exI [of _ "p # ps"] exI [of _ s']) simp
qed


definition segs_used :: "wal_writer \<Rightarrow> nat" where
  "segs_used w = (case w_seg w of None \<Rightarrow> 0 | Some s \<Rightarrow> unat (seg_number s))"

lemma append_batch_spec:
  assumes laws: "os_laws os" and ok: "writer_ok w" and few: "segs_used w + length rs < 2 ^ 37" and ne: "rs \<noteq> []"
    and a: "append_batch os txn rs w = (w', lsn, None)"
  obtains ps where "batch_places w w' txn ps rs" "unat lsn = position (last ps)" "writer_ok w'"
    "w_compress w' = w_compress w" "w_stable w' = w_stable w" "writer_end w < writer_end w'"
    "\<And>n s. w_seg w = Some s \<Longrightarrow> unat n \<le> unat (seg_number s) \<Longrightarrow> prefix (wal_view w n) (wal_view w' n)"
    "\<exists>s'. w_seg w' = Some s'"
proof -
  have end_less: "writer_end w1 < writer_end w'" if "batch_places w1 w' txn ps rs" for w1 ps
  proof -
    have "ps \<noteq> []" using that ne by (auto simp: batch_places_def)
    then have "hd ps \<in> set ps" by simp
    then show ?thesis using that unfolding batch_places_def by force
  qed
  show ?thesis
  proof (cases "w_seg w")
    case (Some s)
    then have l: "append_loop os txn w 0 rs = (w', lsn, None)"
      using a ne by (simp add: append_batch_def split: if_splits)
    have "unat (seg_number s) + length rs < 2 ^ 37" using few Some by (simp add: segs_used_def)
    from append_loop_spec [OF laws ok Some this l] show ?thesis
      using that ne end_less Some by (metis option.inject)
  next
    case None
    obtain w1 where o: "open_segment os 0 w = (w1, None)" and l: "append_loop os txn w1 0 rs = (w', lsn, None)"
      using a ne None by (auto simp: append_batch_def split: if_splits prod.splits option.splits)
    note os1 = open_segment_spec [OF laws o] and of1 = open_segment_frame [OF o]
    let ?s = "\<lparr>seg_number = 0, seg_off = wal_header_size, seg_buf = [], seg_cap = wal_buf_size\<rparr> :: wal_segment"
    have ok1: "writer_ok w1" using os1 of1 ok by (auto simp: writer_ok_def)
    have seg1: "w_seg w1 = Some ?s" and "unat (seg_number ?s) + length rs < 2 ^ 37" using os1 few by simp_all
    from append_loop_spec [OF laws ok1 this l] obtain ps s' where ps: "w_seg w' = Some s'" "writer_ok w'"
      "w_compress w' = w_compress w1" "w_stable w' = w_stable w1" "batch_places w1 w' txn ps rs" "unat lsn = position (last ps)"
      using ne by blast
    have "batch_places w w' txn ps rs"
      using ps(5) None by (simp add: batch_places_def writer_end_def)
    then show ?thesis using that [of ps] ps of1 None end_less by simp
  qed
qed

lemma placed_decodes:
  assumes "placed w txn p r" and "length (disk_body_of (r\<lparr>txn_id := txn\<rparr>) (w_compress w)) + 4 \<le> max_record_len"
    and "length (record_body (r\<lparr>txn_id := txn\<rparr>)) < 2 ^ 63"
  shows "decode_record_compressed (wal_view w (fst p)) (int (snd p)) (w_compress w)
    = Ok (wire_view (r\<lparr>txn_id := txn\<rparr>), int (length (encode_record_compressed (r\<lparr>txn_id := txn\<rparr>) (w_compress w))))"
proof -
  let ?enc = "encode_record_compressed (r\<lparr>txn_id := txn\<rparr>) (w_compress w)" and ?v = "wal_view w (fst p)"
  have e: "snd p + length ?enc \<le> length ?v" "sub ?v (snd p) (snd p + length ?enc) = ?enc"
    using assms(1) by (auto simp: placed_def entry_at_def)
  have "take (snd p) ?v @ ?enc @ drop (snd p + length ?enc) ?v = ?v"
    using split_sub [of "snd p" ?v "length ?enc"] e(2) by simp
  moreover have "length (take (snd p) ?v) = snd p" using e(1) by simp
  ultimately show ?thesis
    using decode_encode_record [OF assms(2,3), of "take (snd p) ?v" "drop (snd p + length ?enc) ?v"] by simp
qed

subsection \<open>Sync\<close>

lemma fsync_segment_spec:
  "fsync_segment os n w = (w', b) \<Longrightarrow>
     w_seg w' = w_seg w \<and> w_files w' = w_files w \<and> w_closed w' = w_closed w \<and> w_compress w' = w_compress w \<and>
     w_max_record w' = w_max_record w \<and> w_synced w' = w_synced w \<and>
     w_stable w' = (if b then (w_stable w)(n \<mapsto> file_of w n) else w_stable w)"
  by (auto simp: fsync_segment_def split: if_splits)

lemma sync_spec:
  assumes laws: "os_laws os" and ok: "writer_ok w" and seg: "w_seg w = Some s" and opn: "\<not> w_closed w"
    and ne: "seg_buf s \<noteq> []" and sy: "sync os w = (w', None)"
  shows "w_stable w' = (w_stable w)(seg_number s \<mapsto> file_of w' (seg_number s)) \<and>
    take (seg_off s) (file_of w' (seg_number s)) = wal_view w (seg_number s) \<and>
    w_seg w' = Some (s\<lparr>seg_buf := []\<rparr>) \<and> writer_ok w' \<and> wal_view w' = wal_view w \<and>
    w_synced w' = max (w_synced w) (lsn_for (seg_number s) (of_nat (seg_off s)))"
proof -
  obtain w1 w2 where f: "flush_buffer os w = (w1, None)" and y: "fsync_segment os (seg_number s) w1 = (w2, True)"
    and w': "w' = note_synced (seg_number s) (seg_off s) w2"
    using sy seg opn ne by (auto simp: sync_def split: prod.splits option.splits bool.splits)
  have "seg_ok w s" using ok seg by (simp add: writer_ok_def)
  from flush_spec [OF laws seg this f] have fs: "w_seg w1 = Some (s\<lparr>seg_buf := []\<rparr>)"
    "seg_ok w1 (s\<lparr>seg_buf := []\<rparr>)" "wal_view w1 = wal_view w" by simp_all
  note ff = flush_frame [OF f] and ys = fsync_segment_spec [OF y]
  have st: "w_seg w' = w_seg w1 \<and> w_files w' = w_files w1 \<and> w_stable w' = w_stable w2 \<and> w_compress w' = w_compress w1 \<and>
      w_max_record w' = w_max_record w1"
    using ys by (simp add: w' note_synced_def Let_def)
  have fo: "file_of w' = file_of w1" using st by (simp add: file_of_def fun_eq_iff)
  have view: "wal_view w' = wal_view w1" by (rule ext) (simp add: wal_view_def st fo split: option.split)
  have "take (seg_off s) (file_of w1 (seg_number s)) = wal_view w1 (seg_number s)"
    using fs(1) by (simp add: wal_view_def flushed_def)
  moreover have "writer_ok w'"
    using ok fs(2) st ff fo fs(1) by (auto simp: writer_ok_def seg_ok_def flushed_def max_record_def writer_flags_def)
  moreover have "w_synced w' = max (w_synced w) (lsn_for (seg_number s) (of_nat (seg_off s)))"
    using ys ff by (auto simp: w' note_synced_def Let_def max_def)
  ultimately show ?thesis
    using ys st fs ff fo view by simp
qed


subsection \<open>The invariant, on every outcome of every operation\<close>

text \<open>\<open>active w\<close>: there is an active segment, as the loop of \<open>Append\<close> assumes.\<close>

definition active :: "wal_writer \<Rightarrow> bool" where
  "active w \<longleftrightarrow> (\<exists>s. w_seg w = Some s \<and> seg_ok w s) \<and> max_record w \<le> int seg_size"

lemma active_writer_ok: "active w \<Longrightarrow> writer_ok w"
  by (auto simp: active_def writer_ok_def)

lemma writer_ok_active: "writer_ok w \<Longrightarrow> w_seg w = Some s \<Longrightarrow> active w"
  by (auto simp: active_def writer_ok_def)

lemma flush_active:
  assumes "os_laws os" and "active w" and f: "flush_buffer os w = (w', e)"
  shows "active w'"
proof -
  obtain s where "w_seg w = Some s" "seg_ok w s" using assms(2) by (auto simp: active_def)
  from flush_spec [OF assms(1) this f] show ?thesis
    using flush_frame [OF f] assms(2) by (auto simp: active_def)
qed

lemma open_segment_active:
  assumes "os_laws os" and "active w" and "\<And>s. w_seg w = Some s \<Longrightarrow> seg_number s \<noteq> n" and o: "open_segment os n w = (w', e)"
  shows "active w'"
proof (cases e)
  case None
  then show ?thesis
    using open_segment_spec [OF assms(1)] open_segment_frame [OF o] o assms(2) by (auto simp: active_def)
next
  case (Some x)
  then show ?thesis
    using open_segment_frame [OF o] assms(2,3) by (force simp: active_def seg_ok_def)
qed

lemma make_room_active:
  assumes laws: "os_laws os" and w: "active w" and m: "make_room os (seg_of w) k w = (w', e)"
  shows "active w'"
proof (cases "seg_size < seg_off (seg_of w) + k")
  case False
  then show ?thesis using m w by (simp add: make_room_def)
next
  case True
  obtain s where s: "w_seg w = Some s" "seg_ok w s" using w by (auto simp: active_def)
  obtain w0 e0 where f: "flush_buffer os w = (w0, e0)" by fastforce
  have w0: "active w0" using flush_active [OF laws w f] .
  show ?thesis
  proof (cases e0)
    case (Some x)
    then show ?thesis using m True f w0 by (simp add: make_room_def)
  next
    case None
    then have o: "open_segment os (seg_number s + 1) w0 = (w', e)"
      using m True f s by (simp add: make_room_def rotate_def seg_of_def)
    have "w_seg w0 = Some (s\<lparr>seg_buf := []\<rparr>)" using flush_spec [OF laws s f] None by simp
    then show ?thesis using open_segment_active [OF laws w0 _ o] by simp
  qed
qed

lemma append_one_active:
  assumes laws: "os_laws os" and w: "active w" and a: "append_one os txn w r = (w', res)"
  shows "active w'"
proof (cases res)
  case (Inr lsn)
  obtain s where s: "w_seg w = Some s" using w by (auto simp: active_def)
  show ?thesis
    by (rule append_one_spec [OF laws active_writer_ok [OF w] s a [unfolded Inr]]) (use w in \<open>simp add: active_def\<close>)
next
  case (Inl e)
  let ?enc = "encode_record_compressed (r\<lparr>txn_id := txn\<rparr>) (w_compress w)"
  obtain w1 e1 where m: "make_room os (seg_of w) (length ?enc) w = (w1, e1)" by fastforce
  have w1: "active w1" using make_room_active [OF laws w m] .
  then have "active (fst (make_buffer_room os (seg_of w1) (length ?enc) w1))"
    using flush_active [OF laws w1] by (cases "flush_buffer os w1") (simp add: make_buffer_room_def)
  then show ?thesis
    using a Inl m w w1 by (auto simp: append_one_def Let_def split: if_splits option.splits prod.splits)
qed

lemma append_loop_active:
  "os_laws os \<Longrightarrow> active w \<Longrightarrow> append_loop os txn w l rs = (w', res) \<Longrightarrow> active w'"
proof (induction rs arbitrary: w l)
  case (Cons r rs)
  obtain w1 res1 where a: "append_one os txn w r = (w1, res1)" by fastforce
  have "active w1" using append_one_active [OF Cons.prems(1,2) a] .
  then show ?case using Cons a by (cases res1) auto
qed simp

lemma append_batch_ok:
  assumes laws: "os_laws os" and w: "writer_ok w" and a: "append_batch os txn rs w = (w', res)"
  shows "writer_ok w'"
proof (cases "rs = [] \<or> w_closed w \<or> w_readonly w")
  case True
  then show ?thesis using a w by (auto simp: append_batch_def split: if_splits)
next
  case False
  show ?thesis
  proof (cases "w_seg w")
    case (Some s)
    then have "active w" using w writer_ok_active by blast
    then show ?thesis
      using append_loop_active [OF laws] a False Some active_writer_ok by (auto simp: append_batch_def)
  next
    case None
    obtain w1 e1 where o: "open_segment os 0 w = (w1, e1)" by fastforce
    show ?thesis
    proof (cases e1)
      case (Some e)
      then show ?thesis
        using a False None o w open_segment_frame [OF o] by (auto simp: append_batch_def writer_ok_def)
    next
      case en: None
      have "active w1"
        using open_segment_spec [OF laws] open_segment_frame [OF o] o en w by (auto simp: active_def writer_ok_def)
      then show ?thesis
        using append_loop_active [OF laws] a False None o en active_writer_ok by (auto simp: append_batch_def)
    qed
  qed
qed

lemma writer_ok_cong:
  "w_files w' = w_files w \<Longrightarrow> w_compress w' = w_compress w \<Longrightarrow> w_max_record w' = w_max_record w \<Longrightarrow> w_seg w' = w_seg w \<Longrightarrow>
   writer_ok w' = writer_ok w"
  by (simp add: writer_ok_def seg_ok_def max_record_def file_of_def writer_flags_def)

lemma fsync_ok: "writer_ok w \<Longrightarrow> fsync_segment os n w = (w', b) \<Longrightarrow> writer_ok w'"
  using fsync_segment_spec [of os n w w' b] writer_ok_cong [of w' w] by simp

lemma note_synced_ok: "writer_ok w \<Longrightarrow> writer_ok (note_synced n off w)"
  using writer_ok_cong [of "note_synced n off w" w] by (simp add: note_synced_def Let_def)

lemma flush_ok:
  assumes "os_laws os" and "writer_ok w" and f: "flush_buffer os w = (w', e)"
  shows "writer_ok w'"
proof (cases "w_seg w")
  case None
  then show ?thesis using assms by (simp add: flush_buffer_def)
next
  case (Some s)
  show ?thesis
    using flush_active [OF assms(1) writer_ok_active [OF assms(2) Some] f] by (rule active_writer_ok)
qed

lemma seg_none_ok:
  assumes "writer_ok w"
  shows "writer_ok (w\<lparr>w_seg := None\<rparr>)"
proof -
  have "max_record (w\<lparr>w_seg := None\<rparr>) = max_record w" by (simp add: max_record_def)
  then show ?thesis using assms by (simp add: writer_ok_def)
qed

lemma field_ok:
  "writer_ok w \<Longrightarrow> writer_ok (w\<lparr>w_inflight := l\<rparr>)" "writer_ok w \<Longrightarrow> writer_ok (w\<lparr>w_closed := c\<rparr>)"
  using writer_ok_cong [of "w\<lparr>w_inflight := l\<rparr>" w] writer_ok_cong [of "w\<lparr>w_closed := c\<rparr>" w] by simp_all

lemmas step_ok = fsync_ok note_synced_ok flush_ok seg_none_ok field_ok

lemma sync_ok:
  assumes "os_laws os" and "writer_ok w" and y: "sync os w = (w', e)"
  shows "writer_ok w'"
proof (cases "w_closed w \<or> w_seg w = None \<or> seg_buf (seg_of w) = []")
  case True
  then show ?thesis using y assms(2) by (auto simp: sync_def seg_of_def split: if_splits option.splits)
next
  case False
  then obtain s where s: "w_seg w = Some s" "seg_buf s \<noteq> []" by (auto simp: seg_of_def)
  obtain w1 e1 where f: "flush_buffer os w = (w1, e1)" by fastforce
  obtain w2 b where z: "fsync_segment os (seg_number s) w1 = (w2, b)" by fastforce
  have w1: "writer_ok w1" using flush_ok [OF assms(1,2) f] .
  have w2: "writer_ok w2" using fsync_ok [OF w1 z] .
  show ?thesis
    using y False s f z w1 w2 note_synced_ok [OF w2] by (cases e1; cases b) (auto simp: sync_def)
qed

lemma sync_async_ok:
  assumes "os_laws os" and "writer_ok w" and y: "sync_async os w = (w', res)"
  shows "writer_ok w'"
proof (cases "w_closed w \<or> w_seg w = None \<or> seg_buf (seg_of w) = []")
  case True
  then show ?thesis using y assms(2) by (auto simp: sync_async_def seg_of_def split: if_splits option.splits)
next
  case False
  then obtain s where s: "w_seg w = Some s" "seg_buf s \<noteq> []" by (auto simp: seg_of_def)
  obtain w1 e1 where f: "flush_buffer os w = (w1, e1)" by fastforce
  have w1: "writer_ok w1" using flush_ok [OF assms(1,2) f] .
  show ?thesis
    using y False s f w1 field_ok(1) [OF w1] by (cases e1) (auto simp: sync_async_def)
qed

lemma finish_async_ok:
  assumes "writer_ok w" and y: "finish_async os i w = (w', res)"
  shows "writer_ok w'"
proof -
  let ?w1 = "w\<lparr>w_inflight := take i (w_inflight w) @ drop (Suc i) (w_inflight w)\<rparr>"
  obtain n off where i: "w_inflight w ! i = (n, off)" by fastforce
  obtain w2 b where z: "fsync_segment os n ?w1 = (w2, b)" by fastforce
  have w2: "writer_ok w2" using fsync_ok [OF field_ok(1) [OF assms(1)] z] .
  show ?thesis
    using y i z w2 note_synced_ok [OF w2] by (cases b) (auto simp: finish_async_def Let_def)
qed

lemma close_writer_ok:
  assumes "os_laws os" and "writer_ok w" and y: "close_writer os w = (w', e)"
  shows "writer_ok w'"
proof -
  let ?w = "w\<lparr>w_closed := True\<rparr>"
  have w: "writer_ok ?w" using field_ok(2) assms(2) .
  show ?thesis
  proof (cases "w_closed w \<or> w_seg w = None \<or> seg_buf (seg_of w) = []")
    case True
    then show ?thesis
      using y assms(2) w seg_none_ok [OF w] by (auto simp: close_writer_def seg_of_def Let_def split: if_splits option.splits)
  next
    case False
    then obtain s where s: "w_seg w = Some s" "seg_buf s \<noteq> []" by (auto simp: seg_of_def)
    obtain w1 e1 where f: "flush_buffer os ?w = (w1, e1)" by fastforce
    obtain w2 b where z: "fsync_segment os (seg_number s) w1 = (w2, b)" by fastforce
    have "writer_ok ((note_synced (seg_number s) (seg_off s) w2)\<lparr>w_seg := None\<rparr>)"
      using seg_none_ok note_synced_ok fsync_ok [OF flush_ok [OF assms(1) w f] z] by blast
    then show ?thesis
      using y False s f z by (simp add: close_writer_def)
  qed
qed

text \<open>The writer as a state machine: the public methods and the end of a background fsync.\<close>

inductive wr_step :: "os_calls \<Rightarrow> wal_writer \<Rightarrow> wal_writer \<Rightarrow> bool" for os where
  wr_append: "append_batch os txn rs w = (w', res) \<Longrightarrow> wr_step os w w'"
| wr_sync: "sync os w = (w', e) \<Longrightarrow> wr_step os w w'"
| wr_sync_async: "sync_async os w = (w', res') \<Longrightarrow> wr_step os w w'"
| wr_finish: "i < length (w_inflight w) \<Longrightarrow> finish_async os i w = (w', res'') \<Longrightarrow> wr_step os w w'"
| wr_close: "w_inflight w = [] \<Longrightarrow> close_writer os w = (w', e) \<Longrightarrow> wr_step os w w'"

inductive_cases wr_stepE: "wr_step os w w'"

lemma wr_step_ok: "os_laws os \<Longrightarrow> wr_step os w w' \<Longrightarrow> writer_ok w \<Longrightarrow> writer_ok w'"
  by (erule wr_stepE) (auto intro: append_batch_ok sync_ok sync_async_ok finish_async_ok close_writer_ok)

lemma new_writer_ok: "writer_ok (new_writer files ro lz)"
  by (simp add: writer_ok_def new_writer_def max_record_def)

lemma reachable_ok:
  assumes "(wr_step os)\<^sup>*\<^sup>* (new_writer files ro lz) w" and "os_laws os"
  shows "writer_ok w"
  using assms(1) by (induction rule: rtranclp_induct) (auto intro: new_writer_ok wr_step_ok [OF assms(2)])


subsection \<open>Progress on a device without failures\<close>

definition os_reliable :: "os_calls \<Rightarrow> bool" where
  "os_reliable os \<longleftrightarrow> (\<forall>n. os_create os n) \<and> (\<forall>n buf off f. fst (os_pwrite os n buf off f) = Some (length buf)) \<and>
     (\<forall>n f. os_fsync os n f)"

definition ideal_os :: os_calls where
  "ideal_os = \<lparr>os_pwrite = (\<lambda>n buf off file. (Some (length buf), splice file off buf)),
     os_fsync = (\<lambda>n file. True), os_create = (\<lambda>n. True), os_grow = (\<lambda>c n. n)\<rparr>"

lemma ideal_os_laws: "os_laws ideal_os" and ideal_os_reliable: "os_reliable ideal_os"
  by (auto simp: os_laws_def ideal_os_def splice_def os_reliable_def)

lemma flush_reliable: "os_reliable os \<Longrightarrow> snd (flush_buffer os w) = None"
  by (auto simp: flush_buffer_def os_reliable_def Let_def split: option.splits prod.splits) (metis fst_conv option.inject option.distinct(1))+

lemma open_reliable: "os_reliable os \<Longrightarrow> snd (open_segment os n w) = None"
  by (auto simp: open_segment_def os_reliable_def Let_def wal_header_size_def split: option.splits prod.splits if_splits)
    (metis fst_conv option.inject option.distinct(1) length_segment_header)+

lemma append_one_total:
  assumes os: "os_reliable os"
    and big: "int (length (encode_record_compressed (r\<lparr>txn_id := txn\<rparr>) (w_compress w))) \<le> max_record w"
  shows "\<exists>w' lsn. append_one os txn w r = (w', Inr lsn)"
proof -
  let ?enc = "encode_record_compressed (r\<lparr>txn_id := txn\<rparr>) (w_compress w)"
  have "snd (make_room os (seg_of w) (length ?enc) w) = None"
    using flush_reliable [OF os] open_reliable [OF os]
    by (auto simp: make_room_def rotate_def split: prod.splits option.splits) (metis option.distinct(1) snd_conv)
  then obtain w1 where m: "make_room os (seg_of w) (length ?enc) w = (w1, None)" by (metis prod.collapse)
  have "snd (make_buffer_room os (seg_of w1) (length ?enc) w1) = None"
    using flush_reliable [OF os] by (simp add: make_buffer_room_def)
  then obtain w2 where "make_buffer_room os (seg_of w1) (length ?enc) w1 = (w2, None)" by (metis prod.collapse)
  then show ?thesis using m big by (simp add: append_one_def Let_def)
qed


definition record_fits :: "wal_writer \<Rightarrow> u64 \<Rightarrow> log_record \<Rightarrow> bool" where
  "record_fits w txn r \<longleftrightarrow> int (length (encode_record_compressed (r\<lparr>txn_id := txn\<rparr>) (w_compress w))) \<le> max_record w"

lemma append_loop_total:
  assumes "os_laws os" and "os_reliable os" and "active w" and "\<forall>r \<in> set rs. record_fits w txn r"
  shows "\<exists>w' lsn. append_loop os txn w l rs = (w', lsn, None)"
  using assms
proof (induction rs arbitrary: w l)
  case (Cons r rs)
  obtain s where s: "w_seg w = Some s" using Cons.prems(3) by (auto simp: active_def)
  have "int (length (encode_record_compressed (r\<lparr>txn_id := txn\<rparr>) (w_compress w))) \<le> max_record w"
    using Cons.prems(4) by (simp add: record_fits_def)
  from append_one_total [OF Cons.prems(2) this] obtain w1 lsn where a: "append_one os txn w r = (w1, Inr lsn)"
    by blast
  have "w_compress w1 = w_compress w \<and> max_record w1 = max_record w"
    by (rule append_one_spec [OF Cons.prems(1) active_writer_ok [OF Cons.prems(3)] s a]) simp
  then have "\<forall>r \<in> set rs. record_fits w1 txn r"
    using Cons.prems(4) by (simp add: record_fits_def)
  then show ?case
    using Cons.IH [OF Cons.prems(1,2) append_one_active [OF Cons.prems(1,3) a]] a by simp
qed simp

lemma append_batch_total:
  assumes laws: "os_laws os" and rel: "os_reliable os" and ok: "writer_ok w" and o: "\<not> w_closed w" "\<not> w_readonly w"
    and fits: "\<forall>r \<in> set rs. record_fits w txn r"
  shows "\<exists>w' lsn. append_batch os txn rs w = (w', lsn, None)"
proof (cases "w_seg w")
  case (Some s)
  then show ?thesis
    using append_loop_total [OF laws rel writer_ok_active [OF ok Some] fits] o by (simp add: append_batch_def)
next
  case None
  obtain w1 where w1: "open_segment os 0 w = (w1, None)" using open_reliable [OF rel] by (metis prod.collapse)
  note fr = open_segment_frame [OF w1] and sp = open_segment_spec [OF laws w1]
  have "active w1" using sp fr ok by (auto simp: active_def writer_ok_def)
  moreover have "\<forall>r \<in> set rs. record_fits w1 txn r" using fits fr by (simp add: record_fits_def)
  ultimately show ?thesis
    using append_loop_total [OF laws rel] w1 o None by (simp add: append_batch_def)
qed

lemma sync_total:
  assumes rel: "os_reliable os"
  shows "\<exists>w'. sync os w = (w', None)"
proof (cases "w_closed w \<or> w_seg w = None \<or> seg_buf (seg_of w) = []")
  case True
  then show ?thesis by (auto simp: sync_def seg_of_def split: option.splits)
next
  case False
  obtain w1 where "flush_buffer os w = (w1, None)" using flush_reliable [OF rel] by (metis prod.collapse)
  then show ?thesis
    using False rel by (auto simp: sync_def seg_of_def fsync_segment_def os_reliable_def)
qed

subsection \<open>A segment left behind\<close>

text \<open>
  A batch that makes the writer rotate: the old segment's tail is written with \<open>pwrite\<close>, and
  nothing ever calls \<open>fsync\<close> on it; the next \<open>Sync\<close> does so on the new segment only.
\<close>

lemma append_one_rotates:
  assumes laws: "os_laws os" and ok: "writer_ok w" and seg: "w_seg w = Some s"
    and full: "seg_size < seg_off s + length (encode_record_compressed (r\<lparr>txn_id := txn\<rparr>) (w_compress w))"
    and a: "append_one os txn w r = (w', Inr lsn)"
  shows "\<exists>s'. w_seg w' = Some s' \<and> seg_number s' = seg_number s + 1 \<and> seg_buf s' \<noteq> [] \<and> w_closed w' = w_closed w"
proof -
  let ?enc = "encode_record_compressed (r\<lparr>txn_id := txn\<rparr>) (w_compress w)"
  obtain w1 w2 where m: "make_room os s (length ?enc) w = (w1, None)"
    and f: "w2 = w1 \<or> flush_buffer os w1 = (w2, None)" and w': "w' = push_record os ?enc w2"
    using append_one_cases [OF a] seg unfolding seg_of_def by (metis option.simps(5))
  have sok: "seg_ok w s" using ok seg by (simp add: writer_ok_def)
  have w1: "w_seg w1 = Some \<lparr>seg_number = seg_number s + 1, seg_off = wal_header_size, seg_buf = [], seg_cap = wal_buf_size\<rparr>"
    "seg_ok w1 (seg_of w1)"
    using full by (cases rule: make_room_spec [OF laws seg sok m]; simp)+
  have "\<exists>b. w_seg w2 = Some \<lparr>seg_number = seg_number s + 1, seg_off = wal_header_size, seg_buf = b, seg_cap = wal_buf_size\<rparr>"
    using f flush_spec [OF laws w1(1)] w1 by (auto simp: seg_of_def)
  moreover have "w_closed w1 = w_closed w"
    using m flush_frame open_segment_frame by (force simp: make_room_def rotate_def split: if_splits prod.splits option.splits)
  then have "w_closed w2 = w_closed w" using f flush_frame by metis
  ultimately show ?thesis
    using enc_nonempty [of "r\<lparr>txn_id := txn\<rparr>" "w_compress w"] w' by (auto simp: push_record_def seg_of_def Let_def)
qed

subsection \<open>Properties\<close>

text \<open>An example: a fresh writer appends one commit record on the ideal device.\<close>

lemma new_writer_fields [simp]:
  "w_seg (new_writer files ro lz) = None" "w_closed (new_writer files ro lz) = False"
  "w_readonly (new_writer files ro lz) = ro" "w_compress (new_writer files ro lz) = lz"
  "max_record (new_writer files ro lz) = int seg_size" "segs_used (new_writer files ro lz) = 0"
  by (simp_all add: new_writer_def max_record_def segs_used_def)

lemma sample_length:
  "length (encode_record_compressed (sample_commit\<lparr>txn_id := 7\<rparr>) False) \<le> 30"
  "length (disk_body_of (sample_commit\<lparr>txn_id := 7\<rparr>) False) = 10"
  "length (record_body (sample_commit\<lparr>txn_id := 7\<rparr>)) = 10"
proof -
  have e: "sample_commit\<lparr>txn_id := 7\<rparr> = sample_commit" by (simp add: sample_commit_def)
  show "length (disk_body_of (sample_commit\<lparr>txn_id := 7\<rparr>) False) = 10" "length (record_body (sample_commit\<lparr>txn_id := 7\<rparr>)) = 10"
    by (simp_all add: e disk_body_of_def sample_commit_body)
  show "length (encode_record_compressed (sample_commit\<lparr>txn_id := 7\<rparr>) False) \<le> 30"
    using length_put_uvarint_le [of 14]
    by (simp add: e encode_record_compressed_def envelope_def disk_body_of_def sample_commit_body)
qed

lemma sample_append:
  "\<exists>w' lsn. append_batch ideal_os 7 [sample_commit] (new_writer Map.empty False False) = (w', lsn, None)"
  by (rule append_batch_total [OF ideal_os_laws ideal_os_reliable new_writer_ok])
    (use sample_length(1) in \<open>auto simp: record_fits_def seg_size_def\<close>)

text \<open>
  C9. A batch accepted by \<open>Append\<close> is in the log: there are strictly increasing positions, past everything appended
  before and the last of them the returned LSN, at which the decoder reads back each record of the batch in order,
  stamped with the batch's transaction id. Every stored body with its checksum takes at most \<open>MaxRecordLen\<close>
  (4 MB): \<open>Append\<close> accepts larger ones, and the decoder refuses them. The answers of the file system depend on the
  call alone, and the segment numbers stay below \<open>2 ^ 37\<close>.
\<close>

theorem wal_append_readable:
  assumes "os_laws os" and "writer_ok w" and "segs_used w + length rs < 2 ^ 37" and "rs \<noteq> []"
    and "append_batch os txn rs w = (w', lsn, None)"
    and "\<forall>r \<in> set rs. length (disk_body_of (r\<lparr>txn_id := txn\<rparr>) (w_compress w)) + 4 \<le> max_record_len \<and>
           length (record_body (r\<lparr>txn_id := txn\<rparr>)) < 2 ^ 63"
  shows "\<exists>ps. length ps = length rs \<and> sorted_wrt (<) (map position ps) \<and>
    (\<forall>p \<in> set ps. writer_end w \<le> position p) \<and> unat lsn = position (last ps) \<and>
    (\<forall>i < length rs. decode_record_compressed (wal_view w' (fst (ps ! i))) (int (snd (ps ! i))) (w_compress w)
        = Ok (wire_view ((rs ! i)\<lparr>txn_id := txn\<rparr>),
              int (length (encode_record_compressed ((rs ! i)\<lparr>txn_id := txn\<rparr>) (w_compress w)))))"
proof -
  obtain ps where ps: "batch_places w w' txn ps rs" "unat lsn = position (last ps)" "w_compress w' = w_compress w"
    by (rule append_batch_spec [OF assms(1-5)]) blast
  have "placed w' txn (ps ! i) (rs ! i)" if "i < length rs" for i
    using ps(1) that by (auto simp: batch_places_def list_all2_conv_all_nth)
  then have "decode_record_compressed (wal_view w' (fst (ps ! i))) (int (snd (ps ! i))) (w_compress w)
        = Ok (wire_view ((rs ! i)\<lparr>txn_id := txn\<rparr>),
              int (length (encode_record_compressed ((rs ! i)\<lparr>txn_id := txn\<rparr>) (w_compress w))))" if "i < length rs" for i
    using placed_decodes [of w' txn "ps ! i" "rs ! i"] assms(6) that ps(3) by auto
  moreover have "length ps = length rs" using ps(1) by (auto simp: batch_places_def dest: list_all2_lengthD)
  ultimately show ?thesis
    using ps(1,2) by (intro exI [of _ ps]) (auto simp: batch_places_def)
qed

theorem wal_append_readable_witness:
  "\<exists>w' lsn p. append_batch ideal_os 7 [sample_commit] (new_writer Map.empty False False) = (w', lsn, None) \<and>
     unat lsn = position p \<and>
     decode_record_compressed (wal_view w' (fst p)) (int (snd p)) False
       = Ok (wire_view (sample_commit\<lparr>txn_id := 7\<rparr>), int (length (encode_record_compressed (sample_commit\<lparr>txn_id := 7\<rparr>) False)))"
proof -
  obtain w' lsn where a: "append_batch ideal_os 7 [sample_commit] (new_writer Map.empty False False) = (w', lsn, None)"
    using sample_append by blast
  have "\<exists>ps. length ps = length [sample_commit] \<and> sorted_wrt (<) (map position ps) \<and>
    (\<forall>p \<in> set ps. writer_end (new_writer Map.empty False False) \<le> position p) \<and> unat lsn = position (last ps) \<and>
    (\<forall>i < length [sample_commit]. decode_record_compressed (wal_view w' (fst (ps ! i))) (int (snd (ps ! i)))
        (w_compress (new_writer Map.empty False False))
        = Ok (wire_view (([sample_commit] ! i)\<lparr>txn_id := 7\<rparr>),
              int (length (encode_record_compressed (([sample_commit] ! i)\<lparr>txn_id := 7\<rparr>) (w_compress (new_writer Map.empty False False))))))"
    by (rule wal_append_readable [OF ideal_os_laws new_writer_ok _ _ a])
      (use sample_length in \<open>simp_all add: max_record_len_def\<close>)
  then obtain ps where "length ps = 1" "unat lsn = position (last ps)"
      "decode_record_compressed (wal_view w' (fst (ps ! 0))) (int (snd (ps ! 0))) False
        = Ok (wire_view (sample_commit\<lparr>txn_id := 7\<rparr>), int (length (encode_record_compressed (sample_commit\<lparr>txn_id := 7\<rparr>) False)))"
    by auto
  moreover from this(1) have "last ps = ps ! 0" by (cases ps) auto
  ultimately show ?thesis
    using a by (intro exI [of _ w'] exI [of _ lsn] exI [of _ "ps ! 0"] conjI) simp_all
qed

text \<open>
  The log only grows: a batch that \<open>Append\<close> accepts keeps every byte of every
  segment up to the active one, buffered bytes included, across flushes and rotations.
\<close>

theorem wal_append_keeps_log:
  assumes "os_laws os" and "writer_ok w" and "w_seg w = Some s" and "segs_used w + length rs < 2 ^ 37" and "rs \<noteq> []"
    and "append_batch os txn rs w = (w', lsn, None)" and "unat n \<le> unat (seg_number s)"
  shows "prefix (wal_view w n) (wal_view w' n)"
  by (rule append_batch_spec [OF assms(1,2,4,5,6)]) (use assms(3,7) in blast)

text \<open>A writer in the middle of its first segment, for the instances below.\<close>

definition mid_writer :: "nat \<Rightarrow> wal_writer" where
  "mid_writer k =
     (new_writer [0 \<mapsto> segment_header 0 @ replicate k 0] False False)
       \<lparr>w_seg := Some \<lparr>seg_number = 0, seg_off = wal_header_size + k, seg_buf = [], seg_cap = wal_buf_size\<rparr>\<rparr>"

lemma mid_writer_ok: "k \<le> seg_size \<Longrightarrow> writer_ok (mid_writer k)"
  by (simp add: mid_writer_def writer_ok_def seg_ok_def new_writer_def max_record_def flushed_def file_of_def
      writer_flags_def wal_header_size_def)

lemma mid_writer_fields [simp]:
  "w_seg (mid_writer k) = Some \<lparr>seg_number = 0, seg_off = wal_header_size + k, seg_buf = [], seg_cap = wal_buf_size\<rparr>"
  "w_closed (mid_writer k) = False" "w_readonly (mid_writer k) = False" "w_compress (mid_writer k) = False"
  "max_record (mid_writer k) = int seg_size" "segs_used (mid_writer k) = 0"
  by (simp_all add: mid_writer_def new_writer_def max_record_def segs_used_def)

lemma mid_append: "k \<le> seg_size \<Longrightarrow> \<exists>w' lsn. append_batch ideal_os 7 [sample_commit] (mid_writer k) = (w', lsn, None)"
  by (rule append_batch_total [OF ideal_os_laws ideal_os_reliable mid_writer_ok])
    (use sample_length(1) in \<open>auto simp: record_fits_def seg_size_def\<close>)

theorem wal_append_keeps_log_witness:
  "\<exists>w' lsn. append_batch ideal_os 7 [sample_commit] (mid_writer 5) = (w', lsn, None) \<and>
     prefix (wal_view (mid_writer 5) 0) (wal_view w' 0)"
proof -
  obtain w' lsn where a: "append_batch ideal_os 7 [sample_commit] (mid_writer 5) = (w', lsn, None)"
    using mid_append [of 5] by (auto simp: seg_size_def)
  have "prefix (wal_view (mid_writer 5) 0) (wal_view w' 0)"
    by (rule wal_append_keeps_log [OF ideal_os_laws mid_writer_ok _ _ _ a]) (simp_all add: seg_size_def)
  then show ?thesis using a by blast
qed

text \<open>
  C13. In every state the writer can reach (appends, syncs, asynchronous syncs, close, and every I/O
  failure among them) the active segment starts with a valid header for the writer's compression
  mode, its file holds at least the flushed prefix, the buffer is within its capacity, and its
  length is at most \<open>SegSize\<close> plus the 12 header bytes that the size check does not count.
\<close>

theorem wal_writer_invariant:
  assumes "(wr_step os)\<^sup>*\<^sup>* (new_writer files ro lz) w" and "os_laws os"
  shows "writer_ok w"
  using assms by (rule reachable_ok)

theorem wal_writer_invariant_witness:
  "\<exists>w. (wr_step ideal_os)\<^sup>*\<^sup>* (new_writer Map.empty False False) w \<and> w_seg w \<noteq> None \<and> writer_ok w"
proof -
  obtain w' lsn where a: "append_batch ideal_os 7 [sample_commit] (new_writer Map.empty False False) = (w', lsn, None)"
    using sample_append by blast
  have r: "(wr_step ideal_os)\<^sup>*\<^sup>* (new_writer Map.empty False False) w'"
    using wr_append [OF a] by blast
  have "\<exists>s'. w_seg w' = Some s'"
    by (rule append_batch_spec [OF ideal_os_laws new_writer_ok _ _ a]) simp_all
  then show ?thesis using r wal_writer_invariant [OF r ideal_os_laws] by blast
qed

text \<open>
  C10. Durability of \<open>Sync\<close>: when it flushes and returns nil, the whole log of the active segment,
  what was buffered included, is on stable storage, and the synced LSN covers its end.
\<close>

theorem wal_sync_durable:
  assumes "os_laws os" and "writer_ok w" and "w_seg w = Some s" and "\<not> w_closed w" and "seg_buf s \<noteq> []"
    and "sync os w = (w', None)"
  shows "(\<exists>f. w_stable w' (seg_number s) = Some f \<and> take (seg_off s) f = wal_view w (seg_number s)) \<and>
    lsn_for (seg_number s) (of_nat (seg_off s)) \<le> w_synced w'"
  using sync_spec [OF assms] by simp

theorem wal_sync_durable_witness:
  "\<exists>w s w'. w_seg w = Some s \<and> seg_buf s \<noteq> [] \<and> sync ideal_os w = (w', None) \<and>
    (\<exists>f. w_stable w' (seg_number s) = Some f \<and> take (seg_off s) f = wal_view w (seg_number s))"
proof -
  let ?k = seg_size
  obtain w lsn where a: "append_batch ideal_os 7 [sample_commit] (mid_writer ?k) = (w, lsn, None)"
    using mid_append [of ?k] by auto
  have one: "append_one ideal_os 7 (mid_writer ?k) sample_commit = (w, Inr lsn)"
    using a by (auto simp: append_batch_def split: prod.splits sum.splits)
  obtain s where s: "w_seg w = Some s" "seg_buf s \<noteq> []" "w_closed w = False"
    using append_one_rotates [OF ideal_os_laws mid_writer_ok _ _ one] enc_nonempty by auto
  obtain w' where y: "sync ideal_os w = (w', None)" using sync_total [OF ideal_os_reliable] by blast
  have "writer_ok w" using append_batch_ok [OF ideal_os_laws mid_writer_ok a] by simp
  from wal_sync_durable [OF ideal_os_laws this s(1) _ s(2) y] s y show ?thesis by auto
qed

text \<open>
  A gap in that durability: after a batch whose first record makes the writer rotate, a
  \<open>Sync\<close> that returns nil reports a synced LSN past the whole old segment, yet the old segment
  has never been fsynced: its stable contents are what they were before.
\<close>

theorem wal_rotation_not_synced:
  assumes "os_laws os" and "writer_ok w" and "w_seg w = Some s" and "\<not> w_closed w" and "unat (seg_number s) + 1 < 2 ^ 37"
    and "seg_size < seg_off s + length (encode_record_compressed (r\<lparr>txn_id := txn\<rparr>) (w_compress w))"
    and "append_batch os txn [r] w = (w1, lsn, None)" and "sync os w1 = (w2, None)"
  shows "w_stable w2 (seg_number s) = w_stable w (seg_number s) \<and> writer_end w \<le> unat (w_synced w2)"
proof -
  have a: "append_one os txn w r = (w1, Inr lsn)"
    using assms(3,7) by (auto simp: append_batch_def split: if_splits prod.splits sum.splits)
  obtain s1 where s1: "w_seg w1 = Some s1" "seg_number s1 = seg_number s + 1" "seg_buf s1 \<noteq> []" "w_closed w1 = w_closed w"
    using append_one_rotates [OF assms(1,2,3,6) a] by auto
  have ok1: "writer_ok w1" using append_batch_ok [OF assms(1,2,7)] .
  have "segs_used w + length [r] < 2 ^ 37" using assms(3,5) by (simp add: segs_used_def)
  then have st: "w_stable w1 = w_stable w" and ends: "writer_end w < writer_end w1"
    by (rule append_batch_spec [OF assms(1,2) _ _ assms(7)]; simp)+
  note y = sync_spec [OF assms(1) ok1 s1(1) _ s1(3) assms(8)]
  have syn: "lsn_for (seg_number s1) (of_nat (seg_off s1)) \<le> w_synced w2"
    and stab: "w_stable w2 = (w_stable w1)(seg_number s1 \<mapsto> file_of w2 (seg_number s1))"
    using y assms(4) s1(4) by simp_all
  have "unat (seg_number s + 1) = unat (seg_number s) + 1" using assms(5) by (intro unat_Suc_u64) simp
  then have "unat (lsn_for (seg_number s1) (of_nat (seg_off s1))) = writer_end w1"
    using unat_lsn_for [of "seg_number s1" "seg_off s1"] assms(5) s1(1,2) ok1
    by (simp add: writer_end_def writer_ok_def seg_ok_def)
  moreover have "unat (lsn_for (seg_number s1) (of_nat (seg_off s1))) \<le> unat (w_synced w2)"
    using syn by (simp add: word_le_nat_alt)
  ultimately show ?thesis using st stab ends s1(2) by simp
qed

theorem wal_rotation_not_synced_witness:
  "\<exists>w1 lsn w2. append_batch ideal_os 7 [sample_commit] (mid_writer seg_size) = (w1, lsn, None) \<and>
     sync ideal_os w1 = (w2, None) \<and> w_stable w2 0 = w_stable (mid_writer seg_size) 0 \<and>
     writer_end (mid_writer seg_size) \<le> unat (w_synced w2)"
proof -
  obtain w1 lsn where a: "append_batch ideal_os 7 [sample_commit] (mid_writer seg_size) = (w1, lsn, None)"
    using mid_append [of seg_size] by auto
  obtain w2 where y: "sync ideal_os w1 = (w2, None)" using sync_total [OF ideal_os_reliable] by blast
  have "w_stable w2 0 = w_stable (mid_writer seg_size) 0 \<and> writer_end (mid_writer seg_size) \<le> unat (w_synced w2)"
    using wal_rotation_not_synced [OF ideal_os_laws mid_writer_ok _ _ _ _ a y] by (simp add: wal_header_size_def)
  then show ?thesis using a y by blast
qed

text \<open>
  C37. \<open>Append\<close> does not fail by itself: on an open, writable writer over a device without failures,
  a batch of records none of which is larger than the cap is accepted.
\<close>

theorem wal_append_succeeds:
  assumes "os_laws os" and "os_reliable os" and "writer_ok w" and "\<not> w_closed w" and "\<not> w_readonly w"
    and "\<forall>r \<in> set rs. record_fits w txn r"
  shows "\<exists>w' lsn. append_batch os txn rs w = (w', lsn, None)"
  using assms by (rule append_batch_total)

theorem wal_append_succeeds_witness:
  "\<exists>w' lsn. append_batch ideal_os 7 [sample_commit, sample_commit] (mid_writer 0) = (w', lsn, None)"
  by (rule wal_append_succeeds [OF ideal_os_laws ideal_os_reliable mid_writer_ok])
    (use sample_length(1) in \<open>auto simp: record_fits_def seg_size_def\<close>)

end
