(* ===== verification/Wal_Replay.thy ===== *)
theory Wal_Replay
  imports Wal_Writer "HOL-Library.Multiset"
begin

text \<open>
  The WAL replayer of \<open>internal/WAL/RP/rp.go\<close> and the partitioning of \<open>parallel.go\<close>: the
  chunked scan of a segment with its recovery policy and statistics, replay with callbacks, the
  search for the last checkpoint and the truncation that follows a replay. Segment files are byte
  lists; \<open>rd\<close> is \<open>pread\<close> and may fail or read short. The buffer pool and the callbacks are
  functions on the client's state \<open>'s\<close>.
\<close>

subsection \<open>Scanning a segment\<close>

datatype 'e rp_error = RpClosed | RpIO | RpNoSegment | RpCorrupt | RpNoCheckpoint | RpCallback 'e

record rp_stats =
  truncated_segments :: u64
  unknown_records :: u64
  corruption_failures :: u64

definition zero_stats :: rp_stats where
  "zero_stats = \<lparr>truncated_segments = 0, unknown_records = 0, corruption_failures = 0\<rparr>"

definition rp_seg_size :: nat where "rp_seg_size = 64 * 1024 * 1024"
definition chunk_size :: nat where "chunk_size = 64 * 1024"

definition note_truncated :: "rp_stats \<Rightarrow> rp_stats" where
  "note_truncated st = st\<lparr>truncated_segments := truncated_segments st + 1\<rparr>"

definition note_unknown :: "rp_stats \<Rightarrow> rp_stats" where
  "note_unknown st = st\<lparr>unknown_records := unknown_records st + 1\<rparr>"

definition note_corrupt :: "rp_stats \<Rightarrow> rp_stats" where
  "note_corrupt st = st\<lparr>corruption_failures := corruption_failures st + 1\<rparr>"

text \<open>\<open>pread\<close> on a segment's bytes: \<open>rd file offset n\<close>; a full read returns what is there.\<close>

type_synonym pread = "bytes \<Rightarrow> nat \<Rightarrow> nat \<Rightarrow> bytes option"

definition pread_full :: pread where
  "pread_full file offset n = Some (sub file offset (offset + n))"

text \<open>A record handler: the error it returns, if any, and the client's new state.\<close>

type_synonym ('e, 's) handler = "log_record \<Rightarrow> u64 \<Rightarrow> 's \<Rightarrow> 'e rp_error option \<times> 's"

text \<open>
  The loop over one chunk. It ends the scan (\<open>Return\<close>), or runs out of the chunk with the cursors
  \<open>off\<close> (in the chunk) and \<open>offset\<close> (in the file). The decoder has three errors, so the code
  after the three tests on them (the bounded resync) cannot be reached.
\<close>

datatype 'e scan = Return "('e rp_error, unit) outcome" | Chunk_done nat nat

lemma decode_consumed_pos: "decode_record_compressed data off lz = Ok (r, c) \<Longrightarrow> 0 < c"
  by (auto simp: decode_record_compressed_def decode_enveloped_def obind_Ok_iff Let_def decode_varint_def
      split: if_splits prod.splits intro: add_pos_nonneg)

function scan_chunk :: "('e, 's) handler \<Rightarrow> bool \<Rightarrow> u64 \<Rightarrow> bytes \<Rightarrow> nat \<Rightarrow> nat \<Rightarrow> rp_stats \<Rightarrow> 's \<Rightarrow>
    'e scan \<times> rp_stats \<times> 's" where
  "scan_chunk fn lz seg chunk off offset st s =
     (if length chunk \<le> off then (Chunk_done off offset, st, s)
      else case decode_record_compressed chunk (int off) lz of
        Fail ErrTruncatedRecord \<Rightarrow> (Return (Ok ()), note_truncated st, s)
      | Fail ErrUnknownRecord \<Rightarrow> (Return (Ok ()), note_truncated st, s)
      | Fail ErrCorrupt \<Rightarrow> (Return (Fail RpCorrupt), note_corrupt st, s)
      | Panic \<Rightarrow> (Return Panic, st, s)
      | Ok (rec, consumed) \<Rightarrow>
          if pay_crc_fail rec then (Return (Fail RpCorrupt), note_corrupt st, s)
          else if rtype rec = 0xFF then
            scan_chunk fn lz seg chunk (off + nat consumed) (offset + nat consumed) (note_unknown st) s
          else
            (case fn rec (seg * of_nat rp_seg_size + of_nat offset + of_nat (nat consumed)) s of
               (Some e, s') \<Rightarrow> (Return (Fail e), st, s')
             | (None, s') \<Rightarrow> scan_chunk fn lz seg chunk (off + nat consumed) (offset + nat consumed) st s'))"
  by pat_completeness auto
termination
  by (relation "measure (\<lambda>(fn, lz, seg, chunk, off, offset, st, s). length chunk - off)")
    (auto dest!: decode_consumed_pos)

lemmas [simp del] = scan_chunk.simps

lemma scan_chunk_done: "scan_chunk fn lz seg chunk off offset st s = (Chunk_done off' offset', st', s') \<Longrightarrow>
    length chunk \<le> off' \<and> offset \<le> offset'"
proof (induction fn lz seg chunk off offset st s arbitrary: st' s' rule: scan_chunk.induct)
  case (1 fn lz seg chunk off offset st s)
  show ?case
    using 1(3) 1(1) [of _ _ _] 1(2)
    by (subst (asm) scan_chunk.simps)
      (fastforce split: if_splits outcome.splits wal_error.splits prod.splits option.splits)
qed

function scan_file :: "pread \<Rightarrow> ('e, 's) handler \<Rightarrow> bool \<Rightarrow> u64 \<Rightarrow> bytes \<Rightarrow> nat \<Rightarrow> rp_stats \<Rightarrow> 's \<Rightarrow>
    ('e rp_error, unit) outcome \<times> rp_stats \<times> 's" where
  "scan_file rd fn lz seg file offset st s =
     (if length file \<le> offset then (Ok (), st, s)
      else
        let read_n = (if length file < offset + chunk_size then length file - offset else chunk_size)
        in case rd file offset read_n of
             None \<Rightarrow> (Fail RpIO, st, s)
           | Some buf \<Rightarrow>
               if buf = [] then (Ok (), st, s)
               else case scan_chunk fn lz seg buf 0 offset st s of
                 (Return res, st', s') \<Rightarrow> (res, st', s')
               | (Chunk_done off offset', st', s') \<Rightarrow>
                   let offset'' = (if 0 < off then offset' + off else offset')
                   in if length file \<le> offset'' then (Ok (), st', s')
                      else scan_file rd fn lz seg file offset'' st' s')"
  by pat_completeness auto
termination
proof (relation "measure (\<lambda>(rd, fn, lz, seg, content, offset, st, s). length content - offset)", goal_cases)
  case 1
  then show ?case by simp
next
  case (2 rd fn lz seg content offset st s n buf)
  have pos: "buf \<noteq> [] \<Longrightarrow> 0 < length buf" by simp
  show ?case
    using 2 pos by (auto simp: Let_def dest!: scan_chunk_done [OF sym])
qed

lemmas [simp del] = scan_file.simps


text \<open>
  \<open>forEachRecord\<close>. \<open>files\<close> maps a segment number to the bytes of its file; \<open>GetSegment\<close>
  fails on a missing one. The header flag decides how the bodies are decoded.
\<close>

definition for_each_record :: "pread \<Rightarrow> ('e, 's) handler \<Rightarrow> (u64 \<rightharpoonup> bytes) \<Rightarrow> u64 \<Rightarrow> rp_stats \<Rightarrow> 's \<Rightarrow>
    ('e rp_error, unit) outcome \<times> rp_stats \<times> 's" where
  "for_each_record rd fn files seg st s =
     (case files seg of None \<Rightarrow> (Fail RpNoSegment, st, s)
      | Some content \<Rightarrow>
          if content = [] then (Ok (), st, s)
          else case rd content 0 wal_header_size of
            None \<Rightarrow> (Fail RpIO, st, s)
          | Some header \<Rightarrow>
              if length header < wal_header_size then (Fail RpCorrupt, note_corrupt st, s)
              else if validate_segment_header header \<noteq> Ok () then (Fail RpCorrupt, note_corrupt st, s)
              else
                let lz = (header ! 5 AND flag_compression_lz4 \<noteq> 0)
                in if length content \<le> wal_header_size then (Ok (), st, s)
                   else scan_file rd fn lz seg content wal_header_size st s)"

subsection \<open>Replay\<close>

text \<open>
  The client of a replay: \<open>Upsert\<close> of the buffer pool, whose error is logged and dropped, and the
  three callbacks, \<open>None\<close> for a nil hook.
\<close>

record ('e, 's) rp_client =
  cl_upsert :: "u64 \<Rightarrow> bytes \<Rightarrow> 's \<Rightarrow> 's"
  cl_data :: "(u64 \<Rightarrow> bytes \<Rightarrow> 's \<Rightarrow> 'e option \<times> 's) option"
  cl_commit :: "(u64 \<Rightarrow> u64 \<Rightarrow> 's \<Rightarrow> 'e option \<times> 's) option"
  cl_rollback :: "(u64 \<Rightarrow> 's \<Rightarrow> 'e option \<times> 's) option"

definition hook :: "'e option \<times> 's \<Rightarrow> 'e rp_error option \<times> 's" where
  "hook res = (map_option RpCallback (fst res), snd res)"

definition apply_record :: "('e, 's) rp_client \<Rightarrow> log_record \<Rightarrow> 's \<Rightarrow> 'e rp_error option \<times> 's" where
  "apply_record cl rec s =
     (if rtype rec = rt_data then
        let s' = (if rvalue rec \<noteq> [] then cl_upsert cl (block_id rec) (rvalue rec) s else s)
        in case cl_data cl of None \<Rightarrow> (None, s') | Some f \<Rightarrow> hook (f (block_id rec) (rvalue rec) s')
      else if rtype rec = rt_commit then
        (case cl_commit cl of None \<Rightarrow> (None, s) | Some f \<Rightarrow> hook (f (txn_id rec) (block_id rec) s))
      else if rtype rec = rt_rollback then
        (case cl_rollback cl of None \<Rightarrow> (None, s) | Some f \<Rightarrow> hook (f (txn_id rec) s))
      else (None, s))"

definition replay_handler :: "('e, 's) rp_client \<Rightarrow> u64 \<Rightarrow> ('e, 's) handler" where
  "replay_handler cl min_lsn rec lsn s = (if lsn < min_lsn then (None, s) else apply_record cl rec s)"

definition replay_segment :: "pread \<Rightarrow> ('e, 's) rp_client \<Rightarrow> (u64 \<rightharpoonup> bytes) \<Rightarrow> u64 \<Rightarrow> u64 \<Rightarrow> rp_stats \<Rightarrow> 's \<Rightarrow>
    ('e rp_error, unit) outcome \<times> rp_stats \<times> 's" where
  "replay_segment rd cl files seg min_lsn st s = for_each_record rd (replay_handler cl min_lsn) files seg st s"

text \<open>
  \<open>decodeCheckpoint\<close>. \<open>make([]uint64, 0, txnCount)\<close> takes its capacity from the wire and panics
  when it is beyond what the allocator admits, \<open>2 ^ 48 / 8\<close> elements on amd64 Linux.
\<close>

definition max_make :: nat where "max_make = 2 ^ 45"

fun decode_active :: "nat \<Rightarrow> bytes \<Rightarrow> int \<Rightarrow> u64 list" where
  "decode_active 0 val off = []"
| "decode_active (Suc k) val off =
     (if int (length val) \<le> off then []
      else case decode_varint val off of (v, n) \<Rightarrow>
        if n < 0 then [] else v # decode_active k val (off + n))"

definition decode_checkpoint :: "log_record \<Rightarrow> ('e, checkpoint option) outcome" where
  "decode_checkpoint rec =
     (if rtype rec \<noteq> rt_checkpoint then Ok None
      else
        let k = rkey rec;
            cp = (if 24 \<le> length k then \<lparr>cp_lsn = get_u64 k, cp_catalog_root = get_u64 (drop 8 k),
                    cp_manifest_sum = get_u32 (drop 16 k), cp_active = []\<rparr>
                  else \<lparr>cp_lsn = 0, cp_catalog_root = 0, cp_manifest_sum = 0, cp_active = []\<rparr>)
        in if 0 < block_id rec \<and> rvalue rec \<noteq> [] then
             (if max_make < unat (block_id rec) then Panic
              else Ok (Some (cp\<lparr>cp_active := decode_active (min (unat (block_id rec)) (length (rvalue rec))) (rvalue rec) 0\<rparr>)))
           else Ok (Some cp))"

text \<open>
  The loop runs at most \<open>txnCount\<close> times and stops at the end of the value; each round consumes
  at least one byte, so \<open>min txnCount (len value)\<close> rounds are all there are.
  The handler of \<open>findCheckpointInSegment\<close> keeps the last checkpoint; a panic of the decoder is
  kept as such.
\<close>

definition checkpoint_handler :: "log_record \<Rightarrow> u64 \<Rightarrow> (unit, checkpoint option) outcome \<Rightarrow>
    unit rp_error option \<times> (unit, checkpoint option) outcome" where
  "checkpoint_handler rec lsn s =
     (None, if rtype rec = rt_checkpoint \<and> s \<noteq> Panic then decode_checkpoint rec else s)"

definition find_checkpoint_in_segment :: "pread \<Rightarrow> (u64 \<rightharpoonup> bytes) \<Rightarrow> u64 \<Rightarrow> rp_stats \<Rightarrow>
    (unit rp_error, checkpoint) outcome \<times> rp_stats" where
  "find_checkpoint_in_segment rd files seg st =
     (case for_each_record rd checkpoint_handler files seg st (Ok None) of
        (Ok _, st', Ok (Some cp)) \<Rightarrow> (Ok cp, st')
      | (Ok _, st', Ok None) \<Rightarrow> (Fail RpNoCheckpoint, st')
      | (Fail e, st', Ok _) \<Rightarrow> (Fail e, st')
      | (_, st', _) \<Rightarrow> (Panic, st'))"

fun last_checkpoint_in :: "pread \<Rightarrow> (u64 \<rightharpoonup> bytes) \<Rightarrow> u64 list \<Rightarrow> rp_stats \<Rightarrow>
    (unit rp_error, checkpoint) outcome \<times> rp_stats" where
  "last_checkpoint_in rd files [] st = (Fail RpNoCheckpoint, st)"
| "last_checkpoint_in rd files (seg # segs) st =
     (case find_checkpoint_in_segment rd files seg st of
        (Fail RpNoCheckpoint, st') \<Rightarrow> last_checkpoint_in rd files segs st'
      | res \<Rightarrow> res)"

text \<open>\<open>LastCheckpoint\<close> walks the ascending list of segments from its end.\<close>

definition last_checkpoint :: "pread \<Rightarrow> bool \<Rightarrow> (u64 \<rightharpoonup> bytes) \<Rightarrow> u64 list \<Rightarrow> rp_stats \<Rightarrow>
    (unit rp_error, checkpoint) outcome \<times> rp_stats" where
  "last_checkpoint rd closed files segs st =
     (if closed then (Fail RpClosed, st) else last_checkpoint_in rd files (rev segs) st)"

definition ftruncate :: "nat \<Rightarrow> bytes \<Rightarrow> bytes" where
  "ftruncate n content = take n content @ replicate (n - length content) 0"

fun truncate_segments :: "u64 \<Rightarrow> nat \<Rightarrow> u64 list \<Rightarrow> (u64 \<rightharpoonup> bytes) \<Rightarrow> (u64 \<rightharpoonup> bytes)" where
  "truncate_segments seg sz [] files = files"
| "truncate_segments seg sz (n # ns) files =
     truncate_segments seg sz ns
       (if sint n < sint seg then files(n := map_option (ftruncate 0) (files n))
        else if n = seg \<and> 0 < sz then files(n := map_option (ftruncate sz) (files n))
        else files)"

definition truncate_before_checkpoint :: "u64 \<Rightarrow> u64 list \<Rightarrow> (u64 \<rightharpoonup> bytes) \<Rightarrow> (u64 \<rightharpoonup> bytes)" where
  "truncate_before_checkpoint lsn segs files =
     (let seg = lsn div of_nat rp_seg_size; sz = unat lsn mod rp_seg_size
      in if sz = 0 \<and> 0 < seg then truncate_segments (seg - 1) rp_seg_size segs files
         else truncate_segments seg sz segs files)"

fun replay_segments :: "pread \<Rightarrow> ('e, 's) rp_client \<Rightarrow> (u64 \<rightharpoonup> bytes) \<Rightarrow> u64 list \<Rightarrow> u64 \<Rightarrow> rp_stats \<Rightarrow> 's \<Rightarrow>
    ('e rp_error, unit) outcome \<times> rp_stats \<times> 's" where
  "replay_segments rd cl files [] min_lsn st s = (Ok (), st, s)"
| "replay_segments rd cl files (n # ns) min_lsn st s =
     (case replay_segment rd cl files n min_lsn st s of
        (Ok _, st', s') \<Rightarrow> replay_segments rd cl files ns min_lsn st' s'
      | (e, st', s') \<Rightarrow> (e, st', s'))"

definition lift_error :: "unit rp_error \<Rightarrow> 'e rp_error" where
  "lift_error e = (case e of RpClosed \<Rightarrow> RpClosed | RpIO \<Rightarrow> RpIO | RpNoSegment \<Rightarrow> RpNoSegment
     | RpCorrupt \<Rightarrow> RpCorrupt | RpNoCheckpoint \<Rightarrow> RpNoCheckpoint | RpCallback _ \<Rightarrow> RpIO)"

text \<open>
  \<open>Replay\<close> over the ascending list \<open>segs\<close> of segments: the outcome, the statistics, the
  client's state and the files after the truncation.
\<close>

definition replay :: "pread \<Rightarrow> ('e, 's) rp_client \<Rightarrow> bool \<Rightarrow> rp_stats \<Rightarrow> (u64 \<rightharpoonup> bytes) \<Rightarrow> u64 list \<Rightarrow> 's \<Rightarrow>
    ('e rp_error, unit) outcome \<times> rp_stats \<times> 's \<times> (u64 \<rightharpoonup> bytes)" where
  "replay rd cl closed st0 files segs s =
     (if closed then (Fail RpClosed, st0, s, files)
      else if segs = [] then (Ok (), zero_stats, s, files)
      else case last_checkpoint rd closed files segs zero_stats of
        (Ok cp, st) \<Rightarrow>
          let scan = dropWhile (\<lambda>n. n < cp_lsn cp div of_nat rp_seg_size) segs
          in (case replay_segments rd cl files scan (cp_lsn cp) st s of
                (Ok _, st', s') \<Rightarrow> (Ok (), st', s', truncate_before_checkpoint (cp_lsn cp) segs files)
              | (e, st', s') \<Rightarrow> (e, st', s', files))
      | (Fail RpNoCheckpoint, st) \<Rightarrow>
          (case replay_segments rd cl files segs 0 st s of (res, st', s') \<Rightarrow> (res, st', s', files))
      | (Fail e, st) \<Rightarrow> (Fail (lift_error e), st, s, files)
      | (Panic, st) \<Rightarrow> (Panic, st, s, files))"


subsection \<open>What a scan delivers\<close>

text \<open>
  The reference: hand the records to the handler in order, each with the LSN of its end, and stop at
  the first error.
\<close>

definition encodings :: "bool \<Rightarrow> log_record list \<Rightarrow> bytes" where
  "encodings lz rs = concat (map (\<lambda>r. encode_record_compressed r lz) rs)"

lemma encodings_simps [simp]:
  "encodings lz [] = []" "encodings lz (r # rs) = encode_record_compressed r lz @ encodings lz rs"
  "encodings lz (rs @ rs') = encodings lz rs @ encodings lz rs'"
  by (simp_all add: encodings_def)

definition end_lsn :: "bool \<Rightarrow> u64 \<Rightarrow> nat \<Rightarrow> log_record \<Rightarrow> u64" where
  "end_lsn lz seg offset r = lsn_for seg (of_nat (offset + length (encode_record_compressed r lz)))"

fun feed :: "('e, 's) handler \<Rightarrow> bool \<Rightarrow> u64 \<Rightarrow> nat \<Rightarrow> log_record list \<Rightarrow> 's \<Rightarrow> 'e rp_error option \<times> 's" where
  "feed fn lz seg offset [] s = (None, s)"
| "feed fn lz seg offset (r # rs) s =
     (case fn (wire_view r) (end_lsn lz seg offset r) s of
        (Some e, s') \<Rightarrow> (Some e, s')
      | (None, s') \<Rightarrow> feed fn lz seg (offset + length (encode_record_compressed r lz)) rs s')"

definition result_of :: "'e rp_error option \<Rightarrow> ('e rp_error, unit) outcome" where
  "result_of e = (case e of None \<Rightarrow> Ok () | Some x \<Rightarrow> Fail x)"

definition replayable :: "bool \<Rightarrow> log_record \<Rightarrow> bool" where
  "replayable lz r \<longleftrightarrow> length (disk_body_of r lz) + 4 \<le> max_record_len \<and> length (record_body r) < 2 ^ 63 \<and> rtype r \<noteq> 0xFF"

lemma wire_view_type [simp]: "rtype (wire_view r) = rtype r" and wire_view_crc [simp]: "pay_crc_fail (wire_view r) = False"
  by (simp_all add: wire_view_def blank_record_def Let_def)

lemma rp_seg_size_eq: "rp_seg_size = seg_size"
  by (simp add: rp_seg_size_def seg_size_def)

lemma scan_chunk_record:
  assumes "replayable lz r"
  shows "scan_chunk fn lz seg (pre @ encode_record_compressed r lz @ rest) (length pre) offset st s =
    (case fn (wire_view r) (end_lsn lz seg offset r) s of
       (Some e, s') \<Rightarrow> (Return (Fail e), st, s')
     | (None, s') \<Rightarrow> scan_chunk fn lz seg (pre @ encode_record_compressed r lz @ rest)
         (length pre + length (encode_record_compressed r lz)) (offset + length (encode_record_compressed r lz)) st s')"
proof -
  let ?enc = "encode_record_compressed r lz"
  have d: "decode_record_compressed (pre @ ?enc @ rest) (int (length pre)) lz = Ok (wire_view r, int (length ?enc))"
    using assms by (intro decode_encode_record) (auto simp: replayable_def)
  have l: "\<not> length (pre @ ?enc @ rest) \<le> length pre"
    using enc_nonempty [of r lz] by simp
  have t: "rtype (wire_view r) \<noteq> 0xFF" using assms by (simp add: replayable_def)
  show ?thesis
    unfolding scan_chunk.simps [of fn lz seg "pre @ ?enc @ rest" "length pre" offset] if_not_P [OF l] d
    using t by (simp add: end_lsn_def lsn_for_def rp_seg_size_eq add.assoc split: option.split prod.split)
qed

lemma scan_chunk_feed:
  assumes "list_all (replayable lz) rs" and "feed fn lz seg offset rs s = (e, s')"
  shows "scan_chunk fn lz seg (pre @ encodings lz rs @ rest) (length pre) offset st s =
    (case e of
       Some x \<Rightarrow> (Return (Fail x), st, s')
     | None \<Rightarrow> scan_chunk fn lz seg (pre @ encodings lz rs @ rest)
         (length pre + length (encodings lz rs)) (offset + length (encodings lz rs)) st s')"
  using assms
proof (induction rs arbitrary: pre offset s)
  case Nil
  then show ?case by auto
next
  case (Cons r rs)
  let ?enc = "encode_record_compressed r lz"
  obtain e1 s1 where f: "fn (wire_view r) (end_lsn lz seg offset r) s = (e1, s1)" by fastforce
  have step: "scan_chunk fn lz seg (pre @ ?enc @ encodings lz rs @ rest) (length pre) offset st s =
      (case e1 of Some x \<Rightarrow> (Return (Fail x), st, s1)
       | None \<Rightarrow> scan_chunk fn lz seg (pre @ ?enc @ encodings lz rs @ rest) (length pre + length ?enc) (offset + length ?enc) st s1)"
    using scan_chunk_record [of lz r fn seg pre "encodings lz rs @ rest" offset st s] Cons.prems(1) f by simp
  show ?case
  proof (cases e1)
    case (Some x)
    then show ?thesis using step f Cons.prems(2) by auto
  next
    case None
    then have "feed fn lz seg (offset + length ?enc) rs s1 = (e, s')" using Cons.prems(2) f by simp
    from Cons.IH [OF _ this, of "pre @ ?enc"] show ?thesis
      using step None Cons.prems(1) by (cases e) (simp_all add: add.assoc)
  qed
qed

text \<open>The tail of a chunk: nothing left, or a record that is not complete in it.\<close>

lemma scan_chunk_end: "scan_chunk fn lz seg chunk (length chunk) offset st s = (Chunk_done (length chunk) offset, st, s)"
  by (subst scan_chunk.simps) simp

lemma scan_chunk_torn:
  assumes "replayable lz r" and "k < length (encode_record_compressed r lz)" and "0 < k"
  shows "scan_chunk fn lz seg (pre @ take k (encode_record_compressed r lz)) (length pre) offset st s
    = (Return (Ok ()), note_truncated st, s)"
proof -
  let ?t = "take k (encode_record_compressed r lz)"
  have d: "decode_record_compressed (pre @ ?t) (int (length pre)) lz = Fail ErrTruncatedRecord"
    using assms(1,2) by (intro decode_torn_record) (auto simp: replayable_def)
  have "\<not> length (pre @ ?t) \<le> length pre" using assms(2,3) by simp
  then show ?thesis
    by (subst scan_chunk.simps) (simp add: d)
qed


lemma pread_full_chunk: "rd = pread_full \<Longrightarrow> rd content offset n = Some (sub content offset (offset + n))"
  by (simp add: pread_full_def)

text \<open>The header the writer puts on a segment, as the replayer reads it.\<close>

definition segment_file :: "bool \<Rightarrow> bytes \<Rightarrow> bytes" where
  "segment_file lz content = segment_header (if lz then flag_compression_lz4 else 0) @ content"

lemma header_flag: "(segment_header (if lz then flag_compression_lz4 else 0) ! 5 AND flag_compression_lz4 \<noteq> 0) = lz"
  using segment_header_flag [of "if lz then flag_compression_lz4 else 0"] by (simp add: flag_compression_lz4_def)

lemma for_each_record_scan:
  assumes "files seg = Some (segment_file lz content)"
  shows "for_each_record pread_full fn files seg st s =
    (if content = [] then (Ok (), st, s)
     else scan_file pread_full fn lz seg (segment_file lz content) wal_header_size st s)"
proof -
  let ?h = "segment_header (if lz then flag_compression_lz4 else 0)"
  have f: "files seg = Some (?h @ content)" using assms by (simp add: segment_file_def)
  have l: "length ?h = wal_header_size" "?h \<noteq> []" by (auto simp: wal_header_size_def simp flip: length_0_conv)
  have r: "pread_full (?h @ content) 0 wal_header_size = Some ?h"
    using l by (simp add: pread_full_def sub_append_left sub_def)
  show ?thesis
    unfolding for_each_record_def f segment_file_def Let_def
    using l r header_flag [of lz] by (simp add: validate_segment_header_ok)
qed

text \<open>A file that fits in one chunk is read as one chunk.\<close>

lemma scan_file_one:
  assumes "content \<noteq> []" and "length content \<le> chunk_size"
  shows "scan_file pread_full fn lz seg (segment_file lz content) wal_header_size st s =
    (case scan_chunk fn lz seg content 0 wal_header_size st s of
       (Return res, st', s') \<Rightarrow> (res, st', s')
     | (Chunk_done off offset', st', s') \<Rightarrow> (Ok (), st', s'))"
proof -
  let ?f = "segment_file lz content"
  let ?n = "if length ?f < wal_header_size + chunk_size then length ?f - wal_header_size else chunk_size"
  have len: "length ?f = wal_header_size + length content"
    by (simp add: segment_file_def wal_header_size_def)
  then have n: "?n = length content" using assms(2) by auto
  have "sub ?f wal_header_size (wal_header_size + length content) = content"
    unfolding segment_file_def by (simp add: sub_append_right wal_header_size_def)
  then have rd: "pread_full ?f wal_header_size ?n = Some content"
    unfolding n by (simp add: pread_full_def)
  have more: "\<not> length ?f \<le> wal_header_size" using len assms(1) by simp
  have fin: "wal_header_size + length content \<le> (if 0 < off then offset' + off else offset')"
    if "scan_chunk fn lz seg content 0 wal_header_size st s = (Chunk_done off offset', st', s')" for off offset' st' s'
    using scan_chunk_done [OF that] assms(1) by auto
  show ?thesis
  proof (cases "scan_chunk fn lz seg content 0 wal_header_size st s")
    case (fields sc st' s')
    have e: "scan_file pread_full fn lz seg ?f wal_header_size st s =
        (case scan_chunk fn lz seg content 0 wal_header_size st s of
           (Return res, st', s') \<Rightarrow> (res, st', s')
         | (Chunk_done off offset', st', s') \<Rightarrow>
             let offset'' = (if 0 < off then offset' + off else offset')
             in if length ?f \<le> offset'' then (Ok (), st', s')
                else scan_file pread_full fn lz seg ?f offset'' st' s')"
      unfolding scan_file.simps [of _ fn lz seg ?f wal_header_size] if_not_P [OF more] Let_def rd
      by (simp only: option.case if_not_P [OF assms(1)])
    show ?thesis
    proof (cases sc)
      case (Return x)
      then show ?thesis unfolding e fields by simp
    next
      case (Chunk_done off offset')
      then show ?thesis
        unfolding e fields using fin [OF fields [unfolded Chunk_done]] len by (simp add: Let_def)
    qed
  qed
qed


lemma enc_not_Nil: "encode_record_compressed r lz \<noteq> []"
  using enc_nonempty [of r lz] by auto

lemma scan_chunk_all:
  assumes "list_all (replayable lz) rs" and "replayable lz r" and "k < length (encode_record_compressed r lz)"
    and "feed fn lz seg offset rs s = (e, s')"
  shows "scan_chunk fn lz seg (encodings lz rs @ take k (encode_record_compressed r lz)) 0 offset st s =
    (case e of
       Some x \<Rightarrow> (Return (Fail x), st, s')
     | None \<Rightarrow> if 0 < k then (Return (Ok ()), note_truncated st, s')
               else (Chunk_done (length (encodings lz rs)) (offset + length (encodings lz rs)), st, s'))"
proof (cases "k = 0")
  case True
  then show ?thesis
    using scan_chunk_feed [OF assms(1,4), of "[]" "[]" st] scan_chunk_end [of fn lz seg "encodings lz rs"]
    by (cases e) simp_all
next
  case False
  then show ?thesis
    using scan_chunk_feed [OF assms(1,4), of "[]" "take k (encode_record_compressed r lz)" st]
      scan_chunk_torn [OF assms(2,3), of fn seg "encodings lz rs"]
    by (cases e) simp_all
qed

lemma scan_small_segment:
  assumes "files seg = Some (segment_file lz (encodings lz rs @ take k (encode_record_compressed r lz)))"
    and "list_all (replayable lz) rs" and "replayable lz r" and "k < length (encode_record_compressed r lz)"
    and "length (encodings lz rs) + k \<le> chunk_size"
    and "feed fn lz seg wal_header_size rs s = (e, s')"
  shows "for_each_record pread_full fn files seg st s =
    (result_of e, if e = None \<and> 0 < k then note_truncated st else st, s')"
proof (cases "encodings lz rs @ take k (encode_record_compressed r lz) = []")
  case True
  then have "rs = []" using enc_not_Nil by (cases rs) auto
  moreover have "k = 0" using True assms(4) by auto
  ultimately show ?thesis
    using assms(6) unfolding for_each_record_scan [of files seg, OF assms(1)] if_P [OF True] by (auto simp: result_of_def)
next
  case False
  have l: "length (encodings lz rs @ take k (encode_record_compressed r lz)) \<le> chunk_size"
    using assms(5) by simp
  show ?thesis
    unfolding for_each_record_scan [of files seg, OF assms(1)] if_not_P [OF False] scan_file_one [OF False l]
      scan_chunk_all [OF assms(2,3,4,6)]
    by (cases e; cases "0 < k") (simp_all add: result_of_def)
qed

text \<open>A file whose first chunk ends the scan.\<close>

lemma scan_file_first:
  assumes "chunk_size < length content"
    and "scan_chunk fn lz seg (take chunk_size content) 0 wal_header_size st s = (Return res, st', s')"
  shows "scan_file pread_full fn lz seg (segment_file lz content) wal_header_size st s = (res, st', s')"
proof -
  let ?f = "segment_file lz content"
  let ?n = "if length ?f < wal_header_size + chunk_size then length ?f - wal_header_size else chunk_size"
  have len: "length ?f = wal_header_size + length content"
    by (simp add: segment_file_def wal_header_size_def)
  then have n: "?n = chunk_size" using assms(1) by auto
  have "sub ?f wal_header_size (wal_header_size + chunk_size) = take chunk_size content"
    unfolding segment_file_def by (simp add: sub_append_right wal_header_size_def) (simp add: sub_def)
  then have rd: "pread_full ?f wal_header_size ?n = Some (take chunk_size content)"
    unfolding n by (simp add: pread_full_def)
  have more: "\<not> length ?f \<le> wal_header_size" using len assms(1) by auto
  have "take chunk_size content \<noteq> []" using assms(1) by (auto simp: chunk_size_def)
  then show ?thesis
    unfolding scan_file.simps [of _ fn lz seg ?f wal_header_size] if_not_P [OF more] Let_def rd using assms(2) by simp
qed

lemma scan_cut_segment:
  assumes "files seg = Some (segment_file lz (encodings lz rs @ encode_record_compressed r lz @ rest))"
    and "list_all (replayable lz) rs" and "replayable lz r"
    and "length (encodings lz rs) < chunk_size" and "chunk_size < length (encodings lz rs) + length (encode_record_compressed r lz)"
    and "feed fn lz seg wal_header_size rs s = (e, s')"
  shows "for_each_record pread_full fn files seg st s =
    (result_of e, if e = None then note_truncated st else st, s')"
proof -
  let ?c = "encodings lz rs @ encode_record_compressed r lz @ rest"
  let ?k = "chunk_size - length (encodings lz rs)"
  have ne: "?c \<noteq> []" using enc_nonempty [of r lz] by auto
  have big: "chunk_size < length ?c" using assms(5) by simp
  have tk: "take chunk_size ?c = encodings lz rs @ take ?k (encode_record_compressed r lz)"
    using assms(4,5) by simp
  have "?k < length (encode_record_compressed r lz)" "0 < ?k" using assms(4,5) by simp_all
  then have "scan_chunk fn lz seg (take chunk_size ?c) 0 wal_header_size st s =
      (Return (result_of e), if e = None then note_truncated st else st, s')"
    unfolding tk using scan_chunk_all [OF assms(2,3) _ assms(6), of ?k st] by (cases e) (simp_all add: result_of_def)
  from scan_file_first [OF big this] show ?thesis
    unfolding for_each_record_scan [of files seg, OF assms(1)] if_not_P [OF ne] .
qed


subsection \<open>Checkpoint records\<close>

text \<open>\<open>DecodeVarint\<close> provides the codec interface for 64-bit integers.\<close>

definition varint_dec :: "bytes \<Rightarrow> nat \<Rightarrow> (unit, u64 \<times> nat) outcome" where
  "varint_dec data off = (case decode_varint data (int off) of (v, n) \<Rightarrow> if n < 0 then Fail () else Ok (v, off + nat n))"

interpretation varint: codec put_uvarint varint_dec "\<lambda>_. True"
  by unfold_locales (simp add: varint_dec_def)

lemma decode_active_dec_times:
  "dec_times varint_dec k data off = Ok (vs, off') \<Longrightarrow> decode_active k data (int off) = vs"
proof (induction k arbitrary: off vs)
  case (Suc k)
  obtain v n where d: "decode_varint data (int off) = (v, n)" by fastforce
  have n: "0 \<le> n" using Suc.prems d by (auto simp: varint_dec_def split: if_splits)
  then have "int off < int (length data)" using d by (auto simp: decode_varint_def split: if_splits)
  moreover have vd: "varint_dec data off = Ok (v, off + nat n)" using d n by (simp add: varint_dec_def)
  moreover obtain vs' where "dec_times varint_dec k data (off + nat n) = Ok (vs', off')" "vs = v # vs'"
    using Suc.prems vd by (auto simp: obind_Ok_iff)
  moreover from this have "decode_active k data (int (off + nat n)) = vs'" using Suc.IH by blast
  moreover have "int (off + nat n) = int off + n" using n by simp
  ultimately show ?case using d n by simp
qed simp

lemma decode_active_concat:
  assumes "length (concat (map put_uvarint vs)) < 2 ^ 63"
  shows "decode_active (length vs) (concat (map put_uvarint vs)) 0 = vs"
  using decode_active_dec_times [of "length vs" "concat (map put_uvarint vs)" 0]
    varint.dec_times_concat [of vs "[]" "[]"] assms by (simp add: list_all_iff)

text \<open>The record that carries a checkpoint, as the checkpointer builds it.\<close>

definition checkpoint_record :: "checkpoint \<Rightarrow> log_record" where
  "checkpoint_record cp = \<lparr>rtype = rt_checkpoint, txn_id = 0, rkey = fst (append_checkpoint_payload cp),
     rvalue = snd (append_checkpoint_payload cp), block_id = of_nat (length (cp_active cp)), pay_crc_fail = False\<rparr>"

lemma put_uvarint_nonempty: "1 \<le> length (put_uvarint v)"
  by (subst put_uvarint.simps) simp

lemma length_concat_put: "length vs \<le> length (concat (map put_uvarint vs))"
proof (induction vs)
  case (Cons v vs)
  then show ?case using put_uvarint_nonempty [of v] by simp
qed simp

lemma checkpoint_key:
  "fst (append_checkpoint_payload cp) = put_u64 (cp_lsn cp) @ put_u64 (cp_catalog_root cp) @ put_u32 (cp_manifest_sum cp) @ replicate 4 0"
  "length (fst (append_checkpoint_payload cp)) = 24"
  by (simp_all add: append_checkpoint_payload_def)

lemma decode_checkpoint_rt:
  assumes "length (concat (map put_uvarint (cp_active cp))) < 2 ^ 45"
  shows "decode_checkpoint (wire_view (checkpoint_record cp)) = Ok (Some cp)"
proof -
  let ?vs = "cp_active cp"
  let ?k = "put_u64 (cp_lsn cp) @ put_u64 (cp_catalog_root cp) @ put_u32 (cp_manifest_sum cp) @ replicate 4 0"
  have len: "length ?vs < 2 ^ 45" using length_concat_put [of ?vs] assms by simp
  have wv: "wire_view (checkpoint_record cp) =
      \<lparr>rtype = rt_checkpoint, txn_id = 0, rkey = ?k, rvalue = concat (map put_uvarint ?vs),
        block_id = of_nat (length ?vs), pay_crc_fail = False\<rparr>"
    using checkpoint_key [of cp]
    by (simp add: wire_view_def checkpoint_record_def blank_record_def rt_types append_checkpoint_payload_def Let_def)
  have "drop 8 ?k = put_u64 (cp_catalog_root cp) @ put_u32 (cp_manifest_sum cp) @ replicate 4 0"
    "drop 16 ?k = put_u32 (cp_manifest_sum cp) @ replicate 4 0" "length ?k = 24"
    by simp_all
  then have key: "get_u64 ?k = cp_lsn cp" "get_u64 (drop 8 ?k) = cp_catalog_root cp"
    "get_u32 (drop 16 ?k) = cp_manifest_sum cp" "24 \<le> length ?k"
    by simp_all
  show ?thesis
  proof (cases "?vs = []")
    case True
    then show ?thesis
      unfolding decode_checkpoint_def wv Let_def using key by simp
  next
    case False
    then have pos: "0 < length ?vs" by simp
    have un: "unat (of_nat (length ?vs) :: u64) = length ?vs" using len by (intro unat_of_nat_u64) simp
    then have "(0 :: u64) < of_nat (length ?vs)" using pos by (simp add: word_less_nat_alt)
    moreover have "concat (map put_uvarint ?vs) \<noteq> []"
      using length_concat_put [of ?vs] pos by auto
    moreover have "min (length ?vs) (length (concat (map put_uvarint ?vs))) = length ?vs"
      using length_concat_put [of ?vs] by simp
    moreover have "decode_active (length ?vs) (concat (map put_uvarint ?vs)) 0 = ?vs"
      using assms by (intro decode_active_concat) simp
    ultimately show ?thesis
      unfolding decode_checkpoint_def wv Let_def using key un len by (simp add: max_make_def)
  qed
qed


subsection \<open>Truncation\<close>

lemma truncate_segments_lookup:
  "distinct segs \<Longrightarrow> truncate_segments seg sz segs files n =
     (if n \<in> set segs then
        if sint n < sint seg then map_option (ftruncate 0) (files n)
        else if n = seg \<and> 0 < sz then map_option (ftruncate sz) (files n)
        else files n
      else files n)"
  by (induction segs arbitrary: files) auto

subsection \<open>A whole replay without a checkpoint\<close>

type_synonym seg_log = "u64 \<times> bool \<times> log_record list"

definition holds_log :: "(u64 \<rightharpoonup> bytes) \<Rightarrow> seg_log \<Rightarrow> bool" where
  "holds_log files l = (case l of (n, lz, rs) \<Rightarrow>
     files n = Some (segment_file lz (encodings lz rs)) \<and> list_all (replayable lz) rs \<and>
     length (encodings lz rs) \<le> chunk_size)"

fun feed_all :: "('e, 's) handler \<Rightarrow> seg_log list \<Rightarrow> 's \<Rightarrow> 'e rp_error option \<times> 's" where
  "feed_all fn [] s = (None, s)"
| "feed_all fn ((n, lz, rs) # logs) s =
     (case feed fn lz n wal_header_size rs s of
        (Some e, s') \<Rightarrow> (Some e, s')
      | (None, s') \<Rightarrow> feed_all fn logs s')"

lemma scan_log:
  assumes "holds_log files (n, lz, rs)" and f: "feed fn lz n wal_header_size rs s = (e, s')"
  shows "for_each_record pread_full fn files n st s = (result_of e, st, s')"
proof (cases "encodings lz rs = []")
  case True
  have fl: "files n = Some (segment_file lz (encodings lz rs))" using assms(1) by (simp add: holds_log_def)
  have "rs = []" using True enc_not_Nil by (cases rs) auto
  then show ?thesis
    using f unfolding for_each_record_scan [of files n, OF fl] if_P [OF True] by (auto simp: result_of_def)
next
  case False
  have h: "files n = Some (segment_file lz (encodings lz rs))" "list_all (replayable lz) rs"
    "length (encodings lz rs) \<le> chunk_size"
    using assms(1) by (simp_all add: holds_log_def)
  have c: "scan_chunk fn lz n (encodings lz rs) 0 wal_header_size st s =
      (case e of Some x \<Rightarrow> (Return (Fail x), st, s')
       | None \<Rightarrow> (Chunk_done (length (encodings lz rs)) (wal_header_size + length (encodings lz rs)), st, s'))"
    using scan_chunk_feed [OF h(2) f, of "[]" "[]" st] scan_chunk_end [of fn lz n "encodings lz rs"] by (cases e) simp_all
  show ?thesis
    unfolding for_each_record_scan [of files n, OF h(1)] if_not_P [OF False] scan_file_one [OF False h(3)] c
    by (cases e) (simp_all add: result_of_def)
qed

lemma replay_segments_feed:
  assumes "list_all (holds_log files) logs" and "feed_all (replay_handler cl 0) logs s = (e, s')"
  shows "replay_segments pread_full cl files (map fst logs) 0 st s = (result_of e, st, s')"
  using assms
proof (induction logs arbitrary: s)
  case Nil
  then show ?case by (simp add: result_of_def)
next
  case (Cons l logs)
  obtain n lz rs where l: "l = (n, lz, rs)" by (cases l)
  obtain e1 s1 where f: "feed (replay_handler cl 0) lz n wal_header_size rs s = (e1, s1)" by fastforce
  have "replay_segment pread_full cl files n 0 st s = (result_of e1, st, s1)"
    unfolding replay_segment_def by (rule scan_log [OF _ f]) (use Cons.prems(1) l in simp)
  then have step: "replay_segments pread_full cl files (map fst (l # logs)) 0 st s =
      (case result_of e1 of
         Ok _ \<Rightarrow> replay_segments pread_full cl files (map fst logs) 0 st s1
       | r \<Rightarrow> (r, st, s1))"
    unfolding l by (cases e1) (simp_all add: result_of_def)
  show ?case
  proof (cases e1)
    case None
    then have "feed_all (replay_handler cl 0) logs s1 = (e, s')" using Cons.prems(2) f l by simp
    then show ?thesis using Cons.IH Cons.prems(1) step None by (simp add: result_of_def)
  next
    case (Some x)
    then show ?thesis using Cons.prems(2) f l step by (auto simp: result_of_def)
  qed
qed

lemma feed_no_checkpoint:
  "list_all (\<lambda>r. rtype r \<noteq> rt_checkpoint) rs \<Longrightarrow> feed checkpoint_handler lz n off rs (Ok None) = (None, Ok None)"
  by (induction rs arbitrary: off) (auto simp: checkpoint_handler_def)

lemma no_checkpoint_found:
  assumes "list_all (holds_log files) logs" and "list_all (\<lambda>(_, _, rs). list_all (\<lambda>r. rtype r \<noteq> rt_checkpoint) rs) logs"
  shows "last_checkpoint_in pread_full files (map fst logs) st = (Fail RpNoCheckpoint, st)"
  using assms
proof (induction logs)
  case (Cons l logs)
  obtain n lz rs where l: "l = (n, lz, rs)" by (cases l)
  have f: "feed checkpoint_handler lz n wal_header_size rs (Ok None) = (None, Ok None)"
    using Cons.prems(2) l by (intro feed_no_checkpoint) simp
  have "for_each_record pread_full checkpoint_handler files n st (Ok None) = (result_of None, st, Ok None)"
    by (rule scan_log [OF _ f]) (use Cons.prems(1) l in simp)
  then have "find_checkpoint_in_segment pread_full files n st = (Fail RpNoCheckpoint, st)"
    by (simp add: find_checkpoint_in_segment_def result_of_def)
  then show ?case
    using Cons l by simp
qed simp

lemma replay_all:
  assumes logs: "list_all (holds_log files) logs"
    and nocp: "list_all (\<lambda>(_, _, rs). list_all (\<lambda>r. rtype r \<noteq> rt_checkpoint) rs) logs"
    and f: "feed_all (replay_handler cl 0) logs s = (e, s')"
  shows "replay pread_full cl False st0 files (map fst logs) s = (result_of e, zero_stats, s', files)"
proof (cases "logs = []")
  case True
  then show ?thesis using f by (auto simp: replay_def result_of_def)
next
  case False
  have "last_checkpoint pread_full False files (map fst logs) zero_stats = (Fail RpNoCheckpoint, zero_stats)"
    using no_checkpoint_found [of files "rev logs"] logs nocp by (simp add: last_checkpoint_def rev_map list_all_iff)
  moreover have "replay_segments pread_full cl files (map fst logs) 0 zero_stats s = (result_of e, zero_stats, s')"
    using replay_segments_feed [OF logs f] .
  ultimately show ?thesis using False by (simp add: replay_def)
qed


subsection \<open>Partitions of a parallel replay\<close>

text \<open>
  \<open>RunParallel\<close>: records are dealt to the workers by index, each share is sorted stably by block
  id, and a worker stops at the first record whose \<open>work\<close> fails. \<open>fails r\<close> says that it does.
\<close>

record parsed_record =
  pr_kind :: byte
  pr_block :: u64
  pr_key :: bytes
  pr_value :: bytes
  pr_txn :: u64

definition new_parallel :: "int \<Rightarrow> int" where
  "new_parallel max_workers = (if max_workers \<le> 0 then 4 else max_workers)"

definition worker_count :: "int \<Rightarrow> nat \<Rightarrow> nat" where
  "worker_count max_workers n = (let w = (if int n < max_workers then int n else max_workers) in nat (if w < 1 then 1 else w))"

definition deal :: "nat \<Rightarrow> 'a list \<Rightarrow> nat \<Rightarrow> 'a list" where
  "deal workers recs i = map snd (filter (\<lambda>(j, r). j mod workers = i) (enumerate 0 recs))"

definition share :: "nat \<Rightarrow> parsed_record list \<Rightarrow> nat \<Rightarrow> parsed_record list" where
  "share workers recs i = sort_key pr_block (deal workers recs i)"

definition run_parallel :: "int \<Rightarrow> (parsed_record \<Rightarrow> bool) \<Rightarrow> parsed_record list \<Rightarrow> (unit, nat \<times> nat) outcome" where
  "run_parallel max_workers fails recs =
     (if recs = [] then Ok (0, 0)
      else
        let w = worker_count max_workers (length recs); shares = map (share w recs) [0..<w];
            applied = sum_list (map (\<lambda>s. length (takeWhile (\<lambda>r. \<not> fails r) s)) shares)
        in if list_ex (list_ex fails) shares then Fail () else Ok (length recs, applied))"

lemma mset_by_class:
  fixes f :: "'a \<Rightarrow> nat"
  assumes "\<And>x. x \<in># M \<Longrightarrow> f x < w"
  shows "(\<Sum>i<w. filter_mset (\<lambda>x. f x = i) M) = M"
  using assms
proof (induction M)
  case (add x M)
  have "(\<Sum>i<w. filter_mset (\<lambda>y. f y = i) (add_mset x M)) =
      (\<Sum>i<w. (if f x = i then {#x#} else {#}) + filter_mset (\<lambda>y. f y = i) M)"
    by (intro sum.cong) auto
  also have "\<dots> = (\<Sum>i<w. if f x = i then {#x#} else {#}) + M"
    using add by (simp add: sum.distrib)
  also have "(\<Sum>i<w. if f x = i then {#x#} else {#}) = {#x#}"
    using add.prems [of x] by (subst sum.delta') auto
  finally show ?case by simp
qed simp

lemma deal_all: "0 < w \<Longrightarrow> (\<Sum>i<w. mset (deal w recs i)) = mset (recs :: 'a list)"
proof -
  assume w: "0 < w"
  have e: "mset (deal w recs i) = image_mset snd (filter_mset (\<lambda>x. fst x mod w = i) (mset (enumerate 0 recs)))" for i
    by (simp add: deal_def case_prod_unfold mset_filter)
  have img: "image_mset snd (\<Sum>i<n. F i) = (\<Sum>i<n. image_mset snd (F i))" for F :: "nat \<Rightarrow> (nat \<times> 'a) multiset" and n
    by (induction n) simp_all
  have "(\<Sum>i<w. mset (deal w recs i)) = image_mset snd (\<Sum>i<w. filter_mset (\<lambda>x. fst x mod w = i) (mset (enumerate 0 recs)))"
    unfolding e img ..
  also have "\<dots> = image_mset snd (mset (enumerate 0 recs))"
    using mset_by_class [of "mset (enumerate 0 recs)" "\<lambda>x. fst x mod w" w] w by simp
  also have "\<dots> = mset (map snd (enumerate 0 recs))" by (simp only: mset_map)
  finally show ?thesis by (simp only: map_snd_enumerate)
qed

lemma worker_count_pos: "0 < worker_count m n"
  by (simp add: worker_count_def Let_def)

lemma shares_all: "mset (concat (map (share w recs) [0..<w])) = mset recs" if "0 < w"
proof -
  have "mset (concat (map (share w recs) [0..<w])) = (\<Sum>i<w. mset (share w recs i))"
    by (simp add: mset_concat interv_sum_list_conv_sum_set_nat comp_def atLeast0LessThan)
  then show ?thesis using deal_all [OF that, of recs] by (simp add: share_def)
qed


lemma run_parallel_ok:
  assumes "\<forall>r \<in> set recs. \<not> fails r"
  shows "run_parallel m fails recs = Ok (length recs, length recs)"
proof (cases "recs = []")
  case False
  let ?w = "worker_count m (length recs)"
  have sets: "set (share ?w recs i) \<subseteq> set recs" for i
    by (auto simp: share_def deal_def dest!: in_set_enumerate_eq [THEN iffD1])
  have none: "\<not> list_ex (list_ex fails) (map (share ?w recs) [0..<?w])"
    using assms sets by (auto simp: list_ex_iff)
  have tw: "takeWhile (\<lambda>r. \<not> fails r) (share ?w recs i) = share ?w recs i" for i
    using assms sets [of i] by (auto simp: takeWhile_eq_all_conv)
  have "sum_list (map (\<lambda>s. length (takeWhile (\<lambda>r. \<not> fails r) s)) (map (share ?w recs) [0..<?w]))
      = length (concat (map (share ?w recs) [0..<?w]))"
    by (simp add: comp_def tw length_concat)
  also have "\<dots> = length recs"
    using arg_cong [OF shares_all [OF worker_count_pos [of m "length recs"], of recs], of size] by (simp only: size_mset)
  finally show ?thesis
    using False none by (simp add: run_parallel_def Let_def)
qed (simp add: run_parallel_def)

subsection \<open>Properties\<close>

lemma sample_replayable: "replayable False sample_commit"
  by (simp add: replayable_def disk_body_of_def sample_commit_body max_record_len_def) (simp add: sample_commit_def rt_types)

lemma sample_enc_length: "length (encode_record_compressed sample_commit False) \<le> 30"
  using length_put_uvarint_le [of 14]
  by (simp add: encode_record_compressed_def envelope_def disk_body_of_def sample_commit_body)

definition sample_files :: "u64 \<rightharpoonup> bytes" where
  "sample_files = [0 \<mapsto> segment_file False (encodings False [sample_commit, sample_commit])]"

definition commit_logger :: "(unit, (u64 \<times> u64) list) rp_client" where
  "commit_logger = \<lparr>cl_upsert = (\<lambda>_ _ s. s), cl_data = None, cl_commit = Some (\<lambda>t b s. (None, s @ [(t, b)])), cl_rollback = None\<rparr>"

text \<open>
  C8. Replay delivers the log: over segments as the writer lays them out (header, then encoded
  records, at most one 64 KB chunk each) and without a checkpoint, \<open>Replay\<close> hands every record of
  every segment to the callbacks, in LSN order and exactly once, stops at the first callback error and
  returns it, and leaves the files and the counters alone.
\<close>

theorem replay_delivers_log:
  assumes "list_all (holds_log files) logs"
    and "list_all (\<lambda>(_, _, rs). list_all (\<lambda>r. rtype r \<noteq> rt_checkpoint) rs) logs"
    and "feed_all (replay_handler cl 0) logs s = (e, s')"
  shows "replay pread_full cl False st0 files (map fst logs) s = (result_of e, zero_stats, s', files)"
  using assms by (rule replay_all)

theorem replay_delivers_log_witness:
  "replay pread_full commit_logger False zero_stats sample_files [0] [] = (Ok (), zero_stats, [(7, 9), (7, 9)], sample_files)"
proof -
  let ?logs = "[(0, False, [sample_commit, sample_commit])] :: seg_log list"
  have "list_all (holds_log sample_files) ?logs"
    using sample_enc_length sample_replayable by (simp add: holds_log_def sample_files_def chunk_size_def)
  moreover have "list_all (\<lambda>(_, _, rs). list_all (\<lambda>r. rtype r \<noteq> rt_checkpoint) rs) ?logs"
    by (simp add: sample_commit_def rt_types)
  moreover have "feed_all (replay_handler commit_logger 0) ?logs [] = (None, [(7, 9), (7, 9)])"
    by (simp add: replay_handler_def apply_record_def commit_logger_def hook_def wire_view_def blank_record_def
        sample_commit_def rt_types)
  ultimately show ?thesis
    using replay_delivers_log [of sample_files ?logs commit_logger "[]" None "[(7, 9), (7, 9)]" zero_stats]
    by (simp add: result_of_def)
qed

text \<open>
  A torn tail is tolerated: if the last record of a segment was cut by a crash, the records before it
  are delivered, the scan succeeds and the segment is counted as truncated.
\<close>

theorem replay_torn_tail:
  assumes "files seg = Some (segment_file lz (encodings lz rs @ take k (encode_record_compressed r lz)))"
    and "list_all (replayable lz) rs" and "replayable lz r" and "k < length (encode_record_compressed r lz)"
    and "length (encodings lz rs) + k \<le> chunk_size"
    and "feed fn lz seg wal_header_size rs s = (e, s')"
  shows "for_each_record pread_full fn files seg st s =
    (result_of e, if e = None \<and> 0 < k then note_truncated st else st, s')"
  using assms by (rule scan_small_segment)

theorem replay_torn_tail_witness:
  "for_each_record pread_full (replay_handler commit_logger 0)
     [0 \<mapsto> segment_file False (encodings False [sample_commit] @ take 3 (encode_record_compressed sample_commit False))]
     0 zero_stats [] = (Ok (), note_truncated zero_stats, [(7, 9)])"
proof -
  have f: "feed (replay_handler commit_logger 0) False 0 wal_header_size [sample_commit] [] = (None, [(7, 9)])"
    by (simp add: replay_handler_def apply_record_def commit_logger_def hook_def wire_view_def blank_record_def
        sample_commit_def rt_types)
  have "3 < length (encode_record_compressed sample_commit False)"
    by (simp add: encode_record_compressed_def envelope_def disk_body_of_def sample_commit_body)
  then show ?thesis
    using replay_torn_tail [OF _ _ sample_replayable _ _ f, of _ 3 zero_stats] sample_replayable sample_enc_length
    by (simp add: result_of_def chunk_size_def)
qed

text \<open>
  Records are lost silently at the chunk boundary: if some record lies across the end of the first
  64 KB chunk, that record and everything after it in the segment, however intact, is never delivered, and
  the scan reports success.
\<close>

theorem replay_loses_at_chunk_boundary:
  assumes "files seg = Some (segment_file lz (encodings lz rs @ encode_record_compressed r lz @ rest))"
    and "list_all (replayable lz) rs" and "replayable lz r"
    and "length (encodings lz rs) < chunk_size" and "chunk_size < length (encodings lz rs) + length (encode_record_compressed r lz)"
    and "feed fn lz seg wal_header_size rs s = (e, s')"
  shows "for_each_record pread_full fn files seg st s =
    (result_of e, if e = None then note_truncated st else st, s')"
  using assms by (rule scan_cut_segment)

definition page_record :: log_record where
  "page_record = \<lparr>rtype = rt_data, txn_id = 1, rkey = [], rvalue = replicate chunk_size 0, block_id = 3, pay_crc_fail = False\<rparr>"

lemma page_body_length: "chunk_size \<le> length (record_body page_record)" "length (record_body page_record) \<le> chunk_size + 40"
  using length_put_uvarint_le [of 1] length_put_uvarint_le [of "of_nat chunk_size"]
  by (simp_all add: record_body_def append_payload_def page_record_def rt_types)

lemma page_replayable: "replayable False page_record"
  using page_body_length(2) by (simp add: replayable_def disk_body_of_def max_record_len_def chunk_size_def)
    (simp add: page_record_def rt_types)

theorem replay_loses_at_chunk_boundary_witness:
  "for_each_record pread_full (replay_handler commit_logger 0)
     [0 \<mapsto> segment_file False (encodings False [sample_commit] @ encode_record_compressed page_record False
         @ encode_record_compressed sample_commit False)]
     0 zero_stats [] = (Ok (), note_truncated zero_stats, [(7, 9)])"
proof -
  have f: "feed (replay_handler commit_logger 0) False 0 wal_header_size [sample_commit] [] = (None, [(7, 9)])"
    by (simp add: replay_handler_def apply_record_def commit_logger_def hook_def wire_view_def blank_record_def
        sample_commit_def rt_types)
  have "chunk_size < length (encode_record_compressed page_record False)"
    using page_body_length(1) by (simp add: encode_record_compressed_def envelope_def disk_body_of_def)
  then show ?thesis
    using replay_loses_at_chunk_boundary [OF _ _ page_replayable _ _ f, of _ "encode_record_compressed sample_commit False" zero_stats]
      sample_replayable sample_enc_length
    by (simp add: result_of_def chunk_size_def)
qed

text \<open>
  A checkpoint survives the log: the payload that \<open>AppendCheckpointPayload\<close> builds, carried by a
  checkpoint record through the wire format, is read back as the same checkpoint.
\<close>

theorem checkpoint_roundtrip:
  assumes "length (concat (map put_uvarint (cp_active cp))) < 2 ^ 45"
  shows "decode_checkpoint (wire_view (checkpoint_record cp)) = Ok (Some cp)"
  using assms by (rule decode_checkpoint_rt)

theorem checkpoint_roundtrip_witness:
  "decode_checkpoint (wire_view (checkpoint_record \<lparr>cp_lsn = 5, cp_catalog_root = 6, cp_manifest_sum = 7, cp_active = [300, 2]\<rparr>))
     = Ok (Some \<lparr>cp_lsn = 5, cp_catalog_root = 6, cp_manifest_sum = 7, cp_active = [300, 2]\<rparr>)"
  by (rule checkpoint_roundtrip) (use length_put_uvarint_le [of 300] length_put_uvarint_le [of 2] in simp)

text \<open>
  The truncation after a replay cuts the wrong end: the segment that holds the checkpoint keeps only
  its bytes below the checkpoint's offset, so the records from the checkpoint on, which recovery still
  needs, are gone from the file.
\<close>

theorem replay_truncates_after_checkpoint:
  assumes "segs \<noteq> []" and "distinct segs"
    and "last_checkpoint rd False files segs zero_stats = (Ok cp, st1)"
    and "replay rd cl False st0 files segs s = (Ok (), st, s', files')"
    and "cp_lsn cp div of_nat rp_seg_size \<in> set segs" and "unat (cp_lsn cp) mod rp_seg_size \<noteq> 0"
  shows "files' (cp_lsn cp div of_nat rp_seg_size)
    = map_option (ftruncate (unat (cp_lsn cp) mod rp_seg_size)) (files (cp_lsn cp div of_nat rp_seg_size))"
proof -
  have "files' = truncate_before_checkpoint (cp_lsn cp) segs files"
    using assms(1,3,4) by (auto simp: replay_def Let_def split: outcome.splits prod.splits)
  then show ?thesis
    using assms(2,5,6) by (simp add: truncate_before_checkpoint_def truncate_segments_lookup Let_def)
qed


definition sample_checkpoint :: checkpoint where
  "sample_checkpoint = \<lparr>cp_lsn = 12, cp_catalog_root = 0, cp_manifest_sum = 0, cp_active = []\<rparr>"

definition checkpoint_files :: "u64 \<rightharpoonup> bytes" where
  "checkpoint_files = [0 \<mapsto> segment_file False (encodings False [checkpoint_record sample_checkpoint, sample_commit])]"

lemma sample_checkpoint_body: "length (record_body (checkpoint_record sample_checkpoint)) \<le> 60"
  using length_put_uvarint_le [of 0]
  by (simp add: record_body_def append_payload_def checkpoint_record_def append_checkpoint_payload_def sample_checkpoint_def rt_types)

lemma checkpoint_files_log: "holds_log checkpoint_files (0, False, [checkpoint_record sample_checkpoint, sample_commit])"
proof -
  have r: "replayable False (checkpoint_record sample_checkpoint)"
    using sample_checkpoint_body by (simp add: replayable_def disk_body_of_def max_record_len_def)
      (simp add: checkpoint_record_def rt_types)
  have "length (encode_record_compressed (checkpoint_record sample_checkpoint) False) \<le> 100"
    using sample_checkpoint_body length_put_uvarint_le [of "of_nat (length (record_body (checkpoint_record sample_checkpoint)) + 4)"]
    by (simp add: encode_record_compressed_def envelope_def disk_body_of_def)
  then show ?thesis
    using r sample_replayable sample_enc_length by (simp add: holds_log_def checkpoint_files_def chunk_size_def)
qed

theorem replay_truncates_after_checkpoint_witness:
  "\<exists>st files'. replay pread_full commit_logger False zero_stats checkpoint_files [0] [] = (Ok (), st, [(7, 9)], files') \<and>
     files' 0 = Some (segment_header 0)"
proof -
  let ?cp = "checkpoint_record sample_checkpoint"
  have "decode_checkpoint (wire_view ?cp) = (Ok (Some sample_checkpoint) :: (unit, _) outcome)"
    by (rule decode_checkpoint_rt) (simp add: sample_checkpoint_def)
  then have f: "feed checkpoint_handler False 0 wal_header_size [?cp, sample_commit] (Ok None) = (None, Ok (Some sample_checkpoint))"
    by (simp add: checkpoint_handler_def) (simp add: checkpoint_record_def sample_commit_def rt_types)
  have l: "last_checkpoint pread_full False checkpoint_files [0] zero_stats = (Ok sample_checkpoint, zero_stats)"
    using scan_log [OF checkpoint_files_log f, of zero_stats]
    by (simp add: last_checkpoint_def find_checkpoint_in_segment_def result_of_def)
  have past: "\<not> end_lsn False 0 off r < 12" if "12 \<le> off" "off \<le> 1000" "length (encode_record_compressed r False) \<le> 1000" for off r
  proof -
    have "unat (lsn_for 0 (of_nat (off + length (encode_record_compressed r False)))) = off + length (encode_record_compressed r False)"
      using that unat_lsn_for [of 0 "off + length (encode_record_compressed r False)"] by (simp add: seg_size_def position_def)
    then show ?thesis using that by (simp add: end_lsn_def word_less_nat_alt del: of_nat_add)
  qed
  have len: "length (encode_record_compressed ?cp False) \<le> 100"
    using sample_checkpoint_body length_put_uvarint_le [of "of_nat (length (record_body ?cp) + 4)"]
    by (simp add: encode_record_compressed_def envelope_def disk_body_of_def)
  have h: "replay_handler commit_logger 12 (wire_view ?cp) lsn acc = (None, acc)"
    "replay_handler commit_logger 12 (wire_view sample_commit) lsn acc = (None, if lsn < 12 then acc else acc @ [(7, 9)])" for lsn acc
    by (simp_all add: replay_handler_def apply_record_def commit_logger_def hook_def wire_view_def blank_record_def Let_def
        checkpoint_record_def sample_commit_def rt_types)
  have g: "feed (replay_handler commit_logger 12) False 0 wal_header_size [?cp, sample_commit] [] = (None, [(7, 9)])"
    using past [of 12 ?cp] past [of "12 + length (encode_record_compressed ?cp False)" sample_commit] len sample_enc_length
    by (simp add: h wal_header_size_def)
  have r: "replay pread_full commit_logger False zero_stats checkpoint_files [0] [] =
      (Ok (), zero_stats, [(7, 9)], truncate_before_checkpoint 12 [0] checkpoint_files)"
    using l scan_log [OF checkpoint_files_log g, of zero_stats]
    by (simp add: replay_def replay_segment_def result_of_def sample_checkpoint_def rp_seg_size_def)
  have "truncate_before_checkpoint 12 [0] checkpoint_files 0 = map_option (ftruncate 12) (checkpoint_files 0)"
    using replay_truncates_after_checkpoint [OF _ _ l r] by (simp add: sample_checkpoint_def rp_seg_size_def)
  then show ?thesis
    using r by (simp add: checkpoint_files_def ftruncate_def segment_file_def)
qed

text \<open>
  A parallel replay drops and repeats nothing: the shares dealt to the workers are together the
  records given, each share is ordered by block id, and without a failing record all are applied.
\<close>

theorem parallel_replay_complete:
  assumes "\<forall>r \<in> set recs. \<not> fails r"
  shows "run_parallel m fails recs = Ok (length recs, length recs) \<and>
    mset (concat (map (share (worker_count m (length recs)) recs) [0..<worker_count m (length recs)])) = mset recs \<and>
    (\<forall>i. sorted (map pr_block (share (worker_count m (length recs)) recs i)))"
  using run_parallel_ok [OF assms] shares_all [OF worker_count_pos] by (simp add: share_def)

definition sample_parsed :: "u64 \<Rightarrow> parsed_record" where
  "sample_parsed b = \<lparr>pr_kind = 0, pr_block = b, pr_key = [], pr_value = [], pr_txn = 0\<rparr>"

theorem parallel_replay_complete_witness:
  "run_parallel 2 (\<lambda>_. False) [sample_parsed 5, sample_parsed 3, sample_parsed 4] = Ok (3, 3) \<and>
   map pr_block (share 2 [sample_parsed 5, sample_parsed 3, sample_parsed 4] 0) = [4, 5]"
proof -
  have "run_parallel 2 (\<lambda>_. False) [sample_parsed 5, sample_parsed 3, sample_parsed 4] = Ok (3, 3)"
    using parallel_replay_complete [of "[sample_parsed 5, sample_parsed 3, sample_parsed 4]" "\<lambda>_. False" 2] by simp
  moreover have "map pr_block (share 2 [sample_parsed 5, sample_parsed 3, sample_parsed 4] 0) = [4, 5]"
    by (simp add: share_def deal_def sample_parsed_def)
  ultimately show ?thesis ..
qed

end
