(* ===== verification/Txn_Arena.thy ===== *)
theory Txn_Arena
  imports Prelude
begin

text \<open>
  The per-transaction bump allocator of \<open>internal/TXN/MV/arena.go\<close>: a young generation of 16 KB, an old
  one of 1 MB allocated on the first promotion, and the pool's reset. A block handed out is a region
  (generation, offset, length); the transaction's mutex serialises the calls, so the compare-and-swap
  loops run once. Offsets are the code's \<open>int64\<close>.
\<close>

subsection \<open>State and operations\<close>

definition young_size :: int where "young_size = 16 * 1024"
definition old_size :: int where "old_size = 1048576"

record arena =
  ar_young :: bytes
  ar_young_off :: int
  ar_old :: "bytes option"
  ar_old_off :: int
  ar_promoted :: bool

datatype region = Region (rg_old: bool) (rg_off: int) (rg_len: int)

definition new_arena :: arena where
  "new_arena = \<lparr>ar_young = replicate (nat young_size) 0, ar_young_off = 0, ar_old = None, ar_old_off = 0, ar_promoted = False\<rparr>"

text \<open>The slice expressions \<open>a.young[off : off+n]\<close> and \<open>a.old[off : off+n]\<close>; a nil \<open>old\<close> has length 0.\<close>

definition block :: "bool \<Rightarrow> int \<Rightarrow> int \<Rightarrow> arena \<Rightarrow> (unit, region option) outcome" where
  "block old_gen off n a =
     (let len = (if old_gen then (case ar_old a of None \<Rightarrow> 0 | Some b \<Rightarrow> int (length b)) else int (length (ar_young a)))
      in if 0 \<le> off \<and> off \<le> wrap64 (off + n) \<and> wrap64 (off + n) \<le> len then Ok (Some (Region old_gen off n)) else Panic)"

definition try_alloc_young :: "int \<Rightarrow> arena \<Rightarrow> int \<times> arena" where
  "try_alloc_young n a =
     (let new = wrap64 (ar_young_off a + n)
      in if young_size < new then (- 1, a) else (ar_young_off a, a\<lparr>ar_young_off := new\<rparr>))"

definition try_alloc_old :: "int \<Rightarrow> arena \<Rightarrow> int \<times> arena" where
  "try_alloc_old n a =
     (let new = wrap64 (ar_old_off a + n)
      in if old_size < new then (- 1, a) else (ar_old_off a, a\<lparr>ar_old_off := new\<rparr>))"

text \<open>\<open>copy(a.old[oldOff:new], a.young[:youngUsed])\<close>.\<close>

definition promote :: "arena \<Rightarrow> arena" where
  "promote a =
     (if ar_young_off a = 0 then a\<lparr>ar_promoted := True\<rparr>
      else
        let a = (if ar_old a = None then a\<lparr>ar_old := Some (replicate (nat old_size) 0), ar_old_off := 0\<rparr> else a);
            lo = ar_old_off a; new = lo + ar_young_off a
        in if old_size < new then a\<lparr>ar_promoted := True\<rparr>
           else a\<lparr>ar_old := map_option (\<lambda>b. take (nat lo) b @ take (nat (ar_young_off a)) (ar_young a) @ drop (nat new) b) (ar_old a),
                  ar_old_off := new, ar_young_off := 0, ar_promoted := True\<rparr>)"

definition alloc_from_old :: "int \<Rightarrow> arena \<Rightarrow> (unit, region option) outcome \<times> arena" where
  "alloc_from_old n a = (case try_alloc_old n a of (off, a') \<Rightarrow> if 0 \<le> off then (block True off n a', a') else (Ok None, a'))"

definition arena_alloc :: "int \<Rightarrow> arena \<Rightarrow> (unit, region option) outcome \<times> arena" where
  "arena_alloc n a =
     (if ar_promoted a then alloc_from_old n a
      else case try_alloc_young n a of (off, a') \<Rightarrow>
        if 0 \<le> off then (block False off n a', a') else alloc_from_old n (promote a'))"

text \<open>\<open>PutArena\<close>: the reset, and the old buffers it moves to the pending list.\<close>

definition put_arena :: "arena \<Rightarrow> bytes list \<Rightarrow> arena \<times> bytes list" where
  "put_arena a pending =
     (let moved = (if ar_promoted a then (case ar_old a of None \<Rightarrow> [] | Some b \<Rightarrow> [b]) else []);
          a' = a\<lparr>ar_young_off := 0, ar_old := (if moved = [] then ar_old a else None), ar_old_off := 0, ar_promoted := False\<rparr>
      in (a', pending @ moved))"

definition reclaim_old_generations :: "bytes list \<Rightarrow> bytes list" where
  "reclaim_old_generations pending = []"

definition remaining :: "arena \<Rightarrow> int" where
  "remaining a = (if ar_promoted a then old_size - ar_old_off a else (young_size - ar_young_off a) + (old_size - ar_old_off a))"

definition young_remaining :: "arena \<Rightarrow> int" where "young_remaining a = young_size - ar_young_off a"
definition old_remaining :: "arena \<Rightarrow> int" where "old_remaining a = old_size - ar_old_off a"

subsection \<open>Invariant and disjointness\<close>

definition arena_ok :: "arena \<Rightarrow> bool" where
  "arena_ok a \<longleftrightarrow> length (ar_young a) = nat young_size \<and> 0 \<le> ar_young_off a \<and> ar_young_off a \<le> young_size \<and>
     0 \<le> ar_old_off a \<and> ar_old_off a \<le> old_size \<and> (\<forall>b. ar_old a = Some b \<longrightarrow> length b = nat old_size) \<and>
     (if ar_promoted a then ar_old a \<noteq> None else ar_old a = None \<and> ar_old_off a = 0)"

definition disjoint_regions :: "region \<Rightarrow> region \<Rightarrow> bool" where
  "disjoint_regions r r' \<longleftrightarrow> rg_old r \<noteq> rg_old r' \<or> rg_off r + rg_len r \<le> rg_off r' \<or> rg_off r' + rg_len r' \<le> rg_off r"

text \<open>Where a block already handed out lies: below the bump pointers, unless its generation is retired.\<close>

definition given :: "arena \<Rightarrow> region \<Rightarrow> bool" where
  "given a r \<longleftrightarrow> 0 \<le> rg_off r \<and> 0 < rg_len r \<and>
     (if rg_old r then ar_promoted a \<and> rg_off r + rg_len r \<le> ar_old_off a
      else rg_off r + rg_len r \<le> young_size \<and> (\<not> ar_promoted a \<longrightarrow> rg_off r + rg_len r \<le> ar_young_off a))"

lemma wrap_small: "0 \<le> i \<Longrightarrow> i \<le> 2 ^ 22 \<Longrightarrow> wrap64 i = i"
  by (rule wrap64_id) auto

lemmas arena_sizes = young_size_def old_size_def

lemma new_arena_ok: "arena_ok new_arena"
  by (simp add: arena_ok_def new_arena_def arena_sizes)

lemma promote_ok:
  assumes "arena_ok a" and "ar_young_off a \<noteq> 0"
  shows "arena_ok (promote a)" and "ar_promoted (promote a)"
  using assms by (auto simp: arena_ok_def promote_def Let_def arena_sizes split: if_splits)

lemma alloc_from_old_ok:
  assumes a: "arena_ok a" and p: "ar_promoted a" and n: "0 < n" "n \<le> young_size" and r: "alloc_from_old n a = (res, a')"
  shows "arena_ok a'" and "ar_promoted a'" and "res = Ok None \<or> res = Ok (Some (Region True (ar_old_off a) n))"
    and "ar_old_off a \<le> ar_old_off a'" and "res \<noteq> Ok None \<Longrightarrow> ar_old_off a' = ar_old_off a + n"
proof -
  have w: "wrap64 (ar_old_off a + n) = ar_old_off a + n"
    using a n by (intro wrap_small) (auto simp: arena_ok_def arena_sizes)
  obtain b where b: "ar_old a = Some b" "length b = nat old_size" using a p by (auto simp: arena_ok_def)
  show "arena_ok a'" "ar_promoted a'" "res = Ok None \<or> res = Ok (Some (Region True (ar_old_off a) n))"
    "ar_old_off a \<le> ar_old_off a'" "res \<noteq> Ok None \<Longrightarrow> ar_old_off a' = ar_old_off a + n"
    using r a p n w b by (auto simp: alloc_from_old_def try_alloc_old_def block_def arena_ok_def Let_def arena_sizes split: if_splits)
qed


lemma arena_alloc_cases:
  assumes a: "arena_ok a" and n: "0 < n" "n \<le> young_size" and r: "arena_alloc n a = (res, a')"
  obtains (young) "\<not> ar_promoted a" "a' = a\<lparr>ar_young_off := ar_young_off a + n\<rparr>" "res = Ok (Some (Region False (ar_young_off a) n))"
      "ar_young_off a + n \<le> young_size"
  | (old) off where "ar_promoted a'" "arena_ok a'" "res = Ok (Some (Region True off n))" "0 \<le> off" "off + n = ar_old_off a'"
      "ar_promoted a \<Longrightarrow> off = ar_old_off a"
  | (full) "ar_promoted a'" "arena_ok a'" "res = Ok None" "ar_promoted a \<Longrightarrow> ar_old_off a \<le> ar_old_off a'"
proof (cases "ar_promoted a")
  case True
  then have al: "alloc_from_old n a = (res, a')" using r by (simp add: arena_alloc_def)
  note o = alloc_from_old_ok [OF a True n al]
  have "0 \<le> ar_old_off a" using a by (simp add: arena_ok_def)
  then show ?thesis
    using o old [of "ar_old_off a"] full by (cases "res = Ok None") auto
next
  case False
  have w: "wrap64 (ar_young_off a + n) = ar_young_off a + n"
    using a n by (intro wrap_small) (auto simp: arena_ok_def arena_sizes)
  have y: "0 \<le> ar_young_off a" "length (ar_young a) = nat young_size" using a by (auto simp: arena_ok_def)
  show ?thesis
  proof (cases "young_size < ar_young_off a + n")
    case True
    then have y0: "ar_young_off a \<noteq> 0" using n by auto
    have al: "alloc_from_old n (promote a) = (res, a')"
      using r False True w by (simp add: arena_alloc_def try_alloc_young_def)
    note pk = promote_ok [OF a y0]
    note o = alloc_from_old_ok [OF pk n al]
    have "0 \<le> ar_old_off (promote a)" using pk(1) by (simp add: arena_ok_def)
    then show ?thesis
      using o old [of "ar_old_off (promote a)"] full False by (cases "res = Ok None") auto
  next
    case fits: False
    have "(res, a') = (block False (ar_young_off a) n (a\<lparr>ar_young_off := ar_young_off a + n\<rparr>), a\<lparr>ar_young_off := ar_young_off a + n\<rparr>)"
      using r False fits w y(1) by (auto simp: arena_alloc_def try_alloc_young_def)
    moreover have "block False (ar_young_off a) n (a\<lparr>ar_young_off := ar_young_off a + n\<rparr>) = Ok (Some (Region False (ar_young_off a) n))"
      using fits y n w by (simp add: block_def)
    ultimately show ?thesis using young False fits by simp
  qed
qed

lemma arena_alloc_ok:
  assumes a: "arena_ok a" and n: "0 < n" "n \<le> young_size" and r: "arena_alloc n a = (res, a')"
  shows "arena_ok a'" and "res = Ok None \<or> (\<exists>r. res = Ok (Some r) \<and> rg_len r = n \<and> given a' r)"
  using a n by (cases rule: arena_alloc_cases [OF a n r]; auto simp: arena_ok_def given_def)+

lemma arena_alloc_given:
  assumes a: "arena_ok a" and n: "0 < n" "n \<le> young_size" and r: "arena_alloc n a = (res, a')" and g: "given a q"
  shows "given a' q" and "res = Ok (Some p) \<Longrightarrow> disjoint_regions q p"
  using g a n by (cases rule: arena_alloc_cases [OF a n r]; auto simp: given_def disjoint_regions_def split: if_splits)+

text \<open>
  A transaction's allocations: \<open>None\<close> is a nil, after which \<open>NewVersionNode\<close> takes the heap and the next
  call tries the arena again.
\<close>

fun alloc_all :: "int list \<Rightarrow> arena \<Rightarrow> (unit, region option list) outcome \<times> arena" where
  "alloc_all [] a = (Ok [], a)"
| "alloc_all (n # ns) a =
     (case arena_alloc n a of
        (Ok r, a') \<Rightarrow> (case alloc_all ns a' of (rs, a'') \<Rightarrow> (obind rs (\<lambda>rs. Ok (r # rs)), a''))
      | (_, a') \<Rightarrow> (Panic, a'))"

definition blocks :: "region option list \<Rightarrow> region list" where
  "blocks rs = List.map_filter id rs"

lemma blocks_simps [simp]: "blocks [] = []" "blocks (None # rs) = blocks rs" "blocks (Some r # rs) = r # blocks rs"
  by (simp_all add: blocks_def)

lemma alloc_all_ok:
  assumes "arena_ok a" and "list_all (\<lambda>n. 0 < n \<and> n \<le> young_size) ns" and "list_all (given a) qs" and "sorted_wrt disjoint_regions qs"
  shows "\<exists>rs a'. alloc_all ns a = (Ok rs, a') \<and> arena_ok a' \<and> list_all (given a') (qs @ blocks rs) \<and>
    sorted_wrt disjoint_regions (qs @ blocks rs) \<and> list_all2 (\<lambda>n r. \<forall>b. r = Some b \<longrightarrow> rg_len b = n) ns rs"
  using assms
proof (induction ns arbitrary: a qs)
  case (Cons n ns)
  obtain res a1 where r: "arena_alloc n a = (res, a1)" by fastforce
  have n: "0 < n" "n \<le> young_size" "list_all (\<lambda>n. 0 < n \<and> n \<le> young_size) ns" using Cons.prems(2) by auto
  note ok = arena_alloc_ok [OF Cons.prems(1) n(1,2) r] and giv = arena_alloc_given [OF Cons.prems(1) n(1,2) r]
  have qs: "list_all (given a1) qs" using Cons.prems(3) giv(1) by (auto simp: list_all_iff)
  show ?case
  proof (cases "res = Ok None")
    case True
    obtain rs a' where "alloc_all ns a1 = (Ok rs, a')" "arena_ok a'" "list_all (given a') (qs @ blocks rs)"
      "sorted_wrt disjoint_regions (qs @ blocks rs)" "list_all2 (\<lambda>n r. \<forall>b. r = Some b \<longrightarrow> rg_len b = n) ns rs"
      using Cons.IH [OF ok(1) n(3) qs Cons.prems(4)] by blast
    then show ?thesis using r True by simp
  next
    case False
    then obtain p where p: "res = Ok (Some p)" "given a1 p" "rg_len p = n" using ok(2) by blast
    have "sorted_wrt disjoint_regions (qs @ [p])"
      using Cons.prems(3,4) giv(2) [OF _ p(1)] by (auto simp: sorted_wrt_append list_all_iff)
    moreover have "list_all (given a1) (qs @ [p])" using qs p(2) by simp
    ultimately obtain rs a' where "alloc_all ns a1 = (Ok rs, a')" "arena_ok a'" "list_all (given a') ((qs @ [p]) @ blocks rs)"
      "sorted_wrt disjoint_regions ((qs @ [p]) @ blocks rs)" "list_all2 (\<lambda>n r. \<forall>b. r = Some b \<longrightarrow> rg_len b = n) ns rs"
      using Cons.IH [OF ok(1) n(3)] by blast
    then show ?thesis using r p(1,3) by simp
  qed
qed simp

lemma put_arena_ok: "arena_ok a \<Longrightarrow> arena_ok (fst (put_arena a pending))"
  by (auto simp: put_arena_def arena_ok_def arena_sizes Let_def)

text \<open>The arenas that \<open>GetArena\<close> may return: a new one, or one that went back to the pool after any use.\<close>

inductive pooled :: "arena \<Rightarrow> bool" where
  pooled_new: "pooled new_arena"
| pooled_put: "pooled a \<Longrightarrow> list_all (\<lambda>n. 0 < n \<and> n \<le> young_size) ns \<Longrightarrow>
    pooled (fst (put_arena (snd (alloc_all ns a)) pending))"

lemma pooled_ok: "pooled a \<Longrightarrow> arena_ok a"
proof (induction rule: pooled.induct)
  case (pooled_put a ns pending)
  then obtain rs a' where "alloc_all ns a = (Ok rs, a')" "arena_ok a'" using alloc_all_ok [of a ns "[]"] by auto
  then show ?case by (simp add: put_arena_ok)
qed (rule new_arena_ok)

subsection \<open>Properties\<close>

text \<open>
  C35. Whatever a transaction requests from an arena of the pool, new or used before and returned, with requests
  of 1 byte to one young generation each: the arena never panics, every block has the requested length and lies
  inside the buffer of its generation, and all the blocks are pairwise disjoint, those that it hands out after it
  has answered nil to a larger request included.
\<close>

theorem arena_blocks_disjoint:
  assumes "pooled a" "list_all (\<lambda>n. 0 < n \<and> n \<le> young_size) ns"
  shows "\<exists>rs a'. alloc_all ns a = (Ok rs, a') \<and> sorted_wrt disjoint_regions (blocks rs) \<and>
    list_all2 (\<lambda>n r. \<forall>b. r = Some b \<longrightarrow> rg_len b = n) ns rs \<and>
    (\<forall>r \<in> set (blocks rs). 0 \<le> rg_off r \<and> rg_off r + rg_len r \<le> (if rg_old r then old_size else young_size))"
proof -
  obtain rs a' where rs: "alloc_all ns a = (Ok rs, a')" "arena_ok a'" "list_all (given a') (blocks rs)"
    "sorted_wrt disjoint_regions (blocks rs)" "list_all2 (\<lambda>n r. \<forall>b. r = Some b \<longrightarrow> rg_len b = n) ns rs"
    using alloc_all_ok [OF pooled_ok [OF assms(1)] assms(2), of "[]"] by auto
  have "0 \<le> rg_off r \<and> rg_off r + rg_len r \<le> (if rg_old r then old_size else young_size)" if "r \<in> set (blocks rs)" for r
    using rs(2,3) that by (auto simp: list_all_iff given_def arena_ok_def)
  then show ?thesis using rs by blast
qed

theorem arena_blocks_disjoint_witness:
  "\<exists>a rs a'. pooled a \<and> alloc_all [10000, 10000, 10000] a = (Ok rs, a') \<and> sorted_wrt disjoint_regions (blocks rs) \<and>
     length (blocks rs) = 3"
proof -
  obtain rs a' where rs: "alloc_all [10000, 10000, 10000] new_arena = (Ok rs, a')" "sorted_wrt disjoint_regions (blocks rs)"
    using arena_blocks_disjoint [OF pooled_new, of "[10000, 10000, 10000]"] by (auto simp: arena_sizes)
  have w: "wrap64 10000 = 10000" "wrap64 20000 = 20000" "wrap64 30000 = 30000" by (simp_all add: wrap64_id)
  have "rs = [Some (Region False 0 10000), Some (Region True 10000 10000), Some (Region True 20000 10000)]"
    using rs(1) by (simp add: new_arena_def arena_alloc_def try_alloc_young_def alloc_from_old_def try_alloc_old_def
        promote_def block_def arena_sizes Let_def w)
  then show ?thesis using rs pooled_new by auto
qed

text \<open>
  A request larger than the young generation on a fresh (or just reset) arena panics: \<open>promote\<close>
  finds nothing to promote and leaves \<open>old\<close> nil, the bump of the old offset succeeds, and the nil
  buffer is sliced.
\<close>

theorem arena_large_first_alloc_panics:
  assumes "young_size < n" and "n \<le> old_size"
  shows "fst (arena_alloc n new_arena) = Panic"
proof -
  have "wrap64 n = n" using assms by (intro wrap_small) (auto simp: arena_sizes)
  then show ?thesis
    using assms by (simp add: new_arena_def arena_alloc_def try_alloc_young_def alloc_from_old_def try_alloc_old_def
        promote_def block_def arena_sizes)
qed

theorem arena_large_first_alloc_panics_witness: "fst (arena_alloc 20000 new_arena) = Panic"
  by (rule arena_large_first_alloc_panics) (simp_all add: arena_sizes)

lemma first_block_after_reset:
  assumes "arena_ok a" and "0 < n" and "n \<le> young_size"
  shows "fst (arena_alloc n (fst (put_arena a pending))) = Ok (Some (Region False 0 n))"
proof -
  have "wrap64 n = n" using assms by (intro wrap_small) (auto simp: arena_sizes)
  then show ?thesis
    using assms by (simp add: put_arena_def arena_alloc_def try_alloc_young_def block_def arena_ok_def arena_sizes Let_def)
qed

text \<open>
  A committed version does not outlive its transaction: the block that held the first version node of
  any transaction is the block handed out first after the arena went back to the pool, while the version
  chain still points at it.
\<close>

theorem arena_reuse_aliases:
  assumes "arena_ok a" and "arena_ok a'" and "0 < n" and "n \<le> young_size" and "0 < m" and "m \<le> young_size"
  shows "\<exists>r r'. fst (arena_alloc n (fst (put_arena a pending))) = Ok (Some r) \<and>
    fst (arena_alloc m (fst (put_arena a' pending'))) = Ok (Some r') \<and> \<not> disjoint_regions r r'"
  using first_block_after_reset [OF assms(1,3,4)] first_block_after_reset [OF assms(2,5,6)] assms
  by (simp add: disjoint_regions_def)

theorem arena_reuse_aliases_witness:
  "\<exists>r r'. fst (arena_alloc 100 (fst (put_arena new_arena []))) = Ok (Some r) \<and>
    fst (arena_alloc 200 (fst (put_arena (snd (arena_alloc 100 new_arena)) []))) = Ok (Some r') \<and> \<not> disjoint_regions r r'"
proof -
  have "arena_ok (snd (arena_alloc 100 new_arena))"
    using arena_alloc_ok(1) [OF new_arena_ok, of 100] by (cases "arena_alloc 100 new_arena") (simp add: arena_sizes)
  then show ?thesis
    by (rule arena_reuse_aliases [OF new_arena_ok]) (simp_all add: arena_sizes)
qed

end
