(* ===== verification/Txn_Versions.thy ===== *)
theory Txn_Versions
  imports Prelude
begin

text \<open>
  Multi-version storage of \<open>internal/TXN/MV/version.go\<close>, \<open>mv.go\<close>, \<open>gc.go\<close> and the read views of
  \<open>internal/TXN/SN/snapshot.go\<close>. A version chain is the list of its nodes, newest first. Nodes are
  only ever put in front, and only their \<open>endTS\<close> changes, so a saved head pointer is the number of
  nodes the chain had when it was saved. The lock-free insertion is modelled at the end by its steps.
\<close>

subsection \<open>Versions and chains\<close>

definition max_u64 :: u64 where "max_u64 = - 1"

record version_node =
  vn_txn :: u64
  vn_begin :: u64
  vn_end :: u64
  vn_key :: bytes
  vn_value :: bytes
  vn_deleted :: bool

definition new_version_node :: "u64 \<Rightarrow> u64 \<Rightarrow> bytes \<Rightarrow> bytes \<Rightarrow> bool \<Rightarrow> version_node" where
  "new_version_node txn begin_ts key val deleted =
     \<lparr>vn_txn = txn, vn_begin = begin_ts, vn_end = max_u64, vn_key = key, vn_value = val, vn_deleted = deleted\<rparr>"

definition is_uncommitted :: "version_node \<Rightarrow> bool" where
  "is_uncommitted n \<longleftrightarrow> vn_end n = max_u64"

definition is_visible :: "u64 \<Rightarrow> version_node \<Rightarrow> bool" where
  "is_visible read_ts n \<longleftrightarrow> vn_begin n < read_ts \<and> read_ts \<le> vn_end n"

text \<open>\<open>VersionNode.Commit\<close>: a compare-and-swap of \<open>endTS\<close> from \<open>MaxUint64\<close>.\<close>

definition node_commit :: "u64 \<Rightarrow> version_node \<Rightarrow> bool \<times> version_node" where
  "node_commit ts n = (if vn_end n = max_u64 then (True, n\<lparr>vn_end := ts\<rparr>) else (False, n))"

type_synonym chain = "version_node list"

definition chain_insert :: "version_node \<Rightarrow> chain \<Rightarrow> chain" where
  "chain_insert n c = n # c"

fun chain_find_visible :: "u64 \<Rightarrow> chain \<Rightarrow> version_node option" where
  "chain_find_visible ts [] = None"
| "chain_find_visible ts (n # c) = (if is_visible ts n then Some n else chain_find_visible ts c)"

text \<open>The commit loop of a transaction: the first node of the chain that it owns.\<close>

fun commit_first :: "u64 \<Rightarrow> u64 \<Rightarrow> chain \<Rightarrow> chain" where
  "commit_first txn ts [] = []"
| "commit_first txn ts (n # c) = (if vn_txn n = txn then snd (node_commit ts n) # c else n # commit_first txn ts c)"

subsection \<open>The map of chains\<close>

type_synonym mv = "bytes \<rightharpoonup> chain"

definition mv_get_chain :: "mv \<Rightarrow> bytes \<Rightarrow> chain option" where
  "mv_get_chain m key = m key"

definition mv_get_or_create :: "mv \<Rightarrow> bytes \<Rightarrow> chain" where
  "mv_get_or_create m key = (case m key of None \<Rightarrow> [] | Some c \<Rightarrow> c)"

definition mv_insert :: "bytes \<Rightarrow> version_node \<Rightarrow> mv \<Rightarrow> mv" where
  "mv_insert key n m = m(key \<mapsto> chain_insert n (mv_get_or_create m key))"

definition mv_find_visible :: "mv \<Rightarrow> bytes \<Rightarrow> u64 \<Rightarrow> version_node option" where
  "mv_find_visible m key ts = (case mv_get_chain m key of None \<Rightarrow> None | Some c \<Rightarrow> chain_find_visible ts c)"

definition mv_commit_first :: "u64 \<Rightarrow> u64 \<Rightarrow> bytes \<Rightarrow> mv \<Rightarrow> mv" where
  "mv_commit_first txn ts key m = (case m key of None \<Rightarrow> m | Some c \<Rightarrow> m(key \<mapsto> commit_first txn ts c))"

text \<open>\<open>GCVersionChain\<close>: the candidates, in chain order; the chain is left as it is.\<close>

definition gc_version_chain :: "mv \<Rightarrow> bytes \<Rightarrow> u64 \<Rightarrow> chain" where
  "gc_version_chain m key oldest =
     (case mv_get_chain m key of None \<Rightarrow> [] | Some c \<Rightarrow> filter (\<lambda>n. vn_end n < oldest) c)"

text \<open>\<open>GCAllChains\<close> over the keys in the order the map's \<open>Range\<close> visits them.\<close>

definition gc_all_chains :: "mv \<Rightarrow> bytes list \<Rightarrow> u64 \<Rightarrow> chain" where
  "gc_all_chains m order oldest = concat (map (\<lambda>k. gc_version_chain m k oldest) order)"

subsection \<open>Read views\<close>

datatype mv_error = ErrNotFound | ErrInvalidTx

record read_view =
  rv_read_ts :: u64
  rv_snapshot :: "(bytes \<times> nat) list"
  rv_closed :: bool

definition new_read_view :: "u64 \<Rightarrow> read_view" where
  "new_read_view ts = \<lparr>rv_read_ts = ts, rv_snapshot = [], rv_closed = False\<rparr>"

text \<open>The nodes reachable from a head saved when the chain had \<open>k\<close> nodes.\<close>

definition from_head :: "nat \<Rightarrow> chain \<Rightarrow> chain" where
  "from_head k c = drop (length c - k) c"

definition visible_value :: "version_node option \<Rightarrow> mv_error + bytes" where
  "visible_value r = (case r of None \<Rightarrow> Inl ErrNotFound
     | Some n \<Rightarrow> if vn_deleted n then Inl ErrNotFound else Inr (vn_value n))"

text \<open>
  \<open>Get\<close> takes no lock of the chain and loads its head twice: it walks the chain from the first load, and saves
  the second one. \<open>m\<close> is the map at the first load, \<open>m'\<close> at the second; insertions may come between them.
\<close>

definition rv_get :: "mv \<Rightarrow> mv \<Rightarrow> bytes \<Rightarrow> read_view \<Rightarrow> (mv_error + bytes) \<times> read_view" where
  "rv_get m m' key rv =
     (if rv_closed rv then (Inl ErrInvalidTx, rv)
      else case map_of (rv_snapshot rv) key of
        Some k \<Rightarrow> (visible_value (chain_find_visible (rv_read_ts rv) (from_head k (mv_get_or_create m key))), rv)
      | None \<Rightarrow>
          (case mv_get_chain m key of
             None \<Rightarrow> (Inl ErrNotFound, rv)
           | Some c \<Rightarrow>
               (case chain_find_visible (rv_read_ts rv) c of
                  None \<Rightarrow> (Inl ErrNotFound, rv)
                | Some n \<Rightarrow> (visible_value (Some n),
                    rv\<lparr>rv_snapshot := rv_snapshot rv @ [(key, length (mv_get_or_create m' key))]\<rparr>))))"

definition rv_close :: "read_view \<Rightarrow> read_view" where
  "rv_close rv = rv\<lparr>rv_closed := True\<rparr>"

subsection \<open>Visibility\<close>

lemma max_u64_top [simp]: "x \<le> max_u64"
  by (simp add: max_u64_def)

lemma find_visible_filter: "chain_find_visible ts c = find (is_visible ts) c"
  by (induction c) auto

lemma find_drop_invisible:
  "(\<And>n. n \<in> set c \<Longrightarrow> P n \<Longrightarrow> \<not> is_visible ts n) \<Longrightarrow> chain_find_visible ts (filter (\<lambda>n. \<not> P n) c) = chain_find_visible ts c"
  by (induction c) auto

lemma from_head_insert: "from_head (length c) (n # c) = c"
  by (simp add: from_head_def)

lemma from_head_append: "k \<le> length c \<Longrightarrow> from_head k (ns @ c) = from_head k c"
  by (simp add: from_head_def)

text \<open>Inserting many versions under many keys.\<close>

definition insert_all :: "(bytes \<times> version_node) list \<Rightarrow> mv \<Rightarrow> mv" where
  "insert_all kns m = fold (\<lambda>(k, n) m. mv_insert k n m) kns m"


text \<open>The versions that a list of insertions puts in front of the chain of a key.\<close>

definition front :: "(bytes \<times> version_node) list \<Rightarrow> bytes \<Rightarrow> chain" where
  "front kns key = rev (map snd (filter (\<lambda>kn. fst kn = key) kns))"

lemma insert_all_chain: "mv_get_or_create (insert_all kns m) key = front kns key @ mv_get_or_create m key"
proof (induction kns arbitrary: m)
  case (Cons kn kns)
  then show ?case
    by (cases kn) (simp add: insert_all_def front_def mv_insert_def mv_get_or_create_def chain_insert_def)
qed (simp add: insert_all_def front_def)


text \<open>A read of a key whose head was saved when the chain had \<open>k\<close> nodes.\<close>

lemma rv_get_saved:
  assumes "\<not> rv_closed rv" "map_of (rv_snapshot rv) key = Some (length (mv_get_or_create m key))"
  shows "rv_get (insert_all kns m) m' key rv = (visible_value (chain_find_visible (rv_read_ts rv) (mv_get_or_create m key)), rv)"
  using assms from_head_append [of "length (mv_get_or_create m key)" "mv_get_or_create m key" "front kns key"]
  by (simp add: rv_get_def insert_all_chain from_head_def)

subsection \<open>Concurrent insertion\<close>

text \<open>
  \<open>VersionChain.Insert\<close> by several goroutines, each inserting its own node: load the head, store it
  in \<open>node.next\<close>, compare-and-swap the head, and start again when that fails.
\<close>

datatype ins_pc = Starting | Loaded "nat option" | Linked "nat option" | Inserted

record chain_state =
  cs_head :: "nat option"
  cs_next :: "nat \<Rightarrow> nat option"
  cs_pc :: "nat \<Rightarrow> ins_pc"

definition empty_chain :: chain_state where
  "empty_chain = \<lparr>cs_head = None, cs_next = (\<lambda>_. None), cs_pc = (\<lambda>_. Starting)\<rparr>"

inductive ins_step :: "chain_state \<Rightarrow> chain_state \<Rightarrow> bool" where
  ins_load: "cs_pc s n = Starting \<Longrightarrow> ins_step s (s\<lparr>cs_pc := (cs_pc s)(n := Loaded (cs_head s))\<rparr>)"
| ins_link: "cs_pc s n = Loaded h \<Longrightarrow>
    ins_step s (s\<lparr>cs_next := (cs_next s)(n := h), cs_pc := (cs_pc s)(n := Linked h)\<rparr>)"
| ins_cas: "cs_pc s n = Linked h \<Longrightarrow> cs_head s = h \<Longrightarrow>
    ins_step s (s\<lparr>cs_head := Some n, cs_pc := (cs_pc s)(n := Inserted)\<rparr>)"
| ins_retry: "cs_pc s n = Linked h \<Longrightarrow> cs_head s \<noteq> h \<Longrightarrow>
    ins_step s (s\<lparr>cs_pc := (cs_pc s)(n := Starting)\<rparr>)"

text \<open>\<open>path next h l\<close>: following \<open>next\<close> from \<open>h\<close> visits exactly the nodes \<open>l\<close>.\<close>

fun path :: "(nat \<Rightarrow> nat option) \<Rightarrow> nat option \<Rightarrow> nat list \<Rightarrow> bool" where
  "path nx h [] = (h = None)"
| "path nx h (n # l) = (h = Some n \<and> path nx (nx n) l)"

definition chain_inv :: "chain_state \<Rightarrow> nat list \<Rightarrow> bool" where
  "chain_inv s l \<longleftrightarrow> path (cs_next s) (cs_head s) l \<and> distinct l \<and> set l = {n. cs_pc s n = Inserted} \<and>
     (\<forall>n h. cs_pc s n = Linked h \<longrightarrow> cs_next s n = h)"

lemma path_update: "n \<notin> set l \<Longrightarrow> path (nx(n := h')) h l = path nx h l"
  by (induction l arbitrary: h) auto

lemma ins_step_inv:
  assumes "ins_step s s'" and "chain_inv s l"
  shows "\<exists>ns. chain_inv s' (ns @ l)"
  using assms(1)
proof cases
  case (ins_load n)
  then have "chain_inv s' ([] @ l)" using assms(2) by (auto simp: chain_inv_def)
  then show ?thesis by blast
next
  case (ins_link n h)
  then have "n \<notin> set l" using assms(2) by (auto simp: chain_inv_def)
  then have "chain_inv s' ([] @ l)" using ins_link assms(2) by (auto simp: chain_inv_def path_update)
  then show ?thesis by blast
next
  case (ins_cas n h)
  then have "n \<notin> set l" using assms(2) by (auto simp: chain_inv_def)
  then have "chain_inv s' ([n] @ l)" using ins_cas assms(2) by (auto simp: chain_inv_def)
  then show ?thesis by blast
next
  case (ins_retry n h)
  then have "chain_inv s' ([] @ l)" using assms(2) by (auto simp: chain_inv_def)
  then show ?thesis by blast
qed

lemma empty_chain_inv: "chain_inv empty_chain []"
  by (simp add: chain_inv_def empty_chain_def)

lemma reachable_chain_inv: "ins_step\<^sup>*\<^sup>* empty_chain s \<Longrightarrow> \<exists>l. chain_inv s l"
  by (induction rule: rtranclp_induct) (use empty_chain_inv ins_step_inv in blast)+

lemma ins_steps_prefix: "ins_step\<^sup>*\<^sup>* s s' \<Longrightarrow> chain_inv s l \<Longrightarrow> \<exists>ns. chain_inv s' (ns @ l)"
proof (induction rule: rtranclp_induct)
  case (step y z)
  then obtain ns where "chain_inv y (ns @ l)" by blast
  with ins_step_inv [OF step.hyps(2) this] show ?case by (metis append_assoc)
qed (metis append_Nil)

subsection \<open>Properties\<close>

text \<open>
  C32. Concurrent insertions lose nothing: in every state that any interleaving of the goroutines'
  steps reaches, walking the chain from its head visits exactly the versions whose insertion completed, each
  once.
\<close>

theorem chain_insert_lossless:
  assumes "ins_step\<^sup>*\<^sup>* empty_chain s"
  shows "\<exists>l. path (cs_next s) (cs_head s) l \<and> distinct l \<and> set l = {n. cs_pc s n = Inserted}"
  using reachable_chain_inv [OF assms] by (auto simp: chain_inv_def)

theorem chain_insert_lossless_witness:
  "\<exists>s. ins_step\<^sup>*\<^sup>* empty_chain s \<and> cs_pc s 5 = Inserted \<and> (\<exists>l. path (cs_next s) (cs_head s) l \<and> 5 \<in> set l)"
proof -
  let ?s1 = "empty_chain\<lparr>cs_pc := (cs_pc empty_chain)(5 := Loaded (cs_head empty_chain))\<rparr>"
  let ?s2 = "?s1\<lparr>cs_next := (cs_next ?s1)(5 := None), cs_pc := (cs_pc ?s1)(5 := Linked None)\<rparr>"
  let ?s3 = "?s2\<lparr>cs_head := Some 5, cs_pc := (cs_pc ?s2)(5 := Inserted)\<rparr>"
  have "ins_step empty_chain ?s1" by (rule ins_load) (simp add: empty_chain_def)
  moreover have "ins_step ?s1 ?s2" by (rule ins_link) (simp add: empty_chain_def)
  moreover have "ins_step ?s2 ?s3" by (rule ins_cas [of _ _ None]) (simp_all add: empty_chain_def)
  ultimately have r: "ins_step\<^sup>*\<^sup>* empty_chain ?s3" by (meson rtranclp.rtrancl_into_rtrancl rtranclp.rtrancl_refl)
  from chain_insert_lossless [OF this] show ?thesis
    using r by (intro exI [of _ ?s3]) auto
qed

text \<open>
  Reclamation is safe for readers: taking the candidates of \<open>GCVersionChain\<close> out of a chain changes no
  read at a timestamp of \<open>oldestReadTS\<close> or later.
\<close>

theorem gc_candidates_invisible:
  assumes "mv_get_chain m key = Some c" and "oldest \<le> ts"
  shows "chain_find_visible ts (filter (\<lambda>n. n \<notin> set (gc_version_chain m key oldest)) c) = mv_find_visible m key ts"
proof -
  have "chain_find_visible ts (filter (\<lambda>n. \<not> vn_end n < oldest) c) = chain_find_visible ts c"
    by (rule find_drop_invisible) (use assms(2) in \<open>auto simp: is_visible_def\<close>)
  moreover have "filter (\<lambda>n. n \<notin> set (gc_version_chain m key oldest)) c = filter (\<lambda>n. \<not> vn_end n < oldest) c"
    using assms(1) by (intro filter_cong) (auto simp: gc_version_chain_def)
  ultimately show ?thesis using assms(1) by (simp add: mv_find_visible_def)
qed

definition sample_mv :: mv where
  "sample_mv = [[1] \<mapsto> [new_version_node 9 9 [1] [7] False, (new_version_node 3 3 [1] [5] False)\<lparr>vn_end := 4\<rparr>]]"

theorem gc_candidates_invisible_witness:
  "chain_find_visible 10 (filter (\<lambda>n. n \<notin> set (gc_version_chain sample_mv [1] 6)) (mv_get_or_create sample_mv [1]))
     = Some (new_version_node 9 9 [1] [7] False) \<and> gc_version_chain sample_mv [1] 6 = [(new_version_node 3 3 [1] [5] False)\<lparr>vn_end := 4\<rparr>]"
proof -
  have "mv_get_chain sample_mv [1] = Some (mv_get_or_create sample_mv [1])"
    by (simp add: mv_get_chain_def mv_get_or_create_def sample_mv_def)
  from gc_candidates_invisible [OF this, of 6 10] show ?thesis
    by (simp add: mv_find_visible_def mv_get_chain_def sample_mv_def is_visible_def new_version_node_def gc_version_chain_def max_u64_def)
qed



text \<open>
  C34. The second load of the head breaks the promise: when a version that the view sees is inserted under the key
  while the first \<open>Get\<close> runs, that \<open>Get\<close> returns the older version, and every later one the new version.
\<close>

theorem read_view_race:
  assumes "m key = Some c" "chain_find_visible ts c = Some n" "is_visible ts x"
  shows "\<exists>rv'. rv_get m (mv_insert key x m) key (new_read_view ts) = (visible_value (Some n), rv') \<and>
    (\<forall>later m'. rv_get (insert_all later (mv_insert key x m)) m' key rv' = (visible_value (Some x), rv'))"
proof -
  let ?rv = "(new_read_view ts)\<lparr>rv_snapshot := [(key, Suc (length c))]\<rparr>"
  have i: "mv_get_or_create (mv_insert key x m) key = x # c"
    using assms(1) by (simp add: mv_insert_def mv_get_or_create_def chain_insert_def)
  have "rv_get m (mv_insert key x m) key (new_read_view ts) = (visible_value (Some n), ?rv)"
    using assms(1,2) i by (simp add: rv_get_def new_read_view_def mv_get_chain_def)
  moreover have "rv_get (insert_all later (mv_insert key x m)) m' key ?rv = (visible_value (Some x), ?rv)" for later m'
    using rv_get_saved [of ?rv key "mv_insert key x m" later m'] i assms(3) by (simp add: new_read_view_def)
  ultimately show ?thesis by blast
qed

theorem read_view_race_witness:
  "\<exists>rv'. fst (rv_get sample_mv (mv_insert [1] (new_version_node 11 11 [1] [8] False) sample_mv) [1] (new_read_view 20)) = Inr [7] \<and>
     fst (rv_get (mv_insert [1] (new_version_node 11 11 [1] [8] False) sample_mv) sample_mv [1] rv') = Inr [8]"
proof -
  let ?x = "new_version_node 11 11 [1] [8] False" and ?c = "mv_get_or_create sample_mv [1]"
  have "sample_mv [1] = Some ?c" "chain_find_visible 20 ?c = Some (new_version_node 9 9 [1] [7] False)" "is_visible 20 ?x"
    by (simp_all add: sample_mv_def mv_get_or_create_def is_visible_def new_version_node_def max_u64_def)
  from read_view_race [of sample_mv "[1]" ?c 20 _ ?x, OF this] obtain rv' where
    "rv_get sample_mv (mv_insert [1] ?x sample_mv) [1] (new_read_view 20) = (visible_value (Some (new_version_node 9 9 [1] [7] False)), rv')"
    "\<And>later m'. rv_get (insert_all later (mv_insert [1] ?x sample_mv)) m' [1] rv' = (visible_value (Some ?x), rv')" by blast
  from this(1) this(2) [of "[]" sample_mv] show ?thesis
    by (intro exI [of _ rv']) (simp add: visible_value_def new_version_node_def insert_all_def)
qed

text \<open>
  The visibility window is before the commit, not after it: a version begun at \<open>b\<close> is visible to
  readers past \<open>b\<close> while it is uncommitted, and once committed at \<open>c\<close> only to readers in \<open>(b, c]\<close>, so a
  transaction that begins after the commit does not see it.
\<close>

theorem visibility_ends_at_commit:
  "is_visible ts (new_version_node txn b key val d) = (b < ts) \<and>
   is_visible ts (snd (node_commit c (new_version_node txn b key val d))) = (b < ts \<and> ts \<le> c)"
  by (simp add: is_visible_def new_version_node_def node_commit_def)

end
