(* ===== verification/Txn_Record.thy ===== *)
theory Txn_Record
  imports Wal_Record
begin

text \<open>
  The commit record of \<open>internal/TXN/VL/wal_record.go\<close>, and the WAL record in which
  \<open>Commit\<close> of \<open>protocol.go\<close> sends it.
\<close>

subsection \<open>The codec\<close>

definition wal_record_commit :: byte where "wal_record_commit = 4"

record txn_wal_record =
  wrec_type :: byte
  wrec_txn :: u64
  wrec_commit_ts :: u64
  wrec_key_count :: u32
  wrec_keys :: "bytes list"

definition encode_key :: "bytes \<Rightarrow> bytes" where
  "encode_key k = put_uvarint (of_nat (length k)) @ k"

definition encode_commit_record :: "u64 \<Rightarrow> u64 \<Rightarrow> bytes list \<Rightarrow> bytes" where
  "encode_commit_record txn commit_ts keys =
     wal_record_commit # put_u64 txn @ put_u64 commit_ts @ put_u32 (of_nat (length keys)) @ concat (map encode_key keys)"

text \<open>
  One round of the key loop. \<open>int(keyLen)\<close> of a length of \<open>2 ^ 63\<close> or more is negative and passes the
  bounds check; \<open>make\<close> then panics.
\<close>

definition decode_key :: "bytes \<Rightarrow> nat \<Rightarrow> (unit, bytes \<times> nat) outcome" where
  "decode_key data off =
     (if length data \<le> off then Fail ()
      else case get_uvarint (drop off data) of (key_len, n) \<Rightarrow>
        if n \<le> 0 \<or> int (length data) < wrap64 (int off + n + sint key_len) then Fail ()
        else if sint key_len < 0 then Panic
        else obind (go_slice data (int off + n) (int off + n + sint key_len))
               (\<lambda>k. Ok (k, off + nat n + nat (sint key_len))))"

definition decode_commit_record :: "bytes \<Rightarrow> (unit, txn_wal_record) outcome" where
  "decode_commit_record data =
     (if length data < 21 then Fail ()
      else
        let count = get_u32 (drop 17 data)
        in obind (dec_times decode_key (unat count) data 21) (\<lambda>(keys, off).
             Ok \<lparr>wrec_type = data ! 0, wrec_txn = get_u64 (drop 1 data), wrec_commit_ts = get_u64 (drop 9 data),
                 wrec_key_count = count, wrec_keys = keys\<rparr>))"

lemma put_uvarint_pos: "0 < length (put_uvarint v)"
  by (subst put_uvarint.simps) simp

interpretation commit_key: codec encode_key decode_key "\<lambda>_. True"
proof
  fix k pre rest :: bytes
  assume len: "length (pre @ encode_key k @ rest) < 2 ^ 63"
  let ?d = "pre @ put_uvarint (of_nat (length k)) @ k @ rest"
  have l: "length ?d < 2 ^ 63" using len by (simp add: encode_key_def)
  note blob = decode_blob [OF l]
  have si: "sint (of_nat (length k) :: u64) = int (length k)" using l by (intro sint_of_nat_u64) simp
  have g: "get_uvarint (drop (length pre) ?d) = (of_nat (length k), int (length (put_uvarint (of_nat (length k)))))"
    by simp
  have "\<not> length ?d \<le> length pre" using put_uvarint_pos [of "of_nat (length k)"] by simp
  then have "decode_key ?d (length pre) = Ok (k, length pre + length (put_uvarint (of_nat (length k))) + length k)"
    using g blob(2,4) si put_uvarint_pos [of "of_nat (length k)"] decode_blob(3) [OF l]
    by (simp add: decode_key_def go_slice_def sub_mid_len split: if_splits)
  then show "decode_key (pre @ encode_key k @ rest) (length pre) = Ok (k, length pre + length (encode_key k))"
    by (simp add: encode_key_def add.assoc)
qed

lemma decode_encode_commit_record:
  assumes len: "length (encode_commit_record txn ts keys @ rest) < 2 ^ 63" and few: "length keys < 2 ^ 32"
  shows "decode_commit_record (encode_commit_record txn ts keys @ rest) =
    Ok \<lparr>wrec_type = wal_record_commit, wrec_txn = txn, wrec_commit_ts = ts, wrec_key_count = of_nat (length keys), wrec_keys = keys\<rparr>"
proof -
  let ?h = "wal_record_commit # put_u64 txn @ put_u64 ts @ put_u32 (of_nat (length keys))"
  let ?d = "?h @ concat (map encode_key keys) @ rest"
  have e: "encode_commit_record txn ts keys @ rest = ?d" by (simp add: encode_commit_record_def)
  have h: "length ?h = 21" by simp
  have d17: "drop 17 ?d = put_u32 (of_nat (length keys)) @ concat (map encode_key keys) @ rest"
    and d9: "drop 9 ?d = put_u64 ts @ put_u32 (of_nat (length keys)) @ concat (map encode_key keys) @ rest"
    and d1: "drop 1 ?d = put_u64 txn @ put_u64 ts @ put_u32 (of_nat (length keys)) @ concat (map encode_key keys) @ rest"
    by (simp_all add: numeral_eq_Suc)
  have n: "unat (of_nat (length keys) :: u32) = length keys" using few by (rule unat_of_nat_u32)
  have "dec_times decode_key (length keys) ?d (length ?h) = Ok (keys, length ?h + length (concat (map encode_key keys)))"
    by (rule commit_key.dec_times_concat) (use len e in \<open>auto simp: list_all_iff\<close>)
  then have "dec_times decode_key (length keys) ?d 21 = Ok (keys, 21 + length (concat (map encode_key keys)))"
    unfolding h .
  moreover have "\<not> length ?d < 21" by simp
  ultimately show ?thesis
    unfolding e decode_commit_record_def Let_def d17 d9 d1 by (simp add: n)
qed

subsection \<open>What Commit sends to the WAL\<close>

text \<open>The record that \<open>Commit\<close> appends; the batch's transaction id is zero and overrides the record's.\<close>

definition commit_log_record :: "u64 \<Rightarrow> u64 \<Rightarrow> bytes list \<Rightarrow> log_record" where
  "commit_log_record txn commit_ts keys =
     \<lparr>rtype = rt_commit, txn_id = 0, rkey = [], rvalue = encode_commit_record txn commit_ts keys, block_id = 0, pay_crc_fail = False\<rparr>"

subsection \<open>Properties\<close>

text \<open>
  The commit record round trips: decoding it gives back the transaction, its commit timestamp and
  its keys in order.
\<close>

theorem commit_record_roundtrip:
  assumes "length (encode_commit_record txn ts keys @ rest) < 2 ^ 63" and "length keys < 2 ^ 32"
  shows "decode_commit_record (encode_commit_record txn ts keys @ rest) =
    Ok \<lparr>wrec_type = wal_record_commit, wrec_txn = txn, wrec_commit_ts = ts, wrec_key_count = of_nat (length keys), wrec_keys = keys\<rparr>"
  using assms by (rule decode_encode_commit_record)

theorem commit_record_roundtrip_witness:
  "decode_commit_record (encode_commit_record 7 9 [[1, 2], [], [3]] @ [0]) =
    Ok \<lparr>wrec_type = 4, wrec_txn = 7, wrec_commit_ts = 9, wrec_key_count = 3, wrec_keys = [[1, 2], [], [3]]\<rparr>"
  using commit_record_roundtrip [of 7 9 "[[1, 2], [], [3]]" "[0]"] length_put_uvarint_le [of 2] length_put_uvarint_le [of 0]
    length_put_uvarint_le [of 1]
  by (simp add: encode_commit_record_def encode_key_def wal_record_commit_def)

text \<open>
  The commit record does not survive the WAL: \<open>Commit\<close> puts it in \<open>Value\<close> of an
  \<open>RTCommit\<close> record, whose payload is only \<open>BlockID\<close>, so what recovery reads is the same record for every
  transaction: transaction id zero, timestamp zero and no keys.
\<close>

theorem commit_record_lost_in_wal:
  "decode_record_compressed (encode_record_compressed (commit_log_record txn ts keys) False) 0 False =
     Ok (\<lparr>rtype = rt_commit, txn_id = 0, rkey = [], rvalue = [], block_id = 0, pay_crc_fail = False\<rparr>,
         int (length (encode_record_compressed (commit_log_record txn ts keys) False)))"
proof -
  have b: "length (record_body (commit_log_record txn ts keys)) \<le> 19"
    using length_put_uvarint_le [of 0] by (simp add: record_body_def append_payload_def commit_log_record_def rt_types)
  then have "decode_record_compressed ([] @ encode_record_compressed (commit_log_record txn ts keys) False @ []) (int (length ([] :: bytes))) False
      = Ok (wire_view (commit_log_record txn ts keys), int (length (encode_record_compressed (commit_log_record txn ts keys) False)))"
    by (intro decode_encode_record) (auto simp: disk_body_of_def max_record_len_def)
  moreover have "wire_view (commit_log_record txn ts keys) = \<lparr>rtype = rt_commit, txn_id = 0, rkey = [], rvalue = [], block_id = 0, pay_crc_fail = False\<rparr>"
    by (simp add: wire_view_def commit_log_record_def blank_record_def rt_types)
  ultimately show ?thesis by simp
qed

end
