(* ===== verification/Txn_Commit.thy ===== *)
theory Txn_Commit
  imports Txn_Versions Txn_Record "HOL-Library.Multiset"
begin

text \<open>
  Transaction slots, validation and the commit protocol of \<open>internal/TXN/VL\<close> (\<open>slot.go\<close>,
  \<open>validate.go\<close>, \<open>protocol.go\<close>, \<open>manager.go\<close>, \<open>cond.go\<close>, \<open>txn.go\<close>). The system is one manager with
  its slot pool, its versions and the transactions it handed out; \<open>ctx\<close> says that the context of a call is
  cancelled. The memory arena of a slot is the subject of \<open>Txn_Arena\<close>; here a slot only records that it holds one.
\<close>

subsection \<open>Slots\<close>

record key_range =
  kr_start :: bytes
  kr_end :: bytes

datatype slot_status = SlotInactive | SlotActive | SlotCommitted | SlotAborted

record txn_slot =
  sl_txn :: u64
  sl_status :: slot_status
  sl_begin :: u64
  sl_commit :: u64
  sl_writes :: "key_range list"
  sl_arena :: bool

definition max_txns :: nat where "max_txns = 1024"

record slot_manager =
  sm_slots :: "txn_slot list"
  sm_free :: "nat list"

definition blank_slot :: txn_slot where
  "blank_slot = \<lparr>sl_txn = 0, sl_status = SlotInactive, sl_begin = 0, sl_commit = 0, sl_writes = [], sl_arena = False\<rparr>"

definition new_slot_manager :: slot_manager where
  "new_slot_manager = \<lparr>sm_slots = replicate max_txns blank_slot, sm_free = [0..<max_txns]\<rparr>"

definition allocate_slot :: "slot_manager \<Rightarrow> nat option \<times> slot_manager" where
  "allocate_slot sm =
     (if sm_free sm = [] then (None, sm)
      else
        let i = last (sm_free sm)
        in (Some i, sm\<lparr>sm_free := butlast (sm_free sm),
              sm_slots := (sm_slots sm)[i := blank_slot\<lparr>sl_status := SlotActive, sl_arena := True\<rparr>]\<rparr>))"

definition release_slot :: "nat \<Rightarrow> slot_manager \<Rightarrow> slot_manager" where
  "release_slot i sm =
     sm\<lparr>sm_slots := (sm_slots sm)[i := blank_slot],
        sm_free := (if i < max_txns then sm_free sm @ [i] else sm_free sm)\<rparr>"

definition num_free_slots :: "slot_manager \<Rightarrow> nat" where "num_free_slots sm = length (sm_free sm)"
definition num_active_slots :: "slot_manager \<Rightarrow> int" where "num_active_slots sm = int max_txns - int (length (sm_free sm))"

definition update_slot :: "nat \<Rightarrow> (txn_slot \<Rightarrow> txn_slot) \<Rightarrow> slot_manager \<Rightarrow> slot_manager" where
  "update_slot i f sm = sm\<lparr>sm_slots := (sm_slots sm)[i := f (sm_slots sm ! i)]\<rparr>"

subsection \<open>Validation\<close>

definition ranges_overlap :: "key_range \<Rightarrow> key_range \<Rightarrow> bool" where
  "ranges_overlap a b =
     (if (kr_start a = [] \<and> kr_end a = []) \<or> (kr_start b = [] \<and> kr_end b = []) then True
      else bytes_less (kr_start a) (kr_end b) \<and> bytes_less (kr_start b) (kr_end a))"

definition key_ranges_overlap :: "key_range list \<Rightarrow> key_range list \<Rightarrow> bool" where
  "key_ranges_overlap a b = list_ex (\<lambda>ra. list_ex (ranges_overlap ra) b) a"

definition conflicts_with :: "txn_slot \<Rightarrow> txn_slot \<Rightarrow> bool" where
  "conflicts_with mine slot \<longleftrightarrow>
     sl_status slot = SlotCommitted \<and> \<not> sl_begin mine \<le> sl_begin slot \<and> \<not> sl_commit slot \<le> sl_begin mine \<and>
     key_ranges_overlap (sl_writes slot) (sl_writes mine)"

definition validate :: "nat \<Rightarrow> slot_manager \<Rightarrow> bool" where
  "validate i sm = (\<not> list_ex (conflicts_with (sm_slots sm ! i)) (sm_slots sm))"

subsection \<open>The system\<close>

datatype commit_phase = PhaseBegin | PhaseRead | PhaseWrite | PhasePreCommit | PhaseCommit | PhasePostCommit | PhaseAborted

datatype tx_error = CtxErr | ErrTxFinished | ErrWriteConflict | ErrNoSlotsAvailable | ErrManagerClosed | ErrWal

text \<open>
  \<open>tx_marked\<close>: \<open>finalize\<close> has stored the slot's terminal status and has not yet released it. The
  transaction's mutex is held then, so no other call on this transaction runs, but other transactions do.
\<close>

record tx =
  tx_slot :: nat
  tx_finished :: bool
  tx_phase :: commit_phase
  tx_marked :: bool

record txn_system =
  ts_sm :: slot_manager
  ts_mv :: mv
  ts_counter :: u64
  ts_committed :: nat
  ts_aborted :: nat
  ts_closed :: bool
  ts_txs :: "tx list"

definition new_manager :: txn_system where
  "new_manager = \<lparr>ts_sm = new_slot_manager, ts_mv = Map.empty, ts_counter = 0, ts_committed = 0, ts_aborted = 0,
     ts_closed = False, ts_txs = []\<rparr>"

definition slot_of :: "txn_system \<Rightarrow> nat \<Rightarrow> txn_slot" where
  "slot_of s h = sm_slots (ts_sm s) ! tx_slot (ts_txs s ! h)"

definition update_tx :: "nat \<Rightarrow> (tx \<Rightarrow> tx) \<Rightarrow> txn_system \<Rightarrow> txn_system" where
  "update_tx h f s = s\<lparr>ts_txs := (ts_txs s)[h := f (ts_txs s ! h)]\<rparr>"

definition set_phase :: "nat \<Rightarrow> commit_phase \<Rightarrow> txn_system \<Rightarrow> txn_system" where
  "set_phase h p = update_tx h (\<lambda>t. t\<lparr>tx_phase := p\<rparr>)"

text \<open>\<open>NextTS\<close>.\<close>

definition next_ts :: "txn_system \<Rightarrow> u64 \<times> txn_system" where
  "next_ts s = (ts_counter s + 1, s\<lparr>ts_counter := ts_counter s + 1\<rparr>)"

definition tx_begin :: "bool \<Rightarrow> txn_system \<Rightarrow> (tx_error + nat) \<times> txn_system" where
  "tx_begin ctx s =
     (if ctx then (Inl CtxErr, s)
      else if ts_closed s then (Inl ErrManagerClosed, s)
      else case allocate_slot (ts_sm s) of
        (None, sm) \<Rightarrow> (Inl ErrNoSlotsAvailable, s\<lparr>ts_sm := sm\<rparr>)
      | (Some i, sm) \<Rightarrow>
          let (ts, s) = next_ts (s\<lparr>ts_sm := sm\<rparr>);
              sm = update_slot i (\<lambda>sl. sl\<lparr>sl_txn := ts, sl_begin := ts, sl_status := SlotActive\<rparr>) (ts_sm s)
          in (Inr (length (ts_txs s)),
              s\<lparr>ts_sm := sm, ts_txs := ts_txs s @ [\<lparr>tx_slot = i, tx_finished = False, tx_phase = PhaseBegin, tx_marked = False\<rparr>]\<rparr>))"

fun find_own :: "u64 \<Rightarrow> u64 \<Rightarrow> chain \<Rightarrow> version_node option" where
  "find_own txn b [] = None"
| "find_own txn b (n # c) = (if vn_txn n = txn \<and> vn_begin n = b then Some n else find_own txn b c)"

definition live_value :: "version_node option \<Rightarrow> bytes option" where
  "live_value r = (case r of None \<Rightarrow> None | Some n \<Rightarrow> if vn_deleted n then None else Some (vn_value n))"

definition tx_get :: "bool \<Rightarrow> nat \<Rightarrow> bytes \<Rightarrow> txn_system \<Rightarrow> (tx_error + bytes option) \<times> txn_system" where
  "tx_get ctx h key s =
     (if ctx then (Inl CtxErr, s)
      else if tx_finished (ts_txs s ! h) then (Inl ErrTxFinished, s)
      else
        let s = (if tx_phase (ts_txs s ! h) = PhaseBegin then set_phase h PhaseRead s else s); sl = slot_of s h
        in case find_own (sl_txn sl) (sl_begin sl) (mv_get_or_create (ts_mv s) key) of
             Some n \<Rightarrow> (Inr (live_value (Some n)), s)
           | None \<Rightarrow> (Inr (live_value (mv_find_visible (ts_mv s) key (sl_begin sl))), s))"

text \<open>\<open>Insert\<close> and \<open>Delete\<close> differ in the node they put in the chain.\<close>

definition tx_write :: "bool \<Rightarrow> nat \<Rightarrow> bytes \<Rightarrow> bytes \<Rightarrow> bool \<Rightarrow> txn_system \<Rightarrow> tx_error option \<times> txn_system" where
  "tx_write ctx h key val deleted s =
     (if ctx then (Some CtxErr, s)
      else if tx_finished (ts_txs s ! h) then (Some ErrTxFinished, s)
      else
        let s = set_phase h PhaseWrite s; sl = slot_of s h;
            n = new_version_node (sl_txn sl) (sl_begin sl) key val deleted
        in (None, s\<lparr>ts_mv := mv_insert key n (ts_mv s),
              ts_sm := update_slot (tx_slot (ts_txs s ! h))
                 (\<lambda>sl. sl\<lparr>sl_writes := sl_writes sl @ [\<lparr>kr_start = key, kr_end = []\<rparr>]\<rparr>) (ts_sm s)\<rparr>))"

definition tx_insert :: "bool \<Rightarrow> nat \<Rightarrow> bytes \<Rightarrow> bytes \<Rightarrow> txn_system \<Rightarrow> tx_error option \<times> txn_system" where
  "tx_insert ctx h key val s = tx_write ctx h key val False s"

definition tx_delete :: "bool \<Rightarrow> nat \<Rightarrow> bytes \<Rightarrow> txn_system \<Rightarrow> tx_error option \<times> txn_system" where
  "tx_delete ctx h key s = tx_write ctx h key [] True s"

text \<open>\<open>finalize\<close> in its two halves.\<close>

definition finalize_mark :: "nat \<Rightarrow> slot_status \<Rightarrow> txn_system \<Rightarrow> txn_system" where
  "finalize_mark h st s =
     update_tx h (\<lambda>t. t\<lparr>tx_marked := True\<rparr>)
       (s\<lparr>ts_sm := update_slot (tx_slot (ts_txs s ! h)) (\<lambda>sl. sl\<lparr>sl_status := st\<rparr>) (ts_sm s)\<rparr>)"

definition finalize_release :: "nat \<Rightarrow> txn_system \<Rightarrow> txn_system" where
  "finalize_release h s =
     update_tx h (\<lambda>t. t\<lparr>tx_marked := False, tx_finished := True\<rparr>)
       (s\<lparr>ts_sm := release_slot (tx_slot (ts_txs s ! h)) (ts_sm s)\<rparr>)"

text \<open>The answers of a WAL to an append of records and to a sync.\<close>

record wal_answers =
  wa_append :: "log_record list \<Rightarrow> bool"
  wa_sync :: bool

text \<open>
  \<open>Commit\<close> up to the first half of \<open>finalize\<close>: the error, whether a release follows, and the counter to
  bump after it.
\<close>

definition commit_mark :: "bool \<Rightarrow> wal_answers option \<Rightarrow> nat \<Rightarrow> txn_system \<Rightarrow> tx_error option \<times> bool \<times> txn_system" where
  "commit_mark ctx wal h s =
     (if ctx then (Some CtxErr, False, s)
      else if tx_finished (ts_txs s ! h) then (Some ErrTxFinished, False, s)
      else
        let s = set_phase h PhasePreCommit s
        in if \<not> validate (tx_slot (ts_txs s ! h)) (ts_sm s) then
             (Some ErrWriteConflict, True, finalize_mark h SlotAborted (set_phase h PhaseAborted s))
           else
             let (ts, s) = next_ts s;
                 s = set_phase h PhaseCommit s;
                 sl = slot_of s h;
                 keys = map kr_start (sl_writes sl);
                 s = s\<lparr>ts_mv := fold (mv_commit_first (sl_txn sl) ts) keys (ts_mv s)\<rparr>;
                 logged = (case wal of None \<Rightarrow> True
                   | Some w \<Rightarrow> wa_append w [commit_log_record (sl_txn sl) ts keys] \<and> wa_sync w)
             in if \<not> logged then (Some ErrWal, False, set_phase h PhaseAborted s)
                else (None, True, finalize_mark h SlotCommitted (set_phase h PhasePostCommit s)))"

definition record_commit :: "txn_system \<Rightarrow> txn_system" where
  "record_commit s = s\<lparr>ts_committed := ts_committed s + 1\<rparr>"

definition record_abort :: "txn_system \<Rightarrow> txn_system" where
  "record_abort s = s\<lparr>ts_aborted := ts_aborted s + 1\<rparr>"

definition tx_commit :: "bool \<Rightarrow> wal_answers option \<Rightarrow> nat \<Rightarrow> txn_system \<Rightarrow> tx_error option \<times> txn_system" where
  "tx_commit ctx wal h s =
     (case commit_mark ctx wal h s of (e, release, s) \<Rightarrow>
        if \<not> release then (e, s)
        else let s = finalize_release h s in (e, if e = None then record_commit s else record_abort s))"

definition abort_mark :: "bool \<Rightarrow> nat \<Rightarrow> txn_system \<Rightarrow> tx_error option \<times> bool \<times> txn_system" where
  "abort_mark ctx h s =
     (if ctx then (Some CtxErr, False, s)
      else if tx_finished (ts_txs s ! h) then (None, False, s)
      else (None, True, finalize_mark h SlotAborted (set_phase h PhaseAborted s)))"

definition tx_abort :: "bool \<Rightarrow> nat \<Rightarrow> txn_system \<Rightarrow> tx_error option \<times> txn_system" where
  "tx_abort ctx h s =
     (case abort_mark ctx h s of (e, release, s) \<Rightarrow> (e, if release then record_abort (finalize_release h s) else s))"

text \<open>\<open>ForceAbortAll\<close>: the status of every active slot is overwritten and the slots are counted.\<close>

definition force_abort_all :: "txn_system \<Rightarrow> nat \<times> txn_system" where
  "force_abort_all s =
     (let slots = sm_slots (ts_sm s); k = length (filter (\<lambda>sl. sl_status sl = SlotActive) slots)
      in (k, s\<lparr>ts_sm := (ts_sm s)\<lparr>sm_slots := map (\<lambda>sl. if sl_status sl = SlotActive then sl\<lparr>sl_status := SlotAborted\<rparr> else sl) slots\<rparr>,
               ts_aborted := ts_aborted s + k\<rparr>))"

definition manager_close :: "txn_system \<Rightarrow> txn_system" where
  "manager_close s = s\<lparr>ts_closed := True\<rparr>"


subsection \<open>Steps\<close>

text \<open>
  Every interleaving of the calls of any number of goroutines: a call on a transaction holds its mutex,
  so calls on it do not overlap, and \<open>finalize\<close> lets other transactions in between its two halves.
\<close>

definition callable :: "txn_system \<Rightarrow> nat \<Rightarrow> bool" where
  "callable s h \<longleftrightarrow> h < length (ts_txs s) \<and> \<not> tx_marked (ts_txs s ! h)"

inductive txn_step :: "txn_system \<Rightarrow> txn_system \<Rightarrow> bool" where
  st_begin: "tx_begin ctx s = (r, s') \<Longrightarrow> txn_step s s'"
| st_get: "callable s h \<Longrightarrow> tx_get ctx h key s = (r', s') \<Longrightarrow> txn_step s s'"
| st_write: "callable s h \<Longrightarrow> tx_write ctx h key val del s = (e, s') \<Longrightarrow> txn_step s s'"
| st_commit: "callable s h \<Longrightarrow> commit_mark ctx wal h s = (e, b, s') \<Longrightarrow> txn_step s s'"
| st_abort: "callable s h \<Longrightarrow> abort_mark ctx h s = (e, b, s') \<Longrightarrow> txn_step s s'"
| st_release: "h < length (ts_txs s) \<Longrightarrow> tx_marked (ts_txs s ! h) \<Longrightarrow> txn_step s (finalize_release h s)"
| st_force: "txn_step s (snd (force_abort_all s))"
| st_close: "txn_step s (manager_close s)"

inductive_simps txn_step_simps: "txn_step s s'"

subsection \<open>Slots are neither lost nor shared\<close>

definition owned :: "tx list \<Rightarrow> nat list" where
  "owned ts = map tx_slot (filter (\<lambda>t. \<not> tx_finished t) ts)"

definition slots_ok :: "txn_system \<Rightarrow> bool" where
  "slots_ok s \<longleftrightarrow> length (sm_slots (ts_sm s)) = max_txns \<and>
     mset (sm_free (ts_sm s)) + mset (owned (ts_txs s)) = mset [0..<max_txns] \<and>
     (\<forall>t \<in> set (ts_txs s). tx_marked t \<longrightarrow> \<not> tx_finished t) \<and>
     (\<forall>sl \<in> set (sm_slots (ts_sm s)). sl_commit sl = 0)"

lemma owned_update_same:
  "tx_slot y = tx_slot (ts ! h) \<Longrightarrow> tx_finished y = tx_finished (ts ! h) \<Longrightarrow> owned (ts[h := y]) = owned ts"
proof (induction ts arbitrary: h)
  case (Cons t ts)
  then show ?case by (cases h) (auto simp: owned_def)
qed simp

lemma owned_finish:
  "h < length ts \<Longrightarrow> \<not> tx_finished (ts ! h) \<Longrightarrow> tx_finished y \<Longrightarrow>
   add_mset (tx_slot (ts ! h)) (mset (owned (ts[h := y]))) = mset (owned ts)"
proof (induction ts arbitrary: h)
  case (Cons t ts)
  then show ?case by (cases h) (auto simp: owned_def)
qed simp

lemma set_update_mem: "x \<in> set (xs[i := y]) \<Longrightarrow> x \<in> set xs \<or> x = y"
  using set_update_subset_insert by fast

lemma nth_tx_mem: "h < length ts \<Longrightarrow> ts ! h \<in> set ts"
  by simp

lemma owned_slot_less:
  assumes "slots_ok s" and "h < length (ts_txs s)" and "\<not> tx_finished (ts_txs s ! h)"
  shows "tx_slot (ts_txs s ! h) < max_txns"
proof -
  have "tx_slot (ts_txs s ! h) \<in># mset (owned (ts_txs s))"
    using assms(2,3) by (auto simp: owned_def)
  then have "tx_slot (ts_txs s ! h) \<in># mset [0..<max_txns]"
    using assms(1) unfolding slots_ok_def by (metis union_iff)
  then show ?thesis by simp
qed

text \<open>An update of a slot that leaves its commit timestamp at zero, and of a transaction's bookkeeping.\<close>

lemma slots_ok_slot:
  assumes "slots_ok s" and "\<And>sl. sl_commit sl = 0 \<Longrightarrow> sl_commit (f sl) = 0" and "i < max_txns"
  shows "slots_ok (s\<lparr>ts_sm := update_slot i f (ts_sm s)\<rparr>)"
proof -
  have "sm_slots (ts_sm s) ! i \<in> set (sm_slots (ts_sm s))" using assms(1,3) by (simp add: slots_ok_def)
  then show ?thesis
    using assms by (auto simp: slots_ok_def update_slot_def dest!: set_update_mem)
qed

lemma slots_ok_tx:
  assumes "slots_ok s" and "h < length (ts_txs s)" and "tx_slot (f (ts_txs s ! h)) = tx_slot (ts_txs s ! h)"
    and "tx_finished (f (ts_txs s ! h)) = tx_finished (ts_txs s ! h)"
    and "tx_marked (f (ts_txs s ! h)) \<Longrightarrow> \<not> tx_finished (ts_txs s ! h)"
  shows "slots_ok (update_tx h f s)"
  using assms by (auto simp: slots_ok_def update_tx_def owned_update_same dest!: set_update_mem)

lemma slots_ok_other:
  "slots_ok s \<Longrightarrow> ts_sm s' = ts_sm s \<Longrightarrow> ts_txs s' = ts_txs s \<Longrightarrow> slots_ok s'"
  by (simp add: slots_ok_def)

lemma slots_ok_phase: "slots_ok s \<Longrightarrow> h < length (ts_txs s) \<Longrightarrow> slots_ok (set_phase h p s)"
  unfolding set_phase_def by (rule slots_ok_tx) (auto simp: slots_ok_def)

lemma set_phase_frame [simp]:
  "ts_sm (set_phase h p s) = ts_sm s" "ts_mv (set_phase h p s) = ts_mv s" "ts_counter (set_phase h p s) = ts_counter s"
  "length (ts_txs (set_phase h p s)) = length (ts_txs s)"
  "h < length (ts_txs s) \<Longrightarrow> tx_slot (ts_txs (set_phase h p s) ! h) = tx_slot (ts_txs s ! h)"
  "h < length (ts_txs s) \<Longrightarrow> tx_finished (ts_txs (set_phase h p s) ! h) = tx_finished (ts_txs s ! h)"
  by (simp_all add: set_phase_def update_tx_def)

lemma free_less: "slots_ok s \<Longrightarrow> i \<in> set (sm_free (ts_sm s)) \<Longrightarrow> i < max_txns"
proof -
  assume ok: "slots_ok s" and i: "i \<in> set (sm_free (ts_sm s))"
  then have "i \<in># mset (sm_free (ts_sm s)) + mset (owned (ts_txs s))" by simp
  then have "i \<in># mset [0..<max_txns]" using ok unfolding slots_ok_def by metis
  then show ?thesis by simp
qed

lemma mset_butlast: "xs \<noteq> [] \<Longrightarrow> add_mset (last xs) (mset (butlast xs)) = mset xs"
  by (induction xs) auto

text \<open>The state after a successful \<open>Begin\<close> that took slot \<open>i\<close>.\<close>

definition begun :: "nat \<Rightarrow> txn_system \<Rightarrow> txn_system" where
  "begun i s = s\<lparr>ts_counter := ts_counter s + 1,
     ts_sm := (ts_sm s)\<lparr>sm_free := butlast (sm_free (ts_sm s)),
       sm_slots := (sm_slots (ts_sm s))[i := \<lparr>sl_txn = ts_counter s + 1, sl_status = SlotActive, sl_begin = ts_counter s + 1,
         sl_commit = 0, sl_writes = [], sl_arena = True\<rparr>]\<rparr>,
     ts_txs := ts_txs s @ [\<lparr>tx_slot = i, tx_finished = False, tx_phase = PhaseBegin, tx_marked = False\<rparr>]\<rparr>"

lemma begin_cases:
  assumes ok: "slots_ok s" and b: "tx_begin ctx s = (r, s')"
  shows "(s' = s \<and> (\<exists>e. r = Inl e)) \<or>
    (\<exists>i. i = last (sm_free (ts_sm s)) \<and> sm_free (ts_sm s) \<noteq> [] \<and> r = Inr (length (ts_txs s)) \<and> s' = begun i s)"
proof (cases "ctx \<or> ts_closed s \<or> sm_free (ts_sm s) = []")
  case True
  then show ?thesis using b by (auto simp: tx_begin_def allocate_slot_def split: if_splits)
next
  case False
  have "last (sm_free (ts_sm s)) < length (sm_slots (ts_sm s))"
    using free_less [OF ok, of "last (sm_free (ts_sm s))"] False ok by (simp add: slots_ok_def)
  then show ?thesis
    using b False by (auto simp: tx_begin_def allocate_slot_def next_ts_def update_slot_def begun_def blank_slot_def Let_def)
qed

lemma begun_ok:
  assumes ok: "slots_ok s" and ne: "sm_free (ts_sm s) \<noteq> []"
  shows "slots_ok (begun (last (sm_free (ts_sm s))) s)"
proof -
  have "mset (butlast (sm_free (ts_sm s))) + mset (owned (ts_txs s @ [\<lparr>tx_slot = last (sm_free (ts_sm s)), tx_finished = False,
      tx_phase = PhaseBegin, tx_marked = False\<rparr>])) = mset (sm_free (ts_sm s)) + mset (owned (ts_txs s))"
    unfolding mset_butlast [OF ne, symmetric] by (simp add: owned_def)
  then show ?thesis
    using ok by (auto simp: slots_ok_def begun_def dest!: set_update_mem)
qed

lemma begin_ok: "slots_ok s \<Longrightarrow> tx_begin ctx s = (r, s') \<Longrightarrow> slots_ok s'"
  using begin_cases begun_ok by metis

lemma finalize_mark_ok:
  assumes "slots_ok s" and "h < length (ts_txs s)" and "\<not> tx_finished (ts_txs s ! h)"
  shows "slots_ok (finalize_mark h st s)"
  unfolding finalize_mark_def
  by (rule slots_ok_tx [OF slots_ok_slot [OF assms(1)]]) (use assms owned_slot_less [OF assms] in auto)

lemma finalize_release_ok:
  assumes ok: "slots_ok s" and h: "h < length (ts_txs s)" and nf: "\<not> tx_finished (ts_txs s ! h)"
  shows "slots_ok (finalize_release h s)"
proof -
  have lt: "tx_slot (ts_txs s ! h) < max_txns" using owned_slot_less [OF ok h nf] .
  let ?y = "(ts_txs s ! h)\<lparr>tx_marked := False, tx_finished := True\<rparr>"
  have "add_mset (tx_slot (ts_txs s ! h)) (mset (owned ((ts_txs s)[h := ?y]))) = mset (owned (ts_txs s))"
    by (rule owned_finish [OF h nf]) simp
  then have "mset (sm_free (ts_sm s) @ [tx_slot (ts_txs s ! h)]) + mset (owned ((ts_txs s)[h := ?y])) =
      mset (sm_free (ts_sm s)) + mset (owned (ts_txs s))"
    by (simp flip: \<open>add_mset (tx_slot (ts_txs s ! h)) (mset (owned ((ts_txs s)[h := ?y]))) = mset (owned (ts_txs s))\<close>)
  then have "mset (sm_free (ts_sm s) @ [tx_slot (ts_txs s ! h)]) + mset (owned ((ts_txs s)[h := ?y])) = mset [0..<max_txns]"
    using ok by (simp only: slots_ok_def)
  then show ?thesis
    using ok lt by (auto simp: slots_ok_def finalize_release_def update_tx_def release_slot_def blank_slot_def dest!: set_update_mem)
qed

lemma get_ok: "slots_ok s \<Longrightarrow> h < length (ts_txs s) \<Longrightarrow> tx_get ctx h key s = (r, s') \<Longrightarrow> slots_ok s'"
  by (auto simp: tx_get_def Let_def slots_ok_phase split: if_splits option.splits)

lemma write_ok:
  assumes "slots_ok s" and "h < length (ts_txs s)" and w: "tx_write ctx h key val del s = (e, s')"
  shows "slots_ok s'"
proof (cases "ctx \<or> tx_finished (ts_txs s ! h)")
  case True
  then show ?thesis using assms by (auto simp: tx_write_def split: if_splits)
next
  case False
  let ?s = "set_phase h PhaseWrite s"
  let ?f = "\<lambda>sl :: txn_slot. sl\<lparr>sl_writes := sl_writes sl @ [\<lparr>kr_start = key, kr_end = []\<rparr>]\<rparr>"
  have "slots_ok (?s\<lparr>ts_sm := update_slot (tx_slot (ts_txs ?s ! h)) ?f (ts_sm ?s)\<rparr>)"
    by (rule slots_ok_slot [OF slots_ok_phase]) (use assms False owned_slot_less [of s h] in auto)
  then show ?thesis
    by (rule slots_ok_other) (use w False in \<open>auto simp: tx_write_def Let_def\<close>)
qed

lemma finalize_phase_ok:
  "slots_ok s \<Longrightarrow> h < length (ts_txs s) \<Longrightarrow> \<not> tx_finished (ts_txs s ! h) \<Longrightarrow> slots_ok (finalize_mark h st (set_phase h p s))"
  by (rule finalize_mark_ok [OF slots_ok_phase]) simp_all

text \<open>The state of a commit that passed validation, before the log is written.\<close>

definition committing :: "nat \<Rightarrow> txn_system \<Rightarrow> txn_system" where
  "committing h s =
     (let s = set_phase h PhaseCommit (snd (next_ts (set_phase h PhasePreCommit s)))
      in s\<lparr>ts_mv := fold (mv_commit_first (sl_txn (slot_of s h)) (ts_counter s)) (map kr_start (sl_writes (slot_of s h))) (ts_mv s)\<rparr>)"

lemma commit_mark_cases:
  assumes "commit_mark ctx wal h s = (e, b, s')" and "\<not> ctx" and "\<not> tx_finished (ts_txs s ! h)" and "h < length (ts_txs s)"
  shows "(\<not> validate (tx_slot (ts_txs s ! h)) (ts_sm s) \<and> e = Some ErrWriteConflict \<and> b \<and>
           s' = finalize_mark h SlotAborted (set_phase h PhaseAborted (set_phase h PhasePreCommit s))) \<or>
    (validate (tx_slot (ts_txs s ! h)) (ts_sm s) \<and> e = Some ErrWal \<and> \<not> b \<and> wal \<noteq> None \<and> s' = set_phase h PhaseAborted (committing h s)) \<or>
    (validate (tx_slot (ts_txs s ! h)) (ts_sm s) \<and> e = None \<and> b \<and>
           s' = finalize_mark h SlotCommitted (set_phase h PhasePostCommit (committing h s)))"
  using assms by (auto simp: commit_mark_def next_ts_def committing_def Let_def split: if_splits option.splits)

lemma committing_ok:
  assumes "slots_ok s" and "h < length (ts_txs s)"
  shows "slots_ok (committing h s)" and "length (ts_txs (committing h s)) = length (ts_txs s)"
    and "tx_finished (ts_txs (committing h s) ! h) = tx_finished (ts_txs s ! h)"
proof -
  let ?s2 = "snd (next_ts (set_phase h PhasePreCommit s))"
  have "slots_ok ?s2"
    by (rule slots_ok_other [OF slots_ok_phase [OF assms]]) (simp_all add: next_ts_def)
  then have "slots_ok (set_phase h PhaseCommit ?s2)"
    by (rule slots_ok_phase) (use assms(2) in \<open>simp add: next_ts_def\<close>)
  then show "slots_ok (committing h s)"
    by (rule slots_ok_other) (simp_all add: committing_def Let_def)
  show "length (ts_txs (committing h s)) = length (ts_txs s)"
    "tx_finished (ts_txs (committing h s) ! h) = tx_finished (ts_txs s ! h)"
    using assms(2) by (simp_all add: committing_def Let_def next_ts_def set_phase_def update_tx_def)
qed

lemma commit_mark_ok:
  assumes ok: "slots_ok s" and h: "h < length (ts_txs s)" and c: "commit_mark ctx wal h s = (e, b, s')"
  shows "slots_ok s'"
proof (cases "ctx \<or> tx_finished (ts_txs s ! h)")
  case True
  then show ?thesis using assms by (auto simp: commit_mark_def split: if_splits)
next
  case False
  note co = committing_ok [OF ok h]
  have "slots_ok (finalize_mark h SlotAborted (set_phase h PhaseAborted (set_phase h PhasePreCommit s)))"
    by (rule finalize_phase_ok [OF slots_ok_phase [OF ok h]]) (use h False in simp_all)
  moreover have "slots_ok (set_phase h PhaseAborted (committing h s))"
    by (rule slots_ok_phase [OF co(1)]) (use h co in simp)
  moreover have "slots_ok (finalize_mark h SlotCommitted (set_phase h PhasePostCommit (committing h s)))"
    by (rule finalize_phase_ok [OF co(1)]) (use h co False in simp_all)
  ultimately show ?thesis
    using commit_mark_cases [OF c] False h by blast
qed

lemma abort_mark_ok:
  "slots_ok s \<Longrightarrow> h < length (ts_txs s) \<Longrightarrow> abort_mark ctx h s = (e, b, s') \<Longrightarrow> slots_ok s'"
  by (auto simp: abort_mark_def finalize_phase_ok split: if_splits)

lemma force_abort_ok: "slots_ok s \<Longrightarrow> slots_ok (snd (force_abort_all s))"
  by (auto simp: slots_ok_def force_abort_all_def Let_def)

lemma marked_unfinished: "slots_ok s \<Longrightarrow> h < length (ts_txs s) \<Longrightarrow> tx_marked (ts_txs s ! h) \<Longrightarrow> \<not> tx_finished (ts_txs s ! h)"
  by (simp add: slots_ok_def)

lemma txn_step_ok: "txn_step s s' \<Longrightarrow> slots_ok s \<Longrightarrow> slots_ok s'"
proof (induction rule: txn_step.induct)
  case (st_close s)
  then show ?case by (rule slots_ok_other) (simp_all add: manager_close_def)
next
  case (st_release h s)
  show ?case by (rule finalize_release_ok [OF st_release(3,1) marked_unfinished [OF st_release(3,1,2)]])
qed (auto simp: callable_def intro: begin_ok get_ok write_ok commit_mark_ok abort_mark_ok force_abort_ok)

lemma new_manager_ok: "slots_ok new_manager"
  by (simp add: slots_ok_def new_manager_def new_slot_manager_def owned_def blank_slot_def)

lemma reachable_slots_ok: "txn_step\<^sup>*\<^sup>* new_manager s \<Longrightarrow> slots_ok s"
  by (induction rule: rtranclp_induct) (auto intro: new_manager_ok txn_step_ok)

subsection \<open>Validation never finds a conflict\<close>

text \<open>No code sets \<open>commitTS\<close> of a slot, and a slot with a zero commit timestamp never conflicts.\<close>

lemma validate_true: "slots_ok s \<Longrightarrow> validate i (ts_sm s)"
  by (auto simp: validate_def list_ex_iff conflicts_with_def slots_ok_def)


subsection \<open>What a write and a commit do to the chains\<close>

lemma commit_first_idem: "commit_first txn ts (commit_first txn ts c) = commit_first txn ts c"
proof (induction c)
  case (Cons n c)
  show ?case
  proof (cases "vn_txn n = txn")
    case True
    have "snd (node_commit ts (snd (node_commit ts n))) = snd (node_commit ts n)" "vn_txn (snd (node_commit ts n)) = vn_txn n"
      by (auto simp: node_commit_def)
    then show ?thesis using True by simp
  qed (use Cons in simp)
qed simp

lemma mv_commit_first_apply: "mv_commit_first txn ts k m k' = (if k' = k then map_option (commit_first txn ts) (m k') else m k')"
  by (auto simp: mv_commit_first_def split: option.split)

lemma commit_keys:
  "fold (mv_commit_first txn ts) keys m k = (if k \<in> set keys then map_option (commit_first txn ts) (m k) else m k)"
  by (induction keys arbitrary: m)
    (auto simp: mv_commit_first_apply option.map_comp comp_def commit_first_idem)

lemma write_effect:
  assumes "\<not> tx_finished (ts_txs s ! h)" and "h < length (ts_txs s)" and "tx_slot (ts_txs s ! h) < length (sm_slots (ts_sm s))"
    and "tx_write False h key val del s = (e, s')"
  shows "e = None" and "ts_mv s' = mv_insert key (new_version_node (sl_txn (slot_of s h)) (sl_begin (slot_of s h)) key val del) (ts_mv s)"
    and "slot_of s' h = (slot_of s h)\<lparr>sl_writes := sl_writes (slot_of s h) @ [\<lparr>kr_start = key, kr_end = []\<rparr>]\<rparr>"
    and "ts_txs s' = ts_txs (set_phase h PhaseWrite s)" and "ts_counter s' = ts_counter s" and "ts_closed s' = ts_closed s"
    and "sm_free (ts_sm s') = sm_free (ts_sm s)"
  using assms by (auto simp: tx_write_def Let_def slot_of_def update_slot_def set_phase_def update_tx_def)

lemma own_write_found: "find_own txn b (mv_get_or_create (mv_insert key (new_version_node txn b key val del) m) key)
    = Some (new_version_node txn b key val del)"
  by (simp add: mv_insert_def mv_get_or_create_def chain_insert_def new_version_node_def)

lemma read_own_write:
  assumes ok: "slots_ok s" and h: "h < length (ts_txs s)" and w: "tx_write False h key val del s = (None, s')"
  shows "fst (tx_get False h key s') = Inr (if del then None else Some val)"
proof -
  have nf: "\<not> tx_finished (ts_txs s ! h)" using w by (auto simp: tx_write_def split: if_splits)
  have "tx_slot (ts_txs s ! h) < length (sm_slots (ts_sm s))"
    using owned_slot_less [OF ok h nf] ok by (simp add: slots_ok_def)
  note e = write_effect [OF nf h this w]
  have nf': "\<not> tx_finished (ts_txs s' ! h)" using e(4) h nf by simp
  have ph: "tx_phase (ts_txs s' ! h) = PhaseWrite" using e(4) h by (simp add: set_phase_def update_tx_def)
  have sl: "sl_txn (slot_of s' h) = sl_txn (slot_of s h)" "sl_begin (slot_of s' h) = sl_begin (slot_of s h)"
    using e(3) by simp_all
  have "find_own (sl_txn (slot_of s' h)) (sl_begin (slot_of s' h)) (mv_get_or_create (ts_mv s') key) =
      Some (new_version_node (sl_txn (slot_of s h)) (sl_begin (slot_of s h)) key val del)"
    unfolding sl e(2) by (rule own_write_found)
  then show ?thesis
    using nf' ph by (simp add: tx_get_def live_value_def new_version_node_def)
qed

subsection \<open>A write, its commit, and the reader after it\<close>

lemma begun_fields [simp]:
  "ts_mv (begun i s) = ts_mv s" "ts_counter (begun i s) = ts_counter s + 1" "length (ts_txs (begun i s)) = Suc (length (ts_txs s))"
  "ts_txs (begun i s) ! length (ts_txs s) = \<lparr>tx_slot = i, tx_finished = False, tx_phase = PhaseBegin, tx_marked = False\<rparr>"
  by (simp_all add: begun_def nth_append)

lemma begin_Inr:
  assumes ok: "slots_ok s" and b: "tx_begin ctx s = (Inr h, s')"
  shows "h = length (ts_txs s)" and "slots_ok s'" and "ts_mv s' = ts_mv s" and "ts_counter s' = ts_counter s + 1"
    and "h < length (ts_txs s')" and "\<not> tx_finished (ts_txs s' ! h)" and "tx_phase (ts_txs s' ! h) = PhaseBegin"
    and "sl_txn (slot_of s' h) = ts_counter s + 1" and "sl_begin (slot_of s' h) = ts_counter s + 1" and "sl_writes (slot_of s' h) = []"
    and "callable s' h"
proof -
  let ?i = "last (sm_free (ts_sm s))"
  have c: "sm_free (ts_sm s) \<noteq> []" "h = length (ts_txs s)" "s' = begun ?i s"
    using begin_cases [OF ok b] by auto
  have "?i < max_txns" using free_less [OF ok] c(1) by simp
  then have i: "?i < length (sm_slots (ts_sm s))" using ok by (simp add: slots_ok_def)
  have "slot_of s' h = \<lparr>sl_txn = ts_counter s + 1, sl_status = SlotActive, sl_begin = ts_counter s + 1,
         sl_commit = 0, sl_writes = [], sl_arena = True\<rparr>"
    using i c by (simp add: slot_of_def begun_def)
  then show "h = length (ts_txs s)" "slots_ok s'" "ts_mv s' = ts_mv s" "ts_counter s' = ts_counter s + 1"
    "h < length (ts_txs s')" "\<not> tx_finished (ts_txs s' ! h)" "tx_phase (ts_txs s' ! h) = PhaseBegin"
    "sl_txn (slot_of s' h) = ts_counter s + 1" "sl_begin (slot_of s' h) = ts_counter s + 1" "sl_writes (slot_of s' h) = []" "callable s' h"
    using c begun_ok [OF ok c(1)] by (simp_all add: callable_def)
qed

lemma get_fresh_reader:
  assumes "\<not> tx_finished (ts_txs s ! g)" and "find_own (sl_txn (slot_of s g)) (sl_begin (slot_of s g)) (mv_get_or_create (ts_mv s) key) = None"
    and "g < length (ts_txs s)"
  shows "fst (tx_get False g key s) = Inr (live_value (mv_find_visible (ts_mv s) key (sl_begin (slot_of s g))))"
  using assms by (auto simp: tx_get_def Let_def slot_of_def split: option.splits)

lemma commit_effect:
  assumes ok: "slots_ok s" and h: "h < length (ts_txs s)" and c: "tx_commit False wal h s = (None, s')"
  shows "slots_ok s'" and "ts_counter s' = ts_counter s + 1"
    and "ts_mv s' k = (if k \<in> set (map kr_start (sl_writes (slot_of s h)))
           then map_option (commit_first (sl_txn (slot_of s h)) (ts_counter s + 1)) (ts_mv s k) else ts_mv s k)"
    and "tx_finished (ts_txs s' ! h)" and "length (ts_txs s') = length (ts_txs s)"
    and "ts_closed s' = ts_closed s" and "sm_free (ts_sm s') \<noteq> []"
proof -
  obtain e b s1 where m: "commit_mark False wal h s = (e, b, s1)" by (cases "commit_mark False wal h s")
  have nf: "\<not> tx_finished (ts_txs s ! h)"
    using c m by (auto simp: tx_commit_def commit_mark_def split: if_splits)
  have eb: "e = None" using c m by (auto simp: tx_commit_def Let_def split: if_splits)
  then have s1: "b" "s1 = finalize_mark h SlotCommitted (set_phase h PhasePostCommit (committing h s))"
    using commit_mark_cases [OF m _ nf h] by auto
  have s': "s' = record_commit (finalize_release h s1)" using c m eb s1(1) by (simp add: tx_commit_def Let_def)
  have h1: "h < length (ts_txs s1)" using s1(2) committing_ok(2) [OF ok h] h by (simp add: finalize_mark_def update_tx_def)
  have nf1: "\<not> tx_finished (ts_txs s1 ! h)"
    using s1(2) committing_ok(2,3) [OF ok h] h nf by (simp add: finalize_mark_def update_tx_def)
  have "slots_ok (finalize_release h s1)"
    by (rule finalize_release_ok [OF commit_mark_ok [OF ok h m] h1 nf1])
  then show "slots_ok s'" by (rule slots_ok_other) (simp_all add: s' record_commit_def)
  show "ts_counter s' = ts_counter s + 1"
    by (simp add: s' s1(2) record_commit_def finalize_release_def finalize_mark_def update_tx_def committing_def next_ts_def Let_def)
  have "ts_mv s' = ts_mv (committing h s)"
    by (simp add: s' s1(2) record_commit_def finalize_release_def finalize_mark_def update_tx_def)
  also have "\<dots> = fold (mv_commit_first (sl_txn (slot_of s h)) (ts_counter s + 1)) (map kr_start (sl_writes (slot_of s h))) (ts_mv s)"
    using h by (simp add: committing_def next_ts_def Let_def slot_of_def set_phase_def update_tx_def)
  finally show "ts_mv s' k = (if k \<in> set (map kr_start (sl_writes (slot_of s h)))
           then map_option (commit_first (sl_txn (slot_of s h)) (ts_counter s + 1)) (ts_mv s k) else ts_mv s k)"
    by (simp only: commit_keys)
  show "tx_finished (ts_txs s' ! h)" "length (ts_txs s') = length (ts_txs s)"
    using h1 committing_ok(2) [OF ok h] by (simp_all add: s' s1(2) record_commit_def finalize_release_def finalize_mark_def update_tx_def)
  have "tx_slot (ts_txs s1 ! h) < max_txns" using owned_slot_less [OF commit_mark_ok [OF ok h m] h1 nf1] .
  then show "sm_free (ts_sm s') \<noteq> []" by (simp add: s' record_commit_def finalize_release_def update_tx_def release_slot_def)
  show "ts_closed s' = ts_closed s"
    by (simp add: s' s1(2) record_commit_def finalize_release_def finalize_mark_def update_tx_def committing_def next_ts_def set_phase_def Let_def)
qed


lemma abort_effect:
  assumes ok: "slots_ok s" and h: "h < length (ts_txs s)" and a: "tx_abort False h s = (None, s')"
  shows "slots_ok s'" and "ts_counter s' = ts_counter s" and "ts_mv s' = ts_mv s"
proof -
  obtain e b s1 where m: "abort_mark False h s = (e, b, s1)" by (cases "abort_mark False h s")
  have "slots_ok s' \<and> ts_counter s' = ts_counter s \<and> ts_mv s' = ts_mv s"
  proof (cases "tx_finished (ts_txs s ! h)")
    case True
    then show ?thesis using a ok by (auto simp: tx_abort_def abort_mark_def)
  next
    case False
    then have s1: "b" "s1 = finalize_mark h SlotAborted (set_phase h PhaseAborted s)" using m by (auto simp: abort_mark_def)
    have s': "s' = record_abort (finalize_release h s1)" using a m s1(1) by (simp add: tx_abort_def)
    have h1: "h < length (ts_txs s1)" using s1(2) h by (simp add: finalize_mark_def update_tx_def)
    have nf1: "\<not> tx_finished (ts_txs s1 ! h)" using s1(2) h False by (simp add: finalize_mark_def update_tx_def)
    have "slots_ok (finalize_release h s1)"
      by (rule finalize_release_ok [OF abort_mark_ok [OF ok h m] h1 nf1])
    then have "slots_ok s'" by (rule slots_ok_other) (simp_all add: s' record_abort_def)
    then show ?thesis
      by (simp add: s' s1(2) record_abort_def finalize_release_def finalize_mark_def update_tx_def)
  qed
  then show "slots_ok s'" "ts_counter s' = ts_counter s" "ts_mv s' = ts_mv s" by simp_all
qed

text \<open>A reader begun at \<open>c\<close> over a key with the single version \<open>n\<close>.\<close>

lemma reader_of_one:
  assumes ok: "slots_ok s" and b: "tx_begin False s = (Inr g, s')" and m: "ts_mv s key = Some [n]" and n: "vn_txn n \<noteq> ts_counter s + 1"
  shows "fst (tx_get False g key s') = Inr (live_value (if is_visible (ts_counter s + 1) n then Some n else None))"
proof -
  note g = begin_Inr [OF ok b]
  have ch: "ts_mv s' key = Some [n]" using g(3) m by simp
  have "find_own (sl_txn (slot_of s' g)) (sl_begin (slot_of s' g)) (mv_get_or_create (ts_mv s') key) = None"
    using ch n g(8) by (simp add: mv_get_or_create_def)
  from get_fresh_reader [OF g(6) this g(5)] show ?thesis
    using ch g(9) by (simp add: mv_find_visible_def mv_get_chain_def)
qed

text \<open>A transaction that writes a key nobody has written.\<close>

lemma first_write:
  assumes ok: "slots_ok s" and b: "tx_begin False s = (Inr h, s0)" and w: "tx_insert False h key val s0 = (None, s1)"
    and fresh: "ts_mv s key = None"
  shows "slots_ok s1" and "ts_counter s1 = ts_counter s + 1" and "h < length (ts_txs s1)"
    and "ts_mv s1 key = Some [new_version_node (ts_counter s + 1) (ts_counter s + 1) key val False]"
    and "sl_txn (slot_of s1 h) = ts_counter s + 1" and "map kr_start (sl_writes (slot_of s1 h)) = [key]"
    and "\<not> tx_finished (ts_txs s1 ! h)"
proof -
  note g = begin_Inr [OF ok b]
  have w': "tx_write False h key val False s0 = (None, s1)" using w by (simp add: tx_insert_def)
  have sl: "tx_slot (ts_txs s0 ! h) < length (sm_slots (ts_sm s0))"
    using owned_slot_less [OF g(2,5,6)] g(2) by (simp add: slots_ok_def)
  note e = write_effect [OF g(6,5) sl w']
  show "slots_ok s1" using write_ok [OF g(2,5) w'] .
  show "ts_counter s1 = ts_counter s + 1" using e(5) g(4) by simp
  show "h < length (ts_txs s1)" "\<not> tx_finished (ts_txs s1 ! h)" using e(4) g(5,6) by simp_all
  show "ts_mv s1 key = Some [new_version_node (ts_counter s + 1) (ts_counter s + 1) key val False]"
    using e(2) g(3,8,9) fresh by (simp add: mv_insert_def mv_get_or_create_def chain_insert_def)
  show "sl_txn (slot_of s1 h) = ts_counter s + 1" "map kr_start (sl_writes (slot_of s1 h)) = [key]"
    using e(3) g(8,10) by simp_all
qed

lemma no_wrap:
  "unat (c :: u64) + 3 < 2 ^ 64 \<Longrightarrow> c + 1 < c + 2 \<and> c + 2 < c + 3 \<and> c + 1 < c + 3 \<and> c + 3 \<le> max_u64"
  by (simp add: word_less_nat_alt unat_word_ariths)

subsection \<open>Properties\<close>

text \<open>
  C14. Slots are neither lost nor shared: in every state that any interleaving of calls reaches, the free
  list and the slots of the unfinished transactions together are the 1024 slots, each exactly once.
\<close>

theorem txn_slots_partition:
  assumes "txn_step\<^sup>*\<^sup>* new_manager s"
  shows "distinct (sm_free (ts_sm s) @ owned (ts_txs s)) \<and> set (sm_free (ts_sm s) @ owned (ts_txs s)) = {0..<max_txns}"
proof -
  have e: "mset (sm_free (ts_sm s) @ owned (ts_txs s)) = mset [0..<max_txns]"
    using reachable_slots_ok [OF assms] by (simp add: slots_ok_def)
  show ?thesis using mset_eq_imp_distinct_iff [OF e] mset_eq_setD [OF e] by simp
qed

lemma new_manager_fields [simp]:
  "ts_mv new_manager = Map.empty" "ts_counter new_manager = 0" "ts_closed new_manager = False" "ts_txs new_manager = []"
  "sm_free (ts_sm new_manager) \<noteq> []"
  by (simp_all add: new_manager_def new_slot_manager_def max_txns_def)

lemma begin_exists: "sm_free (ts_sm s) \<noteq> [] \<Longrightarrow> \<not> ts_closed s \<Longrightarrow> \<exists>h s'. tx_begin False s = (Inr h, s')"
  by (auto simp: tx_begin_def allocate_slot_def next_ts_def Let_def)

theorem txn_slots_partition_witness:
  "\<exists>s h. txn_step\<^sup>*\<^sup>* new_manager s \<and> tx_begin False new_manager = (Inr h, s) \<and>
     distinct (sm_free (ts_sm s) @ owned (ts_txs s)) \<and> set (sm_free (ts_sm s) @ owned (ts_txs s)) = {0..<max_txns}"
proof -
  obtain h s where b: "tx_begin False new_manager = (Inr h, s)" using begin_exists [of new_manager] by auto
  have "txn_step\<^sup>*\<^sup>* new_manager s" using st_begin [OF b] by blast
  then show ?thesis using b txn_slots_partition by blast
qed

text \<open>
  C17. A transaction reads its own writes: after an \<open>Insert\<close> it gets the value back, after a \<open>Delete\<close>
  nothing, whatever the chain held and whoever wrote to it before.
\<close>

theorem txn_reads_own_writes:
  assumes "txn_step\<^sup>*\<^sup>* new_manager s" and "h < length (ts_txs s)" and "tx_write False h key val del s = (None, s')"
  shows "fst (tx_get False h key s') = Inr (if del then None else Some val)"
  using read_own_write [OF reachable_slots_ok [OF assms(1)] assms(2,3)] .

theorem txn_reads_own_writes_witness:
  "\<exists>s h s'. tx_begin False new_manager = (Inr h, s) \<and> tx_write False h [1] [2] False s = (None, s') \<and>
     fst (tx_get False h [1] s') = Inr (Some [2])"
proof -
  obtain h s where b: "tx_begin False new_manager = (Inr h, s)" using begin_exists [of new_manager] by auto
  note g = begin_Inr [OF new_manager_ok b]
  obtain s' where w: "tx_write False h [1] [2] False s = (None, s')" using g(6) by (auto simp: tx_write_def Let_def)
  have "txn_step\<^sup>*\<^sup>* new_manager s" using st_begin [OF b] by blast
  from txn_reads_own_writes [OF this g(5) w] b w show ?thesis by auto
qed

text \<open>
  \<open>Commit\<close> marks exactly what it should in memory: a commit that returns nil takes the next timestamp, stamps
  with it the newest version the transaction owns under each key it wrote, leaves every other chain
  alone, and finishes the transaction.
\<close>

theorem commit_stamps_newest_versions:
  assumes "txn_step\<^sup>*\<^sup>* new_manager s" and "h < length (ts_txs s)" and "tx_commit False wal h s = (None, s')"
  shows "ts_counter s' = ts_counter s + 1 \<and> tx_finished (ts_txs s' ! h) \<and>
    (\<forall>k. ts_mv s' k = (if k \<in> set (map kr_start (sl_writes (slot_of s h)))
       then map_option (commit_first (sl_txn (slot_of s h)) (ts_counter s + 1)) (ts_mv s k) else ts_mv s k))"
  using commit_effect [OF reachable_slots_ok [OF assms(1)] assms(2,3)] by blast

lemma commit_exists:
  assumes "slots_ok s" and "h < length (ts_txs s)" and "\<not> tx_finished (ts_txs s ! h)"
  shows "\<exists>s'. tx_commit False None h s = (None, s')"
proof -
  obtain e b s1 where m: "commit_mark False None h s = (e, b, s1)" by (cases "commit_mark False None h s")
  show ?thesis
    using commit_mark_cases [OF m _ assms(3,2)] validate_true [OF assms(1)] m by (auto simp: tx_commit_def Let_def)
qed

theorem commit_stamps_newest_versions_witness:
  "\<exists>s h s1 s2. tx_begin False new_manager = (Inr h, s) \<and> tx_insert False h [1] [2] s = (None, s1) \<and>
     tx_commit False None h s1 = (None, s2) \<and> ts_mv s2 [1] = Some [(new_version_node 1 1 [1] [2] False)\<lparr>vn_end := 2\<rparr>]"
proof -
  obtain h s where b: "tx_begin False new_manager = (Inr h, s)" using begin_exists [of new_manager] by auto
  note g = begin_Inr [OF new_manager_ok b]
  obtain s1 where w: "tx_insert False h [1] [2] s = (None, s1)" using g(6) by (auto simp: tx_insert_def tx_write_def Let_def)
  note f = first_write [OF new_manager_ok b w]
  obtain s2 where c: "tx_commit False None h s1 = (None, s2)" using commit_exists [OF f(1,3,7)] by auto
  have "txn_step s s1"
    using g(11) w by (intro st_write [of s h False "[1]" "[2]" False None]) (auto simp: tx_insert_def)
  then have "txn_step\<^sup>*\<^sup>* new_manager s1" using st_begin [OF b] by (meson rtranclp.rtrancl_into_rtrancl rtranclp.rtrancl_refl)
  from commit_stamps_newest_versions [OF this f(3) c]
  have "ts_mv s2 [1] = Some [(new_version_node 1 1 [1] [2] False)\<lparr>vn_end := 2\<rparr>]"
    using f(2,4,5,6) by (simp add: new_version_node_def node_commit_def)
  then show ?thesis using b w c by blast
qed

text \<open>
  C38. Write-write conflicts are never detected: no reachable state and no interleaving makes \<open>Commit\<close>
  return \<open>ErrWriteConflict\<close>, because no code stores a commit timestamp in a slot.
\<close>

theorem write_conflict_never_detected:
  assumes "txn_step\<^sup>*\<^sup>* new_manager s" and "h < length (ts_txs s)"
  shows "fst (tx_commit ctx wal h s) \<noteq> Some ErrWriteConflict"
proof -
  have v: "validate (tx_slot (ts_txs s ! h)) (ts_sm s)"
    using validate_true [OF reachable_slots_ok [OF assms(1)]] .
  obtain e b s1 where m: "commit_mark ctx wal h s = (e, b, s1)" by (cases "commit_mark ctx wal h s")
  have "e \<noteq> Some ErrWriteConflict"
    using v m assms(2) by (auto simp: commit_mark_def Let_def next_ts_def split: if_splits option.splits)
  then show ?thesis using m by (auto simp: tx_commit_def Let_def)
qed

theorem write_conflict_never_detected_witness:
  "\<exists>h s. tx_begin False new_manager = (Inr h, s) \<and> fst (tx_commit False None h s) \<noteq> Some ErrWriteConflict"
proof -
  obtain h s where b: "tx_begin False new_manager = (Inr h, s)" using begin_exists [of new_manager] by auto
  have "txn_step\<^sup>*\<^sup>* new_manager s" using st_begin [OF b] by blast
  from write_conflict_never_detected [OF this begin_Inr(5) [OF new_manager_ok b]] b show ?thesis by blast
qed

text \<open>
  Isolation is inverted: of a key that one transaction writes for the first time, a transaction that
  begins while the write is uncommitted reads the value, and so does one that begins after the writer aborts,
  but one that begins after the writer committed does not find the key.
\<close>

theorem isolation_inverted:
  assumes "txn_step\<^sup>*\<^sup>* new_manager s" and "ts_mv s key = None" and "unat (ts_counter s) + 3 < 2 ^ 64"
    and "tx_begin False s = (Inr h, s0)" and "tx_insert False h key val s0 = (None, s1)"
  shows "(tx_begin False s1 = (Inr g, s2) \<longrightarrow> fst (tx_get False g key s2) = Inr (Some val)) \<and>
    (tx_abort False h s1 = (None, s3) \<longrightarrow> tx_begin False s3 = (Inr g, s4) \<longrightarrow> fst (tx_get False g key s4) = Inr (Some val)) \<and>
    (tx_commit False wal h s1 = (None, s5) \<longrightarrow> tx_begin False s5 = (Inr g, s6) \<longrightarrow> fst (tx_get False g key s6) = Inr None)"
proof -
  have ok: "slots_ok s" using reachable_slots_ok [OF assms(1)] .
  note f = first_write [OF ok assms(4,5,2)]
  let ?c = "ts_counter s"
  let ?n = "new_version_node (?c + 1) (?c + 1) key val False"
  note nw = no_wrap [OF assms(3)]
  have vis: "is_visible (?c + 2) ?n" using nw by (simp add: is_visible_def new_version_node_def)
  have early: "fst (tx_get False g key t') = Inr (Some val)"
    if "slots_ok t" "ts_counter t = ?c + 1" "ts_mv t key = Some [?n]" "tx_begin False t = (Inr g, t')" for t t'
    using reader_of_one [OF that(1,4,3)] that(2) vis nw by (simp add: live_value_def add.assoc) (simp add: new_version_node_def)
  have a: "tx_abort False h s1 = (None, s3) \<longrightarrow> tx_begin False s3 = (Inr g, s4) \<longrightarrow> fst (tx_get False g key s4) = Inr (Some val)"
    using abort_effect [OF f(1,3)] early [of s3 s4] f(2,4) by auto
  have c: "fst (tx_get False g key s6) = Inr None" if "tx_commit False wal h s1 = (None, s5)" "tx_begin False s5 = (Inr g, s6)"
  proof -
    note e = commit_effect [OF f(1,3) that(1)]
    have m: "ts_mv s5 key = Some [?n\<lparr>vn_end := ?c + 2\<rparr>]"
      using e(3) [of key] f(2,4,5,6) by (simp add: node_commit_def new_version_node_def add.assoc)
    have "\<not> is_visible (ts_counter s5 + 1) (?n\<lparr>vn_end := ?c + 2\<rparr>)"
      using e(2) f(2) nw by (simp add: is_visible_def new_version_node_def add.assoc not_le)
    then show ?thesis
      using reader_of_one [OF e(1) that(2) m] e(2) f(2) nw by (simp add: live_value_def new_version_node_def add.assoc)
  qed
  show ?thesis using early [OF f(1,2,4)] a c by blast
qed


theorem isolation_inverted_witness:
  "\<exists>h s0 s1 s2 g s3. tx_begin False new_manager = (Inr h, s0) \<and> tx_insert False h [1] [2] s0 = (None, s1) \<and>
     tx_commit False None h s1 = (None, s2) \<and> tx_begin False s2 = (Inr g, s3) \<and> fst (tx_get False g [1] s3) = Inr None"
proof -
  obtain h s0 where b: "tx_begin False new_manager = (Inr h, s0)" using begin_exists [of new_manager] by auto
  note g = begin_Inr [OF new_manager_ok b]
  obtain s1 where w: "tx_insert False h [1] [2] s0 = (None, s1)" using g(6) by (auto simp: tx_insert_def tx_write_def Let_def)
  note f = first_write [OF new_manager_ok b w]
  obtain s2 where c: "tx_commit False None h s1 = (None, s2)" using commit_exists [OF f(1,3,7)] by auto
  have "ts_closed s0 = False" using b by (auto simp: tx_begin_def allocate_slot_def next_ts_def Let_def split: if_splits)
  then have "\<not> ts_closed s2 \<and> sm_free (ts_sm s2) \<noteq> []"
    using commit_effect(6,7) [OF f(1,3) c] w by (auto simp: tx_insert_def tx_write_def Let_def set_phase_def update_tx_def split: if_splits)
  then obtain g' s3 where r: "tx_begin False s2 = (Inr g', s3)" using begin_exists by blast
  have "fst (tx_get False g' [1] s3) = Inr None"
    using isolation_inverted [of new_manager "[1]" h s0 "[2]" s1 g' _ _ _ None s2 s3] b w c r by auto
  then show ?thesis using b w c r by blast
qed

text \<open>
  C39. A commit whose WAL write fails is half done: \<open>Commit\<close> returns the error, but the versions are already
  stamped as committed and the transaction stays unfinished, holding its slot, with its phase at \<open>PhaseAborted\<close>.
\<close>

theorem failed_commit_is_applied:
  assumes "txn_step\<^sup>*\<^sup>* new_manager s" and "h < length (ts_txs s)" and "tx_commit False wal h s = (Some ErrWal, s')"
  shows "(\<forall>k. ts_mv s' k = (if k \<in> set (map kr_start (sl_writes (slot_of s h)))
       then map_option (commit_first (sl_txn (slot_of s h)) (ts_counter s + 1)) (ts_mv s k) else ts_mv s k)) \<and>
    \<not> tx_finished (ts_txs s' ! h) \<and> tx_slot (ts_txs s ! h) \<in> set (owned (ts_txs s')) \<and> tx_phase (ts_txs s' ! h) = PhaseAborted"
proof -
  have ok: "slots_ok s" using reachable_slots_ok [OF assms(1)] .
  obtain e b s1 where m: "commit_mark False wal h s = (e, b, s1)" by (cases "commit_mark False wal h s")
  have nf: "\<not> tx_finished (ts_txs s ! h)"
    using assms(3) m by (auto simp: tx_commit_def commit_mark_def split: if_splits)
  have e: "e = Some ErrWal" using assms(3) m by (auto simp: tx_commit_def Let_def split: if_splits)
  then have s': "\<not> b" "s1 = set_phase h PhaseAborted (committing h s)"
    using commit_mark_cases [OF m _ nf assms(2)] by auto
  then have eq: "s' = set_phase h PhaseAborted (committing h s)" using assms(3) m by (simp add: tx_commit_def)
  have "ts_mv s' = fold (mv_commit_first (sl_txn (slot_of s h)) (ts_counter s + 1)) (map kr_start (sl_writes (slot_of s h))) (ts_mv s)"
    using assms(2) by (simp add: eq committing_def next_ts_def Let_def slot_of_def set_phase_def update_tx_def)
  moreover have t: "tx_slot (ts_txs s' ! h) = tx_slot (ts_txs s ! h)" "\<not> tx_finished (ts_txs s' ! h)" "h < length (ts_txs s')"
      "tx_phase (ts_txs s' ! h) = PhaseAborted"
    using assms(2) nf by (simp_all add: eq committing_def next_ts_def Let_def slot_of_def set_phase_def update_tx_def)
  moreover have "tx_slot (ts_txs s' ! h) \<in> set (owned (ts_txs s'))"
    unfolding owned_def using t(2,3) by auto
  ultimately show ?thesis by (simp only: commit_keys) simp
qed

theorem failed_commit_is_applied_witness:
  "\<exists>h s s'. tx_begin False new_manager = (Inr h, s) \<and>
     tx_commit False (Some \<lparr>wa_append = (\<lambda>_. True), wa_sync = False\<rparr>) h s = (Some ErrWal, s') \<and> \<not> tx_finished (ts_txs s' ! h)"
proof -
  obtain h s where b: "tx_begin False new_manager = (Inr h, s)" using begin_exists [of new_manager] by auto
  note g = begin_Inr [OF new_manager_ok b]
  have "\<exists>s'. tx_commit False (Some \<lparr>wa_append = (\<lambda>_. True), wa_sync = False\<rparr>) h s = (Some ErrWal, s')"
    using g(6) validate_true [OF g(2)] by (auto simp: tx_commit_def commit_mark_def Let_def next_ts_def)
  then obtain s' where c: "tx_commit False (Some \<lparr>wa_append = (\<lambda>_. True), wa_sync = False\<rparr>) h s = (Some ErrWal, s')" ..
  have "txn_step\<^sup>*\<^sup>* new_manager s" using st_begin [OF b] by blast
  from failed_commit_is_applied [OF this g(5) c] b c show ?thesis by blast
qed

end
