(* ===== verification/Kv_Store.thy ===== *)
theory Kv_Store
  imports Prelude
begin

text \<open>
  The interface between the storage structures and their clients: a store of byte strings with an
  abstraction to a finite map, and the same store with deletion by a reserved value, as the engine's
  public \<open>Get\<close>, \<open>Insert\<close> and \<open>Delete\<close> give it. The clients' lemmas are proved here once.
\<close>

locale kv_store =
  fixes inv :: "'s \<Rightarrow> bool"
    and alpha :: "'s \<Rightarrow> bytes \<Rightarrow> bytes option"
    and look :: "bytes \<Rightarrow> 's \<Rightarrow> bytes option"
    and put :: "'x \<Rightarrow> bytes \<Rightarrow> bytes \<Rightarrow> 's \<Rightarrow> 's"
    and ready :: "bytes \<Rightarrow> bytes \<Rightarrow> 's \<Rightarrow> bool"
  assumes look: "inv s \<Longrightarrow> look k s = alpha s k"
    and put_inv: "inv s \<Longrightarrow> inv (put x k v s)"
    and put: "inv s \<Longrightarrow> ready k v s \<Longrightarrow> alpha (put x k v s) = (alpha s)(k \<mapsto> v)"
begin

text \<open>A run of writes; \<open>ready_all\<close> says that the law holds at each of them.\<close>

definition put_all :: "('x \<times> bytes \<times> bytes) list \<Rightarrow> 's \<Rightarrow> 's" where
  "put_all kvs s = fold (\<lambda>(x, k, v). put x k v) kvs s"

fun ready_all :: "('x \<times> bytes \<times> bytes) list \<Rightarrow> 's \<Rightarrow> bool" where
  "ready_all [] s = True"
| "ready_all ((x, k, v) # kvs) s = (ready k v s \<and> ready_all kvs (put x k v s))"

lemma put_all_inv: "inv s \<Longrightarrow> inv (put_all kvs s)"
  by (induction kvs arbitrary: s) (auto simp: put_all_def put_inv)

lemma put_all_alpha:
  "inv s \<Longrightarrow> ready_all kvs s \<Longrightarrow> alpha (put_all kvs s) = alpha s ++ map_of (rev (map snd kvs))"
proof (induction kvs arbitrary: s)
  case (Cons kv kvs)
  obtain x k v where kv: "kv = (x, k, v)" by (cases kv)
  have r: "ready k v s" "ready_all kvs (put x k v s)" using Cons.prems(2) by (simp_all add: kv)
  have "alpha (put_all kvs (put x k v s)) = (alpha s)(k \<mapsto> v) ++ map_of (rev (map snd kvs))"
    using Cons.IH [OF put_inv [OF Cons.prems(1)] r(2)] by (simp only: put [OF Cons.prems(1) r(1)])
  also have "\<dots> = alpha s ++ map_of (rev (map snd kvs) @ [(k, v)])"
    by (rule ext) (simp add: map_add_def split: option.split)
  finally show ?case by (simp add: kv put_all_def)
qed (simp add: put_all_def)

lemma look_put: "inv s \<Longrightarrow> ready k' v s \<Longrightarrow> look k (put x k' v s) = (if k = k' then Some v else look k s)"
  by (simp add: look put put_inv)

lemma look_put_all:
  "inv s \<Longrightarrow> ready_all kvs s \<Longrightarrow>
   look k (put_all kvs s) = (case map_of (rev (map snd kvs)) k of Some v \<Rightarrow> Some v | None \<Rightarrow> look k s)"
  by (simp add: look put_all_inv put_all_alpha map_add_def split: option.split)

end

text \<open>
  A store whose deletion writes the value \<open>tomb\<close>. \<open>live\<close> is what a reader sees; the reserved value
  itself cannot be stored, which is why the laws for insertion ask for another one.
\<close>

locale tomb_store = kv_store +
  fixes tomb :: bytes
begin

definition live :: "'a \<Rightarrow> bytes \<Rightarrow> bytes option" where
  "live s k = (case look k s of Some v \<Rightarrow> if v = tomb then None else Some v | None \<Rightarrow> None)"

lemma live_put:
  "inv s \<Longrightarrow> ready k v s \<Longrightarrow> live (put x k v s) = (if v = tomb then (live s)(k := None) else (live s)(k \<mapsto> v))"
  by (rule ext) (simp add: live_def look_put)

lemma live_not_tomb: "live s k = Some v \<Longrightarrow> v \<noteq> tomb"
  by (auto simp: live_def split: option.splits if_splits)

text \<open>Undoing writes: put back what was there before, one key at a time.\<close>

definition undo :: "('b \<times> bytes \<times> bytes option) list \<Rightarrow> ('b \<times> bytes \<times> bytes) list" where
  "undo ents = map (\<lambda>(x, k, old). (x, k, case old of Some v \<Rightarrow> v | None \<Rightarrow> tomb)) ents"

lemma undo_live:
  "inv s \<Longrightarrow> ready_all (undo ents) s \<Longrightarrow> distinct (map fst (map snd ents)) \<Longrightarrow>
   (\<And>k v. (k, Some v) \<in> snd ` set ents \<Longrightarrow> v \<noteq> tomb) \<Longrightarrow>
   live (put_all (undo ents) s) k = (case map_of (map snd ents) k of Some old \<Rightarrow> old | None \<Rightarrow> live s k)"
proof (induction ents arbitrary: s)
  case (Cons e ents)
  obtain x k' old where e: "e = (x, k', old)" by (cases e)
  let ?v = "case old of Some v \<Rightarrow> v | None \<Rightarrow> tomb"
  let ?s = "put x k' ?v s"
  have i: "inv ?s" using Cons.prems(1) by (rule put_inv)
  have r: "ready k' ?v s" "ready_all (undo ents) ?s" using Cons.prems(2) by (simp_all add: undo_def e)
  have t: "old = Some v \<Longrightarrow> v \<noteq> tomb" for v using Cons.prems(4) [of k' v] e by simp
  have l: "live ?s = (live s)(k' := old)"
    using live_put [OF Cons.prems(1) r(1)] t by (auto split: option.splits)
  have "live (put_all (undo ents) ?s) k = (case map_of (map snd ents) k of Some old \<Rightarrow> old | None \<Rightarrow> live ?s k)"
    using Cons.IH [OF i r(2)] Cons.prems(3,4) by auto
  moreover have "map_of (map snd ents) k' = None"
    using Cons.prems(3) e by (force simp: map_of_eq_None_iff)
  ultimately show ?case using e l by (auto simp: undo_def put_all_def split: option.splits)
qed (simp add: undo_def put_all_def)

end

end
