(* ===== verification/Ls_Skiplist.thy ===== *)
theory Ls_Skiplist
  imports Kv_Store
begin

text \<open>
  The memtable of \<open>internal/ENG/LS/skiplist.go\<close> and \<open>memtable.go\<close>: a skip list of nodes linked by
  pointers. A node is its index in the list of nodes ever allocated, index 0 being the head; the level
  that \<open>randomLevel\<close> draws is an argument. A walk along one level visits a node at most once, so the
  number of nodes is enough fuel for it.
\<close>

subsection \<open>Nodes and the skip list\<close>

definition max_level :: nat where "max_level = 12"

record sl_node =
  sn_key :: bytes
  sn_value :: bytes
  sn_next :: "nat option list"

record skiplist =
  sk_nodes :: "sl_node list"
  sk_level :: nat
  sk_len :: nat

definition new_skiplist :: skiplist where
  "new_skiplist = \<lparr>sk_nodes = [\<lparr>sn_key = [], sn_value = [], sn_next = replicate max_level None\<rparr>], sk_level = 1, sk_len = 0\<rparr>"

text \<open>\<open>randomLevel\<close> on the coin flips it draws.\<close>

fun random_level :: "bool list \<Rightarrow> nat \<Rightarrow> nat" where
  "random_level [] lvl = lvl"
| "random_level (heads # flips) lvl = (if lvl < max_level \<and> heads then random_level flips (lvl + 1) else lvl)"

definition next_at :: "sl_node list \<Rightarrow> nat \<Rightarrow> nat \<Rightarrow> nat option" where
  "next_at ns i n = sn_next (ns ! n) ! i"

text \<open>The walk along level \<open>i\<close> to the last node whose key is smaller.\<close>

fun walk :: "nat \<Rightarrow> sl_node list \<Rightarrow> nat \<Rightarrow> bytes \<Rightarrow> nat \<Rightarrow> nat" where
  "walk 0 ns i key cur = cur"
| "walk (Suc fuel) ns i key cur =
     (case next_at ns i cur of
        None \<Rightarrow> cur
      | Some n \<Rightarrow> if bytes_less (sn_key (ns ! n)) key then walk fuel ns i key n else cur)"

text \<open>
  The descent from level \<open>i - 1\<close> to level 0: the predecessor reached on each level and its successor
  there, by level.
\<close>

fun descend :: "sl_node list \<Rightarrow> bytes \<Rightarrow> nat \<Rightarrow> nat \<Rightarrow> (nat \<times> nat option) list" where
  "descend ns key 0 cur = []"
| "descend ns key (Suc i) cur =
     (let c = walk (length ns) ns i key cur in descend ns key i c @ [(c, next_at ns i c)])"

definition neighbours :: "skiplist \<Rightarrow> bytes \<Rightarrow> nat \<Rightarrow> nat \<times> nat option" where
  "neighbours s key i =
     (if i < sk_level s then descend (sk_nodes s) key (sk_level s) 0 ! i else (0, next_at (sk_nodes s) i 0))"

definition set_next :: "nat \<Rightarrow> nat \<Rightarrow> nat option \<Rightarrow> sl_node list \<Rightarrow> sl_node list" where
  "set_next i n t ns = ns[n := (ns ! n)\<lparr>sn_next := (sn_next (ns ! n))[i := t]\<rparr>]"

text \<open>
  \<open>Insert\<close> with the drawn level. The new node points to its successors on every level below \<open>lvl\<close>,
  but only the predecessor on level 0 is made to point to it.
\<close>

definition sk_link :: "nat \<Rightarrow> bytes \<Rightarrow> bytes \<Rightarrow> skiplist \<Rightarrow> skiplist" where
  "sk_link lvl key val s =
     (let ns = sk_nodes s; id = length ns;
          new = \<lparr>sn_key = key, sn_value = val,
                 sn_next = map (\<lambda>i. if i < lvl then snd (neighbours s key i) else None) [0..<max_level]\<rparr>
      in s\<lparr>sk_nodes := set_next 0 (fst (neighbours s key 0)) (Some id) (ns @ [new]),
           sk_level := (if sk_level s < lvl then lvl else sk_level s), sk_len := sk_len s + 1\<rparr>)"

definition sk_insert :: "nat \<Rightarrow> bytes \<Rightarrow> bytes \<Rightarrow> skiplist \<Rightarrow> skiplist" where
  "sk_insert lvl key val s =
     (case snd (neighbours s key 0) of
        Some n \<Rightarrow>
          if sn_key (sk_nodes s ! n) = key then s\<lparr>sk_nodes := (sk_nodes s)[n := (sk_nodes s ! n)\<lparr>sn_value := val\<rparr>]\<rparr>
          else sk_link lvl key val s
      | None \<Rightarrow> sk_link lvl key val s)"

definition sk_find :: "bytes \<Rightarrow> skiplist \<Rightarrow> bytes option" where
  "sk_find key s =
     (case snd (descend (sk_nodes s) key (sk_level s) 0 ! 0) of
        None \<Rightarrow> None
      | Some n \<Rightarrow> if sn_key (sk_nodes s ! n) = key then Some (sn_value (sk_nodes s ! n)) else None)"

text \<open>\<open>Iterator\<close>: \<open>None\<close> is the nil position, before the first entry and past the last.\<close>

definition it_next :: "skiplist \<Rightarrow> nat option \<Rightarrow> nat option" where
  "it_next s p = (case p of None \<Rightarrow> next_at (sk_nodes s) 0 0 | Some n \<Rightarrow> next_at (sk_nodes s) 0 n)"

definition it_entry :: "skiplist \<Rightarrow> nat \<Rightarrow> bytes \<times> bytes" where
  "it_entry s n = (sn_key (sk_nodes s ! n), sn_value (sk_nodes s ! n))"

text \<open>A loop \<open>for it.Next()\<close> over at most \<open>fuel\<close> entries.\<close>

fun it_entries :: "nat \<Rightarrow> skiplist \<Rightarrow> nat option \<Rightarrow> (bytes \<times> bytes) list" where
  "it_entries 0 s p = []"
| "it_entries (Suc fuel) s p = (case it_next s p of None \<Rightarrow> [] | Some n \<Rightarrow> it_entry s n # it_entries fuel s (Some n))"

subsection \<open>The bottom list\<close>

fun links :: "sl_node list \<Rightarrow> nat option \<Rightarrow> nat list \<Rightarrow> bool" where
  "links ns h [] = (h = None)"
| "links ns h (n # l) = (h = Some n \<and> links ns (next_at ns 0 n) l)"

definition key_at :: "sl_node list \<Rightarrow> nat \<Rightarrow> bytes" where "key_at ns n = sn_key (ns ! n)"

text \<open>The invariant: the bottom list is \<open>l\<close>, strictly sorted; above it the head points nowhere.\<close>

definition sl_ok :: "skiplist \<Rightarrow> nat list \<Rightarrow> bool" where
  "sl_ok s l \<longleftrightarrow>
     (let ns = sk_nodes s in
      links ns (next_at ns 0 0) l \<and> distinct (0 # l) \<and> (\<forall>n \<in> set (0 # l). n < length ns) \<and>
      sorted_wrt (<) (map (key_at ns) l) \<and> (\<forall>n \<in> set ns. length (sn_next n) = max_level) \<and>
      (\<forall>i. 0 < i \<and> i < max_level \<longrightarrow> next_at ns i 0 = None) \<and>
      1 \<le> sk_level s \<and> sk_level s \<le> max_level \<and> sk_len s = length l)"

definition smaller :: "sl_node list \<Rightarrow> bytes \<Rightarrow> nat list \<Rightarrow> nat list" where
  "smaller ns key l = takeWhile (\<lambda>n. key_at ns n < key) l"

definition rest :: "sl_node list \<Rightarrow> bytes \<Rightarrow> nat list \<Rightarrow> nat list" where
  "rest ns key l = dropWhile (\<lambda>n. key_at ns n < key) l"

lemma smaller_rest: "smaller ns key l @ rest ns key l = l"
  by (simp add: smaller_def rest_def)

definition first :: "nat list \<Rightarrow> nat option" where
  "first l = (case l of [] \<Rightarrow> None | n # _ \<Rightarrow> Some n)"

lemma links_first: "links ns h l \<Longrightarrow> h = first l"
  by (cases l) (auto simp: first_def)

lemma links_drop: "links ns h (a @ b) \<Longrightarrow> a \<noteq> [] \<Longrightarrow> links ns (next_at ns 0 (last a)) b"
  by (induction a arbitrary: h) (auto split: if_splits)

lemma walk_bottom:
  "links ns (next_at ns 0 c) l \<Longrightarrow> length l \<le> fuel \<Longrightarrow> walk fuel ns 0 key c = last (c # smaller ns key l)"
proof (induction l arbitrary: c fuel)
  case Nil
  then show ?case by (cases fuel) (auto simp: smaller_def)
next
  case (Cons n l)
  then obtain f where f: "fuel = Suc f" "length l \<le> f" by (cases fuel) auto
  show ?case
    using Cons.prems(1) Cons.IH [of n f] f by (auto simp: smaller_def key_at_def bytes_less_iff)
qed

lemma next_of_last:
  assumes "links ns (next_at ns 0 c) l"
  shows "next_at ns 0 (last (c # smaller ns key l)) = first (rest ns key l)"
proof (cases "smaller ns key l = []")
  case True
  then show ?thesis using assms links_first smaller_rest [of ns key l] by (metis append_Nil last.simps)
next
  case False
  then have "links ns (next_at ns 0 (last (smaller ns key l))) (rest ns key l)"
    using links_drop [of ns _ "smaller ns key l" "rest ns key l"] assms smaller_rest by metis
  then show ?thesis using False links_first by simp
qed

lemma fuel_enough:
  assumes "sl_ok s l"
  shows "length l \<le> length (sk_nodes s)"
proof -
  have "distinct l" "set l \<subseteq> {..<length (sk_nodes s)}" using assms by (auto simp: sl_ok_def Let_def)
  then have "card (set l) \<le> card {..<length (sk_nodes s)}" by (intro card_mono) auto
  then show ?thesis using \<open>distinct l\<close> by (simp add: distinct_card)
qed

lemma walk_upper: "next_at ns i 0 = None \<Longrightarrow> walk fuel ns i key 0 = 0"
  by (cases fuel) auto

lemma descend_length [simp]: "length (descend ns key i c) = i"
  by (induction i arbitrary: c) (auto simp: Let_def)

lemma descend_levels:
  assumes "\<forall>i. 0 < i \<and> i < max_level \<longrightarrow> next_at ns i 0 = None" and "Suc j \<le> max_level"
  shows "descend ns key (Suc j) 0 ! 0 = (walk (length ns) ns 0 key 0, next_at ns 0 (walk (length ns) ns 0 key 0))"
    and "0 < i \<Longrightarrow> i \<le> j \<Longrightarrow> snd (descend ns key (Suc j) 0 ! i) = None"
proof -
  have "descend ns key (Suc j) 0 ! 0 = (walk (length ns) ns 0 key 0, next_at ns 0 (walk (length ns) ns 0 key 0)) \<and>
    (\<forall>i. 0 < i \<and> i \<le> j \<longrightarrow> snd (descend ns key (Suc j) 0 ! i) = None)"
    using assms(2)
  proof (induction j)
    case (Suc j)
    have n: "next_at ns (Suc j) 0 = None" using assms(1) Suc.prems by simp
    have "descend ns key (Suc (Suc j)) 0 = descend ns key (Suc j) 0 @ [(0, None)]"
      using walk_upper [OF n] n by (simp add: Let_def)
    then show ?case using Suc by (auto simp: nth_append less_Suc_eq_le le_Suc_eq simp del: descend.simps)
  qed (simp add: Let_def)
  then show "descend ns key (Suc j) 0 ! 0 = (walk (length ns) ns 0 key 0, next_at ns 0 (walk (length ns) ns 0 key 0))"
    "0 < i \<Longrightarrow> i \<le> j \<Longrightarrow> snd (descend ns key (Suc j) 0 ! i) = None"
    by blast+
qed

lemma neighbours_ok:
  assumes "sl_ok s l"
  shows "neighbours s key 0 = (last (0 # smaller (sk_nodes s) key l), first (rest (sk_nodes s) key l))"
    and "descend (sk_nodes s) key (sk_level s) 0 ! 0 = neighbours s key 0"
    and "0 < i \<Longrightarrow> i < max_level \<Longrightarrow> snd (neighbours s key i) = None"
proof -
  let ?ns = "sk_nodes s"
  obtain j where j: "sk_level s = Suc j" "Suc j \<le> max_level" using assms by (cases "sk_level s") (auto simp: sl_ok_def Let_def)
  have up: "\<forall>i. 0 < i \<and> i < max_level \<longrightarrow> next_at ?ns i 0 = None" and l: "links ?ns (next_at ?ns 0 0) l"
    using assms by (auto simp: sl_ok_def Let_def)
  note d = descend_levels [OF up j(2)]
  show "neighbours s key 0 = (last (0 # smaller ?ns key l), first (rest ?ns key l))"
    using d(1) [of key] j walk_bottom [OF l fuel_enough [OF assms]] next_of_last [OF l] by (simp add: neighbours_def)
  show "descend ?ns key (sk_level s) 0 ! 0 = neighbours s key 0" using j by (simp add: neighbours_def)
  show "0 < i \<Longrightarrow> i < max_level \<Longrightarrow> snd (neighbours s key i) = None"
    using d(2) j up by (auto simp: neighbours_def)
qed

text \<open>Overwriting a value moves no pointer and changes no key.\<close>

lemma links_cong: "(\<And>n. n \<in> set l \<Longrightarrow> next_at ns' 0 n = next_at ns 0 n) \<Longrightarrow> links ns' h l = links ns h l"
  by (induction l arbitrary: h) auto

lemma next_at_set_value:
  "next_at (ns[n := (ns ! n)\<lparr>sn_value := v\<rparr>]) i m = next_at ns i m"
  by (cases "m = n"; cases "n < length ns") (auto simp: next_at_def not_less list_update_beyond)

lemma key_at_set_value: "key_at (ns[n := (ns ! n)\<lparr>sn_value := v\<rparr>]) = key_at ns"
proof
  show "key_at (ns[n := (ns ! n)\<lparr>sn_value := v\<rparr>]) m = key_at ns m" for m
    by (cases "m = n"; cases "n < length ns") (auto simp: key_at_def not_less list_update_beyond)
qed

lemma sl_ok_set_value:
  assumes "sl_ok s l" and "n < length (sk_nodes s)"
  shows "sl_ok (s\<lparr>sk_nodes := (sk_nodes s)[n := (sk_nodes s ! n)\<lparr>sn_value := v\<rparr>]\<rparr>) l"
proof -
  let ?ns = "sk_nodes s" and ?ns' = "(sk_nodes s)[n := (sk_nodes s ! n)\<lparr>sn_value := v\<rparr>]"
  have "length (sn_next x) = max_level" if "x \<in> set ?ns'" for x
  proof -
    have all: "\<forall>y \<in> set ?ns. length (sn_next y) = max_level" using assms(1) by (simp add: sl_ok_def Let_def)
    have "x = (?ns ! n)\<lparr>sn_value := v\<rparr> \<or> x \<in> set ?ns" using set_update_subset_insert that by fast
    then show ?thesis using all nth_mem [OF assms(2)] by auto
  qed
  moreover have "links ?ns' (next_at ?ns 0 0) l = links ?ns (next_at ?ns 0 0) l"
    by (rule links_cong) (simp add: next_at_set_value)
  ultimately show ?thesis using assms by (simp add: sl_ok_def Let_def next_at_set_value key_at_set_value)
qed

lemma links_insert:
  assumes "links ns (next_at ns 0 c) (a @ b)" and "distinct (c # a @ b)" and "d \<notin> set (c # a @ b)"
    and "\<And>m. next_at ns' 0 m = (if m = last (c # a) then Some d else if m = d then first b else next_at ns 0 m)"
  shows "links ns' (next_at ns' 0 c) (a @ d # b)"
  using assms
proof (induction a arbitrary: c)
  case Nil
  have "links ns' (first b) b = links ns (first b) b"
    using Nil(2,3,4) by (intro links_cong) auto
  then show ?case using Nil links_first [of ns _ b] by auto
next
  case (Cons n a)
  have "last (n # a) \<in> set (n # a)" by (rule last_in_set) simp
  then have "c \<noteq> last (n # a)" using Cons.prems(2) by auto
  moreover have "c \<noteq> d" using Cons.prems(3) by auto
  ultimately have "next_at ns' 0 c = Some n" using Cons.prems(1,4) by simp
  then show ?case using Cons.IH [of n] Cons.prems by simp
qed

lemma set_next_length [simp]: "length (set_next i n t ns) = length ns"
  by (simp add: set_next_def)

lemma next_at_set_next:
  assumes "p < length ns" and "i < max_level" and "\<forall>n \<in> set ns. length (sn_next n) = max_level"
  shows "next_at (set_next i p t ns) j m = (if m = p \<and> j = i then t else next_at ns j m)"
  using assms by (cases "m = p") (auto simp: next_at_def set_next_def nth_list_update)

lemma key_at_set_next: "key_at (set_next i p t ns) = key_at ns"
proof
  show "key_at (set_next i p t ns) m = key_at ns m" for m
    by (cases "m = p"; cases "p < length ns") (auto simp: key_at_def set_next_def not_less list_update_beyond)
qed

lemma smaller_less: "n \<in> set (smaller ns key l) \<Longrightarrow> key_at ns n < key"
  by (auto simp: smaller_def dest: set_takeWhileD)

lemma rest_ge:
  assumes "sorted_wrt (<) (map (key_at ns) l)" and "n \<in> set (rest ns key l)"
  shows "key \<le> key_at ns n"
proof -
  obtain m r where r: "rest ns key l = m # r" using assms(2) by (cases "rest ns key l") auto
  have "\<not> key_at ns m < key" using r hd_dropWhile [of "\<lambda>n. key_at ns n < key" l] by (simp add: rest_def)
  moreover have "sorted_wrt (<) (map (key_at ns) (smaller ns key l @ rest ns key l))"
    using assms(1) by (simp add: smaller_rest)
  then have "n = m \<or> key_at ns m < key_at ns n" using assms(2) r by (auto simp: sorted_wrt_append)
  ultimately show ?thesis by auto
qed

text \<open>Linking a new node puts it in its place.\<close>

lemma sk_link_ok:
  assumes ok: "sl_ok s l" and lvl: "1 \<le> lvl" "lvl \<le> max_level"
    and new: "\<And>n. first (rest (sk_nodes s) key l) = Some n \<Longrightarrow> key_at (sk_nodes s) n \<noteq> key"
  defines "ns \<equiv> sk_nodes s"
  defines "l' \<equiv> smaller ns key l @ length ns # rest ns key l"
  shows "sl_ok (sk_link lvl key val s) l'"
    and "map (it_entry (sk_link lvl key val s)) l' =
      map (it_entry s) (smaller ns key l) @ (key, val) # map (it_entry s) (rest ns key l)"
proof -
  let ?p = "last (0 # smaller ns key l)" and ?id = "length ns"
  let ?new = "\<lparr>sn_key = key, sn_value = val,
                 sn_next = map (\<lambda>i. if i < lvl then snd (neighbours s key i) else None) [0..<max_level]\<rparr>"
  define ns' where "ns' = set_next 0 ?p (Some ?id) (ns @ [?new])"
  have nodes: "sk_nodes (sk_link lvl key val s) = ns'"
    using neighbours_ok(1) [OF ok, of key] by (simp add: sk_link_def Let_def ns'_def ns_def)
  have facts: "links ns (next_at ns 0 0) l" "distinct (0 # l)" "\<forall>n \<in> set (0 # l). n < ?id"
    "sorted_wrt (<) (map (key_at ns) l)" "\<forall>n \<in> set ns. length (sn_next n) = max_level"
    "\<forall>i. 0 < i \<and> i < max_level \<longrightarrow> next_at ns i 0 = None" "sk_len s = length l"
    "1 \<le> sk_level s" "sk_level s \<le> max_level"
    using ok by (auto simp: sl_ok_def Let_def ns_def)
  have l: "l = smaller ns key l @ rest ns key l" by (simp add: smaller_rest)
  have sub: "set (smaller ns key l) \<union> set (rest ns key l) = set l" using l by (metis set_append)
  have p: "?p < ?id" using facts(3) sub last_in_set [of "0 # smaller ns key l"] by fastforce
  have lens: "\<forall>n \<in> set (ns @ [?new]). length (sn_next n) = max_level" using facts(5) by simp
  have nx_old: "next_at (ns @ [?new]) i m = next_at ns i m" if "m < ?id" for i m
    using that by (simp add: next_at_def nth_append)
  have nx: "next_at ns' j m = (if m = ?p \<and> j = 0 then Some ?id else next_at (ns @ [?new]) j m)" for j m
    using p lens by (simp add: ns'_def next_at_set_next max_level_def)
  have key: "key_at ns' n = key_at ns n" if "n < ?id" for n
    using that by (simp add: ns'_def key_at_set_next) (simp add: key_at_def nth_append)
  have key_new: "key_at ns' ?id = key" by (simp add: ns'_def key_at_set_next) (simp add: key_at_def)
  have "snd (neighbours s key 0) = first (rest ns key l)"
    using neighbours_ok(1) [OF ok] by (simp add: ns_def)
  then have nx_new: "next_at (ns @ [?new]) 0 ?id = first (rest ns key l)"
    using lvl by (simp add: next_at_def max_level_def nth_append)
  have links_old: "links (ns @ [?new]) (next_at (ns @ [?new]) 0 0) l"
    using facts(1,3) by (subst links_cong [of l _ ns]) (auto simp: nx_old)
  have links: "links ns' (next_at ns' 0 0) l'"
    unfolding l'_def
  proof (rule links_insert [where ns = "ns @ [?new]"])
    show "links (ns @ [?new]) (next_at (ns @ [?new]) 0 0) (smaller ns key l @ rest ns key l)"
      using links_old by (simp add: smaller_rest)
    show "distinct (0 # smaller ns key l @ rest ns key l)" using facts(2) by (simp add: smaller_rest)
    show "?id \<notin> set (0 # smaller ns key l @ rest ns key l)" using facts(3) by (auto simp: smaller_rest)
    show "next_at ns' 0 m = (if m = last (0 # smaller ns key l) then Some ?id
      else if m = ?id then first (rest ns key l) else next_at (ns @ [?new]) 0 m)" for m
      using nx nx_new by simp
  qed
  have dist: "distinct (0 # l')" and bounds: "\<forall>n \<in> set (0 # l'). n < length ns'"
    using facts(2,3) sub l distinct_append [of "smaller ns key l" "rest ns key l"]
    by (auto simp: l'_def ns'_def)
  have gt: "key < key_at ns n" if n: "n \<in> set (rest ns key l)" for n
  proof -
    obtain m r where r: "rest ns key l = m # r" using n by (cases "rest ns key l") auto
    have "sorted_wrt (<) (map (key_at ns) (smaller ns key l @ rest ns key l))"
      using facts(4) by (simp add: smaller_rest)
    then have "n = m \<or> key_at ns m < key_at ns n" using n r by (auto simp: sorted_wrt_append)
    moreover have "key \<le> key_at ns m" "key_at ns m \<noteq> key"
      using rest_ge [OF facts(4)] new [of m] r by (auto simp: first_def ns_def)
    ultimately show ?thesis by auto
  qed
  have keys: "map (key_at ns') l' = map (key_at ns) (smaller ns key l) @ key # map (key_at ns) (rest ns key l)"
    using facts(3) sub key by (auto simp: l'_def key_new)
  have "sorted_wrt (<) (map (key_at ns) (smaller ns key l @ rest ns key l))"
    using facts(4) by (simp add: smaller_rest)
  then have sorted: "sorted_wrt (<) (map (key_at ns') l')"
    unfolding keys using gt smaller_less [of _ ns key l] by (auto simp: sorted_wrt_append)
  have lens': "\<forall>n \<in> set ns'. length (sn_next n) = max_level"
  proof
    fix n assume "n \<in> set ns'"
    then have "n \<in> insert (((ns @ [?new]) ! ?p)\<lparr>sn_next := (sn_next ((ns @ [?new]) ! ?p))[0 := Some ?id]\<rparr>) (set (ns @ [?new]))"
      using set_update_subset_insert unfolding ns'_def set_next_def by fast
    moreover have "(ns @ [?new]) ! ?p \<in> set (ns @ [?new])" using p by (intro nth_mem) simp
    ultimately show "length (sn_next n) = max_level" using lens by auto
  qed
  have head: "\<forall>i. 0 < i \<and> i < max_level \<longrightarrow> next_at ns' i 0 = None"
    using nx nx_old facts(3,6) by auto
  have len: "length l' = length l + 1" using arg_cong [OF l, of length] by (simp add: l'_def)
  show "sl_ok (sk_link lvl key val s) l'"
    unfolding sl_ok_def Let_def nodes using links dist bounds sorted lens' head facts(7-9) lvl len
    by (simp add: sk_link_def Let_def)
  have val: "sn_value (ns' ! n) = sn_value ((ns @ [?new]) ! n)" for n
    using p by (cases "n = ?p") (auto simp: ns'_def set_next_def)
  have ent: "it_entry (sk_link lvl key val s) n = it_entry s n" if "n < ?id" for n
    using that key [OF that] val [of n] by (simp add: it_entry_def nodes key_at_def nth_append ns_def)
  have ent_new: "it_entry (sk_link lvl key val s) ?id = (key, val)"
    using key_new val [of ?id] by (simp add: it_entry_def nodes key_at_def)
  show "map (it_entry (sk_link lvl key val s)) l' =
      map (it_entry s) (smaller ns key l) @ (key, val) # map (it_entry s) (rest ns key l)"
  proof -
    have "n < ?id" if "n \<in> set (smaller ns key l) \<union> set (rest ns key l)" for n
      using that facts(3) sub by auto
    then show ?thesis by (simp add: l'_def ent ent_new)
  qed
qed

subsection \<open>Insert, Find and the iterator\<close>

definition sk_ok :: "skiplist \<Rightarrow> bool" where
  "sk_ok s \<longleftrightarrow> (\<exists>l. sl_ok s l)"

text \<open>The entries in iteration order.\<close>

definition sk_entries :: "skiplist \<Rightarrow> (bytes \<times> bytes) list" where
  "sk_entries s = it_entries (length (sk_nodes s)) s None"

lemma it_entries_links:
  "links (sk_nodes s) (it_next s p) l \<Longrightarrow> length l \<le> fuel \<Longrightarrow> it_entries fuel s p = map (it_entry s) l"
proof (induction l arbitrary: p fuel)
  case Nil
  then show ?case by (cases fuel) auto
next
  case (Cons n l)
  then obtain f where f: "fuel = Suc f" "length l \<le> f" by (cases fuel) auto
  have "it_next s (Some n) = next_at (sk_nodes s) 0 n" by (simp add: it_next_def)
  then show ?case using Cons.prems Cons.IH [of "Some n" f] f by simp
qed

lemma sk_entries_eq:
  assumes "sl_ok s l"
  shows "sk_entries s = map (it_entry s) l"
  unfolding sk_entries_def using assms fuel_enough [OF assms]
  by (intro it_entries_links) (auto simp: sl_ok_def Let_def it_next_def)

lemma map_key_entry: "map fst (map (it_entry s) l) = map (key_at (sk_nodes s)) l"
  by (simp add: it_entry_def key_at_def)

lemma sk_entries_sorted: "sk_ok s \<Longrightarrow> sorted_wrt (<) (map fst (sk_entries s))"
  unfolding sk_ok_def by (auto simp only: sk_entries_eq map_key_entry sl_ok_def Let_def)

lemma sk_find_entries:
  assumes "sk_ok s"
  shows "sk_find key s = map_of (sk_entries s) key"
proof -
  obtain l where ok: "sl_ok s l" using assms by (auto simp: sk_ok_def)
  let ?ns = "sk_nodes s"
  have s: "sorted_wrt (<) (map (key_at ?ns) l)" using ok by (simp add: sl_ok_def Let_def)
  have f: "sk_find key s = (case first (rest ?ns key l) of None \<Rightarrow> None
      | Some n \<Rightarrow> if key_at ?ns n = key then Some (sn_value (?ns ! n)) else None)"
    using neighbours_ok(1,2) [OF ok, of key] by (simp add: sk_find_def key_at_def split: option.split)
  have "map_of (map (it_entry s) (smaller ?ns key l)) key = None"
    using smaller_less [of _ ?ns key l] by (fastforce simp: map_of_eq_None_iff it_entry_def key_at_def)
  then have m: "map_of (sk_entries s) key = map_of (map (it_entry s) (rest ?ns key l)) key"
    unfolding sk_entries_eq [OF ok] by (subst (1) smaller_rest [symmetric, of l ?ns key]) (simp add: map_add_def split: option.split)
  show ?thesis
  proof (cases "rest ?ns key l")
    case Nil
    then show ?thesis using f m by (simp add: first_def)
  next
    case (Cons n r)
    have "sorted_wrt (<) (map (key_at ?ns) (smaller ?ns key l @ rest ?ns key l))" using s by (simp add: smaller_rest)
    then have "\<forall>x \<in> set r. key_at ?ns n < key_at ?ns x" using Cons by (simp add: sorted_wrt_append)
    then have "key_at ?ns n \<noteq> key \<Longrightarrow> map_of (map (it_entry s) r) key = None"
      using rest_ge [OF s, of n key] Cons by (fastforce simp: map_of_eq_None_iff it_entry_def key_at_def)
    then show ?thesis using f m Cons by (auto simp: first_def it_entry_def key_at_def)
  qed
qed

lemma random_level_bounds: "1 \<le> lvl \<Longrightarrow> lvl \<le> max_level \<Longrightarrow> 1 \<le> random_level flips lvl \<and> random_level flips lvl \<le> max_level"
  by (induction flips lvl rule: random_level.induct) auto

lemma map_of_middle:
  "k \<notin> fst ` set a \<Longrightarrow> map_of (a @ (k, v) # b) = (map_of (a @ b))(k \<mapsto> v)"
proof
  assume "k \<notin> fst ` set a"
  then have "map_of a k = None" by (simp add: map_of_eq_None_iff)
  then show "map_of (a @ (k, v) # b) x = ((map_of (a @ b))(k \<mapsto> v)) x" for x
    by (simp add: map_add_def split: option.split)
qed

lemma sk_insert_refines:
  assumes "sk_ok s" and lvl: "1 \<le> lvl" "lvl \<le> max_level"
  shows "sk_ok (sk_insert lvl key val s)"
    and "map_of (sk_entries (sk_insert lvl key val s)) = (map_of (sk_entries s))(key \<mapsto> val)"
proof -
  obtain l where ok: "sl_ok s l" using assms by (auto simp: sk_ok_def)
  let ?ns = "sk_nodes s"
  have s: "sorted_wrt (<) (map (key_at ?ns) l)" using ok by (simp add: sl_ok_def Let_def)
  have nb: "snd (neighbours s key 0) = first (rest ?ns key l)" using neighbours_ok(1) [OF ok] by simp
  have less: "key \<notin> fst ` set (map (it_entry s) (smaller ?ns key l))"
    using smaller_less [of _ ?ns key l] by (fastforce simp: it_entry_def key_at_def)
  have "sk_ok (sk_insert lvl key val s) \<and>
    map_of (sk_entries (sk_insert lvl key val s)) = (map_of (sk_entries s))(key \<mapsto> val)"
  proof (cases "\<exists>n. first (rest ?ns key l) = Some n \<and> key_at ?ns n = key")
    case True
    then obtain n where n: "first (rest ?ns key l) = Some n" "key_at ?ns n = key" by blast
    then obtain r where r: "rest ?ns key l = n # r" by (auto simp: first_def split: list.splits)
    have l: "l = smaller ?ns key l @ n # r" using smaller_rest [of ?ns key l] r by simp
    then have mem: "n \<in> set l" and nl: "n < length ?ns" using ok by (auto simp: sl_ok_def Let_def) (metis in_set_conv_decomp)+
    have d: "distinct l" using ok by (simp add: sl_ok_def Let_def)
    let ?s = "s\<lparr>sk_nodes := ?ns[n := (?ns ! n)\<lparr>sn_value := val\<rparr>]\<rparr>"
    have ins: "sk_insert lvl key val s = ?s" using nb n by (simp add: sk_insert_def key_at_def)
    have ok': "sl_ok ?s l" by (rule sl_ok_set_value [OF ok nl])
    have e: "it_entry ?s m = (if m = n then (key, val) else it_entry s m)" for m
      using n(2) nl by (auto simp: it_entry_def key_at_def)
    have "map (it_entry ?s) l = map (it_entry s) (smaller ?ns key l) @ (key, val) # map (it_entry s) r"
      using d by (subst l, subst (asm) l) (auto simp: e)
    then have new: "sk_entries ?s = map (it_entry s) (smaller ?ns key l) @ (key, val) # map (it_entry s) r"
      using sk_entries_eq [OF ok'] by simp
    have "map (it_entry s) l = map (it_entry s) (smaller ?ns key l) @ (key, sn_value (?ns ! n)) # map (it_entry s) r"
      using n(2) by (subst l) (simp add: it_entry_def key_at_def)
    then have old: "sk_entries s = map (it_entry s) (smaller ?ns key l) @ (key, sn_value (?ns ! n)) # map (it_entry s) r"
      using sk_entries_eq [OF ok] by simp
    show ?thesis unfolding ins using ok' by (auto simp: sk_ok_def new old map_of_middle [OF less] simp del: map_of_append)
  next
    case False
    have ins: "sk_insert lvl key val s = sk_link lvl key val s"
      using nb False by (simp add: sk_insert_def key_at_def split: option.split)
    have ne: "first (rest ?ns key l) = Some n \<Longrightarrow> key_at ?ns n \<noteq> key" for n using False by blast
    note link = sk_link_ok [OF ok lvl ne, where val = val]
    have "map (it_entry s) (smaller ?ns key l) @ map (it_entry s) (rest ?ns key l) = sk_entries s"
      unfolding sk_entries_eq [OF ok] by (subst map_append [symmetric]) (simp add: smaller_rest)
    moreover have "sk_entries (sk_link lvl key val s) =
      map (it_entry s) (smaller ?ns key l) @ (key, val) # map (it_entry s) (rest ?ns key l)"
      using sk_entries_eq [OF link(1)] link(2) by (rule trans)
    ultimately have "map_of (sk_entries (sk_link lvl key val s)) = (map_of (sk_entries s))(key \<mapsto> val)"
      by (simp only: map_of_middle [OF less])
    then show ?thesis using ins link(1) by (auto simp: sk_ok_def)
  qed
  then show "sk_ok (sk_insert lvl key val s)"
    "map_of (sk_entries (sk_insert lvl key val s)) = (map_of (sk_entries s))(key \<mapsto> val)" by blast+
qed

lemma new_skiplist_ok: "sl_ok new_skiplist []"
  by (simp add: sl_ok_def new_skiplist_def max_level_def next_at_def)

lemma sk_len_entries: "sk_ok s \<Longrightarrow> sk_len s = length (sk_entries s)"
  unfolding sk_ok_def by (auto simp: sk_entries_eq) (simp add: sl_ok_def Let_def)

subsection \<open>The memtable\<close>

record memtable =
  mt_list :: skiplist
  mt_size :: int
  mt_max :: int
  mt_frozen :: bool
  mt_refs :: int

definition new_memtable :: "int \<Rightarrow> memtable" where
  "new_memtable mx = \<lparr>mt_list = new_skiplist, mt_size = 0, mt_max = mx, mt_frozen = False, mt_refs = 0\<rparr>"

text \<open>\<open>Insert\<close> with the coin flips \<open>randomLevel\<close> sees.\<close>

definition mt_insert :: "bool list \<Rightarrow> bytes \<Rightarrow> bytes \<Rightarrow> memtable \<Rightarrow> memtable" where
  "mt_insert flips key val m =
     m\<lparr>mt_list := sk_insert (random_level flips 1) key val (mt_list m),
       mt_size := wrap64 (mt_size m + int (length key + length val))\<rparr>"

definition mt_get :: "bytes \<Rightarrow> memtable \<Rightarrow> bytes option" where
  "mt_get key m = sk_find key (mt_list m)"

definition mt_entries :: "memtable \<Rightarrow> (bytes \<times> bytes) list" where
  "mt_entries m = sk_entries (mt_list m)"

definition should_flush :: "memtable \<Rightarrow> bool" where
  "should_flush m = (mt_max m \<le> mt_size m)"

definition freeze :: "memtable \<Rightarrow> memtable" where
  "freeze m = m\<lparr>mt_frozen := True\<rparr>"

definition inc_ref :: "memtable \<Rightarrow> memtable" where "inc_ref m = m\<lparr>mt_refs := wrap64 (mt_refs m + 1)\<rparr>"
definition dec_ref :: "memtable \<Rightarrow> memtable" where "dec_ref m = m\<lparr>mt_refs := wrap64 (mt_refs m - 1)\<rparr>"

definition mt_ok :: "memtable \<Rightarrow> bool" where "mt_ok m = sk_ok (mt_list m)"

text \<open>The memtable is a key-value store, whatever levels are drawn.\<close>

interpretation mem: kv_store mt_ok "\<lambda>m. map_of (mt_entries m)" mt_get mt_insert "\<lambda>_ _ _. True"
proof unfold_locales
  fix m :: memtable and flips :: "bool list" and k v :: bytes
  assume ok: "mt_ok m"
  have lvl: "1 \<le> random_level flips 1" "random_level flips 1 \<le> max_level"
    using random_level_bounds [of 1 flips] by (auto simp: max_level_def)
  show "mt_get k m = map_of (mt_entries m) k"
    using ok by (simp add: mt_get_def mt_entries_def mt_ok_def sk_find_entries)
  show "mt_ok (mt_insert flips k v m)" "map_of (mt_entries (mt_insert flips k v m)) = (map_of (mt_entries m))(k \<mapsto> v)"
    using ok sk_insert_refines [OF _ lvl] by (simp_all add: mt_ok_def mt_insert_def mt_entries_def)
qed

lemma new_memtable_ok: "mt_ok (new_memtable mx)" "mt_entries (new_memtable mx) = []"
  using sk_entries_eq [OF new_skiplist_ok] new_skiplist_ok
  by (auto simp: mt_ok_def new_memtable_def sk_ok_def mt_entries_def)

lemma mt_entries_sorted: "mt_ok m \<Longrightarrow> sorted_wrt (<) (map fst (mt_entries m))"
  by (simp add: mt_ok_def mt_entries_def sk_entries_sorted)

lemma mt_ready_all [simp]: "mem.ready_all kvs m"
  by (induction kvs arbitrary: m) auto

text \<open>
  C6. The memtable implements a finite map: after any sequence of inserts, whatever levels were drawn
  for the nodes, \<open>Get\<close> returns the value last inserted for the key, the iterator visits every key
  exactly once in strictly ascending order with that value, and \<open>Len\<close> counts the keys.
\<close>

theorem memtable_refines_map:
  fixes kvs :: "(bool list \<times> bytes \<times> bytes) list"
  assumes "mt_ok m"
  defines "m' \<equiv> fold (\<lambda>(flips, k, v). mt_insert flips k v) kvs m"
  shows "mt_get k m' = (case map_of (rev (map snd kvs)) k of Some v \<Rightarrow> Some v | None \<Rightarrow> mt_get k m) \<and>
    map_of (mt_entries m') k = mt_get k m' \<and> sorted_wrt (<) (map fst (mt_entries m')) \<and>
    sk_len (mt_list m') = length (mt_entries m')"
proof -
  have m': "m' = mem.put_all kvs m" by (simp add: m'_def mem.put_all_def)
  have ok: "mt_ok m'" using mem.put_all_inv [OF assms(1)] by (simp add: m')
  show ?thesis
    using mem.look_put_all [OF assms(1), of kvs k] mem.look [OF ok, of k] mt_entries_sorted [OF ok] ok
    by (simp add: m' sk_len_entries mt_ok_def mt_entries_def)
qed

theorem memtable_refines_map_witness:
  "mt_get [2] (fold (\<lambda>(flips, k, v). mt_insert flips k v)
     [([True, False], [2], [20]), ([False], [1], [10]), ([True, True], [2], [21])] (new_memtable 100)) = Some [21]"
  using memtable_refines_map [OF new_memtable_ok(1),
      where kvs = "[([True, False], [2], [20]), ([False], [1], [10]), ([True, True], [2], [21])]" and k = "[2]"]
  by simp

end
