(* ===== verification/Ls_Sst.thy ===== *)
theory Ls_Sst
  imports Go_Binary Go_Crc32
begin

text \<open>
  The sorted string tables of \<open>internal/ENG/LS\<close>: the varints of \<open>memtable.go\<close>, the FNV-1a Bloom filters
  (\<open>fnv.go\<close>), the block compression with a trained dictionary (\<open>sst_dict.go\<close>), the writer
  (\<open>sst_writer.go\<close>) and the reader with its iterator (\<open>sst_reader.go\<close>). \<open>compress/flate\<close> is a parameter:
  a pair of functions that take the preset dictionary, which the theorems require to be inverse. The order
  in which a Go map and an unstable sort present the dictionary candidates is a parameter as well.
\<close>

subsection \<open>Varints of int64\<close>

text \<open>\<open>encodeVarint\<close>: at most ten bytes; a negative number never reaches zero and fills all ten.\<close>

fun mt_encode_loop :: "nat \<Rightarrow> u64 \<Rightarrow> bytes" where
  "mt_encode_loop 0 v = []"
| "mt_encode_loop (Suc room) v =
     (let w = signed_drop_bit 7 v
      in if w = 0 then [ucast (v AND 0x7F)] else (ucast (v AND 0x7F) OR 0x80) # mt_encode_loop room w)"

definition mt_encode_varint :: "u64 \<Rightarrow> bytes" where
  "mt_encode_varint v = mt_encode_loop 10 v"

fun mt_decode_loop :: "u64 \<Rightarrow> nat \<Rightarrow> nat \<Rightarrow> bytes \<Rightarrow> u64 \<times> nat" where
  "mt_decode_loop val shift i [] = (val, i)"
| "mt_decode_loop val shift i (b # bs) =
     (if b < 0x80 then (val OR push_bit shift (ucast b), i + 1)
      else mt_decode_loop (val OR push_bit shift (ucast (b AND 0x7F))) (shift + 7) (i + 1) bs)"

definition mt_decode_varint :: "bytes \<Rightarrow> u64 \<times> nat" where
  "mt_decode_varint data = mt_decode_loop 0 0 0 data"

text \<open>\<open>encodeVarint(int64(len(b)))\<close>.\<close>

definition len_varint :: "bytes \<Rightarrow> bytes" where
  "len_varint b = mt_encode_varint (of_nat (length b))"

subsection \<open>FNV-1a and Bloom filters\<close>

definition fnv1a_prime32 :: u32 where "fnv1a_prime32 = 0x01000193"
definition fnv1a_offset32 :: u32 where "fnv1a_offset32 = 0x811C9DC5"

definition fnv1a_hash :: "bytes \<Rightarrow> u32 \<Rightarrow> u32" where
  "fnv1a_hash data seed = foldl (\<lambda>h b. (h XOR ucast b) * fnv1a_prime32) seed data"

definition bloom_size_for :: "nat \<Rightarrow> nat" where
  "bloom_size_for n = (if n = 0 then 1 else (n * 10 + 7) div 8)"

text \<open>The two bit positions of a key in a filter of \<open>bits\<close> bits.\<close>

definition buckets :: "bytes \<Rightarrow> nat \<Rightarrow> nat \<times> nat" where
  "buckets key bits = (unat (fnv1a_hash key fnv1a_offset32) mod bits, unat (fnv1a_hash key fnv1a_prime32) mod bits)"

definition set_bloom :: "nat \<Rightarrow> bytes \<Rightarrow> bytes" where
  "set_bloom b f = f[b div 8 := (f ! (b div 8)) OR push_bit (b mod 8) 1]"

definition test_bloom :: "nat \<Rightarrow> bytes \<Rightarrow> bool" where
  "test_bloom b f = ((f ! (b div 8)) AND push_bit (b mod 8) 1 \<noteq> 0)"

definition set_bloom_bit :: "nat \<Rightarrow> bytes \<Rightarrow> bytes \<Rightarrow> bytes" where
  "set_bloom_bit sz key f = (case buckets key (sz * 8) of (b1, b2) \<Rightarrow> set_bloom b2 (set_bloom b1 f))"

text \<open>\<open>setPrefixBloomBit\<close> reduces modulo the number of bytes, not of bits.\<close>

definition set_prefix_bloom_bit :: "nat \<Rightarrow> bytes \<Rightarrow> bytes \<Rightarrow> bytes" where
  "set_prefix_bloom_bit sz key f =
     (case buckets key sz of (b1, b2) \<Rightarrow>
        let f1 = (if b1 div 8 < length f then set_bloom b1 f else f)
        in if b2 div 8 < length f1 then set_bloom b2 f1 else f1)"

subsection \<open>Block compression\<close>

record sst_env =
  se_deflate :: "bytes \<Rightarrow> bytes \<Rightarrow> bytes"
  se_inflate :: "bytes \<Rightarrow> bytes \<Rightarrow> bytes option"
  se_order :: "(bytes \<times> nat) list \<Rightarrow> (bytes \<times> nat) list"

definition flate_ok :: "sst_env \<Rightarrow> bool" where
  "flate_ok E = (\<forall>dict data. se_inflate E dict (se_deflate E dict data) = Some data)"

definition substrings :: "nat \<Rightarrow> bytes \<Rightarrow> bytes list" where
  "substrings l block = (if length block < l then [] else map (\<lambda>i. sub block i (i + l)) [0..<length block - l + 1])"

fun pack_dict :: "nat \<Rightarrow> bytes \<Rightarrow> (bytes \<times> nat) list \<Rightarrow> bytes" where
  "pack_dict mx dict [] = dict"
| "pack_dict mx dict ((s, n) # ps) = (if mx < length dict + length s then dict else pack_dict mx (dict @ s) ps)"

definition dict_train :: "sst_env \<Rightarrow> nat \<Rightarrow> bytes \<Rightarrow> bytes" where
  "dict_train E mx block =
     (if length block < 8 then []
      else let all = concat (map (\<lambda>l. substrings l block) [4..<9]);
               cands = filter (\<lambda>(s, n). 2 \<le> n) (map (\<lambda>s. (s, count_list all s)) (remdups all))
           in pack_dict mx [] (se_order E cands))"

definition compress_block_plain :: "sst_env \<Rightarrow> bytes \<Rightarrow> bytes" where
  "compress_block_plain E block =
     (let c = 1 # se_deflate E [] block in if length c < length block + 1 then c else 0 # block)"

definition compress_block_dict :: "sst_env \<Rightarrow> bytes \<Rightarrow> bytes" where
  "compress_block_dict E block =
     (if block = [] then block
      else let dict = dict_train E 4096 block
           in if dict = [] then compress_block_plain E block
              else let c = se_deflate E dict block
                   in if length block \<le> length c then compress_block_plain E block
                      else 2 # put_uvarint (of_nat (length dict)) @ dict @ c)"

datatype sst_error = ErrInvalidSSTFormat | ErrKeyNotFound | ErrFlate

definition inflated :: "bytes option \<Rightarrow> (sst_error, bytes) outcome" where
  "inflated o' = (case o' of Some b \<Rightarrow> Ok b | None \<Rightarrow> Fail ErrFlate)"

definition decompress_block_dict :: "sst_env \<Rightarrow> bytes \<Rightarrow> (sst_error, bytes) outcome" where
  "decompress_block_dict E data =
     (if length data < 2 then Fail ErrInvalidSSTFormat
      else if hd data = 0 then Ok (tl data)
      else if hd data = 1 then inflated (se_inflate E [] (tl data))
      else if hd data \<noteq> 2 then Fail ErrInvalidSSTFormat
      else case get_uvarint (tl data) of (dl, n) \<Rightarrow>
        if n \<le> 0 then Fail ErrInvalidSSTFormat
        else let r = drop (nat n) (tl data)
             in if int (length r) < sint dl then Fail ErrInvalidSSTFormat
                else obind (go_slice r 0 (int (unat dl)))
                  (\<lambda>dict. inflated (se_inflate E dict (drop (unat dl) r))))"

definition decompress_block_plain :: "sst_env \<Rightarrow> bytes \<Rightarrow> (sst_error, bytes) outcome" where
  "decompress_block_plain E data =
     (if data = [] then Fail ErrFlate
      else if hd data = 0 then Ok (tl data)
      else inflated (se_inflate E [] (tl data)))"

subsection \<open>The writer\<close>

definition sst_block_size :: nat where "sst_block_size = 4 * 1024"
definition sst_magic :: u32 where "sst_magic = 0x52545453"

record index_entry =
  ix_largest :: bytes
  ix_off :: int
  ix_size :: int

record sst_writer =
  sw_blocks :: "bytes list"
  sw_index :: "index_entry list"
  sw_keys :: "bytes list"
  sw_count :: nat
  sw_min :: bytes
  sw_max :: bytes
  sw_last :: bytes
  sw_off :: nat

definition new_sst_writer :: sst_writer where
  "new_sst_writer = \<lparr>sw_blocks = [], sw_index = [], sw_keys = [], sw_count = 0, sw_min = [], sw_max = [], sw_last = [], sw_off = 0\<rparr>"

definition entry_bytes :: "bytes \<times> bytes \<Rightarrow> bytes" where
  "entry_bytes kv = len_varint (fst kv) @ fst kv @ len_varint (snd kv) @ snd kv"

definition seal_block :: "bytes \<Rightarrow> bytes" where
  "seal_block block = block @ [0, 0, 0, 0] @ put_u32 (crc_koopman block)"

definition finish_current_block :: "sst_writer \<Rightarrow> sst_writer" where
  "finish_current_block w =
     (if sw_blocks w = [] \<or> last (sw_blocks w) = [] then w
      else let block = seal_block (last (sw_blocks w))
           in w\<lparr>sw_blocks := butlast (sw_blocks w) @ [block],
                sw_index := sw_index w @ [\<lparr>ix_largest = sw_last w, ix_off = int (sw_off w), ix_size = int (length block)\<rparr>],
                sw_off := sw_off w + length block\<rparr>)"

definition note_range :: "bytes \<Rightarrow> sst_writer \<Rightarrow> sst_writer" where
  "note_range key w =
     (let w1 = (if sw_count w = 0 \<or> bytes_less key (sw_min w) then w\<lparr>sw_min := key\<rparr> else w)
      in if sw_count w1 = 0 \<or> bytes_less (sw_max w1) key then w1\<lparr>sw_max := key\<rparr> else w1)"

definition put_entry :: "bytes \<Rightarrow> bytes \<Rightarrow> sst_writer \<Rightarrow> sst_writer" where
  "put_entry key buf w =
     w\<lparr>sw_blocks := butlast (sw_blocks w) @ [last (sw_blocks w) @ buf], sw_count := sw_count w + 1,
       sw_keys := sw_keys w @ [key], sw_last := key\<rparr>"

definition sst_add :: "bytes \<times> bytes \<Rightarrow> sst_writer \<Rightarrow> sst_writer" where
  "sst_add kv w =
     (let w1 = note_range (fst kv) w;
          buf = entry_bytes kv;
          w2 = (if sw_blocks w1 = [] then w1\<lparr>sw_blocks := [[]]\<rparr> else w1);
          cur = last (sw_blocks w2)
      in if cur = [] then put_entry (fst kv) buf w2
         else if sst_block_size < length cur + length buf
         then let w3 = finish_current_block w2 in put_entry (fst kv) buf (w3\<lparr>sw_blocks := sw_blocks w3 @ [[]]\<rparr>)
         else put_entry (fst kv) buf w2)"

text \<open>The start of every compressed block and the end of the last one.\<close>

fun starts :: "nat \<Rightarrow> bytes list \<Rightarrow> nat list" where
  "starts off [] = [off]"
| "starts off (c # cs) = off # starts (off + length c) cs"

fun place :: "index_entry list \<Rightarrow> nat list \<Rightarrow> index_entry list" where
  "place (e # es) (a # b # offs) = e\<lparr>ix_off := int a, ix_size := int b - int a\<rparr> # place es (b # offs)"
| "place es offs = es"

definition index_bytes :: "index_entry \<Rightarrow> bytes" where
  "index_bytes e = len_varint (ix_largest e) @ ix_largest e @ put_u64 (word_of_int (ix_off e)) @ put_u64 (word_of_int (ix_size e))"

text \<open>\<open>Finish\<close>: \<open>None\<close> is the nil slice of a writer without keys.\<close>

definition sst_finish :: "sst_env \<Rightarrow> sst_writer \<Rightarrow> bytes option" where
  "sst_finish E w0 =
     (if sw_blocks w0 = [] then None
      else let w = finish_current_block w0;
               bs = bloom_size_for (sw_count w);
               bloom = fold (set_bloom_bit bs) (sw_keys w) (replicate bs 0);
               pbloom = fold (\<lambda>k. set_prefix_bloom_bit bs (take 8 k)) (sw_keys w) (replicate bs 0);
               comp = map (compress_block_dict E) (sw_blocks w);
               data = concat comp;
               ix = concat (map index_bytes (place (sw_index w) (starts 0 comp)));
               footer = put_u64 (of_nat (length data)) @ put_u32 (of_nat (length ix)) @
                        put_u64 (of_nat (length data + length ix)) @ put_u32 (of_nat bs) @ put_u32 sst_magic
           in Some (data @ ix @ bloom @ pbloom @ footer))"

subsection \<open>The reader\<close>

record sst_reader =
  sr_data :: bytes
  sr_index :: "index_entry list"
  sr_bloom :: bytes
  sr_prefix :: bytes

text \<open>A varint length and that many bytes, from \<open>off\<close>: \<open>None\<close> when they leave the data.\<close>

definition read_chunk :: "bytes \<Rightarrow> nat \<Rightarrow> (sst_error, (bytes \<times> nat) option) outcome" where
  "read_chunk data off =
     (case mt_decode_varint (drop off data) of (l, n) \<Rightarrow>
        let pos = off + n; stop = wrap64 (int pos + sint l)
        in if int (length data) < stop then Ok None
           else obind (go_slice data (int pos) stop) (\<lambda>b. Ok (Some (b, nat stop))))"

definition parse_index_entry :: "bytes \<Rightarrow> nat \<Rightarrow> (sst_error, (index_entry \<times> nat) option) outcome" where
  "parse_index_entry data off =
     (if length data < off + 4 then Ok None
      else obind (read_chunk data off) (\<lambda>c. case c of
        None \<Rightarrow> Ok None
      | Some (key, pos) \<Rightarrow>
          if length data < pos + 16 then Ok None
          else Ok (Some (\<lparr>ix_largest = key, ix_off = sint (get_u64 (drop pos data)),
                          ix_size = sint (get_u64 (drop (pos + 8) data))\<rparr>, pos + 16))))"

lemma go_slice_bounds: "go_slice xs lo hi = Ok ys \<Longrightarrow> 0 \<le> lo \<and> lo \<le> hi \<and> hi \<le> int (length xs)"
  by (simp add: go_slice_def split: if_splits)

lemma read_chunk_forward: "read_chunk data off = Ok (Some (b, pos)) \<Longrightarrow> off \<le> pos \<and> pos \<le> length data"
  by (auto simp: read_chunk_def Let_def obind_Ok_iff dest!: go_slice_bounds split: prod.splits if_splits)

lemma parse_index_forward:
  assumes "parse_index_entry data off = Ok (Some (e, off'))"
  shows "off < off' \<and> off' \<le> length data"
proof -
  obtain c where c: "read_chunk data off = Ok c" "\<not> length data < off + 4"
    using assms by (auto simp: parse_index_entry_def obind_Ok_iff split: if_splits)
  obtain key pos where k: "c = Some (key, pos)"
    using assms c by (cases c) (auto simp: parse_index_entry_def)
  show ?thesis using assms c k read_chunk_forward [of data off key pos]
    by (auto simp: parse_index_entry_def split: if_splits)
qed

function parse_index :: "bytes \<Rightarrow> nat \<Rightarrow> (sst_error, index_entry list) outcome" where
  "parse_index data off =
     (if off < length data then
        (case parse_index_entry data off of
           Ok (Some (e, off')) \<Rightarrow> obind (parse_index data off') (\<lambda>es. Ok (e # es))
         | Ok None \<Rightarrow> Ok []
         | Fail err \<Rightarrow> Fail err
         | Panic \<Rightarrow> Panic)
      else Ok [])"
  by pat_completeness auto
termination
  by (relation "measure (\<lambda>(data, off). length data - off)") (auto dest: parse_index_forward)

declare parse_index.simps [simp del]

definition open_sst :: "bytes \<Rightarrow> (sst_error, sst_reader) outcome" where
  "open_sst data =
     (if length data < 32 then Fail ErrInvalidSSTFormat
      else let f = length data - 28; len = of_nat (length data) :: u64;
               ix_off = get_u64 (drop f data); ix_size = get_u32 (drop (f + 8) data);
               bl_off = get_u64 (drop (f + 12) data); bl_size = get_u32 (drop (f + 20) data);
               magic = get_u32 (drop (f + 24) data)
           in if magic \<noteq> sst_magic then Fail ErrInvalidSSTFormat
              else obind (if 0 < ix_off \<and> ix_off < len
                          then obind (go_slice data (int (unat ix_off)) (int (unat (ix_off + ucast ix_size)))) (\<lambda>ix. parse_index ix 0)
                          else Ok [])
                (\<lambda>es. if 0 < bl_off \<and> bl_off < len
                      then obind (go_slice data (int (unat bl_off)) (int (unat (bl_off + ucast bl_size))))
                        (\<lambda>bloom. let ps = bl_off + ucast bl_size; rem = len - ps - 28
                                 in if ps < len \<and> 0 < rem \<and> rem < len
                                    then obind (go_slice data (int (unat ps)) (int (unat (ps + rem))))
                                      (\<lambda>pb. Ok \<lparr>sr_data = data, sr_index = es, sr_bloom = bloom, sr_prefix = pb\<rparr>)
                                    else Ok \<lparr>sr_data = data, sr_index = es, sr_bloom = bloom, sr_prefix = []\<rparr>)
                      else Ok \<lparr>sr_data = data, sr_index = es, sr_bloom = [], sr_prefix = []\<rparr>))"

definition may_contain :: "sst_reader \<Rightarrow> bytes \<Rightarrow> bool" where
  "may_contain r key =
     (sr_bloom r = [] \<or>
      (case buckets key (length (sr_bloom r) * 8) of (b1, b2) \<Rightarrow> test_bloom b1 (sr_bloom r) \<and> test_bloom b2 (sr_bloom r)))"

definition may_contain_prefix :: "sst_reader \<Rightarrow> bytes \<Rightarrow> bool" where
  "may_contain_prefix r pre =
     (sr_prefix r = [] \<or>
      (case buckets (take 8 pre) (length (sr_prefix r) * 8) of
         (b1, b2) \<Rightarrow> test_bloom b1 (sr_prefix r) \<and> test_bloom b2 (sr_prefix r)))"

text \<open>\<open>readBlock\<close>: \<open>None\<close> is the nil slice.\<close>

definition read_block :: "sst_env \<Rightarrow> sst_reader \<Rightarrow> int \<Rightarrow> int \<Rightarrow> (sst_error, bytes option) outcome" where
  "read_block E r off sz =
     (if off < 0 \<or> int (length (sr_data r)) \<le> off then Ok None
      else let stop = wrap64 (off + sz); stop' = (if int (length (sr_data r)) < stop then int (length (sr_data r)) else stop)
           in obind (go_slice (sr_data r) off stop')
             (\<lambda>raw. case decompress_block_dict E raw of
                Ok d \<Rightarrow> Ok (Some d)
              | Panic \<Rightarrow> Panic
              | Fail _ \<Rightarrow> (case decompress_block_plain E raw of Ok d \<Rightarrow> Ok (Some d) | _ \<Rightarrow> Ok (Some raw))))"

text \<open>One entry of a block at \<open>pos\<close>; \<open>None\<close> ends the loop of the restart segment.\<close>

definition decode_entry :: "bytes \<Rightarrow> nat \<Rightarrow> (sst_error, ((bytes \<times> bytes) \<times> nat) option) outcome" where
  "decode_entry data pos =
     obind (read_chunk data pos) (\<lambda>c. case c of
       None \<Rightarrow> Ok None
     | Some (key, p) \<Rightarrow> obind (read_chunk data p) (\<lambda>c'. case c' of
         None \<Rightarrow> Ok None
       | Some (val, p') \<Rightarrow> Ok (Some ((key, val), p'))))"

lemma mt_decode_loop_count: "i \<le> snd (mt_decode_loop v s i bs)"
  by (induction v s i bs rule: mt_decode_loop.induct) (auto intro: Suc_leD)

lemma mt_decode_count_pos: "bs \<noteq> [] \<Longrightarrow> 0 < snd (mt_decode_varint bs)"
  using mt_decode_loop_count [of 1] by (cases bs) (auto simp: mt_decode_varint_def Suc_le_eq)

lemma read_chunk_progress: "read_chunk data off = Ok (Some (b, pos)) \<Longrightarrow> off < length data \<Longrightarrow> off < pos"
  using mt_decode_count_pos [of "drop off data"]
  by (auto simp: read_chunk_def Let_def obind_Ok_iff dest!: go_slice_bounds split: prod.splits if_splits)

lemma decode_entry_progress:
  assumes "decode_entry data pos = Ok (Some (kv, pos'))" and "pos < length data"
  shows "pos < pos' \<and> pos' \<le> length data"
proof -
  obtain c where c: "read_chunk data pos = Ok c" using assms by (auto simp: decode_entry_def obind_Ok_iff)
  obtain key p where k: "c = Some (key, p)" using assms c by (cases c) (auto simp: decode_entry_def)
  obtain c' where c': "read_chunk data p = Ok c'" using assms c k by (auto simp: decode_entry_def obind_Ok_iff)
  obtain val p' where v: "c' = Some (val, p')" using assms c k c' by (cases c') (auto simp: decode_entry_def)
  have "p' = pos'" using assms c k c' v by (simp add: decode_entry_def)
  then show ?thesis
    using read_chunk_progress [of data pos key p] read_chunk_forward [of data p val p'] assms(2) c k c' v by simp
qed

function decode_segment :: "bytes \<Rightarrow> nat \<Rightarrow> nat \<Rightarrow> (sst_error, (bytes \<times> bytes) list) outcome" where
  "decode_segment data stop pos =
     (if pos < stop \<and> pos < length data then
        (case decode_entry data pos of
           Ok (Some (kv, pos')) \<Rightarrow> obind (decode_segment data stop pos') (\<lambda>kvs. Ok (kv # kvs))
         | Ok None \<Rightarrow> Ok []
         | Fail err \<Rightarrow> Fail err
         | Panic \<Rightarrow> Panic)
      else Ok [])"
  by pat_completeness auto
termination
  by (relation "measure (\<lambda>(data, stop, pos). length data - pos)") (auto dest: decode_entry_progress)

declare decode_segment.simps [simp del]

fun decode_segments :: "bytes \<Rightarrow> nat list \<Rightarrow> (sst_error, (bytes \<times> bytes) list) outcome" where
  "decode_segments data [] = Ok []"
| "decode_segments data (p # ps) =
     obind (decode_segment data (case ps of [] \<Rightarrow> length data | q # _ \<Rightarrow> q) p)
       (\<lambda>kvs. obind (decode_segments data ps) (\<lambda>rest. Ok (kvs @ rest)))"

definition restart_points :: "bytes \<Rightarrow> nat \<Rightarrow> nat list" where
  "restart_points data rc =
     (if rc = 0 then [0]
      else map (\<lambda>i. unat (get_u32 (drop (length data - 8 - rc * 4 + i * 4) data))) [0..<rc])"

definition decode_block :: "bytes \<Rightarrow> (sst_error, (bytes \<times> bytes) list) outcome" where
  "decode_block data =
     (if length data < 8 then Fail ErrInvalidSSTFormat
      else let body = take (length data - 8) data;
               rc = unat (get_u32 (drop (length data - 8) data))
           in if crc_koopman body \<noteq> get_u32 (drop (length data - 4) data) then Fail ErrInvalidSSTFormat
              else if length data - 8 < rc * 4 then Fail ErrInvalidSSTFormat
              else decode_segments body (restart_points data rc))"

text \<open>The binary search of \<open>searchIndex\<close>.\<close>

function bin_search :: "index_entry list \<Rightarrow> bytes \<Rightarrow> int \<Rightarrow> int \<Rightarrow> int" where
  "bin_search ix key lo hi =
     (if lo \<le> hi then
        let mid = (lo + hi) div 2
        in if 0 \<le> bytes_compare (ix_largest (ix ! nat mid)) key then bin_search ix key lo (mid - 1)
           else bin_search ix key (mid + 1) hi
      else lo)"
  by pat_completeness auto
termination
  by (relation "measure (\<lambda>(ix, key, lo, hi). nat (hi - lo + 1))") auto

declare bin_search.simps [simp del]

definition search_index :: "sst_reader \<Rightarrow> bytes \<Rightarrow> int" where
  "search_index r key =
     (if sr_index r = [] then - 1
      else let lo = bin_search (sr_index r) key 0 (int (length (sr_index r)) - 1)
           in if int (length (sr_index r)) \<le> lo then int (length (sr_index r)) - 1 else if lo < 0 then 0 else lo)"

text \<open>The scan of \<open>Find\<close> over the pairs of a block, which stops at a larger key.\<close>

fun scan_pairs :: "bytes \<Rightarrow> (bytes \<times> bytes) list \<Rightarrow> bytes option" where
  "scan_pairs key [] = None"
| "scan_pairs key ((k, v) # kvs) =
     (if bytes_compare k key = 0 then Some v else if 0 < bytes_compare k key then None else scan_pairs key kvs)"

definition sst_find :: "sst_env \<Rightarrow> sst_reader \<Rightarrow> bytes \<Rightarrow> (sst_error, bytes option) outcome" where
  "sst_find E r key =
     (if \<not> may_contain r key then Ok None
      else let i = search_index r key
           in if i < 0 \<or> int (length (sr_index r)) \<le> i then Ok None
              else let e = sr_index r ! nat i
                   in obind (read_block E r (ix_off e) (ix_size e)) (\<lambda>b. case b of
                        None \<Rightarrow> Ok None
                      | Some data \<Rightarrow> (case decode_block data of
                          Ok kvs \<Rightarrow> Ok (scan_pairs key kvs)
                        | Fail _ \<Rightarrow> Ok None
                        | Panic \<Rightarrow> Panic)))"

text \<open>The iterator. \<open>None\<close> pairs are the nil slice, also what a block without pairs decodes to.\<close>

record sst_iter =
  si_block :: int
  si_pair :: nat
  si_pairs :: "(bytes \<times> bytes) list option"

definition new_sst_iter :: sst_iter where
  "new_sst_iter = \<lparr>si_block = - 1, si_pair = 0, si_pairs = None\<rparr>"

definition load_block :: "sst_env \<Rightarrow> sst_reader \<Rightarrow> int \<Rightarrow> sst_iter \<Rightarrow> (sst_error, bool \<times> sst_iter) outcome" where
  "load_block E r i it =
     (if i < 0 \<or> int (length (sr_index r)) \<le> i then Ok (False, it)
      else let e = sr_index r ! nat i
           in obind (read_block E r (ix_off e) (ix_size e))
             (\<lambda>b. case decode_block (case b of None \<Rightarrow> [] | Some d \<Rightarrow> d) of
                Ok kvs \<Rightarrow> Ok (True, \<lparr>si_block = i, si_pair = 0, si_pairs = (if kvs = [] then None else Some kvs)\<rparr>)
              | Fail _ \<Rightarrow> Ok (False, it\<lparr>si_pairs := None\<rparr>)
              | Panic \<Rightarrow> Panic))"

definition pairs_of :: "sst_iter \<Rightarrow> (bytes \<times> bytes) list" where
  "pairs_of it = (case si_pairs it of None \<Rightarrow> [] | Some kvs \<Rightarrow> kvs)"

definition advance_to :: "sst_env \<Rightarrow> sst_reader \<Rightarrow> int \<Rightarrow> sst_iter \<Rightarrow> (sst_error, bool \<times> sst_iter) outcome" where
  "advance_to E r i it =
     obind (load_block E r i it) (\<lambda>(ok, it'). Ok (ok \<and> si_pair it' < length (pairs_of it'), it'))"

definition sst_iter_next :: "sst_env \<Rightarrow> sst_reader \<Rightarrow> sst_iter \<Rightarrow> (sst_error, bool \<times> sst_iter) outcome" where
  "sst_iter_next E r it =
     (case si_pairs it of
        None \<Rightarrow> advance_to E r 0 it
      | Some kvs \<Rightarrow> if si_pair it + 1 < length kvs then Ok (True, it\<lparr>si_pair := si_pair it + 1\<rparr>)
                    else advance_to E r (si_block it + 1) it)"

text \<open>\<open>Key\<close> and \<open>Value\<close>: a nil slice when no pair is loaded.\<close>

definition sst_iter_entry :: "sst_iter \<Rightarrow> bytes \<times> bytes" where
  "sst_iter_entry it = (if si_pair it < length (pairs_of it) then pairs_of it ! si_pair it else ([], []))"

text \<open>A loop \<open>for it.Next()\<close> over at most \<open>fuel\<close> pairs.\<close>

fun sst_scan :: "nat \<Rightarrow> sst_env \<Rightarrow> sst_reader \<Rightarrow> sst_iter \<Rightarrow> (sst_error, (bytes \<times> bytes) list) outcome" where
  "sst_scan 0 E r it = Ok []"
| "sst_scan (Suc fuel) E r it =
     obind (sst_iter_next E r it) (\<lambda>(more, it').
       if more then obind (sst_scan fuel E r it') (\<lambda>kvs. Ok (sst_iter_entry it' # kvs)) else Ok [])"

subsection \<open>Varints round trip\<close>

lemma signed_drop_nonneg:
  assumes "unat (v :: u64) < 2 ^ 63"
  shows "signed_drop_bit 7 v = drop_bit 7 v" and "unat (drop_bit 7 v) < 2 ^ 63"
proof -
  have "v < 2 ^ 63" using assms by (simp add: word_less_nat_alt)
  then have "take_bit 63 v = v" by (simp add: less_mask_eq take_bit_eq_mask)
  then have "\<not> bit v 63" by (metis bit_take_bit_iff less_irrefl)
  then show "signed_drop_bit 7 v = drop_bit 7 v"
    by (intro bit_word_eqI) (auto simp: bit_simps dest: bit_imp_le_length)
  show "unat (drop_bit 7 v) < 2 ^ 63" using assms by (simp add: unat_drop_bit div_le_dividend [THEN le_less_trans])
qed

lemma low_part:
  assumes "drop_bit 7 (v :: u64) = 0"
  shows "v AND 0x7F = v" and "unat v < 128"
proof -
  have "unat v div 128 = 0" using arg_cong [OF assms, of unat] by (simp add: unat_drop_bit)
  then show u: "unat v < 128" by auto
  have m: "(0x7F :: u64) = mask 7" by (simp add: mask_eq_exp_minus_1)
  have "v < 2 ^ 7" using u by (simp add: word_less_nat_alt)
  then show "v AND 0x7F = v" unfolding m by (rule less_mask_eq)
qed

lemma low_byte:
  assumes "drop_bit 7 (v :: u64) = 0"
  shows "(ucast v :: byte) < 0x80" and "ucast (ucast v :: byte) = v"
proof -
  have u: "unat v < 128" by (rule low_part(2) [OF assms])
  then show "(ucast v :: byte) < 0x80" by (simp add: word_less_nat_alt unat_ucast_byte)
  have e: "LENGTH(8) = 8" "LENGTH(64) = 64" by simp_all
  have t: "take_bit 8 (unat v) = unat v" "take_bit 64 (unat v) = unat v"
    using u by (simp_all only: take_bit_nat_eq_self_iff) simp_all
  have "unat (ucast (ucast v :: byte) :: u64) = unat v"
    by (simp only: unsigned_ucast_eq ucast_id unsigned_take_bit_eq e t)
  then show "ucast (ucast v :: byte) = v" by (simp add: word_unat_eq_iff)
qed

lemma low_continues: "\<not> (ucast ((v :: u64) AND 0x7F) OR 0x80 :: byte) < 0x80"
proof -
  have "(0x80 :: byte) \<le> ucast (v AND 0x7F) OR 0x80"
    by (subst or.commute) (rule le_word_or2)
  then show ?thesis by simp
qed
lemma varint_parts:
  "push_bit s (ucast ((ucast (v AND 0x7F) OR 0x80 :: byte) AND 0x7F) :: u64) OR push_bit (s + 7) (drop_bit 7 v) = push_bit s v"
proof -
  have "(ucast (v AND 0x7F) OR 0x80 :: byte) AND 0x7F = (ucast v OR 0x80) AND 0x7F"
    by (rule bit_word_eqI) (auto simp: bit_simps bit_0x80_iff bit_0x7F_iff)
  then show ?thesis using uvarint_byte_parts by simp
qed

lemma mt_decode_encode_loop:
  "unat v < 2 ^ (7 * room) \<Longrightarrow> unat v < 2 ^ 63 \<Longrightarrow> 0 < room \<Longrightarrow>
   mt_decode_loop x s i (mt_encode_loop room v @ rest) = (x OR push_bit s v, i + length (mt_encode_loop room v))"
proof (induction room arbitrary: v x s i)
  case (Suc room)
  note sd = signed_drop_nonneg [OF Suc.prems(2)]
  show ?case
  proof (cases "drop_bit 7 v = 0")
    case True
    then show ?thesis using low_byte low_part sd by simp
  next
    case False
    have u: "unat (drop_bit 7 v) < 2 ^ (7 * room)"
    proof -
      have "7 * Suc room = 7 * room + 7" by simp
      then have "unat v < 2 ^ (7 * room) * 2 ^ 7" using Suc.prems(1) by (simp only: power_add)
      then show ?thesis unfolding unat_drop_bit by (rule less_mult_imp_div_less)
    qed
    have "room \<noteq> 0"
    proof
      assume "room = 0"
      then have "unat (drop_bit 7 v) = 0" using u by simp
      then show False using False by (simp add: unat_eq_zero)
    qed
    then have "mt_decode_loop (x OR push_bit s (ucast ((ucast (v AND 0x7F) OR 0x80 :: byte) AND 0x7F))) (s + 7) (i + 1)
        (mt_encode_loop room (drop_bit 7 v) @ rest)
      = ((x OR push_bit s (ucast ((ucast (v AND 0x7F) OR 0x80 :: byte) AND 0x7F))) OR push_bit (s + 7) (drop_bit 7 v),
         i + 1 + length (mt_encode_loop room (drop_bit 7 v)))"
      using u sd(2) by (intro Suc.IH) auto
    then show ?thesis using False low_continues [of v] by (simp add: sd(1) Let_def or.assoc varint_parts)
  qed
qed simp

lemma length_len_varint: "length b < 2 ^ 63 \<Longrightarrow> 0 < length (len_varint b) \<and> length (len_varint b) \<le> 10"
proof -
  have "length (mt_encode_loop n v) \<le> n" for n and v :: u64
    by (induction n arbitrary: v) (auto simp: Let_def)
  moreover have "mt_encode_loop 10 v \<noteq> []" for v :: u64
    using mt_encode_loop.simps(2) [of 9 v] by (simp add: Let_def)
  ultimately show ?thesis by (simp add: len_varint_def mt_encode_varint_def)
qed

lemma unat_length: "length (b :: bytes) < 2 ^ 63 \<Longrightarrow> unat (of_nat (length b) :: u64) = length b"
  by (simp add: unat_of_nat_u64)

lemma decode_len_varint:
  assumes "length b < 2 ^ 63"
  shows "mt_decode_varint (len_varint b @ rest) = (of_nat (length b), length (len_varint b))"
proof -
  have "unat (of_nat (length b) :: u64) < 2 ^ 63" using assms by (simp add: unat_length)
  moreover from this have "unat (of_nat (length b) :: u64) < 2 ^ (7 * 10)" by simp
  ultimately show ?thesis
    using mt_decode_encode_loop [of "of_nat (length b)" 10 0 0 0 rest]
    by (simp add: mt_decode_varint_def len_varint_def mt_encode_varint_def)
qed

text \<open>A length-prefixed string is read back from any position.\<close>

lemma read_chunk_put [codec_rt]:
  assumes "length (pre @ len_varint b @ b @ rest) < 2 ^ 63"
  shows "read_chunk (pre @ len_varint b @ b @ rest) (length pre) = Ok (Some (b, length (pre @ len_varint b @ b)))"
proof -
  have b: "length b < 2 ^ 63" using assms by simp
  have s: "sint (of_nat (length b) :: u64) = int (length b)" using b by (simp add: sint_u64_small unat_length)
  let ?p = "length pre + length (len_varint b)"
  have "length pre + (length (len_varint b) + (length b + length rest)) < 2 ^ 63" using assms by simp
  then have w: "wrap64 (int ?p + int (length b)) = int (?p + length b)"
    by (subst wrap64_id) simp_all
  have sl: "(go_slice (pre @ len_varint b @ b @ rest) (int ?p) (int (?p + length b)) :: (sst_error, bytes) outcome) = Ok b"
    by (subst go_slice_Ok) (simp_all add: sub_def)
  show ?thesis using b s w sl by (simp add: read_chunk_def decode_len_varint Let_def nat_int_add)
qed

lemma decode_entry_put:
  assumes "length (pre @ entry_bytes kv @ rest) < 2 ^ 63"
  shows "decode_entry (pre @ entry_bytes kv @ rest) (length pre) = Ok (Some (kv, length (pre @ entry_bytes kv)))"
proof -
  obtain k v where kv: "kv = (k, v)" by (cases kv)
  let ?r = "len_varint v @ v @ rest"
  have c1: "read_chunk (pre @ len_varint k @ k @ ?r) (length pre) = Ok (Some (k, length (pre @ len_varint k @ k)))"
    using assms by (intro read_chunk_put) (simp add: entry_bytes_def kv)
  have "read_chunk ((pre @ len_varint k @ k) @ len_varint v @ v @ rest) (length (pre @ len_varint k @ k))
      = Ok (Some (v, length ((pre @ len_varint k @ k) @ len_varint v @ v)))"
    using assms by (intro read_chunk_put) (simp add: entry_bytes_def kv)
  then show ?thesis using c1 by (simp add: decode_entry_def entry_bytes_def kv)
qed

lemma entry_bytes_not_Nil [simp]: "length (fst kv) < 2 ^ 63 \<Longrightarrow> entry_bytes kv \<noteq> []"
  using length_len_varint [of "fst kv"] by (auto simp: entry_bytes_def)

lemma decode_segment_put:
  "length (pre @ concat (map entry_bytes kvs)) < 2 ^ 62 \<Longrightarrow>
   decode_segment (pre @ concat (map entry_bytes kvs)) (length (pre @ concat (map entry_bytes kvs))) (length pre) = Ok kvs"
proof (induction kvs arbitrary: pre)
  case Nil
  then show ?case by (simp add: decode_segment.simps)
next
  case (Cons kv kvs)
  let ?all = "pre @ concat (map entry_bytes (kv # kvs))"
  have "length (fst kv) < 2 ^ 63" using Cons.prems by (simp add: entry_bytes_def)
  then have ne: "entry_bytes kv \<noteq> []" by simp
  have d: "decode_entry ?all (length pre) = Ok (Some (kv, length (pre @ entry_bytes kv)))"
    using decode_entry_put [of pre kv "concat (map entry_bytes kvs)"] Cons.prems by simp
  have r: "decode_segment ?all (length ?all) (length (pre @ entry_bytes kv)) = Ok kvs"
    using Cons.IH [of "pre @ entry_bytes kv"] Cons.prems by simp
  have "length pre < length ?all" using ne by simp
  then show ?case
    by (subst decode_segment.simps) (simp only: d r simp_thms if_True outcome.case option.case prod.case obind.simps)
qed

text \<open>A sealed block decodes to its entries; any other checksum is refused.\<close>

lemma decode_block_seal:
  assumes "length (concat (map entry_bytes kvs)) < 2 ^ 62"
  shows "decode_block (seal_block (concat (map entry_bytes kvs))) = Ok kvs"
proof -
  let ?b = "concat (map entry_bytes kvs)"
  have z: "get_u32 ([0, 0, 0, 0] @ put_u32 c) = 0" for c
    by (simp add: get_u32_def)
  have s: "seal_block ?b = (?b @ [0, 0, 0, 0]) @ put_u32 (crc_koopman ?b)" by (simp add: seal_block_def)
  have d4: "drop (length (seal_block ?b) - 4) (seal_block ?b) = put_u32 (crc_koopman ?b)"
    unfolding s by (simp del: append_assoc)
  have d8: "drop (length (seal_block ?b) - 8) (seal_block ?b) = [0, 0, 0, 0] @ put_u32 (crc_koopman ?b)"
    by (simp add: seal_block_def)
  have t: "take (length (seal_block ?b) - 8) (seal_block ?b) = ?b" by (simp add: seal_block_def)
  have "decode_segment ?b (length ?b) 0 = Ok kvs" using decode_segment_put [of "[]" kvs] assms by simp
  then show ?thesis
    unfolding decode_block_def d4 d8 t z by (simp add: seal_block_def restart_points_def)
qed

subsection \<open>Bloom filters\<close>

lemma test_bloom_bit: "test_bloom b f = bit (f ! (b div 8)) (b mod 8)"
  by (simp add: test_bloom_def bit_iff_and_push_bit_not_eq_0)

lemma length_set_bloom [simp]: "length (set_bloom b f) = length f"
  by (simp add: set_bloom_def)

lemma test_set_bloom: "b div 8 < length f \<Longrightarrow> test_bloom b (set_bloom b f)"
  by (simp add: test_bloom_bit set_bloom_def bit_simps)

lemma test_bloom_mono: "test_bloom b f \<Longrightarrow> test_bloom b (set_bloom c f)"
  by (cases "c div 8 < length f"; cases "c div 8 = b div 8")
    (auto simp: test_bloom_bit set_bloom_def bit_simps not_less list_update_beyond)

definition in_bloom :: "bytes \<Rightarrow> nat \<Rightarrow> bytes \<Rightarrow> bool" where
  "in_bloom key bits f = (case buckets key bits of (b1, b2) \<Rightarrow> test_bloom b1 f \<and> test_bloom b2 f)"

lemma length_set_bloom_bit [simp]: "length (set_bloom_bit sz key f) = length f"
  by (simp add: set_bloom_bit_def buckets_def)

lemma in_bloom_set: "0 < sz \<Longrightarrow> length f = sz \<Longrightarrow> in_bloom key (sz * 8) (set_bloom_bit sz key f)"
  by (simp add: in_bloom_def set_bloom_bit_def buckets_def test_bloom_mono test_set_bloom less_mult_imp_div_less)

lemma in_bloom_mono: "in_bloom key bits f \<Longrightarrow> in_bloom key bits (set_bloom_bit sz k f)"
  by (simp add: in_bloom_def set_bloom_bit_def buckets_def test_bloom_mono)

lemma length_fold_bloom [simp]: "length (fold (set_bloom_bit sz) keys f) = length f"
  by (induction keys arbitrary: f) auto

lemma fold_bloom_mono: "in_bloom key bits f \<Longrightarrow> in_bloom key bits (fold (set_bloom_bit sz) keys f)"
  by (induction keys arbitrary: f) (auto simp: in_bloom_mono)

lemma fold_bloom_complete:
  "0 < sz \<Longrightarrow> length f = sz \<Longrightarrow> key \<in> set keys \<Longrightarrow> in_bloom key (sz * 8) (fold (set_bloom_bit sz) keys f)"
  by (induction keys arbitrary: f) (auto simp: in_bloom_set fold_bloom_mono)

lemma bloom_size_pos [simp]: "0 < bloom_size_for n"
  by (simp add: bloom_size_for_def div_greater_zero_iff)

lemma length_set_prefix_bloom_bit [simp]: "length (set_prefix_bloom_bit sz key f) = length f"
  by (simp add: set_prefix_bloom_bit_def buckets_def Let_def)

lemma length_fold_prefix_bloom [simp]: "length (fold (\<lambda>k. set_prefix_bloom_bit sz (take 8 k)) keys f) = length f"
  by (induction keys arbitrary: f) auto

subsection \<open>Compression round trips\<close>

lemma decompress_plain:
  assumes "flate_ok E" and "b \<noteq> []"
  shows "decompress_block_dict E (compress_block_plain E b) = Ok b \<or>
    decompress_block_dict E (compress_block_plain E b) = Fail ErrInvalidSSTFormat \<and>
    decompress_block_plain E (compress_block_plain E b) = Ok b"
proof -
  have i: "se_inflate E [] (se_deflate E [] b) = Some b" using assms(1) by (simp add: flate_ok_def)
  have "0 < length b" using assms(2) by simp
  then show ?thesis using i
    by (auto simp: compress_block_plain_def decompress_block_dict_def decompress_block_plain_def Let_def inflated_def not_less)
qed

lemma length_pack_dict: "length dict \<le> mx \<Longrightarrow> length (pack_dict mx dict ps) \<le> mx"
  by (induction mx dict ps rule: pack_dict.induct) auto

lemma length_dict_train: "length (dict_train E mx b) \<le> mx"
  using length_pack_dict [of "[]"] by (simp add: dict_train_def Let_def)

lemma decompress_block_compress:
  assumes "flate_ok E" and "b \<noteq> []"
  shows "decompress_block_dict E (compress_block_dict E b) = Ok b \<or>
    decompress_block_dict E (compress_block_dict E b) = Fail ErrInvalidSSTFormat \<and>
    decompress_block_plain E (compress_block_dict E b) = Ok b"
proof -
  define dict where "dict = dict_train E 4096 b"
  show ?thesis
  proof (cases "dict = [] \<or> length b \<le> length (se_deflate E dict b)")
    case True
    then have "compress_block_dict E b = compress_block_plain E b"
      using assms(2) by (auto simp: compress_block_dict_def dict_def [symmetric] Let_def)
    then show ?thesis using decompress_plain [OF assms] by simp
  next
    case False
    let ?c = "se_deflate E dict b"
    have c: "compress_block_dict E b = 2 # put_uvarint (of_nat (length dict)) @ dict @ ?c"
      using False assms(2) by (simp add: compress_block_dict_def dict_def [symmetric] Let_def)
    have d: "length dict \<le> 4096" using length_dict_train by (simp add: dict_def)
    then have u: "unat (of_nat (length dict) :: u64) = length dict" by (simp add: unat_of_nat_u64)
    have s: "sint (of_nat (length dict) :: u64) = int (length dict)" using d u by (simp add: sint_u64_small)
    have sl: "(go_slice (dict @ ?c) 0 (int (length dict)) :: (sst_error, bytes) outcome) = Ok dict"
      using go_slice_Ok [of 0 "length dict" "dict @ ?c"] by (simp add: sub_def)
    have l: "2 \<le> length (compress_block_dict E b)"
      using length_put_uvarint_pos [of "of_nat (length dict)"] by (simp add: c Suc_le_eq del: length_greater_0_conv)
    have i: "se_inflate E dict ?c = Some b" using assms(1) by (simp add: flate_ok_def)
    have "decompress_block_dict E (2 # put_uvarint (of_nat (length dict)) @ dict @ ?c) = Ok b"
      using l u s sl i by (simp add: decompress_block_dict_def c inflated_def Let_def)
    then show ?thesis by (simp add: c)
  qed
qed

lemma compress_not_Nil: "b \<noteq> [] \<Longrightarrow> compress_block_dict E b \<noteq> []"
  by (simp add: compress_block_dict_def compress_block_plain_def Let_def)

text \<open>What \<open>readBlock\<close> gives for a block that lies at \<open>off\<close>.\<close>

lemma read_block_put:
  assumes "flate_ok E" and "b \<noteq> []" and "sr_data r = pre @ compress_block_dict E b @ post"
    and "length (sr_data r) < 2 ^ 62"
  shows "read_block E r (int (length pre)) (int (length (compress_block_dict E b))) = Ok (Some b)"
proof -
  let ?c = "compress_block_dict E b"
  have "length pre + length ?c < 2 ^ 62" using assms(3,4) by simp
  then have w: "wrap64 (int (length pre) + int (length ?c)) = int (length pre + length ?c)"
    by (subst wrap64_id) simp_all
  have sl: "(go_slice (sr_data r) (int (length pre)) (int (length pre + length ?c)) :: (sst_error, bytes) outcome) = Ok ?c"
    using assms(3) by (subst go_slice_Ok) (simp_all add: sub_def)
  have ne: "?c \<noteq> []" by (rule compress_not_Nil [OF assms(2)])
  then have "\<not> int (length (sr_data r)) \<le> int (length pre)" "\<not> int (length (sr_data r)) < int (length pre + length ?c)"
    using assms(3) by (simp_all del: length_greater_0_conv add: length_greater_0_conv [symmetric] not_le)
  then show ?thesis using decompress_block_compress [OF assms(1,2)] w sl
    by (auto simp: read_block_def Let_def)
qed

subsection \<open>What the writer builds\<close>

definition enc_entries :: "(bytes \<times> bytes) list \<Rightarrow> bytes" where
  "enc_entries g = concat (map entry_bytes g)"

lemma enc_entries_simps [simp]:
  "enc_entries (a @ b) = enc_entries a @ enc_entries b" "enc_entries [] = []" "enc_entries [kv] = entry_bytes kv"
  by (simp_all add: enc_entries_def)

definition fits :: "(bytes \<times> bytes) list \<Rightarrow> bool" where
  "fits kvs \<longleftrightarrow> length (enc_entries kvs) < 2 ^ 62"

lemma fits_append: "fits (a @ b) \<Longrightarrow> fits a" "fits (a @ b) \<Longrightarrow> fits b"
  by (simp_all add: fits_def)

lemma fits_ne: "fits g \<Longrightarrow> g \<noteq> [] \<Longrightarrow> enc_entries g \<noteq> []"
  using entry_bytes_not_Nil [of "hd g"] by (cases g) (auto simp: fits_def enc_entries_def entry_bytes_def)

text \<open>The entries of the writer, grouped by block: finished groups \<open>gs\<close> and the open one \<open>g\<close>.\<close>

definition sw_groups :: "sst_writer \<Rightarrow> (bytes \<times> bytes) list list \<Rightarrow> (bytes \<times> bytes) list \<Rightarrow> bool" where
  "sw_groups w gs g \<longleftrightarrow>
     sw_blocks w = map (\<lambda>g. seal_block (enc_entries g)) gs @ [enc_entries g] \<and>
     map ix_largest (sw_index w) = map (\<lambda>g. fst (last g)) gs \<and> [] \<notin> set gs \<and> g \<noteq> [] \<and>
     sw_keys w = map fst (concat gs @ g) \<and> sw_count w = length (concat gs @ g) \<and> sw_last w = fst (last g)"

lemma note_range_simps [simp]:
  "sw_blocks (note_range key w) = sw_blocks w" "sw_index (note_range key w) = sw_index w"
  "sw_keys (note_range key w) = sw_keys w" "sw_count (note_range key w) = sw_count w"
  "sw_last (note_range key w) = sw_last w" "sw_off (note_range key w) = sw_off w"
  by (simp_all add: note_range_def Let_def)

lemma sw_add_first: "sw_groups (sst_add kv new_sst_writer) [] [kv]"
  by (simp add: sw_groups_def sst_add_def Let_def put_entry_def new_sst_writer_def enc_entries_def)

lemma sw_add:
  assumes "sw_groups w gs g" and "fits g"
  shows "sw_groups (sst_add kv w) gs (g @ [kv]) \<or> sw_groups (sst_add kv w) (gs @ [g]) [kv]"
proof -
  note w = assms(1) [unfolded sw_groups_def]
  have g: "enc_entries g \<noteq> []" using w fits_ne [OF assms(2)] by simp
  show ?thesis
  proof (cases "sst_block_size < length (enc_entries g) + length (entry_bytes kv)")
    case True
    then have "sst_add kv w = put_entry (fst kv) (entry_bytes kv)
        ((finish_current_block (note_range (fst kv) w))
           \<lparr>sw_blocks := sw_blocks (finish_current_block (note_range (fst kv) w)) @ [[]]\<rparr>)"
      using w g by (simp add: sst_add_def Let_def)
    then have "sw_groups (sst_add kv w) (gs @ [g]) [kv]"
      using w g by (auto simp: sw_groups_def put_entry_def finish_current_block_def Let_def butlast_append)
    then show ?thesis by blast
  next
    case False
    then have "sst_add kv w = put_entry (fst kv) (entry_bytes kv) (note_range (fst kv) w)"
      using w g by (simp add: sst_add_def Let_def)
    then have "sw_groups (sst_add kv w) gs (g @ [kv])"
      using w by (simp add: sw_groups_def put_entry_def)
    then show ?thesis by blast
  qed
qed

lemma sw_build:
  assumes "kvs \<noteq> []" and "fits kvs"
  shows "\<exists>gs g. sw_groups (fold sst_add kvs new_sst_writer) gs g \<and> concat gs @ g = kvs"
  using assms
proof (induction kvs rule: rev_induct)
  case (snoc kv kvs)
  let ?w = "fold sst_add kvs new_sst_writer"
  have f: "fold sst_add (kvs @ [kv]) new_sst_writer = sst_add kv ?w" by simp
  show ?case
  proof (cases "kvs = []")
    case True
    have "sw_groups (sst_add kv ?w) [] [kv] \<and> concat [] @ [kv] = kvs @ [kv]"
      unfolding True fold.simps id_apply append_Nil concat.simps by (rule conjI [OF sw_add_first refl])
    then show ?thesis unfolding f by blast
  next
    case False
    obtain gs g where w: "sw_groups ?w gs g" and e: "concat gs @ g = kvs"
      using snoc.IH [OF False fits_append(1) [OF snoc.prems(2)]] by blast
    have "fits (concat gs @ g)" unfolding e by (rule fits_append(1) [OF snoc.prems(2)])
    then have "fits g" by (rule fits_append(2))
    from sw_add [OF w this, of kv] show ?thesis
    proof
      assume "sw_groups (sst_add kv ?w) gs (g @ [kv])"
      moreover have "concat gs @ g @ [kv] = kvs @ [kv]" unfolding e [symmetric] by (simp only: append_assoc)
      ultimately show ?thesis unfolding f by blast
    next
      assume "sw_groups (sst_add kv ?w) (gs @ [g]) [kv]"
      moreover have "concat (gs @ [g]) @ [kv] = kvs @ [kv]" unfolding e [symmetric] by (simp only: concat_append concat.simps append_Nil2)
      ultimately show ?thesis unfolding f by blast
    qed
  qed
qed simp

lemma sw_finish:
  assumes "sw_groups w gs g" and "fits g"
  defines "w' \<equiv> finish_current_block w"
  shows "sw_blocks w' = map (\<lambda>g. seal_block (enc_entries g)) (gs @ [g])"
    and "map ix_largest (sw_index w') = map (\<lambda>g. fst (last g)) (gs @ [g])"
    and "sw_keys w' = map fst (concat gs @ g)" and "sw_count w' = length (concat gs @ g)"
proof -
  note w = assms(1) [unfolded sw_groups_def]
  have "enc_entries g \<noteq> []" using w fits_ne [OF assms(2)] by simp
  then have w': "w' = w\<lparr>sw_blocks := map (\<lambda>g. seal_block (enc_entries g)) gs @ [seal_block (enc_entries g)],
      sw_index := sw_index w @ [\<lparr>ix_largest = sw_last w, ix_off = int (sw_off w), ix_size = int (length (seal_block (enc_entries g)))\<rparr>],
      sw_off := sw_off w + length (seal_block (enc_entries g))\<rparr>"
    using w by (simp add: w'_def finish_current_block_def Let_def)
  show "sw_blocks w' = map (\<lambda>g. seal_block (enc_entries g)) (gs @ [g])"
    "map ix_largest (sw_index w') = map (\<lambda>g. fst (last g)) (gs @ [g])"
    "sw_keys w' = map fst (concat gs @ g)" "sw_count w' = length (concat gs @ g)"
    unfolding w' using w by simp_all
qed

subsection \<open>The index\<close>

text \<open>Where \<open>Finish\<close> puts the compressed blocks.\<close>

fun placed :: "bytes list \<Rightarrow> nat \<Rightarrow> bytes list \<Rightarrow> index_entry list" where
  "placed (k # ks) off (c # cs) = \<lparr>ix_largest = k, ix_off = int off, ix_size = int (length c)\<rparr> # placed ks (off + length c) cs"
| "placed ks off cs = []"

lemma starts_not_Nil: "\<exists>xs. starts off cs = off # xs"
  by (cases cs) auto

lemma place_placed: "length es = length cs \<Longrightarrow> place es (starts off cs) = placed (map ix_largest es) off cs"
proof (induction es arbitrary: off cs)
  case (Cons e es)
  then obtain c cs' where c: "cs = c # cs'" "length es = length cs'" by (cases cs) auto
  obtain xs where xs: "starts (off + length c) cs' = (off + length c) # xs" using starts_not_Nil by blast
  show ?case using Cons.IH [OF c(2), of "off + length c"] xs by (simp add: c)
qed (cases cs; simp)

lemma length_placed: "length ks = length cs \<Longrightarrow> length (placed ks off cs) = length cs"
  by (induction ks off cs rule: placed.induct) auto

lemma placed_nth:
  "length ks = length cs \<Longrightarrow> i < length cs \<Longrightarrow>
   placed ks off cs ! i = \<lparr>ix_largest = ks ! i, ix_off = int (off + length (concat (take i cs))), ix_size = int (length (cs ! i))\<rparr>"
  by (induction ks off cs arbitrary: i rule: placed.induct) (auto simp: nth_Cons' take_Cons' less_Suc_eq_0_disj)

definition ix_ok :: "index_entry \<Rightarrow> bool" where
  "ix_ok e \<longleftrightarrow> 0 \<le> ix_off e \<and> ix_off e < 2 ^ 62 \<and> 0 \<le> ix_size e \<and> ix_size e < 2 ^ 62"

lemma sint_of_int: "0 \<le> i \<Longrightarrow> i < 2 ^ 62 \<Longrightarrow> sint (word_of_int i :: u64) = i"
  using wrap64_id [of i] by (simp add: wrap64_def)

lemma parse_index_put:
  "list_all ix_ok es \<Longrightarrow> length (pre @ concat (map index_bytes es)) < 2 ^ 62 \<Longrightarrow>
   parse_index (pre @ concat (map index_bytes es)) (length pre) = Ok es"
proof (induction es arbitrary: pre)
  case Nil
  then show ?case by (simp add: parse_index.simps)
next
  case (Cons e es)
  let ?rest = "concat (map index_bytes es)"
  let ?o = "put_u64 (word_of_int (ix_off e))" and ?s = "put_u64 (word_of_int (ix_size e))"
  let ?all = "pre @ len_varint (ix_largest e) @ ix_largest e @ ?o @ ?s @ ?rest"
  let ?p = "length (pre @ len_varint (ix_largest e) @ ix_largest e)"
  have all: "pre @ concat (map index_bytes (e # es)) = ?all" by (simp add: index_bytes_def)
  have len: "length ?all < 2 ^ 62" using Cons.prems(2) unfolding all by simp
  have c: "read_chunk ?all (length pre) = Ok (Some (ix_largest e, ?p))"
    using read_chunk_put [of pre "ix_largest e" "?o @ ?s @ ?rest"] len by simp
  have d: "drop ?p ?all = ?o @ ?s @ ?rest" "drop (?p + 8) ?all = ?s @ ?rest" by simp_all
  have "sint (get_u64 (drop ?p ?all)) = ix_off e" "sint (get_u64 (drop (?p + 8) ?all)) = ix_size e"
    unfolding d using Cons.prems(1) by (simp_all add: ix_ok_def sint_of_int)
  then have pe: "parse_index_entry ?all (length pre) = Ok (Some (e, ?p + 16))"
    unfolding parse_index_entry_def c by simp
  have "parse_index ((pre @ index_bytes e) @ ?rest) (length (pre @ index_bytes e)) = Ok es"
    using Cons.prems by (intro Cons.IH) auto
  moreover have "(pre @ index_bytes e) @ ?rest = ?all" "length (pre @ index_bytes e) = ?p + 16"
    by (simp_all add: index_bytes_def)
  ultimately have ih: "parse_index ?all (?p + 16) = Ok es" by (simp only:)
  show ?case unfolding all
    by (subst parse_index.simps) (simp only: pe ih outcome.case option.case prod.case obind.simps, simp)
qed

subsection \<open>Reading a table back\<close>

text \<open>The reader \<open>r\<close> gives the blocks \<open>gs\<close> and its filter passes their keys.\<close>

definition block_at :: "sst_env \<Rightarrow> sst_reader \<Rightarrow> nat \<Rightarrow> (bytes \<times> bytes) list \<Rightarrow> bool" where
  "block_at E r i g \<longleftrightarrow>
     (\<exists>d. read_block E r (ix_off (sr_index r ! i)) (ix_size (sr_index r ! i)) = Ok (Some d) \<and> decode_block d = Ok g)"

definition sst_holds :: "sst_env \<Rightarrow> sst_reader \<Rightarrow> (bytes \<times> bytes) list list \<Rightarrow> bool" where
  "sst_holds E r gs \<longleftrightarrow>
     map ix_largest (sr_index r) = map (\<lambda>g. fst (last g)) gs \<and> [] \<notin> set gs \<and>
     (\<forall>i < length gs. block_at E r i (gs ! i)) \<and> (\<forall>kv \<in> set (concat gs). may_contain r (fst kv))"

lemma sst_holds_length: "sst_holds E r gs \<Longrightarrow> length (sr_index r) = length gs"
  unfolding sst_holds_def by (auto dest: map_eq_imp_length_eq)

lemma load_block_ok:
  assumes "sst_holds E r gs" and "i < length gs"
  shows "load_block E r (int i) it = Ok (True, \<lparr>si_block = int i, si_pair = 0, si_pairs = Some (gs ! i)\<rparr>)"
proof -
  have "gs ! i \<noteq> []" using assms by (metis nth_mem sst_holds_def)
  moreover have "block_at E r i (gs ! i)" using assms by (simp add: sst_holds_def)
  ultimately show ?thesis
    using assms sst_holds_length [OF assms(1)] by (auto simp: load_block_def block_at_def Let_def)
qed

lemma advance_ok:
  assumes "sst_holds E r gs" and "i < length gs"
  shows "advance_to E r (int i) it = Ok (True, \<lparr>si_block = int i, si_pair = 0, si_pairs = Some (gs ! i)\<rparr>)"
proof -
  have "gs ! i \<noteq> []" using assms by (metis nth_mem sst_holds_def)
  then show ?thesis using load_block_ok [OF assms] by (simp add: advance_to_def pairs_of_def)
qed

lemma advance_end:
  assumes "sst_holds E r gs" and "i = length gs"
  shows "\<exists>it'. advance_to E r (int i) it = Ok (False, it')"
  using sst_holds_length [OF assms(1)] assms(2) by (simp add: advance_to_def load_block_def)

text \<open>The pairs an iterator has still to visit.\<close>

definition at_pair :: "sst_iter \<Rightarrow> (bytes \<times> bytes) list list \<Rightarrow> nat \<Rightarrow> nat \<Rightarrow> bool" where
  "at_pair it gs i j \<longleftrightarrow> i < length gs \<and> j < length (gs ! i) \<and> it = \<lparr>si_block = int i, si_pair = j, si_pairs = Some (gs ! i)\<rparr>"

definition left :: "(bytes \<times> bytes) list list \<Rightarrow> nat \<Rightarrow> nat \<Rightarrow> (bytes \<times> bytes) list" where
  "left gs i j = drop (Suc j) (gs ! i) @ concat (drop (Suc i) gs)"

lemma block_ne: "sst_holds E r gs \<Longrightarrow> i < length gs \<Longrightarrow> 0 < length (gs ! i)"
  unfolding sst_holds_def by (metis length_greater_0_conv nth_mem)

lemma iter_next_ok:
  assumes h: "sst_holds E r gs" and at: "at_pair it gs i j"
  shows "left gs i j = [] \<and> (\<exists>it'. sst_iter_next E r it = Ok (False, it')) \<or>
    (\<exists>it' i' j'. sst_iter_next E r it = Ok (True, it') \<and> at_pair it' gs i' j' \<and>
       left gs i j = sst_iter_entry it' # left gs i' j')"
proof -
  have it: "it = \<lparr>si_block = int i, si_pair = j, si_pairs = Some (gs ! i)\<rparr>" and i: "i < length gs" and j: "j < length (gs ! i)"
    using at by (auto simp: at_pair_def)
  show ?thesis
  proof (cases "j + 1 < length (gs ! i)")
    case True
    let ?it = "it\<lparr>si_pair := j + 1\<rparr>"
    have "sst_iter_next E r it = Ok (True, ?it)" using True by (simp add: sst_iter_next_def it)
    moreover have "at_pair ?it gs i (j + 1)" using True i by (simp add: at_pair_def it)
    moreover have "left gs i j = sst_iter_entry ?it # left gs i (j + 1)"
      using True Cons_nth_drop_Suc [of "j + 1" "gs ! i"] by (simp add: left_def sst_iter_entry_def pairs_of_def it)
    ultimately show ?thesis by blast
  next
    case False
    then have n: "sst_iter_next E r it = advance_to E r (int (Suc i)) it" by (simp add: sst_iter_next_def it add.commute)
    have d: "drop (Suc j) (gs ! i) = []" using False by simp
    show ?thesis
    proof (cases "Suc i < length gs")
      case True
      let ?it = "\<lparr>si_block = int (Suc i), si_pair = 0, si_pairs = Some (gs ! Suc i)\<rparr>"
      have "at_pair ?it gs (Suc i) 0" using True block_ne [OF h] by (simp add: at_pair_def)
      moreover have "left gs i j = sst_iter_entry ?it # left gs (Suc i) 0"
        using d Cons_nth_drop_Suc [OF True, symmetric] block_ne [OF h True]
        by (cases "gs ! Suc i") (auto simp: left_def sst_iter_entry_def pairs_of_def)
      moreover have "sst_iter_next E r it = Ok (True, ?it)" unfolding n by (rule advance_ok [OF h True])
      ultimately show ?thesis by blast
    next
      case False
      then have "Suc i = length gs" using i by simp
      then have "\<exists>it'. sst_iter_next E r it = Ok (False, it')" unfolding n by (intro advance_end [OF h])
      moreover have "left gs i j = []" using d False by (simp add: left_def)
      ultimately show ?thesis by blast
    qed
  qed
qed

lemma scan_left:
  "sst_holds E r gs \<Longrightarrow> at_pair it gs i j \<Longrightarrow> length (left gs i j) \<le> fuel \<Longrightarrow> sst_scan fuel E r it = Ok (left gs i j)"
proof (induction fuel arbitrary: it i j)
  case (Suc fuel)
  from iter_next_ok [OF Suc.prems(1,2)] show ?case
  proof (elim disjE exE conjE)
    fix it' i' j' assume n: "sst_iter_next E r it = Ok (True, it')" "at_pair it' gs i' j'"
      "left gs i j = sst_iter_entry it' # left gs i' j'"
    then have "sst_scan fuel E r it' = Ok (left gs i' j')" using Suc.IH [OF Suc.prems(1) n(2)] Suc.prems(3) by simp
    then show ?thesis using n by simp
  qed simp
qed simp

lemma sst_scan_all:
  assumes h: "sst_holds E r gs" and f: "length (concat gs) \<le> fuel"
  shows "sst_scan fuel E r new_sst_iter = Ok (concat gs)"
proof (cases gs)
  case Nil
  then have "\<exists>it'. advance_to E r (int 0) new_sst_iter = Ok (False, it')" by (intro advance_end [OF h]) simp
  then show ?thesis using Nil by (cases fuel) (auto simp: sst_iter_next_def new_sst_iter_def)
next
  case (Cons g gs')
  let ?it = "\<lparr>si_block = int 0, si_pair = 0, si_pairs = Some (gs ! 0)\<rparr>"
  have l: "0 < length gs" using Cons by simp
  have at: "at_pair ?it gs 0 0" using l block_ne [OF h l] by (simp add: at_pair_def)
  have n: "sst_iter_next E r new_sst_iter = Ok (True, ?it)"
    using advance_ok [OF h l, of new_sst_iter] by (simp add: sst_iter_next_def new_sst_iter_def)
  obtain kv g' where g: "g = kv # g'" using block_ne [OF h l] Cons by (cases g) auto
  have c: "concat gs = sst_iter_entry ?it # left gs 0 0"
    by (simp add: Cons g left_def sst_iter_entry_def pairs_of_def)
  obtain f' where f': "fuel = Suc f'" "length (left gs 0 0) \<le> f'" using f c by (cases fuel) auto
  show ?thesis using scan_left [OF h at f'(2)] n c f' by simp
qed

subsection \<open>Find\<close>

lemma concat_split: "i < length gs \<Longrightarrow> concat gs = concat (take i gs) @ gs ! i @ concat (drop (Suc i) gs)"
  by (metis concat.simps(2) concat_append id_take_nth_drop)

lemma sorted_blocks:
  assumes "sorted_wrt (<) (map fst (concat gs))" and "i < length gs"
  shows "sorted_wrt (<) (map fst (gs ! i))"
    and "a \<in> set (concat (take i gs)) \<Longrightarrow> b \<in> set (gs ! i) \<Longrightarrow> fst a < fst b"
    and "a \<in> set (gs ! i) \<Longrightarrow> b \<in> set (concat (drop (Suc i) gs)) \<Longrightarrow> fst a < fst b"
proof -
  have "sorted_wrt (<) (map fst (concat (take i gs)) @ map fst (gs ! i) @ map fst (concat (drop (Suc i) gs)))"
    using assms(1) by (subst (asm) concat_split [OF assms(2)]) (simp only: map_append)
  note s = this [unfolded sorted_wrt_append]
  show "sorted_wrt (<) (map fst (gs ! i))" using s by blast
  show "a \<in> set (concat (take i gs)) \<Longrightarrow> b \<in> set (gs ! i) \<Longrightarrow> fst a < fst b"
    using s by (metis UnI1 imageI set_append set_map)
  show "a \<in> set (gs ! i) \<Longrightarrow> b \<in> set (concat (drop (Suc i) gs)) \<Longrightarrow> fst a < fst b"
    using s by (metis imageI set_map)
qed

lemma key_le_last:
  assumes "sorted_wrt (<) (map fst (g :: (bytes \<times> 'v) list))" and "a \<in> set g"
  shows "fst a \<le> fst (last g)"
proof -
  have ne: "g \<noteq> []" using assms(2) by auto
  have "g = butlast g @ [last g]" using ne by simp
  then have "sorted_wrt (<) (map fst (butlast g @ [last g]))" "a \<in> set (butlast g @ [last g])" using assms by simp_all
  then show ?thesis by (auto simp: sorted_wrt_append)
qed

lemma scan_pairs_map_of: "sorted_wrt (<) (map fst kvs) \<Longrightarrow> scan_pairs key kvs = map_of kvs key"
proof (induction key kvs rule: scan_pairs.induct)
  case (2 key k v kvs)
  have n: "key < k \<Longrightarrow> map_of kvs key = None" using "2.prems" by (fastforce simp: map_of_eq_None_iff)
  show ?case
  proof (cases "k = key")
    case False
    then show ?thesis using 2 n by (cases "key < k") auto
  qed simp
qed simp

definition splits_at :: "index_entry list \<Rightarrow> bytes \<Rightarrow> nat \<Rightarrow> bool" where
  "splits_at ix key p \<longleftrightarrow> p \<le> length ix \<and>
     (\<forall>i < p. ix_largest (ix ! i) < key) \<and> (\<forall>i < length ix. p \<le> i \<longrightarrow> key \<le> ix_largest (ix ! i))"

lemma sorted_largest:
  "sorted_wrt (<) (map ix_largest ix) \<Longrightarrow> i \<le> j \<Longrightarrow> j < length ix \<Longrightarrow> ix_largest (ix ! i) \<le> ix_largest (ix ! j)"
  using sorted_wrt_nth_less [of "(<)" "map ix_largest ix" i j] by (cases "i = j") auto

lemma bytes_compare_ge: "0 \<le> bytes_compare a b \<longleftrightarrow> \<not> a < b"
  using bytes_compare_simps(1) [of a b] by linarith

lemma bin_search_ok:
  "sorted_wrt (<) (map ix_largest ix) \<Longrightarrow> 0 \<le> lo \<Longrightarrow> hi < int (length ix) \<Longrightarrow> lo \<le> hi + 1 \<Longrightarrow>
    (\<forall>i < length ix. int i < lo \<longrightarrow> ix_largest (ix ! i) < key) \<Longrightarrow>
    (\<forall>i < length ix. hi < int i \<longrightarrow> key \<le> ix_largest (ix ! i)) \<Longrightarrow>
    \<exists>p. bin_search ix key lo hi = int p \<and> splits_at ix key p"
proof (induction ix key lo hi rule: bin_search.induct)
  case (1 ix key lo hi)
  let ?mid = "(lo + hi) div 2"
  show ?case
  proof (cases "lo \<le> hi")
    case False
    then have "splits_at ix key (nat lo)" using "1.prems" by (auto simp: splits_at_def)
    moreover have "bin_search ix key lo hi = int (nat lo)" using False "1.prems"(2) by (simp add: bin_search.simps)
    ultimately show ?thesis by blast
  next
    case True
    have m: "lo \<le> ?mid" "?mid \<le> hi" using True by simp_all
    then have n: "nat ?mid < length ix" using "1.prems"(2,3) by linarith
    show ?thesis
    proof (cases "ix_largest (ix ! nat ?mid) < key")
      case False
      then have k: "key \<le> ix_largest (ix ! i)" if "?mid - 1 < int i" "i < length ix" for i
      proof -
        have "nat ?mid \<le> i" using that(1) by linarith
        then have "ix_largest (ix ! nat ?mid) \<le> ix_largest (ix ! i)" using sorted_largest [OF "1.prems"(1)] that(2) by blast
        then show ?thesis using False by auto
      qed
      have "bin_search ix key lo hi = bin_search ix key lo (?mid - 1)"
        using True False by (subst bin_search.simps) (simp add: Let_def bytes_compare_ge)
      moreover have "\<exists>p. bin_search ix key lo (?mid - 1) = int p \<and> splits_at ix key p"
        using False m n k "1.prems" True by (intro "1.IH"(1)) (auto simp: bytes_compare_ge)
      ultimately show ?thesis by simp
    next
      case lt: True
      have k: "ix_largest (ix ! i) < key" if "int i < ?mid + 1" "i < length ix" for i
      proof -
        have "i \<le> nat ?mid" using that(1) by linarith
        then have "ix_largest (ix ! i) \<le> ix_largest (ix ! nat ?mid)" using sorted_largest [OF "1.prems"(1) _ n] by blast
        then show ?thesis using lt by (rule le_less_trans)
      qed
      have "bin_search ix key lo hi = bin_search ix key (?mid + 1) hi"
        using True lt by (subst bin_search.simps) (simp add: Let_def bytes_compare_ge)
      moreover have "\<exists>p. bin_search ix key (?mid + 1) hi = int p \<and> splits_at ix key p"
        using lt m k "1.prems" True by (intro "1.IH"(2)) (auto simp: bytes_compare_ge)
      ultimately show ?thesis by simp
    qed
  qed
qed

text \<open>\<open>Find\<close> on a table with sorted keys is the lookup in its entries.\<close>

lemma find_ok:
  assumes h: "sst_holds E r gs" and sorted: "sorted_wrt (<) (map fst (concat gs))"
  shows "sst_find E r key = Ok (map_of (concat gs) key)"
proof (cases "may_contain r key")
  case False
  then have "map_of (concat gs) key = None" using h by (auto simp: sst_holds_def map_of_eq_None_iff)
  then show ?thesis using False by (simp add: sst_find_def)
next
  case may: True
  have len: "length (sr_index r) = length gs" by (rule sst_holds_length [OF h])
  have ix: "ix_largest (sr_index r ! i) = fst (last (gs ! i))" if "i < length gs" for i
  proof -
    have "map ix_largest (sr_index r) = map (\<lambda>g. fst (last g)) gs" using h by (simp add: sst_holds_def)
    then have "map ix_largest (sr_index r) ! i = map (\<lambda>g. fst (last g)) gs ! i" by (rule arg_cong)
    then show ?thesis using that len by simp
  qed
  show ?thesis
  proof (cases "gs = []")
    case True
    then show ?thesis using len by (simp add: sst_find_def search_index_def)
  next
    case False
    have "sorted_wrt (<) (map ix_largest (sr_index r))"
      unfolding sorted_wrt_iff_nth_less
    proof (intro allI impI)
      fix i j assume ij: "i < j" "j < length (map ix_largest (sr_index r))"
      then have jl: "j < length gs" and il: "i < length gs" using len by simp_all
      have "last (gs ! i) \<in> set (gs ! i)" "last (gs ! j) \<in> set (gs ! j)" using block_ne [OF h] il jl by simp_all
      moreover have "gs ! i \<in> set (take j gs)" using ij(1) jl by (auto simp: in_set_conv_nth)
      ultimately have "fst (last (gs ! i)) < fst (last (gs ! j))"
        by (intro sorted_blocks(2) [OF sorted jl]) auto
      then show "map ix_largest (sr_index r) ! i < map ix_largest (sr_index r) ! j"
        using ij ix il jl by simp
    qed
    then obtain p where p: "bin_search (sr_index r) key 0 (int (length (sr_index r)) - 1) = int p" "splits_at (sr_index r) key p"
      using bin_search_ok [of "sr_index r" 0 "int (length (sr_index r)) - 1" key] by auto
    define q where "q = (if p < length gs then p else length gs - 1)"
    have q: "q < length gs" using False by (auto simp: q_def)
    have qp: "p < length gs \<Longrightarrow> q = p" "\<not> p < length gs \<Longrightarrow> p = length gs \<and> int q = int (length gs) - 1"
      using p(2) len False by (auto simp: q_def splits_at_def of_nat_diff Suc_le_eq)
    have ne: "sr_index r \<noteq> []" using len False by auto
    have si: "search_index r key = int q"
    proof (cases "p < length gs")
      case True
      then show ?thesis using ne by (simp add: search_index_def Let_def p(1) [unfolded len] len qp(1))
    next
      case False
      then show ?thesis using ne qp(2) by (simp add: search_index_def Let_def p(1) [unfolded len] len)
    qed
    have before: "a \<in> set (concat (take q gs)) \<Longrightarrow> fst a < key" for a
    proof -
      assume "a \<in> set (concat (take q gs))"
      then obtain g where "g \<in> set (take q gs)" "a \<in> set g" by auto
      then obtain i where i: "i < q" "a \<in> set (gs ! i)" by (auto simp: in_set_conv_nth [of g])
      then have le: "fst a \<le> fst (last (gs ! i))" using key_le_last sorted_blocks(1) [OF sorted, of i] q by simp
      have ip: "i < p" using i(1) q qp by (cases "p < length gs") auto
      have "ix_largest (sr_index r ! i) < key" using ip p(2) by (simp add: splits_at_def)
      then have "fst (last (gs ! i)) < key" using ix [of i] i(1) q by simp
      with le show "fst a < key" by (rule le_less_trans)
    qed
    have after: "b \<in> set (concat (drop (Suc q) gs)) \<Longrightarrow> key < fst b" for b
    proof -
      assume b: "b \<in> set (concat (drop (Suc q) gs))"
      then have "Suc q < length gs" by (cases "Suc q < length gs") auto
      then have "q = p" using qp by (cases "p < length gs") auto
      then have "key \<le> ix_largest (sr_index r ! q)" using p(2) q len by (simp add: splits_at_def)
      then have "key \<le> fst (last (gs ! q))" using ix [OF q] by simp
      also have "\<dots> < fst b" using sorted_blocks(3) [OF sorted q _ b] block_ne [OF h q] by simp
      finally show "key < fst b" .
    qed
    have "map_of (concat (take q gs)) key = None" "map_of (concat (drop (Suc q) gs)) key = None"
      by (auto simp only: map_of_eq_None_iff image_iff dest: before after)
    then have m: "map_of (concat gs) key = map_of (gs ! q) key"
      by (subst concat_split [OF q]) (simp add: map_add_def split: option.split)
    have "block_at E r q (gs ! q)" using h q by (simp add: sst_holds_def)
    then obtain d where d: "read_block E r (ix_off (sr_index r ! q)) (ix_size (sr_index r ! q)) = Ok (Some d)"
      "decode_block d = Ok (gs ! q)" by (auto simp: block_at_def)
    have "scan_pairs key (gs ! q) = map_of (gs ! q) key" by (rule scan_pairs_map_of [OF sorted_blocks(1) [OF sorted q]])
    then show ?thesis using may q len by (simp add: sst_find_def si d m Let_def)
  qed
qed

subsection \<open>Opening what Finish wrote\<close>

definition footer :: "nat \<Rightarrow> nat \<Rightarrow> nat \<Rightarrow> bytes" where
  "footer ioff isz bsz = put_u64 (of_nat ioff) @ put_u32 (of_nat isz) @ put_u64 (of_nat (ioff + isz)) @ put_u32 (of_nat bsz) @ put_u32 sst_magic"

lemma footer_fields:
  "length (footer i s b) = 28" "get_u64 (footer i s b @ r) = of_nat i" "get_u32 (drop 8 (footer i s b)) = of_nat s"
  "get_u64 (drop 12 (footer i s b)) = of_nat (i + s)" "get_u32 (drop 20 (footer i s b)) = of_nat b"
  "get_u32 (drop 24 (footer i s b)) = sst_magic"
  by (simp_all add: footer_def)

lemma open_layout:
  assumes "data = D @ X @ B @ P @ footer (length D) (length X) (length B)"
    and "D \<noteq> []" and "B \<noteq> []" and "P \<noteq> []" and "4 \<le> length X" and "length data < 2 ^ 32" and "parse_index X 0 = Ok es"
  shows "open_sst data = Ok \<lparr>sr_data = data, sr_index = es, sr_bloom = B, sr_prefix = P\<rparr>"
proof -
  let ?F = "footer (length D) (length X) (length B)"
  let ?f = "length D + (length X + (length B + length P))"
  have l: "length data = ?f + 28" using assms(1) by (simp add: footer_fields)
  have fd: "drop (length data - 28 + k) data = drop k ?F" for k using assms(1) l by simp
  have fd0: "drop (length data - 28) data = ?F @ []" using fd [of 0] by simp
  have fields: "get_u64 (drop (length data - 28) data) = of_nat (length D)" "get_u32 (drop (length data - 28 + 8) data) = of_nat (length X)"
    "get_u64 (drop (length data - 28 + 12) data) = of_nat (length D + length X)"
    "get_u32 (drop (length data - 28 + 20) data) = of_nat (length B)" "get_u32 (drop (length data - 28 + 24) data) = sst_magic"
    unfolding fd fd0 by (simp_all only: footer_fields)
  have small: "n \<le> length data \<Longrightarrow> unat (of_nat n :: u64) = n" "n \<le> length data \<Longrightarrow> unat (of_nat n :: u32) = n" for n
    using assms(6) by (simp_all add: unat_of_nat_u64 unat_of_nat_u32)
  have cast: "(ucast (of_nat n :: u32) :: u64) = of_nat n" if "n \<le> length data" for n
  proof -
    have e: "LENGTH(32) = 32" "LENGTH(64) = 64" by simp_all
    have b: "n < 2 ^ 64" using that assms(6) by simp
    have t: "take_bit 64 n = n" using b by (simp only: take_bit_nat_eq_self_iff)
    have "unat (ucast (of_nat n :: u32) :: u64) = unat (of_nat n :: u64)"
      by (simp only: unsigned_ucast_eq e small [OF that] t)
    then show ?thesis by (simp only: word_unat_eq_iff)
  qed
  have D: "0 < length D" and B: "0 < length B" and P: "0 < length P" using assms(2-4) by simp_all
  have c1: "0 < (of_nat (length D) :: u64)" "(of_nat (length D) :: u64) < of_nat (length data)"
    using small(1) [of "length D"] small(1) [of "length data"] D B l by (simp_all add: word_less_nat_alt)
  have c2: "0 < (of_nat (length D + length X) :: u64)" "(of_nat (length D + length X) :: u64) < of_nat (length data)"
    using small(1) [of "length D + length X"] small(1) [of "length data"] D B l
    by (simp_all add: word_less_nat_alt del: of_nat_add)
  have u1: "of_nat (length D) + ucast (of_nat (length X) :: u32) = (of_nat (length D + length X) :: u64)"
    using cast [of "length X"] l by simp
  have u2: "of_nat (length D + length X) + ucast (of_nat (length B) :: u32) = (of_nat (length D + length X + length B) :: u64)"
    using cast [of "length B"] l by simp
  have u3: "of_nat (length data) - of_nat (length D + length X + length B) - 28 = (of_nat (length P) :: u64)"
    using l by simp
  have u4: "of_nat (length D + length X + length B) + of_nat (length P) = (of_nat (length D + length X + length B + length P) :: u64)"
    by simp
  have c3: "(of_nat (length D + length X + length B) :: u64) < of_nat (length data)" "0 < (of_nat (length P) :: u64)"
    "(of_nat (length P) :: u64) < of_nat (length data)"
    using small(1) [of "length D + length X + length B"] small(1) [of "length data"] small(1) [of "length P"] D P l
    by (simp_all add: word_less_nat_alt del: of_nat_add)
  have s: "(go_slice data (int a) (int b) :: (sst_error, bytes) outcome) = Ok (sub data a b)"
    if "a \<le> b" "b \<le> length data" for a b using that by simp
  have x: "sub data (length D) (length D + length X) = X" "sub data (length D + length X) (length D + length X + length B) = B"
    "sub data (length D + length X + length B) (length D + length X + length B + length P) = P"
    using assms(1) by (simp_all add: sub_def)
  have n: "unat (of_nat (length D) :: u64) = length D" "unat (of_nat (length D + length X) :: u64) = length D + length X"
    "unat (of_nat (length D + length X + length B) :: u64) = length D + length X + length B"
    "unat (of_nat (length D + length X + length B + length P) :: u64) = length D + length X + length B + length P"
    using l by (intro small(1); simp)+
  have g: "(go_slice data (int (length D)) (int (length D + length X)) :: (sst_error, bytes) outcome) = Ok X"
    "(go_slice data (int (length D + length X)) (int (length D + length X + length B)) :: (sst_error, bytes) outcome) = Ok B"
    "(go_slice data (int (length D + length X + length B)) (int (length D + length X + length B + length P)) :: (sst_error, bytes) outcome) = Ok P"
    using s [of "length D" "length D + length X"] s [of "length D + length X" "length D + length X + length B"]
      s [of "length D + length X + length B" "length D + length X + length B + length P"] l by (simp_all only: x)
  have ge: "\<not> length data < 32" using assms(5) l by simp
  show ?thesis
    unfolding open_sst_def Let_def fields u1 u2 u3 u4 n
    using ge c1 c2 c3 g assms(7) by (simp del: of_nat_add)
qed

lemma length_index_bytes: "length (ix_largest e) < 2 ^ 63 \<Longrightarrow> 17 \<le> length (index_bytes e)"
  using length_len_varint [of "ix_largest e"] by (simp add: index_bytes_def Suc_le_eq del: length_greater_0_conv)

lemma finish_holds:
  assumes E: "flate_ok E" and kvs: "kvs \<noteq> []" "fits kvs"
    and out: "sst_finish E (fold sst_add kvs new_sst_writer) = Some data" and len: "length data < 2 ^ 32"
  shows "\<exists>r gs. open_sst data = Ok r \<and> concat gs = kvs \<and> sst_holds E r gs"
proof -
  let ?w = "fold sst_add kvs new_sst_writer"
  obtain gs0 g where g: "sw_groups ?w gs0 g" and cat: "concat gs0 @ g = kvs" using sw_build [OF kvs] by blast
  have fg: "fits g" using kvs(2) fits_append(2) cat by metis
  define gs where "gs = gs0 @ [g]"
  define w where "w = finish_current_block ?w"
  have W: "sw_blocks w = map (\<lambda>g. seal_block (enc_entries g)) gs" "map ix_largest (sw_index w) = map (\<lambda>g. fst (last g)) gs"
    "sw_keys w = map fst kvs" "sw_count w = length kvs"
    using sw_finish [OF g fg] cat by (simp_all add: w_def gs_def)
  have gs: "concat gs = kvs" "[] \<notin> set gs" "gs \<noteq> []" using cat g by (auto simp: gs_def sw_groups_def)
  have fits: "fits (gs ! i)" if "i < length gs" for i
    using kvs(2) concat_split [OF that] gs(1) fits_append by metis
  define comp where "comp = map (compress_block_dict E) (sw_blocks w)"
  define es where "es = placed (map (\<lambda>g. fst (last g)) gs) 0 comp"
  define B where "B = fold (set_bloom_bit (bloom_size_for (length kvs))) (map fst kvs) (replicate (bloom_size_for (length kvs)) 0)"
  define P where "P = fold (\<lambda>k. set_prefix_bloom_bit (bloom_size_for (length kvs)) (take 8 k)) (map fst kvs) (replicate (bloom_size_for (length kvs)) (0 :: byte))"
  define X where "X = concat (map index_bytes es)"
  have lc: "length comp = length gs" by (simp add: comp_def W)
  have li: "length (sw_index w) = length comp" using map_eq_imp_length_eq [OF W(2)] lc by simp
  have pl: "place (sw_index w) (starts 0 comp) = es" using place_placed [OF li, of 0] by (simp add: es_def W(2))
  have lB: "length B = bloom_size_for (length kvs)" by (simp add: B_def)
  have "sw_blocks ?w \<noteq> []" using g by (simp add: sw_groups_def)
  then have data: "data = concat comp @ X @ B @ P @ footer (length (concat comp)) (length X) (length B)"
    using out unfolding sst_finish_def Let_def w_def [symmetric]
    by (simp add: comp_def [symmetric] pl W(3,4) B_def [symmetric] P_def [symmetric] X_def [symmetric] lB footer_def)
  have block: "compress_block_dict E (seal_block b) \<noteq> []" for b by (intro compress_not_Nil) (simp add: seal_block_def)
  have D: "concat comp \<noteq> []" using gs(3) block by (cases gs) (auto simp: comp_def W(1))
  have les: "length es = length gs" using length_placed [of "map (\<lambda>g. fst (last g)) gs" comp 0] lc by (simp add: es_def)
  have es: "es ! i = \<lparr>ix_largest = fst (last (gs ! i)), ix_off = int (length (concat (take i comp))), ix_size = int (length (comp ! i))\<rparr>"
    if "i < length gs" for i using placed_nth [of "map (\<lambda>g. fst (last g)) gs" comp i 0] that lc by (simp add: es_def)
  have cs: "concat comp = concat (take i comp) @ comp ! i @ concat (drop (Suc i) comp)" if "i < length gs" for i
    using concat_split [of i comp] that lc by simp
  have lcs: "length (concat (take i comp)) + length (comp ! i) \<le> length (concat comp)" if "i < length gs" for i
    using arg_cong [OF cs [OF that], of length] by simp
  have ldata: "length (concat comp) + length X < 2 ^ 32" using arg_cong [OF data, of length] len by simp
  have "list_all ix_ok es"
    unfolding list_all_length
  proof (intro allI impI)
    fix i assume "i < length es"
    then have i: "i < length gs" by (simp add: les)
    show "ix_ok (es ! i)" using lcs [OF i] ldata by (simp add: ix_ok_def es [OF i])
  qed
  then have X: "parse_index X 0 = Ok es" using parse_index_put [of es "[]"] ldata by (simp add: X_def)
  have "17 \<le> length X"
  proof -
    obtain e es' where e: "es = e # es'" using les gs(3) by (cases es) auto
    have "length (ix_largest e) \<le> length (index_bytes e)" by (simp add: index_bytes_def)
    then have "length (ix_largest e) < 2 ^ 63" using ldata by (simp add: X_def e)
    then show ?thesis using length_index_bytes [of e] by (simp add: X_def e)
  qed
  moreover have "B \<noteq> []" "P \<noteq> []"
    using bloom_size_pos [of "length kvs"] lB by (auto simp: P_def dest: arg_cong [of _ _ length] simp del: bloom_size_pos)
  ultimately have o: "open_sst data = Ok \<lparr>sr_data = data, sr_index = es, sr_bloom = B, sr_prefix = P\<rparr>"
    using D len X by (intro open_layout [OF data]) auto
  let ?r = "\<lparr>sr_data = data, sr_index = es, sr_bloom = B, sr_prefix = P\<rparr>"
  have "sst_holds E ?r gs"
    unfolding sst_holds_def
  proof (intro conjI allI impI ballI)
    show "map ix_largest (sr_index ?r) = map (\<lambda>g. fst (last g)) gs"
      using les es by (intro nth_equalityI) auto
    show "[] \<notin> set gs" by (rule gs(2))
  next
    fix i assume i: "i < length gs"
    let ?b = "seal_block (enc_entries (gs ! i))"
    have c: "comp ! i = compress_block_dict E ?b" using i by (simp add: comp_def W(1))
    have "sr_data ?r = concat (take i comp) @ compress_block_dict E ?b @ (concat (drop (Suc i) comp) @ X @ B @ P @ footer (length (concat comp)) (length X) (length B))"
      using data cs [OF i] c by simp
    then have "read_block E ?r (int (length (concat (take i comp)))) (int (length (compress_block_dict E ?b))) = Ok (Some ?b)"
      using len by (intro read_block_put [OF E]) (simp_all add: seal_block_def)
    moreover have "decode_block ?b = Ok (gs ! i)"
      using fits [OF i] unfolding enc_entries_def fits_def by (rule decode_block_seal)
    ultimately show "block_at E ?r i (gs ! i)" by (simp add: block_at_def es [OF i] c)
  next
    fix kv assume "kv \<in> set (concat gs)"
    then have "fst kv \<in> set (map fst kvs)" unfolding gs(1) by simp
    then have "in_bloom (fst kv) (length B * 8) B" unfolding lB unfolding B_def by (intro fold_bloom_complete) auto
    then show "may_contain ?r (fst kv)" by (simp add: may_contain_def in_bloom_def)
  qed
  then show ?thesis using o gs(1) by blast
qed

definition id_env :: sst_env where
  "id_env = \<lparr>se_deflate = (\<lambda>d x. x), se_inflate = (\<lambda>d x. Some x), se_order = (\<lambda>ps. ps)\<rparr>"

lemma id_env_ok: "flate_ok id_env" by (simp add: flate_ok_def id_env_def)

lemma compress_id: "compress_block_dict id_env b = (if b = [] then [] else 0 # b)"
  by (simp add: compress_block_dict_def compress_block_plain_def id_env_def Let_def)

lemma varint_small: "length b < 128 \<Longrightarrow> len_varint b = [of_nat (length b)]"
proof -
  assume l: "length b < 128"
  then have u: "unat (of_nat (length b) :: u64) = length b" by (simp add: unat_of_nat_u64)
  have d: "drop_bit 7 (of_nat (length b) :: u64) = 0"
    using l u by (simp add: word_unat_eq_iff unat_drop_bit)
  have "signed_drop_bit 7 (of_nat (length b) :: u64) = 0"
    using signed_drop_nonneg(1) [of "of_nat (length b)"] d u l by simp
  moreover have "(ucast (of_nat (length b) :: u64) :: byte) = of_nat (length b)"
    using l u by (simp add: word_unat_eq_iff unat_ucast_byte unat_of_nat_byte)
  ultimately show ?thesis
    using low_part(1) [OF d] mt_encode_loop.simps(2) [of 9 "of_nat (length b)"]
    by (simp add: len_varint_def mt_encode_varint_def)
qed
definition sample_kvs :: "(bytes \<times> bytes) list" where "sample_kvs = [([1], [10]), ([2], [])]"

lemma sample_table: "\<exists>data. sst_finish id_env (fold sst_add sample_kvs new_sst_writer) = Some data \<and> length data < 2 ^ 32"
  by (simp add: sst_finish_def sample_kvs_def sst_add_def Let_def note_range_def new_sst_writer_def put_entry_def
     entry_bytes_def varint_small finish_current_block_def seal_block_def sst_block_size_def compress_id index_bytes_def bloom_size_for_def)

lemma sample_fits: "length (concat (map entry_bytes sample_kvs)) < 2 ^ 62"
  by (simp add: sample_kvs_def entry_bytes_def varint_small)

subsection \<open>Properties\<close>

text \<open>
  C2. A table reads back as it was written: for any nonempty sequence of entries, in any order, of less than
  \<open>2 ^ 62\<close> bytes in total, when the file that \<open>Finish\<close> returns is shorter than \<open>2 ^ 32\<close> bytes (its footer holds the
  sizes of index and filter as uint32, which longer files would truncate), the file opens, its iterator yields
  exactly the added pairs in the order they were added across all blocks, whatever compression each block got, and
  the Bloom filter passes every added key.
\<close>

theorem sst_roundtrip:
  assumes "flate_ok E" and "kvs \<noteq> []" and "length (concat (map entry_bytes kvs)) < 2 ^ 62"
    and "sst_finish E (fold sst_add kvs new_sst_writer) = Some data" and "length data < 2 ^ 32"
  shows "\<exists>r. open_sst data = Ok r \<and> (\<forall>fuel. length kvs \<le> fuel \<longrightarrow> sst_scan fuel E r new_sst_iter = Ok kvs) \<and>
    (\<forall>kv \<in> set kvs. may_contain r (fst kv))"
proof -
  have "fits kvs" using assms(3) by (simp add: fits_def enc_entries_def)
  then obtain r gs where "open_sst data = Ok r" "concat gs = kvs" "sst_holds E r gs"
    using finish_holds [OF assms(1,2) _ assms(4,5)] by blast
  then show ?thesis using sst_scan_all [of E r gs] by (auto simp: sst_holds_def)
qed

theorem sst_roundtrip_witness:
  "\<exists>data r. sst_finish id_env (fold sst_add sample_kvs new_sst_writer) = Some data \<and> open_sst data = Ok r \<and>
     sst_scan 2 id_env r new_sst_iter = Ok [([1], [10]), ([2], [])]"
proof -
  obtain data where d: "sst_finish id_env (fold sst_add sample_kvs new_sst_writer) = Some data" "length data < 2 ^ 32"
    using sample_table by blast
  have "sample_kvs \<noteq> []" "length sample_kvs \<le> 2" by (simp_all add: sample_kvs_def)
  then show ?thesis using sst_roundtrip [OF id_env_ok _ sample_fits d] d(1) unfolding sample_kvs_def by blast
qed

text \<open>
  C7. \<open>Find\<close> agrees with the linear scan: on a table whose keys are strictly ascending, as a memtable
  writes them, the Bloom filter, the binary search over the block index and the early exit of the scan
  change nothing: \<open>Find\<close> is the lookup in the list of entries, for present and absent keys alike.
\<close>

theorem sst_find_equiv_scan:
  assumes "flate_ok E" and "kvs \<noteq> []" and "length (concat (map entry_bytes kvs)) < 2 ^ 62"
    and "sorted_wrt (<) (map fst kvs)"
    and "sst_finish E (fold sst_add kvs new_sst_writer) = Some data" and "length data < 2 ^ 32"
  shows "\<exists>r. open_sst data = Ok r \<and> (\<forall>key. sst_find E r key = Ok (map_of kvs key))"
proof -
  have "fits kvs" using assms(3) by (simp add: fits_def enc_entries_def)
  then obtain r gs where "open_sst data = Ok r" "concat gs = kvs" "sst_holds E r gs"
    using finish_holds [OF assms(1,2) _ assms(5,6)] by blast
  then show ?thesis using find_ok [of E r gs] assms(4) by auto
qed

theorem sst_find_equiv_scan_witness:
  "\<exists>data r. sst_finish id_env (fold sst_add sample_kvs new_sst_writer) = Some data \<and> open_sst data = Ok r \<and>
     sst_find id_env r [1] = Ok (Some [10]) \<and> sst_find id_env r [3] = Ok None"
proof -
  obtain data where d: "sst_finish id_env (fold sst_add sample_kvs new_sst_writer) = Some data" "length data < 2 ^ 32"
    using sample_table by blast
  have "sample_kvs \<noteq> []" "sorted_wrt (<) (map fst sample_kvs)" by (simp_all add: sample_kvs_def)
  then obtain r where "open_sst data = Ok r" "\<And>key. sst_find id_env r key = Ok (map_of sample_kvs key)"
    using sst_find_equiv_scan [OF id_env_ok _ sample_fits _ d] by blast
  moreover have "map_of sample_kvs [1] = Some [10]" "map_of sample_kvs [3] = None" by (simp_all add: sample_kvs_def)
  ultimately show ?thesis using d(1) by auto
qed

text \<open>
  A damaged block is refused: changing up to four consecutive bytes of the entries of a sealed block
  makes \<open>decodeBlock\<close> return an error, never other entries.
\<close>

theorem sst_block_corruption_detected:
  assumes "concat (map entry_bytes kvs) = pre @ m @ post" and "length m \<le> 4" and "length m' = length m" and "m \<noteq> m'"
  shows "decode_block (pre @ m' @ post @ drop (length (pre @ m @ post)) (seal_block (concat (map entry_bytes kvs))))
    = Fail ErrInvalidSSTFormat"
proof -
  let ?c = "crc_koopman (pre @ m @ post)"
  let ?bad = "(pre @ m' @ post) @ [0, 0, 0, 0] @ put_u32 ?c"
  have t: "take (length ?bad - 8) ?bad = pre @ m' @ post" by simp
  have d: "drop (length ?bad - 4) ?bad = put_u32 ?c" by simp
  have "crc_koopman (pre @ m' @ post) \<noteq> ?c" using koopman.burst [OF assms(2-4)] by metis
  then have "decode_block ?bad = Fail ErrInvalidSSTFormat"
    unfolding decode_block_def Let_def t d by simp
  then show ?thesis using assms(1) by (simp add: seal_block_def)
qed

theorem sst_block_corruption_detected_witness:
  "decode_block ([1, 9, 1, 10] @ drop 4 (seal_block [1, 1, 1, 10])) = Fail ErrInvalidSSTFormat"
proof -
  have e: "concat (map entry_bytes [([1], [10])]) = [1, 1, 1, 10]" by (simp add: entry_bytes_def varint_small)
  have l: "length ([1] @ [1] @ [1, 10 :: byte]) = 4" by simp
  show ?thesis using sst_block_corruption_detected [of "[([1], [10])]" "[1]" "[1]" "[1, 10]" "[9]"] unfolding e l by simp
qed

end
