(* ===== verification/Ls_Manifest.thy ===== *)
theory Ls_Manifest
  imports Ls_Sst
begin

text \<open>
  The manifest of \<open>internal/ENG/LS/manifest.go\<close>: which table files belong to which level, its encoding with
  a trailing checksum, and the write-then-rename of \<open>Apply\<close>; with the file names of \<open>compaction.go\<close>. Files
  are a map from path to contents, paths relative to the engine's directory. The creation time of a version
  is left out, no operation reads it.
\<close>

subsection \<open>Versions and their encoding\<close>

record sst_meta =
  fm_id :: u64
  fm_level :: int
  fm_min :: bytes
  fm_max :: bytes
  fm_size :: int
  fm_bloom :: int

record version =
  vr_num :: int
  vr_levels :: "sst_meta list list"

definition put_int :: "int \<Rightarrow> bytes" where "put_int i = put_u64 (word_of_int i)"

definition encode_meta :: "sst_meta \<Rightarrow> bytes" where
  "encode_meta m = len_varint (fm_min m) @ fm_min m @ len_varint (fm_max m) @ fm_max m @
     put_u64 (fm_id m) @ put_int (fm_size m) @ put_int (fm_level m) @ put_int (fm_bloom m)"

definition encode_level :: "sst_meta list \<Rightarrow> bytes" where
  "encode_level ms = put_int (int (length ms)) @ concat (map encode_meta ms)"

definition manifest_body :: "version \<Rightarrow> bytes" where
  "manifest_body v = put_int (vr_num v) @ put_int (int (length (vr_levels v))) @ concat (map encode_level (vr_levels v))"

definition encode_manifest :: "version \<Rightarrow> bytes" where
  "encode_manifest v = manifest_body v @ put_u32 (crc_koopman (manifest_body v))"

datatype manifest_error = ErrInvalidManifest | ErrManifestIO

text \<open>\<open>binary.LittleEndian.Uint64(data[off:])\<close>, which panics on a short slice.\<close>

definition need_u64 :: "bytes \<Rightarrow> nat \<Rightarrow> (manifest_error, u64) outcome" where
  "need_u64 data off = (if length data < off + 8 then Panic else Ok (get_u64 (drop off data)))"

text \<open>The same with the bounds check that the file fields have.\<close>

definition field_u64 :: "bytes \<Rightarrow> nat \<Rightarrow> (manifest_error, u64) outcome" where
  "field_u64 data off = (if length data < off + 8 then Fail ErrInvalidManifest else Ok (get_u64 (drop off data)))"

definition key_field :: "bytes \<Rightarrow> nat \<Rightarrow> (manifest_error, bytes \<times> nat) outcome" where
  "key_field data off =
     (case read_chunk data off of
        Ok (Some r) \<Rightarrow> Ok r
      | Ok None \<Rightarrow> Fail ErrInvalidManifest
      | Fail _ \<Rightarrow> Fail ErrInvalidManifest
      | Panic \<Rightarrow> Panic)"

definition parse_meta :: "bytes \<Rightarrow> nat \<Rightarrow> (manifest_error, sst_meta \<times> nat) outcome" where
  "parse_meta data off =
     obind (key_field data off) (\<lambda>(mn, p).
     obind (key_field data p) (\<lambda>(mx, p').
     obind (field_u64 data p') (\<lambda>fid.
     obind (field_u64 data (p' + 8)) (\<lambda>sz.
     obind (field_u64 data (p' + 16)) (\<lambda>lv.
     obind (field_u64 data (p' + 24)) (\<lambda>bb.
       Ok (\<lparr>fm_id = fid, fm_level = sint lv, fm_min = mn, fm_max = mx, fm_size = sint sz, fm_bloom = sint bb\<rparr>, p' + 32)))))))"

text \<open>\<open>make([]T, n)\<close> for elements of \<open>sz\<close> bytes: it panics when the slice cannot exist.\<close>

definition go_make :: "int \<Rightarrow> int \<Rightarrow> (manifest_error, unit) outcome" where
  "go_make n sz = (if n < 0 \<or> 2 ^ 48 < n * sz then Panic else Ok ())"

definition parse_level :: "bytes \<Rightarrow> nat \<Rightarrow> (manifest_error, sst_meta list \<times> nat) outcome" where
  "parse_level data off =
     obind (need_u64 data off) (\<lambda>n.
     obind (go_make (sint n) 80) (\<lambda>_. dec_times parse_meta (nat (sint n)) data (off + 8)))"

definition parse_manifest :: "bytes \<Rightarrow> (manifest_error, version) outcome" where
  "parse_manifest data =
     (if length data < 16 then Fail ErrInvalidManifest
      else let n = sint (get_u64 (drop 8 data))
           in obind (go_make n 24) (\<lambda>_.
              obind (dec_times parse_level (nat n) data 16) (\<lambda>(levels, _).
                if get_u32 (drop (length data - 4) data) \<noteq> crc_koopman (take (length data - 4) data)
                then Fail ErrInvalidManifest
                else Ok \<lparr>vr_num = sint (get_u64 data), vr_levels = levels\<rparr>)))"

subsection \<open>File names\<close>

definition ascii :: "string \<Rightarrow> bytes" where "ascii s = map of_char s"

definition hex_digit :: "nat \<Rightarrow> byte" where
  "hex_digit d = of_nat (if d < 10 then 48 + d else 87 + d)"

definition hex_encode :: "bytes \<Rightarrow> bytes" where
  "hex_encode b = concat (map (\<lambda>x. [hex_digit (unat x div 16), hex_digit (unat x mod 16)]) b)"

text \<open>\<open>u64toa\<close>: the empty string for zero.\<close>

fun u64toa_loop :: "nat \<Rightarrow> nat \<Rightarrow> bytes" where
  "u64toa_loop 0 n = []"
| "u64toa_loop (Suc room) n = (if n = 0 then [] else u64toa_loop room (n div 10) @ [of_nat (48 + n mod 10)])"

definition u64toa :: "u64 \<Rightarrow> bytes" where "u64toa n = u64toa_loop 20 (unat n)"

text \<open>\<open>string(rune(r))\<close> in UTF-8; a value that is no code point becomes U+FFFD.\<close>

definition utf8_rune :: "int \<Rightarrow> bytes" where
  "utf8_rune r =
     (if 0 \<le> r \<and> r < 0x80 then [word_of_int r]
      else if 0x80 \<le> r \<and> r < 0x800 then [word_of_int (0xC0 + r div 64), word_of_int (0x80 + r mod 64)]
      else if 0x800 \<le> r \<and> r < 0x10000 \<and> \<not> (0xD800 \<le> r \<and> r < 0xE000)
        then [word_of_int (0xE0 + r div 4096), word_of_int (0x80 + r div 64 mod 64), word_of_int (0x80 + r mod 64)]
      else if 0x10000 \<le> r \<and> r < 0x110000
        then [word_of_int (0xF0 + r div 262144), word_of_int (0x80 + r div 4096 mod 64), word_of_int (0x80 + r div 64 mod 64), word_of_int (0x80 + r mod 64)]
      else [0xEF, 0xBF, 0xBD])"

definition file_name :: "sst_meta \<Rightarrow> bytes" where
  "file_name m = ascii ''sst/L'' @ utf8_rune (sint (word_of_int (48 + fm_level m) :: u32)) @ ascii ''_'' @ hex_encode (fm_min m) @ ascii ''_'' @
     hex_encode (fm_max m) @ ascii ''_'' @ u64toa (fm_id m) @ ascii ''.sst''"

subsection \<open>The manifest file\<close>

type_synonym disk = "bytes \<Rightarrow> bytes option"

record manifest =
  mf_version :: int
  mf_current :: version

definition manifest_path :: bytes where "manifest_path = ascii ''manifest''"
definition manifest_tmp :: bytes where "manifest_tmp = ascii ''manifest.tmp''"

definition new_manifest :: "disk \<Rightarrow> (manifest_error, manifest) outcome" where
  "new_manifest d =
     (case d manifest_path of
        None \<Rightarrow> Ok \<lparr>mf_version = 0, mf_current = \<lparr>vr_num = 0, vr_levels = []\<rparr>\<rparr>
      | Some data \<Rightarrow> obind (parse_manifest data) (\<lambda>v. Ok \<lparr>mf_version = vr_num v, mf_current = v\<rparr>))"

text \<open>
  What the file system answers to \<open>Apply\<close>: the write of the temporary file succeeds, or fails and leaves
  some prefix behind; the rename succeeds or not.
\<close>

datatype write_answer = Written | WriteFailed nat

definition write_file :: "write_answer \<Rightarrow> bytes \<Rightarrow> bytes \<Rightarrow> disk \<Rightarrow> disk" where
  "write_file a path data d = d(path \<mapsto> (case a of Written \<Rightarrow> data | WriteFailed n \<Rightarrow> take n data))"

definition rename_file :: "bytes \<Rightarrow> bytes \<Rightarrow> disk \<Rightarrow> disk" where
  "rename_file old new d = (d(new := d old))(old := None)"

definition manifest_apply ::
  "write_answer \<Rightarrow> bool \<Rightarrow> version \<Rightarrow> disk \<times> manifest \<Rightarrow> manifest_error option \<times> disk \<times> manifest" where
  "manifest_apply wr rn v st =
     (case st of (d, m) \<Rightarrow>
        let v' = (if vr_num v = 0 then v\<lparr>vr_num := wrap64 (mf_version m + 1)\<rparr> else v);
            d1 = write_file wr manifest_tmp (encode_manifest v') d
        in case wr of
             WriteFailed _ \<Rightarrow> (Some ErrManifestIO, d1, m)
           | Written \<Rightarrow>
               if \<not> rn then (Some ErrManifestIO, d1, m)
               else (None, rename_file manifest_tmp manifest_path d1, \<lparr>mf_version = vr_num v', mf_current = v'\<rparr>))"

subsection \<open>The encoding round trips\<close>

definition int64 :: "int \<Rightarrow> bool" where "int64 i \<longleftrightarrow> - (2 ^ 63) \<le> i \<and> i < 2 ^ 63"

definition meta_ok :: "sst_meta \<Rightarrow> bool" where
  "meta_ok m \<longleftrightarrow> int64 (fm_level m) \<and> int64 (fm_size m) \<and> int64 (fm_bloom m)"

definition version_ok :: "version \<Rightarrow> bool" where
  "version_ok v \<longleftrightarrow> int64 (vr_num v) \<and> list_all (list_all meta_ok) (vr_levels v)"

lemma sint_put_int: "int64 i \<Longrightarrow> sint (word_of_int i :: u64) = i"
  using wrap64_id [of i] by (simp add: wrap64_def int64_def)

lemma length_put_int [simp]: "length (put_int i) = 8"
  by (simp add: put_int_def)

lemma key_field_put:
  assumes "length (pre @ len_varint b @ b @ rest) < 2 ^ 63"
  shows "key_field (pre @ len_varint b @ b @ rest) (length pre) = Ok (b, length (pre @ len_varint b @ b))"
  using read_chunk_put [OF assms] by (simp add: key_field_def)

lemma field_u64_put: "field_u64 (pre @ put_u64 w @ rest) (length pre) = Ok w"
  by (simp add: field_u64_def)

interpretation meta: codec encode_meta parse_meta meta_ok
proof
  fix m :: sst_meta and pre rest :: bytes
  assume ok: "meta_ok m" and len: "length (pre @ encode_meta m @ rest) < 2 ^ 63"
  let ?t = "put_u64 (fm_id m) @ put_int (fm_size m) @ put_int (fm_level m) @ put_int (fm_bloom m) @ rest"
  let ?k = "pre @ len_varint (fm_min m) @ fm_min m"
  let ?q = "?k @ len_varint (fm_max m) @ fm_max m"
  have all: "pre @ encode_meta m @ rest = ?q @ ?t" by (simp add: encode_meta_def)
  have k1: "key_field (?q @ ?t) (length pre) = Ok (fm_min m, length ?k)"
    using key_field_put [of pre "fm_min m" "len_varint (fm_max m) @ fm_max m @ ?t"] len unfolding all by simp
  have k2: "key_field (?q @ ?t) (length ?k) = Ok (fm_max m, length ?q)"
    using key_field_put [of ?k "fm_max m" ?t] len unfolding all by simp
  have f: "field_u64 (?q @ ?t) (length ?q) = Ok (fm_id m)" "field_u64 (?q @ ?t) (length ?q + 8) = Ok (word_of_int (fm_size m))"
    "field_u64 (?q @ ?t) (length ?q + 16) = Ok (word_of_int (fm_level m))"
    "field_u64 (?q @ ?t) (length ?q + 24) = Ok (word_of_int (fm_bloom m))"
    by (simp_all add: field_u64_def put_int_def)
  have "parse_meta (?q @ ?t) (length pre) = Ok (m, length ?q + 32)"
    unfolding parse_meta_def k1 obind.simps prod.case k2 f
    using ok by (simp add: meta_ok_def sint_put_int)
  then show "parse_meta (pre @ encode_meta m @ rest) (length pre) = Ok (m, length pre + length (encode_meta m))"
    unfolding all by (simp add: encode_meta_def)
qed

lemma length_encode_meta: "32 \<le> length (encode_meta m)"
  by (simp add: encode_meta_def)

lemma concat_ge: "(\<And>x. k \<le> length (f x)) \<Longrightarrow> k * length xs \<le> length (concat (map f xs))"
  by (induction xs) (auto intro: add_mono)

definition level_ok :: "sst_meta list \<Rightarrow> bool" where
  "level_ok ms \<longleftrightarrow> list_all meta_ok ms \<and> length (encode_level ms) < 2 ^ 40"

interpretation level: codec encode_level parse_level level_ok
proof
  fix ms :: "sst_meta list" and pre rest :: bytes
  assume "level_ok ms" and len: "length (pre @ encode_level ms @ rest) < 2 ^ 63"
  then have ok: "list_all meta_ok ms" "length (encode_level ms) < 2 ^ 40" by (simp_all add: level_ok_def)
  have "32 * length ms \<le> length (concat (map encode_meta ms))" by (rule concat_ge) (rule length_encode_meta)
  then have few: "32 * length ms < 2 ^ 40" using ok by (simp add: encode_level_def)
  then have n: "sint (word_of_int (int (length ms)) :: u64) = int (length ms)" by (intro sint_put_int) (simp add: int64_def)
  have n64: "need_u64 (pre @ encode_level ms @ rest) (length pre) = Ok (word_of_int (int (length ms)))"
    by (simp add: need_u64_def encode_level_def put_int_def)
  have d: "dec_times parse_meta (length ms) (pre @ encode_level ms @ rest) (length pre + 8)
      = Ok (ms, length pre + length (encode_level ms))"
    using meta.dec_times_concat [of ms "pre @ put_int (int (length ms))" rest] ok len
    by (simp add: encode_level_def add.assoc)
  have g: "go_make (int (length ms)) 80 = Ok ()" using few by (simp add: go_make_def)
  have "parse_level (pre @ encode_level ms @ rest) (length pre)
      = obind (go_make (int (length ms)) 80)
          (\<lambda>_. dec_times parse_meta (nat (int (length ms))) (pre @ encode_level ms @ rest) (length pre + 8))"
    by (simp only: parse_level_def n64 obind.simps n)
  then show "parse_level (pre @ encode_level ms @ rest) (length pre) = Ok (ms, length pre + length (encode_level ms))"
    by (simp only: g obind.simps nat_int d)
qed

lemma parse_encode_manifest:
  assumes ok: "version_ok v" and len: "length (encode_manifest v) < 2 ^ 40"
  shows "parse_manifest (encode_manifest v) = Ok v"
proof -
  let ?ls = "vr_levels v" and ?b = "manifest_body v"
  let ?c = "put_u32 (crc_koopman ?b)"
  let ?h = "put_int (vr_num v) @ put_int (int (length ?ls))"
  have all: "encode_manifest v = ?h @ concat (map encode_level ?ls) @ ?c"
    by (simp add: encode_manifest_def manifest_body_def)
  have lc: "length (concat (map encode_level ?ls)) < 2 ^ 40" using len unfolding all by simp
  have "8 * length ?ls \<le> length (concat (map encode_level ?ls))" by (rule concat_ge) (simp add: encode_level_def)
  then have few: "8 * length ?ls < 2 ^ 40" using lc by simp
  have each: "list_all level_ok ?ls"
    unfolding list_all_iff
  proof
    fix ms assume m: "ms \<in> set ?ls"
    then have "length (encode_level ms) \<le> length (concat (map encode_level ?ls))"
      by (auto simp: length_concat comp_def intro!: member_le_sum_list)
    then show "level_ok ms" using ok m lc by (auto simp: version_ok_def level_ok_def list_all_iff)
  qed
  have n: "sint (get_u64 (drop 8 (encode_manifest v))) = int (length ?ls)"
  proof -
    have "get_u64 (drop 8 (encode_manifest v)) = word_of_int (int (length ?ls))" by (simp add: all put_int_def)
    moreover have "int64 (int (length ?ls))" using few by (simp add: int64_def)
    ultimately show ?thesis by (simp only: sint_put_int)
  qed
  have num: "sint (get_u64 (encode_manifest v)) = vr_num v"
    using ok by (simp add: all put_int_def sint_put_int version_ok_def)
  have g: "go_make (int (length ?ls)) 24 = Ok ()" using few by (simp add: go_make_def)
  have d: "dec_times parse_level (length ?ls) (encode_manifest v) 16 = Ok (?ls, 16 + length (concat (map encode_level ?ls)))"
    using level.dec_times_concat [OF each, of ?h ?c] lc by (simp add: all)
  have cs: "drop (length (encode_manifest v) - 4) (encode_manifest v) = ?c" "take (length (encode_manifest v) - 4) (encode_manifest v) = ?b"
    by (simp_all add: encode_manifest_def)
  have "\<not> length (encode_manifest v) < 16" by (simp add: all)
  then show ?thesis
    by (simp only: parse_manifest_def Let_def n g d cs num obind.simps nat_int prod.case get_put_u32_nil if_False simp_thms) simp
qed

subsection \<open>File names tell tables apart\<close>

lemma unat_hex_digit: "d < 16 \<Longrightarrow> unat (hex_digit d) = (if d < 10 then 48 + d else 87 + d)"
  unfolding hex_digit_def by (rule unat_of_nat_byte) auto

lemma hex_digit_inj:
  assumes "d < 16" and "e < 16" and "hex_digit d = hex_digit e"
  shows "d = e"
proof -
  have "(if d < 10 then 48 + d else 87 + d) = (if e < 10 then 48 + e else 87 + e)"
    using assms(3) by (simp only: unat_hex_digit [OF assms(1), symmetric] unat_hex_digit [OF assms(2), symmetric])
  then show ?thesis by (cases "d < 10"; cases "e < 10") auto
qed

lemma hex_digit_not_sep:
  assumes "d < 16"
  shows "hex_digit d \<noteq> 95"
proof
  assume "hex_digit d = 95"
  then have "unat (hex_digit d) = 95" by simp
  then show False using assms by (simp only: unat_hex_digit [OF assms]) (cases "d < 10"; simp)
qed

lemma unat_byte_parts: "unat (x :: byte) div 16 < 16" "unat (x :: byte) mod 16 < 16"
proof -
  have "unat x < 256" using unsigned_less [of x] by simp
  then show "unat x div 16 < 16" "unat x mod 16 < 16" by auto
qed

lemma hex_no_sep: "95 \<notin> set (hex_encode b)"
proof -
  have "95 \<noteq> hex_digit (unat x div 16)" "95 \<noteq> hex_digit (unat x mod 16)" for x :: byte
    using hex_digit_not_sep unat_byte_parts by metis+
  then show ?thesis by (auto simp: hex_encode_def)
qed

lemma hex_inj: "hex_encode a = hex_encode b \<Longrightarrow> a = b"
proof (induction a arbitrary: b)
  case Nil
  then show ?case by (cases b) (auto simp: hex_encode_def)
next
  case (Cons x a)
  then obtain y b' where b: "b = y # b'" by (cases b) (auto simp: hex_encode_def)
  have "hex_digit (unat x div 16) = hex_digit (unat y div 16)" "hex_digit (unat x mod 16) = hex_digit (unat y mod 16)"
    "hex_encode a = hex_encode b'" using Cons.prems by (simp_all add: b hex_encode_def)
  then have "unat x div 16 = unat y div 16" "unat x mod 16 = unat y mod 16" "a = b'"
    using hex_digit_inj unat_byte_parts Cons.IH by blast+
  then have "unat x = unat y" by (metis div_mult_mod_eq)
  then show ?case using \<open>a = b'\<close> by (simp add: b word_unat_eq_iff)
qed

lemma sep_split: "x \<notin> set a \<Longrightarrow> x \<notin> set c \<Longrightarrow> a @ x # b = c @ x # d \<Longrightarrow> a = c \<and> b = d"
proof (induction a arbitrary: c)
  case Nil
  then show ?case by (cases c) auto
next
  case (Cons y a)
  then show ?case by (cases c) auto
qed

lemma toa_digit: "n mod 10 < 10 \<and> unat (of_nat (48 + n mod 10) :: byte) = 48 + n mod 10"
  by (auto intro: unat_of_nat_byte simp del: of_nat_add)

lemma u64toa_loop_inj: "n < 10 ^ room \<Longrightarrow> m < 10 ^ room \<Longrightarrow> u64toa_loop room n = u64toa_loop room m \<Longrightarrow> n = m"
proof (induction room arbitrary: n m)
  case (Suc room)
  have d: "of_nat (48 + n mod 10) = (of_nat (48 + m mod 10) :: byte) \<Longrightarrow> n mod 10 = m mod 10"
    using toa_digit [of n] toa_digit [of m] by (metis add_left_cancel)
  show ?case
  proof (cases "n = 0 \<or> m = 0")
    case True
    then show ?thesis using Suc.prems(3) by (auto split: if_splits)
  next
    case False
    then have "u64toa_loop room (n div 10) = u64toa_loop room (m div 10)" "n mod 10 = m mod 10"
      using Suc.prems(3) d by (simp_all del: of_nat_add)
    moreover have "n div 10 < 10 ^ room" "m div 10 < 10 ^ room" using Suc.prems(1,2) by (simp_all add: less_mult_imp_div_less mult.commute)
    ultimately show ?thesis using Suc.IH by (metis div_mult_mod_eq)
  qed
qed simp

lemma u64toa_inj:
  assumes "u64toa n = u64toa m"
  shows "n = m"
proof -
  have "unat n < 2 ^ 64" "unat m < 2 ^ 64" using unsigned_less [of n] unsigned_less [of m] by simp_all
  then have "unat n < 10 ^ 20" "unat m < 10 ^ 20" by simp_all
  then show ?thesis using assms u64toa_loop_inj [of "unat n" 20 "unat m"] by (simp add: u64toa_def word_unat_eq_iff)
qed

lemma rune_small: "0 \<le> l \<Longrightarrow> l < 10 \<Longrightarrow> utf8_rune (sint (word_of_int (48 + l) :: u32)) = [word_of_int (48 + l)]"
proof -
  assume l: "0 \<le> l" "l < 10"
  have "sint (word_of_int (48 + l) :: u32) = 48 + l"
    using l by (subst sint_sbintrunc') (intro signed_take_bit_int_eq_self; simp)
  then show ?thesis using l by (simp add: utf8_rune_def del: of_int_add)
qed

lemma file_name_inj:
  assumes "file_name m = file_name m'"
    and "0 \<le> fm_level m" and "fm_level m < 10" and "0 \<le> fm_level m'" and "fm_level m' < 10"
  shows "fm_level m = fm_level m' \<and> fm_min m = fm_min m' \<and> fm_max m = fm_max m' \<and> fm_id m = fm_id m'"
proof -
  have ne: "95 \<notin> set (hex_encode b)" for b by (rule hex_no_sep)
  have a: "ascii ''_'' = [95]" by (simp add: ascii_def)
  have "word_of_int (48 + fm_level m) # 95 # hex_encode (fm_min m) @ 95 # hex_encode (fm_max m) @ 95 # u64toa (fm_id m) @ ascii ''.sst''
      = word_of_int (48 + fm_level m') # 95 # hex_encode (fm_min m') @ 95 # hex_encode (fm_max m') @ 95 # u64toa (fm_id m') @ (ascii ''.sst'' :: bytes)"
    using assms(1) by (simp add: file_name_def rune_small [OF assms(2,3)] rune_small [OF assms(4,5)] a del: of_int_add)
  then have l: "(word_of_int (48 + fm_level m) :: byte) = word_of_int (48 + fm_level m')"
    and k: "hex_encode (fm_min m) @ 95 # hex_encode (fm_max m) @ 95 # u64toa (fm_id m) @ ascii ''.sst''
      = hex_encode (fm_min m') @ 95 # hex_encode (fm_max m') @ 95 # u64toa (fm_id m') @ (ascii ''.sst'' :: bytes)"
    by (simp_all del: of_int_add)
  have 1: "hex_encode (fm_min m) = hex_encode (fm_min m')" and k2: "hex_encode (fm_max m) @ 95 # u64toa (fm_id m) @ ascii ''.sst''
      = hex_encode (fm_max m') @ 95 # u64toa (fm_id m') @ (ascii ''.sst'' :: bytes)"
    using sep_split [OF ne ne k] by blast+
  have 2: "hex_encode (fm_max m) = hex_encode (fm_max m')" and k3: "u64toa (fm_id m) @ ascii ''.sst'' = u64toa (fm_id m') @ (ascii ''.sst'' :: bytes)"
    using sep_split [OF ne ne k2] by blast+
  have u: "uint (word_of_int (48 + i) :: byte) = 48 + i" if "0 \<le> i" "i < 10" for i
    using that by (simp add: uint_word_of_int del: of_int_add)
  have "48 + fm_level m = 48 + fm_level m'"
    using arg_cong [OF l, of uint] by (simp only: u [OF assms(2,3)] u [OF assms(4,5)])
  then have "fm_level m = fm_level m'" by simp
  then show ?thesis using hex_inj [OF 1] hex_inj [OF 2] u64toa_inj [of "fm_id m" "fm_id m'"] k3 by simp
qed

text \<open>
  The file name of a table determines the table: two table descriptions of the levels 0 to 9 that name
  the same file have the same level, the same key range and the same number, so no flush or compaction of
  one process can overwrite the file of another table, whatever bytes the keys contain.
\<close>

theorem file_name_injective:
  assumes "file_name m = file_name m'"
    and "0 \<le> fm_level m" and "fm_level m < 10" and "0 \<le> fm_level m'" and "fm_level m' < 10"
  shows "fm_level m = fm_level m' \<and> fm_min m = fm_min m' \<and> fm_max m = fm_max m' \<and> fm_id m = fm_id m'"
  by (rule file_name_inj [OF assms])

definition sample_meta :: sst_meta where
  "sample_meta = \<lparr>fm_id = 7, fm_level = 0, fm_min = [0, 95], fm_max = [255], fm_size = 90, fm_bloom = 10\<rparr>"

theorem file_name_injective_witness: "file_name sample_meta \<noteq> file_name (sample_meta\<lparr>fm_id := 8\<rparr>)"
  using file_name_injective [of sample_meta "sample_meta\<lparr>fm_id := 8\<rparr>"] by (auto simp: sample_meta_def)

subsection \<open>The manifest file\<close>

text \<open>The file on disk and the version in memory agree.\<close>

definition manifest_synced :: "disk \<times> manifest \<Rightarrow> bool" where
  "manifest_synced st \<longleftrightarrow> new_manifest (fst st) = Ok (snd st)"

lemma paths_distinct: "manifest_tmp \<noteq> manifest_path"
  by (simp add: manifest_tmp_def manifest_path_def ascii_def)

lemma write_file_other: "path \<noteq> p \<Longrightarrow> write_file a path data d p = d p"
  by (simp add: write_file_def)

text \<open>
  C12. \<open>Apply\<close> is atomic: whether the temporary file is written completely, partly or the rename fails, the
  manifest that a restart reads is the one the engine has in memory; it is the new version when \<open>Apply\<close>
  returned nil and the old one when it returned an error.
\<close>

theorem manifest_apply_atomic:
  assumes "manifest_synced (d, m)" and "version_ok v" and "length (encode_manifest v) < 2 ^ 40" and "int64 (mf_version m)"
    and "manifest_apply wr rn v (d, m) = (err, d', m')"
  shows "manifest_synced (d', m') \<and> (err \<noteq> None \<longrightarrow> m' = m) \<and>
    (err = None \<longrightarrow> vr_levels (mf_current m') = vr_levels v)"
proof -
  define v' where "v' = (if vr_num v = 0 then v\<lparr>vr_num := wrap64 (mf_version m + 1)\<rparr> else v)"
  have "int64 (wrap64 i)" for i using sint_lt [of "word_of_int i :: u64"] sint_ge [of "word_of_int i :: u64"] by (simp add: int64_def wrap64_def)
  then have ok: "version_ok v'" using assms(2) by (simp add: v'_def version_ok_def)
  have "length (encode_manifest v') = length (encode_manifest v)"
    by (simp add: v'_def encode_manifest_def manifest_body_def)
  then have parse: "parse_manifest (encode_manifest v') = Ok v'" using parse_encode_manifest [OF ok] assms(3) by simp
  let ?d1 = "write_file wr manifest_tmp (encode_manifest v') d"
  have same: "manifest_synced (?d1, m)"
    using assms(1) write_file_other [OF paths_distinct] by (simp add: manifest_synced_def new_manifest_def)
  show ?thesis
  proof (cases "wr = Written \<and> rn")
    case False
    then have "d' = ?d1" "m' = m" "err \<noteq> None"
      using assms(5) by (auto simp: manifest_apply_def v'_def [symmetric] Let_def split: write_answer.splits if_splits)
    then show ?thesis using same by auto
  next
    case True
    then have r: "d' = rename_file manifest_tmp manifest_path ?d1" "m' = \<lparr>mf_version = vr_num v', mf_current = v'\<rparr>" "err = None"
      using assms(5) by (auto simp: manifest_apply_def v'_def [symmetric] Let_def)
    have "d' manifest_path = Some (encode_manifest v')"
      using True r(1) paths_distinct by (simp add: rename_file_def write_file_def)
    then show ?thesis using parse r by (simp add: manifest_synced_def new_manifest_def v'_def)
  qed
qed

definition sample_version :: version where
  "sample_version = \<lparr>vr_num = 1, vr_levels = [[sample_meta], []]\<rparr>"

lemma sample_version_ok: "version_ok sample_version" "length (encode_manifest sample_version) < 2 ^ 40"
  by (simp_all add: version_ok_def sample_version_def sample_meta_def meta_ok_def int64_def encode_manifest_def
      manifest_body_def encode_level_def encode_meta_def varint_small)

theorem manifest_apply_atomic_witness:
  "\<exists>d' m'. manifest_apply Written True sample_version (\<lambda>_. None, \<lparr>mf_version = 0, mf_current = \<lparr>vr_num = 0, vr_levels = []\<rparr>\<rparr>)
      = (None, d', m') \<and> new_manifest d' = Ok m' \<and> vr_levels (mf_current m') = [[sample_meta], []]"
proof -
  let ?m = "\<lparr>mf_version = 0, mf_current = \<lparr>vr_num = 0, vr_levels = []\<rparr>\<rparr>"
  have s: "manifest_synced (\<lambda>_. None, ?m)" by (simp add: manifest_synced_def new_manifest_def)
  have i: "int64 (mf_version ?m)" by (simp add: int64_def)
  obtain d' m' where a: "manifest_apply Written True sample_version (\<lambda>_. None, ?m) = (None, d', m')"
    by (auto simp: manifest_apply_def Let_def)
  show ?thesis using manifest_apply_atomic [OF s sample_version_ok i a] a
    by (auto simp: manifest_synced_def sample_version_def)
qed

text \<open>
  A damaged manifest is never loaded: after a change of up to four consecutive bytes of the encoded
  version, \<open>parseManifest\<close> returns no version.
\<close>

theorem manifest_corruption_detected:
  assumes "manifest_body v = pre @ m @ post" and "length m \<le> 4" and "length m' = length m" and "m \<noteq> m'"
  shows "parse_manifest (pre @ m' @ post @ put_u32 (crc_koopman (manifest_body v))) \<noteq> Ok v'"
proof
  let ?bad = "(pre @ m' @ post) @ put_u32 (crc_koopman (pre @ m @ post))"
  assume "parse_manifest (pre @ m' @ post @ put_u32 (crc_koopman (manifest_body v))) = Ok v'"
  then have "parse_manifest ?bad = Ok v'" by (simp add: assms(1))
  moreover have "take (length ?bad - 4) ?bad = pre @ m' @ post" "drop (length ?bad - 4) ?bad = put_u32 (crc_koopman (pre @ m @ post))"
    by simp_all
  ultimately have "crc_koopman (pre @ m @ post) = crc_koopman (pre @ m' @ post)"
    unfolding parse_manifest_def Let_def by (simp only:) (auto simp: obind_Ok_iff split: if_splits)
  then show False using koopman.burst [OF assms(2-4)] by metis
qed

theorem manifest_corruption_detected_witness:
  "parse_manifest ([9] @ drop 1 (manifest_body sample_version) @ put_u32 (crc_koopman (manifest_body sample_version))) \<noteq> Ok sample_version"
proof -
  have b: "manifest_body sample_version = [] @ [1] @ drop 1 (manifest_body sample_version)"
    by (simp add: manifest_body_def sample_version_def put_int_def go_eval Let_def)
  show ?thesis using manifest_corruption_detected [OF b, of "[9]" sample_version] by simp
qed

text \<open>
  But a damaged manifest can crash the engine instead of being reported: the level count is used to
  allocate before the checksum is looked at, so any file of at least 16 bytes whose bytes 8 to 15 read as a
  negative number makes \<open>parseManifest\<close> panic.
\<close>

theorem manifest_bad_count_panics:
  assumes "16 \<le> length data" and "sint (get_u64 (drop 8 data)) < 0"
  shows "parse_manifest data = Panic"
  using assms by (simp add: parse_manifest_def Let_def go_make_def)

theorem manifest_bad_count_panics_witness: "parse_manifest (replicate 8 0 @ put_u64 (- 1)) = Panic"
  using manifest_bad_count_panics [of "replicate 8 0 @ put_u64 (- 1)"] by simp

end
