(* ===== verification/Ls_Engine.thy ===== *)
theory Ls_Engine
  imports Ls_Skiplist Ls_Manifest
begin

text \<open>
  The storage engine of \<open>internal/ENG/LS\<close>: \<open>engine.go\<close> (memtables, reads, flushing), the flush job and its
  queue of \<open>flush.go\<close>, and the public handle of \<open>api.go\<close> with its tombstones. A memtable is its index in
  the list of all memtables ever made, so the queue and the readers share it as the pointers of the code do.
  The flush goroutine is a step of its own: between a write that freezes the memtable and that step anything
  can happen. The file system answers every operation through \<open>flush_answers\<close>.
\<close>

subsection \<open>State\<close>

datatype eng_error = ErrKeyNotFoundE | ErrNotFound | ErrMemtableNotFrozen | ErrFlushIO | ErrManifest manifest_error

record read_stats =
  rs_memtable_hits :: int
  rs_sst_hits :: int
  rs_disk_reads :: int

record engine =
  en_heap :: "memtable list"
  en_list :: "nat list"
  en_active :: nat
  en_queue :: "(nat \<times> u64) list"
  en_next_id :: u64
  en_man :: manifest
  en_disk :: disk
  en_last_err :: "eng_error option"
  en_stats :: read_stats

definition mem_max :: int where "mem_max = 64 * 1024 * 1024"

text \<open>\<open>newEngine\<close> on a directory with these files; the file number counter is global to the process.\<close>

definition new_engine :: "u64 \<Rightarrow> disk \<Rightarrow> (eng_error, engine) outcome" where
  "new_engine next d =
     (case new_manifest d of
        Ok m \<Rightarrow> Ok \<lparr>en_heap = [new_memtable mem_max], en_list = [0], en_active = 0, en_queue = [], en_next_id = next, en_man = m,
                    en_disk = d, en_last_err = None, en_stats = \<lparr>rs_memtable_hits = 0, rs_sst_hits = 0, rs_disk_reads = 0\<rparr>\<rparr>
      | Fail err \<Rightarrow> Fail (ErrManifest err)
      | Panic \<Rightarrow> Panic)"

subsection \<open>Flushing\<close>

record flush_answers =
  fa_mkdir :: bool
  fa_write :: write_answer
  fa_stat :: bool
  fa_rename :: bool
  fa_man_write :: write_answer
  fa_man_rename :: bool
  fa_nano :: u64

definition all_well :: "u64 \<Rightarrow> flush_answers" where
  "all_well nano = \<lparr>fa_mkdir = True, fa_write = Written, fa_stat = True, fa_rename = True, fa_man_write = Written, fa_man_rename = True, fa_nano = nano\<rparr>"

definition decimal :: "u64 \<Rightarrow> bytes" where "decimal n = (if n = 0 then ascii ''0'' else u64toa n)"

definition flush_tmp :: "u64 \<Rightarrow> u64 \<Rightarrow> bytes" where
  "flush_tmp fid nano = ascii ''sst/.tmp_'' @ decimal fid @ ascii ''_'' @ decimal nano @ ascii ''.sst''"

definition flush_to_sst :: "sst_env \<Rightarrow> memtable \<Rightarrow> bytes option" where
  "flush_to_sst E m = sst_finish E (fold sst_add (mt_entries m) new_sst_writer)"

definition remove_file :: "bytes \<Rightarrow> disk \<Rightarrow> disk" where "remove_file p d = d(p := None)"

text \<open>The new version: the table in front of level 0.\<close>

definition add_to_level0 :: "sst_meta \<Rightarrow> version \<Rightarrow> version" where
  "add_to_level0 m v =
     \<lparr>vr_num = wrap64 (vr_num v + 1),
      vr_levels = (case vr_levels v of [] \<Rightarrow> [[m]] | l # ls \<Rightarrow> (m # l) # ls)\<rparr>"

definition flush_meta :: "u64 \<Rightarrow> bytes \<Rightarrow> (bytes \<times> bytes) list \<Rightarrow> sst_meta" where
  "flush_meta fid data kvs =
     \<lparr>fm_id = fid, fm_level = 0, fm_min = fst (hd kvs), fm_max = fst (last kvs), fm_size = int (length data), fm_bloom = 10\<rparr>"

definition update_manifest ::
  "flush_answers \<Rightarrow> bytes \<Rightarrow> u64 \<Rightarrow> bytes \<Rightarrow> memtable \<Rightarrow> disk \<times> manifest \<Rightarrow> eng_error option \<times> disk \<times> manifest" where
  "update_manifest a tmp fid data m st =
     (case st of (d, man) \<Rightarrow>
        if \<not> fa_stat a then (Some ErrFlushIO, d, man)
        else if mt_entries m = [] then (None, remove_file tmp d, man)
        else let meta = flush_meta fid data (mt_entries m)
             in if \<not> fa_rename a then (Some ErrFlushIO, d, man)
                else let d1 = rename_file tmp (file_name meta) d
                     in case manifest_apply (fa_man_write a) (fa_man_rename a) (add_to_level0 meta (mf_current man)) (d1, man) of
                          (None, d2, man2) \<Rightarrow> (None, d2, man2)
                        | (Some e, d2, man2) \<Rightarrow> (Some (ErrManifest e), d2, man2))"

definition run_flush ::
  "sst_env \<Rightarrow> flush_answers \<Rightarrow> u64 \<Rightarrow> memtable \<Rightarrow> disk \<times> manifest \<Rightarrow> eng_error option \<times> disk \<times> manifest" where
  "run_flush E a fid m st =
     (case st of (d, man) \<Rightarrow>
        if \<not> mt_frozen m then (Some ErrMemtableNotFrozen, d, man)
        else if \<not> fa_mkdir a then (Some ErrFlushIO, d, man)
        else let tmp = flush_tmp fid (fa_nano a);
                 data = (case flush_to_sst E m of Some b \<Rightarrow> b | None \<Rightarrow> []);
                 d1 = write_file (fa_write a) tmp data d
             in case fa_write a of
                  WriteFailed _ \<Rightarrow> (Some ErrFlushIO, d1, man)
                | Written \<Rightarrow>
                    case update_manifest a tmp fid data m (d1, man) of
                      (None, st2) \<Rightarrow> (None, st2)
                    | (Some e, (d2, man2)) \<Rightarrow> (Some e, remove_file tmp d2, man2))"

text \<open>The flush goroutine takes the next job; a failure is remembered in \<open>lastErr\<close> and the job is gone.\<close>

definition flush_step :: "sst_env \<Rightarrow> flush_answers \<Rightarrow> engine \<Rightarrow> engine" where
  "flush_step E a e =
     (case en_queue e of
        [] \<Rightarrow> e
      | (i, fid) # q \<Rightarrow>
          (case run_flush E a fid (en_heap e ! i) (en_disk e, en_man e) of
             (err, d, man) \<Rightarrow>
               e\<lparr>en_queue := q, en_disk := d, en_man := man,
                 en_last_err := (case err of None \<Rightarrow> en_last_err e | Some x \<Rightarrow> Some x)\<rparr>))"

definition update_mem :: "nat \<Rightarrow> (memtable \<Rightarrow> memtable) \<Rightarrow> engine \<Rightarrow> engine" where
  "update_mem i f e = e\<lparr>en_heap := (en_heap e)[i := f (en_heap e ! i)]\<rparr>"

definition request_flush :: "nat \<Rightarrow> engine \<Rightarrow> engine" where
  "request_flush i e =
     (let e1 = update_mem i freeze e; fid = en_next_id e1 + 1
      in e1\<lparr>en_next_id := fid, en_queue := en_queue e1 @ [(i, fid)]\<rparr>)"

definition flush_active_memtable :: "engine \<Rightarrow> engine" where
  "flush_active_memtable e =
     (let frozen = en_active e;
          e1 = update_mem frozen freeze e;
          new = length (en_heap e1);
          e2 = e1\<lparr>en_heap := en_heap e1 @ [new_memtable mem_max], en_list := en_list e1 @ [new], en_active := new\<rparr>;
          e3 = request_flush frozen e2;
          idx = length (en_list e3) - 2
      in e3\<lparr>en_list := take idx (en_list e3) @ drop (idx + 1) (en_list e3)\<rparr>)"

definition active_mem :: "engine \<Rightarrow> memtable" where "active_mem e = en_heap e ! en_active e"

definition eng_write :: "bool list \<Rightarrow> bytes \<Rightarrow> bytes \<Rightarrow> engine \<Rightarrow> engine" where
  "eng_write flips key val e =
     (let e1 = update_mem (en_active e) (mt_insert flips key val) e
      in if mt_max (active_mem e1) \<le> mt_size (active_mem e1) then flush_active_memtable e1 else e1)"

text \<open>\<open>Sync\<close>: the answers to the jobs in the queue, the new one last, until the queue is empty.\<close>

fun drain :: "sst_env \<Rightarrow> flush_answers list \<Rightarrow> engine \<Rightarrow> engine" where
  "drain E [] e = e"
| "drain E (a # as) e = drain E as (flush_step E a e)"

definition eng_sync :: "sst_env \<Rightarrow> flush_answers list \<Rightarrow> engine \<Rightarrow> eng_error option \<times> engine" where
  "eng_sync E as e =
     (if mt_size (active_mem e) = 0 then (None, e)
      else let e1 = drain E as (flush_active_memtable e) in (en_last_err e1, e1))"

subsection \<open>Reading\<close>

text \<open>The number of pairs an iterator can visit: fuel for the scan of a table.\<close>

definition pair_count :: "sst_env \<Rightarrow> sst_reader \<Rightarrow> nat" where
  "pair_count E r =
     sum_list (map (\<lambda>i. case load_block E r (int i) new_sst_iter of Ok (_, it) \<Rightarrow> length (pairs_of it) | _ \<Rightarrow> 0)
       [0..<length (sr_index r)])"

fun scan_for :: "nat \<Rightarrow> sst_env \<Rightarrow> sst_reader \<Rightarrow> sst_iter \<Rightarrow> bytes \<Rightarrow> (sst_error, bytes option) outcome" where
  "scan_for 0 E r it key = Ok None"
| "scan_for (Suc fuel) E r it key =
     obind (sst_iter_next E r it) (\<lambda>(more, it').
       if \<not> more then Ok None
       else if fst (sst_iter_entry it') = key then Ok (Some (snd (sst_iter_entry it')))
       else scan_for fuel E r it' key)"

text \<open>One file of \<open>readFromSST\<close>: \<open>Ok None\<close> goes on to the next file; \<open>Panic\<close> is a run-time panic.\<close>

definition read_table :: "sst_env \<Rightarrow> bytes \<Rightarrow> bytes \<Rightarrow> (eng_error, bytes option) outcome" where
  "read_table E data key =
     (case open_sst data of
        Fail _ \<Rightarrow> Ok None
      | Panic \<Rightarrow> Panic
      | Ok r \<Rightarrow>
          if \<not> may_contain r key then Ok None
          else (case scan_for (Suc (pair_count E r)) E r new_sst_iter key of
                  Ok res \<Rightarrow> Ok res | Fail _ \<Rightarrow> Ok None | Panic \<Rightarrow> Panic))"

definition in_range :: "bytes \<Rightarrow> sst_meta \<Rightarrow> bool" where
  "in_range key m \<longleftrightarrow> \<not> (bytes_compare key (fm_min m) < 0 \<or> 0 < bytes_compare key (fm_max m))"

text \<open>The files of a level in the order they are tried, with the number of files read so far.\<close>

fun read_files :: "sst_env \<Rightarrow> disk \<Rightarrow> bytes \<Rightarrow> sst_meta list \<Rightarrow> int \<Rightarrow> (eng_error, bytes option) outcome \<times> int" where
  "read_files E d key [] n = (Ok None, n)"
| "read_files E d key (m # ms) n =
     (if \<not> in_range key m then read_files E d key ms n
      else (case d (file_name m) of
              None \<Rightarrow> read_files E d key ms (n + 1)
            | Some data \<Rightarrow>
                (case read_table E data key of
                   Ok None \<Rightarrow> read_files E d key ms (n + 1)
                 | res \<Rightarrow> (res, n + 1))))"

definition read_from_sst :: "sst_env \<Rightarrow> bytes \<Rightarrow> engine \<Rightarrow> (eng_error, bytes) outcome \<times> int" where
  "read_from_sst E key e =
     (case read_files E (en_disk e) key (concat (map rev (vr_levels (mf_current (en_man e))))) 0 of
        (Ok (Some v), n) \<Rightarrow> (Ok v, n)
      | (Ok None, n) \<Rightarrow> (Fail ErrKeyNotFoundE, n)
      | (Fail err, n) \<Rightarrow> (Fail err, n)
      | (Panic, n) \<Rightarrow> (Panic, n))"

text \<open>The first memtable of a list that has the key.\<close>

fun mem_lookup :: "engine \<Rightarrow> bytes \<Rightarrow> nat list \<Rightarrow> bytes option" where
  "mem_lookup e key [] = None"
| "mem_lookup e key (i # is) = (case mt_get key (en_heap e ! i) of Some v \<Rightarrow> Some v | None \<Rightarrow> mem_lookup e key is)"

definition read_order :: "engine \<Rightarrow> nat list" where
  "read_order e = filter (\<lambda>i. \<not> mt_frozen (en_heap e ! i)) (rev (en_list e)) @ filter (\<lambda>i. mt_frozen (en_heap e ! i)) (en_list e)"

definition eng_read :: "sst_env \<Rightarrow> bytes \<Rightarrow> engine \<Rightarrow> (eng_error, bytes) outcome \<times> engine" where
  "eng_read E key e =
     (case mem_lookup e key (read_order e) of
        Some v \<Rightarrow> (Ok v, e\<lparr>en_stats := (en_stats e)\<lparr>rs_memtable_hits := rs_memtable_hits (en_stats e) + 1\<rparr>\<rparr>)
      | None \<Rightarrow>
          (case read_from_sst E key e of (res, n) \<Rightarrow>
             let st = (en_stats e)\<lparr>rs_disk_reads := rs_disk_reads (en_stats e) + n\<rparr>
             in (res, e\<lparr>en_stats := (case res of Ok _ \<Rightarrow> st\<lparr>rs_sst_hits := rs_sst_hits st + 1\<rparr> | _ \<Rightarrow> st)\<rparr>)))"

subsection \<open>The public handle\<close>

definition tombstone :: bytes where "tombstone = [0xDE, 0xAD, 0xBE, 0xEF]"

definition is_tombstone :: "bytes \<Rightarrow> bool" where "is_tombstone v = (v = tombstone)"

definition eng_get :: "sst_env \<Rightarrow> bytes \<Rightarrow> engine \<Rightarrow> (eng_error, bytes) outcome \<times> engine" where
  "eng_get E key e =
     (case eng_read E key e of
        (Ok v, e') \<Rightarrow> (if is_tombstone v then Fail ErrNotFound else Ok v, e')
      | (res, e') \<Rightarrow> (res, e'))"

definition eng_insert :: "bool list \<Rightarrow> bytes \<Rightarrow> bytes \<Rightarrow> engine \<Rightarrow> engine" where
  "eng_insert flips key val e = eng_write flips key val e"

definition eng_delete :: "bool list \<Rightarrow> bytes \<Rightarrow> engine \<Rightarrow> engine" where
  "eng_delete flips key e = eng_write flips key tombstone e"

subsection \<open>The fuel of the table scan is enough\<close>

definition blk :: "sst_env \<Rightarrow> sst_reader \<Rightarrow> nat \<Rightarrow> (bytes \<times> bytes) list" where
  "blk E r i = (case load_block E r (int i) new_sst_iter of Ok (_, it) \<Rightarrow> pairs_of it | _ \<Rightarrow> [])"

definition on_pair :: "sst_env \<Rightarrow> sst_reader \<Rightarrow> sst_iter \<Rightarrow> nat \<Rightarrow> nat \<Rightarrow> bool" where
  "on_pair E r it b j \<longleftrightarrow> b < length (sr_index r) \<and> j < length (blk E r b) \<and>
     it = \<lparr>si_block = int b, si_pair = j, si_pairs = Some (blk E r b)\<rparr>"

definition after_block :: "sst_env \<Rightarrow> sst_reader \<Rightarrow> nat \<Rightarrow> nat" where
  "after_block E r b = sum_list (map (\<lambda>i. length (blk E r i)) [b..<length (sr_index r)])"

lemma after_block_step: "b < length (sr_index r) \<Longrightarrow> after_block E r b = length (blk E r b) + after_block E r (Suc b)"
  by (simp add: after_block_def upt_conv_Cons)

lemma pair_count_blocks: "pair_count E r = after_block E r 0"
proof -
  have "(case load_block E r (int i) new_sst_iter of Ok (_, it) \<Rightarrow> length (pairs_of it) | _ \<Rightarrow> 0) = length (blk E r i)" for i
    by (simp add: blk_def split: outcome.split)
  then show ?thesis by (simp add: pair_count_def after_block_def)
qed

lemma load_block_any:
  assumes "load_block E r (int b) it = Ok (True, it')"
  shows "b < length (sr_index r) \<and> it' = \<lparr>si_block = int b, si_pair = 0, si_pairs = (if blk E r b = [] then None else Some (blk E r b))\<rparr>"
proof -
  have b: "b < length (sr_index r)" using assms by (auto simp: load_block_def split: if_splits)
  obtain d where d: "read_block E r (ix_off (sr_index r ! b)) (ix_size (sr_index r ! b)) = Ok d"
    using assms b by (auto simp: load_block_def Let_def obind_Ok_iff)
  obtain kvs where k: "decode_block (case d of None \<Rightarrow> [] | Some d \<Rightarrow> d) = Ok kvs"
    using assms b d by (cases "decode_block (case d of None \<Rightarrow> [] | Some d \<Rightarrow> d)") (auto simp: load_block_def Let_def)
  then have "load_block E r (int b) it2 = Ok (True, \<lparr>si_block = int b, si_pair = 0, si_pairs = (if kvs = [] then None else Some kvs)\<rparr>)" for it2
    using b d by (simp add: load_block_def Let_def)
  then show ?thesis using assms b by (cases "kvs = []") (auto simp: blk_def pairs_of_def)
qed

lemma advance_any:
  assumes "advance_to E r (int b) it = Ok (True, it')"
  shows "on_pair E r it' b 0"
proof -
  have l: "load_block E r (int b) it = Ok (True, it')" and p: "si_pair it' < length (pairs_of it')"
    using assms by (auto simp: advance_to_def obind_Ok_iff)
  show ?thesis using load_block_any [OF l] p by (auto simp: on_pair_def pairs_of_def split: if_splits)
qed

lemma next_any:
  assumes "on_pair E r it b j" and "sst_iter_next E r it = Ok (True, it')"
  shows "\<exists>b' j'. on_pair E r it' b' j' \<and> length (blk E r b') - Suc j' + after_block E r (Suc b') < length (blk E r b) - Suc j + after_block E r (Suc b)"
proof -
  have it: "it = \<lparr>si_block = int b, si_pair = j, si_pairs = Some (blk E r b)\<rparr>" and b: "b < length (sr_index r)"
    using assms(1) by (auto simp: on_pair_def)
  show ?thesis
  proof (cases "j + 1 < length (blk E r b)")
    case True
    then have "it' = it\<lparr>si_pair := j + 1\<rparr>" using assms(2) by (simp add: sst_iter_next_def it)
    then show ?thesis using True b by (intro exI [of _ b] exI [of _ "j + 1"]) (auto simp: on_pair_def it)
  next
    case False
    then have "advance_to E r (int (Suc b)) it = Ok (True, it')" using assms(2) by (simp add: sst_iter_next_def it add.commute)
    then have o: "on_pair E r it' (Suc b) 0" by (rule advance_any)
    then have sb: "Suc b < length (sr_index r)" and ps: "0 < length (blk E r (Suc b))" by (simp_all add: on_pair_def)
    have "length (blk E r (Suc b)) - Suc 0 < length (blk E r (Suc b))" using ps by simp
    then have "length (blk E r (Suc b)) - Suc 0 + after_block E r (Suc (Suc b)) < length (blk E r b) - Suc j + after_block E r (Suc b)"
      using after_block_step [OF sb, of E] by linarith
    then show ?thesis using o by blast
  qed
qed

lemma scan_for_stable:
  "on_pair E r it b j \<Longrightarrow> length (blk E r b) - Suc j + after_block E r (Suc b) < fuel \<Longrightarrow>
   scan_for (fuel + extra) E r it key = scan_for fuel E r it key"
proof (induction fuel arbitrary: it b j)
  case (Suc fuel)
  show ?case
  proof (cases "sst_iter_next E r it")
    case (Ok res)
    obtain m it' where res: "res = (m, it')" by (cases res)
    show ?thesis
    proof (cases m)
      case True
      then obtain b' j' where "on_pair E r it' b' j'"
        "length (blk E r b') - Suc j' + after_block E r (Suc b') < length (blk E r b) - Suc j + after_block E r (Suc b)"
        using next_any [OF Suc.prems(1), of it'] Ok res True by auto
      then have "scan_for (fuel + extra) E r it' key = scan_for fuel E r it' key" using Suc.IH Suc.prems(2) by fastforce
      then show ?thesis using Ok res by simp
    qed (simp add: Ok res)
  qed simp_all
qed simp

lemma scan_fuel_enough: "scan_for (Suc (pair_count E r) + extra) E r new_sst_iter key = scan_for (Suc (pair_count E r)) E r new_sst_iter key"
proof (cases "sst_iter_next E r new_sst_iter")
  case (Ok res)
  obtain m it' where res: "res = (m, it')" by (cases res)
  show ?thesis
  proof (cases m)
    case True
    then have "advance_to E r (int 0) new_sst_iter = Ok (True, it')" using Ok res by (simp add: sst_iter_next_def new_sst_iter_def)
    then have o: "on_pair E r it' 0 0" by (rule advance_any)
    then have "pair_count E r = length (blk E r 0) + after_block E r (Suc 0)" "0 < length (blk E r 0)"
      using after_block_step [of 0 r E] by (simp_all add: pair_count_blocks on_pair_def)
    then have "scan_for (pair_count E r + extra) E r it' key = scan_for (pair_count E r) E r it' key"
      using o by (intro scan_for_stable) auto
    then show ?thesis using Ok res by simp
  qed (simp add: Ok res)
qed simp_all

subsection \<open>Tables the engine wrote\<close>

lemma scan_for_left:
  "sst_holds E r gs \<Longrightarrow> at_pair it gs i j \<Longrightarrow> length (left gs i j) < fuel \<Longrightarrow> scan_for fuel E r it key = Ok (map_of (left gs i j) key)"
proof (induction fuel arbitrary: it i j)
  case (Suc fuel)
  from iter_next_ok [OF Suc.prems(1,2)] show ?case
  proof (elim disjE exE conjE)
    fix it' i' j' assume n: "sst_iter_next E r it = Ok (True, it')" "at_pair it' gs i' j'"
      "left gs i j = sst_iter_entry it' # left gs i' j'"
    then have "scan_for fuel E r it' key = Ok (map_of (left gs i' j') key)" using Suc.IH [OF Suc.prems(1) n(2)] Suc.prems(3) by simp
    then show ?thesis using n by (cases "sst_iter_entry it'") simp
  qed simp
qed simp

lemma read_table_ok:
  assumes "flate_ok E" and "kvs \<noteq> []" and "fits kvs" and "sst_finish E (fold sst_add kvs new_sst_writer) = Some data" and "length data < 2 ^ 32"
  shows "read_table E data key = Ok (map_of kvs key)"
proof -
  obtain r gs where o: "open_sst data = Ok r" and gs: "concat gs = kvs" and h: "sst_holds E r gs"
    using finish_holds [OF assms] by blast
  show ?thesis
  proof (cases "may_contain r key")
    case False
    then have "map_of kvs key = None" using h gs by (auto simp: sst_holds_def map_of_eq_None_iff)
    then show ?thesis using False o by (simp add: read_table_def)
  next
    case True
    have ne: "gs \<noteq> []" using gs assms(2) by auto
    let ?it = "\<lparr>si_block = int 0, si_pair = 0, si_pairs = Some (gs ! 0)\<rparr>"
    have l: "0 < length gs" using ne by simp
    have at: "at_pair ?it gs 0 0" using l block_ne [OF h l] by (simp add: at_pair_def)
    have n: "sst_iter_next E r new_sst_iter = Ok (True, ?it)"
      using advance_ok [OF h l, of new_sst_iter] by (simp add: sst_iter_next_def new_sst_iter_def)
    obtain g gs' where g: "gs = g # gs'" using ne by (cases gs) auto
    obtain kv g' where g0: "g = kv # g'" using block_ne [OF h l] g by (cases g) auto
    have c: "kvs = sst_iter_entry ?it # left gs 0 0"
      by (simp add: gs [symmetric] g g0 left_def sst_iter_entry_def pairs_of_def)
    let ?f = "pair_count E r + Suc (length kvs)"
    have "length (left gs 0 0) < ?f" by (subst c) simp
    then have s: "scan_for ?f E r ?it key = Ok (map_of (left gs 0 0) key)" by (rule scan_for_left [OF h at])
    have "scan_for (Suc ?f) E r new_sst_iter key = Ok (map_of (sst_iter_entry ?it # left gs 0 0) key)"
      using n s by (cases "sst_iter_entry ?it") simp
    then have "scan_for (Suc (pair_count E r)) E r new_sst_iter key = Ok (map_of kvs key)"
      using scan_fuel_enough [of E r "Suc (length kvs)" key] unfolding c [symmetric] by simp
    then show ?thesis using True o by (simp add: read_table_def)
  qed
qed

subsection \<open>The engine as a store with tombstones\<close>

definition result_value :: "('e, 'a) outcome \<Rightarrow> 'a option" where
  "result_value r = (case r of Ok v \<Rightarrow> Some v | _ \<Rightarrow> None)"

lemma result_value_simps [simp]: "result_value (Ok v) = Some v" "result_value (Fail x) = None" "result_value Panic = None"
  by (simp_all add: result_value_def)

definition sst_view :: "sst_env \<Rightarrow> engine \<Rightarrow> bytes \<Rightarrow> bytes option" where
  "sst_view E e key = result_value (fst (read_from_sst E key e))"

definition eng_look :: "sst_env \<Rightarrow> bytes \<Rightarrow> engine \<Rightarrow> bytes option" where
  "eng_look E key e = result_value (fst (eng_read E key e))"

definition eng_view :: "sst_env \<Rightarrow> engine \<Rightarrow> bytes \<Rightarrow> bytes option" where
  "eng_view E e = sst_view E e ++ map_of (mt_entries (active_mem e))"

text \<open>
  Between calls the reader list holds just the active memtable; the queue holds frozen ones.
\<close>

definition eng_ok :: "engine \<Rightarrow> bool" where
  "eng_ok e \<longleftrightarrow> en_list e = [en_active e] \<and> en_active e < length (en_heap e) \<and> list_all mt_ok (en_heap e) \<and>
     \<not> mt_frozen (active_mem e) \<and> (\<forall>(i, f) \<in> set (en_queue e). i < length (en_heap e) \<and> mt_frozen (en_heap e ! i))"

text \<open>A write that stays below the size of a memtable, so that it does not flush.\<close>

definition no_flush :: "bytes \<Rightarrow> bytes \<Rightarrow> engine \<Rightarrow> bool" where
  "no_flush key val e \<longleftrightarrow> wrap64 (mt_size (active_mem e) + int (length key + length val)) < mt_max (active_mem e)"

lemma update_mem_simps [simp]:
  "en_list (update_mem i f e) = en_list e" "en_active (update_mem i f e) = en_active e" "en_queue (update_mem i f e) = en_queue e"
  "en_next_id (update_mem i f e) = en_next_id e" "en_man (update_mem i f e) = en_man e" "en_disk (update_mem i f e) = en_disk e"
  "en_last_err (update_mem i f e) = en_last_err e" "length (en_heap (update_mem i f e)) = length (en_heap e)"
  "en_heap (update_mem i f e) = (en_heap e)[i := f (en_heap e ! i)]"
  by (simp_all add: update_mem_def)

lemma mt_frozen_insert [simp]: "mt_frozen (mt_insert fl k v m) = mt_frozen m" "mt_max (mt_insert fl k v m) = mt_max m"
  by (simp_all add: mt_insert_def)

lemma freeze_simps [simp]: "mt_frozen (freeze m)" "mt_entries (freeze m) = mt_entries m" "mt_ok (freeze m) = mt_ok m" "mt_get k (freeze m) = mt_get k m"
  by (simp_all add: freeze_def mt_entries_def mt_ok_def mt_get_def)

lemma new_memtable_simps [simp]: "\<not> mt_frozen (new_memtable mx)" "mt_size (new_memtable mx) = 0" "mt_max (new_memtable mx) = mx"
  by (simp_all add: new_memtable_def)

lemma eng_read_ok:
  assumes "eng_ok e"
  shows "fst (eng_read E key e) = (case mt_get key (active_mem e) of Some v \<Rightarrow> Ok v | None \<Rightarrow> fst (read_from_sst E key e))"
proof -
  have "read_order e = [en_active e]" using assms by (simp add: read_order_def eng_ok_def active_mem_def)
  then show ?thesis by (simp add: eng_read_def active_mem_def Let_def split: option.split prod.split)
qed

lemma read_from_sst_cong:
  "en_disk e = en_disk e' \<Longrightarrow> mf_current (en_man e) = mf_current (en_man e') \<Longrightarrow> read_from_sst E key e = read_from_sst E key e'"
  by (simp add: read_from_sst_def)

definition insert_active :: "bool list \<Rightarrow> bytes \<Rightarrow> bytes \<Rightarrow> engine \<Rightarrow> engine" where
  "insert_active flips key val e = update_mem (en_active e) (mt_insert flips key val) e"

lemma eng_write_alt:
  "eng_write flips key val e = (let e1 = insert_active flips key val e
     in if mt_max (active_mem e1) \<le> mt_size (active_mem e1) then flush_active_memtable e1 else e1)"
  by (simp add: eng_write_def insert_active_def)

lemma insert_active_ok:
  assumes "eng_ok e"
  shows "eng_ok (insert_active flips key val e)" and "active_mem (insert_active flips key val e) = mt_insert flips key val (active_mem e)"
proof -
  have a: "en_active e < length (en_heap e)" "list_all mt_ok (en_heap e)" using assms by (simp_all add: eng_ok_def)
  show act: "active_mem (insert_active flips key val e) = mt_insert flips key val (active_mem e)"
    using a by (simp add: active_mem_def insert_active_def)
  have "mt_ok (mt_insert flips key val (en_heap e ! en_active e))" using a mem.put_inv by (simp add: list_all_length)
  then show "eng_ok (insert_active flips key val e)"
    using assms act by (auto simp: eng_ok_def insert_active_def list_all_length nth_list_update active_mem_def)
qed

lemma flush_active_eq:
  assumes "eng_ok e"
  shows "flush_active_memtable e = e\<lparr>en_heap := (en_heap e)[en_active e := freeze (active_mem e)] @ [new_memtable mem_max],
    en_list := [length (en_heap e)], en_active := length (en_heap e), en_next_id := en_next_id e + 1,
    en_queue := en_queue e @ [(en_active e, en_next_id e + 1)]\<rparr>"
proof -
  have a: "en_active e < length (en_heap e)" "en_list e = [en_active e]" using assms by (simp_all add: eng_ok_def)
  have f: "freeze (freeze m) = freeze m" for m by (simp add: freeze_def)
  show ?thesis using a
    by (simp add: flush_active_memtable_def request_flush_def update_mem_def Let_def active_mem_def nth_append list_update_append f)
qed

lemma flush_active_ok:
  assumes "eng_ok e"
  shows "eng_ok (flush_active_memtable e)"
proof -
  note ok = assms [unfolded eng_ok_def]
  have m: "mt_ok (freeze (active_mem e))" using ok by (simp add: list_all_length active_mem_def)
  have nth: "((en_heap e)[en_active e := freeze (active_mem e)] @ [new_memtable mem_max]) ! i =
      (if i = en_active e then freeze (active_mem e) else en_heap e ! i)" if "i < length (en_heap e)" for i
    using that ok by (simp add: nth_append nth_list_update)
  have "list_all mt_ok ((en_heap e)[en_active e := freeze (active_mem e)] @ [new_memtable mem_max])"
    using ok m new_memtable_ok by (auto simp: list_all_length nth_append nth_list_update)
  moreover have "((en_heap e)[en_active e := freeze (active_mem e)] @ [new_memtable mem_max]) ! length (en_heap e) = new_memtable mem_max"
    by (simp add: nth_append)
  ultimately show ?thesis
    unfolding flush_active_eq [OF assms] eng_ok_def active_mem_def using ok nth by (auto simp: active_mem_def)
qed

lemma eng_write_ok: "eng_ok e \<Longrightarrow> eng_ok (eng_write flips key val e)"
  by (simp add: eng_write_alt Let_def insert_active_ok flush_active_ok)

lemma eng_write_view:
  assumes "eng_ok e" and "no_flush key val e"
  shows "eng_view E (eng_write flips key val e) = (eng_view E e)(key \<mapsto> val)"
proof -
  let ?e = "insert_active flips key val e"
  have act: "active_mem ?e = mt_insert flips key val (active_mem e)" by (rule insert_active_ok(2) [OF assms(1)])
  have "mt_size (active_mem ?e) < mt_max (active_mem ?e)" using assms(2) by (simp add: act mt_insert_def no_flush_def)
  then have w: "eng_write flips key val e = ?e" by (simp add: eng_write_alt Let_def)
  have mo: "mt_ok (active_mem e)" using assms(1) by (simp add: eng_ok_def list_all_length active_mem_def)
  have "sst_view E ?e = sst_view E e" using read_from_sst_cong [of ?e e] by (auto simp: sst_view_def insert_active_def)
  then show ?thesis
    by (simp add: w eng_view_def act mem.put [OF mo])
qed

interpretation eng: tomb_store eng_ok "eng_view E" "eng_look E" eng_write no_flush tombstone for E
proof unfold_locales
  fix e k x v
  assume ok: "eng_ok e"
  have mo: "mt_ok (active_mem e)" using ok by (simp add: eng_ok_def list_all_length active_mem_def)
  show "eng_look E k e = eng_view E e k"
    by (simp add: eng_look_def eng_read_ok [OF ok] mem.look [OF mo] eng_view_def sst_view_def map_add_def split: option.split)
  show "eng_ok (eng_write x k v e)" by (rule eng_write_ok [OF ok])
  show "no_flush k v e \<Longrightarrow> eng_view E (eng_write x k v e) = (eng_view E e)(k \<mapsto> v)"
    by (rule eng_write_view [OF ok])
qed

lemma eng_get_live: "eng.live E e k = result_value (fst (eng_get E k e))"
  by (simp add: eng.live_def eng_look_def eng_get_def is_tombstone_def split: prod.split outcome.split)

subsection \<open>Reading through a list of tables\<close>

lemma read_files_count: "fst (read_files E d key ms n) = fst (read_files E d key ms 0)"
proof (induction ms arbitrary: n)
  case (Cons m ms)
  have "fst (read_files E d key ms i) = fst (read_files E d key ms j)" for i j using Cons.IH by metis
  then show ?case by (auto split: option.split outcome.split)
qed simp

definition files_result :: "sst_env \<Rightarrow> disk \<Rightarrow> bytes \<Rightarrow> sst_meta list \<Rightarrow> (eng_error, bytes option) outcome" where
  "files_result E d key ms = fst (read_files E d key ms 0)"

lemma files_result_Nil [simp]: "files_result E d key [] = Ok None"
  by (simp add: files_result_def)

lemma files_result_Cons:
  "files_result E d key (m # ms) =
     (if \<not> in_range key m then files_result E d key ms
      else (case d (file_name m) of
              None \<Rightarrow> files_result E d key ms
            | Some data \<Rightarrow> (case read_table E data key of Ok None \<Rightarrow> files_result E d key ms | res \<Rightarrow> res)))"
  using read_files_count [of E d key ms 1] by (auto simp: files_result_def split: option.split outcome.split)

lemma files_result_append:
  "files_result E d key (as @ bs) = (case files_result E d key as of Ok None \<Rightarrow> files_result E d key bs | res \<Rightarrow> res)"
  by (induction as) (auto simp: files_result_Cons split: option.split outcome.split)

lemma files_result_cong: "(\<And>m. m \<in> set ms \<Longrightarrow> d (file_name m) = d' (file_name m)) \<Longrightarrow> files_result E d key ms = files_result E d' key ms"
  by (induction ms) (auto simp: files_result_Cons split: option.split outcome.split)

lemma read_table_no_error: "read_table E data key \<noteq> Fail x"
  by (auto simp: read_table_def split: outcome.split)

lemma files_result_no_error: "files_result E d key ms \<noteq> Fail x"
  by (induction ms) (auto simp: files_result_Cons read_table_no_error split: option.split outcome.split)

lemma read_from_sst_files:
  "fst (read_from_sst E key e) =
     (case files_result E (en_disk e) key (concat (map rev (vr_levels (mf_current (en_man e))))) of
        Ok (Some v) \<Rightarrow> Ok v | Ok None \<Rightarrow> Fail ErrKeyNotFoundE | Fail x \<Rightarrow> Fail x | Panic \<Rightarrow> Panic)"
  by (auto simp: read_from_sst_def files_result_def split: prod.split outcome.split option.split)

subsection \<open>One flush\<close>

lemma name_distinct:
  "file_name m \<noteq> manifest_path" "file_name m \<noteq> manifest_tmp" "file_name m \<noteq> flush_tmp i n"
  "flush_tmp i n \<noteq> manifest_path" "flush_tmp i n \<noteq> manifest_tmp"
  by (simp_all add: file_name_def flush_tmp_def manifest_path_def manifest_tmp_def ascii_def)

definition next_version :: "sst_meta \<Rightarrow> manifest \<Rightarrow> version" where
  "next_version m man =
     (let v = add_to_level0 m (mf_current man) in if vr_num v = 0 then v\<lparr>vr_num := wrap64 (mf_version man + 1)\<rparr> else v)"

lemma next_version_levels [simp]: "vr_levels (next_version m man) = vr_levels (add_to_level0 m (mf_current man))"
  by (simp add: next_version_def Let_def)

lemma run_flush_ok:
  fixes fid :: u64
  assumes "mt_frozen m" and "mt_entries m \<noteq> []" and "flush_to_sst E m = Some data"
  defines "meta \<equiv> flush_meta fid data (mt_entries m)"
  shows "\<exists>d'. run_flush E (all_well nano) fid m (d, man) =
      (None, d', \<lparr>mf_version = vr_num (next_version meta man), mf_current = next_version meta man\<rparr>) \<and>
    d' (file_name meta) = Some data \<and> d' manifest_path = Some (encode_manifest (next_version meta man)) \<and>
    (\<forall>m'. file_name m' \<noteq> file_name meta \<longrightarrow> d' (file_name m') = d (file_name m'))"
proof -
  let ?tmp = "flush_tmp fid nano"
  let ?d1 = "d(?tmp \<mapsto> data)"
  let ?d2 = "rename_file ?tmp (file_name meta) ?d1"
  let ?v = "next_version meta man"
  let ?d3 = "rename_file manifest_tmp manifest_path (?d2(manifest_tmp \<mapsto> encode_manifest ?v))"
  have ap: "manifest_apply Written True (add_to_level0 meta (mf_current man)) (?d2, man) = (None, ?d3, \<lparr>mf_version = vr_num ?v, mf_current = ?v\<rparr>)"
    by (simp add: manifest_apply_def Let_def next_version_def write_file_def)
  have um: "update_manifest (all_well nano) ?tmp fid data m (?d1, man) = (None, ?d3, \<lparr>mf_version = vr_num ?v, mf_current = ?v\<rparr>)"
    using assms(2) ap by (simp add: update_manifest_def all_well_def meta_def [symmetric])
  have "run_flush E (all_well nano) fid m (d, man) = (None, ?d3, \<lparr>mf_version = vr_num ?v, mf_current = ?v\<rparr>)"
    using assms(1,3) um by (simp add: run_flush_def Let_def write_file_def) (simp add: all_well_def)
  moreover have "?d3 (file_name meta) = Some data" "?d3 manifest_path = Some (encode_manifest ?v)"
    using name_distinct(1,2,3) [of meta] paths_distinct by (simp_all add: rename_file_def)
  moreover have "?d3 (file_name m') = d (file_name m')" if "file_name m' \<noteq> file_name meta" for m'
    using name_distinct(1,2,3) [of m'] that by (simp add: rename_file_def)
  ultimately show ?thesis by blast
qed

text \<open>\<open>Sync\<close> with an empty queue and a file system that does what it is asked.\<close>

definition sync_ready :: "sst_env \<Rightarrow> engine \<Rightarrow> bytes \<Rightarrow> bool" where
  "sync_ready E e data \<longleftrightarrow> eng_ok e \<and> en_queue e = [] \<and> en_last_err e = None \<and> mt_size (active_mem e) \<noteq> 0 \<and>
     mt_entries (active_mem e) \<noteq> [] \<and> flush_to_sst E (active_mem e) = Some data"

lemma eng_sync_ok:
  assumes "sync_ready E e data"
  defines "meta \<equiv> flush_meta (en_next_id e + 1) data (mt_entries (active_mem e))"
  shows "\<exists>e'. eng_sync E [all_well nano] e = (None, e') \<and> eng_ok e' \<and> en_queue e' = [] \<and> en_last_err e' = None \<and>
    active_mem e' = new_memtable mem_max \<and> en_next_id e' = en_next_id e + 1 \<and>
    mf_current (en_man e') = next_version meta (en_man e) \<and> mf_version (en_man e') = vr_num (next_version meta (en_man e)) \<and>
    en_disk e' (file_name meta) = Some data \<and> en_disk e' manifest_path = Some (encode_manifest (next_version meta (en_man e))) \<and>
    (\<forall>m'. file_name m' \<noteq> file_name meta \<longrightarrow> en_disk e' (file_name m') = en_disk e (file_name m'))"
proof -
  note r = assms(1) [unfolded sync_ready_def]
  have ok: "eng_ok e" using r by blast
  have a: "en_active e < length (en_heap e)" using ok by (simp add: eng_ok_def)
  let ?f = "flush_active_memtable e"
  have f: "?f = e\<lparr>en_heap := (en_heap e)[en_active e := freeze (active_mem e)] @ [new_memtable mem_max],
    en_list := [length (en_heap e)], en_active := length (en_heap e), en_next_id := en_next_id e + 1,
    en_queue := [(en_active e, en_next_id e + 1)]\<rparr>"
    using flush_active_eq [OF ok] r by simp
  have hd: "en_heap ?f ! en_active e = freeze (active_mem e)" using a by (simp add: f nth_append)
  have fr: "flush_to_sst E (freeze (active_mem e)) = Some data" using r by (simp add: flush_to_sst_def)
  obtain d' where d': "run_flush E (all_well nano) (en_next_id e + 1) (freeze (active_mem e)) (en_disk e, en_man e) =
      (None, d', \<lparr>mf_version = vr_num (next_version meta (en_man e)), mf_current = next_version meta (en_man e)\<rparr>)"
    "d' (file_name meta) = Some data" "d' manifest_path = Some (encode_manifest (next_version meta (en_man e)))"
    "\<forall>m'. file_name m' \<noteq> file_name meta \<longrightarrow> d' (file_name m') = en_disk e (file_name m')"
    using run_flush_ok [of "freeze (active_mem e)" E data, where fid = "en_next_id e + 1" and nano = nano and d = "en_disk e" and man = "en_man e"] r fr
    by (auto simp: meta_def)
  let ?e' = "?f\<lparr>en_queue := [], en_disk := d', en_man := \<lparr>mf_version = vr_num (next_version meta (en_man e)), mf_current = next_version meta (en_man e)\<rparr>\<rparr>"
  have st: "flush_step E (all_well nano) ?f = ?e'"
    using hd d'(1) r by (simp add: flush_step_def f)
  have "eng_sync E [all_well nano] e = (None, ?e')"
    using st r by (simp add: eng_sync_def Let_def) (simp add: f)
  moreover have "eng_ok ?e'" using flush_active_ok [OF ok] by (simp add: eng_ok_def active_mem_def)
  moreover have "active_mem ?e' = new_memtable mem_max" by (simp add: f active_mem_def nth_append)
  ultimately show ?thesis using d' r by (intro exI [of _ ?e']) (simp add: f)
qed

subsection \<open>What a sync does to the reads\<close>

text \<open>No table of the manifest has the number that the next flush takes.\<close>

definition fresh_number :: "engine \<Rightarrow> bool" where
  "fresh_number e \<longleftrightarrow> (\<forall>m \<in> set (concat (vr_levels (mf_current (en_man e)))). 0 \<le> fm_level m \<and> fm_level m < 10 \<and> fm_id m \<noteq> en_next_id e + 1)"

lemma fresh_name:
  assumes "fresh_number e" and "m \<in> set (concat (vr_levels (mf_current (en_man e))))"
  shows "file_name m \<noteq> file_name (flush_meta (en_next_id e + 1) data kvs)"
proof
  assume "file_name m = file_name (flush_meta (en_next_id e + 1) data kvs)"
  moreover have l: "0 \<le> fm_level m" "fm_level m < 10" "fm_id m \<noteq> en_next_id e + 1" using assms by (auto simp: fresh_number_def)
  ultimately have "fm_id m = fm_id (flush_meta (en_next_id e + 1) data kvs)"
    using file_name_inj [of m "flush_meta (en_next_id e + 1) data kvs"] by (simp add: flush_meta_def)
  then show False using l by (simp add: flush_meta_def)
qed

lemma mt_get_new [simp]: "mt_get key (new_memtable mx) = None"
  using mem.look [OF new_memtable_ok(1), of key mx] by (simp add: new_memtable_ok(2))

lemma read_new: "eng_ok e \<Longrightarrow> active_mem e = new_memtable mx \<Longrightarrow> fst (eng_read E key e) = fst (read_from_sst E key e)"
  by (simp add: eng_read_ok)

definition files_of :: "engine \<Rightarrow> sst_meta list" where
  "files_of e = concat (map rev (vr_levels (mf_current (en_man e))))"

lemma read_from_sst_result: "fst (read_from_sst E key e) =
     (case files_result E (en_disk e) key (files_of e) of
        Ok (Some v) \<Rightarrow> Ok v | Ok None \<Rightarrow> Fail ErrKeyNotFoundE | Fail x \<Rightarrow> Fail x | Panic \<Rightarrow> Panic)"
  by (simp add: read_from_sst_files files_of_def)

lemma result_iff:
  "fst (read_from_sst E key e) = Ok v \<longleftrightarrow> files_result E (en_disk e) key (files_of e) = Ok (Some v)"
  "fst (read_from_sst E key e) = Fail ErrKeyNotFoundE \<longleftrightarrow> files_result E (en_disk e) key (files_of e) = Ok None"
  using files_result_no_error [of E "en_disk e" key "files_of e"]
  by (auto simp: read_from_sst_result split: outcome.split option.split)

lemma set_files_of: "set (files_of e) = set (concat (vr_levels (mf_current (en_man e))))"
  by (auto simp: files_of_def)

text \<open>The new table comes after the older tables of level 0 and before the other levels.\<close>

lemma files_after:
  "concat (map rev (vr_levels (add_to_level0 m (mf_current man)))) =
     (case vr_levels (mf_current man) of [] \<Rightarrow> [m] | l # ls \<Rightarrow> rev l @ m # concat (map rev ls))"
  by (simp add: add_to_level0_def split: list.split)

lemma flush_in_range:
  assumes "sorted_wrt (<) (map fst kvs)" and "map_of kvs key = Some v"
  shows "in_range key (flush_meta i data kvs)"
proof -
  have m: "(key, v) \<in> set kvs" using assms(2) by (rule map_of_SomeD)
  then obtain kv kvs' where c: "kvs = kv # kvs'" by (cases kvs) auto
  have "fst (hd kvs) \<le> key" using assms(1) m c by (auto simp: less_imp_le)
  moreover have "key \<le> fst (last kvs)" using key_le_last [OF assms(1) m] by simp
  ultimately show ?thesis by (auto simp: in_range_def flush_meta_def not_less)
qed

lemma active_sorted: "eng_ok e \<Longrightarrow> sorted_wrt (<) (map fst (mt_entries (active_mem e)))"
  by (rule mt_entries_sorted) (simp add: eng_ok_def list_all_length active_mem_def)

lemma active_get: "eng_ok e \<Longrightarrow> mt_get key (active_mem e) = map_of (mt_entries (active_mem e)) key"
  by (rule mem.look) (simp add: eng_ok_def list_all_length active_mem_def)

lemma sync_files:
  assumes "sync_ready E e data" and "fresh_number e"
  defines "meta \<equiv> flush_meta (en_next_id e + 1) data (mt_entries (active_mem e))"
  shows "\<exists>e'. eng_sync E [all_well nano] e = (None, e') \<and> eng_ok e' \<and> en_queue e' = [] \<and> en_last_err e' = None \<and>
    active_mem e' = new_memtable mem_max \<and> en_next_id e' = en_next_id e + 1 \<and>
    mf_current (en_man e') = next_version meta (en_man e) \<and> mf_version (en_man e') = vr_num (next_version meta (en_man e)) \<and>
    en_disk e' manifest_path = Some (encode_manifest (next_version meta (en_man e))) \<and>
    en_disk e' (file_name meta) = Some data \<and>
    (\<forall>m \<in> set (files_of e). en_disk e' (file_name m) = en_disk e (file_name m)) \<and>
    files_of e' = (case vr_levels (mf_current (en_man e)) of [] \<Rightarrow> [meta] | l # ls \<Rightarrow> rev l @ meta # concat (map rev ls))"
proof -
  obtain e' where s: "eng_sync E [all_well nano] e = (None, e')" "eng_ok e'" "en_queue e' = []" "en_last_err e' = None"
    "active_mem e' = new_memtable mem_max" "en_next_id e' = en_next_id e + 1" "mf_current (en_man e') = next_version meta (en_man e)"
    "mf_version (en_man e') = vr_num (next_version meta (en_man e))" "en_disk e' (file_name meta) = Some data"
    "en_disk e' manifest_path = Some (encode_manifest (next_version meta (en_man e)))"
    "\<forall>m'. file_name m' \<noteq> file_name meta \<longrightarrow> en_disk e' (file_name m') = en_disk e (file_name m')"
    using eng_sync_ok [OF assms(1), of nano] unfolding meta_def by blast
  have "en_disk e' (file_name m) = en_disk e (file_name m)" if "m \<in> set (files_of e)" for m
    using s(11) fresh_name [OF assms(2)] that unfolding set_files_of meta_def by blast
  moreover have "files_of e' = (case vr_levels (mf_current (en_man e)) of [] \<Rightarrow> [meta] | l # ls \<Rightarrow> rev l @ meta # concat (map rev ls))"
    unfolding files_of_def s(7) next_version_levels by (rule files_after)
  ultimately show ?thesis using s by blast
qed

definition writable :: "sst_env \<Rightarrow> engine \<Rightarrow> bytes \<Rightarrow> bool" where
  "writable E e data \<longleftrightarrow> flate_ok E \<and> fits (mt_entries (active_mem e)) \<and> length data < 2 ^ 32"

lemma new_table_result:
  assumes "sync_ready E e data" and "writable E e data" and "d (file_name meta) = Some data"
    and "meta = flush_meta (en_next_id e + 1) data (mt_entries (active_mem e))"
  shows "files_result E d key (meta # ms) = (case mt_get key (active_mem e) of Some v \<Rightarrow> Ok (Some v) | None \<Rightarrow> files_result E d key ms)"
proof -
  have r: "eng_ok e" "mt_entries (active_mem e) \<noteq> []" "flush_to_sst E (active_mem e) = Some data" using assms(1) by (simp_all add: sync_ready_def)
  have t: "read_table E data key = Ok (mt_get key (active_mem e))"
    using read_table_ok [of E "mt_entries (active_mem e)" data key] r assms(2) active_get [OF r(1)]
    by (simp add: writable_def flush_to_sst_def)
  have "mt_get key (active_mem e) = Some v \<Longrightarrow> in_range key meta" for v
    using flush_in_range [OF active_sorted [OF r(1)]] active_get [OF r(1)] assms(4) by simp
  then show ?thesis using t assms(3) by (auto simp: files_result_Cons split: option.split)
qed

lemma sync_keeps_new_key:
  assumes "sync_ready E e data" and "writable E e data" and "fresh_number e"
    and "fst (read_from_sst E key e) = Fail ErrKeyNotFoundE" and "mt_get key (active_mem e) = Some v"
    and "eng_sync E [all_well nano] e = (err, e')"
  shows "fst (read_from_sst E key e') = Ok v"
proof -
  let ?meta = "flush_meta (en_next_id e + 1) data (mt_entries (active_mem e))"
  have s: "en_disk e' (file_name ?meta) = Some data" "\<forall>m \<in> set (files_of e). en_disk e' (file_name m) = en_disk e (file_name m)"
    "files_of e' = (case vr_levels (mf_current (en_man e)) of [] \<Rightarrow> [?meta] | l # ls \<Rightarrow> rev l @ ?meta # concat (map rev ls))"
    using sync_files [OF assms(1,3), of nano] assms(6) by auto
  have none: "files_result E (en_disk e') key (files_of e) = Ok None"
    using assms(4) files_result_cong [of "files_of e" "en_disk e'" "en_disk e"] s(2) by (simp add: result_iff)
  have "files_result E (en_disk e') key (files_of e') = Ok (Some v)"
  proof (cases "vr_levels (mf_current (en_man e))")
    case Nil
    then show ?thesis using s(3) new_table_result [where d = "en_disk e'" and meta = ?meta and key = key and ms = "[]", OF assms(1,2) s(1) refl] assms(5) by simp
  next
    case (Cons l ls)
    then have "files_result E (en_disk e') key (rev l @ concat (map rev ls)) = Ok None" using none by (simp add: files_of_def)
    then have "files_result E (en_disk e') key (rev l) = Ok None"
      by (auto simp: files_result_append split: outcome.splits option.splits)
    then show ?thesis using s(3) Cons new_table_result [where d = "en_disk e'" and meta = ?meta and key = key, OF assms(1,2) s(1) refl] assms(5)
      by (simp add: files_result_append)
  qed
  then show ?thesis by (simp add: result_iff)
qed

lemma sync_old_wins:
  assumes "sync_ready E e data" and "fresh_number e" and "vr_levels (mf_current (en_man e)) = [l]"
    and "fst (read_from_sst E key e) = Ok w" and "eng_sync E [all_well nano] e = (err, e')"
  shows "fst (read_from_sst E key e') = Ok w"
proof -
  let ?meta = "flush_meta (en_next_id e + 1) data (mt_entries (active_mem e))"
  have s: "\<forall>m \<in> set (files_of e). en_disk e' (file_name m) = en_disk e (file_name m)" "files_of e' = rev l @ [?meta]"
    using sync_files [OF assms(1,2), of nano] assms(3,5) by auto
  have "files_result E (en_disk e') key (files_of e) = Ok (Some w)"
    using assms(4) files_result_cong [of "files_of e" "en_disk e'" "en_disk e"] s(1) by (simp add: result_iff)
  then have "files_result E (en_disk e') key (rev l @ [?meta]) = Ok (Some w)"
    using assms(3) by (simp add: files_result_append files_of_def)
  then show ?thesis by (simp add: result_iff s(2))
qed

subsection \<open>Properties\<close>

definition run_writes :: "(bool list \<times> bytes \<times> bytes) list \<Rightarrow> engine \<Rightarrow> engine" where
  "run_writes kvs e = fold (\<lambda>(flips, k, v). eng_write flips k v) kvs e"

text \<open>No write of the run fills the memtable.\<close>

fun quiet :: "(bool list \<times> bytes \<times> bytes) list \<Rightarrow> engine \<Rightarrow> bool" where
  "quiet [] e = True"
| "quiet ((flips, k, v) # kvs) e = (no_flush k v e \<and> quiet kvs (eng_write flips k v e))"

lemma quiet_ready: "quiet kvs e = eng.ready_all kvs e"
  by (induction kvs e rule: quiet.induct) simp_all

lemma run_writes_put_all: "run_writes kvs e = eng.put_all kvs e"
  by (simp add: run_writes_def eng.put_all_def)

definition got :: "sst_env \<Rightarrow> bytes \<Rightarrow> engine \<Rightarrow> bytes option" where
  "got E k e = result_value (fst (eng_get E k e))"

definition sample_engine :: engine where
  "sample_engine = \<lparr>en_heap = [new_memtable mem_max], en_list = [0], en_active = 0, en_queue = [], en_next_id = 0,
     en_man = \<lparr>mf_version = 0, mf_current = \<lparr>vr_num = 0, vr_levels = []\<rparr>\<rparr>, en_disk = (\<lambda>_. None), en_last_err = None,
     en_stats = \<lparr>rs_memtable_hits = 0, rs_sst_hits = 0, rs_disk_reads = 0\<rparr>\<rparr>"

lemma sample_engine_ok: "eng_ok sample_engine"
  by (simp add: eng_ok_def sample_engine_def active_mem_def new_memtable_ok)

lemma new_engine_sample: "new_engine 0 (\<lambda>_. None) = Ok sample_engine"
  by (simp add: new_engine_def new_manifest_def sample_engine_def)

text \<open>
  C3. The engine is a map between flushes: whatever the tables on disk hold, after any run of \<open>Insert\<close>
  and \<open>Delete\<close> calls that does not fill the memtable, \<open>Get\<close> returns the value last written for the key,
  nothing when that was a tombstone, and what it returned before the run for a key that was not written.
\<close>

theorem engine_get_after_writes:
  assumes "eng_ok e" and "quiet kvs e"
  shows "result_value (fst (eng_get E k (run_writes kvs e))) =
    (case map_of (rev (map snd kvs)) k of
       Some v \<Rightarrow> if v = tombstone then None else Some v
     | None \<Rightarrow> result_value (fst (eng_get E k e)))"
  unfolding eng_get_live [symmetric] eng.live_def run_writes_put_all
    eng.look_put_all [OF assms(1) assms(2) [unfolded quiet_ready]]
  by (simp split: option.split)

theorem engine_get_after_writes_witness:
  "result_value (fst (eng_get id_env [1] (run_writes [([], [1], [10]), ([], [2], [20]), ([], [1], tombstone)] sample_engine))) = None \<and>
   result_value (fst (eng_get id_env [2] (run_writes [([], [1], [10]), ([], [2], [20]), ([], [1], tombstone)] sample_engine))) = Some [20]"
proof -
  have "quiet [([], [1], [10]), ([], [2], [20]), ([], [1], tombstone)] sample_engine"
    by (simp add: no_flush_def sample_engine_def active_mem_def eng_write_def update_mem_def mt_insert_def mem_max_def
        tombstone_def Let_def new_memtable_def wrap64_def)
  from engine_get_after_writes [OF sample_engine_ok this, of id_env] show ?thesis
    by (simp add: tombstone_def)
qed

lemma eng_get_new: "eng_ok e \<Longrightarrow> active_mem e = new_memtable mx \<Longrightarrow>
   fst (eng_get E key e) = (case fst (read_from_sst E key e) of Ok v \<Rightarrow> if is_tombstone v then Fail ErrNotFound else Ok v | res \<Rightarrow> res)"
  using read_new [of e mx E key] by (cases "eng_read E key e") (auto simp: eng_get_def split: outcome.split)

lemma eng_get_mem: "eng_ok e \<Longrightarrow> mt_get key (active_mem e) = Some v \<Longrightarrow>
   fst (eng_get E key e) = (if is_tombstone v then Fail ErrNotFound else Ok v)"
  using eng_read_ok [of e E key] by (cases "eng_read E key e") (auto simp: eng_get_def)

lemma restart_ok:
  assumes "en_disk e manifest_path = Some (encode_manifest v)" and "version_ok v" and "length (encode_manifest v) < 2 ^ 40"
  obtains e' where "new_engine n (en_disk e) = Ok e'" and "eng_ok e'" and "active_mem e' = new_memtable mem_max"
    and "mf_current (en_man e') = v" and "en_disk e' = en_disk e"
    and "en_next_id e' = n" and "en_queue e' = []" and "en_last_err e' = None"
  using that assms parse_encode_manifest [OF assms(2,3)]
  by (simp add: new_engine_def new_manifest_def eng_ok_def active_mem_def new_memtable_ok)

text \<open>The new version of a sync fits the manifest file.\<close>

definition manifest_fits :: "engine \<Rightarrow> bytes \<Rightarrow> bool" where
  "manifest_fits e data \<longleftrightarrow>
     (let v = next_version (flush_meta (en_next_id e + 1) data (mt_entries (active_mem e))) (en_man e)
      in version_ok v \<and> length (encode_manifest v) < 2 ^ 40)"

lemma next_version_after:
  assumes "eng_sync E [all_well nano] e = (err, e')" and "sync_ready E e data" and "fresh_number e" and "manifest_fits e data"
  obtains e2 where "new_engine n (en_disk e') = Ok e2" and "eng_ok e2" and "active_mem e2 = new_memtable mem_max"
    and "read_from_sst E key e2 = read_from_sst E key e'"
proof -
  let ?v = "next_version (flush_meta (en_next_id e + 1) data (mt_entries (active_mem e))) (en_man e)"
  have "mf_current (en_man e') = ?v" "en_disk e' manifest_path = Some (encode_manifest ?v)"
    using sync_files [OF assms(2,3), of nano] assms(1) by auto
  then show ?thesis
    using that read_from_sst_cong assms(4) unfolding manifest_fits_def Let_def by (metis restart_ok)
qed

text \<open>
  C4. After a successful \<open>Sync\<close>, a value of the memtable whose key is in no table is what \<open>Get\<close> returns, and what
  an engine opened on the same directory returns. The conditions: no flush is queued and none has failed before, the
  memtable is not empty and its table is shorter than \<open>2 ^ 32\<close> bytes, no table has the file number that the
  flush takes (which can fail for the first flush after a reopen: \<open>engine_restart_overwrites_table\<close>), the value is
  not the tombstone, the fields of the next manifest fit their encoding, and the file system performs every call.
  What a written and renamed file holds counts as stored: the code does not fsync it, so a loss of power is not
  covered.
\<close>

theorem engine_sync_durable:
  assumes "sync_ready E e data" and "writable E e data" and "fresh_number e" and "manifest_fits e data"
    and "fst (read_from_sst E key e) = Fail ErrKeyNotFoundE" and "mt_get key (active_mem e) = Some v" and "v \<noteq> tombstone"
  shows "\<exists>e'. eng_sync E [all_well nano] e = (None, e') \<and> fst (eng_get E key e') = Ok v \<and>
     (\<exists>e2. new_engine n (en_disk e') = Ok e2 \<and> fst (eng_get E key e2) = Ok v)"
proof -
  obtain e' where s: "eng_sync E [all_well nano] e = (None, e')" "eng_ok e'" "active_mem e' = new_memtable mem_max"
    using sync_files [OF assms(1,3), of nano] by blast
  have r: "fst (read_from_sst E key e') = Ok v" by (rule sync_keeps_new_key [OF assms(1-3,5,6) s(1)])
  obtain e2 where e2: "new_engine n (en_disk e') = Ok e2" "eng_ok e2" "active_mem e2 = new_memtable mem_max"
    "read_from_sst E key e2 = read_from_sst E key e'"
    using next_version_after [OF s(1) assms(1,3,4)] by blast
  show ?thesis using s e2 r assms(7) eng_get_new [OF s(2,3)] eng_get_new [OF e2(2,3)]
    by (auto simp: is_tombstone_def)
qed

text \<open>
  C15. A \<open>Sync\<close> can bring back an old value: the flush puts the new table in FRONT of level 0 while
  \<open>readFromSST\<close> searches a level from its END, so the oldest table wins. When a table holds \<open>w\<close> for the key
  and the memtable holds the newer \<open>v\<close> (a tombstone, say), \<open>Get\<close> answers by \<open>v\<close> before a successful
  \<open>Sync\<close> and by \<open>w\<close> after it.
\<close>

theorem engine_sync_resurrects:
  assumes "sync_ready E e data" and "fresh_number e" and "vr_levels (mf_current (en_man e)) = [l]"
    and "fst (read_from_sst E key e) = Ok w" and "w \<noteq> tombstone" and "mt_get key (active_mem e) = Some v"
  shows "\<exists>e'. eng_sync E [all_well nano] e = (None, e') \<and>
     fst (eng_get E key e) = (if v = tombstone then Fail ErrNotFound else Ok v) \<and> fst (eng_get E key e') = Ok w"
proof -
  obtain e' where s: "eng_sync E [all_well nano] e = (None, e')" "eng_ok e'" "active_mem e' = new_memtable mem_max"
    using sync_files [OF assms(1,2), of nano] by blast
  have "fst (read_from_sst E key e') = Ok w" by (rule sync_old_wins [OF assms(1-4) s(1)])
  then have "fst (eng_get E key e') = Ok w" using eng_get_new [OF s(2,3)] assms(5) by (simp add: is_tombstone_def)
  moreover have "fst (eng_get E key e) = (if v = tombstone then Fail ErrNotFound else Ok v)"
    using eng_get_mem [OF _ assms(6)] assms(1) by (simp add: sync_ready_def is_tombstone_def)
  ultimately show ?thesis using s(1) by blast
qed

text \<open>A memtable with three keys, and its table.\<close>

definition sample_three :: "(bytes \<times> bytes) list" where "sample_three = [([1], [10]), ([1, 5], [7]), ([2], [])]"

definition sample_mem :: memtable where
  "sample_mem = mt_insert [] [2] [] (mt_insert [] [1, 5] [7] (mt_insert [] [1] [10] (new_memtable mem_max)))"

lemma sample_mem_eval: "mt_entries sample_mem = sample_three" "mt_get [1] sample_mem = Some [10]"
  "mt_get [1, 5] sample_mem = Some [7]" "mt_size sample_mem \<noteq> 0" by code_simp+

lemma sample_three_table: "\<exists>data. sst_finish id_env (fold sst_add sample_three new_sst_writer) = Some data \<and> length data < 2 ^ 32"
  by (simp add: sst_finish_def sample_three_def sst_add_def Let_def note_range_def new_sst_writer_def put_entry_def
     entry_bytes_def varint_small finish_current_block_def seal_block_def sst_block_size_def compress_id index_bytes_def bloom_size_for_def)

lemma sample_three_fits: "fits sample_three"
  by (simp add: fits_def enc_entries_def sample_three_def entry_bytes_def varint_small)

definition sample_full :: engine where
  "sample_full = run_writes [([], [1], [10]), ([], [1, 5], [7]), ([], [2], [])] sample_engine"

lemma sample_full_eq: "sample_full = sample_engine\<lparr>en_heap := [sample_mem]\<rparr>"
  by (simp add: sample_full_def run_writes_def sample_engine_def active_mem_def eng_write_def update_mem_def mt_insert_def mem_max_def
        Let_def new_memtable_def wrap64_def sample_mem_def)

lemma sample_full_active: "active_mem sample_full = sample_mem"
  by (simp add: sample_full_eq sample_engine_def active_mem_def)

lemma mt_get_sample: "mt_get [1] (active_mem sample_full) = Some [10]" "mt_get [1, 5] (active_mem sample_full) = Some [7]"
  by (simp_all add: sample_full_active sample_mem_eval)

lemma sample_full_ready: "\<exists>data. sync_ready id_env sample_full data \<and> writable id_env sample_full data \<and> manifest_fits sample_full data"
proof -
  obtain data where d: "sst_finish id_env (fold sst_add sample_three new_sst_writer) = Some data" "length data < 2 ^ 32"
    using sample_three_table by blast
  have e: "mt_entries (active_mem sample_full) = sample_three" by (simp add: sample_full_active sample_mem_eval)
  have ok: "eng_ok sample_full" unfolding sample_full_def run_writes_put_all by (rule eng.put_all_inv [OF sample_engine_ok])
  have sz: "mt_size (active_mem sample_full) \<noteq> 0" by (simp add: sample_full_active sample_mem_eval)
  have "sync_ready id_env sample_full data"
    using ok e sz d by (simp add: sync_ready_def flush_to_sst_def) (simp add: sample_full_eq sample_engine_def sample_three_def)
  moreover have "writable id_env sample_full data" using d id_env_ok sample_three_fits by (simp add: writable_def e)
  moreover have "manifest_fits sample_full data"
    using d(2) unfolding manifest_fits_def e
    by (simp add: next_version_def Let_def flush_meta_def add_to_level0_def sample_full_eq sample_engine_def
       version_ok_def meta_ok_def int64_def encode_manifest_def manifest_body_def encode_level_def encode_meta_def varint_small sample_three_def wrap64_def)
  ultimately show ?thesis by blast
qed

lemma sample_full_fresh: "fresh_number sample_full" "fst (read_from_sst id_env key sample_full) = Fail ErrKeyNotFoundE"
  by (simp_all add: fresh_number_def read_from_sst_def sample_full_eq sample_engine_def)

theorem engine_sync_durable_witness:
  "\<exists>e' e2. eng_sync id_env [all_well 5] sample_full = (None, e') \<and> new_engine 0 (en_disk e') = Ok e2 \<and>
     fst (eng_get id_env [1] e2) = Ok [10]"
proof -
  obtain data where "sync_ready id_env sample_full data" "writable id_env sample_full data" "manifest_fits sample_full data"
    using sample_full_ready by blast
  then show ?thesis
    using engine_sync_durable [of id_env sample_full data "[1]" "[10]" 5 0] sample_full_fresh mt_get_sample(1)
    by (auto simp: tombstone_def)
qed


text \<open>After the first sync, a delete of the key that the table holds, and a second sync.\<close>

theorem engine_sync_resurrects_witness:
  "\<exists>e1 e2. eng_sync id_env [all_well 5] sample_full = (None, e1) \<and>
     eng_sync id_env [all_well 6] (eng_delete [] [1] e1) = (None, e2) \<and>
     fst (eng_get id_env [1] (eng_delete [] [1] e1)) = Fail ErrNotFound \<and> fst (eng_get id_env [1] e2) = Ok [10]"
proof -
  obtain data where d: "sync_ready id_env sample_full data" "writable id_env sample_full data" using sample_full_ready by blast
  let ?meta = "flush_meta (en_next_id sample_full + 1) data (mt_entries (active_mem sample_full))"
  obtain e1 where s: "eng_sync id_env [all_well 5] sample_full = (None, e1)" "eng_ok e1" "en_queue e1 = []" "en_last_err e1 = None"
    "active_mem e1 = new_memtable mem_max" "en_next_id e1 = en_next_id sample_full + 1"
    "mf_current (en_man e1) = next_version ?meta (en_man sample_full)"
    using sync_files [OF d(1) sample_full_fresh(1), of 5] by blast
  have r: "fst (read_from_sst id_env [1] e1) = Ok [10]"
    by (rule sync_keeps_new_key [OF d sample_full_fresh mt_get_sample(1) s(1)])
  have lv: "vr_levels (mf_current (en_man e1)) = [[?meta]]"
    unfolding s(7) next_version_levels by (simp add: add_to_level0_def sample_full_eq sample_engine_def)
  let ?e = "eng_delete [] [1] e1"
  have w: "?e = update_mem (en_active e1) (mt_insert [] [1] tombstone) e1" (is "_ = ?w")
    using insert_active_ok(2) [OF s(2), of "[]" "[1]" tombstone] s(5)
    by (simp add: eng_delete_def eng_write_def Let_def insert_active_def mt_insert_def tombstone_def wrap64_def mem_max_def
        new_memtable_def)
  have act: "active_mem ?e = mt_insert [] [1] tombstone (new_memtable mem_max)"
    using insert_active_ok(2) [OF s(2), of "[]" "[1]" tombstone] s(5) unfolding w by (simp add: insert_active_def)
  have ent: "mt_entries (active_mem ?e) = [([1], tombstone)]" "mt_get [1] (active_mem ?e) = Some tombstone" "mt_size (active_mem ?e) \<noteq> 0"
    unfolding act by code_simp+
  have "\<exists>data. sst_finish id_env (fold sst_add [([1], tombstone)] new_sst_writer) = Some data"
    by (simp add: sst_finish_def sst_add_def Let_def note_range_def new_sst_writer_def put_entry_def tombstone_def
     entry_bytes_def varint_small finish_current_block_def seal_block_def sst_block_size_def compress_id index_bytes_def bloom_size_for_def)
  then obtain data2 where "sst_finish id_env (fold sst_add [([1], tombstone)] new_sst_writer) = Some data2" by blast
  then have rd: "sync_ready id_env ?e data2"
    using eng_write_ok [OF s(2), of "[]" "[1]" tombstone] ent s(3,4) unfolding sync_ready_def flush_to_sst_def eng_delete_def [symmetric]
    by (simp add: w)
  have fr: "fresh_number ?e"
    unfolding w by (simp add: fresh_number_def lv s(6) flush_meta_def)
  have r2: "fst (read_from_sst id_env [1] ?e) = Ok [10]" using r read_from_sst_cong [of ?e e1] unfolding w by simp
  obtain e2 where "eng_sync id_env [all_well 6] ?e = (None, e2) \<and> fst (eng_get id_env [1] ?e) = Fail ErrNotFound \<and> fst (eng_get id_env [1] e2) = Ok [10]"
    using engine_sync_resurrects [OF rd fr _ r2 _ ent(2), of "[?meta]" 6] lv by (auto simp: w tombstone_def)
  then show ?thesis using s(1) by blast
qed


text \<open>
  C16. A write can be out of sight before it is on disk: the write that fills the memtable takes it off the
  reader list at once, while its table appears only when the flush job has run, so \<open>Get\<close> does not find the
  key in between; and a job that fails is dropped, after which the key is gone for good.
\<close>

theorem engine_full_memtable_unreadable:
  assumes "eng_ok e" and "en_queue e = []" and "mt_max (active_mem e) \<le> mt_size (mt_insert flips key v (active_mem e))"
    and "fst (read_from_sst E key e) = Fail ErrKeyNotFoundE" and "fa_write a = WriteFailed part"
  defines "e1 \<equiv> eng_insert flips key v e"
  shows "fst (eng_get E key e1) = Fail ErrKeyNotFoundE \<and> length (en_queue e1) = 1 \<and>
     (let e2 = flush_step E a e1
      in en_queue e2 = [] \<and> en_last_err e2 = Some ErrFlushIO \<and> fst (eng_get E key e2) = Fail ErrKeyNotFoundE)"
proof -
  let ?i = "insert_active flips key v e"
  note i = insert_active_ok [OF assms(1), of flips key v]
  have e1: "e1 = flush_active_memtable ?i" using assms(3) i(2) by (simp add: e1_def eng_insert_def eng_write_alt Let_def)
  note f = flush_active_eq [OF i(1)]
  have q: "en_queue ?i = []" using assms(2) by (simp add: insert_active_def)
  have ok1: "eng_ok e1" and act1: "active_mem e1 = new_memtable mem_max"
    using flush_active_ok [OF i(1)] by (simp_all add: e1) (simp add: f active_mem_def nth_append)
  have same: "en_disk e1 = en_disk e" "en_man e1 = en_man e" unfolding e1 f by (simp_all add: insert_active_def)
  have r1: "fst (read_from_sst E key e1) = Fail ErrKeyNotFoundE" using assms(4) read_from_sst_cong [of e1 e] same by simp
  let ?e2 = "flush_step E a e1"
  obtain x fid where q1: "en_queue e1 = [(en_active ?i, fid)]" using q unfolding e1 f by simp
  have fr: "mt_frozen (en_heap e1 ! en_active ?i)" using i(1) unfolding e1 f by (simp add: eng_ok_def nth_append)
  obtain d where d: "run_flush E a fid (en_heap e1 ! en_active ?i) (en_disk e1, en_man e1) = (Some ErrFlushIO, d, en_man e1)"
    "\<And>m. d (file_name m) = en_disk e1 (file_name m)"
    using fr assms(5) name_distinct(3) by (cases "fa_mkdir a") (auto simp: run_flush_def Let_def write_file_def)
  have e2: "?e2 = e1\<lparr>en_queue := [], en_disk := d, en_last_err := Some ErrFlushIO\<rparr>" using q1 d(1) by (simp add: flush_step_def)
  have ok2: "eng_ok ?e2" "active_mem ?e2 = new_memtable mem_max" using ok1 act1 by (simp_all add: e2 eng_ok_def active_mem_def)
  have "files_result E d key (files_of e1) = files_result E (en_disk e1) key (files_of e1)" by (rule files_result_cong) (rule d(2))
  then have r2: "fst (read_from_sst E key ?e2) = Fail ErrKeyNotFoundE" using r1 by (simp add: result_iff files_of_def e2)
  show ?thesis using eng_get_new [OF ok1 act1] eng_get_new [OF ok2] r1 r2 q1 by (simp add: e2 Let_def)
qed

text \<open>
  File numbers start again at 1 in every process and are part of the file name together with the first
  and last key: after reopening, a flush whose memtable has the same first and last key as an older table
  replaces that table's file, and a key that only the old table had is lost.
\<close>

theorem engine_restart_overwrites_table:
  assumes "sync_ready E e data" and "writable E e data" and "vr_levels (mf_current (en_man e)) = [[m]]"
    and "fm_level m = 0" and "fm_id m = en_next_id e + 1"
    and "fm_min m = fst (hd (mt_entries (active_mem e)))" and "fm_max m = fst (last (mt_entries (active_mem e)))"
    and "fst (eng_get E key e) = Ok w" and "mt_get key (active_mem e) = None"
  shows "\<exists>e'. eng_sync E [all_well nano] e = (None, e') \<and> fst (eng_get E key e') = Fail ErrKeyNotFoundE"
proof -
  let ?meta = "flush_meta (en_next_id e + 1) data (mt_entries (active_mem e))"
  obtain e' where s: "eng_sync E [all_well nano] e = (None, e')" "eng_ok e'" "active_mem e' = new_memtable mem_max"
    "mf_current (en_man e') = next_version ?meta (en_man e)" "en_disk e' (file_name ?meta) = Some data"
    using eng_sync_ok [OF assms(1), of nano] by blast
  have fl: "files_of e' = [m, ?meta]" unfolding files_of_def s(4) next_version_levels by (simp add: add_to_level0_def assms(3))
  have nm: "file_name m = file_name ?meta" using assms(4-7) by (simp add: file_name_def flush_meta_def)
  have none: "files_result E (en_disk e') key (?meta # ms) = files_result E (en_disk e') key ms" for ms
    using new_table_result [where d = "en_disk e'" and meta = ?meta and key = key and ms = ms, OF assms(1,2) s(5) refl] assms(9) by simp
  have "in_range key m = in_range key ?meta" using assms(6,7) by (simp add: in_range_def flush_meta_def)
  then have "files_result E (en_disk e') key (m # ms) = files_result E (en_disk e') key (?meta # ms)" for ms
    using nm by (simp add: files_result_Cons)
  then have "fst (read_from_sst E key e') = Fail ErrKeyNotFoundE" using none by (simp add: result_iff fl)
  then show ?thesis using s(1) eng_get_new [OF s(2,3)] by auto
qed

theorem engine_full_memtable_unreadable_witness:
  "fst (eng_get id_env [1] (flush_step id_env ((all_well 5)\<lparr>fa_write := WriteFailed 0\<rparr>)
     (eng_insert [] [1] (replicate (64 * 1024 * 1024) 0) sample_engine))) = Fail ErrKeyNotFoundE"
proof -
  let ?v = "replicate (64 * 1024 * 1024) (0 :: byte)"
  have q: "en_queue sample_engine = []" "fst (read_from_sst id_env [1] sample_engine) = Fail ErrKeyNotFoundE"
    by (simp_all add: read_from_sst_def sample_engine_def)
  have full: "mt_max (active_mem sample_engine) \<le> mt_size (mt_insert [] [1] ?v (active_mem sample_engine))"
    by (simp add: mt_insert_def wrap64_def sample_engine_def active_mem_def mem_max_def)
  have a: "fa_write ((all_well 5)\<lparr>fa_write := WriteFailed 0\<rparr>) = WriteFailed 0" by simp
  show ?thesis
    using engine_full_memtable_unreadable [OF sample_engine_ok q(1) full q(2) a] unfolding Let_def by blast
qed

lemma sample_table_two: "mt_entries (mt_insert [] [2] [] (mt_insert [] [1] [10] (new_memtable mem_max))) = sample_kvs"
  "mt_get [1, 5] (mt_insert [] [2] [] (mt_insert [] [1] [10] (new_memtable mem_max))) = None"
  "mt_size (mt_insert [] [2] [] (mt_insert [] [1] [10] (new_memtable mem_max))) \<noteq> 0"
  by code_simp+

theorem engine_restart_overwrites_table_witness:
  "\<exists>e1 e2 e3. eng_sync id_env [all_well 5] sample_full = (None, e1) \<and> new_engine 0 (en_disk e1) = Ok e2 \<and>
     fst (eng_get id_env [1, 5] (run_writes [([], [1], [10]), ([], [2], [])] e2)) = Ok [7] \<and>
     eng_sync id_env [all_well 6] (run_writes [([], [1], [10]), ([], [2], [])] e2) = (None, e3) \<and>
     fst (eng_get id_env [1, 5] e3) = Fail ErrKeyNotFoundE"
proof -
  obtain data where d: "sync_ready id_env sample_full data" "writable id_env sample_full data" "manifest_fits sample_full data"
    using sample_full_ready by blast
  let ?meta = "flush_meta (en_next_id sample_full + 1) data (mt_entries (active_mem sample_full))"
  let ?v = "next_version ?meta (en_man sample_full)"
  obtain e1 where s: "eng_sync id_env [all_well 5] sample_full = (None, e1)" "eng_ok e1"
    "active_mem e1 = new_memtable mem_max" "mf_current (en_man e1) = ?v" "en_disk e1 manifest_path = Some (encode_manifest ?v)"
    using sync_files [OF d(1) sample_full_fresh(1), of 5] by blast
  have r: "fst (read_from_sst id_env [1, 5] e1) = Ok [7]"
    by (rule sync_keeps_new_key [OF d(1,2) sample_full_fresh mt_get_sample(2) s(1)])
  have lv: "vr_levels ?v = [[?meta]]" by (simp add: add_to_level0_def sample_full_eq sample_engine_def)
  obtain e2 where n: "new_engine 0 (en_disk e1) = Ok e2" "eng_ok e2" "active_mem e2 = new_memtable mem_max"
    "mf_current (en_man e2) = ?v" "en_disk e2 = en_disk e1" "en_next_id e2 = 0" "en_queue e2 = []" "en_last_err e2 = None"
    using restart_ok [OF s(5), of 0] d(3) unfolding manifest_fits_def Let_def by blast
  let ?m = "mt_insert [] [2] [] (mt_insert [] [1] [10] (new_memtable mem_max))"
  let ?e = "run_writes [([], [1], [10]), ([], [2], [])] e2"
  have a: "en_active e2 < length (en_heap e2)" "en_heap e2 ! en_active e2 = new_memtable mem_max"
    using n(2,3) by (simp_all add: eng_ok_def active_mem_def)
  have e: "?e = e2\<lparr>en_heap := (en_heap e2)[en_active e2 := ?m]\<rparr>"
    using a by (simp add: run_writes_def eng_write_def Let_def active_mem_def update_mem_def mt_insert_def wrap64_def mem_max_def new_memtable_def)
  have act: "active_mem ?e = ?m" using a unfolding e by (simp add: active_mem_def)
  have ok: "eng_ok ?e" unfolding run_writes_put_all by (rule eng.put_all_inv [OF n(2)])
  obtain data2 where d2: "sst_finish id_env (fold sst_add sample_kvs new_sst_writer) = Some data2" "length data2 < 2 ^ 32"
    using sample_table by blast
  have rd: "sync_ready id_env ?e data2"
    using ok sample_table_two d2(1) n(7,8) unfolding sync_ready_def flush_to_sst_def act by (simp add: e sample_kvs_def)
  have wr: "writable id_env ?e data2" using d2 id_env_ok sample_fits by (simp add: writable_def act sample_table_two fits_def enc_entries_def)
  have r3: "fst (read_from_sst id_env [1, 5] ?e) = Ok [7]"
    using r read_from_sst_cong [of ?e e1] n(4,5) s(4) by (simp add: e)
  have g3: "fst (eng_get id_env [1, 5] ?e) = Ok [7]"
    using eng_read_ok [OF ok, of id_env "[1, 5]"] r3 act sample_table_two(2) by (cases "eng_read id_env [1, 5] ?e") (simp add: eng_get_def is_tombstone_def tombstone_def)
  have lv3: "vr_levels (mf_current (en_man ?e)) = [[?meta]]" using lv n(4) unfolding e by simp
  have nx: "en_next_id ?e = 0" "en_next_id sample_full = 0" using n(6) unfolding e by (simp_all add: sample_full_eq sample_engine_def)
  have h: "fst (hd (mt_entries (active_mem sample_full))) = [1]" "fst (last (mt_entries (active_mem sample_full))) = [2]"
    "fst (hd (mt_entries (active_mem ?e))) = [1]" "fst (last (mt_entries (active_mem ?e))) = [2]"
    unfolding act sample_table_two by (simp_all add: sample_full_active sample_mem_eval sample_three_def sample_kvs_def)
  have mm: "fm_level ?meta = 0" "fm_id ?meta = en_next_id ?e + 1" "fm_min ?meta = fst (hd (mt_entries (active_mem ?e)))"
    "fm_max ?meta = fst (last (mt_entries (active_mem ?e)))"
    unfolding h nx by (simp_all add: flush_meta_def h)
  have nn: "mt_get [1, 5] (active_mem ?e) = None" unfolding act by (rule sample_table_two(2))
  show ?thesis using engine_restart_overwrites_table [OF rd wr lv3 mm g3 nn, of 6] s(1) n(1) g3 by blast
qed

end
