(* ===== verification/Go_Heap.thy ===== *)
theory Go_Heap
  imports Prelude "HOL-Library.Multiset"
begin

text \<open>
  \<open>container/heap\<close> of the Go standard library, on the backing slice, for a comparison \<open>lss\<close> of elements:
  the binary heap under the merge iterators of the storage engine.
\<close>

definition swap :: "nat \<Rightarrow> nat \<Rightarrow> 'a list \<Rightarrow> 'a list" where
  "swap i j xs = xs[i := xs ! j, j := xs ! i]"

definition parent :: "nat \<Rightarrow> nat" where "parent j = (j - 1) div 2"

function heap_up :: "('a \<Rightarrow> 'a \<Rightarrow> bool) \<Rightarrow> nat \<Rightarrow> 'a list \<Rightarrow> 'a list" where
  "heap_up lss j xs =
     (let i = parent j in if i = j \<or> \<not> lss (xs ! j) (xs ! i) then xs else heap_up lss i (swap i j xs))"
  by pat_completeness auto
termination
  by (relation "measure (\<lambda>(lss, j, xs). j)") (auto simp: parent_def)

function heap_down :: "('a \<Rightarrow> 'a \<Rightarrow> bool) \<Rightarrow> nat \<Rightarrow> nat \<Rightarrow> 'a list \<Rightarrow> 'a list" where
  "heap_down lss n i xs =
     (let j1 = 2 * i + 1
      in if n \<le> j1 then xs
         else let j = (if j1 + 1 < n \<and> lss (xs ! (j1 + 1)) (xs ! j1) then j1 + 1 else j1)
              in if \<not> lss (xs ! j) (xs ! i) then xs else heap_down lss n j (swap i j xs))"
  by pat_completeness auto
termination
  by (relation "measure (\<lambda>(lss, n, i, xs). n - i)") (auto split: if_splits)

declare heap_up.simps [simp del] heap_down.simps [simp del]

definition heap_push :: "('a \<Rightarrow> 'a \<Rightarrow> bool) \<Rightarrow> 'a \<Rightarrow> 'a list \<Rightarrow> 'a list" where
  "heap_push lss x xs = heap_up lss (length xs) (xs @ [x])"

text \<open>\<open>heap.Pop\<close>: the removed element and the rest.\<close>

definition heap_pop :: "('a \<Rightarrow> 'a \<Rightarrow> bool) \<Rightarrow> 'a list \<Rightarrow> 'a \<times> 'a list" where
  "heap_pop lss xs = (let n = length xs - 1; ys = heap_down lss n 0 (swap 0 n xs) in (ys ! n, take n ys))"

text \<open>\<open>heap.Init\<close> sifts down from the middle to the root.\<close>

definition heap_init :: "('a \<Rightarrow> 'a \<Rightarrow> bool) \<Rightarrow> 'a list \<Rightarrow> 'a list" where
  "heap_init lss xs = foldr (\<lambda>i. heap_down lss (length xs) i) [0..<length xs div 2] xs"

subsection \<open>The contents\<close>

lemma length_swap [simp]: "length (swap i j xs) = length xs"
  by (simp add: swap_def)

lemma nth_swap:
  "i < length xs \<Longrightarrow> j < length xs \<Longrightarrow> swap i j xs ! k = (if k = j then xs ! i else if k = i then xs ! j else xs ! k)"
  by (auto simp: swap_def nth_list_update)

lemma mset_swap_eq: "i < length xs \<Longrightarrow> j < length xs \<Longrightarrow> mset (swap i j xs) = mset xs"
  by (simp add: swap_def mset_swap)

lemma parent_pos: "0 < c \<Longrightarrow> parent c < c"
  by (auto simp: parent_def)

lemma parent_less: "parent j \<noteq> j \<Longrightarrow> parent j < j"
  by (auto simp: parent_def)

lemma mset_heap_up: "j < length xs \<Longrightarrow> mset (heap_up lss j xs) = mset xs"
proof (induction lss j xs rule: heap_up.induct)
  case (1 lss j xs)
  then show ?case
    by (subst heap_up.simps) (auto simp: Let_def mset_swap_eq dest!: parent_less)
qed

lemma length_heap_up [simp]: "length (heap_up lss j xs) = length xs"
proof (induction lss j xs rule: heap_up.induct)
  case (1 lss j xs)
  then show ?case by (subst heap_up.simps) (auto simp: Let_def)
qed

lemma length_heap_down [simp]: "length (heap_down lss n i xs) = length xs"
proof (induction lss n i xs rule: heap_down.induct)
  case (1 lss n i xs)
  then show ?case by (subst heap_down.simps) (auto simp: Let_def)
qed

lemma mset_heap_down: "n \<le> length xs \<Longrightarrow> mset (heap_down lss n i xs) = mset xs"
proof (induction lss n i xs rule: heap_down.induct)
  case (1 lss n i xs)
  then show ?case by (subst heap_down.simps) (auto simp: Let_def mset_swap_eq)
qed

lemma heap_down_keeps: "n \<le> k \<Longrightarrow> n \<le> length xs \<Longrightarrow> heap_down lss n i xs ! k = xs ! k"
proof (induction lss n i xs rule: heap_down.induct)
  case (1 lss n i xs)
  then show ?case by (subst heap_down.simps) (auto simp: Let_def nth_swap)
qed

lemma mset_heap_push: "mset (heap_push lss x xs) = mset xs + {#x#}"
  by (simp add: heap_push_def mset_heap_up)

lemma length_heap_push [simp]: "length (heap_push lss x xs) = Suc (length xs)"
  by (simp add: heap_push_def)

lemma heap_pop_first: "xs \<noteq> [] \<Longrightarrow> fst (heap_pop lss xs) = xs ! 0"
  by (cases xs) (auto simp: heap_pop_def Let_def heap_down_keeps nth_swap)

lemma heap_pop_mset: "xs \<noteq> [] \<Longrightarrow> mset xs = mset (snd (heap_pop lss xs)) + {#fst (heap_pop lss xs)#}"
proof -
  assume ne: "xs \<noteq> []"
  define n where "n = length xs - 1"
  define ys where "ys = heap_down lss n 0 (swap 0 n xs)"
  have n: "n < length xs" "length ys = Suc n" using ne by (auto simp: n_def ys_def)
  have "mset xs = mset ys" using n by (simp add: ys_def mset_heap_down mset_swap_eq)
  also have "ys = take n ys @ [ys ! n]" using n by (simp add: take_Suc_conv_app_nth [symmetric])
  finally have "mset xs = mset (take n ys) + {#ys ! n#}" by simp
  moreover have "heap_pop lss xs = (ys ! n, take n ys)" unfolding heap_pop_def Let_def n_def ys_def ..
  ultimately show ?thesis by simp
qed

lemma heap_pop_length [simp]: "length (snd (heap_pop lss xs)) = length xs - 1"
  by (simp add: heap_pop_def Let_def)

subsection \<open>The order\<close>

text \<open>A comparison by key: then \<open>Push\<close> and \<open>Pop\<close> keep the heap and the root is a minimum.\<close>

locale keyed_heap =
  fixes lss :: "'a \<Rightarrow> 'a \<Rightarrow> bool" and key :: "'a \<Rightarrow> 'k :: linorder"
  assumes lss_key: "lss x y \<longleftrightarrow> key x < key y"
begin

definition is_heap :: "nat \<Rightarrow> 'a list \<Rightarrow> bool" where
  "is_heap n xs \<longleftrightarrow> (\<forall>c. 0 < c \<and> c < n \<longrightarrow> key (xs ! parent c) \<le> key (xs ! c))"

lemma up_heap:
  "j < length xs \<Longrightarrow> (\<forall>c. 0 < c \<and> c < length xs \<and> c \<noteq> j \<longrightarrow> key (xs ! parent c) \<le> key (xs ! c)) \<Longrightarrow>
   (\<forall>c. 0 < c \<and> c < length xs \<and> parent c = j \<and> 0 < j \<longrightarrow> key (xs ! parent j) \<le> key (xs ! c)) \<Longrightarrow>
   is_heap (length xs) (heap_up lss j xs)"
proof (induction j arbitrary: xs rule: less_induct)
  case (less j)
  let ?i = "parent j"
  show ?case
  proof (cases "?i = j \<or> \<not> lss (xs ! j) (xs ! ?i)")
    case True
    then have "heap_up lss j xs = xs" by (simp add: heap_up.simps)
    moreover have "key (xs ! ?i) \<le> key (xs ! j)" using True by (auto simp: lss_key not_less)
    ultimately show ?thesis using less.prems(2) by (auto simp: is_heap_def)
  next
    case False
    then have ij: "?i < j" and ltk: "key (xs ! j) < key (xs ! ?i)" using parent_less by (auto simp: lss_key)
    let ?ys = "swap ?i j xs"
    have il: "?i < length xs" using ij less.prems(1) by simp
    note nth = nth_swap [OF il less.prems(1)]
    have pj: "0 < j" using ij by simp
    have "is_heap (length ?ys) (heap_up lss ?i ?ys)"
    proof (rule less.IH [OF ij])
      show "?i < length ?ys" using il by simp
      show "\<forall>c. 0 < c \<and> c < length ?ys \<and> c \<noteq> ?i \<longrightarrow> key (?ys ! parent c) \<le> key (?ys ! c)"
      proof (intro allI impI)
        fix c assume c: "0 < c \<and> c < length ?ys \<and> c \<noteq> ?i"
        then have pc: "parent c < c" by (auto simp: parent_def)
        show "key (?ys ! parent c) \<le> key (?ys ! c)"
        proof (cases "c = j")
          case True
          then show ?thesis using ltk ij by (simp add: nth)
        next
          case cj: False
          then have le: "key (xs ! parent c) \<le> key (xs ! c)" using c less.prems(2) by simp
          show ?thesis
          proof (cases "parent c = ?i")
            case True
            then have "?ys ! parent c = xs ! j" "?ys ! c = xs ! c" using c cj ij by (simp_all add: nth)
            then show ?thesis using ltk le True by simp
          next
            case ci: False
            show ?thesis
            proof (cases "parent c = j")
              case True
              then have "?ys ! parent c = xs ! ?i" "?ys ! c = xs ! c" using c cj by (simp_all add: nth)
              then show ?thesis using less.prems(3) c True pj by simp
            next
              case False
              then show ?thesis using le ci cj c by (simp add: nth)
            qed
          qed
        qed
      qed
      show "\<forall>c. 0 < c \<and> c < length ?ys \<and> parent c = ?i \<and> 0 < ?i \<longrightarrow> key (?ys ! parent ?i) \<le> key (?ys ! c)"
      proof (intro allI impI)
        fix c assume c: "0 < c \<and> c < length ?ys \<and> parent c = ?i \<and> 0 < ?i"
        have pi: "parent ?i < ?i" using c parent_pos by blast
        have up: "key (xs ! parent ?i) \<le> key (xs ! ?i)" using less.prems(2) c ij il by simp
        have p: "?ys ! parent ?i = xs ! parent ?i" using pi ij by (simp add: nth)
        show "key (?ys ! parent ?i) \<le> key (?ys ! c)"
        proof (cases "c = j")
          case True
          then show ?thesis using up p by (simp add: nth)
        next
          case False
          have ci: "c \<noteq> ?i" using c pi by auto
          have "key (xs ! ?i) \<le> key (xs ! c)" using less.prems(2) c False by force
          then show ?thesis using up p False ci by (simp add: nth)
        qed
      qed
    qed
    then show ?thesis using False by (subst heap_up.simps) (simp add: Let_def)
  qed
qed

lemma push_heap:
  assumes "is_heap (length xs) xs"
  shows "is_heap (length (heap_push lss x xs)) (heap_push lss x xs)"
proof -
  have "is_heap (length (xs @ [x])) (heap_up lss (length xs) (xs @ [x]))"
  proof (rule up_heap)
    show "\<forall>c. 0 < c \<and> c < length (xs @ [x]) \<and> c \<noteq> length xs \<longrightarrow> key ((xs @ [x]) ! parent c) \<le> key ((xs @ [x]) ! c)"
    proof (intro allI impI)
      fix c assume c: "0 < c \<and> c < length (xs @ [x]) \<and> c \<noteq> length xs"
      then have "c < length xs" "parent c < length xs" using parent_pos [of c] by auto
      then show "key ((xs @ [x]) ! parent c) \<le> key ((xs @ [x]) ! c)" using assms c by (simp add: is_heap_def nth_append)
    qed
    show "\<forall>c. 0 < c \<and> c < length (xs @ [x]) \<and> parent c = length xs \<and> 0 < length xs \<longrightarrow>
      key ((xs @ [x]) ! parent (length xs)) \<le> key ((xs @ [x]) ! c)"
    proof (intro allI impI)
      fix c assume c: "0 < c \<and> c < length (xs @ [x]) \<and> parent c = length xs \<and> 0 < length xs"
      then have "parent c < c" by (intro parent_pos) simp
      then show "key ((xs @ [x]) ! parent (length xs)) \<le> key ((xs @ [x]) ! c)" using c by simp
    qed
  qed simp
  then show ?thesis by (simp add: heap_push_def)
qed

lemma child_cases: "0 < c \<Longrightarrow> parent c = i \<Longrightarrow> c = 2 * i + 1 \<or> c = 2 * i + 2"
  by (auto simp: parent_def)

lemma down_heap:
  "n \<le> length xs \<Longrightarrow> i < n \<or> n = 0 \<Longrightarrow> (\<forall>c. 0 < c \<and> c < n \<and> parent c \<noteq> i \<longrightarrow> key (xs ! parent c) \<le> key (xs ! c)) \<Longrightarrow>
   (\<forall>c. 0 < c \<and> c < n \<and> parent c = i \<and> 0 < i \<longrightarrow> key (xs ! parent i) \<le> key (xs ! c)) \<Longrightarrow>
   is_heap n (heap_down lss n i xs)"
proof (induction "n - i" arbitrary: i xs rule: less_induct)
  case (less i xs)
  let ?l = "2 * i + 1"
  show ?case
  proof (cases "n \<le> ?l")
    case True
    then have "c < n \<Longrightarrow> 0 < c \<Longrightarrow> parent c \<noteq> i" for c using child_cases [of c i] by auto
    then show ?thesis using True less.prems(3) by (subst heap_down.simps) (auto simp: is_heap_def)
  next
    case in_range: False
    define j where "j = (if ?l + 1 < n \<and> lss (xs ! (?l + 1)) (xs ! ?l) then ?l + 1 else ?l)"
    have j: "j < n" "parent j = i" "i < j" "0 < j" using in_range by (auto simp: j_def parent_def)
    have small: "key (xs ! j) \<le> key (xs ! c)" if "0 < c" "c < n" "parent c = i" for c
      using child_cases [OF that(1,3)] that(2) by (auto simp: j_def lss_key)
    have d: "heap_down lss n i xs = (if \<not> lss (xs ! j) (xs ! i) then xs else heap_down lss n j (swap i j xs))"
      using in_range by (subst heap_down.simps) (simp add: Let_def j_def)
    show ?thesis
    proof (cases "lss (xs ! j) (xs ! i)")
      case False
      then have "key (xs ! i) \<le> key (xs ! j)" by (simp add: lss_key)
      then have "key (xs ! parent c) \<le> key (xs ! c)" if "0 < c" "c < n" for c
        using less.prems(3) small that by (cases "parent c = i") (auto intro: order_trans)
      then show ?thesis using False d by (simp add: is_heap_def)
    next
      case True
      let ?ys = "swap i j xs"
      have il: "i < length xs" "j < length xs" using j less.prems(1) by auto
      note nth = nth_swap [OF il]
      have ltk: "key (xs ! j) < key (xs ! i)" using True by (simp add: lss_key)
      have "is_heap n (heap_down lss n j ?ys)"
      proof (rule less.hyps)
        show "n - j < n - i" using j by simp
        show "n \<le> length ?ys" "j < n \<or> n = 0" using less.prems(1) j by simp_all
        show "\<forall>c. 0 < c \<and> c < n \<and> parent c \<noteq> j \<longrightarrow> key (?ys ! parent c) \<le> key (?ys ! c)"
        proof (intro allI impI)
          fix c assume c: "0 < c \<and> c < n \<and> parent c \<noteq> j"
          then have pc: "parent c < c" using parent_pos by blast
          show "key (?ys ! parent c) \<le> key (?ys ! c)"
          proof (cases "parent c = i")
            case True
            then have "?ys ! parent c = xs ! j" using j by (simp add: nth)
            then show ?thesis using small c True ltk pc by (auto simp: nth)
          next
            case False
            then have le: "key (xs ! parent c) \<le> key (xs ! c)" using less.prems(3) c by simp
            have cj: "c \<noteq> j" using False j(2) by auto
            show ?thesis
            proof (cases "c = i")
              case True
              then have "?ys ! c = xs ! j" "?ys ! parent c = xs ! parent c" using cj False c by (simp_all add: nth)
              then show ?thesis using less.prems(4) j c True by simp
            next
              case False
              then show ?thesis using le cj \<open>parent c \<noteq> i\<close> c by (simp add: nth)
            qed
          qed
        qed
        show "\<forall>c. 0 < c \<and> c < n \<and> parent c = j \<and> 0 < j \<longrightarrow> key (?ys ! parent j) \<le> key (?ys ! c)"
        proof (intro allI impI)
          fix c assume c: "0 < c \<and> c < n \<and> parent c = j \<and> 0 < j"
          then have "j < c" using parent_pos [of c] by simp
          moreover have "key (xs ! j) \<le> key (xs ! c)" using less.prems(3) c j by force
          ultimately show "key (?ys ! parent j) \<le> key (?ys ! c)" using j by (simp add: nth)
        qed
      qed
      then show ?thesis using True d by simp
    qed
  qed
qed

lemma pop_heap:
  assumes "is_heap (length xs) xs" and "xs \<noteq> []"
  shows "is_heap (length (snd (heap_pop lss xs))) (snd (heap_pop lss xs))"
proof -
  define n where "n = length xs - 1"
  have n: "n < length xs" "0 < length xs" using assms(2) by (auto simp: n_def)
  let ?ys = "swap 0 n xs"
  have nth: "k < n \<Longrightarrow> 0 < k \<Longrightarrow> ?ys ! k = xs ! k" for k using n by (simp add: nth_swap)
  have "is_heap n (heap_down lss n 0 ?ys)"
  proof (rule down_heap)
    show "\<forall>c. 0 < c \<and> c < n \<and> parent c \<noteq> 0 \<longrightarrow> key (?ys ! parent c) \<le> key (?ys ! c)"
    proof (intro allI impI)
      fix c assume c: "0 < c \<and> c < n \<and> parent c \<noteq> 0"
      then have "parent c < n" using parent_pos [of c] by simp
      then show "key (?ys ! parent c) \<le> key (?ys ! c)" using assms(1) c n by (simp add: nth is_heap_def)
    qed
  qed (use n in auto)
  then have h: "is_heap n (take n (heap_down lss n 0 ?ys))"
    unfolding is_heap_def
  proof (intro allI impI)
    fix c assume h: "\<forall>c. 0 < c \<and> c < n \<longrightarrow> key (heap_down lss n 0 ?ys ! parent c) \<le> key (heap_down lss n 0 ?ys ! c)"
      and c: "0 < c \<and> c < n"
    then have "parent c < n" using parent_pos [of c] by simp
    then show "key (take n (heap_down lss n 0 ?ys) ! parent c) \<le> key (take n (heap_down lss n 0 ?ys) ! c)"
      using h c by simp
  qed
  have "snd (heap_pop lss xs) = take n (heap_down lss n 0 ?ys)" by (simp add: heap_pop_def Let_def n_def)
  moreover have "length (take n (heap_down lss n 0 ?ys)) = n" using n by simp
  ultimately show ?thesis using h by simp
qed

lemma root_minimal:
  assumes "is_heap (length xs) xs" and "x \<in> set xs"
  shows "key (xs ! 0) \<le> key x"
proof -
  have "c < length xs \<longrightarrow> key (xs ! 0) \<le> key (xs ! c)" for c
  proof (induction c rule: less_induct)
    case (less c)
    show ?case
    proof (cases "c = 0")
      case False
      then have p: "parent c < c" by (simp add: parent_pos)
      show ?thesis
      proof
        assume c: "c < length xs"
        have "key (xs ! 0) \<le> key (xs ! parent c)" using less.IH [OF p] p c by simp
        also have "\<dots> \<le> key (xs ! c)" using assms(1) c False by (simp add: is_heap_def)
        finally show "key (xs ! 0) \<le> key (xs ! c)" .
      qed
    qed simp
  qed
  then show ?thesis using assms(2) by (auto simp: in_set_conv_nth)
qed

end

end
