(* ===== verification/Ls_Merge.thy ===== *)
theory Ls_Merge
  imports Ls_Engine Go_Heap
begin

text \<open>
  The streaming merge behind \<open>RangeScan\<close> in \<open>api.go\<close>: one iterator per memtable and per overlapping
  table, a heap of their current entries ordered by key, prefix filter and tombstone filter. The memtables
  are read through the heap of the engine, as the iterators of the code follow live pointers.
\<close>

subsection \<open>Prefix ranges\<close>

definition file_overlaps_prefix :: "bytes \<Rightarrow> bytes \<Rightarrow> bytes \<Rightarrow> bytes \<Rightarrow> bool" where
  "file_overlaps_prefix min_key max_key prefix upper =
     (if upper = [] then 0 \<le> bytes_compare max_key prefix
      else if bytes_compare max_key prefix < 0 then False
      else if min_key \<noteq> [] \<and> 0 \<le> bytes_compare min_key upper then False
      else True)"

text \<open>The loop of \<open>prefixUpperBound\<close> over the indices below \<open>i\<close>, from the last.\<close>

fun upper_loop :: "nat \<Rightarrow> bytes \<Rightarrow> bytes" where
  "upper_loop 0 out = []"
| "upper_loop (Suc i) out = (if out ! i < 0xFF then take (i + 1) (out[i := out ! i + 1]) else upper_loop i out)"

definition prefix_upper_bound :: "bytes \<Rightarrow> bytes" where
  "prefix_upper_bound prefix = (if prefix = [] then [] else upper_loop (length prefix) prefix)"

definition has_prefix :: "bytes \<Rightarrow> bytes \<Rightarrow> bool" where
  "has_prefix s prefix \<longleftrightarrow> length prefix \<le> length s \<and> take (length prefix) s = prefix"

subsection \<open>Sources\<close>

datatype range_iter = Mem_iter nat "nat option" | Sst_iter sst_reader sst_iter

definition ri_next :: "sst_env \<Rightarrow> memtable list \<Rightarrow> range_iter \<Rightarrow> (sst_error, bool \<times> range_iter) outcome" where
  "ri_next E hp it =
     (case it of
        Mem_iter i p \<Rightarrow> (let q = it_next (mt_list (hp ! i)) p in Ok (q \<noteq> None, Mem_iter i q))
      | Sst_iter r s \<Rightarrow> obind (sst_iter_next E r s) (\<lambda>(more, s'). Ok (more, Sst_iter r s')))"

definition ri_entry :: "memtable list \<Rightarrow> range_iter \<Rightarrow> bytes \<times> bytes" where
  "ri_entry hp it =
     (case it of
        Mem_iter i p \<Rightarrow> (case p of None \<Rightarrow> ([], []) | Some n \<Rightarrow> it_entry (mt_list (hp ! i)) n)
      | Sst_iter r s \<Rightarrow> sst_iter_entry s)"

subsection \<open>The heap of entries\<close>

record merge_item =
  mi_key :: bytes
  mi_val :: bytes
  mi_src :: nat

definition mi_less :: "merge_item \<Rightarrow> merge_item \<Rightarrow> bool" where
  "mi_less x y \<longleftrightarrow> bytes_compare (mi_key x) (mi_key y) < 0"

interpretation mi: keyed_heap mi_less mi_key
  by unfold_locales (simp add: mi_less_def)

record merge_iter =
  mg_prefix :: bytes
  mg_sources :: "range_iter list"
  mg_heap :: "merge_item list"
  mg_key :: bytes
  mg_val :: bytes
  mg_closed :: bool

text \<open>\<open>if src.Next() { heap.Push(...) }\<close> for source \<open>i\<close>.\<close>

definition push_next :: "sst_env \<Rightarrow> memtable list \<Rightarrow> nat \<Rightarrow> merge_iter \<Rightarrow> (sst_error, merge_iter) outcome" where
  "push_next E hp i st =
     obind (ri_next E hp (mg_sources st ! i)) (\<lambda>(more, it).
       let st' = st\<lparr>mg_sources := (mg_sources st)[i := it]\<rparr>; (k, v) = ri_entry hp it
       in Ok (if more then st'\<lparr>mg_heap := heap_push mi_less \<lparr>mi_key = k, mi_val = v, mi_src = i\<rparr> (mg_heap st')\<rparr> else st'))"

definition table_source :: "disk \<Rightarrow> bytes \<Rightarrow> sst_meta \<Rightarrow> (sst_error, range_iter option) outcome" where
  "table_source d prefix m =
     (if \<not> file_overlaps_prefix (fm_min m) (fm_max m) prefix (prefix_upper_bound prefix) then Ok None
      else case d (file_name m) of
             None \<Rightarrow> Ok None
           | Some data \<Rightarrow> (case open_sst data of Ok r \<Rightarrow> Ok (Some (Sst_iter r new_sst_iter)) | Fail _ \<Rightarrow> Ok None | Panic \<Rightarrow> Panic))"

fun table_sources :: "disk \<Rightarrow> bytes \<Rightarrow> sst_meta list \<Rightarrow> (sst_error, range_iter list) outcome" where
  "table_sources d prefix [] = Ok []"
| "table_sources d prefix (m # ms) =
     obind (table_source d prefix m) (\<lambda>s. obind (table_sources d prefix ms) (\<lambda>rest.
       Ok (case s of None \<Rightarrow> rest | Some it \<Rightarrow> it # rest)))"

definition mem_sources :: "engine \<Rightarrow> range_iter list" where
  "mem_sources e = map (\<lambda>i. Mem_iter i None) (en_active e # filter (\<lambda>i. i \<noteq> en_active e) (rev (en_list e)))"

fun fill_heap :: "sst_env \<Rightarrow> memtable list \<Rightarrow> nat list \<Rightarrow> merge_iter \<Rightarrow> (sst_error, merge_iter) outcome" where
  "fill_heap E hp [] st = Ok st"
| "fill_heap E hp (i # is) st = obind (push_next E hp i st) (fill_heap E hp is)"

definition new_merge_iterator :: "sst_env \<Rightarrow> bytes \<Rightarrow> engine \<Rightarrow> (sst_error, merge_iter) outcome" where
  "new_merge_iterator E prefix e =
     obind (table_sources (en_disk e) prefix (concat (vr_levels (mf_current (en_man e))))) (\<lambda>ts.
       let ss = mem_sources e @ ts
       in fill_heap E (en_heap e) [0..<length ss]
            \<lparr>mg_prefix = prefix, mg_sources = ss, mg_heap = [], mg_key = [], mg_val = [], mg_closed = False\<rparr>)"

subsection \<open>Next\<close>

text \<open>The inner loop: drop the other entries with the key. \<open>None\<close> is running out of fuel.\<close>

fun skip_same :: "nat \<Rightarrow> sst_env \<Rightarrow> memtable list \<Rightarrow> bytes \<Rightarrow> merge_iter \<Rightarrow> (sst_error, merge_iter) outcome option" where
  "skip_same 0 E hp key st = None"
| "skip_same (Suc fuel) E hp key st =
     (if mg_heap st = [] \<or> mi_key (mg_heap st ! 0) \<noteq> key then Some (Ok st)
      else let i = mi_src (mg_heap st ! 0)
           in case push_next E hp i (st\<lparr>mg_heap := snd (heap_pop mi_less (mg_heap st))\<rparr>) of
                Ok st' \<Rightarrow> skip_same fuel E hp key st'
              | Fail x \<Rightarrow> Some (Fail x)
              | Panic \<Rightarrow> Some Panic)"

fun mi_next :: "nat \<Rightarrow> sst_env \<Rightarrow> memtable list \<Rightarrow> merge_iter \<Rightarrow> (sst_error, bool \<times> merge_iter) outcome option" where
  "mi_next 0 E hp st = None"
| "mi_next (Suc fuel) E hp st =
     (if mg_closed st \<or> mg_heap st = [] then Some (Ok (False, st))
      else let top = mg_heap st ! 0
           in case push_next E hp (mi_src top) (st\<lparr>mg_heap := snd (heap_pop mi_less (mg_heap st))\<rparr>) of
                Fail x \<Rightarrow> Some (Fail x)
              | Panic \<Rightarrow> Some Panic
              | Ok st1 \<Rightarrow>
                  (case skip_same fuel E hp (mi_key top) st1 of
                     None \<Rightarrow> None
                   | Some (Fail x) \<Rightarrow> Some (Fail x)
                   | Some Panic \<Rightarrow> Some Panic
                   | Some (Ok st2) \<Rightarrow>
                       if \<not> has_prefix (mi_key top) (mg_prefix st2) then mi_next fuel E hp st2
                       else if is_tombstone (mi_val top) then mi_next fuel E hp st2
                       else Some (Ok (True, st2\<lparr>mg_key := mi_key top, mg_val := mi_val top\<rparr>))))"

definition mi_close :: "merge_iter \<Rightarrow> merge_iter" where
  "mi_close st = (if mg_closed st then st else st\<lparr>mg_closed := True, mg_sources := [], mg_heap := []\<rparr>)"

text \<open>A scan: \<open>for it.Next()\<close>, with the entries it sees.\<close>

fun mi_collect :: "nat \<Rightarrow> sst_env \<Rightarrow> memtable list \<Rightarrow> merge_iter \<Rightarrow> (bytes \<times> bytes) list option" where
  "mi_collect 0 E hp st = None"
| "mi_collect (Suc fuel) E hp st =
     (case mi_next fuel E hp st of
        Some (Ok (True, st')) \<Rightarrow> map_option ((#) (mg_key st', mg_val st')) (mi_collect fuel E hp st')
      | Some (Ok (False, st')) \<Rightarrow> Some []
      | _ \<Rightarrow> None)"

definition range_scan :: "nat \<Rightarrow> sst_env \<Rightarrow> bytes \<Rightarrow> engine \<Rightarrow> (bytes \<times> bytes) list option" where
  "range_scan fuel E prefix e =
     (case new_merge_iterator E prefix e of Ok st \<Rightarrow> mi_collect fuel E (en_heap e) st | _ \<Rightarrow> None)"

subsection \<open>Prefix ranges are exact\<close>

lemma upper_loop_bound:
  "i \<le> length p \<Longrightarrow> \<forall>j. i \<le> j \<and> j < length p \<longrightarrow> p ! j = 0xFF \<Longrightarrow>
   if upper_loop i p = [] then \<forall>b \<in> set p. b = 0xFF
   else \<exists>q c s. p = q @ c # s \<and> c < 0xFF \<and> (\<forall>b \<in> set s. b = 0xFF) \<and> upper_loop i p = q @ [c + 1]"
proof (induction i)
  case 0
  then show ?case by (auto simp: set_conv_nth)
next
  case (Suc i)
  show ?case
  proof (cases "p ! i < 0xFF")
    case True
    have i: "i < length p" using Suc.prems(1) by simp
    have "p = take i p @ p ! i # drop (Suc i) p" using i by (simp add: id_take_nth_drop [symmetric])
    moreover have "\<forall>b \<in> set (drop (Suc i) p). b = 0xFF" using Suc.prems(2) by (auto simp: in_set_conv_nth)
    moreover have "upper_loop (Suc i) p = take i p @ [p ! i + 1]" using i True
      by (simp add: take_Suc_conv_app_nth)
    moreover have "take i p @ [p ! i + 1] \<noteq> []" by simp
    ultimately show ?thesis unfolding if_not_P [OF \<open>take i p @ [p ! i + 1] \<noteq> []\<close>] using True
      by (simp only: if_False) blast
  next
    case False
    have "p ! i = 0xFF"
    proof (rule order_antisym)
      have "(0xFF :: byte) = - 1" by simp
      then show "p ! i \<le> 0xFF" by (metis word_n1_ge)
      show "0xFF \<le> p ! i" using False by (simp add: not_less)
    qed
    then have "\<forall>j. i \<le> j \<and> j < length p \<longrightarrow> p ! j = 0xFF" using Suc.prems(2) by (metis le_antisym not_less_eq_eq)
    then show ?thesis using Suc False by simp
  qed
qed

lemma has_prefix_iff: "has_prefix s p \<longleftrightarrow> (\<exists>t. s = p @ t)"
proof
  assume "has_prefix s p"
  then have "s = p @ drop (length p) s" using append_take_drop_id [of "length p" s] by (simp add: has_prefix_def)
  then show "\<exists>t. s = p @ t" by blast
qed (auto simp: has_prefix_def)

lemma less_append_same: "(q @ xs :: bytes) < q @ ys \<longleftrightarrow> xs < ys"
  by (induction q) simp_all

lemma le_append_same: "(q @ xs :: bytes) \<le> q @ ys \<longleftrightarrow> xs \<le> ys"
  by (induction q) simp_all

lemma all_ff_le: "\<forall>b \<in> set s. b = 0xFF \<Longrightarrow> s \<le> t \<longleftrightarrow> has_prefix t s"
proof (induction s arbitrary: t)
  case (Cons b s)
  have "b = - 1" using Cons.prems by simp
  then show ?case using Cons by (cases t) (auto simp: has_prefix_iff)
qed (simp add: has_prefix_iff)

lemma between_prefix:
  assumes "(q @ xs :: bytes) \<le> k" and "k < q @ ys"
  shows "\<exists>t. k = q @ t \<and> xs \<le> t \<and> t < ys"
  using assms
proof (induction q arbitrary: k)
  case (Cons b q)
  then obtain c t where k: "k = c # t" by (cases k) auto
  then have "\<not> c < b" "\<not> b < c" using Cons.prems by auto
  then have "c = b" by simp
  then show ?case using Cons.IH [of t] Cons.prems k by auto
qed auto

lemma prefix_range:
  "has_prefix k p \<longleftrightarrow> p \<le> k \<and> (prefix_upper_bound p = [] \<or> k < prefix_upper_bound p)"
proof -
  let ?u = "upper_loop (length p) p"
  have "\<forall>j. length p \<le> j \<and> j < length p \<longrightarrow> p ! j = 0xFF" by auto
  note ub = upper_loop_bound [OF order_refl this]
  have u: "prefix_upper_bound p = ?u" by (cases p) (simp_all add: prefix_upper_bound_def)
  show ?thesis
  proof (cases "?u = []")
    case True
    then have "\<forall>b \<in> set p. b = 0xFF" using ub by simp
    then show ?thesis using all_ff_le [of p k] True u by simp
  next
    case False
    then obtain q c s where p: "p = q @ c # s" "c < 0xFF" "\<forall>b \<in> set s. b = 0xFF" "?u = q @ [c + 1]"
      using ub unfolding if_not_P [OF False] by blast
    have uc: "unat (c + 1) = Suc (unat c)" using p(2) by (simp add: word_less_nat_alt unat_word_ariths)
    then have c1: "c < c + 1" by (simp add: word_less_nat_alt)
    have "has_prefix k p" if lo: "p \<le> k" and hi: "k < q @ [c + 1]"
    proof -
      obtain t where t: "k = q @ t" "c # s \<le> t" "t < [c + 1]" using between_prefix [of q "c # s" k "[c + 1]"] lo hi p(1) by auto
      then obtain b t' where bt: "t = b # t'" by (cases t) auto
      have "b < c + 1" using t(3) bt by auto
      moreover have "c \<le> b" using t(2) bt by auto
      ultimately have "b = c" using uc by (simp add: word_less_nat_alt word_le_nat_alt word_unat_eq_iff)
      then show ?thesis using t p(1,3) bt all_ff_le [OF p(3), of t'] by (auto simp: has_prefix_iff)
    qed
    moreover have "p \<le> k \<and> k < q @ [c + 1]" if "has_prefix k p"
    proof -
      obtain t where "k = p @ t" using \<open>has_prefix k p\<close> has_prefix_iff by blast
      then have "k = q @ c # s @ t" unfolding p(1) by simp
      then show ?thesis using c1 all_ff_le [OF p(3), of "s @ t"] by (simp add: p(1) less_append_same le_append_same has_prefix_iff)
    qed
    ultimately show ?thesis unfolding u p(4) by auto
  qed
qed

subsection \<open>What a source yields\<close>

fun yields :: "sst_env \<Rightarrow> memtable list \<Rightarrow> range_iter \<Rightarrow> (bytes \<times> bytes) list \<Rightarrow> bool" where
  "yields E hp it [] = (\<exists>it'. ri_next E hp it = Ok (False, it'))"
| "yields E hp it (kv # kvs) = (\<exists>it'. ri_next E hp it = Ok (True, it') \<and> ri_entry hp it' = kv \<and> yields E hp it' kvs)"

lemma yields_mem_links:
  "links (sk_nodes (mt_list (hp ! i))) (it_next (mt_list (hp ! i)) p) l \<Longrightarrow>
   yields E hp (Mem_iter i p) (map (it_entry (mt_list (hp ! i))) l)"
proof (induction l arbitrary: p)
  case (Cons n l)
  have "it_next (mt_list (hp ! i)) (Some n) = next_at (sk_nodes (mt_list (hp ! i))) 0 n" by (simp add: it_next_def)
  then show ?case using Cons.prems Cons.IH [of "Some n"] by (simp add: ri_next_def ri_entry_def Let_def)
qed (simp add: ri_next_def Let_def)

lemma yields_mem:
  assumes "mt_ok (hp ! i)"
  shows "yields E hp (Mem_iter i None) (mt_entries (hp ! i))"
proof -
  obtain l where l: "sl_ok (mt_list (hp ! i)) l" using assms by (auto simp: mt_ok_def sk_ok_def)
  then have "links (sk_nodes (mt_list (hp ! i))) (it_next (mt_list (hp ! i)) None) l" by (simp add: sl_ok_def it_next_def Let_def)
  then show ?thesis using yields_mem_links sk_entries_eq [OF l] by (simp add: mt_entries_def)
qed

lemma yields_sst_left:
  assumes "sst_holds E r gs"
  shows "at_pair it gs i j \<Longrightarrow> yields E hp (Sst_iter r it) (left gs i j)"
proof (induction "left gs i j" arbitrary: it i j)
  case Nil
  from iter_next_ok [OF assms Nil(2)] show ?case
    by (auto simp: Nil(1) [symmetric] ri_next_def)
next
  case (Cons kv kvs)
  from iter_next_ok [OF assms Cons(3)] obtain it' i' j' where
    n: "sst_iter_next E r it = Ok (True, it')" "at_pair it' gs i' j'" "left gs i j = sst_iter_entry it' # left gs i' j'"
    using Cons(2) by auto
  then have k: "kv = sst_iter_entry it'" "kvs = left gs i' j'" using Cons(2) by simp_all
  have "yields E hp (Sst_iter r it') (left gs i' j')" by (rule Cons(1) [OF k(2) n(2)])
  then show ?case unfolding n(3) using n(1) by (auto simp: ri_next_def ri_entry_def)
qed

lemma yields_sst:
  assumes h: "sst_holds E r gs"
  shows "yields E hp (Sst_iter r new_sst_iter) (concat gs)"
proof (cases gs)
  case Nil
  then have "\<exists>it'. advance_to E r (int 0) new_sst_iter = Ok (False, it')" by (intro advance_end [OF h]) simp
  then show ?thesis using Nil by (auto simp: ri_next_def sst_iter_next_def new_sst_iter_def)
next
  case (Cons g gs')
  let ?it = "\<lparr>si_block = int 0, si_pair = 0, si_pairs = Some (gs ! 0)\<rparr>"
  have l: "0 < length gs" using Cons by simp
  have at: "at_pair ?it gs 0 0" using l block_ne [OF h l] by (simp add: at_pair_def)
  have n: "sst_iter_next E r new_sst_iter = Ok (True, ?it)"
    using advance_ok [OF h l, of new_sst_iter] by (simp add: sst_iter_next_def new_sst_iter_def)
  obtain kv g' where g: "g = kv # g'" using block_ne [OF h l] Cons by (cases g) auto
  have c: "concat gs = sst_iter_entry ?it # left gs 0 0"
    by (simp add: Cons g left_def sst_iter_entry_def pairs_of_def)
  show ?thesis unfolding c using n yields_sst_left [OF h at, of hp] by (simp add: ri_next_def ri_entry_def)
qed

subsection \<open>The heap holds the first entry of every source\<close>

definition item_of :: "nat \<Rightarrow> (bytes \<times> bytes) list \<Rightarrow> merge_item multiset" where
  "item_of i xs = (case xs of [] \<Rightarrow> {#} | kv # _ \<Rightarrow> {#\<lparr>mi_key = fst kv, mi_val = snd kv, mi_src = i\<rparr>#})"

definition items :: "(bytes \<times> bytes) list list \<Rightarrow> merge_item multiset" where
  "items L = (\<Sum>i < length L. item_of i (L ! i))"

lemma items_update:
  assumes "i < length L"
  shows "items L = items (L[i := []]) + item_of i (L ! i)" and "items (L[i := xs]) = items (L[i := []]) + item_of i xs"
proof -
  have s: "items (L[i := ys]) = (\<Sum>j \<in> {..< length L} - {i}. item_of j (L ! j)) + item_of i ys" for ys
  proof -
    have "items (L[i := ys]) = item_of i ys + (\<Sum>j \<in> {..< length L} - {i}. item_of j (L[i := ys] ! j))"
      using assms by (simp add: items_def sum.remove [of "{..< length L}" i])
    also have "(\<Sum>j \<in> {..< length L} - {i}. item_of j (L[i := ys] ! j)) = (\<Sum>j \<in> {..< length L} - {i}. item_of j (L ! j))"
      by (rule sum.cong) auto
    finally show ?thesis by simp
  qed
  have e: "item_of i [] = {#}" by (simp add: item_of_def)
  show "items L = items (L[i := []]) + item_of i (L ! i)" using s [of "L ! i"] unfolding s [of "[]"] e list_update_id by simp
  show "items (L[i := xs]) = items (L[i := []]) + item_of i xs" unfolding s e by simp
qed

lemma in_items: "x \<in># items L \<longleftrightarrow> (\<exists>i < length L. \<exists>kv rest. L ! i = kv # rest \<and> x = \<lparr>mi_key = fst kv, mi_val = snd kv, mi_src = i\<rparr>)"
proof -
  have "set_mset (items L) = (\<Union>i < length L. set_mset (item_of i (L ! i)))" by (simp add: items_def set_mset_sum)
  moreover have "x \<in># item_of i xs \<longleftrightarrow> (\<exists>kv rest. xs = kv # rest \<and> x = \<lparr>mi_key = fst kv, mi_val = snd kv, mi_src = i\<rparr>)" for i xs
    by (cases xs) (simp_all add: item_of_def)
  ultimately show ?thesis by auto
qed

definition merge_inv :: "sst_env \<Rightarrow> memtable list \<Rightarrow> merge_iter \<Rightarrow> (bytes \<times> bytes) list list \<Rightarrow> bool" where
  "merge_inv E hp st L \<longleftrightarrow> length (mg_sources st) = length L \<and> mi.is_heap (length (mg_heap st)) (mg_heap st) \<and>
     mset (mg_heap st) = items L \<and>
     (\<forall>i < length L. \<forall>kv rest. L ! i = kv # rest \<longrightarrow> yields E hp (mg_sources st ! i) rest)"

lemma push_next_ok:
  assumes "merge_inv E hp st L" and "i < length L" and "L ! i = []" and "yields E hp (mg_sources st ! i) xs"
  shows "\<exists>st'. push_next E hp i st = Ok st' \<and> merge_inv E hp st' (L[i := xs]) \<and>
    mg_prefix st' = mg_prefix st \<and> mg_closed st' = mg_closed st"
proof (cases xs)
  case Nil
  then obtain it where it: "ri_next E hp (mg_sources st ! i) = Ok (False, it)" using assms(4) by auto
  have "L[i := []] = L" using assms(3) by (metis list_update_id)
  then show ?thesis using assms(1,2,3) it Nil
    by (auto simp: push_next_def merge_inv_def Let_def split_beta nth_list_update)
next
  case (Cons kv rest)
  then obtain it where it: "ri_next E hp (mg_sources st ! i) = Ok (True, it)" "ri_entry hp it = kv" "yields E hp it rest"
    using assms(4) by auto
  let ?x = "\<lparr>mi_key = fst kv, mi_val = snd kv, mi_src = i\<rparr>"
  let ?st = "st\<lparr>mg_sources := (mg_sources st)[i := it], mg_heap := heap_push mi_less ?x (mg_heap st)\<rparr>"
  have n: "push_next E hp i st = Ok ?st" using it(1,2) by (simp add: push_next_def Let_def split_beta)
  have "L[i := []] = L" using assms(3) by (metis list_update_id)
  then have "items (L[i := xs]) = items L + {#?x#}" using items_update(2) [OF assms(2), of xs] Cons by (simp add: item_of_def)
  then have "merge_inv E hp ?st (L[i := xs])"
    using assms(1,2) it(3) mi.push_heap Cons by (auto simp: merge_inv_def mset_heap_push nth_list_update)
  then show ?thesis using n by simp
qed

lemma pop_ok:
  assumes "merge_inv E hp st L" and "mg_heap st \<noteq> []"
  shows "\<exists>i kv rest. i < length L \<and> L ! i = kv # rest \<and> mg_heap st ! 0 = \<lparr>mi_key = fst kv, mi_val = snd kv, mi_src = i\<rparr> \<and>
    (\<forall>j < length L. L ! j \<noteq> [] \<longrightarrow> fst kv \<le> fst (hd (L ! j))) \<and> yields E hp (mg_sources st ! i) rest \<and>
    merge_inv E hp (st\<lparr>mg_heap := snd (heap_pop mi_less (mg_heap st))\<rparr>) (L[i := []])"
proof -
  let ?h = "mg_heap st"
  note inv = assms(1) [unfolded merge_inv_def]
  have "?h ! 0 \<in># items L" using assms(2) inv by (metis nth_mem length_greater_0_conv set_mset_mset)
  then obtain i kv rest where i: "i < length L" "L ! i = kv # rest" "?h ! 0 = \<lparr>mi_key = fst kv, mi_val = snd kv, mi_src = i\<rparr>"
    unfolding in_items by blast
  have min: "fst kv \<le> fst (hd (L ! j))" if j: "j < length L" "L ! j \<noteq> []" for j
  proof -
    obtain kv' r where "L ! j = kv' # r" using j(2) by (cases "L ! j") auto
    then have "\<lparr>mi_key = fst kv', mi_val = snd kv', mi_src = j\<rparr> \<in># items L" and h: "hd (L ! j) = kv'" using j(1) in_items by auto
    then have "\<lparr>mi_key = fst kv', mi_val = snd kv', mi_src = j\<rparr> \<in> set ?h" using inv by (metis set_mset_mset)
    then show ?thesis using mi.root_minimal [of ?h] inv i(3) h by fastforce
  qed
  have "mset (snd (heap_pop mi_less ?h)) = items (L[i := []])"
    using heap_pop_mset [OF assms(2), of mi_less] heap_pop_first [OF assms(2), of mi_less] items_update(1) [OF i(1)] inv i(2,3)
    by (simp add: item_of_def)
  then have "merge_inv E hp (st\<lparr>mg_heap := snd (heap_pop mi_less ?h)\<rparr>) (L[i := []])"
    using inv i(1) mi.pop_heap [OF _ assms(2)] by (auto simp: merge_inv_def nth_list_update)
  then show ?thesis using i min inv by blast
qed

lemma heap_empty_iff: "merge_inv E hp st L \<Longrightarrow> mg_heap st = [] \<longleftrightarrow> (\<forall>xs \<in> set L. xs = [])"
proof -
  assume inv: "merge_inv E hp st L"
  have "mg_heap st = [] \<longleftrightarrow> (\<forall>x. x \<notin># items L)" using inv by (simp add: merge_inv_def) (metis mset_zero_iff multiset_nonemptyE)
  also have "\<dots> \<longleftrightarrow> (\<forall>i < length L. L ! i = [])" unfolding in_items by (metis neq_Nil_conv)
  finally show ?thesis by (simp add: all_set_conv_all_nth)
qed

lemma step_ok:
  assumes "merge_inv E hp st L" and "mg_heap st \<noteq> []"
  shows "\<exists>i k v rest st'. i < length L \<and> L ! i = (k, v) # rest \<and> mg_heap st ! 0 = \<lparr>mi_key = k, mi_val = v, mi_src = i\<rparr> \<and>
    (\<forall>j < length L. L ! j \<noteq> [] \<longrightarrow> k \<le> fst (hd (L ! j))) \<and>
    push_next E hp i (st\<lparr>mg_heap := snd (heap_pop mi_less (mg_heap st))\<rparr>) = Ok st' \<and> merge_inv E hp st' (L[i := rest]) \<and>
    mg_prefix st' = mg_prefix st \<and> mg_closed st' = mg_closed st"
proof -
  obtain i kv rest where i: "i < length L" "L ! i = kv # rest" "mg_heap st ! 0 = \<lparr>mi_key = fst kv, mi_val = snd kv, mi_src = i\<rparr>"
    "\<forall>j < length L. L ! j \<noteq> [] \<longrightarrow> fst kv \<le> fst (hd (L ! j))" "yields E hp (mg_sources st ! i) rest"
    "merge_inv E hp (st\<lparr>mg_heap := snd (heap_pop mi_less (mg_heap st))\<rparr>) (L[i := []])"
    using pop_ok [OF assms] by blast
  obtain k v where kv: "kv = (k, v)" by (cases kv)
  have l: "i < length (L[i := []])" "L[i := []] ! i = []" using i(1) by simp_all
  show ?thesis using push_next_ok [OF i(6) l, of rest] i(1-5) kv
    by (intro exI [of _ i] exI [of _ k] exI [of _ v] exI [of _ rest]) auto
qed

subsection \<open>The scan as a relation on the lists of the sources\<close>

definition drop_key :: "bytes \<Rightarrow> (bytes \<times> bytes) list list \<Rightarrow> (bytes \<times> bytes) list list" where
  "drop_key k L = map (dropWhile (\<lambda>kv. fst kv = k)) L"

definition keep :: "bytes \<Rightarrow> bytes \<times> bytes \<Rightarrow> bool" where
  "keep p kv \<longleftrightarrow> has_prefix (fst kv) p \<and> \<not> is_tombstone (snd kv)"

inductive merged :: "bytes \<Rightarrow> (bytes \<times> bytes) list list \<Rightarrow> (bytes \<times> bytes) list \<Rightarrow> bool" for p where
  merged_end: "\<forall>xs \<in> set L. xs = [] \<Longrightarrow> merged p L []"
| merged_step: "i < length L \<Longrightarrow> L ! i = (k, v) # ys \<Longrightarrow> \<forall>j < length L. L ! j \<noteq> [] \<longrightarrow> k \<le> fst (hd (L ! j)) \<Longrightarrow>
    merged p (drop_key k L) out \<Longrightarrow> merged p L (filter (keep p) [(k, v)] @ out)"

definition total :: "(bytes \<times> bytes) list list \<Rightarrow> nat" where "total L = sum_list (map length L)"

definition ascending :: "(bytes \<times> bytes) list list \<Rightarrow> bool" where
  "ascending L \<longleftrightarrow> (\<forall>xs \<in> set L. sorted_wrt (<) (map fst xs))"

definition at_least :: "bytes \<Rightarrow> (bytes \<times> bytes) list list \<Rightarrow> bool" where
  "at_least k L \<longleftrightarrow> (\<forall>xs \<in> set L. xs \<noteq> [] \<longrightarrow> k \<le> fst (hd xs))"

lemma total_update: "i < length L \<Longrightarrow> L ! i = kv # ys \<Longrightarrow> total L = Suc (total (L[i := ys]))"
proof (induction L arbitrary: i)
  case (Cons xs L)
  then show ?case by (cases i) (auto simp: total_def)
qed simp

lemma ascending_update: "ascending L \<Longrightarrow> i < length L \<Longrightarrow> L ! i = kv # ys \<Longrightarrow> ascending (L[i := ys])"
  unfolding ascending_def by (metis (no_types) list.simps(9) nth_mem set_update_subset_insert insertE subsetD sorted_wrt.simps(2))

lemma at_least_update:
  assumes "at_least k L" and "ascending L" and "i < length L" and "L ! i = kv # ys"
  shows "at_least k (L[i := ys])"
proof -
  have "kv # ys \<in> set L" using assms(3,4) by (metis nth_mem)
  then have "k \<le> fst kv" and "sorted_wrt (<) (map fst (kv # ys))"
    using assms(1,2) unfolding at_least_def ascending_def by fastforce+
  then have "ys \<noteq> [] \<longrightarrow> k \<le> fst (hd ys)" by (cases ys) (auto simp: less_imp_le)
  then show ?thesis using assms(1) set_update_subset_insert [of L i ys] by (auto simp: at_least_def)
qed

lemma drop_key_update:
  assumes "i < length L" and "L ! i = (k, v) # ys"
  shows "drop_key k (L[i := ys]) = drop_key k L"
proof -
  have "dropWhile (\<lambda>kv. fst kv = k) (L ! i) = dropWhile (\<lambda>kv. fst kv = k) ys" using assms(2) by simp
  then have "drop_key k (L[i := ys]) = (drop_key k L)[i := drop_key k L ! i]"
    using assms(1) by (simp add: drop_key_def map_update)
  then show ?thesis by simp
qed

lemma drop_key_id: "(\<And>xs. xs \<in> set L \<Longrightarrow> xs \<noteq> [] \<Longrightarrow> fst (hd xs) \<noteq> k) \<Longrightarrow> drop_key k L = L"
  unfolding drop_key_def by (rule map_idI) (auto simp: dropWhile_eq_self_iff)

lemma total_drop_key: "total (drop_key k L) \<le> total L"
  unfolding total_def drop_key_def by (induction L) (auto simp: add_mono length_dropWhile_le)

lemma ascending_drop_key: "ascending L \<Longrightarrow> ascending (drop_key k L)"
proof -
  have "sorted_wrt (<) (map fst (dropWhile P xs))" if "sorted_wrt (<) (map fst xs)" for P and xs :: "(bytes \<times> bytes) list"
    using that by (induction xs) auto
  then show "ascending L \<Longrightarrow> ascending (drop_key k L)" by (auto simp: ascending_def drop_key_def)
qed

lemma skip_same_ok:
  "merge_inv E hp st L \<Longrightarrow> ascending L \<Longrightarrow> at_least k L \<Longrightarrow> total L < fuel \<Longrightarrow>
   \<exists>st'. skip_same fuel E hp k st = Some (Ok st') \<and> merge_inv E hp st' (drop_key k L) \<and>
     mg_prefix st' = mg_prefix st \<and> mg_closed st' = mg_closed st"
proof (induction fuel arbitrary: st L)
  case (Suc fuel)
  note inv = Suc.prems(1)
  show ?case
  proof (cases "mg_heap st = []")
    case True
    then have "drop_key k L = L" using heap_empty_iff [OF inv] by (intro drop_key_id) auto
    then show ?thesis using True inv by simp
  next
    case False
    obtain i k' v ys st' where s: "i < length L" "L ! i = (k', v) # ys" "mg_heap st ! 0 = \<lparr>mi_key = k', mi_val = v, mi_src = i\<rparr>"
      "\<forall>j < length L. L ! j \<noteq> [] \<longrightarrow> k' \<le> fst (hd (L ! j))"
      "push_next E hp i (st\<lparr>mg_heap := snd (heap_pop mi_less (mg_heap st))\<rparr>) = Ok st'" "merge_inv E hp st' (L[i := ys])"
      "mg_prefix st' = mg_prefix st" "mg_closed st' = mg_closed st"
      using step_ok [OF inv False] by blast
    show ?thesis
    proof (cases "k' = k")
      case True
      have "total (L[i := ys]) < fuel" using total_update [OF s(1,2)] Suc.prems(4) by simp
      then obtain st2 where "skip_same fuel E hp k st' = Some (Ok st2)" "merge_inv E hp st2 (drop_key k (L[i := ys]))"
        "mg_prefix st2 = mg_prefix st'" "mg_closed st2 = mg_closed st'"
        using Suc.IH [OF s(6) ascending_update [OF Suc.prems(2) s(1,2)] at_least_update [OF Suc.prems(3,2) s(1,2)]] by blast
      moreover have "drop_key k (L[i := ys]) = drop_key k L" using drop_key_update [OF s(1)] s(2) True by blast
      ultimately show ?thesis using s(3,5,7,8) True False by (simp add: Let_def)
    next
      case ne: False
      have "k \<le> k'" using Suc.prems(3) s(1,2) by (metis at_least_def fst_conv list.distinct(1) list.sel(1) nth_mem)
      then have "k < k'" using ne by simp
      then have "drop_key k L = L" using s(4) by (intro drop_key_id) (fastforce simp: in_set_conv_nth)
      then show ?thesis using s(3) ne inv False by simp
    qed
  qed
qed simp

lemma mi_next_ok:
  "merge_inv E hp st L \<Longrightarrow> ascending L \<Longrightarrow> total L < fuel \<Longrightarrow> \<not> mg_closed st \<Longrightarrow>
   \<exists>st' b. mi_next fuel E hp st = Some (Ok (b, st')) \<and>
     (if b then \<not> mg_closed st' \<and> mg_prefix st' = mg_prefix st \<and>
        (\<exists>L'. merge_inv E hp st' L' \<and> ascending L' \<and> total L' < total L \<and>
          (\<forall>out. merged (mg_prefix st) L' out \<longrightarrow> merged (mg_prefix st) L ((mg_key st', mg_val st') # out)))
      else merged (mg_prefix st) L [])"
proof (induction fuel arbitrary: st L)
  case (Suc fuel)
  note inv = Suc.prems(1)
  show ?case
  proof (cases "mg_heap st = []")
    case True
    then have "merged (mg_prefix st) L []" using heap_empty_iff [OF inv] by (simp add: merged_end)
    then show ?thesis using True by auto
  next
    case False
    obtain i k v ys st1 where s: "i < length L" "L ! i = (k, v) # ys" "mg_heap st ! 0 = \<lparr>mi_key = k, mi_val = v, mi_src = i\<rparr>"
      "\<forall>j < length L. L ! j \<noteq> [] \<longrightarrow> k \<le> fst (hd (L ! j))"
      "push_next E hp i (st\<lparr>mg_heap := snd (heap_pop mi_less (mg_heap st))\<rparr>) = Ok st1" "merge_inv E hp st1 (L[i := ys])"
      "mg_prefix st1 = mg_prefix st" "mg_closed st1 = mg_closed st"
      using step_ok [OF inv False] by blast
    have al: "at_least k L" using s(4) by (auto simp: at_least_def in_set_conv_nth)
    note asc = Suc.prems(2)
    have t: "total (L[i := ys]) < fuel" using total_update [OF s(1,2)] Suc.prems(3) by simp
    have dk: "drop_key k (L[i := ys]) = drop_key k L" using drop_key_update [OF s(1,2)] .
    obtain st2 where st2: "skip_same fuel E hp k st1 = Some (Ok st2)" "merge_inv E hp st2 (drop_key k L)"
      "mg_prefix st2 = mg_prefix st" "mg_closed st2 = mg_closed st"
      using skip_same_ok [OF s(6) ascending_update [OF asc s(1,2)] at_least_update [OF al asc s(1,2)] t] s(7,8) dk by auto
    have less: "total (drop_key k L) < total L" using total_drop_key [of k "L[i := ys]"] total_update [OF s(1,2)] dk by simp
    note asc2 = ascending_drop_key [OF asc, of k]
    have step: "merged (mg_prefix st) (drop_key k L) out \<Longrightarrow> merged (mg_prefix st) L (filter (keep (mg_prefix st)) [(k, v)] @ out)" for out
      using merged_step [OF s(1,2,4)] .
    show ?thesis
    proof (cases "keep (mg_prefix st) (k, v)")
      case True
      let ?st = "st2\<lparr>mg_key := k, mg_val := v\<rparr>"
      have "mi_next (Suc fuel) E hp st = Some (Ok (True, ?st))"
        using s(3,5) st2 True False Suc.prems(4) by (simp add: Let_def keep_def)
      moreover have "merge_inv E hp ?st (drop_key k L)" using st2(2) by (simp add: merge_inv_def)
      ultimately show ?thesis using less asc2 step st2 True Suc.prems(4)
        by (intro exI [of _ ?st] exI [of _ True]) auto
    next
      case no: False
      have m: "mi_next (Suc fuel) E hp st = mi_next fuel E hp st2"
        using s(3,5) st2 no False Suc.prems(4) by (auto simp: Let_def keep_def)
      have t2: "total (drop_key k L) < fuel" using less Suc.prems(3) by simp
      have c2: "\<not> mg_closed st2" using st2(4) Suc.prems(4) by simp
      obtain st' b where r: "mi_next fuel E hp st2 = Some (Ok (b, st'))"
        "if b then \<not> mg_closed st' \<and> mg_prefix st' = mg_prefix st2 \<and>
          (\<exists>L'. merge_inv E hp st' L' \<and> ascending L' \<and> total L' < total (drop_key k L) \<and>
            (\<forall>out. merged (mg_prefix st2) L' out \<longrightarrow> merged (mg_prefix st2) (drop_key k L) ((mg_key st', mg_val st') # out)))
         else merged (mg_prefix st2) (drop_key k L) []"
        using Suc.IH [OF st2(2) asc2 t2 c2] by blast
      show ?thesis
      proof (cases b)
        case True
        then obtain L' where L': "merge_inv E hp st' L'" "ascending L'" "total L' < total (drop_key k L)"
          "\<forall>out. merged (mg_prefix st) L' out \<longrightarrow> merged (mg_prefix st) (drop_key k L) ((mg_key st', mg_val st') # out)"
          "\<not> mg_closed st'" "mg_prefix st' = mg_prefix st"
          using r(2) st2(3) by auto
        have "merged (mg_prefix st) L ((mg_key st', mg_val st') # out)" if "merged (mg_prefix st) L' out" for out
          using step [of "(mg_key st', mg_val st') # out"] L'(4) that no by simp
        then show ?thesis using m r(1) L' less True by (intro exI [of _ st'] exI [of _ True]) (auto intro: less_trans)
      next
        case False
        then have "merged (mg_prefix st) L []" using step [of "[]"] r(2) st2(3) no by simp
        then show ?thesis using m r(1) False by auto
      qed
    qed
  qed
qed simp

lemma mi_collect_ok:
  "merge_inv E hp st L \<Longrightarrow> ascending L \<Longrightarrow> total L + 1 < fuel \<Longrightarrow> \<not> mg_closed st \<Longrightarrow>
   \<exists>out. mi_collect fuel E hp st = Some out \<and> merged (mg_prefix st) L out"
proof (induction fuel arbitrary: st L)
  case (Suc fuel)
  have t: "total L < fuel" using Suc.prems(3) by simp
  obtain st' b where r: "mi_next fuel E hp st = Some (Ok (b, st'))"
    "if b then \<not> mg_closed st' \<and> mg_prefix st' = mg_prefix st \<and>
      (\<exists>L'. merge_inv E hp st' L' \<and> ascending L' \<and> total L' < total L \<and>
        (\<forall>out. merged (mg_prefix st) L' out \<longrightarrow> merged (mg_prefix st) L ((mg_key st', mg_val st') # out)))
     else merged (mg_prefix st) L []"
    using mi_next_ok [OF Suc.prems(1,2) t Suc.prems(4)] by blast
  show ?case
  proof (cases b)
    case True
    then obtain L' where L': "merge_inv E hp st' L'" "ascending L'" "total L' < total L" "\<not> mg_closed st'" "mg_prefix st' = mg_prefix st"
      "\<forall>out. merged (mg_prefix st) L' out \<longrightarrow> merged (mg_prefix st) L ((mg_key st', mg_val st') # out)"
      using r(2) by auto
    then obtain out where "mi_collect fuel E hp st' = Some out" "merged (mg_prefix st) L' out"
      using Suc.IH [OF L'(1,2) _ L'(4)] t by auto
    then show ?thesis using r(1) True L'(6) by auto
  qed (use r in auto)
qed simp

subsection \<open>What a scan returns\<close>

definition unanimous :: "(bytes \<times> bytes) list list \<Rightarrow> bytes \<Rightarrow> bytes \<Rightarrow> bool" where
  "unanimous L k v \<longleftrightarrow> (\<exists>xs \<in> set L. (k, v) \<in> set xs) \<and> (\<forall>xs \<in> set L. \<forall>v'. (k, v') \<in> set xs \<longrightarrow> v' = v)"

lemma in_drop_key: "kv \<in> set xs \<Longrightarrow> fst kv \<noteq> k \<Longrightarrow> kv \<in> set (dropWhile (\<lambda>kv. fst kv = k) xs)"
  by (induction xs) auto

lemma set_drop_key: "xs \<in> set (drop_key k L) \<Longrightarrow> \<exists>ys \<in> set L. set xs \<subseteq> set ys"
  by (auto simp: drop_key_def dest: set_dropWhileD)

lemma merged_subset: "merged p L out \<Longrightarrow> kv \<in> set out \<Longrightarrow> keep p kv \<and> (\<exists>xs \<in> set L. kv \<in> set xs)"
proof (induction rule: merged.induct)
  case (merged_step i L k v ys out)
  show ?case
  proof (cases "kv \<in> set out")
    case True
    then obtain xs where xs: "xs \<in> set (drop_key k L)" "kv \<in> set xs" "keep p kv" using merged_step.IH by blast
    then show ?thesis using set_drop_key [OF xs(1)] by blast
  next
    case False
    then have "kv = (k, v)" "keep p kv" using merged_step.prems by (auto split: if_splits)
    moreover have "(k, v) # ys \<in> set L" using merged_step.hyps(1,2) by (metis nth_mem)
    ultimately show ?thesis by (metis list.set_intros(1))
  qed
qed simp

lemma drop_key_greater:
  assumes "ascending L" and "at_least k L" and "xs \<in> set (drop_key k L)" and "kv \<in> set xs"
  shows "k < fst kv"
proof -
  obtain ys where ys: "ys \<in> set L" "xs = dropWhile (\<lambda>kv. fst kv = k) ys" using assms(3) by (auto simp: drop_key_def)
  then have s: "sorted_wrt (<) (map fst ys)" "ys \<noteq> [] \<longrightarrow> k \<le> fst (hd ys)" using assms(1,2) by (auto simp: ascending_def at_least_def)
  obtain y zs where c: "ys = y # zs" using ys(2) assms(4) by (cases ys) auto
  show ?thesis
  proof (cases "fst y = k")
    case True
    have "kv \<in> set zs" using ys(2) assms(4) c True by (auto dest: set_dropWhileD)
    then show ?thesis using s(1) c True by auto
  next
    case False
    then have "k < fst y" using s(2) c by auto
    moreover have "kv = y \<or> fst y < fst kv" using ys(2) assms(4) c False s(1) by auto
    ultimately show ?thesis by auto
  qed
qed

lemma merged_sorted: "merged p L out \<Longrightarrow> ascending L \<Longrightarrow> sorted_wrt (<) (map fst out)"
proof (induction rule: merged.induct)
  case (merged_step i L k v ys out)
  have al: "at_least k L" using merged_step.hyps(3) by (auto simp: at_least_def in_set_conv_nth)
  have "k < fst kv" if "kv \<in> set out" for kv
    using merged_subset [OF merged_step.hyps(4) that] drop_key_greater [OF merged_step.prems al] by blast
  then show ?case using merged_step.IH [OF ascending_drop_key [OF merged_step.prems]] by auto
qed simp

lemma merged_unanimous: "merged p L out \<Longrightarrow> unanimous L k v \<Longrightarrow> keep p (k, v) \<Longrightarrow> (k, v) \<in> set out"
proof (induction rule: merged.induct)
  case (merged_end L)
  then show ?case by (auto simp: unanimous_def)
next
  case (merged_step i L k' v' ys out)
  show ?case
  proof (cases "k' = k")
    case True
    have "(k', v') # ys \<in> set L" using merged_step.hyps(1,2) by (metis nth_mem)
    then have "v' = v" using merged_step.prems(1) True unfolding unanimous_def by (metis list.set_intros(1))
    then show ?thesis using merged_step.prems(2) True by simp
  next
    case False
    obtain xs where "xs \<in> set L" "(k, v) \<in> set xs" using merged_step.prems(1) by (auto simp: unanimous_def)
    then have "\<exists>xs \<in> set (drop_key k' L). (k, v) \<in> set xs" using in_drop_key [of "(k, v)" xs k'] False by (auto simp: drop_key_def)
    moreover have "\<forall>xs \<in> set (drop_key k' L). \<forall>v'. (k, v') \<in> set xs \<longrightarrow> v' = v"
      using merged_step.prems(1) set_drop_key unfolding unanimous_def by blast
    ultimately have "unanimous (drop_key k' L) k v" by (simp add: unanimous_def)
    then show ?thesis using merged_step.IH merged_step.prems(2) by simp
  qed
qed

subsection \<open>Opening the merge\<close>

lemma push_next_sources: "push_next E hp i st = Ok st' \<Longrightarrow> j \<noteq> i \<Longrightarrow> mg_sources st' ! j = mg_sources st ! j"
  by (auto simp: push_next_def obind_Ok_iff Let_def split_beta)

lemma fill_heap_ok:
  "n \<le> length Ls \<Longrightarrow> merge_inv E hp st (take n Ls @ replicate (length Ls - n) []) \<Longrightarrow>
   \<forall>j. n \<le> j \<and> j < length Ls \<longrightarrow> yields E hp (mg_sources st ! j) (Ls ! j) \<Longrightarrow>
   \<exists>st'. fill_heap E hp [n..<length Ls] st = Ok st' \<and> merge_inv E hp st' Ls \<and> mg_prefix st' = mg_prefix st \<and> mg_closed st' = mg_closed st"
proof (induction "length Ls - n" arbitrary: n st)
  case 0
  then show ?case by simp
next
  case (Suc d)
  let ?L = "take n Ls @ replicate (length Ls - n) []"
  have n: "n < length Ls" using Suc(2) by simp
  have l: "n < length ?L" "?L ! n = []" using n by (simp_all add: nth_append)
  have r: "replicate (length Ls - n) ([] :: (bytes \<times> bytes) list) = [] # replicate (length Ls - Suc n) []"
    using n by (metis Suc_diff_Suc replicate_Suc)
  have u: "?L[n := Ls ! n] = take (Suc n) Ls @ replicate (length Ls - Suc n) []"
    using n unfolding r by (simp add: list_update_append take_Suc_conv_app_nth)
  have y: "yields E hp (mg_sources st ! n) (Ls ! n)" using Suc.prems(3) n by simp
  obtain st1 where p: "push_next E hp n st = Ok st1" "merge_inv E hp st1 (take (Suc n) Ls @ replicate (length Ls - Suc n) [])"
    "mg_prefix st1 = mg_prefix st" "mg_closed st1 = mg_closed st"
    using push_next_ok [OF Suc.prems(2) l y] unfolding u by blast
  have "\<forall>j. Suc n \<le> j \<and> j < length Ls \<longrightarrow> yields E hp (mg_sources st1 ! j) (Ls ! j)"
    using Suc.prems(3) push_next_sources [OF p(1)] by simp
  then obtain st2 where "fill_heap E hp [Suc n..<length Ls] st1 = Ok st2" "merge_inv E hp st2 Ls" "mg_prefix st2 = mg_prefix st"
    "mg_closed st2 = mg_closed st"
    using Suc.hyps(1) [OF _ _ p(2)] Suc(2) n p(3,4) by (metis Suc_leI diff_Suc_Suc diff_Suc_1 Suc_diff_Suc)
  then show ?case using p(1) n by (simp add: upt_conv_Cons)
qed

definition holds_table :: "sst_env \<Rightarrow> disk \<Rightarrow> sst_meta \<Rightarrow> (bytes \<times> bytes) list \<Rightarrow> bool" where
  "holds_table E d m kvs \<longleftrightarrow> kvs \<noteq> [] \<and> fits kvs \<and> sorted_wrt (<) (map fst kvs) \<and> fm_min m = fst (hd kvs) \<and> fm_max m = fst (last kvs) \<and>
     (\<exists>data. d (file_name m) = Some data \<and> sst_finish E (fold sst_add kvs new_sst_writer) = Some data \<and> length data < 2 ^ 32)"

definition overlaps :: "bytes \<Rightarrow> sst_meta \<Rightarrow> bool" where
  "overlaps p m = file_overlaps_prefix (fm_min m) (fm_max m) p (prefix_upper_bound p)"

definition scanned :: "bytes \<Rightarrow> sst_meta list \<Rightarrow> (bytes \<times> bytes) list list \<Rightarrow> (bytes \<times> bytes) list list" where
  "scanned p ms kvss = map snd (filter (\<lambda>(m, kvs). overlaps p m) (zip ms kvss))"

lemma table_sources_ok:
  assumes "flate_ok E"
  shows "list_all2 (holds_table E d) ms kvss \<Longrightarrow> \<exists>ss. table_sources d p ms = Ok ss \<and> list_all2 (yields E hp) ss (scanned p ms kvss)"
proof (induction ms kvss rule: list_all2_induct)
  case (Cons m ms kvs kvss)
  obtain ss where ss: "table_sources d p ms = Ok ss" "list_all2 (yields E hp) ss (scanned p ms kvss)" using Cons.IH by blast
  obtain data where h: "kvs \<noteq> []" "fits kvs" "d (file_name m) = Some data" "sst_finish E (fold sst_add kvs new_sst_writer) = Some data"
    "length data < 2 ^ 32" using Cons.hyps(1) by (auto simp: holds_table_def)
  obtain r gs where o: "open_sst data = Ok r" "concat gs = kvs" "sst_holds E r gs" using finish_holds [OF assms h(1,2,4,5)] by blast
  have y: "yields E hp (Sst_iter r new_sst_iter) kvs" using yields_sst [OF o(3)] o(2) by simp
  show ?case using ss h(3) o(1) y by (auto simp: scanned_def overlaps_def table_source_def)
qed (simp add: scanned_def)

lemma not_overlapping:
  assumes "holds_table E d m kvs" and "\<not> overlaps p m" and "kv \<in> set kvs"
  shows "\<not> has_prefix (fst kv) p"
proof -
  have s: "sorted_wrt (<) (map fst kvs)" "fm_min m = fst (hd kvs)" "fm_max m = fst (last kvs)" using assms(1) by (simp_all add: holds_table_def)
  obtain k v where kv: "kv = (k, v)" by (cases kv)
  have mx: "k \<le> fm_max m" using key_le_last [OF s(1), of "(k, v)"] assms(3) kv s(3) by simp
  have "fst (hd kvs) \<le> k" using s(1) assms(3) kv by (cases kvs) (auto simp: less_imp_le)
  then have mn: "fm_min m \<le> k" using s(2) by simp
  show ?thesis using assms(2) mx mn unfolding prefix_range kv overlaps_def file_overlaps_prefix_def
    by (auto simp: bytes_compare_ge not_less not_le split: if_splits)
qed

lemma scanned_subset: "xs \<in> set (scanned p ms kvss) \<Longrightarrow> xs \<in> set kvss"
  by (auto simp: scanned_def dest: set_zip_rightD)

lemma scanned_has:
  assumes "list_all2 (holds_table E d) ms kvss" and "xs \<in> set kvss" and "kv \<in> set xs" and "has_prefix (fst kv) p"
  shows "xs \<in> set (scanned p ms kvss)"
proof -
  obtain i where i: "i < length kvss" "xs = kvss ! i" using assms(2) by (auto simp: in_set_conv_nth)
  then have l: "i < length ms" and h: "holds_table E d (ms ! i) xs" using assms(1) by (auto simp: list_all2_conv_all_nth)
  then have "overlaps p (ms ! i)" using not_overlapping [OF h _ assms(3)] assms(4) by blast
  moreover have "(ms ! i, xs) \<in> set (zip ms kvss)" using i l by (auto simp: in_set_zip)
  ultimately show ?thesis by (force simp: scanned_def)
qed

lemma total_scanned: "total (scanned p ms kvss) \<le> total kvss"
proof (induction kvss arbitrary: ms)
  case (Cons kvs kvss)
  show ?case
  proof (cases ms)
    case (Cons m ms')
    then show ?thesis using Cons.IH [of ms'] by (auto simp: scanned_def total_def)
  qed (simp add: scanned_def total_def)
qed (simp add: scanned_def total_def)

definition engine_tables :: "sst_env \<Rightarrow> engine \<Rightarrow> (bytes \<times> bytes) list list \<Rightarrow> bool" where
  "engine_tables E e kvss \<longleftrightarrow> list_all2 (holds_table E (en_disk e)) (concat (vr_levels (mf_current (en_man e)))) kvss"

lemma range_scan_merged:
  assumes "flate_ok E" and "eng_ok e" and "engine_tables E e kvss" and "total (mt_entries (active_mem e) # kvss) + 1 < fuel"
  shows "\<exists>out. range_scan fuel E p e = Some out \<and>
    merged p (mt_entries (active_mem e) # scanned p (concat (vr_levels (mf_current (en_man e)))) kvss) out"
proof -
  let ?ms = "concat (vr_levels (mf_current (en_man e)))"
  let ?Ls = "mt_entries (active_mem e) # scanned p ?ms kvss"
  obtain ts where ts: "table_sources (en_disk e) p ?ms = Ok ts" "list_all2 (yields E (en_heap e)) ts (scanned p ?ms kvss)"
    using table_sources_ok [OF assms(1) assms(3) [unfolded engine_tables_def]] by blast
  have ok: "mt_ok (en_heap e ! en_active e)" "en_list e = [en_active e]" using assms(2) by (simp_all add: eng_ok_def list_all_length)
  let ?ss = "Mem_iter (en_active e) None # ts"
  have ms: "mem_sources e @ ts = ?ss" by (simp add: mem_sources_def ok(2))
  have ys: "list_all2 (yields E (en_heap e)) ?ss ?Ls" using ts(2) yields_mem [OF ok(1)] by (simp add: active_mem_def)
  then have len: "length ?ss = length ?Ls" by (rule list_all2_lengthD)
  let ?st = "\<lparr>mg_prefix = p, mg_sources = ?ss, mg_heap = [], mg_key = [], mg_val = [], mg_closed = False\<rparr>"
  have none: "items (replicate n []) = {#}" for n by (simp add: items_def item_of_def)
  have i0: "merge_inv E (en_heap e) ?st (take 0 ?Ls @ replicate (length ?Ls - 0) [])"
    using len none by (simp add: merge_inv_def mi.is_heap_def del: replicate.simps)
  have "\<forall>j. 0 \<le> j \<and> j < length ?Ls \<longrightarrow> yields E (en_heap e) (mg_sources ?st ! j) (?Ls ! j)"
    using ys by (auto simp: list_all2_conv_all_nth)
  then obtain st where st: "fill_heap E (en_heap e) [0..<length ?Ls] ?st = Ok st" "merge_inv E (en_heap e) st ?Ls"
    "mg_prefix st = p" "\<not> mg_closed st"
    using fill_heap_ok [OF le0 i0] by auto
  have new: "new_merge_iterator E p e = Ok st"
    using st(1) unfolding new_merge_iterator_def ts(1) obind.simps Let_def ms len .
  have "\<forall>kvs \<in> set kvss. sorted_wrt (<) (map fst kvs)"
    using assms(3) by (auto simp: engine_tables_def list_all2_conv_all_nth in_set_conv_nth holds_table_def)
  then have asc: "ascending ?Ls" using active_sorted [OF assms(2)] scanned_subset by (auto simp: ascending_def)
  have "total ?Ls + 1 < fuel" using assms(4) total_scanned [of p ?ms kvss] by (simp add: total_def)
  then show ?thesis using mi_collect_ok [OF st(2) asc _ st(4)] st(3) new by (simp add: range_scan_def)
qed

subsection \<open>Properties\<close>

text \<open>
  The key range of a prefix is exact: a key starts with the prefix if and only if it is at least the
  prefix and below \<open>prefixUpperBound\<close>, where no bound (prefixes of 0xFF bytes only) means no upper limit.
\<close>

theorem prefix_upper_bound_exact:
  "has_prefix k p \<longleftrightarrow> p \<le> k \<and> (prefix_upper_bound p = [] \<or> k < prefix_upper_bound p)"
  by (rule prefix_range)

text \<open>
  C5. \<open>RangeScan\<close> over a memtable and any number of tables: the scan ends, its keys are strictly ascending,
  every pair it returns has the prefix, is no tombstone and comes from some source; and a live key whose
  sources all hold the same value is always returned with that value, tables that the overlap test skips
  included.
\<close>

theorem range_scan_sound_complete:
  assumes "flate_ok E" and "eng_ok e" and "engine_tables E e kvss" and "total (mt_entries (active_mem e) # kvss) + 1 < fuel"
  shows "\<exists>out. range_scan fuel E p e = Some out \<and> sorted_wrt (<) (map fst out) \<and>
    (\<forall>kv \<in> set out. has_prefix (fst kv) p \<and> snd kv \<noteq> tombstone \<and> (\<exists>xs \<in> set (mt_entries (active_mem e) # kvss). kv \<in> set xs)) \<and>
    (\<forall>k v. unanimous (mt_entries (active_mem e) # kvss) k v \<and> has_prefix k p \<and> v \<noteq> tombstone \<longrightarrow> (k, v) \<in> set out)"
proof -
  let ?ms = "concat (vr_levels (mf_current (en_man e)))"
  let ?M = "mt_entries (active_mem e)"
  let ?L = "?M # scanned p ?ms kvss"
  obtain out where out: "range_scan fuel E p e = Some out" "merged p ?L out" using range_scan_merged [OF assms] by blast
  have "\<forall>kvs \<in> set kvss. sorted_wrt (<) (map fst kvs)"
    using assms(3) by (auto simp: engine_tables_def list_all2_conv_all_nth in_set_conv_nth holds_table_def)
  then have asc: "ascending ?L" using active_sorted [OF assms(2)] scanned_subset by (auto simp: ascending_def)
  have all: "keep p kv \<and> (\<exists>xs \<in> set (?M # kvss). kv \<in> set xs)" if "kv \<in> set out" for kv
  proof -
    obtain xs where "xs \<in> set ?L" "kv \<in> set xs" "keep p kv" using merged_subset [OF out(2) \<open>kv \<in> set out\<close>] by blast
    moreover have "set ?L \<subseteq> set (?M # kvss)" using scanned_subset by auto
    ultimately show ?thesis by blast
  qed
  have una: "(k, v) \<in> set out" if u: "unanimous (?M # kvss) k v" "has_prefix k p" "v \<noteq> tombstone" for k v
  proof (rule merged_unanimous [OF out(2)])
    show "keep p (k, v)" using u by (simp add: keep_def is_tombstone_def)
    obtain xs where xs: "xs \<in> set (?M # kvss)" "(k, v) \<in> set xs" using u(1) by (auto simp: unanimous_def)
    have "xs \<in> set ?L"
    proof (cases "xs = ?M")
      case False
      then have "xs \<in> set kvss" using xs(1) by simp
      then show ?thesis using scanned_has [OF assms(3) [unfolded engine_tables_def] _ xs(2)] u(2) by simp
    qed simp
    moreover have "\<forall>xs \<in> set ?L. \<forall>v'. (k, v') \<in> set xs \<longrightarrow> v' = v" using u(1) scanned_subset unfolding unanimous_def by (metis set_ConsD list.set_intros)
    ultimately show "unanimous ?L k v" using xs(2) by (auto simp: unanimous_def)
  qed
  show ?thesis using out(1) merged_sorted [OF out(2) asc] all una by (intro exI [of _ out]) (auto simp: keep_def is_tombstone_def)
qed

lemma heap_small:
  "heap_push lss x [] = [x]" "heap_push lss x [y] = (if lss x y then [x, y] else [y, x])"
  "snd (heap_pop lss [x]) = []" "snd (heap_pop lss [x, y]) = [y]"
proof -
  have u0: "heap_up lss 0 zs = zs" for zs by (subst heap_up.simps) (simp add: parent_def)
  have u1: "heap_up lss (Suc 0) [y, x] = (if lss x y then [x, y] else [y, x])"
    by (subst heap_up.simps) (simp add: parent_def Let_def u0 swap_def)
  have d: "n \<le> 1 \<Longrightarrow> heap_down lss n 0 zs = zs" for n zs by (subst heap_down.simps) (simp add: Let_def)
  show "heap_push lss x [] = [x]" "heap_push lss x [y] = (if lss x y then [x, y] else [y, x])"
    by (simp_all add: heap_push_def u0 u1)
  show "snd (heap_pop lss [x]) = []" "snd (heap_pop lss [x, y]) = [y]"
    by (simp_all add: heap_pop_def Let_def d swap_def)
qed

lemma scan_two:
  fixes a b c :: bytes
  assumes "yields E hp s [(b, x), (c, new)]" and "yields E hp t [(a, y), (c, old)]" and "a < b" and "b < c"
    and "has_prefix a p" and "has_prefix b p" and "has_prefix c p" and "x \<noteq> tombstone" and "y \<noteq> tombstone" and "old \<noteq> tombstone"
  shows "\<exists>st. fill_heap E hp [0, 1] \<lparr>mg_prefix = p, mg_sources = [s, t], mg_heap = [], mg_key = [], mg_val = [], mg_closed = False\<rparr> = Ok st \<and>
     mi_collect 9 E hp st = Some [(a, y), (b, x), (c, old)]"
proof -
  obtain s1 s2 s3 where s: "ri_next E hp s = Ok (True, s1)" "ri_entry hp s1 = (b, x)" "ri_next E hp s1 = Ok (True, s2)"
    "ri_entry hp s2 = (c, new)" "ri_next E hp s2 = Ok (False, s3)" using assms(1) by auto
  obtain t1 t2 t3 where t: "ri_next E hp t = Ok (True, t1)" "ri_entry hp t1 = (a, y)" "ri_next E hp t1 = Ok (True, t2)"
    "ri_entry hp t2 = (c, old)" "ri_next E hp t2 = Ok (False, t3)" using assms(2) by auto
  have o: "\<not> b < a" "\<not> c < b" "a \<noteq> b" "b \<noteq> c" "a < c" "a \<noteq> c" "b \<noteq> a" "c \<noteq> b" "c \<noteq> a" "\<not> c < a" using assms(3,4) by auto
  have tb: "\<not> is_tombstone x" "\<not> is_tombstone y" "\<not> is_tombstone old" using assms(8-10) by (simp_all add: is_tombstone_def)
  let ?st = "\<lambda>ss h k v. \<lparr>mg_prefix = p, mg_sources = ss, mg_heap = h, mg_key = k, mg_val = v, mg_closed = False\<rparr>"
  let ?i = "\<lambda>k v n. \<lparr>mi_key = k, mi_val = v, mi_src = n\<rparr>"
  have 0: "fill_heap E hp [0, 1] (?st [s, t] [] [] []) = Ok (?st [s1, t1] [?i a y (Suc 0), ?i b x 0] [] [])"
    using assms(3) by (simp add: push_next_def s t heap_small mi_less_def)
  have 1: "mi_next (Suc (Suc n)) E hp (?st [s1, t1] [?i a y (Suc 0), ?i b x 0] [] []) = Some (Ok (True, ?st [s1, t2] [?i b x 0, ?i c old (Suc 0)] a y))" for n
    using o assms(3-7) tb by (simp add: push_next_def s t heap_small mi_less_def)
  have 2: "mi_next (Suc (Suc n)) E hp (?st [s1, t2] [?i b x 0, ?i c old (Suc 0)] a y) = Some (Ok (True, ?st [s2, t2] [?i c old (Suc 0), ?i c new 0] b x))" for n
    using o assms(3-7) tb by (simp add: push_next_def s t heap_small mi_less_def)
  have 3: "mi_next (Suc (Suc (Suc n))) E hp (?st [s2, t2] [?i c old (Suc 0), ?i c new 0] b x) = Some (Ok (True, ?st [s3, t3] [] c old))" for n
    using o assms(3-7) tb by (simp add: push_next_def s t heap_small mi_less_def)
  have e: "mi_next (Suc n) E hp (?st [s3, t3] [] c old) = Some (Ok (False, ?st [s3, t3] [] c old))" for n by simp
  have "mi_collect (Suc (Suc (Suc (Suc (Suc (Suc (Suc (Suc (Suc 0))))))))) E hp (?st [s1, t1] [?i a y (Suc 0), ?i b x 0] [] []) = Some [(a, y), (b, x), (c, old)]"
    using e by (simp add: 1 2 3 del: mi_next.simps)
  moreover have "9 = Suc (Suc (Suc (Suc (Suc (Suc (Suc (Suc (Suc 0))))))))" by simp
  ultimately show ?thesis using 0 by metis
qed

text \<open>
  But a scan can return an overwritten or deleted value: the heap compares keys only, so the comment's
  promise that the lowest source wins does not hold. With \<open>b\<close> and the newer \<open>c\<close> in the memtable and \<open>a\<close> and an
  older \<open>c\<close> in a table, the scan returns the old value of \<open>c\<close> although \<open>Get\<close> answers by the new one.
\<close>

theorem range_scan_returns_stale:
  assumes "flate_ok E" and "eng_ok e" and "mt_entries (active_mem e) = [(b, x), (c, new)]" and "engine_tables E e [[(a, y), (c, old)]]"
    and "a < b" and "b < c" and "has_prefix a p" and "has_prefix b p" and "has_prefix c p"
    and "x \<noteq> tombstone" and "y \<noteq> tombstone" and "old \<noteq> tombstone"
  shows "range_scan 9 E p e = Some [(a, y), (b, x), (c, old)] \<and>
    fst (eng_get E c e) = (if new = tombstone then Fail ErrNotFound else Ok new)"
proof -
  have ok: "mt_ok (en_heap e ! en_active e)" "en_list e = [en_active e]" using assms(2) by (simp_all add: eng_ok_def list_all_length)
  obtain m where m: "concat (vr_levels (mf_current (en_man e))) = [m]" "holds_table E (en_disk e) m [(a, y), (c, old)]"
    using assms(4) by (auto simp: engine_tables_def list_all2_Cons2)
  have "overlaps p m" using not_overlapping [OF m(2), of p "(a, y)"] assms(7) by auto
  then obtain t where t: "table_sources (en_disk e) p [m] = Ok [t]" "yields E (en_heap e) t [(a, y), (c, old)]"
    using table_sources_ok [OF assms(1), of "en_disk e" "[m]" "[[(a, y), (c, old)]]" p "en_heap e"] m(2)
    by (auto simp: scanned_def list_all2_Cons2)
  have s: "yields E (en_heap e) (Mem_iter (en_active e) None) [(b, x), (c, new)]"
    using yields_mem [OF ok(1)] assms(3) by (simp add: active_mem_def)
  obtain st where "fill_heap E (en_heap e) [0, 1] \<lparr>mg_prefix = p, mg_sources = [Mem_iter (en_active e) None, t], mg_heap = [],
      mg_key = [], mg_val = [], mg_closed = False\<rparr> = Ok st" "mi_collect 9 E (en_heap e) st = Some [(a, y), (b, x), (c, old)]"
    using scan_two [OF s t(2) assms(5-12)] by blast
  then have "range_scan 9 E p e = Some [(a, y), (b, x), (c, old)]"
    by (simp add: range_scan_def new_merge_iterator_def m(1) t(1) mem_sources_def ok(2) Let_def upt_conv_Cons del: table_sources.simps)
  moreover have "mt_get c (active_mem e) = Some new" using active_get [OF assms(2)] assms(3,6) by auto
  ultimately show ?thesis using eng_get_mem [OF assms(2)] by (simp add: is_tombstone_def)
qed

text \<open>An engine with the sample table on disk and a newer value of \<open>[2]\<close> in its memtable.\<close>

definition sample_newer :: memtable where
  "sample_newer = mt_insert [] [2] [9] (mt_insert [] [1, 5] [7] (new_memtable mem_max))"

definition sample_two_runs :: "bytes \<Rightarrow> engine" where
  "sample_two_runs data = sample_engine\<lparr>en_heap := [sample_newer],
     en_man := \<lparr>mf_version = 1, mf_current = \<lparr>vr_num = 1, vr_levels = [[flush_meta 1 data sample_kvs]]\<rparr>\<rparr>,
     en_disk := [file_name (flush_meta 1 data sample_kvs) \<mapsto> data]\<rparr>"

lemma sample_newer_entries: "mt_entries sample_newer = [([1, 5], [7]), ([2], [9])]"
  by code_simp

lemma sample_two_runs_ok:
  obtains data where "eng_ok (sample_two_runs data)" and "mt_entries (active_mem (sample_two_runs data)) = [([1, 5], [7]), ([2], [9])]"
    and "engine_tables id_env (sample_two_runs data) [sample_kvs]"
proof -
  obtain data where d: "sst_finish id_env (fold sst_add sample_kvs new_sst_writer) = Some data" "length data < 2 ^ 32"
    using sample_table by blast
  have "mt_ok sample_newer" unfolding sample_newer_def by (intro mem.put_inv new_memtable_ok(1))
  then have "eng_ok (sample_two_runs data)"
    by (simp add: eng_ok_def sample_two_runs_def sample_engine_def active_mem_def) (simp add: sample_newer_def)
  moreover have "mt_entries (active_mem (sample_two_runs data)) = [([1, 5], [7]), ([2], [9])]"
    by (simp add: sample_two_runs_def sample_engine_def active_mem_def sample_newer_entries)
  moreover have "fits sample_kvs" using sample_fits by (simp add: fits_def enc_entries_def)
  then have "engine_tables id_env (sample_two_runs data) [sample_kvs]"
    using d by (simp add: engine_tables_def holds_table_def sample_two_runs_def flush_meta_def) (simp add: sample_kvs_def)
  ultimately show ?thesis using that by blast
qed

theorem range_scan_sound_complete_witness:
  "\<exists>data out. range_scan 9 id_env [1] (sample_two_runs data) = Some out \<and> ([1], [10]) \<in> set out \<and> ([1, 5], [7]) \<in> set out \<and>
     (\<forall>kv \<in> set out. fst kv \<noteq> [2])"
proof -
  obtain data where d: "eng_ok (sample_two_runs data)" "mt_entries (active_mem (sample_two_runs data)) = [([1, 5], [7]), ([2], [9])]"
    "engine_tables id_env (sample_two_runs data) [sample_kvs]" by (rule sample_two_runs_ok)
  have t: "total (mt_entries (active_mem (sample_two_runs data)) # [sample_kvs]) + 1 < 9"
    by (simp add: d(2) total_def sample_kvs_def)
  obtain out where out: "range_scan 9 id_env [1] (sample_two_runs data) = Some out"
    "\<forall>kv \<in> set out. has_prefix (fst kv) [1]"
    "\<forall>k v. unanimous ([([1, 5], [7]), ([2], [9])] # [sample_kvs]) k v \<and> has_prefix k [1] \<and> v \<noteq> tombstone \<longrightarrow> (k, v) \<in> set out"
    using range_scan_sound_complete [OF id_env_ok d(1,3) t, of "[1]"] unfolding d(2) by blast
  have "([1], [10]) \<in> set out" "([1, 5], [7]) \<in> set out"
    using out(3) [rule_format, of "[1]" "[10]"] out(3) [rule_format, of "[1, 5]" "[7]"]
    by (auto simp: unanimous_def sample_kvs_def has_prefix_def tombstone_def)
  moreover have "\<forall>kv \<in> set out. fst kv \<noteq> [2]" using out(2) by (auto simp: has_prefix_def)
  ultimately show ?thesis using out(1) by blast
qed

theorem range_scan_returns_stale_witness:
  "\<exists>data. range_scan 9 id_env [] (sample_two_runs data) = Some [([1], [10]), ([1, 5], [7]), ([2], [])] \<and>
     fst (eng_get id_env [2] (sample_two_runs data)) = Ok [9]"
proof -
  obtain data where d: "eng_ok (sample_two_runs data)" "mt_entries (active_mem (sample_two_runs data)) = [([1, 5], [7]), ([2], [9])]"
    "engine_tables id_env (sample_two_runs data) [sample_kvs]" by (rule sample_two_runs_ok)
  have o: "([1] :: bytes) < [1, 5]" "([1, 5] :: bytes) < [2]" by simp_all
  have p: "has_prefix k []" for k by (simp add: has_prefix_def)
  have t: "([7] :: bytes) \<noteq> tombstone" "([10] :: bytes) \<noteq> tombstone" "([] :: bytes) \<noteq> tombstone" "([9] :: bytes) \<noteq> tombstone"
    by (simp_all add: tombstone_def)
  show ?thesis
    using range_scan_returns_stale [OF id_env_ok d(1,2) d(3) [unfolded sample_kvs_def] o p p p t(1-3)] t(4) by auto
qed

end
