(* ===== verification/Sys_Tx.thy ===== *)
theory Sys_Tx
  imports Ls_Engine Txn_Commit
begin

text \<open>
  Session transactions, \<open>internal/SYS/TX/tx.go\<close>: writes go straight to the engine, and the transaction keeps
  for every key it has seen the value to put back on rollback. The iteration order of the Go map \<open>writeSet\<close>
  and the skip-list coins of the writes are arguments.
\<close>

subsection \<open>State\<close>

record write_entry =
  we_existed :: bool
  we_value :: bytes

type_synonym write_set = "(bytes \<times> write_entry) list"

record savepoint =
  sp_name :: bytes
  sp_set :: write_set

record sys_tx =
  st_tx :: nat
  st_set :: write_set
  st_finished :: bool
  st_points :: "savepoint list"

datatype sys_error = ErrClosed | ErrTxAborted | ErrUnknownSavepoint | ErrVl tx_error

record session =
  se_closed :: bool
  se_engine :: engine
  se_txn :: txn_system

definition new_transaction :: "nat \<Rightarrow> sys_tx" where
  "new_transaction h = \<lparr>st_tx = h, st_set = [], st_finished = False, st_points = []\<rparr>"

subsection \<open>Operations\<close>

definition record_write :: "sst_env \<Rightarrow> bytes \<Rightarrow> sys_tx \<times> session \<Rightarrow> (sys_error, sys_tx \<times> session) outcome" where
  "record_write E key ts =
     (case ts of (t, s) \<Rightarrow>
        if st_finished t then Ok (t, s)
        else if map_of (st_set t) key \<noteq> None then Ok (t, s)
        else (case eng_get E key (se_engine s) of
                (Panic, e) \<Rightarrow> Panic
              | (Ok prev, e) \<Rightarrow> Ok (t\<lparr>st_set := (key, \<lparr>we_existed = True, we_value = prev\<rparr>) # st_set t\<rparr>, s\<lparr>se_engine := e\<rparr>)
              | (Fail _, e) \<Rightarrow> Ok (t\<lparr>st_set := (key, \<lparr>we_existed = False, we_value = []\<rparr>) # st_set t\<rparr>, s\<lparr>se_engine := e\<rparr>)))"

fun restore :: "(bytes \<Rightarrow> bool list) \<Rightarrow> write_set \<Rightarrow> engine \<Rightarrow> engine" where
  "restore flips [] e = e"
| "restore flips ((k, en) # ents) e =
     restore flips ents (if we_existed en then eng_insert (flips k) k (we_value en) e else eng_delete (flips k) k e)"

definition finish_tx :: "sys_tx \<Rightarrow> sys_tx" where
  "finish_tx t = t\<lparr>st_finished := True, st_set := [], st_points := []\<rparr>"

definition sys_commit :: "bool \<Rightarrow> wal_answers option \<Rightarrow> sys_tx \<times> session \<Rightarrow> sys_error option \<times> sys_tx \<times> session" where
  "sys_commit ctx wal ts =
     (case ts of (t, s) \<Rightarrow>
        if se_closed s then (Some ErrClosed, t, s)
        else if st_finished t then (Some ErrTxAborted, t, s)
        else (case tx_commit ctx wal (st_tx t) (se_txn s) of
                (Some e, txn) \<Rightarrow> (Some (ErrVl e), t, s\<lparr>se_txn := txn\<rparr>)
              | (None, txn) \<Rightarrow> (None, finish_tx t, s\<lparr>se_txn := txn\<rparr>)))"

definition sys_rollback ::
  "(write_set \<Rightarrow> write_set) \<Rightarrow> (bytes \<Rightarrow> bool list) \<Rightarrow> bool \<Rightarrow> sys_tx \<times> session \<Rightarrow> sys_error option \<times> sys_tx \<times> session" where
  "sys_rollback ord flips ctx ts =
     (case ts of (t, s) \<Rightarrow>
        if se_closed s then (Some ErrClosed, t, s)
        else if st_finished t then (Some ErrTxAborted, t, s)
        else let s1 = s\<lparr>se_engine := restore flips (ord (st_set t)) (se_engine s)\<rparr>
             in case tx_abort ctx (st_tx t) (se_txn s1) of
                  (Some e, txn) \<Rightarrow> (Some (ErrVl e), t, s1\<lparr>se_txn := txn\<rparr>)
                | (None, txn) \<Rightarrow> (None, finish_tx t, s1\<lparr>se_txn := txn\<rparr>))"

definition sys_savepoint :: "bytes \<Rightarrow> sys_tx \<times> session \<Rightarrow> sys_error option \<times> sys_tx \<times> session" where
  "sys_savepoint name ts =
     (case ts of (t, s) \<Rightarrow>
        if se_closed s then (Some ErrClosed, t, s)
        else if name = [] then (Some ErrUnknownSavepoint, t, s)
        else if st_finished t then (Some ErrTxAborted, t, s)
        else (None, t\<lparr>st_points := st_points t @ [\<lparr>sp_name = name, sp_set = st_set t\<rparr>]\<rparr>, s))"

text \<open>The last savepoint of that name: the savepoints before it, and its write set.\<close>

fun find_point :: "bytes \<Rightarrow> savepoint list \<Rightarrow> (savepoint list \<times> write_set) option" where
  "find_point name [] = None"
| "find_point name (p # ps) =
     (case find_point name ps of
        Some (before, ws) \<Rightarrow> Some (p # before, ws)
      | None \<Rightarrow> if sp_name p = name then Some ([], sp_set p) else None)"

definition sys_rollback_to ::
  "(write_set \<Rightarrow> write_set) \<Rightarrow> (bytes \<Rightarrow> bool list) \<Rightarrow> bytes \<Rightarrow> sys_tx \<times> session \<Rightarrow> sys_error option \<times> sys_tx \<times> session" where
  "sys_rollback_to ord flips name ts =
     (case ts of (t, s) \<Rightarrow>
        if se_closed s then (Some ErrClosed, t, s)
        else if st_finished t then (Some ErrTxAborted, t, s)
        else (case find_point name (st_points t) of
                None \<Rightarrow> (Some ErrUnknownSavepoint, t, s)
              | Some (before, target) \<Rightarrow>
                  let ents = filter (\<lambda>(k, en). map_of target k = None) (ord (st_set t))
                  in (None, t\<lparr>st_set := target, st_points := before\<rparr>, s\<lparr>se_engine := restore flips ents (se_engine s)\<rparr>)))"

text \<open>
  A write of a statement as the executor does it (\<open>Insert.Next\<close>, \<open>Update.Next\<close> and \<open>Delete.Next\<close> of
  \<open>SQL/EX/writers.go\<close>): the store first, then \<open>RecordWrite\<close>; a delete writes the tombstone.
\<close>

definition exec_write :: "sst_env \<Rightarrow> bool list \<times> bytes \<times> bytes \<Rightarrow> sys_tx \<times> session \<Rightarrow> (sys_error, sys_tx \<times> session) outcome" where
  "exec_write E w ts =
     (case (w, ts) of ((fl, k, v), (t, s)) \<Rightarrow> record_write E k (t, s\<lparr>se_engine := eng_write fl k v (se_engine s)\<rparr>))"

text \<open>The order that the comment on \<open>RecordWrite\<close> asks for.\<close>

definition noted_write :: "sst_env \<Rightarrow> bool list \<times> bytes \<times> bytes \<Rightarrow> sys_tx \<times> session \<Rightarrow> (sys_error, sys_tx \<times> session) outcome" where
  "noted_write E w ts =
     (case w of (fl, k, v) \<Rightarrow> obind (record_write E k ts) (\<lambda>(t, s). Ok (t, s\<lparr>se_engine := eng_write fl k v (se_engine s)\<rparr>)))"

fun do_writes :: "(bool list \<times> bytes \<times> bytes \<Rightarrow> sys_tx \<times> session \<Rightarrow> (sys_error, sys_tx \<times> session) outcome) \<Rightarrow>
    (bool list \<times> bytes \<times> bytes) list \<Rightarrow> sys_tx \<times> session \<Rightarrow> (sys_error, sys_tx \<times> session) outcome" where
  "do_writes f [] ts = Ok ts"
| "do_writes f (w # ws) ts = obind (f w ts) (do_writes f ws)"

subsection \<open>Room in the memtable\<close>

definition room :: "int \<Rightarrow> engine \<Rightarrow> bool" where
  "room n e \<longleftrightarrow> 0 \<le> mt_size (active_mem e) \<and> mt_size (active_mem e) + n < mt_max (active_mem e) \<and> mt_max (active_mem e) \<le> 2 ^ 62 \<and> 0 \<le> n"

lemma room_no_flush: "room (int (length k + length v)) e \<Longrightarrow> no_flush k v e"
  using wrap64_id [of "mt_size (active_mem e) + int (length k + length v)"] by (simp add: room_def no_flush_def)

lemma write_keeps_memtable:
  assumes "eng_ok e" and "no_flush k v e"
  shows "eng_write fl k v e = insert_active fl k v e"
proof -
  have act: "active_mem (insert_active fl k v e) = mt_insert fl k v (active_mem e)" by (rule insert_active_ok(2) [OF assms(1)])
  then show ?thesis using assms(2) by (simp add: eng_write_alt Let_def mt_insert_def no_flush_def)
qed

lemma room_write:
  assumes "eng_ok e" and "room (n + int (length k + length v)) e" and "0 \<le> n"
  shows "room n (eng_write fl k v e)" and "no_flush k v e"
proof -
  have r: "room (int (length k + length v)) e" using assms(2,3) by (simp add: room_def)
  show nf: "no_flush k v e" by (rule room_no_flush [OF r])
  have "wrap64 (mt_size (active_mem e) + int (length k + length v)) = mt_size (active_mem e) + int (length k + length v)"
    using r by (intro wrap64_id) (auto simp: room_def)
  then have "mt_size (mt_insert fl k v (active_mem e)) = mt_size (active_mem e) + int (length k + length v)"
    by (simp add: mt_insert_def)
  then show "room n (eng_write fl k v e)"
    using assms write_keeps_memtable [OF assms(1) nf] insert_active_ok(2) [OF assms(1)] by (simp add: room_def)
qed

subsection \<open>What the write set remembers\<close>

definition write_cost :: "(bool list \<times> bytes \<times> bytes) list \<Rightarrow> int" where
  "write_cost ws = sum_list (map (\<lambda>(fl, k, v). int (length k + length v)) ws)"

definition undo_list :: "(bytes \<Rightarrow> bool list) \<Rightarrow> write_set \<Rightarrow> (bool list \<times> bytes \<times> bytes option) list" where
  "undo_list flips ents = map (\<lambda>(k, en). (flips k, k, if we_existed en then Some (we_value en) else None)) ents"

definition undo_cost :: "write_set \<Rightarrow> int" where
  "undo_cost ents = sum_list (map (\<lambda>(k, en). int (length k + (if we_existed en then length (we_value en) else 4))) ents)"

definition tables_read :: "sst_env \<Rightarrow> engine \<Rightarrow> bool" where
  "tables_read E e \<longleftrightarrow> (\<forall>k. fst (read_from_sst E k e) \<noteq> Panic)"

lemma write_cost_nonneg: "0 \<le> write_cost ws"
  by (auto simp: write_cost_def intro!: sum_list_nonneg)

lemma room_ready: "eng_ok e \<Longrightarrow> room (write_cost ws) e \<Longrightarrow> eng.ready_all ws e"
proof (induction ws arbitrary: e)
  case (Cons w ws)
  obtain fl k v where w: "w = (fl, k, v)" by (cases w)
  have r: "room (write_cost ws + int (length k + length v)) e" using Cons.prems(2) by (simp add: write_cost_def w add.commute)
  show ?case using Cons.IH [OF eng_write_ok [OF Cons.prems(1)] room_write(1) [OF Cons.prems(1) r write_cost_nonneg]]
      room_write(2) [OF Cons.prems(1) r write_cost_nonneg] by (simp add: w)
qed simp

lemma restore_put_all: "restore flips ents e = eng.put_all (eng.undo (undo_list flips ents)) e"
  by (induction ents arbitrary: e)
    (auto simp: eng.put_all_def eng.undo_def undo_list_def eng_insert_def eng_delete_def)

lemma undo_write_cost: "write_cost (eng.undo (undo_list flips ents)) = undo_cost ents"
proof (induction ents)
  case (Cons a ents)
  have t: "length tombstone = 4" by (simp add: tombstone_def)
  obtain k en where a: "a = (k, en)" by (cases a)
  show ?case using Cons t unfolding write_cost_def eng.undo_def undo_list_def undo_cost_def a by simp
qed (simp add: write_cost_def eng.undo_def undo_list_def undo_cost_def)

lemma stats_same:
  assumes "eng_ok e"
  shows "eng_ok (e\<lparr>en_stats := st\<rparr>)" and "eng.live E (e\<lparr>en_stats := st\<rparr>) = eng.live E e" and "room n (e\<lparr>en_stats := st\<rparr>) = room n e"
    and "tables_read E (e\<lparr>en_stats := st\<rparr>) = tables_read E e"
proof -
  let ?e = "e\<lparr>en_stats := st\<rparr>"
  show ok: "eng_ok ?e" using assms by (simp add: eng_ok_def active_mem_def)
  have act: "active_mem ?e = active_mem e" by (simp add: active_mem_def)
  have r: "read_from_sst E k ?e = read_from_sst E k e" for k by (rule read_from_sst_cong) simp_all
  have "sst_view E ?e = sst_view E e" by (rule ext) (simp add: sst_view_def r)
  then have "eng_look E k ?e = eng_look E k e" for k
    by (simp add: eng.look [OF ok] eng.look [OF assms] eng_view_def act)
  then show "eng.live E ?e = eng.live E e" by (intro ext) (simp add: eng.live_def)
  show "room n ?e = room n e" by (simp add: room_def act)
  show "tables_read E ?e = tables_read E e" by (simp add: tables_read_def r)
qed

lemma get_stats: "\<exists>st. snd (eng_get E k e) = e\<lparr>en_stats := st\<rparr>"
proof -
  have "\<exists>st. snd (eng_read E k e) = e\<lparr>en_stats := st\<rparr>"
    by (cases "mem_lookup e k (read_order e)"; cases "read_from_sst E k e") (auto simp: eng_read_def Let_def)
  moreover have "snd (eng_get E k e) = snd (eng_read E k e)" by (simp add: eng_get_def split: prod.split outcome.split)
  ultimately show ?thesis by simp
qed

lemma get_no_panic: "eng_ok e \<Longrightarrow> tables_read E e \<Longrightarrow> fst (eng_get E k e) \<noteq> Panic"
  using eng_read_ok [of e E k] by (cases "eng_read E k e") (auto simp: eng_get_def tables_read_def split: outcome.split option.splits)

text \<open>
  The entry of a key in the write set is \<open>base\<close>, the value to go back to; a key without an entry still
  has its value \<open>orig\<close> from before the transaction.
\<close>

definition remembers :: "sst_env \<Rightarrow> (bytes \<Rightarrow> bytes option) \<Rightarrow> (bytes \<Rightarrow> bytes option) \<Rightarrow> int \<Rightarrow> sys_tx \<times> session \<Rightarrow> bool" where
  "remembers E base orig n ts \<longleftrightarrow>
     (case ts of (t, s) \<Rightarrow>
        eng_ok (se_engine s) \<and> tables_read E (se_engine s) \<and> room n (se_engine s) \<and> \<not> st_finished t \<and> distinct (map fst (st_set t)) \<and>
        (\<forall>k en. map_of (st_set t) k = Some en \<longrightarrow> base k = (if we_existed en then Some (we_value en) else None) \<and>
           (we_existed en \<longrightarrow> we_value en \<noteq> tombstone)) \<and>
        (\<forall>k. map_of (st_set t) k = None \<longrightarrow> eng.live E (se_engine s) k = orig k))"

lemma record_write_remembers:
  assumes "remembers E base orig n (t, s)" and "map_of (st_set t) k = None \<Longrightarrow> eng.live E (se_engine s) k = base k"
  shows "\<exists>t' s'. record_write E k (t, s) = Ok (t', s') \<and> remembers E base orig n (t', s') \<and>
    (map_of (st_set t') k \<noteq> None) \<and> (\<forall>k'. k' \<noteq> k \<longrightarrow> map_of (st_set t') k' = map_of (st_set t) k') \<and>
    se_closed s' = se_closed s \<and> se_txn s' = se_txn s \<and> st_points t' = st_points t \<and> st_tx t' = st_tx t"
proof (cases "map_of (st_set t) k")
  case (Some en)
  then show ?thesis using assms(1) by (auto simp: record_write_def remembers_def)
next
  case None
  note r = assms(1) [unfolded remembers_def, simplified]
  obtain res e where g: "eng_get E k (se_engine s) = (res, e)" by (cases "eng_get E k (se_engine s)")
  obtain st where e: "e = (se_engine s)\<lparr>en_stats := st\<rparr>" using get_stats [of E k "se_engine s"] g by auto
  have np: "res \<noteq> Panic" using get_no_panic [of "se_engine s" E k] r g by simp
  have l: "result_value res = base k" using assms(2) [OF None] g by (simp add: eng_get_live)
  have tomb: "res = Ok v \<Longrightarrow> v \<noteq> tombstone" for v using eng.live_not_tomb [of E "se_engine s" k v] g by (simp add: eng_get_live)
  let ?en = "\<lparr>we_existed = (\<exists>v. res = Ok v), we_value = (case res of Ok v \<Rightarrow> v | _ \<Rightarrow> [])\<rparr>"
  let ?t = "t\<lparr>st_set := (k, ?en) # st_set t\<rparr>" and ?s = "s\<lparr>se_engine := e\<rparr>"
  have "record_write E k (t, s) = Ok (?t, ?s)"
    using None g np r by (cases res) (auto simp: record_write_def)
  moreover have "remembers E base orig n (?t, ?s)"
    using r l tomb np None stats_same [of "se_engine s"] unfolding remembers_def e
    by (cases res) (auto simp: map_of_eq_None_iff [of "st_set t" k] split: if_splits)
  ultimately show ?thesis by auto
qed

lemma write_remembers:
  assumes "remembers E base orig (n + int (length k + length v)) (t, s)" and "0 \<le> n" and "map_of (st_set t) k \<noteq> None"
  shows "remembers E base orig n (t, s\<lparr>se_engine := eng_write fl k v (se_engine s)\<rparr>)"
proof -
  note r = assms(1) [unfolded remembers_def, simplified]
  have ok: "eng_ok (se_engine s)" using r by blast
  have rm: "room (n + int (length k + length v)) (se_engine s)" using r by simp
  note w = room_write [OF ok rm assms(2)]
  have "eng.live E (eng_write fl k v (se_engine s)) k' = eng.live E (se_engine s) k'" if "k' \<noteq> k" for k'
    using eng.live_put [OF ok w(2), of E fl] that by simp
  moreover have "tables_read E (eng_write fl k v (se_engine s))"
    using r read_from_sst_cong [of "eng_write fl k v (se_engine s)" "se_engine s"] write_keeps_memtable [OF ok w(2), of fl]
    by (auto simp: tables_read_def insert_active_def)
  moreover have "k' \<noteq> k" if "map_of (st_set t) k' = None" for k' using that assms(3) by auto
  ultimately show ?thesis using r w(1) eng_write_ok [OF ok] by (simp add: remembers_def)
qed

lemma write_cost_Cons [simp]: "write_cost ((fl, k, v) # ws) = write_cost ws + int (length k + length v)"
  by (simp add: write_cost_def)

lemma noted_remembers:
  "remembers E base base (n + write_cost ws) (t, s) \<Longrightarrow> 0 \<le> n \<Longrightarrow>
   \<exists>t' s'. do_writes (noted_write E) ws (t, s) = Ok (t', s') \<and> remembers E base base n (t', s') \<and>
     (\<forall>k. map_of (st_set t') k = None \<longleftrightarrow> map_of (st_set t) k = None \<and> k \<notin> fst ` snd ` set ws) \<and>
     (\<forall>k. map_of (st_set t) k \<noteq> None \<longrightarrow> map_of (st_set t') k = map_of (st_set t) k) \<and>
     se_closed s' = se_closed s \<and> se_txn s' = se_txn s \<and> st_points t' = st_points t \<and> st_tx t' = st_tx t"
proof (induction ws arbitrary: t s)
  case Nil
  then show ?case by (simp add: write_cost_def)
next
  case (Cons w ws)
  obtain fl k v where w: "w = (fl, k, v)" by (cases w)
  let ?m = "n + write_cost ws"
  have r: "remembers E base base (?m + int (length k + length v)) (t, s)" using Cons.prems(1) by (simp add: w add.assoc)
  have m0: "0 \<le> ?m" using Cons.prems(2) write_cost_nonneg [of ws] by simp
  have live: "map_of (st_set t) k = None \<Longrightarrow> eng.live E (se_engine s) k = base k" using r by (simp add: remembers_def)
  obtain t1 s1 where 1: "record_write E k (t, s) = Ok (t1, s1)" "remembers E base base (?m + int (length k + length v)) (t1, s1)"
    "map_of (st_set t1) k \<noteq> None" "\<forall>k'. k' \<noteq> k \<longrightarrow> map_of (st_set t1) k' = map_of (st_set t) k'"
    "se_closed s1 = se_closed s" "se_txn s1 = se_txn s" "st_points t1 = st_points t" "st_tx t1 = st_tx t"
    using record_write_remembers [OF r live] by blast
  have "record_write E k (t, s) = Ok (t, s)" if "map_of (st_set t) k \<noteq> None"
    using that r by (simp add: record_write_def remembers_def)
  then have keep: "map_of (st_set t) k \<noteq> None \<longrightarrow> t1 = t" using 1(1) by simp
  let ?s = "s1\<lparr>se_engine := eng_write fl k v (se_engine s1)\<rparr>"
  obtain t' s' where 2: "do_writes (noted_write E) ws (t1, ?s) = Ok (t', s')" "remembers E base base n (t', s')"
     "\<forall>k. map_of (st_set t') k = None \<longleftrightarrow> map_of (st_set t1) k = None \<and> k \<notin> fst ` snd ` set ws"
     "\<forall>k. map_of (st_set t1) k \<noteq> None \<longrightarrow> map_of (st_set t') k = map_of (st_set t1) k"
     "se_closed s' = se_closed ?s" "se_txn s' = se_txn ?s" "st_points t' = st_points t1" "st_tx t' = st_tx t1"
    using Cons.IH [OF write_remembers [OF 1(2) m0 1(3)] Cons.prems(2)] by blast
  have "do_writes (noted_write E) (w # ws) (t, s) = Ok (t', s')" using 1(1) 2(1) by (simp add: w noted_write_def)
  moreover have "map_of (st_set t') k' = None \<longleftrightarrow> map_of (st_set t) k' = None \<and> k' \<notin> fst ` snd ` set (w # ws)" for k'
    using 1(3,4) 2(3) by (cases "k' = k") (auto simp: w)
  moreover have "map_of (st_set t) k' \<noteq> None \<longrightarrow> map_of (st_set t') k' = map_of (st_set t) k'" for k'
    using 1(4) 2(4) keep by (cases "k' = k") auto
  ultimately show ?case using 1(5-) 2(2,5-) by simp
qed

lemma exec_remembers:
  "remembers E base orig (n + write_cost ws) (t, s) \<Longrightarrow> 0 \<le> n \<Longrightarrow>
   (\<And>k. map_of (st_set t) k = None \<Longrightarrow> base k = (case map_of (map snd ws) k of Some v \<Rightarrow> if v = tombstone then None else Some v | None \<Rightarrow> orig k)) \<Longrightarrow>
   \<exists>t' s'. do_writes (exec_write E) ws (t, s) = Ok (t', s') \<and> remembers E base orig n (t', s') \<and>
     (\<forall>k. map_of (st_set t') k = None \<longleftrightarrow> map_of (st_set t) k = None \<and> k \<notin> fst ` snd ` set ws) \<and>
     se_closed s' = se_closed s \<and> se_txn s' = se_txn s \<and> st_tx t' = st_tx t"
proof (induction ws arbitrary: t s)
  case Nil
  then show ?case by (simp add: write_cost_def)
next
  case (Cons w ws)
  obtain fl k v where w: "w = (fl, k, v)" by (cases w)
  let ?m = "n + write_cost ws"
  have r: "remembers E base orig (?m + int (length k + length v)) (t, s)" using Cons.prems(1) by (simp add: w add.assoc)
  have m0: "0 \<le> ?m" using Cons.prems(2) write_cost_nonneg [of ws] by simp
  note u = r [unfolded remembers_def, simplified]
  have ok: "eng_ok (se_engine s)" and rm: "room (?m + int (length k + length v)) (se_engine s)" using u by auto
  note rw = room_write [OF ok rm m0]
  let ?e = "eng_write fl k v (se_engine s)"
  let ?s = "s\<lparr>se_engine := ?e\<rparr>"
  let ?o = "\<lambda>k'. if k' = k then base k else orig k'"
  have live: "eng.live E ?e = (if v = tombstone then (eng.live E (se_engine s))(k := None) else (eng.live E (se_engine s))(k \<mapsto> v))"
    by (rule eng.live_put [OF ok rw(2)])
  have tr: "tables_read E ?e"
    using u read_from_sst_cong [of ?e "se_engine s"] write_keeps_memtable [OF ok rw(2), of fl]
    by (auto simp: tables_read_def insert_active_def)
  have bk: "map_of (st_set t) k = None \<Longrightarrow> base k = (if v = tombstone then None else Some v)" using Cons.prems(3) [of k] by (simp add: w)
  have r1: "remembers E base ?o ?m (t, ?s)"
    using u rw(1) eng_write_ok [OF ok, of fl k v] tr live bk by (auto simp: remembers_def)
  have l1: "map_of (st_set t) k = None \<Longrightarrow> eng.live E (se_engine ?s) k = base k" using live bk by simp
  obtain t1 s1 where 1: "record_write E k (t, ?s) = Ok (t1, s1)" "remembers E base ?o ?m (t1, s1)"
    "map_of (st_set t1) k \<noteq> None" "\<forall>k'. k' \<noteq> k \<longrightarrow> map_of (st_set t1) k' = map_of (st_set t) k'"
    "se_closed s1 = se_closed ?s" "se_txn s1 = se_txn ?s" "st_tx t1 = st_tx t"
    using record_write_remembers [OF r1 l1] by blast
  have r2: "remembers E base orig ?m (t1, s1)" using 1(2,3) by (auto simp: remembers_def split: if_splits)
  have b2: "base k' = (case map_of (map snd ws) k' of Some v \<Rightarrow> if v = tombstone then None else Some v | None \<Rightarrow> orig k')"
    if "map_of (st_set t1) k' = None" for k'
  proof -
    have ne: "k' \<noteq> k" using that 1(3) by auto
    then have "map_of (st_set t) k' = None" using that 1(4) by simp
    then show ?thesis using Cons.prems(3) [of k'] ne by (simp add: w)
  qed
  obtain t' s' where 2: "do_writes (exec_write E) ws (t1, s1) = Ok (t', s')" "remembers E base orig n (t', s')"
     "\<forall>k. map_of (st_set t') k = None \<longleftrightarrow> map_of (st_set t1) k = None \<and> k \<notin> fst ` snd ` set ws"
     "se_closed s' = se_closed s1" "se_txn s' = se_txn s1" "st_tx t' = st_tx t1"
    using Cons.IH [OF r2 Cons.prems(2) b2] by blast
  have "do_writes (exec_write E) (w # ws) (t, s) = Ok (t', s')" using 1(1) 2(1) by (simp add: w exec_write_def)
  moreover have "map_of (st_set t') k' = None \<longleftrightarrow> map_of (st_set t) k' = None \<and> k' \<notin> fst ` snd ` set (w # ws)" for k'
    using 1(3,4) 2(3) by (cases "k' = k") (auto simp: w)
  ultimately show ?case using 1(5-) 2(2,4-) by simp
qed

subsection \<open>Restoring\<close>

lemma map_of_perm: "mset xs = mset ys \<Longrightarrow> distinct (map fst xs) \<Longrightarrow> map_of xs = map_of ys"
proof -
  assume m: "mset xs = mset ys" and d: "distinct (map fst xs)"
  have "distinct (map fst ys)" using m d by (metis mset_map mset_eq_imp_distinct_iff)
  moreover have "set xs = set ys" using m by (metis set_mset_mset)
  ultimately show ?thesis using d by (intro map_of_eqI) (auto simp: map_of_eq_Some_iff [OF d] intro: map_of_is_SomeI [symmetric] dest!: map_of_SomeD)
qed

lemma restore_live:
  assumes "eng_ok e" and "room (undo_cost ents) e" and "distinct (map fst ents)"
    and "\<And>k en. (k, en) \<in> set ents \<Longrightarrow> we_existed en \<Longrightarrow> we_value en \<noteq> tombstone"
  shows "eng_ok (restore flips ents e)" and "eng.live E (restore flips ents e) k =
    (case map_of ents k of Some en \<Rightarrow> if we_existed en then Some (we_value en) else None | None \<Rightarrow> eng.live E e k)"
proof -
  let ?u = "undo_list flips ents"
  have rd: "eng.ready_all (eng.undo ?u) e" using room_ready [OF assms(1), of "eng.undo ?u"] assms(2) by (simp add: undo_write_cost)
  show "eng_ok (restore flips ents e)" unfolding restore_put_all by (rule eng.put_all_inv [OF assms(1)])
  have "map fst (map snd ?u) = map fst ents" by (simp add: undo_list_def split_beta)
  then have d: "distinct (map fst (map snd ?u))" using assms(3) by simp
  have t: "v \<noteq> tombstone" if "(k, Some v) \<in> snd ` set ?u" for k v
    using that assms(4) by (auto simp: undo_list_def split: if_splits) metis
  have m: "map_of (map snd ?u) k = map_option (\<lambda>en. if we_existed en then Some (we_value en) else None) (map_of ents k)"
    by (induction ents) (auto simp: undo_list_def)
  show "eng.live E (restore flips ents e) k =
    (case map_of ents k of Some en \<Rightarrow> if we_existed en then Some (we_value en) else None | None \<Rightarrow> eng.live E e k)"
    using eng.undo_live [OF assms(1) rd d t, where k = k and E = E] m unfolding restore_put_all by (simp split: option.splits)
qed

definition permutes :: "(write_set \<Rightarrow> write_set) \<Rightarrow> bool" where
  "permutes ord \<longleftrightarrow> (\<forall>xs. mset (ord xs) = mset xs)"

lemma undo_cost_perm: "mset xs = mset ys \<Longrightarrow> undo_cost xs = undo_cost ys"
proof -
  assume m: "mset xs = mset ys"
  have "undo_cost xs = sum_mset (image_mset (\<lambda>(k, en). int (length k + (if we_existed en then length (we_value en) else 4))) (mset xs))" for xs
    by (induction xs) (auto simp: undo_cost_def)
  then show ?thesis using m by simp
qed

lemma undo_cost_filter: "undo_cost (filter P xs) \<le> undo_cost xs" "0 \<le> undo_cost (filter P xs)"
proof -
  have "0 \<le> undo_cost (filter P xs) \<and> undo_cost (filter P xs) \<le> undo_cost xs" by (induction xs) (auto simp: undo_cost_def)
  then show "undo_cost (filter P xs) \<le> undo_cost xs" "0 \<le> undo_cost (filter P xs)" by auto
qed

lemma rollback_effect:
  assumes "remembers E base orig n (t, s)" and "permutes ord" and "\<not> se_closed s" and "room (undo_cost (st_set t)) (se_engine s)"
  shows "\<exists>t' s'. sys_rollback ord flips False (t, s) = (None, t', s') \<and> st_finished t' \<and>
    (\<forall>k. eng.live E (se_engine s') k = (if map_of (st_set t) k = None then orig k else base k))"
proof -
  note r = assms(1) [unfolded remembers_def, simplified]
  have m: "mset (ord (st_set t)) = mset (st_set t)" using assms(2) by (simp add: permutes_def)
  have d: "distinct (map fst (ord (st_set t)))" using r m by (metis mset_map mset_eq_imp_distinct_iff)
  have mp: "map_of (ord (st_set t)) = map_of (st_set t)" by (rule map_of_perm [OF m d])
  have tb: "we_value en \<noteq> tombstone" if "(k, en) \<in> set (ord (st_set t))" "we_existed en" for k en
    using r that map_of_is_SomeI [OF d that(1)] mp by auto
  have ok: "eng_ok (se_engine s)" using r by blast
  have rm: "room (undo_cost (ord (st_set t))) (se_engine s)" using assms(4) undo_cost_perm [OF m] by simp
  have live: "eng.live E (restore flips (ord (st_set t)) (se_engine s)) k = (if map_of (st_set t) k = None then orig k else base k)" for k
    using restore_live(2) [OF ok rm d tb, where flips = flips and E = E and k = k] r mp by (auto split: option.split)
  obtain txn where ab: "tx_abort False (st_tx t) (se_txn s) = (None, txn)"
    by (cases "tx_finished (ts_txs (se_txn s) ! st_tx t)") (auto simp: tx_abort_def abort_mark_def)
  show ?thesis using r live assms(3) ab by (simp add: sys_rollback_def finish_tx_def)
qed

lemma new_remembers:
  assumes "eng_ok (se_engine s)" and "tables_read E (se_engine s)" and "room n (se_engine s)"
  shows "remembers E base (eng.live E (se_engine s)) n (new_transaction h, s)"
  using assms by (simp add: remembers_def new_transaction_def)

text \<open>The bytes that putting back the keys of a run of writes takes.\<close>

definition undo_need :: "(bytes \<Rightarrow> bytes option) \<Rightarrow> (bool list \<times> bytes \<times> bytes) list \<Rightarrow> int" where
  "undo_need base ws = (\<Sum>k \<in> fst ` snd ` set ws. int (length k + (case base k of Some v \<Rightarrow> length v | None \<Rightarrow> 4)))"

lemma undo_cost_need:
  assumes "remembers E base orig n (t, s)" and "\<And>k. map_of (st_set t) k \<noteq> None \<Longrightarrow> k \<in> fst ` snd ` set ws"
  shows "undo_cost (st_set t) \<le> undo_need base ws"
proof -
  let ?c = "\<lambda>k. int (length k + (case base k of Some v \<Rightarrow> length v | None \<Rightarrow> 4))"
  have d: "distinct (map fst (st_set t))" and b: "\<And>k en. map_of (st_set t) k = Some en \<Longrightarrow> base k = (if we_existed en then Some (we_value en) else None)"
    using assms(1) by (auto simp: remembers_def simp del: map_of_eq_Some_iff)
  have "undo_cost (st_set t) = sum_list (map ?c (map fst (st_set t)))"
    unfolding undo_cost_def map_map
  proof (rule arg_cong [of _ _ sum_list], rule map_cong [OF refl])
    fix x assume x: "x \<in> set (st_set t)"
    obtain k en where k: "x = (k, en)" by (cases x)
    have "base k = (if we_existed en then Some (we_value en) else None)" using b [of k en] map_of_is_SomeI [OF d] x k by simp
    then show "(case x of (k, en) \<Rightarrow> int (length k + (if we_existed en then length (we_value en) else 4))) = (?c \<circ> fst) x"
      by (simp add: k)
  qed
  also have "\<dots> = sum ?c (fst ` set (st_set t))" using sum_list_distinct_conv_sum_set [OF d, of ?c] by simp
  also have "\<dots> \<le> undo_need base ws" unfolding undo_need_def
    using assms(2) by (intro sum_mono2) (force simp: map_of_eq_None_iff)+
  finally show ?thesis .
qed

lemma remembers_room: "remembers E base orig n (t, s) \<Longrightarrow> m \<le> n \<Longrightarrow> 0 \<le> m \<Longrightarrow> room m (se_engine s)"
  by (simp add: remembers_def room_def)

lemma undo_cost_nonneg: "0 \<le> undo_cost xs" "0 \<le> undo_need base ws"
  using undo_cost_filter(2) [of "\<lambda>_. True" xs] by (auto simp: undo_need_def intro!: sum_nonneg)

text \<open>
  C40. Rollback keeps its promise towards a caller that reports a key before it writes it, as long as nothing is
  flushed: when the active memtable has room for the writes of the transaction and for the undo of each key it wrote,
  and the tables can be read without a panic, then every key has the value again that \<open>Get\<close> returned before the
  transaction, whatever the order in which the write set is visited, and however often the transaction wrote the key
  within that room. When the memtable fills up meanwhile, its values cannot be read until
  it is flushed, and a flush may bring older values back: then rollback promises nothing.
\<close>

theorem rollback_restores:
  fixes E s
  defines "before \<equiv> \<lambda>k. result_value (fst (eng_get E k (se_engine s)))"
  assumes "eng_ok (se_engine s)" and "tables_read E (se_engine s)" and "room (undo_need before ws + write_cost ws) (se_engine s)"
    and "\<not> se_closed s" and "permutes ord"
  shows "\<exists>t' s' t'' s''. do_writes (noted_write E) ws (new_transaction h, s) = Ok (t', s') \<and>
    sys_rollback ord flips False (t', s') = (None, t'', s'') \<and>
    (\<forall>k. result_value (fst (eng_get E k (se_engine s''))) = before k)"
proof -
  have bf: "before = eng.live E (se_engine s)" by (rule ext) (simp add: before_def eng_get_live)
  have "remembers E before before (undo_need before ws + write_cost ws) (new_transaction h, s)"
    using new_remembers [OF assms(2-4)] by (simp add: bf)
  from noted_remembers [OF this undo_cost_nonneg(2)] obtain t' s' where
    w: "do_writes (noted_write E) ws (new_transaction h, s) = Ok (t', s')" and r: "remembers E before before (undo_need before ws) (t', s')"
    and k: "\<forall>k. map_of (st_set t') k = None \<longleftrightarrow> map_of (st_set (new_transaction h)) k = None \<and> k \<notin> fst ` snd ` set ws" and c: "\<not> se_closed s'"
    using assms(5) by auto
  have "room (undo_cost (st_set t')) (se_engine s')"
    using k by (intro remembers_room [OF r] undo_cost_need [OF r] undo_cost_nonneg) (simp add: new_transaction_def)
  then show ?thesis using w rollback_effect [OF r assms(6) c, of flips] unfolding eng_get_live [symmetric] by auto
qed

text \<open>
  But the executor writes first and calls \<open>RecordWrite\<close> afterwards, so what the transaction remembers as
  the value before it is its own first write: \<open>Rollback\<close> puts back that value, and a transaction that wrote
  every key once is not undone at all, although \<open>Rollback\<close> returns nil.
\<close>

theorem rollback_keeps_first_write:
  fixes E s ws
  defines "first_val \<equiv> \<lambda>k. case map_of (map snd ws) k of Some v \<Rightarrow> if v = tombstone then None else Some v
      | None \<Rightarrow> result_value (fst (eng_get E k (se_engine s)))"
  assumes "eng_ok (se_engine s)" and "tables_read E (se_engine s)" and "room (undo_need first_val ws + write_cost ws) (se_engine s)"
    and "\<not> se_closed s" and "permutes ord"
  shows "\<exists>t' s' t'' s''. do_writes (exec_write E) ws (new_transaction h, s) = Ok (t', s') \<and>
    sys_rollback ord flips False (t', s') = (None, t'', s'') \<and>
    (\<forall>k. result_value (fst (eng_get E k (se_engine s''))) = first_val k)"
proof -
  let ?o = "eng.live E (se_engine s)"
  have fs: "first_val k = (case map_of (map snd ws) k of Some v \<Rightarrow> if v = tombstone then None else Some v | None \<Rightarrow> ?o k)" for k
    by (cases "map_of (map snd ws) k") (simp_all add: first_val_def eng_get_live)
  have "remembers E first_val ?o (undo_need first_val ws + write_cost ws) (new_transaction h, s)" by (rule new_remembers [OF assms(2-4)])
  from exec_remembers [OF this undo_cost_nonneg(2) fs] obtain t' s' where
    w: "do_writes (exec_write E) ws (new_transaction h, s) = Ok (t', s')" and r: "remembers E first_val ?o (undo_need first_val ws) (t', s')"
    and k: "\<forall>k. map_of (st_set t') k = None \<longleftrightarrow> map_of (st_set (new_transaction h)) k = None \<and> k \<notin> fst ` snd ` set ws" and c: "\<not> se_closed s'"
    using assms(5) by auto
  have rm: "room (undo_cost (st_set t')) (se_engine s')"
    using k by (intro remembers_room [OF r] undo_cost_need [OF r] undo_cost_nonneg) (simp add: new_transaction_def)
  obtain t'' s'' where rb: "sys_rollback ord flips False (t', s') = (None, t'', s'')"
    "\<forall>k. eng.live E (se_engine s'') k = (if map_of (st_set t') k = None then ?o k else first_val k)"
    using rollback_effect [OF r assms(6) c rm, of flips] by blast
  have n: "k \<notin> fst ` snd ` set ws \<Longrightarrow> map_of (map snd ws) k = None" for k by (auto simp: map_of_eq_None_iff image_image)
  have "eng.live E (se_engine s'') k = first_val k" for k
    using rb(2) k n [of k] fs [of k] by (cases "k \<in> fst ` snd ` set ws") (simp_all add: new_transaction_def)
  then show ?thesis using w rb(1) unfolding eng_get_live [symmetric] by blast
qed

text \<open>
  Rolling back to a savepoint undoes less than the writes after it: a key that the transaction had already
  written before the savepoint keeps its newest value, and only keys first written after it go back to
  their value before the transaction. The savepoint is gone afterwards.
\<close>

theorem rollback_to_skips_known_keys:
  fixes E s
  defines "before \<equiv> \<lambda>k. result_value (fst (eng_get E k (se_engine s)))"
  assumes "eng_ok (se_engine s)" and "tables_read E (se_engine s)" and "room (undo_need before (ws1 @ ws2) + write_cost (ws1 @ ws2)) (se_engine s)"
    and "\<not> se_closed s" and "permutes ord" and "name \<noteq> []"
  shows "\<exists>t1 s1 t2 s2 t3 s3 t4 s4. do_writes (noted_write E) ws1 (new_transaction h, s) = Ok (t1, s1) \<and>
    sys_savepoint name (t1, s1) = (None, t2, s2) \<and> do_writes (noted_write E) ws2 (t2, s2) = Ok (t3, s3) \<and>
    sys_rollback_to ord flips name (t3, s3) = (None, t4, s4) \<and> st_points t4 = [] \<and>
    (\<forall>k. result_value (fst (eng_get E k (se_engine s4))) =
       (if k \<in> fst ` snd ` set ws1 then result_value (fst (eng_get E k (se_engine s3))) else before k))"
proof -
  let ?n = "undo_need before (ws1 @ ws2)"
  have bf: "before = eng.live E (se_engine s)" by (rule ext) (simp add: before_def eng_get_live)
  have "remembers E before before (?n + write_cost (ws1 @ ws2)) (new_transaction h, s)"
    using new_remembers [OF assms(2-4)] by (simp add: bf)
  then have r0: "remembers E before before ((?n + write_cost ws2) + write_cost ws1) (new_transaction h, s)"
    by (simp add: write_cost_def add.commute add.left_commute)
  have n2: "0 \<le> ?n + write_cost ws2" using undo_cost_nonneg(2) [of before "ws1 @ ws2"] write_cost_nonneg [of ws2] by simp
  from noted_remembers [OF r0 n2] obtain t1 s1 where
    w1: "do_writes (noted_write E) ws1 (new_transaction h, s) = Ok (t1, s1)" and r1: "remembers E before before (?n + write_cost ws2) (t1, s1)"
    and k1: "\<forall>k. map_of (st_set t1) k = None \<longleftrightarrow> k \<notin> fst ` snd ` set ws1" and c1: "\<not> se_closed s1" and p1: "st_points t1 = []"
    using assms(5) by (auto simp: new_transaction_def)
  let ?t2 = "t1\<lparr>st_points := [\<lparr>sp_name = name, sp_set = st_set t1\<rparr>]\<rparr>"
  have sp: "sys_savepoint name (t1, s1) = (None, ?t2, s1)" using assms(7) r1 c1 p1 by (simp add: sys_savepoint_def remembers_def)
  have "remembers E before before (?n + write_cost ws2) (?t2, s1)" using r1 by (simp add: remembers_def)
  from noted_remembers [OF this undo_cost_nonneg(2)] obtain t3 s3 where
    w3: "do_writes (noted_write E) ws2 (?t2, s1) = Ok (t3, s3)" and r3: "remembers E before before ?n (t3, s3)"
    and k3: "\<forall>k. map_of (st_set t3) k = None \<longleftrightarrow> map_of (st_set ?t2) k = None \<and> k \<notin> fst ` snd ` set ws2"
    and c3: "\<not> se_closed s3" and p3: "st_points t3 = st_points ?t2"
    using c1 by auto
  have rm0: "room (undo_cost (st_set t3)) (se_engine s3)"
    using k1 k3 by (intro remembers_room [OF r3] undo_cost_need [OF r3] undo_cost_nonneg) (auto simp: image_Un)
  let ?tg = "st_set t1"
  let ?f = "\<lambda>(k, en :: write_entry). map_of ?tg k = None"
  let ?ents = "filter ?f (ord (st_set t3))"
  note u = r3 [unfolded remembers_def, simplified]
  have m: "mset (ord (st_set t3)) = mset (st_set t3)" using assms(6) by (simp add: permutes_def)
  have d0: "distinct (map fst (ord (st_set t3)))" using u m by (metis mset_map mset_eq_imp_distinct_iff)
  have d: "distinct (map fst ?ents)" by (rule distinct_map_filter [OF d0])
  have mp: "map_of ?ents k = (if map_of ?tg k = None then map_of (st_set t3) k else None)" for k
  proof -
    have "map_of (filter ?f xs) k = (if map_of ?tg k = None then map_of xs k else None)" for xs by (induction xs) auto
    then show ?thesis using map_of_perm [OF m d0] by simp
  qed
  have tb: "we_value en \<noteq> tombstone" if "(k, en) \<in> set ?ents" "we_existed en" for k en
    using u that map_of_is_SomeI [OF d0, of k en] map_of_perm [OF m d0] by auto
  have rm: "room (undo_cost ?ents) (se_engine s3)"
    using rm0 undo_cost_perm [OF m] undo_cost_filter [of ?f "ord (st_set t3)"] by (auto simp: room_def)
  have ok: "eng_ok (se_engine s3)" using u by blast
  let ?s4 = "s3\<lparr>se_engine := restore flips ?ents (se_engine s3)\<rparr>" and ?t4 = "t3\<lparr>st_set := ?tg, st_points := []\<rparr>"
  have rt: "sys_rollback_to ord flips name (t3, s3) = (None, ?t4, ?s4)"
    using u c3 p3 by (simp add: sys_rollback_to_def Let_def)
  have "eng.live E (se_engine ?s4) k = (if k \<in> fst ` snd ` set ws1 then eng.live E (se_engine s3) k else before k)" for k
    using restore_live(2) [OF ok rm d tb, where flips = flips and E = E and k = k] mp [of k] k1 u by (auto split: option.splits)
  then show ?thesis using w1 sp w3 rt unfolding eng_get_live [symmetric] by fastforce
qed

subsection \<open>Closed instances\<close>

definition sample_session :: session where
  "sample_session = \<lparr>se_closed = False, se_engine = run_writes [([], [1], [10])] sample_engine,
     se_txn = new_manager\<lparr>ts_txs := [\<lparr>tx_slot = 0, tx_finished = False, tx_phase = PhaseBegin, tx_marked = False\<rparr>]\<rparr>\<rparr>"

definition sample_writes :: "(bool list \<times> bytes \<times> bytes) list" where
  "sample_writes = [([], [1], [11]), ([], [2], [20]), ([], [1], [12])]"

lemma sample_session_eq:
  "se_engine sample_session = sample_engine\<lparr>en_heap := [mt_insert [] [1] [10] (new_memtable mem_max)]\<rparr>"
  by (simp add: sample_session_def run_writes_def sample_engine_def active_mem_def eng_write_def update_mem_def mt_insert_def mem_max_def
        Let_def new_memtable_def wrap64_def)

lemma sample_session_ok: "eng_ok (se_engine sample_session)" "tables_read E (se_engine sample_session)" "\<not> se_closed sample_session"
  "room (write_cost sample_writes) (se_engine sample_session)" "room (50 + write_cost sample_writes) (se_engine sample_session)"
  "eng.live E (se_engine sample_session) [1] = Some [10]" "eng.live E (se_engine sample_session) [2] = None"
proof -
  show ok: "eng_ok (se_engine sample_session)"
    unfolding sample_session_def run_writes_put_all by (simp add: eng.put_all_inv [OF sample_engine_ok])
  show "tables_read E (se_engine sample_session)" unfolding sample_session_eq tables_read_def
    by (simp add: read_from_sst_def sample_engine_def)
  show "room (write_cost sample_writes) (se_engine sample_session)" "room (50 + write_cost sample_writes) (se_engine sample_session)"
    unfolding sample_session_eq
    by (simp_all add: room_def sample_writes_def write_cost_def active_mem_def sample_engine_def mt_insert_def new_memtable_def mem_max_def wrap64_def)
  have "mt_get [1] (mt_insert [] [1] [10] (new_memtable mem_max)) = Some [10]" "mt_get [2] (mt_insert [] [1] [10] (new_memtable mem_max)) = None"
    by code_simp+
  moreover have "read_from_sst E k (se_engine sample_session) = (Fail ErrKeyNotFoundE, 0)" for k
    unfolding sample_session_eq by (simp add: read_from_sst_def sample_engine_def)
  moreover have "active_mem (se_engine sample_session) = mt_insert [] [1] [10] (new_memtable mem_max)"
    unfolding sample_session_eq by (simp add: active_mem_def sample_engine_def)
  moreover have "([10] :: bytes) \<noteq> tombstone" by (simp add: tombstone_def)
  ultimately show "eng.live E (se_engine sample_session) [1] = Some [10]" "eng.live E (se_engine sample_session) [2] = None"
    by (simp_all add: eng.live_def eng_look_def eng_read_ok [OF ok])
qed (simp add: sample_session_def)

lemma id_permutes: "permutes rev" by (simp add: permutes_def)

lemma sample_values: "result_value (fst (eng_get E [1] (se_engine sample_session))) = Some [10]"
  "result_value (fst (eng_get E [2] (se_engine sample_session))) = None"
  "map_of (map snd sample_writes) [1] = Some [11]" "map_of (map snd sample_writes) [2] = Some [20]"
  "[11] \<noteq> tombstone" "[20] \<noteq> tombstone" "fst ` snd ` set sample_writes = {[1], [2]}"
  using sample_session_ok(6,7) [of E] unfolding eng_get_live [symmetric] by (auto simp: sample_writes_def tombstone_def)

lemma sample_room: "room (undo_need (\<lambda>k. result_value (fst (eng_get id_env k (se_engine sample_session)))) sample_writes + write_cost sample_writes) (se_engine sample_session)"
  "room (undo_need (\<lambda>k. case map_of (map snd sample_writes) k of Some v \<Rightarrow> if v = tombstone then None else Some v
      | None \<Rightarrow> result_value (fst (eng_get id_env k (se_engine sample_session)))) sample_writes + write_cost sample_writes) (se_engine sample_session)"
  using sample_session_ok(5) write_cost_nonneg [of sample_writes] by (simp_all add: undo_need_def sample_values room_def)

theorem rollback_restores_witness:
  "\<exists>t' s' t'' s''. do_writes (noted_write id_env) sample_writes (new_transaction 0, sample_session) = Ok (t', s') \<and>
    sys_rollback rev (\<lambda>_. []) False (t', s') = (None, t'', s'') \<and> result_value (fst (eng_get id_env [1] (se_engine s''))) = Some [10] \<and>
    result_value (fst (eng_get id_env [2] (se_engine s''))) = None"
  using rollback_restores [OF sample_session_ok(1,2) sample_room(1) sample_session_ok(3) id_permutes, of 0 "\<lambda>_. []"]
    sample_session_ok(6,7) [of id_env] unfolding eng_get_live [symmetric] by fastforce

theorem rollback_keeps_first_write_witness:
  "\<exists>t' s' t'' s''. do_writes (exec_write id_env) sample_writes (new_transaction 0, sample_session) = Ok (t', s') \<and>
    sys_rollback rev (\<lambda>_. []) False (t', s') = (None, t'', s'') \<and> result_value (fst (eng_get id_env [1] (se_engine s''))) = Some [11] \<and>
    result_value (fst (eng_get id_env [2] (se_engine s''))) = Some [20]"
proof -
  have f: "map_of (map snd sample_writes) [1] = Some [11]" "map_of (map snd sample_writes) [2] = Some [20]" "[11] \<noteq> tombstone" "[20] \<noteq> tombstone"
    by (simp_all add: sample_writes_def tombstone_def)
  show ?thesis
    using rollback_keeps_first_write [OF sample_session_ok(1,2) sample_room(2) sample_session_ok(3) id_permutes, of 0 "\<lambda>_. []"] f
    by fastforce
qed

theorem rollback_to_skips_known_keys_witness:
  "\<exists>t1 s1 t2 s2 t3 s3 t4 s4. do_writes (noted_write id_env) (take 1 sample_writes) (new_transaction 0, sample_session) = Ok (t1, s1) \<and>
    sys_savepoint [7] (t1, s1) = (None, t2, s2) \<and> do_writes (noted_write id_env) (drop 1 sample_writes) (t2, s2) = Ok (t3, s3) \<and>
    sys_rollback_to rev (\<lambda>_. []) [7] (t3, s3) = (None, t4, s4) \<and> result_value (fst (eng_get id_env [2] (se_engine s4))) = None \<and>
    result_value (fst (eng_get id_env [1] (se_engine s4))) = result_value (fst (eng_get id_env [1] (se_engine s3)))"
proof -
  have a: "room (undo_need (\<lambda>k. result_value (fst (eng_get id_env k (se_engine sample_session)))) (take 1 sample_writes @ drop 1 sample_writes) +
      write_cost (take 1 sample_writes @ drop 1 sample_writes)) (se_engine sample_session)"
    unfolding append_take_drop_id by (rule sample_room(1))
  have k: "[1] \<in> fst ` snd ` set (take 1 sample_writes)" "[2] \<notin> fst ` snd ` set (take 1 sample_writes)" by (simp_all add: sample_writes_def)
  have n: "([7] :: bytes) \<noteq> []" by simp
  show ?thesis
    using rollback_to_skips_known_keys [OF sample_session_ok(1,2) a sample_session_ok(3) id_permutes n, of 0 "\<lambda>_. []"] k
      sample_session_ok(7) [of id_env] unfolding eng_get_live [symmetric] by metis
qed

end
