(* ===== verification/Go_Float.thy ===== *)
theory Go_Float
  imports Prelude
begin

text \<open>
  The Go type \<open>float64\<close> as the SQL executor uses it: IEEE 754 binary64 with the one rounding mode
  of Go, round to nearest with ties to even. A finite double is a sign, a significand and an exponent,
  in the canonical form that \<open>f_round\<close> produces: significand in \<open>[2^52, 2^53)\<close>, or below with the
  least exponent \<open>-1074\<close>. The exact result of an operation is a quotient of naturals and is
  rounded once. A conversion \<open>int64(f)\<close> truncates; for a value out of range Go leaves the
  result to the platform, and the model has what amd64 gives, the least int64.
  The lemmas say when the conversions lose nothing: up to \<open>2^53\<close>.
\<close>

subsection \<open>Doubles\<close>

datatype f64 = F_NaN | F_Inf bool | F_Fin bool nat int

fun blen :: "nat \<Rightarrow> nat" where
  "blen n = (if n = 0 then 0 else Suc (blen (n div 2)))"

declare blen.simps [simp del]

definition half_even :: "nat \<Rightarrow> nat \<Rightarrow> nat" where
  "half_even num den =
     (let q = num div den; r = num mod den
      in if den < 2 * r \<or> (2 * r = den \<and> odd q) then Suc q else q)"

text \<open>The exponent of the unit in the last place of the double nearest to \<open>num / den\<close>.\<close>

definition ulp_exp :: "nat \<Rightarrow> nat \<Rightarrow> int" where
  "ulp_exp num den =
     (let l = int (blen num) - int (blen den);
          below = (if 0 \<le> l then num < den * 2 ^ nat l else num * 2 ^ nat (- l) < den);
          lg = (if below then l - 1 else l)
      in max (lg - 52) (- 1074))"

definition f_pack :: "bool \<Rightarrow> nat \<Rightarrow> int \<Rightarrow> f64" where
  "f_pack s q e =
     (if q = 0 then F_Fin s 0 0
      else let (m, x) = (if q = 2 ^ 53 then (2 ^ 52, e + 1) else (q, e))
           in if 971 < x then F_Inf s else F_Fin s m x)"

definition f_round :: "bool \<Rightarrow> nat \<Rightarrow> nat \<Rightarrow> f64" where
  "f_round s num den =
     (if num = 0 then F_Fin s 0 0
      else let e = ulp_exp num den
           in f_pack s (half_even (num * 2 ^ nat (- e)) (den * 2 ^ nat e)) e)"

subsection \<open>Conversions and comparison\<close>

definition f_of_int :: "int \<Rightarrow> f64" where
  "f_of_int i = f_round (i < 0) (nat \<bar>i\<bar>) 1"

definition min_int64 :: int where "min_int64 = - (2 ^ 63)"
definition max_int64 :: int where "max_int64 = 2 ^ 63 - 1"

definition int64_range :: "int \<Rightarrow> bool" where
  "int64_range i \<longleftrightarrow> min_int64 \<le> i \<and> i \<le> max_int64"

definition f_trunc_nat :: "nat \<Rightarrow> int \<Rightarrow> nat" where
  "f_trunc_nat m e = (if 0 \<le> e then m * 2 ^ nat e else m div 2 ^ nat (- e))"

fun f_to_int :: "f64 \<Rightarrow> int" where
  "f_to_int F_NaN = min_int64"
| "f_to_int (F_Inf s) = min_int64"
| "f_to_int (F_Fin s m e) =
     (let t = int (f_trunc_nat m e); i = (if s then - t else t)
      in if int64_range i then i else min_int64)"

text \<open>The integer that a finite double is, in units of \<open>2^k\<close> (for \<open>k \<le> e\<close>).\<close>

definition f_scaled :: "bool \<Rightarrow> nat \<Rightarrow> int \<Rightarrow> int \<Rightarrow> int" where
  "f_scaled s m e k = (let v = int m * 2 ^ nat (e - k) in if s then - v else v)"

fun f_lt :: "f64 \<Rightarrow> f64 \<Rightarrow> bool" where
  "f_lt F_NaN y = False"
| "f_lt x F_NaN = False"
| "f_lt (F_Inf s) (F_Inf t) = (s \<and> \<not> t)"
| "f_lt (F_Inf s) (F_Fin t m e) = s"
| "f_lt (F_Fin t m e) (F_Inf s) = (\<not> s)"
| "f_lt (F_Fin s m e) (F_Fin t n f) = (f_scaled s m e (min e f) < f_scaled t n f (min e f))"

fun f_eq :: "f64 \<Rightarrow> f64 \<Rightarrow> bool" where
  "f_eq F_NaN y = False"
| "f_eq x F_NaN = False"
| "f_eq (F_Inf s) (F_Inf t) = (s = t)"
| "f_eq (F_Fin s m e) (F_Fin t n f) = (f_scaled s m e (min e f) = f_scaled t n f (min e f))"
| "f_eq x y = False"

definition f_zero :: f64 where "f_zero = F_Fin False 0 0"

subsection \<open>Arithmetic\<close>

fun f_neg :: "f64 \<Rightarrow> f64" where
  "f_neg F_NaN = F_NaN"
| "f_neg (F_Inf s) = F_Inf (\<not> s)"
| "f_neg (F_Fin s m e) = F_Fin (\<not> s) m e"

definition f_units :: "bool \<Rightarrow> nat \<Rightarrow> int \<Rightarrow> f64" where
  "f_units s n k = f_round s (n * 2 ^ nat k) (2 ^ nat (- k))"

fun f_add :: "f64 \<Rightarrow> f64 \<Rightarrow> f64" where
  "f_add F_NaN y = F_NaN"
| "f_add x F_NaN = F_NaN"
| "f_add (F_Inf s) (F_Inf t) = (if s = t then F_Inf s else F_NaN)"
| "f_add (F_Inf s) (F_Fin t m e) = F_Inf s"
| "f_add (F_Fin t m e) (F_Inf s) = F_Inf s"
| "f_add (F_Fin s m e) (F_Fin t n f) =
     (let k = min e f; v = f_scaled s m e k + f_scaled t n f k
      in if v = 0 then F_Fin (s \<and> t \<and> m = 0 \<and> n = 0) 0 0 else f_units (v < 0) (nat \<bar>v\<bar>) k)"

definition f_sub :: "f64 \<Rightarrow> f64 \<Rightarrow> f64" where
  "f_sub x y = f_add x (f_neg y)"

fun f_mul :: "f64 \<Rightarrow> f64 \<Rightarrow> f64" where
  "f_mul F_NaN y = F_NaN"
| "f_mul x F_NaN = F_NaN"
| "f_mul (F_Inf s) (F_Inf t) = F_Inf (s \<noteq> t)"
| "f_mul (F_Inf s) (F_Fin t m e) = (if m = 0 then F_NaN else F_Inf (s \<noteq> t))"
| "f_mul (F_Fin t m e) (F_Inf s) = (if m = 0 then F_NaN else F_Inf (s \<noteq> t))"
| "f_mul (F_Fin s m e) (F_Fin t n f) = f_units (s \<noteq> t) (m * n) (e + f)"

fun f_div :: "f64 \<Rightarrow> f64 \<Rightarrow> f64" where
  "f_div F_NaN y = F_NaN"
| "f_div x F_NaN = F_NaN"
| "f_div (F_Inf s) (F_Inf t) = F_NaN"
| "f_div (F_Inf s) (F_Fin t m e) = F_Inf (s \<noteq> t)"
| "f_div (F_Fin t m e) (F_Inf s) = F_Fin (s \<noteq> t) 0 0"
| "f_div (F_Fin s m e) (F_Fin t n f) =
     (if n = 0 then (if m = 0 then F_NaN else F_Inf (s \<noteq> t))
      else f_round (s \<noteq> t) (m * 2 ^ nat (e - f)) (n * 2 ^ nat (f - e)))"

text \<open>\<open>math.Mod\<close>: the remainder of the truncated division, with the sign of \<open>x\<close>; exact.\<close>

fun f_mod :: "f64 \<Rightarrow> f64 \<Rightarrow> f64" where
  "f_mod F_NaN y = F_NaN"
| "f_mod x F_NaN = F_NaN"
| "f_mod (F_Inf s) y = F_NaN"
| "f_mod (F_Fin s m e) (F_Inf t) = F_Fin s m e"
| "f_mod (F_Fin s m e) (F_Fin t n f) =
     (if n = 0 then F_NaN
      else let k = min e f
           in f_units s ((m * 2 ^ nat (e - k)) mod (n * 2 ^ nat (f - k))) k)"

text \<open>\<open>math.Round\<close>: to the nearest integer, halves away from zero.\<close>

fun f_rint :: "f64 \<Rightarrow> f64" where
  "f_rint F_NaN = F_NaN"
| "f_rint (F_Inf s) = F_Inf s"
| "f_rint (F_Fin s m e) =
     (if 0 \<le> e then F_Fin s m e
      else let d = 2 ^ nat (- e); q = m div d; r = m mod d
           in f_round s (if d \<le> 2 * r then Suc q else q) 1)"

subsection \<open>What the conversions keep\<close>

named_theorems f64_simps "facts on doubles that hold small integers"

lemma blen_bounds: "0 < n \<Longrightarrow> 0 < blen n \<and> 2 ^ (blen n - 1) \<le> n \<and> n < 2 ^ blen n"
proof (induction n rule: blen.induct)
  case (1 n)
  show ?case
  proof (cases "n div 2 = 0")
    case True
    then have "n = 1" using 1 by simp
    then show ?thesis by (simp add: blen.simps)
  next
    case False
    then have ih: "0 < blen (n div 2)" "2 ^ (blen (n div 2) - 1) \<le> n div 2" "n div 2 < 2 ^ blen (n div 2)"
      using 1 by auto
    have b: "blen n = Suc (blen (n div 2))" using 1(2) by (simp add: blen.simps [of n])
    have "(2::nat) ^ blen (n div 2) = 2 * 2 ^ (blen (n div 2) - 1)"
      using ih(1) by (cases "blen (n div 2)") auto
    then have p: "2 ^ (blen n - 1) = 2 * (2::nat) ^ (blen (n div 2) - 1)" "2 ^ blen n = 4 * (2::nat) ^ (blen (n div 2) - 1)"
      by (simp_all add: b)
    have "n < 2 * (2 * 2 ^ (blen (n div 2) - 1))"
      using ih \<open>2 ^ blen (n div 2) = 2 * 2 ^ (blen (n div 2) - 1)\<close> by linarith
    moreover have "2 * 2 ^ (blen (n div 2) - 1) \<le> n" using ih(2) by linarith
    ultimately have "2 ^ (blen n - 1) \<le> n \<and> n < 2 ^ blen n" using p by linarith
    then show ?thesis using b by simp
  qed
qed

lemma blen_le: "n < 2 ^ k \<Longrightarrow> blen n \<le> k"
proof (cases "n = 0")
  case False
  assume "n < 2 ^ k"
  then have "(2::nat) ^ (blen n - 1) < 2 ^ k" using blen_bounds [of n] False by linarith
  then have "blen n - 1 < k" by simp
  then show ?thesis by simp
qed (simp add: blen.simps)

lemma half_even_one [simp]: "half_even n (Suc 0) = n"
  by (simp add: half_even_def Let_def)

lemma blen_one: "blen (Suc 0) = Suc 0"
  by (simp add: blen.simps)

lemma ulp_exp_int: "0 < n \<Longrightarrow> ulp_exp n (Suc 0) = int (blen n) - 53"
  using blen_bounds [of n] by (auto simp: ulp_exp_def Let_def blen_one nat_diff_distrib)

definition f_holds :: "f64 \<Rightarrow> int \<Rightarrow> bool" where
  "f_holds x i \<longleftrightarrow> (\<exists>s m e. x = F_Fin s m e \<and> s = (i < 0) \<and> e \<le> 0 \<and> int m = \<bar>i\<bar> * 2 ^ nat (- e))"

lemma f_holds_of_int [f64_simps]: "\<bar>i\<bar> < 2 ^ 53 \<Longrightarrow> f_holds (f_of_int i) i"
proof (cases "i = 0")
  case False
  assume a: "\<bar>i\<bar> < 2 ^ 53"
  define n where "n = nat \<bar>i\<bar>"
  define k where "k = 53 - blen n"
  have n: "0 < n" "n < 2 ^ 53" using a False by (auto simp: n_def nat_less_iff)
  have b: "blen n \<le> 53" "0 < blen n" using blen_le [OF n(2)] blen_bounds [OF n(1)] by auto
  have e: "ulp_exp n (Suc 0) = - int k" using ulp_exp_int [OF n(1)] b by (simp add: k_def)
  have "n * 2 ^ k < 2 ^ blen n * 2 ^ k" using blen_bounds [OF n(1)] by simp
  also have "\<dots> = (2::nat) ^ 53" using b by (simp add: k_def flip: power_add)
  finally have lt: "n * 2 ^ k \<noteq> 2 ^ 53" by simp
  have "f_of_int i = F_Fin (i < 0) (n * 2 ^ k) (- int k)"
    using n(1) lt False by (simp add: f_of_int_def f_round_def e f_pack_def Let_def flip: n_def)
  then show ?thesis by (simp add: f_holds_def n_def)
qed (auto simp: f_holds_def f_of_int_def f_round_def intro: exI [of _ False])

lemma f_holds_scaled:
  assumes "f_holds (F_Fin s m e) i" "k \<le> e"
  shows "f_scaled s m e k = i * 2 ^ nat (- k)"
proof -
  have m: "s = (i < 0)" "e \<le> 0" "int m = \<bar>i\<bar> * 2 ^ nat (- e)" using assms(1) by (auto simp: f_holds_def)
  have "nat (- e) + nat (e - k) = nat (- k)" using assms m by simp
  then have "(2::int) ^ nat (- e) * 2 ^ nat (e - k) = 2 ^ nat (- k)" by (metis power_add)
  then have "int m * 2 ^ nat (e - k) = \<bar>i\<bar> * 2 ^ nat (- k)" using m(3) by (simp add: mult.assoc)
  then show ?thesis using m(1) by (simp add: f_scaled_def Let_def)
qed

lemma f_holds_lt [f64_simps]: "f_holds x i \<Longrightarrow> f_holds y j \<Longrightarrow> f_lt x y \<longleftrightarrow> i < j"
  and f_holds_eq [f64_simps]: "f_holds x i \<Longrightarrow> f_holds y j \<Longrightarrow> f_eq x y \<longleftrightarrow> i = j"
proof -
  assume a: "f_holds x i" and b: "f_holds y j"
  obtain s m e where x: "x = F_Fin s m e" using a by (auto simp: f_holds_def)
  obtain t n f where y: "y = F_Fin t n f" using b by (auto simp: f_holds_def)
  have sx: "f_scaled s m e (min e f) = i * 2 ^ nat (- min e f)"
    using f_holds_scaled [of s m e i "min e f"] a x by simp
  have sy: "f_scaled t n f (min e f) = j * 2 ^ nat (- min e f)"
    using f_holds_scaled [of t n f j "min e f"] b y by simp
  show "f_lt x y \<longleftrightarrow> i < j" by (simp add: x y sx sy)
  show "f_eq x y \<longleftrightarrow> i = j" by (simp add: x y sx sy)
qed

lemma f_holds_to_int [f64_simps]: "f_holds x i \<Longrightarrow> int64_range i \<Longrightarrow> f_to_int x = i"
proof -
  assume a: "f_holds x i" and r: "int64_range i"
  obtain s m e where x: "x = F_Fin s m e" "s = (i < 0)" "e \<le> 0" "int m = \<bar>i\<bar> * 2 ^ nat (- e)"
    using a by (auto simp: f_holds_def)
  have "int m = int (nat \<bar>i\<bar> * 2 ^ nat (- e))" using x(4) by simp
  then have "m = nat \<bar>i\<bar> * 2 ^ nat (- e)" by linarith
  then have "f_trunc_nat m e = nat \<bar>i\<bar>" using x(3) by (auto simp: f_trunc_nat_def)
  then show ?thesis using r by (simp add: x(1,2) Let_def)
qed

lemma f_to_int_range: "int64_range (f_to_int x)"
  by (cases x) (auto simp: Let_def int64_range_def min_int64_def max_int64_def)

lemma f_to_int_of_int: "\<bar>i\<bar> < 2 ^ 53 \<Longrightarrow> f_to_int (f_of_int i) = i"
  by (rule f_holds_to_int [OF f_holds_of_int]) (auto simp: int64_range_def min_int64_def max_int64_def)

lemma f_holds_zero [f64_simps]: "f_holds f_zero 0"
  unfolding f_holds_def f_zero_def by (intro exI conjI) auto

end
