(* ===== verification/Sql_Token.thy ===== *)
theory Sql_Token
  imports Go_Float "HOL-Library.Char_ord"
begin

text \<open>
  Tokens of the SQL front end (\<open>SQL/LX/token.go\<close>): the token types as the iota constants that they
  are, the keyword table of \<open>lx.go\<close>, and \<open>Token.String\<close>. A Go string is a sequence of bytes; a
  \<open>string\<close> of HOL is one too, its characters have the codes 0 to 255.
\<close>

subsection \<open>Token types\<close>

definition T_EOF :: int where [simp]: "T_EOF = 0"
definition T_IDENT :: int where [simp]: "T_IDENT = 1"
definition T_STRING :: int where [simp]: "T_STRING = 2"
definition T_INT :: int where [simp]: "T_INT = 3"
definition T_FLOAT :: int where [simp]: "T_FLOAT = 4"
definition T_BIND :: int where [simp]: "T_BIND = 5"
definition T_EQ :: int where [simp]: "T_EQ = 6"
definition T_NE :: int where [simp]: "T_NE = 7"
definition T_LT :: int where [simp]: "T_LT = 8"
definition T_LE :: int where [simp]: "T_LE = 9"
definition T_GT :: int where [simp]: "T_GT = 10"
definition T_GE :: int where [simp]: "T_GE = 11"
definition T_PLUS :: int where [simp]: "T_PLUS = 12"
definition T_MINUS :: int where [simp]: "T_MINUS = 13"
definition T_STAR :: int where [simp]: "T_STAR = 14"
definition T_SLASH :: int where [simp]: "T_SLASH = 15"
definition T_LPAREN :: int where [simp]: "T_LPAREN = 16"
definition T_RPAREN :: int where [simp]: "T_RPAREN = 17"
definition T_COMMA :: int where [simp]: "T_COMMA = 18"
definition T_DOT :: int where [simp]: "T_DOT = 19"
definition T_SEMICOLON :: int where [simp]: "T_SEMICOLON = 20"
definition T_COLON :: int where [simp]: "T_COLON = 21"
definition T_CREATE :: int where [simp]: "T_CREATE = 22"
definition T_DROP :: int where [simp]: "T_DROP = 23"
definition T_INSERT :: int where [simp]: "T_INSERT = 24"
definition T_UPDATE :: int where [simp]: "T_UPDATE = 25"
definition T_DELETE :: int where [simp]: "T_DELETE = 26"
definition T_SELECT :: int where [simp]: "T_SELECT = 27"
definition T_FROM :: int where [simp]: "T_FROM = 28"
definition T_WHERE :: int where [simp]: "T_WHERE = 29"
definition T_AND :: int where [simp]: "T_AND = 30"
definition T_OR :: int where [simp]: "T_OR = 31"
definition T_BEFORE :: int where [simp]: "T_BEFORE = 32"
definition T_AFTER :: int where [simp]: "T_AFTER = 33"
definition T_NOT :: int where [simp]: "T_NOT = 34"
definition T_IN :: int where [simp]: "T_IN = 35"
definition T_BETWEEN :: int where [simp]: "T_BETWEEN = 36"
definition T_LIKE :: int where [simp]: "T_LIKE = 37"
definition T_IS :: int where [simp]: "T_IS = 38"
definition T_NULL :: int where [simp]: "T_NULL = 39"
definition T_BEGIN :: int where [simp]: "T_BEGIN = 40"
definition T_COMMIT :: int where [simp]: "T_COMMIT = 41"
definition T_ROLLBACK :: int where [simp]: "T_ROLLBACK = 42"
definition T_AS :: int where [simp]: "T_AS = 43"
definition T_BY :: int where [simp]: "T_BY = 44"
definition T_ASC :: int where [simp]: "T_ASC = 45"
definition T_DESC :: int where [simp]: "T_DESC = 46"
definition T_LIMIT :: int where [simp]: "T_LIMIT = 47"
definition T_OFFSET :: int where [simp]: "T_OFFSET = 48"
definition T_TABLE :: int where [simp]: "T_TABLE = 49"
definition T_INDEX :: int where [simp]: "T_INDEX = 50"
definition T_PRIMARY :: int where [simp]: "T_PRIMARY = 51"
definition T_KEY :: int where [simp]: "T_KEY = 52"
definition T_NOTNULL :: int where [simp]: "T_NOTNULL = 53"
definition T_DEFAULT :: int where [simp]: "T_DEFAULT = 54"
definition T_CHECK :: int where [simp]: "T_CHECK = 55"
definition T_UNIQUE :: int where [simp]: "T_UNIQUE = 56"
definition T_INT_KW :: int where [simp]: "T_INT_KW = 57"
definition T_BIGINT :: int where [simp]: "T_BIGINT = 58"
definition T_FLOAT_KW :: int where [simp]: "T_FLOAT_KW = 59"
definition T_BOOL :: int where [simp]: "T_BOOL = 60"
definition T_TEXT :: int where [simp]: "T_TEXT = 61"
definition T_BLOB :: int where [simp]: "T_BLOB = 62"
definition T_VARCHAR :: int where [simp]: "T_VARCHAR = 63"
definition T_TIMESTAMP :: int where [simp]: "T_TIMESTAMP = 64"
definition T_NUMERIC :: int where [simp]: "T_NUMERIC = 65"
definition T_DATE :: int where [simp]: "T_DATE = 66"
definition T_TIME :: int where [simp]: "T_TIME = 67"
definition T_JSON :: int where [simp]: "T_JSON = 68"
definition T_DECIMAL :: int where [simp]: "T_DECIMAL = 69"
definition T_VALUES :: int where [simp]: "T_VALUES = 70"
definition T_SET :: int where [simp]: "T_SET = 71"
definition T_INTO :: int where [simp]: "T_INTO = 72"
definition T_ORDER :: int where [simp]: "T_ORDER = 73"
definition T_JOIN :: int where [simp]: "T_JOIN = 74"
definition T_LEFT :: int where [simp]: "T_LEFT = 75"
definition T_RIGHT :: int where [simp]: "T_RIGHT = 76"
definition T_INNER :: int where [simp]: "T_INNER = 77"
definition T_CROSS :: int where [simp]: "T_CROSS = 78"
definition T_ON :: int where [simp]: "T_ON = 79"
definition T_USING :: int where [simp]: "T_USING = 80"
definition T_GROUP :: int where [simp]: "T_GROUP = 81"
definition T_HAVING :: int where [simp]: "T_HAVING = 82"
definition T_COUNT :: int where [simp]: "T_COUNT = 83"
definition T_SUM :: int where [simp]: "T_SUM = 84"
definition T_AVG :: int where [simp]: "T_AVG = 85"
definition T_MIN :: int where [simp]: "T_MIN = 86"
definition T_MAX :: int where [simp]: "T_MAX = 87"
definition T_DISTINCT :: int where [simp]: "T_DISTINCT = 88"
definition T_CASE :: int where [simp]: "T_CASE = 89"
definition T_WHEN :: int where [simp]: "T_WHEN = 90"
definition T_THEN :: int where [simp]: "T_THEN = 91"
definition T_ELSE :: int where [simp]: "T_ELSE = 92"
definition T_END :: int where [simp]: "T_END = 93"
definition T_EXISTS :: int where [simp]: "T_EXISTS = 94"
definition T_INSTEAD :: int where [simp]: "T_INSTEAD = 95"
definition T_OF :: int where [simp]: "T_OF = 96"
definition T_FOR :: int where [simp]: "T_FOR = 97"
definition T_EACH :: int where [simp]: "T_EACH = 98"
definition T_ANALYZE :: int where [simp]: "T_ANALYZE = 99"
definition T_VACUUM :: int where [simp]: "T_VACUUM = 100"
definition T_EXPLAIN :: int where [simp]: "T_EXPLAIN = 101"
definition T_QUERY :: int where [simp]: "T_QUERY = 102"
definition T_PLAN :: int where [simp]: "T_PLAN = 103"
definition T_RETURNING :: int where [simp]: "T_RETURNING = 104"
definition T_CONFLICT :: int where [simp]: "T_CONFLICT = 105"
definition T_DO :: int where [simp]: "T_DO = 106"
definition T_NOTHING :: int where [simp]: "T_NOTHING = 107"
definition T_EXCLUDED :: int where [simp]: "T_EXCLUDED = 108"
definition T_WITH :: int where [simp]: "T_WITH = 109"
definition T_SAVEPOINT :: int where [simp]: "T_SAVEPOINT = 110"
definition T_RELEASE :: int where [simp]: "T_RELEASE = 111"
definition T_TO :: int where [simp]: "T_TO = 112"
definition T_CAST :: int where [simp]: "T_CAST = 113"
definition T_TRUE :: int where [simp]: "T_TRUE = 114"
definition T_FALSE :: int where [simp]: "T_FALSE = 115"
definition T_OUTER :: int where [simp]: "T_OUTER = 116"
definition T_FULL :: int where [simp]: "T_FULL = 117"
definition T_PRAGMA :: int where [simp]: "T_PRAGMA = 118"
definition T_INTERVAL :: int where [simp]: "T_INTERVAL = 119"
definition T_OVER :: int where [simp]: "T_OVER = 120"
definition T_PARTITION :: int where [simp]: "T_PARTITION = 121"
definition T_ROWS :: int where [simp]: "T_ROWS = 122"
definition T_RANGE :: int where [simp]: "T_RANGE = 123"
definition T_PRECEDING :: int where [simp]: "T_PRECEDING = 124"
definition T_FOLLOWING :: int where [simp]: "T_FOLLOWING = 125"
definition T_CURRENT :: int where [simp]: "T_CURRENT = 126"
definition T_UNBOUNDED :: int where [simp]: "T_UNBOUNDED = 127"
definition T_ROW_NUMBER :: int where [simp]: "T_ROW_NUMBER = 128"
definition T_RANK :: int where [simp]: "T_RANK = 129"
definition T_DENSE_RANK :: int where [simp]: "T_DENSE_RANK = 130"
definition T_LAG :: int where [simp]: "T_LAG = 131"
definition T_LEAD :: int where [simp]: "T_LEAD = 132"
definition T_FIRST_VALUE :: int where [simp]: "T_FIRST_VALUE = 133"
definition T_LAST_VALUE :: int where [simp]: "T_LAST_VALUE = 134"
definition T_NTH_VALUE :: int where [simp]: "T_NTH_VALUE = 135"
definition T_ROW :: int where [simp]: "T_ROW = 136"
definition T_TRANSACTION :: int where [simp]: "T_TRANSACTION = 137"
definition T_ISOLATION :: int where [simp]: "T_ISOLATION = 138"
definition T_LEVEL :: int where [simp]: "T_LEVEL = 139"
definition T_READ :: int where [simp]: "T_READ = 140"
definition T_COMMITTED :: int where [simp]: "T_COMMITTED = 141"
definition T_UNCOMMITTED :: int where [simp]: "T_UNCOMMITTED = 142"
definition T_REPEATABLE :: int where [simp]: "T_REPEATABLE = 143"
definition T_SERIALIZABLE :: int where [simp]: "T_SERIALIZABLE = 144"
definition T_VIEW :: int where [simp]: "T_VIEW = 145"
definition T_TRIGGER :: int where [simp]: "T_TRIGGER = 146"
definition T_TEMP :: int where [simp]: "T_TEMP = 147"
definition T_TEMPORARY :: int where [simp]: "T_TEMPORARY = 148"
definition T_ALTER :: int where [simp]: "T_ALTER = 149"
definition T_COLUMN :: int where [simp]: "T_COLUMN = 150"
definition T_ADD :: int where [simp]: "T_ADD = 151"
definition T_RENAME :: int where [simp]: "T_RENAME = 152"
definition T_FETCH :: int where [simp]: "T_FETCH = 153"
definition T_FIRST :: int where [simp]: "T_FIRST = 154"
definition T_ONLY :: int where [simp]: "T_ONLY = 155"
definition T_REFERENCES :: int where [simp]: "T_REFERENCES = 156"
definition T_FOREIGN :: int where [simp]: "T_FOREIGN = 157"
definition T_CASCADE :: int where [simp]: "T_CASCADE = 158"
definition T_RESTRICT :: int where [simp]: "T_RESTRICT = 159"
definition T_NO :: int where [simp]: "T_NO = 160"
definition T_ACTION :: int where [simp]: "T_ACTION = 161"
definition T_BITAND :: int where [simp]: "T_BITAND = 162"
definition T_BITOR :: int where [simp]: "T_BITOR = 163"
definition T_BITXOR :: int where [simp]: "T_BITXOR = 164"
definition T_BITNOT :: int where [simp]: "T_BITNOT = 165"
definition T_MOD :: int where [simp]: "T_MOD = 166"
definition T_CONCAT :: int where [simp]: "T_CONCAT = 167"
definition T_COALESCE :: int where [simp]: "T_COALESCE = 168"
definition T_NULLIF :: int where [simp]: "T_NULLIF = 169"
definition T_UNION :: int where [simp]: "T_UNION = 170"
definition T_INTERSECT :: int where [simp]: "T_INTERSECT = 171"
definition T_EXCEPT :: int where [simp]: "T_EXCEPT = 172"
definition T_ALL :: int where [simp]: "T_ALL = 173"
definition T_ERROR :: int where [simp]: "T_ERROR = - 1"

text \<open>The map \<open>keywords\<close> of \<open>lx.go\<close>, as the list of its entries; no key occurs twice.\<close>

definition lx_keywords :: "(string \<times> int) list" where
  "lx_keywords =
    [(''CREATE'', T_CREATE), (''DROP'', T_DROP), (''INSERT'', T_INSERT), (''INTO'', T_INTO), 
     (''UPDATE'', T_UPDATE), (''DELETE'', T_DELETE), (''SELECT'', T_SELECT), (''FROM'', T_FROM), 
     (''WHERE'', T_WHERE), (''AND'', T_AND), (''OR'', T_OR), (''NOT'', T_NOT), (''IN'', T_IN), 
     (''BETWEEN'', T_BETWEEN), (''LIKE'', T_LIKE), (''IS'', T_IS), (''NULL'', T_NULL), 
     (''BEGIN'', T_BEGIN), (''COMMIT'', T_COMMIT), (''ROLLBACK'', T_ROLLBACK), (''AS'', T_AS), 
     (''BY'', T_BY), (''ASC'', T_ASC), (''DESC'', T_DESC), (''LIMIT'', T_LIMIT), 
     (''OFFSET'', T_OFFSET), (''TABLE'', T_TABLE), (''INDEX'', T_INDEX), (''PRIMARY'', T_PRIMARY), 
     (''KEY'', T_KEY), (''NOTNULL'', T_NOTNULL), (''DEFAULT'', T_DEFAULT), (''CHECK'', T_CHECK), 
     (''UNIQUE'', T_UNIQUE), (''INTEGER'', T_INT_KW), (''INT'', T_INT_KW), (''BIGINT'', T_BIGINT), 
     (''FLOAT'', T_FLOAT_KW), (''REAL'', T_FLOAT_KW), (''DOUBLE'', T_FLOAT_KW), (''BOOL'', T_BOOL), 
     (''BOOLEAN'', T_BOOL), (''TEXT'', T_TEXT), (''BLOB'', T_BLOB), (''VARCHAR'', T_VARCHAR), 
     (''TIMESTAMP'', T_TIMESTAMP), (''NUMERIC'', T_NUMERIC), (''DATE'', T_DATE), (''TIME'', T_TIME), 
     (''JSON'', T_JSON), (''DECIMAL'', T_DECIMAL), (''VALUES'', T_VALUES), (''SET'', T_SET), 
     (''ORDER'', T_ORDER), (''JOIN'', T_JOIN), (''LEFT'', T_LEFT), (''RIGHT'', T_RIGHT), 
     (''INNER'', T_INNER), (''CROSS'', T_CROSS), (''ON'', T_ON), (''USING'', T_USING), 
     (''GROUP'', T_GROUP), (''HAVING'', T_HAVING), (''COUNT'', T_COUNT), (''SUM'', T_SUM), 
     (''AVG'', T_AVG), (''MIN'', T_MIN), (''MAX'', T_MAX), (''DISTINCT'', T_DISTINCT), 
     (''CASE'', T_CASE), (''WHEN'', T_WHEN), (''THEN'', T_THEN), (''ELSE'', T_ELSE), (''END'', T_END), 
     (''EXISTS'', T_EXISTS), (''ANALYZE'', T_ANALYZE), (''VACUUM'', T_VACUUM), (''BEFORE'', T_BEFORE), 
     (''AFTER'', T_AFTER), (''INSTEAD'', T_INSTEAD), (''OF'', T_OF), (''FOR'', T_FOR), 
     (''EACH'', T_EACH), (''OUTER'', T_OUTER), (''FULL'', T_FULL), (''INTERVAL'', T_INTERVAL), 
     (''OVER'', T_OVER), (''PARTITION'', T_PARTITION), (''ROWS'', T_ROWS), (''RANGE'', T_RANGE), 
     (''PRECEDING'', T_PRECEDING), (''FOLLOWING'', T_FOLLOWING), (''CURRENT'', T_CURRENT), 
     (''UNBOUNDED'', T_UNBOUNDED), (''ROW_NUMBER'', T_ROW_NUMBER), (''RANK'', T_RANK), 
     (''DENSE_RANK'', T_DENSE_RANK), (''LAG'', T_LAG), (''LEAD'', T_LEAD), 
     (''FIRST_VALUE'', T_FIRST_VALUE), (''LAST_VALUE'', T_LAST_VALUE), (''NTH_VALUE'', T_NTH_VALUE), 
     (''ROW'', T_ROW), (''TRANSACTION'', T_TRANSACTION), (''ISOLATION'', T_ISOLATION), 
     (''LEVEL'', T_LEVEL), (''COALESCE'', T_COALESCE), (''NULLIF'', T_NULLIF), (''UNION'', T_UNION), 
     (''INTERSECT'', T_INTERSECT), (''EXCEPT'', T_EXCEPT), (''ALL'', T_ALL), (''READ'', T_READ), 
     (''COMMITTED'', T_COMMITTED), (''UNCOMMITTED'', T_UNCOMMITTED), (''REPEATABLE'', T_REPEATABLE), 
     (''SERIALIZABLE'', T_SERIALIZABLE), (''VIEW'', T_VIEW), (''TRIGGER'', T_TRIGGER), 
     (''TEMP'', T_TEMP), (''TEMPORARY'', T_TEMPORARY), (''ALTER'', T_ALTER), (''COLUMN'', T_COLUMN), 
     (''ADD'', T_ADD), (''RENAME'', T_RENAME), (''FETCH'', T_FETCH), (''ONLY'', T_ONLY), 
     (''REFERENCES'', T_REFERENCES), (''FOREIGN'', T_FOREIGN), (''CASCADE'', T_CASCADE), 
     (''RESTRICT'', T_RESTRICT), (''NO'', T_NO), (''ACTION'', T_ACTION), (''PRAGMA'', T_PRAGMA), 
     (''CAST'', T_CAST), (''TRUE'', T_TRUE), (''FALSE'', T_FALSE), (''EXPLAIN'', T_EXPLAIN), 
     (''QUERY'', T_QUERY), (''PLAN'', T_PLAN), (''RETURNING'', T_RETURNING), 
     (''CONFLICT'', T_CONFLICT), (''DO'', T_DO), (''NOTHING'', T_NOTHING), (''EXCLUDED'', T_EXCLUDED), 
     (''WITH'', T_WITH), (''SAVEPOINT'', T_SAVEPOINT), (''RELEASE'', T_RELEASE), (''TO'', T_TO)]"

text \<open>The array \<open>tokenTypeNames\<close>.\<close>

definition tokenTypeNames :: "(int \<times> string) list" where
  "tokenTypeNames =
    [(T_EOF, ''EOF''), (T_IDENT, ''IDENT''), (T_STRING, ''STRING''), (T_INT, ''INT''), 
     (T_FLOAT, ''FLOAT''), (T_BIND, ''BIND''), (T_EQ, ''EQ''), (T_NE, ''NE''), (T_LT, ''LT''), 
     (T_LE, ''LE''), (T_GT, ''GT''), (T_GE, ''GE''), (T_PLUS, ''PLUS''), (T_MINUS, ''MINUS''), 
     (T_STAR, ''STAR''), (T_SLASH, ''SLASH''), (T_LPAREN, ''LPAREN''), (T_RPAREN, ''RPAREN''), 
     (T_COMMA, ''COMMA''), (T_DOT, ''DOT''), (T_SEMICOLON, ''SEMICOLON''), (T_COLON, ''COLON''), 
     (T_CREATE, ''CREATE''), (T_DROP, ''DROP''), (T_INSERT, ''INSERT''), (T_UPDATE, ''UPDATE''), 
     (T_DELETE, ''DELETE''), (T_SELECT, ''SELECT''), (T_FROM, ''FROM''), (T_WHERE, ''WHERE''), 
     (T_AND, ''AND''), (T_OR, ''OR''), (T_BEFORE, ''BEFORE''), (T_AFTER, ''AFTER''), (T_NOT, ''NOT''), 
     (T_IN, ''IN''), (T_BETWEEN, ''BETWEEN''), (T_LIKE, ''LIKE''), (T_IS, ''IS''), (T_NULL, ''NULL''), 
     (T_BEGIN, ''BEGIN''), (T_COMMIT, ''COMMIT''), (T_ROLLBACK, ''ROLLBACK''), (T_AS, ''AS''), 
     (T_BY, ''BY''), (T_ASC, ''ASC''), (T_DESC, ''DESC''), (T_LIMIT, ''LIMIT''), 
     (T_OFFSET, ''OFFSET''), (T_TABLE, ''TABLE''), (T_INDEX, ''INDEX''), (T_PRIMARY, ''PRIMARY''), 
     (T_KEY, ''KEY''), (T_NOTNULL, ''NOTNULL''), (T_DEFAULT, ''DEFAULT''), (T_CHECK, ''CHECK''), 
     (T_UNIQUE, ''UNIQUE''), (T_INT_KW, ''INT_KW''), (T_BIGINT, ''BIGINT''), 
     (T_FLOAT_KW, ''FLOAT_KW''), (T_BOOL, ''BOOL''), (T_TEXT, ''TEXT''), (T_BLOB, ''BLOB''), 
     (T_VARCHAR, ''VARCHAR''), (T_TIMESTAMP, ''TIMESTAMP''), (T_NUMERIC, ''NUMERIC''), 
     (T_DATE, ''DATE''), (T_TIME, ''TIME''), (T_JSON, ''JSON''), (T_DECIMAL, ''DECIMAL''), 
     (T_VALUES, ''VALUES''), (T_SET, ''SET''), (T_INTO, ''INTO''), (T_ORDER, ''ORDER''), 
     (T_JOIN, ''JOIN''), (T_LEFT, ''LEFT''), (T_RIGHT, ''RIGHT''), (T_INNER, ''INNER''), 
     (T_CROSS, ''CROSS''), (T_ON, ''ON''), (T_USING, ''USING''), (T_GROUP, ''GROUP''), 
     (T_HAVING, ''HAVING''), (T_COUNT, ''COUNT''), (T_SUM, ''SUM''), (T_AVG, ''AVG''), 
     (T_MIN, ''MIN''), (T_MAX, ''MAX''), (T_DISTINCT, ''DISTINCT''), (T_CASE, ''CASE''), 
     (T_WHEN, ''WHEN''), (T_THEN, ''THEN''), (T_ELSE, ''ELSE''), (T_END, ''END''), (T_CAST, ''CAST''), 
     (T_EXISTS, ''EXISTS''), (T_ANALYZE, ''ANALYZE''), (T_VACUUM, ''VACUUM''), (T_TRUE, ''TRUE''), 
     (T_FALSE, ''FALSE''), (T_OUTER, ''OUTER''), (T_FULL, ''FULL''), (T_PRAGMA, ''PRAGMA''), 
     (T_INTERVAL, ''INTERVAL''), (T_OVER, ''OVER''), (T_PARTITION, ''PARTITION''), (T_ROWS, ''ROWS''), 
     (T_RANGE, ''RANGE''), (T_PRECEDING, ''PRECEDING''), (T_FOLLOWING, ''FOLLOWING''), 
     (T_CURRENT, ''CURRENT''), (T_UNBOUNDED, ''UNBOUNDED''), (T_ROW_NUMBER, ''ROW_NUMBER''), 
     (T_RANK, ''RANK''), (T_DENSE_RANK, ''DENSE_RANK''), (T_LAG, ''LAG''), (T_LEAD, ''LEAD''), 
     (T_FIRST_VALUE, ''FIRST_VALUE''), (T_LAST_VALUE, ''LAST_VALUE''), (T_NTH_VALUE, ''NTH_VALUE''), 
     (T_ROW, ''ROW''), (T_TRANSACTION, ''TRANSACTION''), (T_ISOLATION, ''ISOLATION''), 
     (T_LEVEL, ''LEVEL''), (T_READ, ''READ''), (T_COMMITTED, ''COMMITTED''), 
     (T_UNCOMMITTED, ''UNCOMMITTED''), (T_REPEATABLE, ''REPEATABLE''), 
     (T_SERIALIZABLE, ''SERIALIZABLE''), (T_VIEW, ''VIEW''), (T_TRIGGER, ''TRIGGER''), 
     (T_TEMP, ''TEMP''), (T_TEMPORARY, ''TEMPORARY''), (T_ALTER, ''ALTER''), (T_COLUMN, ''COLUMN''), 
     (T_ADD, ''ADD''), (T_RENAME, ''RENAME''), (T_FETCH, ''FETCH''), (T_FIRST, ''FIRST''), 
     (T_ONLY, ''ONLY''), (T_EXPLAIN, ''EXPLAIN''), (T_QUERY, ''QUERY''), (T_PLAN, ''PLAN''), 
     (T_RETURNING, ''RETURNING''), (T_CONFLICT, ''CONFLICT''), (T_DO, ''DO''), 
     (T_NOTHING, ''NOTHING''), (T_EXCLUDED, ''EXCLUDED''), (T_WITH, ''WITH''), 
     (T_SAVEPOINT, ''SAVEPOINT''), (T_RELEASE, ''RELEASE''), (T_TO, ''TO''), 
     (T_REFERENCES, ''REFERENCES''), (T_FOREIGN, ''FOREIGN''), (T_CASCADE, ''CASCADE''), 
     (T_RESTRICT, ''RESTRICT''), (T_NO, ''NO''), (T_ACTION, ''ACTION''), (T_BITAND, ''BITAND''), 
     (T_BITOR, ''BITOR''), (T_BITXOR, ''BITXOR''), (T_BITNOT, ''BITNOT''), (T_MOD, ''MOD''), 
     (T_CONCAT, ''CONCAT''), (T_COALESCE, ''COALESCE''), (T_NULLIF, ''NULLIF''), (T_UNION, ''UNION''), 
     (T_INTERSECT, ''INTERSECT''), (T_EXCEPT, ''EXCEPT''), (T_ALL, ''ALL'')]"

subsection \<open>Tokens\<close>

datatype lx_err = ErrUnexpectedChar | ErrUnterminatedString | ErrInvalidInt | ErrIntOverflow

text \<open>The field \<open>Literal any\<close>: nil, an error, a string or an int64.\<close>

datatype literal = LNil | LErr lx_err | LStr string | LInt int

record token =
  tk_type :: int
  tk_lexeme :: string
  tk_lit :: literal
  tk_line :: int
  tk_col :: int

text \<open>
  The array \<open>tokenTypeNames\<close> has an index for every type up to the greatest key, \<open>T_ALL\<close>; an index
  without an entry holds the empty string. \<open>T_ERROR\<close> is \<open>-1\<close>: the bound of \<open>String\<close> lets it pass and
  the index expression panics.
\<close>

definition token_name_at :: "int \<Rightarrow> string" where
  "token_name_at t = (case map_of tokenTypeNames t of Some s \<Rightarrow> s | None \<Rightarrow> [])"

definition Token_String :: "token \<Rightarrow> (lx_err, string) outcome" where
  "Token_String t =
     (if tk_type t < T_ALL + 1 then
        if tk_type t < 0 then Panic
        else if token_name_at (tk_type t) \<noteq> [] then Ok (token_name_at (tk_type t) @ '':'' @ tk_lexeme t)
        else Ok (''UNKNOWN:'' @ tk_lexeme t)
      else Ok (''UNKNOWN:'' @ tk_lexeme t))"

definition IsEOF :: "token \<Rightarrow> bool" where
  "IsEOF t \<longleftrightarrow> tk_type t = T_EOF"

definition IsError :: "token \<Rightarrow> bool" where
  "IsError t \<longleftrightarrow> tk_type t = T_ERROR"

subsection \<open>Character classes\<close>

text \<open>
  The lexer converts one byte to a rune, so it asks the \<open>unicode\<close> package about the code points 0 to
  255 only. These are the package's answers on that range.
\<close>

definition ch :: "char \<Rightarrow> nat" where
  "ch c = of_char c"

definition is_letter :: "char \<Rightarrow> bool" where
  "is_letter c =
     (let n = ch c in (65 \<le> n \<and> n \<le> 90) \<or> (97 \<le> n \<and> n \<le> 122) \<or> n = 170 \<or> n = 181 \<or> n = 186 \<or>
        (192 \<le> n \<and> n \<noteq> 215 \<and> n \<noteq> 247))"

definition is_digit :: "char \<Rightarrow> bool" where
  "is_digit c = (48 \<le> ch c \<and> ch c \<le> 57)"

definition is_space :: "char \<Rightarrow> bool" where
  "is_space c = (let n = ch c in (9 \<le> n \<and> n \<le> 13) \<or> n = 32 \<or> n = 133 \<or> n = 160)"

definition upper_char :: "char \<Rightarrow> char" where
  "upper_char c = (if 97 \<le> ch c \<and> ch c \<le> 122 then char_of (ch c - 32) else c)"

definition lower_char :: "char \<Rightarrow> char" where
  "lower_char c = (if 65 \<le> ch c \<and> ch c \<le> 90 then char_of (ch c + 32) else c)"

definition ascii_upper :: "string \<Rightarrow> string" where
  "ascii_upper s = map upper_char s"

definition ascii_lower :: "string \<Rightarrow> string" where
  "ascii_lower s = map lower_char s"

lemma ch_less: "ch c < 256"
  by (simp add: ch_def)

lemma ch_inject [simp]: "ch c = ch d \<longleftrightarrow> c = d"
  by (simp add: ch_def)

lemma error_token_has_no_name: "Token_String t = Panic \<longleftrightarrow> tk_type t < 0"
  by (auto simp: Token_String_def)

subsection \<open>Decimal numerals\<close>

text \<open>\<open>strconv.FormatInt(i, 10)\<close>, which is also the verb \<open>%d\<close>.\<close>

definition digit_char :: "nat \<Rightarrow> char" where
  "digit_char d = char_of (48 + d)"

fun nat_str :: "nat \<Rightarrow> string" where
  "nat_str n = (if n < 10 then [digit_char n] else nat_str (n div 10) @ [digit_char (n mod 10)])"

declare nat_str.simps [simp del]

definition FormatInt :: "int \<Rightarrow> string" where
  "FormatInt i = (if i < 0 then CHR ''-'' # nat_str (nat (- i)) else nat_str (nat i))"

lemma ch_digit [simp]: "d < 10 \<Longrightarrow> ch (digit_char d) = 48 + d"
  by (simp add: ch_def digit_char_def)

lemma nat_str_digits: "c \<in> set (nat_str n) \<Longrightarrow> 48 \<le> ch c \<and> ch c \<le> 57"
proof (induction n arbitrary: c rule: nat_str.induct)
  case (1 n)
  then show ?case by (subst (asm) nat_str.simps) (auto split: if_splits)
qed

lemma nat_str_not_Nil [simp]: "nat_str n \<noteq> []"
  by (simp add: nat_str.simps [of n])

text \<open>The value of a digit string, the reference for the parsers.\<close>

definition digits_val :: "string \<Rightarrow> nat" where
  "digits_val s = foldl (\<lambda>v c. 10 * v + (ch c - 48)) 0 s"

lemma digits_val_snoc [simp]: "digits_val (s @ [c]) = 10 * digits_val s + (ch c - 48)"
  by (simp add: digits_val_def)

lemma digits_val_nat_str [simp]: "digits_val (nat_str n) = n"
proof (induction n rule: nat_str.induct)
  case (1 n)
  then show ?case by (subst nat_str.simps) (simp add: digits_val_def)
qed

end
