(* ===== verification/Sql_Lexer.thy ===== *)
theory Sql_Lexer
  imports Sql_Token
begin

text \<open>
  The SQL lexer (\<open>SQL/LX/lx.go\<close>): the struct \<open>Lexer\<close> with its position, line and column, one
  definition per method. Lemmas: every method keeps the input and never moves back, \<open>Next\<close> always
  consumes input unless it returns \<open>T_EOF\<close> (so scanning a statement ends), line and column describe
  the position, string and integer literals are read back exactly.
\<close>

named_theorems lx_keeps "what the lexer methods keep"

subsection \<open>State\<close>

record lexer =
  lx_input :: string
  lx_pos :: nat
  lx_line :: int
  lx_col :: int
  savedPos :: nat
  savedLine :: int
  savedCol :: int

definition NewLexer :: "string \<Rightarrow> lexer" where
  "NewLexer s = \<lparr>lx_input = s, lx_pos = 0, lx_line = 1, lx_col = 1,
                 savedPos = 0, savedLine = 0, savedCol = 0\<rparr>"

abbreviation NUL :: char where "NUL \<equiv> CHR 0x00"

definition lx_peek :: "lexer \<Rightarrow> char" where
  "lx_peek l = (if length (lx_input l) \<le> lx_pos l then NUL else lx_input l ! lx_pos l)"

definition lx_advance :: "lexer \<Rightarrow> char \<times> lexer" where
  "lx_advance l =
     (if length (lx_input l) \<le> lx_pos l then (NUL, l)
      else let c = lx_input l ! lx_pos l; l1 = l\<lparr>lx_pos := lx_pos l + 1\<rparr>
           in (c, if c = CHR 0x0A then l1\<lparr>lx_line := lx_line l + 1, lx_col := 1\<rparr>
                  else l1\<lparr>lx_col := lx_col l + 1\<rparr>))"

text \<open>\<open>l.advance()\<close> with its result dropped, and the test \<open>len(l.input) > l.pos+1 && l.input[l.pos+1] == c\<close>.\<close>

abbreviation adv :: "lexer \<Rightarrow> lexer" where "adv l \<equiv> snd (lx_advance l)"

definition next_is :: "lexer \<Rightarrow> char \<Rightarrow> bool" where
  "next_is l c \<longleftrightarrow> lx_pos l + 1 < length (lx_input l) \<and> lx_input l ! (lx_pos l + 1) = c"

text \<open>What is left of the input; the line and column of a byte, from the text before it; and the step a
  method may make: same input, position not moved back, line and column right if they were.\<close>

definition lx_rest :: "lexer \<Rightarrow> string" where
  "lx_rest l = drop (lx_pos l) (lx_input l)"

definition line_col :: "string \<Rightarrow> int \<times> int" where
  "line_col s = (1 + int (length (filter (\<lambda>c. c = CHR 0x0A) s)),
                 1 + int (length (takeWhile (\<lambda>c. c \<noteq> CHR 0x0A) (rev s))))"

definition lx_wf :: "lexer \<Rightarrow> bool" where
  "lx_wf l \<longleftrightarrow> lx_pos l \<le> length (lx_input l) \<and>
     (lx_line l, lx_col l) = line_col (take (lx_pos l) (lx_input l))"

definition lx_le :: "lexer \<Rightarrow> lexer \<Rightarrow> bool" where
  "lx_le l l' \<longleftrightarrow> lx_input l' = lx_input l \<and> lx_pos l \<le> lx_pos l' \<and>
     (lx_pos l' \<le> length (lx_input l) \<or> lx_pos l' = lx_pos l) \<and> (lx_wf l \<longrightarrow> lx_wf l') \<and>
     savedPos l' = savedPos l \<and> savedLine l' = savedLine l \<and> savedCol l' = savedCol l"

lemma lx_le_refl [simp]: "lx_le l l"
  by (simp add: lx_le_def)

lemma lx_le_trans [trans]: "lx_le a b \<Longrightarrow> lx_le b c \<Longrightarrow> lx_le a c"
  by (auto simp: lx_le_def)

lemma adv_wf: "lx_wf l \<Longrightarrow> lx_wf (adv l)"
  by (simp add: lx_wf_def lx_advance_def Let_def take_Suc_conv_app_nth line_col_def)

lemma adv_le [lx_keeps]: "lx_le l (adv l)"
  using adv_wf [of l] by (auto simp: lx_le_def lx_advance_def Let_def)

lemma adv_input [simp]: "lx_input (adv l) = lx_input l"
  by (auto simp: lx_advance_def Let_def)

lemma adv_pos: "lx_pos (adv l) = (if lx_pos l < length (lx_input l) then lx_pos l + 1 else lx_pos l)"
  by (auto simp: lx_advance_def Let_def)

lemma peek_inside: "lx_peek l \<noteq> NUL \<Longrightarrow> lx_pos l < length (lx_input l)"
  by (simp add: lx_peek_def split: if_splits)

lemma fst_advance: "fst (lx_advance l) = lx_peek l"
  by (simp add: lx_advance_def lx_peek_def Let_def)

definition lx_left :: "lexer \<Rightarrow> nat" where
  "lx_left l = length (lx_input l) - lx_pos l"

lemma adv_left: "lx_pos l < length (lx_input l) \<Longrightarrow> lx_left (adv l) < lx_left l"
  by (simp add: lx_left_def adv_pos)

lemma le_left: "lx_le l l' \<Longrightarrow> lx_left l' \<le> lx_left l"
  by (auto simp: lx_le_def lx_left_def)

subsection \<open>White space and comments\<close>

function lx_skip_line :: "lexer \<Rightarrow> lexer" where
  "lx_skip_line l =
     (if lx_peek l \<noteq> CHR 0x0A \<and> lx_peek l \<noteq> NUL then lx_skip_line (adv l) else l)"
  by pat_completeness auto
termination by (relation "measure lx_left") (auto intro: adv_left peek_inside)

declare lx_skip_line.simps [simp del]

function lx_skip_block :: "lexer \<Rightarrow> lexer" where
  "lx_skip_block l =
     (if lx_peek l = CHR ''*'' \<and> next_is l (CHR ''/'') then adv (adv l)
      else if fst (lx_advance l) = NUL then adv l
      else lx_skip_block (adv l))"
  by pat_completeness auto
termination by (relation "measure lx_left") (auto intro: adv_left peek_inside simp: fst_advance)

declare lx_skip_block.simps [simp del]

lemma lx_skip_line_le [lx_keeps]: "lx_le l (lx_skip_line l)"
proof (induction l rule: lx_skip_line.induct)
  case (1 l)
  then show ?case
    by (subst lx_skip_line.simps) (auto intro: lx_le_trans [OF adv_le])
qed

lemma lx_skip_block_le [lx_keeps]: "lx_le l (lx_skip_block l)"
proof (induction l rule: lx_skip_block.induct)
  case (1 l)
  then show ?case
    by (subst lx_skip_block.simps) (auto intro: lx_le_trans [OF adv_le] adv_le)
qed

function lx_skip :: "lexer \<Rightarrow> lexer" where
  "lx_skip l =
     (let c = lx_peek l
      in if c = NUL then l
         else if is_space c then lx_skip (adv l)
         else if c = CHR ''-'' \<and> next_is l (CHR ''-'') then lx_skip (lx_skip_line (adv (adv l)))
         else if c = CHR ''/'' \<and> next_is l (CHR ''*'') then lx_skip (lx_skip_block (adv (adv l)))
         else l)"
  by pat_completeness auto
termination
proof (relation "measure lx_left")
  fix l x assume "x = lx_peek l" "x \<noteq> NUL"
  then have a: "lx_left (adv l) < lx_left l" by (intro adv_left peek_inside) simp
  have b: "lx_left (f (adv (adv l))) < lx_left l" if "\<And>k. lx_le k (f k)" for f
    using le_left [OF that [of "adv (adv l)"]] le_left [OF adv_le [of "adv l"]] a by linarith
  show "(adv l, l) \<in> measure lx_left" "(lx_skip_line (adv (adv l)), l) \<in> measure lx_left"
    "(lx_skip_block (adv (adv l)), l) \<in> measure lx_left"
    using a b [OF lx_skip_line_le] b [OF lx_skip_block_le] by simp_all
qed simp

declare lx_skip.simps [simp del]

lemma adv_adv_le: "(\<And>k. lx_le k (f k)) \<Longrightarrow> lx_le l (f (adv (adv l)))"
  by (meson adv_le lx_le_trans)

lemma lx_skip_le [lx_keeps]: "lx_le l (lx_skip l)"
proof (induction l rule: lx_skip.induct)
  case (1 l)
  define c where "c = lx_peek l"
  note ih = 1 [OF c_def]
  have s: "lx_skip l = (if c = NUL then l else if is_space c then lx_skip (adv l)
      else if c = CHR ''-'' \<and> next_is l (CHR ''-'') then lx_skip (lx_skip_line (adv (adv l)))
      else if c = CHR ''/'' \<and> next_is l (CHR ''*'') then lx_skip (lx_skip_block (adv (adv l))) else l)"
    by (subst lx_skip.simps) (simp add: Let_def c_def)
  show ?case
    unfolding s
    using lx_le_trans [OF adv_le ih(1)] lx_le_trans [OF adv_adv_le [OF lx_skip_line_le] ih(2)]
      lx_le_trans [OF adv_adv_le [OF lx_skip_block_le] ih(3)]
    by (simp split del: if_split cong: if_cong split: if_split)
qed

subsection \<open>Tokens\<close>

definition tok :: "int \<Rightarrow> string \<Rightarrow> literal \<Rightarrow> lexer \<Rightarrow> token" where
  "tok t s v start =
     \<lparr>tk_type = t, tk_lexeme = s, tk_lit = v, tk_line = lx_line start, tk_col = lx_col start\<rparr>"

function lx_string_loop :: "lexer \<Rightarrow> string \<Rightarrow> lexer \<Rightarrow> token \<times> lexer" where
  "lx_string_loop start sb l =
     (let c = lx_peek l
      in if c = NUL then (tok T_ERROR [] (LErr ErrUnterminatedString) start, l)
         else if c = CHR 0x27 then
           if next_is l (CHR 0x27) then lx_string_loop start (sb @ [CHR 0x27]) (adv (adv l))
           else (tok T_STRING sb (LStr sb) start, adv l)
         else lx_string_loop start (sb @ [fst (lx_advance l)]) (adv l))"
  by pat_completeness auto
termination
proof (relation "measure (\<lambda>(_, _, l). lx_left l)")
  fix start l :: lexer and sb :: string and x
  assume "x = lx_peek l" "x \<noteq> NUL"
  then have a: "lx_left (adv l) < lx_left l" by (intro adv_left peek_inside) simp
  then show "((start, sb @ [fst (lx_advance l)], adv l), start, sb, l) \<in> measure (\<lambda>(_, _, l). lx_left l)"
    "((start, sb @ [CHR 0x27], adv (adv l)), start, sb, l) \<in> measure (\<lambda>(_, _, l). lx_left l)"
    using le_left [OF adv_le [of "adv l"]] by simp_all
qed simp

declare lx_string_loop.simps [simp del]

definition scanString :: "lexer \<Rightarrow> token \<times> lexer" where
  "scanString l = lx_string_loop l [] (adv l)"

definition ident_char :: "char \<Rightarrow> bool" where
  "ident_char c \<longleftrightarrow> is_letter c \<or> is_digit c \<or> c = CHR ''_''"

function lx_ident_loop :: "string \<Rightarrow> lexer \<Rightarrow> string \<times> lexer" where
  "lx_ident_loop sb l =
     (let c = lx_peek l
      in if c = NUL \<or> \<not> ident_char c then (sb, l) else lx_ident_loop (sb @ [fst (lx_advance l)]) (adv l))"
  by pat_completeness auto
termination by (relation "measure (\<lambda>(_, l). lx_left l)") (auto intro: adv_left peek_inside)

declare lx_ident_loop.simps [simp del]

text \<open>
  \<open>keywords[strings.ToUpper(ident)]\<close>. \<open>ToUpper\<close> maps more than the ASCII letters, but an
  identifier with a byte above 127 is no keyword either way: the only code points outside ASCII with an
  ASCII capital, U+0131 and U+017F, have the second bytes B1 and BF, which no identifier contains.
\<close>

definition scanIdent :: "lexer \<Rightarrow> token \<times> lexer" where
  "scanIdent l =
     (let (ident, l1) = lx_ident_loop [] l
      in case map_of lx_keywords (ascii_upper ident) of
           Some typ \<Rightarrow> (tok typ ident LNil l, l1)
         | None \<Rightarrow> (tok T_IDENT ident LNil l, l1))"

text \<open>\<open>ParseIntLiteral\<close>: the overflow test compares with the truncated quotient before it multiplies.\<close>

fun parse_int_loop :: "int \<Rightarrow> string \<Rightarrow> (lx_err, int) outcome" where
  "parse_int_loop val [] = Ok val"
| "parse_int_loop val (c # s) =
     (if ch c < 48 \<or> 57 < ch c then Fail ErrInvalidInt
      else let d = int (ch c) - 48
           in if (2 ^ 63 - 1 - d) div 10 < val then Fail ErrIntOverflow
              else parse_int_loop (val * 10 + d) s)"

definition ParseIntLiteral :: "string \<Rightarrow> (lx_err, int) outcome" where
  "ParseIntLiteral s = (if s = [] then Fail ErrInvalidInt else parse_int_loop 0 s)"

function lx_number_loop :: "bool \<Rightarrow> string \<Rightarrow> lexer \<Rightarrow> bool \<times> string \<times> lexer" where
  "lx_number_loop hasDot sb l =
     (let c = lx_peek l
      in if c = NUL \<or> (\<not> is_digit c \<and> c \<noteq> CHR ''.'') then (hasDot, sb, l)
         else if c = CHR ''.'' \<and> hasDot then (hasDot, sb, l)
         else lx_number_loop (hasDot \<or> c = CHR ''.'') (sb @ [fst (lx_advance l)]) (adv l))"
  by pat_completeness auto
termination by (relation "measure (\<lambda>(_, _, l). lx_left l)") (auto intro: adv_left peek_inside)

declare lx_number_loop.simps [simp del]

definition scanNumber :: "lexer \<Rightarrow> token \<times> lexer" where
  "scanNumber l =
     (let (hasDot, lit, l1) = lx_number_loop False [] l
      in if hasDot then (tok T_FLOAT lit (LStr lit) l, l1)
         else case ParseIntLiteral lit of
                Ok val \<Rightarrow> (tok T_INT lit (LInt val) l, l1)
              | Fail e \<Rightarrow> (tok T_ERROR [] (LErr e) l, l1)
              | Panic \<Rightarrow> (tok T_ERROR [] LNil l, l1))"

text \<open>The one-byte operators of the \<open>switch\<close> in \<open>scanOperator\<close>.\<close>

definition one_char_ops :: "(char \<times> int) list" where
  "one_char_ops =
     [(CHR ''='', T_EQ), (CHR ''+'', T_PLUS), (CHR ''-'', T_MINUS), (CHR ''*'', T_STAR),
      (CHR ''/'', T_SLASH), (CHR ''('', T_LPAREN), (CHR '')'', T_RPAREN), (CHR '','', T_COMMA),
      (CHR ''.'', T_DOT), (CHR '';'', T_SEMICOLON), (CHR '':'', T_COLON), (CHR ''?'', T_BIND),
      (CHR ''&'', T_BITAND), (CHR ''^'', T_BITXOR), (CHR ''~'', T_BITNOT), (CHR 0x25, T_MOD)]"

definition scanOperator :: "lexer \<Rightarrow> token \<times> lexer" where
  "scanOperator l =
     (let (c, l1) = lx_advance l
      in if c = CHR ''!'' then
           if lx_peek l1 = CHR ''='' then (tok T_NE ''!='' LNil l, adv l1)
           else (tok T_ERROR [] (LErr ErrUnexpectedChar) l, l1)
         else if c = CHR ''<'' then
           if lx_peek l1 = CHR ''='' then (tok T_LE ''<='' LNil l, adv l1) else (tok T_LT ''<'' LNil l, l1)
         else if c = CHR ''>'' then
           if lx_peek l1 = CHR ''='' then (tok T_GE ''>='' LNil l, adv l1) else (tok T_GT ''>'' LNil l, l1)
         else if c = CHR ''|'' then
           if lx_peek l1 = CHR ''|'' then (tok T_CONCAT ''||'' LNil l, adv l1) else (tok T_BITOR ''|'' LNil l, l1)
         else case map_of one_char_ops c of
                Some t \<Rightarrow> (tok t [c] LNil l, l1)
              | None \<Rightarrow> (tok T_ERROR [] (LErr ErrUnexpectedChar) l, l1))"

definition lx_next :: "lexer \<Rightarrow> token \<times> lexer" where
  "lx_next l0 =
     (let l = lx_skip l0
      in if length (lx_input l) \<le> lx_pos l then (tok T_EOF [] LNil l, l)
         else let c = lx_peek l
              in if c = CHR 0x27 then scanString l
                 else if is_letter c \<or> c = CHR ''_'' then scanIdent l
                 else if is_digit c then scanNumber l
                 else scanOperator l)"

definition lx_Peek :: "lexer \<Rightarrow> token \<times> lexer" where
  "lx_Peek l =
     (let l0 = l\<lparr>savedPos := lx_pos l, savedLine := lx_line l, savedCol := lx_col l\<rparr>;
          (token, l1) = lx_next l0
      in (token, l1\<lparr>lx_pos := savedPos l1, lx_line := savedLine l1, lx_col := savedCol l1\<rparr>))"

definition lx_Peek2 :: "lexer \<Rightarrow> token \<times> lexer" where
  "lx_Peek2 l =
     (let (t1, l1) = lx_Peek l
      in if tk_type t1 = T_EOF then (t1, l1)
         else let l2 = snd (lx_next l1); (t2, l3) = lx_Peek l2
              in (t2, l3\<lparr>lx_pos := lx_pos l, lx_line := lx_line l, lx_col := lx_col l\<rparr>))"

subsection \<open>The methods on what is left of the input\<close>

named_theorems lx_rest "the lexer methods in terms of the remaining input"

lemma peek_rest: "lx_peek l = (case lx_rest l of [] \<Rightarrow> NUL | c # r \<Rightarrow> c)"
  by (simp add: lx_peek_def lx_rest_def Cons_nth_drop_Suc [symmetric] split: list.split)

lemma peek_Cons [lx_rest]: "lx_rest l = c # r \<Longrightarrow> lx_peek l = c"
  by (simp add: peek_rest)

lemma rest_adv: "lx_rest (adv l) = tl (lx_rest l)"
  by (simp add: lx_rest_def adv_pos drop_Suc flip: tl_drop)

lemma adv_Cons [lx_rest]: "lx_rest l = c # r \<Longrightarrow> lx_rest (adv l) = r"
  by (simp add: rest_adv)

lemma advance_Cons [lx_rest]: "lx_rest l = c # r \<Longrightarrow> lx_advance l = (c, adv l)"
  by (metis fst_advance peek_Cons prod.collapse)

lemma next_is_rest: "next_is l c \<longleftrightarrow> (\<exists>a r. lx_rest l = a # c # r)"
proof -
  have d: "drop (lx_pos l + 1) (lx_input l) = tl (lx_rest l)"
    by (simp add: lx_rest_def drop_Suc flip: tl_drop)
  have "next_is l c \<longleftrightarrow> (\<exists>r. tl (lx_rest l) = c # r)"
  proof (cases "lx_pos l + 1 < length (lx_input l)")
    case True
    then have "tl (lx_rest l) = lx_input l ! (lx_pos l + 1) # drop (Suc (lx_pos l + 1)) (lx_input l)"
      using Cons_nth_drop_Suc [OF True] d by simp
    then show ?thesis using True by (auto simp: next_is_def)
  next
    case False
    then have "tl (lx_rest l) = []" by (simp flip: d)
    then show ?thesis using False by (simp add: next_is_def)
  qed
  then show ?thesis by (cases "lx_rest l") auto
qed

lemma next_is_Cons [lx_rest]: "lx_rest l = a # r \<Longrightarrow> next_is l c \<longleftrightarrow> (\<exists>r'. r = c # r')"
  by (auto simp: next_is_rest)

lemma rest_NewLexer [simp]: "lx_rest (NewLexer s) = s"
  by (simp add: lx_rest_def NewLexer_def)

lemma rest_empty: "lx_rest l = [] \<longleftrightarrow> length (lx_input l) \<le> lx_pos l"
  by (simp add: lx_rest_def)

text \<open>\<open>lex_to l t l'\<close>: \<open>Next\<close> on \<open>l\<close> yields \<open>t\<close> at the line and column where its first byte stands.\<close>

definition lx_skipped :: "lexer \<Rightarrow> bool" where
  "lx_skipped l \<longleftrightarrow> (case lx_rest l of [] \<Rightarrow> True
     | c # r \<Rightarrow> c = NUL \<or> \<not> is_space c \<and> \<not> (c = CHR ''-'' \<and> (\<exists>r'. r = CHR ''-'' # r')) \<and>
          \<not> (c = CHR ''/'' \<and> (\<exists>r'. r = CHR ''*'' # r')))"

lemma skip_skipped: "lx_skipped l \<Longrightarrow> lx_skip l = l"
  by (subst lx_skip.simps) (auto simp: Let_def lx_skipped_def peek_rest next_is_rest split: list.splits)

lemma skip_space: "lx_rest l = c # r \<Longrightarrow> is_space c \<Longrightarrow> c \<noteq> NUL \<Longrightarrow> lx_skip l = lx_skip (adv l)"
  by (subst lx_skip.simps) (simp add: Let_def peek_rest)

lemma skip_stops: "lx_skipped (lx_skip l)"
proof (induction l rule: lx_skip.induct)
  case (1 l)
  define c where "c = lx_peek l"
  note ih = 1 [OF c_def]
  have s: "lx_skip l = (if c = NUL then l else if is_space c then lx_skip (adv l)
      else if c = CHR ''-'' \<and> next_is l (CHR ''-'') then lx_skip (lx_skip_line (adv (adv l)))
      else if c = CHR ''/'' \<and> next_is l (CHR ''*'') then lx_skip (lx_skip_block (adv (adv l))) else l)"
    by (subst lx_skip.simps) (simp add: Let_def c_def)
  show ?case
    unfolding s using ih
    by (auto simp: lx_skipped_def c_def peek_rest next_is_rest split: list.splits)
qed

subsection \<open>Progress\<close>

lemma lx_string_loop_le [lx_keeps]: "lx_le l (snd (lx_string_loop start sb l))"
proof (induction start sb l rule: lx_string_loop.induct)
  case (1 start sb l)
  note ih = 1 [OF refl]
  show ?case
  proof (cases "lx_peek l = NUL")
    case False
    then show ?thesis
      using lx_le_trans [OF adv_le ih(2)] lx_le_trans [OF adv_adv_le [of "\<lambda>k. k"] ih(1)] adv_le [of l]
      by (subst lx_string_loop.simps) (simp add: Let_def)
  qed (subst lx_string_loop.simps, simp)
qed

lemma lx_ident_loop_le [lx_keeps]: "lx_le l (snd (lx_ident_loop sb l))"
proof (induction sb l rule: lx_ident_loop.induct)
  case (1 sb l)
  note ih = 1 [OF refl]
  show ?case
    using lx_le_trans [OF adv_le ih] by (subst lx_ident_loop.simps) (simp add: Let_def)
qed

lemma lx_number_loop_le [lx_keeps]: "lx_le l (snd (snd (lx_number_loop d sb l)))"
proof (induction d sb l rule: lx_number_loop.induct)
  case (1 d sb l)
  note ih = 1 [OF refl]
  show ?case
    using lx_le_trans [OF adv_le ih] by (subst lx_number_loop.simps) (simp add: Let_def)
qed

text \<open>A method called at a byte of the input consumes at least this byte.\<close>

definition lx_less :: "lexer \<Rightarrow> lexer \<Rightarrow> bool" where
  "lx_less l l' \<longleftrightarrow> lx_le l l' \<and> lx_pos l < lx_pos l' \<and> lx_pos l' \<le> length (lx_input l)"

lemma adv_less: "lx_pos l < length (lx_input l) \<Longrightarrow> lx_less l (adv l)"
  by (simp add: lx_less_def adv_pos adv_le)

lemma lx_less_le: "lx_less a b \<Longrightarrow> lx_le b c \<Longrightarrow> lx_less a c"
  by (auto simp: lx_less_def lx_le_def)

lemma lx_le_less: "lx_le a b \<Longrightarrow> lx_less b c \<Longrightarrow> lx_less a c"
  by (auto simp: lx_less_def lx_le_def)

lemma scanString_less:
  "lx_pos l < length (lx_input l) \<Longrightarrow> lx_less l (snd (scanString l))"
  by (simp add: scanString_def lx_less_le [OF adv_less lx_string_loop_le])

lemma scanIdent_less:
  assumes "lx_pos l < length (lx_input l)" "is_letter (lx_peek l) \<or> lx_peek l = CHR ''_''"
  shows "lx_less l (snd (scanIdent l))"
proof -
  have n: "\<not> (lx_peek l = NUL \<or> \<not> ident_char (lx_peek l))"
    using assms(2) by (auto simp: ident_char_def is_letter_def ch_def)
  have "lx_ident_loop [] l = lx_ident_loop [lx_peek l] (adv l)"
    using n by (subst lx_ident_loop.simps) (simp add: Let_def fst_advance)
  then have "lx_less l (snd (lx_ident_loop [] l))"
    using lx_less_le [OF adv_less [OF assms(1)] lx_ident_loop_le] by simp
  then show ?thesis by (auto simp: scanIdent_def split: prod.splits option.splits)
qed

lemma scanNumber_less:
  assumes "lx_pos l < length (lx_input l)" "is_digit (lx_peek l)"
  shows "lx_less l (snd (scanNumber l))"
proof -
  have n: "lx_peek l \<noteq> NUL" using assms(2) by (auto simp: is_digit_def ch_def)
  have "lx_number_loop False [] l = lx_number_loop (lx_peek l = CHR ''.'') [lx_peek l] (adv l)"
    using n assms(2) by (subst lx_number_loop.simps) (simp add: Let_def fst_advance)
  then have "lx_less l (snd (snd (lx_number_loop False [] l)))"
    using lx_less_le [OF adv_less [OF assms(1)] lx_number_loop_le] by simp
  then show ?thesis by (auto simp: scanNumber_def split: prod.splits outcome.splits)
qed

lemma scanOperator_less:
  assumes "lx_pos l < length (lx_input l)"
  shows "lx_less l (snd (scanOperator l))"
proof -
  have a: "lx_less l (adv l)" "lx_less l (adv (adv l))"
    using adv_less [OF assms] lx_less_le [OF adv_less [OF assms] adv_le] by simp_all
  then show ?thesis
    by (simp add: scanOperator_def split_beta split: option.splits)
qed

lemma tok_type [simp]: "tk_type (tok t s v l) = t"
  by (simp add: tok_def)

lemma next_consumes:
  assumes "lx_next l = (t, l')"
  shows "if tk_type t = T_EOF \<and> lx_rest (lx_skip l) = [] then l' = lx_skip l else lx_less l l'"
proof (cases "lx_rest (lx_skip l) = []")
  case True
  then show ?thesis using assms by (auto simp: lx_next_def Let_def rest_empty)
next
  case False
  then have p: "lx_pos (lx_skip l) < length (lx_input (lx_skip l))" by (simp add: rest_empty)
  have "lx_less (lx_skip l) l'"
    using assms p scanString_less [OF p] scanIdent_less [OF p] scanNumber_less [OF p] scanOperator_less [OF p]
    by (simp add: lx_next_def Let_def split: if_splits)
  then show ?thesis using lx_le_less [OF lx_skip_le] False by simp
qed

text \<open>\<open>Peek\<close> and \<open>Peek2\<close> leave the position where it was.\<close>

lemma next_le: "lx_le l (snd (lx_next l))"
  using next_consumes [of l "fst (lx_next l)" "snd (lx_next l)"] lx_skip_le [of l]
  by (auto simp: lx_less_def split: if_splits)

lemma Peek_stays:
  "lx_Peek l = (t, l') \<Longrightarrow> lx_input l' = lx_input l \<and> lx_pos l' = lx_pos l \<and> lx_line l' = lx_line l \<and> lx_col l' = lx_col l"
proof -
  let ?l0 = "l\<lparr>savedPos := lx_pos l, savedLine := lx_line l, savedCol := lx_col l\<rparr>"
  assume "lx_Peek l = (t, l')"
  then have "l' = (snd (lx_next ?l0))\<lparr>lx_pos := savedPos (snd (lx_next ?l0)), lx_line := savedLine (snd (lx_next ?l0)),
      lx_col := savedCol (snd (lx_next ?l0))\<rparr>"
    by (simp add: lx_Peek_def Let_def split: prod.splits)
  then show ?thesis using next_le [of ?l0] by (simp add: lx_le_def)
qed

lemma Peek2_stays:
  "lx_Peek2 l = (t, l') \<Longrightarrow> lx_input l' = lx_input l \<and> lx_pos l' = lx_pos l"
proof -
  assume p: "lx_Peek2 l = (t, l')"
  obtain t1 l1 where 1: "lx_Peek l = (t1, l1)" by fastforce
  obtain t2 l3 where 3: "lx_Peek (snd (lx_next l1)) = (t2, l3)" by fastforce
  have "lx_input (snd (lx_next l1)) = lx_input l1" using next_le [of l1] by (simp add: lx_le_def)
  then have "lx_input l3 = lx_input l" using Peek_stays [OF 1] Peek_stays [OF 3] by simp
  then show ?thesis using p 1 3 Peek_stays [OF 1] by (auto simp: lx_Peek2_def Let_def split: if_splits)
qed

text \<open>All the tokens of a text: \<open>Next\<close> until it returns \<open>T_EOF\<close>.\<close>

lemma next_eof: "lx_next l = (t, l') \<Longrightarrow> lx_rest (lx_skip l) = [] \<Longrightarrow> tk_type t = T_EOF"
  by (auto simp: lx_next_def Let_def rest_empty)

lemma next_left: "lx_next l = (t, l') \<Longrightarrow> tk_type t \<noteq> T_EOF \<Longrightarrow> lx_left l' < lx_left l"
  using next_consumes [of l t l'] by (auto simp: lx_less_def lx_le_def lx_left_def)

function lex_all :: "lexer \<Rightarrow> token list" where
  "lex_all l = (let (t, l') = lx_next l in if tk_type t = T_EOF then [t] else t # lex_all l')"
  by pat_completeness auto
termination by (relation "measure lx_left") (auto dest: next_left [OF sym])

declare lex_all.simps [simp del]

lemma tok_fields [simp]: "tk_line (tok t s v l) = lx_line l" "tk_col (tok t s v l) = lx_col l"
  "tk_lexeme (tok t s v l) = s" "tk_lit (tok t s v l) = v"
  by (simp_all add: tok_def)

lemma string_loop_at: "tk_line (fst (lx_string_loop s sb l)) = lx_line s \<and> tk_col (fst (lx_string_loop s sb l)) = lx_col s"
proof (induction s sb l rule: lx_string_loop.induct)
  case (1 s sb l)
  note ih = 1 [OF refl]
  show ?case using ih by (subst (1 2) lx_string_loop.simps) (simp add: Let_def)
qed

lemma lx_next_at:
  "tk_line (fst (lx_next l)) = lx_line (lx_skip l) \<and> tk_col (fst (lx_next l)) = lx_col (lx_skip l)"
  by (auto simp: lx_next_def Let_def scanString_def string_loop_at scanIdent_def scanNumber_def
      scanOperator_def split_beta split: option.splits outcome.splits)

text \<open>
  A text of white space and comments: a line comment goes up to a newline or to the end, a block comment up to
  the first \<open>*/\<close>, up to a NUL byte, or to the end of the text.
\<close>

definition no_close :: "string \<Rightarrow> bool" where
  "no_close w \<longleftrightarrow> NUL \<notin> set w \<and> (\<forall>a b. w \<noteq> a @ ''*/'' @ b)"

inductive blank_text :: "string \<Rightarrow> bool" where
  blank_end: "blank_text []"
| blank_space: "is_space c \<Longrightarrow> blank_text s \<Longrightarrow> blank_text (c # s)"
| blank_line: "NUL \<notin> set w \<Longrightarrow> CHR 0x0A \<notin> set w \<Longrightarrow> s = [] \<or> hd s = CHR 0x0A \<Longrightarrow> blank_text s \<Longrightarrow> blank_text (''--'' @ w @ s)"
| blank_block: "no_close w \<Longrightarrow> c = ''*/'' \<or> c = [NUL] \<Longrightarrow> blank_text s \<Longrightarrow> blank_text (''/*'' @ w @ c @ s)"
| blank_open: "no_close w \<Longrightarrow> blank_text (''/*'' @ w)"

lemma no_close_simps [simp]: "no_close []" "no_close (c # w) \<longleftrightarrow> c \<noteq> NUL \<and> \<not> (c = CHR ''*'' \<and> (\<exists>r. w = CHR ''/'' # r)) \<and> no_close w"
  by (auto simp: no_close_def Cons_eq_append_conv)

fun after_block :: "string \<Rightarrow> string" where
  "after_block [] = []"
| "after_block (c # r) =
     (if c = CHR ''*'' \<and> (\<exists>r'. r = CHR ''/'' # r') then tl r else if c = NUL then r else after_block r)"

lemma skip_block_rest: "lx_rest (lx_skip_block l) = after_block (lx_rest l)"
proof (induction l rule: lx_skip_block.induct)
  case (1 l)
  then show ?case
    by (subst lx_skip_block.simps) (auto simp: peek_rest next_is_rest fst_advance rest_adv split: list.splits)
qed

lemma skip_line_rest: "lx_rest (lx_skip_line l) = dropWhile (\<lambda>c. c \<noteq> CHR 0x0A \<and> c \<noteq> NUL) (lx_rest l)"
proof (induction l rule: lx_skip_line.induct)
  case (1 l)
  then show ?case by (subst lx_skip_line.simps) (auto simp: peek_rest rest_adv split: list.splits)
qed

lemma after_block_close: "no_close w \<Longrightarrow> c = ''*/'' \<or> c = [NUL] \<Longrightarrow> after_block (w @ c @ s) = s"
  by (induction w) (auto simp: append_eq_Cons_conv)

lemma after_block_open: "no_close w \<Longrightarrow> after_block w = []"
  by (induction w) auto

lemma after_block_cases:
  obtains w c where "no_close w" "c = ''*/'' \<or> c = [NUL]" "r = w @ c @ after_block r"
  | "no_close r" "after_block r = []"
proof (induction r arbitrary: thesis rule: after_block.induct)
  case 1
  then show ?case by simp
next
  case (2 c r)
  show ?case
  proof (cases "c = CHR ''*'' \<and> (\<exists>r'. r = CHR ''/'' # r')")
    case True
    then show ?thesis using 2(2) [of "[]" "''*/''"] by auto
  next
    case False
    note F = this
    show ?thesis
    proof (cases "c = NUL")
      case True
      then show ?thesis using 2(2) [of "[]" "[NUL]"] by auto
    next
      case n: False
      have a: "after_block (c # r) = after_block r" using F n by auto
      show ?thesis
      proof (rule 2(1) [OF F n])
        fix w d assume w: "no_close w" "d = ''*/'' \<or> d = [NUL]" "r = w @ d @ after_block r"
        have "no_close (c # w)" using w F n by (auto simp: append_eq_Cons_conv)
        then show ?thesis using 2(2) [of "c # w" d] w(2,3) a by simp
      next
        assume "no_close r" "after_block r = []"
        then show ?thesis using 2(3) a F n by simp
      qed
    qed
  qed
qed

lemma skip_blank: "lx_rest (lx_skip l) = [] \<Longrightarrow> blank_text (lx_rest l)"
proof (induction l rule: lx_skip.induct)
  case (1 l)
  define c where "c = lx_peek l"
  note ih = 1(1-3) [OF c_def]
  have s: "lx_skip l = (if c = NUL then l else if is_space c then lx_skip (adv l)
      else if c = CHR ''-'' \<and> next_is l (CHR ''-'') then lx_skip (lx_skip_line (adv (adv l)))
      else if c = CHR ''/'' \<and> next_is l (CHR ''*'') then lx_skip (lx_skip_block (adv (adv l))) else l)"
    by (subst lx_skip.simps) (simp add: Let_def c_def)
  show ?case
  proof (cases "lx_rest l")
    case Nil
    then show ?thesis by (simp add: blank_end)
  next
    case (Cons d r)
    then have d: "c = d" by (simp add: c_def peek_rest)
    consider (sp) "c \<noteq> NUL" "is_space c" | (line) "c \<noteq> NUL" "\<not> is_space c" "c = CHR ''-'' \<and> next_is l (CHR ''-'')"
      | (block) "c \<noteq> NUL" "\<not> is_space c" "\<not> (c = CHR ''-'' \<and> next_is l (CHR ''-''))" "c = CHR ''/'' \<and> next_is l (CHR ''*'')"
      using 1(4) s Cons by (auto split: if_splits)
    then show ?thesis
    proof cases
      case sp
      then have "blank_text r" using ih(1) 1(4) s Cons by (simp add: rest_adv)
      then show ?thesis using Cons d sp by (simp add: blank_space)
    next
      case line
      then obtain r' where r: "lx_rest l = ''--'' @ r'" using Cons d by (auto simp: next_is_rest)
      let ?s = "dropWhile (\<lambda>c. c \<noteq> CHR 0x0A \<and> c \<noteq> NUL) r'"
      have b: "blank_text ?s" using ih(2) 1(4) s line r by (simp add: skip_line_rest rest_adv)
      have "?s = [] \<or> hd ?s = CHR 0x0A"
        using b hd_dropWhile [of "\<lambda>c. c \<noteq> CHR 0x0A \<and> c \<noteq> NUL" r'] by (cases rule: blank_text.cases) (auto simp: is_space_def ch_def)
      moreover have "r' = takeWhile (\<lambda>c. c \<noteq> CHR 0x0A \<and> c \<noteq> NUL) r' @ ?s" by simp
      ultimately show ?thesis using r b blank_line [of "takeWhile (\<lambda>c. c \<noteq> CHR 0x0A \<and> c \<noteq> NUL) r'" ?s]
        by (auto dest: set_takeWhileD)
    next
      case block
      then obtain r' where r: "lx_rest l = ''/*'' @ r'" using Cons d by (auto simp: next_is_rest)
      have b: "blank_text (after_block r')" using ih(3) 1(4) s block r by (simp add: skip_block_rest rest_adv)
      show ?thesis
      proof (rule after_block_cases [of r'])
        fix w e assume "no_close w" "e = ''*/'' \<or> e = [NUL]" "r' = w @ e @ after_block r'"
        then show ?thesis using blank_block [of w e "after_block r'"] b r by metis
      qed (use r blank_open [of r'] in simp)
    qed
  qed
qed

lemma blank_skip: "blank_text s \<Longrightarrow> lx_rest l = s \<Longrightarrow> lx_rest (lx_skip l) = []"
proof (induction arbitrary: l rule: blank_text.induct)
  case blank_end
  then show ?case using skip_skipped [of l] by (simp add: lx_skipped_def)
next
  case (blank_space c s)
  have "c \<noteq> NUL" using blank_space.hyps(1) by (auto simp: is_space_def ch_def)
  then show ?case using skip_space [OF blank_space.prems blank_space.hyps(1)] blank_space.IH [of "adv l"] blank_space.prems
    by (simp add: rest_adv)
next
  case (blank_line w s)
  have "lx_rest (lx_skip_line (adv (adv l))) = dropWhile (\<lambda>c. c \<noteq> CHR 0x0A \<and> c \<noteq> NUL) (w @ s)"
    using blank_line.prems by (simp add: skip_line_rest rest_adv)
  also have "\<dots> = s" using blank_line.hyps by (cases s) (auto simp: dropWhile_append2 dropWhile_append3)
  finally have "lx_rest (lx_skip (lx_skip_line (adv (adv l)))) = []" by (rule blank_line.IH)
  moreover have "lx_skip l = lx_skip (lx_skip_line (adv (adv l)))"
    using blank_line.prems by (subst lx_skip.simps) (simp add: Let_def peek_rest next_is_rest is_space_def ch_def)
  ultimately show ?case by simp
next
  case (blank_block w c s)
  have "lx_rest (lx_skip_block (adv (adv l))) = s"
    using blank_block.prems after_block_close [OF blank_block.hyps(1,2)] by (simp add: skip_block_rest rest_adv)
  then have "lx_rest (lx_skip (lx_skip_block (adv (adv l)))) = []" by (rule blank_block.IH)
  moreover have "lx_skip l = lx_skip (lx_skip_block (adv (adv l)))"
    using blank_block.prems by (subst lx_skip.simps) (simp add: Let_def peek_rest next_is_rest is_space_def ch_def)
  ultimately show ?case by simp
next
  case (blank_open w)
  have "lx_rest (lx_skip_block (adv (adv l))) = []"
    using blank_open.prems after_block_open [OF blank_open.hyps] by (simp add: skip_block_rest rest_adv)
  then have "lx_rest (lx_skip (lx_skip_block (adv (adv l)))) = []"
    using skip_skipped [of "lx_skip_block (adv (adv l))"] by (simp add: lx_skipped_def)
  moreover have "lx_skip l = lx_skip (lx_skip_block (adv (adv l)))"
    using blank_open.prems by (subst lx_skip.simps) (simp add: Let_def peek_rest next_is_rest is_space_def ch_def)
  ultimately show ?case by simp
qed

lemma keyword_types: "map_of lx_keywords w = Some t \<Longrightarrow> t \<noteq> T_EOF"
  by (drule map_of_SomeD) (auto simp: lx_keywords_def)

lemma operator_types: "map_of one_char_ops c = Some t \<Longrightarrow> t \<noteq> T_EOF"
  by (drule map_of_SomeD) (auto simp: one_char_ops_def)

lemma string_loop_type: "tk_type (fst (lx_string_loop s sb l)) \<noteq> T_EOF"
proof (induction s sb l rule: lx_string_loop.induct)
  case (1 s sb l)
  note ih = 1 [OF refl]
  show ?case using ih by (subst lx_string_loop.simps) (simp add: Let_def)
qed

lemma next_type_eof: "tk_type (fst (lx_next l)) = T_EOF \<longleftrightarrow> lx_rest (lx_skip l) = []"
proof
  assume "tk_type (fst (lx_next l)) = T_EOF"
  then show "lx_rest (lx_skip l) = []"
    using string_loop_type
    by (auto simp: lx_next_def Let_def rest_empty scanString_def scanIdent_def scanNumber_def scanOperator_def split_beta
        dest: keyword_types operator_types split: if_splits option.splits outcome.splits)
qed (use next_eof in \<open>metis prod.collapse\<close>)

text \<open>C25. Scanning always ends, and no earlier than it should: \<open>Next\<close> returns \<open>T_EOF\<close> exactly when nothing but
  white space and comments is left of the input, and a call that returns another token, an error token included, has
  moved forward inside the input.\<close>

theorem lexer_progress:
  assumes "lx_next l = (t, l')"
  shows "(tk_type t = T_EOF \<longleftrightarrow> blank_text (lx_rest l)) \<and>
    (tk_type t \<noteq> T_EOF \<longrightarrow> lx_input l' = lx_input l \<and> lx_pos l < lx_pos l' \<and> lx_pos l' \<le> length (lx_input l))"
proof -
  have "tk_type t = T_EOF \<longleftrightarrow> blank_text (lx_rest l)"
    using next_type_eof [of l] skip_blank [of l] blank_skip assms by auto
  then show ?thesis
    using next_consumes [OF assms] by (cases "tk_type t = T_EOF") (auto simp: lx_less_def lx_le_def split: if_splits)
qed

theorem lexer_progress_witness:
  "lx_next (NewLexer ''= 1'') = (tok T_EQ ''='' LNil (NewLexer ''= 1''), adv (NewLexer ''= 1'')) \<and>
   lx_pos (adv (NewLexer ''= 1'')) > 0 \<and> \<not> blank_text ''= 1'' \<and> blank_text '' --x''"
proof -
  have n: "lx_next (NewLexer ''= 1'') = (tok T_EQ ''='' LNil (NewLexer ''= 1''), adv (NewLexer ''= 1''))"
    by code_simp
  obtain t l' where e: "lx_next (NewLexer '' --x'') = (t, l')" by fastforce
  moreover have "tk_type (fst (lx_next (NewLexer '' --x''))) = T_EOF" by code_simp
  ultimately have "tk_type t = T_EOF" by simp
  then show ?thesis using lexer_progress [OF n] lexer_progress [OF e] n by (simp add: NewLexer_def lx_rest_def)
qed

text \<open>C26. The line and column of a token, which syntax errors report, are the place of its first byte in the
  text: the number of newlines before it plus one, and one more than the bytes since the last newline.\<close>

theorem lexer_positions:
  assumes "lx_wf l" "lx_next l = (t, l')"
  shows "lx_wf l' \<and> (tk_line t, tk_col t) = line_col (take (lx_pos (lx_skip l)) (lx_input l))"
proof -
  have s: "lx_le l (lx_skip l)" by (rule lx_skip_le)
  have "lx_le l l'"
    using next_consumes [OF assms(2)] s by (auto simp: lx_less_def split: if_splits)
  moreover have "(tk_line t, tk_col t) = (lx_line (lx_skip l), lx_col (lx_skip l))"
    using lx_next_at [of l] assms(2) by simp
  ultimately show ?thesis using assms(1) s by (auto simp: lx_le_def lx_wf_def)
qed

lemma wf_NewLexer: "lx_wf (NewLexer s)"
  by (simp add: lx_wf_def NewLexer_def line_col_def)

theorem lexer_positions_witness:
  "\<exists>l'. lx_next (NewLexer (CHR 0x0A # '' +'')) = (\<lparr>tk_type = T_PLUS, tk_lexeme = ''+'', tk_lit = LNil,
     tk_line = 2, tk_col = 2\<rparr>, l') \<and> lx_wf l'"
proof -
  let ?l = "NewLexer (CHR 0x0A # '' +'')"
  have t: "fst (lx_next ?l) = \<lparr>tk_type = T_PLUS, tk_lexeme = ''+'', tk_lit = LNil, tk_line = 2, tk_col = 2\<rparr>"
    by code_simp
  have "lx_wf (snd (lx_next ?l))"
    using lexer_positions [OF wf_NewLexer prod.collapse [symmetric]] by blast
  then show ?thesis by (metis t prod.collapse)
qed

subsection \<open>Literals\<close>

text \<open>
  A string literal as the function \<open>QUOTE\<close> of the executor writes it: every quote doubled, quotes around it.
\<close>

fun double_quotes :: "string \<Rightarrow> string" where
  "double_quotes [] = []"
| "double_quotes (c # s) = (if c = CHR 0x27 then CHR 0x27 # CHR 0x27 # double_quotes s else c # double_quotes s)"

definition sql_quote :: "string \<Rightarrow> string" where
  "sql_quote s = CHR 0x27 # double_quotes s @ [CHR 0x27]"

lemma string_loop_quote:
  assumes "NUL \<notin> set s" "lx_rest l = double_quotes s @ CHR 0x27 # r" "\<And>r'. r \<noteq> CHR 0x27 # r'"
  shows "\<exists>l'. lx_string_loop start sb l = (tok T_STRING (sb @ s) (LStr (sb @ s)) start, l') \<and> lx_rest l' = r"
  using assms
proof (induction s arbitrary: sb l)
  case Nil
  then show ?case
    by (subst lx_string_loop.simps) (simp add: Let_def peek_Cons next_is_Cons adv_Cons)
next
  case (Cons c s)
  show ?case
  proof (cases "c = CHR 0x27")
    case True
    have rl: "lx_rest l = CHR 0x27 # CHR 0x27 # double_quotes s @ CHR 0x27 # r" using Cons.prems True by simp
    have "lx_string_loop start sb l = lx_string_loop start (sb @ [CHR 0x27]) (adv (adv l))"
      using rl by (subst lx_string_loop.simps) (simp add: Let_def peek_Cons next_is_Cons)
    moreover have "lx_rest (adv (adv l)) = double_quotes s @ CHR 0x27 # r"
      using adv_Cons [OF adv_Cons [OF rl]] .
    ultimately show ?thesis using Cons.IH [of "adv (adv l)" "sb @ [CHR 0x27]"] Cons.prems True by simp
  next
    case False
    have rl: "lx_rest l = c # double_quotes s @ CHR 0x27 # r" using Cons.prems False by simp
    have "lx_string_loop start sb l = lx_string_loop start (sb @ [c]) (adv l)"
      using rl False Cons.prems(1)
      by (subst lx_string_loop.simps) (auto simp: Let_def peek_Cons fst_advance)
    then show ?thesis using Cons.IH [OF _ adv_Cons [OF rl], of "sb @ [c]"] Cons.prems by simp
  qed
qed

lemma scanString_quote:
  assumes "NUL \<notin> set s" "lx_rest l = sql_quote s @ r" "\<And>r'. r \<noteq> CHR 0x27 # r'"
  shows "\<exists>l'. lx_next l = (tok T_STRING s (LStr s) l, l') \<and> lx_rest l' = r"
proof -
  have rl: "lx_rest l = CHR 0x27 # double_quotes s @ CHR 0x27 # r" using assms(2) by (simp add: sql_quote_def)
  have "lx_skipped l" by (simp add: lx_skipped_def rl is_space_def ch_def)
  then have "lx_next l = scanString l"
    using rl by (simp add: lx_next_def skip_skipped peek_Cons flip: rest_empty)
  then show ?thesis
    using string_loop_quote [of s "adv l" r l "[]"] assms adv_Cons [OF rl] by (simp add: scanString_def)
qed

lemma ident_loop_word:
  assumes "\<And>c. c \<in> set w \<Longrightarrow> ident_char c" "lx_rest l = w @ r" "\<And>c r'. r = c # r' \<Longrightarrow> \<not> ident_char c"
  shows "\<exists>l'. lx_ident_loop sb l = (sb @ w, l') \<and> lx_rest l' = r"
  using assms
proof (induction w arbitrary: sb l)
  case Nil
  then show ?case by (subst lx_ident_loop.simps) (auto simp: Let_def peek_rest split: list.splits)
next
  case (Cons c w)
  have "c \<noteq> NUL" using Cons.prems(1) [of c] by (auto simp: ident_char_def is_letter_def is_digit_def ch_def)
  then have "lx_ident_loop sb l = lx_ident_loop (sb @ [c]) (adv l)"
    using Cons.prems by (subst lx_ident_loop.simps) (simp add: Let_def peek_Cons fst_advance)
  then show ?case using Cons.IH [of "adv l" "sb @ [c]"] Cons.prems adv_Cons [of l c "w @ r"] by simp
qed

lemma not_ident_NUL: "\<not> ident_char NUL"
  by (simp add: ident_char_def is_letter_def is_digit_def ch_def)

lemma next_word:
  assumes "is_letter c \<or> c = CHR ''_''" "\<And>c. c \<in> set w \<Longrightarrow> ident_char c"
    "lx_rest l = c # w @ r" "\<And>c r'. r = c # r' \<Longrightarrow> \<not> ident_char c"
  shows "\<exists>l'. lx_next l = (tok (case map_of lx_keywords (ascii_upper (c # w)) of Some t \<Rightarrow> t | None \<Rightarrow> T_IDENT)
             (c # w) LNil l, l') \<and> lx_rest l' = r"
proof -
  have c: "c \<noteq> NUL" "\<not> is_space c" "c \<noteq> CHR ''-''" "c \<noteq> CHR ''/''" "c \<noteq> CHR 0x27"
    using assms(1) by (auto simp: is_letter_def is_space_def ch_def Let_def)
  have "lx_skipped l" using c by (simp add: lx_skipped_def assms(3))
  then have n: "lx_next l = scanIdent l"
    using assms(1,3) c by (simp add: lx_next_def skip_skipped peek_Cons flip: rest_empty)
  have "ident_char c" using assms(1) by (auto simp: ident_char_def)
  then obtain l' where "lx_ident_loop [] l = (c # w, l')" "lx_rest l' = r"
    using ident_loop_word [of "c # w" l r "[]"] assms by auto
  then show ?thesis using n by (auto simp: scanIdent_def split: option.splits)
qed

lemma parse_int_loop_spec:
  "(\<And>c. c \<in> set s \<Longrightarrow> 48 \<le> ch c \<and> ch c \<le> 57) \<Longrightarrow>
   parse_int_loop (int v) s =
     (let n = foldl (\<lambda>v c. 10 * v + (ch c - 48)) v s
      in if s = [] \<or> int n \<le> max_int64 then Ok (int n) else Fail ErrIntOverflow)"
proof (induction s arbitrary: v)
  case (Cons c s)
  define d where "d = ch c - 48"
  have c: "48 \<le> ch c" "ch c \<le> 57" "d \<le> 9" using Cons.prems [of c] by (auto simp: d_def)
  have d: "int (ch c) - 48 = int d" using c by (simp add: d_def)
  have mono: "w \<le> foldl (\<lambda>v c. 10 * v + (ch c - 48)) w s" for w
  proof (induction s arbitrary: w)
    case (Cons a s)
    have "w \<le> 10 * w + (ch a - 48)" by simp
    then show ?case using Cons [of "10 * w + (ch a - 48)"] by simp
  qed simp
  show ?case
  proof (cases "(2 ^ 63 - 1 - int d) div 10 < int v")
    case True
    then have "max_int64 < int (10 * v + d)" by (simp add: max_int64_def)
    then have "max_int64 < int (foldl (\<lambda>v c. 10 * v + (ch c - 48)) (10 * v + d) s)"
      using mono [of "10 * v + d"] by linarith
    then show ?thesis using True c d by (simp add: Let_def flip: d_def)
  next
    case False
    then have "int (10 * v + d) \<le> max_int64" by (simp add: max_int64_def)
    moreover have "parse_int_loop (int v) (c # s) = parse_int_loop (int (10 * v + d)) s"
      using False c d by (simp add: Let_def mult.commute)
    ultimately show ?thesis
      using Cons.IH [of "10 * v + d"] Cons.prems by (simp add: Let_def flip: d_def)
  qed
qed simp

lemma ParseIntLiteral_digits:
  assumes "s \<noteq> []" "\<And>c. c \<in> set s \<Longrightarrow> 48 \<le> ch c \<and> ch c \<le> 57"
  shows "ParseIntLiteral s =
    (if int (digits_val s) \<le> max_int64 then Ok (int (digits_val s)) else Fail ErrIntOverflow)"
  using assms parse_int_loop_spec [of s 0] by (simp add: ParseIntLiteral_def digits_val_def Let_def)

text \<open>C29. \<open>ParseIntLiteral\<close> reads every non-empty digit string, of whatever length, exactly: the value of
  the digits when it fits in an int64, \<open>ErrIntOverflow\<close> otherwise. The guard inside the loop never lets
  the multiplication wrap.\<close>

theorem parse_int_exact:
  assumes "s \<noteq> []" "\<And>c. c \<in> set s \<Longrightarrow> 48 \<le> ch c \<and> ch c \<le> 57"
  shows "ParseIntLiteral s =
    (if int (digits_val s) \<le> max_int64 then Ok (int (digits_val s)) else Fail ErrIntOverflow)"
  using assms by (rule ParseIntLiteral_digits)

theorem parse_int_exact_witness:
  "ParseIntLiteral ''9223372036854775808'' = Fail ErrIntOverflow"
proof -
  have v: "digits_val ''9223372036854775808'' = 9223372036854775808"
    by (simp add: digits_val_def ch_def)
  show ?thesis
    by (subst parse_int_exact) (auto simp: v max_int64_def ch_def)
qed

lemma number_loop_digits:
  assumes "\<And>c. c \<in> set w \<Longrightarrow> is_digit c" "lx_rest l = w @ r"
    "\<And>c r'. r = c # r' \<Longrightarrow> \<not> is_digit c \<and> c \<noteq> CHR ''.''"
  shows "\<exists>l'. lx_number_loop d sb l = (d, sb @ w, l') \<and> lx_rest l' = r"
  using assms
proof (induction w arbitrary: sb l)
  case Nil
  then show ?case by (subst lx_number_loop.simps) (auto simp: Let_def peek_rest split: list.splits)
next
  case (Cons c w)
  have c: "c \<noteq> NUL" "c \<noteq> CHR ''.''" "is_digit c" using Cons.prems(1) [of c] by (auto simp: is_digit_def ch_def)
  then have "lx_number_loop d sb l = lx_number_loop d (sb @ [c]) (adv l)"
    using Cons.prems by (subst lx_number_loop.simps) (simp add: Let_def peek_Cons fst_advance)
  then show ?case using Cons.IH [of "adv l" "sb @ [c]"] Cons.prems adv_Cons [of l c "w @ r"] by simp
qed

lemma nat_str_is_digit: "c \<in> set (nat_str n) \<Longrightarrow> is_digit c"
  using nat_str_digits [of c n] by (simp add: is_digit_def)

lemma next_number:
  assumes "int n \<le> max_int64" "lx_rest l = nat_str n @ r"
    "\<And>c r'. r = c # r' \<Longrightarrow> \<not> is_digit c \<and> c \<noteq> CHR ''.''"
  shows "\<exists>l'. lx_next l = (tok T_INT (nat_str n) (LInt (int n)) l, l') \<and> lx_rest l' = r"
proof -
  obtain c w where w: "nat_str n = c # w" using nat_str_not_Nil by (cases "nat_str n") auto
  have d: "is_digit c" using nat_str_is_digit [of c n] w by simp
  then have c: "c \<noteq> NUL" "\<not> is_space c" "c \<noteq> CHR ''-''" "c \<noteq> CHR ''/''" "c \<noteq> CHR 0x27"
    "\<not> is_letter c" "c \<noteq> CHR ''_''"
    by (auto simp: is_digit_def is_letter_def is_space_def ch_def Let_def)
  have rl: "lx_rest l = c # w @ r" using assms(2) w by simp
  have "lx_skipped l" using c by (simp add: lx_skipped_def rl)
  then have s: "lx_next l = scanNumber l"
    using rl c d by (simp add: lx_next_def skip_skipped peek_Cons flip: rest_empty)
  obtain l' where "lx_number_loop False [] l = (False, nat_str n, l')" "lx_rest l' = r"
    using number_loop_digits [of "nat_str n" l r False "[]"] assms nat_str_is_digit by auto
  then show ?thesis
    using s assms(1) ParseIntLiteral_digits [of "nat_str n"] nat_str_digits by (simp add: scanNumber_def)
qed

text \<open>What the SQL function \<open>QUOTE\<close> writes for a text, the lexer reads back as a string literal
  with exactly this text: quotes inside are doubled and halved again, and the closing quote is found, provided
  the text holds no zero byte (the lexer takes it for the end of the input) and no quote follows.\<close>

theorem string_literal_roundtrip:
  assumes "NUL \<notin> set s" "lx_rest l = sql_quote s @ r" "\<And>r'. r \<noteq> CHR 0x27 # r'"
  shows "\<exists>l'. lx_next l = (tok T_STRING s (LStr s) l, l') \<and> lx_rest l' = r"
  using assms by (rule scanString_quote)

text \<open>A zero byte inside a literal ends it, as an error, although the text goes on.\<close>

lemma NUL_ends_literal:
  "fst (lx_next (NewLexer (CHR 0x27 # CHR ''a'' # NUL # CHR ''b'' # [CHR 0x27]))) =
     tok T_ERROR [] (LErr ErrUnterminatedString) (NewLexer [])"
  by code_simp

text \<open>UTF-8 is read byte by byte as Latin-1: the name \<open>C3 A0\<close> (a with grave accent) is an identifier of one
  byte, \<open>C3\<close>, because \<open>A0\<close> counts as white space, and \<open>C3 A9\<close> (e with acute accent) leaves the byte
  \<open>A9\<close> behind, an unexpected character.\<close>

lemma utf8_identifiers_torn:
  "fst (lx_next (NewLexer [CHR 0xC3, CHR 0xA0])) = tok T_IDENT [CHR 0xC3] LNil (NewLexer [])"
  "map tk_type (lex_all (NewLexer [CHR 0xC3, CHR 0xA0])) = [T_IDENT, T_EOF]"
  "map tk_type (lex_all (NewLexer [CHR 0xC3, CHR 0xA9])) = [T_IDENT, T_ERROR, T_EOF]"
  by code_simp+

end
