(* ===== verification/Sql_Ast.thy ===== *)
theory Sql_Ast
  imports Sql_Token
begin

text \<open>
  The syntax trees of the SQL front end (\<open>SQL/PS/ast.go\<close>, \<open>typeinfo.go\<close>). The interfaces \<open>Expr\<close>
  and \<open>Stmt\<close> are the types \<open>expr\<close> and \<open>stmt\<close>, a node type is a constructor with the node's
  fields in order; the nil interface value is the constructor \<open>ENil\<close> or \<open>SNil\<close>. The field \<open>Op\<close>
  of the code is a token type, an \<open>int\<close>.
\<close>

record type_info =
  ti_type :: int
  ti_precision :: int
  ti_scale :: int
  ti_size :: int

datatype compound_op = CompoundUnion | CompoundUnionAll | CompoundIntersect | CompoundExcept

datatype conflict_action =
    ConflictActionUnspecified | ConflictActionRollback | ConflictActionAbort
  | ConflictActionFail | ConflictActionIgnore | ConflictActionReplace

datatype explain_mode = ExplainNormal | ExplainQueryPlan

record foreign_key =
  fk_columns :: "string list"
  fk_ref_table :: string
  fk_ref_columns :: "string list"
  fk_on_delete :: string
  fk_on_update :: string

text \<open>
  The structs that hold expressions or statements take these types as parameters, and the mutual type
  below ties the knot. An \<open>OrderItem\<close> is the pair of its expression and \<open>Desc\<close>, a \<open>WhenClause\<close> the
  pair of condition and result, a \<open>Pair\<close> the column and its value.
\<close>

datatype 'e frame_bound = FrameBound (fb_type: string) (fb_offset: 'e)

datatype 'e window_frame =
  WindowFrame (wf_type: string) (wf_start: "'e frame_bound") (wf_end: "'e frame_bound")

datatype 'e window_spec =
  WindowSpec (ws_partition: "'e list") (ws_order: "('e \<times> bool) list") (ws_frame: "'e window_frame option")

datatype 'e col_def =
  ColDef (cd_name: string) (cd_type: int) (cd_size: int) (cd_nullable: bool) (cd_default: 'e) (cd_pk: bool)
    (cd_unique: bool) (cd_check: 'e) (cd_ref_table: string) (cd_ref_column: string)
    (cd_on_delete: string) (cd_on_update: string) (cd_generated: 'e) (cd_virtual: bool)

datatype 'e join_clause = JoinClause (jn_kind: string) (jn_right: string) (jn_on: 'e)

datatype 'e on_conflict =
  OnConflict (oc_columns: "string list") (oc_do_nothing: bool) (oc_set: "(string \<times> 'e) list")

datatype ('e, 's) select =
  MkSelect (sel_cols: "'e list") (sel_from: string) (sel_from_alias: string) (sel_joins: "'e join_clause list")
    (sel_where: 'e) (sel_order_by: "('e \<times> bool) list") (sel_limit: 'e) (sel_offset: 'e)
    (sel_distinct: bool) (sel_group_by: "'e list") (sel_having: 'e) (sel_subquery_from: 's)

datatype expr =
    ENil
  | NumberLiteral int
  | FloatLiteral f64
  | StringLiteral string
  | BoolLiteral bool
  | NullLiteral
  | Ident string
  | QualifiedName string string
  | AliasedExpr expr string
  | CastExpr expr "type_info option"
  | Param int
  | BinaryExpr int expr expr
  | UnaryExpr int expr
  | FunctionCall string "expr list"
  | AggregateFunc string expr bool
  | WindowFunc string "expr list" "expr window_spec option"
  | StarExpr
  | ListExpr "expr list"
  | BetweenExpr expr expr expr
  | CaseExpr expr "(expr \<times> expr) list" expr
  | InExpr expr "expr list" stmt
  | ExistsExpr stmt
  | SubqueryExpr stmt
  | IntervalLiteral string string
and stmt =
    SNil
  | Select "(expr, stmt) select"
  | CompoundStmt stmt compound_op stmt "(expr \<times> bool) list" expr expr
  | Insert string "string list" "expr list list" "expr list" "expr on_conflict option" conflict_action
  | Update string "(string \<times> expr) list" expr "expr list"
  | Delete string expr "expr list"
  | CreateTable string "expr col_def list" "string option" "string list list" "foreign_key list"
  | DropTable string
  | CreateIndexStmt string string "string list" bool
  | DropIndexStmt string
  | WithStmt bool "(string \<times> string list \<times> stmt) list" stmt
  | TriggerStmt string string string string string "stmt list" bool string "string list"
  | SavepointStmt string
  | ReleaseSavepointStmt string
  | RollbackToStmt string
  | BeginTX
  | CommitTX
  | RollbackTX
  | ExplainStmt explain_mode stmt
  | AnalyzeStmt string
  | VacuumStmt string
  | CreateViewStmt string stmt bool
  | AlterTableStmt string string string "expr col_def option"
  | PragmaStmt string string
  | SetTransactionStmt string

end
