(* ===== verification/Sql_Value.thy ===== *)
theory Sql_Value
  imports Sql_Ast
begin

text \<open>
  Values of the SQL executor and the operations on them (\<open>SQL/EX/eval.go\<close>): the dynamic types of the
  \<open>interface{}\<close> values, arithmetic with its overflow tests, comparison, equality, the connectives and
  \<open>IS\<close>. Arithmetic of the code never returns an error: NULL stands for it. Equality can panic, because
  Go's \<open>==\<close> on two interface values of an incomparable type, such as \<open>[]byte\<close>, does.
\<close>

subsection \<open>Values and errors\<close>

text \<open>
  nil, the basic types, \<open>int\<close> and \<open>uint64\<close> (which \<open>numericFloat\<close> accepts), a pointer to an
  \<open>IntervalValue\<close>, and the \<open>[]PS.Expr\<close> that a \<open>ListExpr\<close> evaluates to.
\<close>

datatype val =
    VNull
  | VInt int
  | VFloat f64
  | VStr string
  | VBool bool
  | VBytes string
  | VGoInt int
  | VUint int
  | VInterval int string
  | VExprs "expr list"

datatype ex_err = ErrEval | ErrSubquery | ErrMsg string

type_synonym 'a res = "(ex_err, 'a) outcome"

fun go_int64 :: "val \<Rightarrow> int option" where
  "go_int64 (VInt i) = Some i"
| "go_int64 v = None"

fun normalizeInt :: "val \<Rightarrow> val" where
  "normalizeInt (VGoInt i) = VInt i"
| "normalizeInt v = v"

fun toInt64 :: "val \<Rightarrow> int option" where
  "toInt64 (VInt i) = Some i"
| "toInt64 (VFloat f) = Some (f_to_int f)"
| "toInt64 (VGoInt i) = Some i"
| "toInt64 v = None"

fun numericFloat :: "val \<Rightarrow> f64 option" where
  "numericFloat (VInt i) = Some (f_of_int i)"
| "numericFloat (VFloat f) = Some f"
| "numericFloat (VGoInt i) = Some (f_of_int i)"
| "numericFloat (VUint i) = Some (f_of_int i)"
| "numericFloat v = None"

fun truthy :: "val \<Rightarrow> bool" where
  "truthy VNull = False"
| "truthy (VBool b) = b"
| "truthy (VInt i) = (i \<noteq> 0)"
| "truthy (VFloat f) = (\<not> f_eq f f_zero)"
| "truthy (VStr s) = (s \<noteq> [])"
| "truthy v = True"

subsection \<open>Equality\<close>

text \<open>
  Go's \<open>==\<close> on interface values: different dynamic types are unequal, equal incomparable types panic.
  Two pointers to intervals come from two evaluations, they are never the same.
\<close>

definition iface_eq :: "val \<Rightarrow> val \<Rightarrow> bool res" where
  "iface_eq a b =
     (case a of
       VNull \<Rightarrow> Ok (b = VNull)
     | VInt i \<Rightarrow> (case b of VInt i' \<Rightarrow> Ok (i = i') | _ \<Rightarrow> Ok False)
     | VFloat f \<Rightarrow> (case b of VFloat f' \<Rightarrow> Ok (f_eq f f') | _ \<Rightarrow> Ok False)
     | VStr s \<Rightarrow> (case b of VStr s' \<Rightarrow> Ok (s = s') | _ \<Rightarrow> Ok False)
     | VBool p \<Rightarrow> (case b of VBool p' \<Rightarrow> Ok (p = p') | _ \<Rightarrow> Ok False)
     | VGoInt i \<Rightarrow> (case b of VGoInt i' \<Rightarrow> Ok (i = i') | _ \<Rightarrow> Ok False)
     | VUint i \<Rightarrow> (case b of VUint i' \<Rightarrow> Ok (i = i') | _ \<Rightarrow> Ok False)
     | VBytes s \<Rightarrow> (case b of VBytes s' \<Rightarrow> Panic | _ \<Rightarrow> Ok False)
     | VExprs es \<Rightarrow> (case b of VExprs es' \<Rightarrow> Panic | _ \<Rightarrow> Ok False)
     | VInterval n u \<Rightarrow> Ok False)"

definition equalValue :: "val \<Rightarrow> val \<Rightarrow> bool res" where
  "equalValue a0 b0 =
     (if a0 = VNull \<or> b0 = VNull then Ok (a0 = VNull \<and> b0 = VNull)
      else let a = normalizeInt a0; b = normalizeInt b0
           in case (a, b) of
                (VInt i, VInt j) \<Rightarrow> Ok (i = j)
              | (VInt i, VFloat g) \<Rightarrow> Ok (f_eq (f_of_int i) g)
              | (VFloat f, VInt j) \<Rightarrow> Ok (f_eq f (f_of_int j))
              | (VFloat f, VFloat g) \<Rightarrow> Ok (f_eq f g)
              | _ \<Rightarrow> iface_eq a b)"

definition val_is :: "val \<Rightarrow> val \<Rightarrow> bool res" where
  "val_is a b =
     (if a = VNull \<and> b = VNull then Ok True
      else if a = VNull \<or> b = VNull then Ok False
      else iface_eq a b)"

subsection \<open>Order\<close>

definition cmpFloat :: "f64 \<Rightarrow> f64 \<Rightarrow> int" where
  "cmpFloat a b = (if f_lt a b then - 1 else if f_lt b a then 1 else 0)"

definition cmpString :: "string \<Rightarrow> string \<Rightarrow> int" where
  "cmpString a b = (if a < b then - 1 else if b < a then 1 else 0)"

definition cmpBool :: "bool \<Rightarrow> bool \<Rightarrow> int" where
  "cmpBool a b = (if a = b then 0 else if a then 1 else - 1)"

definition val_compare :: "val \<Rightarrow> val \<Rightarrow> int" where
  "val_compare a b =
     (if a = VNull \<and> b = VNull then 0
      else if a = VNull then - 1
      else if b = VNull then 1
      else case (numericFloat a, numericFloat b) of
             (Some af, Some bf) \<Rightarrow> cmpFloat af bf
           | _ \<Rightarrow> (case (a, b) of
               (VStr s, VStr t) \<Rightarrow> cmpString s t
             | (VBool s, VBool t) \<Rightarrow> cmpBool s t
             | _ \<Rightarrow> 0))"

subsection \<open>Arithmetic\<close>

text \<open>Go's integer division truncates; the remainder has the sign of the dividend.\<close>

definition go_quot :: "int \<Rightarrow> int \<Rightarrow> int" where
  "go_quot a b = sgn a * sgn b * (\<bar>a\<bar> div \<bar>b\<bar>)"

definition go_rem :: "int \<Rightarrow> int \<Rightarrow> int" where
  "go_rem a b = a - b * go_quot a b"

datatype arith_op = OpAdd | OpSub | OpMul

fun float_arith :: "arith_op \<Rightarrow> f64 \<Rightarrow> f64 \<Rightarrow> f64" where
  "float_arith OpAdd a b = f_add a b"
| "float_arith OpSub a b = f_sub a b"
| "float_arith OpMul a b = f_mul a b"

fun int_arith :: "arith_op \<Rightarrow> int \<Rightarrow> int \<Rightarrow> val" where
  "int_arith OpAdd ai bi =
     (if (0 < bi \<and> max_int64 - bi < ai) \<or> (bi < 0 \<and> ai < min_int64 - bi) then VNull else VInt (ai + bi))"
| "int_arith OpSub ai bi =
     (if (bi < 0 \<and> max_int64 + bi < ai) \<or> (0 < bi \<and> ai < min_int64 + bi) then VNull else VInt (ai - bi))"
| "int_arith OpMul ai bi =
     (if ai = 0 \<or> bi = 0 then VInt 0
      else if ai = - 1 \<and> bi = min_int64 then VNull
      else if bi = - 1 \<and> ai = min_int64 then VNull
      else if 0 < ai \<and> 0 < bi \<and> go_quot max_int64 bi < ai then VNull
      else if ai < 0 \<and> bi < 0 \<and> ai < go_quot max_int64 bi then VNull
      else if (0 < ai \<and> bi < 0 \<and> bi < go_quot min_int64 ai) \<or>
              (ai < 0 \<and> 0 < bi \<and> ai < go_quot min_int64 bi) then VNull
      else VInt (ai * bi))"

text \<open>Two int64 operands are converted to float64 and back before the integer operation.\<close>

definition numericArith :: "val \<Rightarrow> val \<Rightarrow> arith_op \<Rightarrow> val" where
  "numericArith a b op =
     (if a = VNull \<or> b = VNull then VNull
      else case (numericFloat a, numericFloat b) of
             (Some af, Some bf) \<Rightarrow>
               (case (a, b) of
                  (VInt _, VInt _) \<Rightarrow> int_arith op (f_to_int af) (f_to_int bf)
                | _ \<Rightarrow> VFloat (float_arith op af bf))
           | _ \<Rightarrow> VNull)"

definition val_add :: "val \<Rightarrow> val \<Rightarrow> val" where "val_add a b = numericArith a b OpAdd"
definition val_sub :: "val \<Rightarrow> val \<Rightarrow> val" where "val_sub a b = numericArith a b OpSub"
definition val_mul :: "val \<Rightarrow> val \<Rightarrow> val" where "val_mul a b = numericArith a b OpMul"

definition val_div :: "val \<Rightarrow> val \<Rightarrow> val" where
  "val_div a b =
     (if a = VNull \<or> b = VNull then VNull
      else case (a, b) of
             (VInt ai, VInt bi) \<Rightarrow> (if bi = 0 then VNull else VInt (wrap64 (go_quot ai bi)))
           | _ \<Rightarrow> (case (numericFloat a, numericFloat b) of
               (Some af, Some bf) \<Rightarrow> (if f_eq bf f_zero then VNull else VFloat (f_div af bf))
             | _ \<Rightarrow> VNull))"

definition val_mod :: "val \<Rightarrow> val \<Rightarrow> val" where
  "val_mod a b =
     (if a = VNull \<or> b = VNull then VNull
      else case (a, b) of
             (VInt ai, VInt bi) \<Rightarrow> (if bi = 0 then VNull else VInt (go_rem ai bi))
           | _ \<Rightarrow> (case (numericFloat a, numericFloat b) of
               (Some af, Some bf) \<Rightarrow> (if f_eq bf f_zero then VNull else VFloat (f_mod af bf))
             | _ \<Rightarrow> VNull))"

definition int64_bits :: "(u64 \<Rightarrow> u64 \<Rightarrow> u64) \<Rightarrow> val \<Rightarrow> val \<Rightarrow> val" where
  "int64_bits f a b =
     (case (toInt64 a, toInt64 b) of
        (Some ai, Some bi) \<Rightarrow> VInt (sint (f (word_of_int ai) (word_of_int bi)))
      | _ \<Rightarrow> VNull)"

definition bitand :: "val \<Rightarrow> val \<Rightarrow> val" where "bitand = int64_bits (AND)"
definition bitor :: "val \<Rightarrow> val \<Rightarrow> val" where "bitor = int64_bits (OR)"
definition bitxor :: "val \<Rightarrow> val \<Rightarrow> val" where "bitxor = int64_bits (XOR)"

subsection \<open>Connectives\<close>

text \<open>\<open>a == true\<close> compares an interface with a bool: true for the bool true only.\<close>

definition band :: "val \<Rightarrow> val \<Rightarrow> val" where
  "band a b = VBool (a = VBool True \<and> b = VBool True)"

definition bor :: "val \<Rightarrow> val \<Rightarrow> val" where
  "bor a b = VBool (a = VBool True \<or> b = VBool True)"

subsection \<open>Bounds\<close>

lemma go_quot_pos: "0 \<le> m \<Longrightarrow> 0 < b \<Longrightarrow> go_quot m b = m div b"
  by (cases "m = 0") (simp_all add: go_quot_def)

lemma go_quot_neg: "0 \<le> m \<Longrightarrow> b < 0 \<Longrightarrow> go_quot m b = - (m div - b)"
  by (cases "m = 0") (simp_all add: go_quot_def)

lemma go_quot_neg_pos: "0 \<le> m \<Longrightarrow> 0 < b \<Longrightarrow> go_quot (- m) b = - (m div b)"
  by (cases "m = 0") (simp_all add: go_quot_def)

lemma div_less_iff: "0 < b \<Longrightarrow> m div b < a \<longleftrightarrow> m < a * (b :: int)"
proof
  assume b: "0 < b" and "m div b < a"
  then have "(m div b + 1) * b \<le> a * b" by (intro mult_right_mono) auto
  moreover have "m div b * b + m mod b = m" "m mod b < b" using b by (simp_all only: div_mult_mod_eq pos_mod_bound)
  ultimately show "m < a * b" by (simp only: distrib_right)
next
  assume b: "0 < b" and m: "m < a * b"
  show "m div b < a"
  proof (rule ccontr)
    assume "\<not> m div b < a"
    then have "a * b \<le> m div b * b" using b by (intro mult_right_mono) auto
    moreover have "m div b * b + m mod b = m" "0 \<le> m mod b" using b by (simp_all only: div_mult_mod_eq pos_mod_sign)
    ultimately show False using m by linarith
  qed
qed

lemma mul_guard_pos: "0 < b \<Longrightarrow> go_quot max_int64 b < a \<longleftrightarrow> max_int64 < a * (b :: int)"
  by (simp add: go_quot_pos max_int64_def div_less_iff)

lemma mul_guard_neg: "b < 0 \<Longrightarrow> a < go_quot max_int64 b \<longleftrightarrow> max_int64 < a * (b :: int)"
  using div_less_iff [of "- b" max_int64 "- a"] by (auto simp: go_quot_neg max_int64_def)

lemma mul_guard_mixed: "0 < b \<Longrightarrow> a < go_quot min_int64 b \<longleftrightarrow> a * b < (min_int64 :: int)"
  using div_less_iff [of b "2 ^ 63" "- a"] go_quot_neg_pos [of "2 ^ 63" b]
  by (auto simp: min_int64_def)

fun exact_arith :: "arith_op \<Rightarrow> int \<Rightarrow> int \<Rightarrow> int" where
  "exact_arith OpAdd a b = a + b"
| "exact_arith OpSub a b = a - b"
| "exact_arith OpMul a b = a * b"

lemma int_arith_mul:
  assumes "int64_range a" "int64_range b"
  shows "int_arith OpMul a b = (if int64_range (a * b) then VInt (a * b) else VNull)"
proof -
  have r: "min_int64 \<le> a" "a \<le> max_int64" "min_int64 \<le> b" "b \<le> max_int64"
    using assms by (auto simp: int64_range_def)
  have m: "min_int64 < 0" "0 < max_int64" "max_int64 = - min_int64 - 1" by (simp_all add: min_int64_def max_int64_def)
  consider "a = 0 \<or> b = 0" | "0 < a" "0 < b" | "a < 0" "b < 0" | "0 < a" "b < 0" | "a < 0" "0 < b" by linarith
  then show ?thesis
  proof cases
    case 2
    then have "0 < a * b" by simp
    then have "int64_range (a * b) \<longleftrightarrow> \<not> max_int64 < a * b" using m by (auto simp: int64_range_def)
    then show ?thesis using 2 mul_guard_pos [of b a] by auto
  next
    case 3
    then have p: "0 < a * b" by (simp add: mult_neg_neg)
    then have "int64_range (a * b) \<longleftrightarrow> \<not> max_int64 < a * b" using m by (auto simp: int64_range_def)
    then show ?thesis using 3 mul_guard_neg [of b a] m by auto
  next
    case 4
    then have p: "a * b < 0" by (simp add: mult_pos_neg)
    then have "int64_range (a * b) \<longleftrightarrow> \<not> b * a < min_int64"
      using m by (auto simp: int64_range_def mult.commute)
    then show ?thesis using 4 mul_guard_mixed [of a b] m by auto
  next
    case 5
    then have p: "a * b < 0" by (simp add: mult_neg_pos)
    then have "int64_range (a * b) \<longleftrightarrow> \<not> a * b < min_int64" using m by (auto simp: int64_range_def)
    then show ?thesis using 5 mul_guard_mixed [of b a] m by auto
  qed (auto simp: int64_range_def min_int64_def max_int64_def)
qed

lemma int_arith_exact:
  assumes "int64_range a" "int64_range b"
  shows "int_arith op a b =
    (if int64_range (exact_arith op a b) then VInt (exact_arith op a b) else VNull)"
proof (cases op)
  case OpMul
  then show ?thesis using int_arith_mul [OF assms] by (simp del: int_arith.simps)
qed (use assms in \<open>auto simp: int64_range_def\<close>)

lemma small_range: "\<bar>a\<bar> < 2 ^ 53 \<Longrightarrow> int64_range a"
  by (auto simp: int64_range_def min_int64_def max_int64_def)

text \<open>C28. The sum, difference or product of two int64 values up to \<open>2^53\<close> in size is exact, and is NULL
  exactly when it does not fit in an int64: the overflow tests, with their truncated quotients, refuse no
  result that fits and let none pass that does not.\<close>

theorem int_arithmetic_exact:
  assumes "\<bar>a\<bar> < 2 ^ 53" "\<bar>b\<bar> < 2 ^ 53"
  shows "numericArith (VInt a) (VInt b) op =
    (if int64_range (exact_arith op a b) then VInt (exact_arith op a b) else VNull)"
  using assms int_arith_exact [of a b op] small_range
  by (simp add: numericArith_def f_to_int_of_int del: int_arith.simps)

theorem int_arithmetic_exact_witness:
  "numericArith (VInt 3037000500) (VInt 3037000500) OpMul = VNull \<and>
   numericArith (VInt (- 3037000500)) (VInt 3037000499) OpMul = VInt (- 9223372033963249500)"
  using int_arithmetic_exact [of 3037000500 3037000500 OpMul]
    int_arithmetic_exact [of "- 3037000500" 3037000499 OpMul]
  by (simp add: int64_range_def min_int64_def max_int64_def)

text \<open>C0. The comment of \<open>numericArith\<close> says that the tests use the exact int64 values; they use what is
  left after a conversion to float64 and back. So \<open>2^53 + 1\<close> plus zero is \<open>2^53\<close>, and the greatest
  int64 plus zero is the least.\<close>

named_theorems f64_eval "definitions that a closed float computation unfolds"

lemmas [f64_eval] = f_of_int_def f_round_def f_pack_def ulp_exp_def half_even_def blen.simps Let_def
  f_trunc_nat_def int64_range_def min_int64_def max_int64_def

theorem int_arithmetic_loses_bits:
  "numericArith (VInt 9007199254740993) (VInt 0) OpAdd = VInt 9007199254740992 \<and>
   numericArith (VInt 9223372036854775807) (VInt 0) OpAdd = VInt (- 9223372036854775808)"
  by (simp add: numericArith_def f64_eval)

text \<open>\<open>=\<close> compares int64 values exactly and \<open><\<close>, \<open>>\<close> through float64: the two agree up to
  \<open>2^53\<close>. Beyond, two different integers can be neither equal, smaller nor greater.\<close>

theorem int_compare_exact:
  assumes "\<bar>a\<bar> < 2 ^ 53" "\<bar>b\<bar> < 2 ^ 53"
  shows "val_compare (VInt a) (VInt b) = (if a < b then - 1 else if b < a then 1 else 0) \<and>
     (val_compare (VInt a) (VInt b) = 0 \<longleftrightarrow> equalValue (VInt a) (VInt b) = Ok True)"
proof -
  have "val_compare (VInt a) (VInt b) = (if a < b then - 1 else if b < a then 1 else 0)"
    using f_holds_lt [OF f_holds_of_int f_holds_of_int] assms by (simp add: val_compare_def cmpFloat_def)
  then show ?thesis by (simp add: equalValue_def)
qed

theorem int_compare_exact_witness:
  "val_compare (VInt (- 7)) (VInt 7) = - 1"
  using int_compare_exact [of "- 7" 7] by simp

lemma compare_collapses:
  "val_compare (VInt 9007199254740993) (VInt 9007199254740992) = 0 \<and>
   equalValue (VInt 9007199254740993) (VInt 9007199254740992) = Ok False"
  by (simp add: val_compare_def cmpFloat_def equalValue_def f64_eval)

text \<open>The connectives are two-valued: \<open>NULL AND TRUE\<close> is false, not NULL, so its negation is true.\<close>

lemma band_null: "band VNull (VBool True) = VBool False" "bor VNull (VBool False) = VBool False"
  by (simp_all add: band_def bor_def)

end
