(* ===== verification/Sql_Like.thy ===== *)
theory Sql_Like
  imports Sql_Value
begin

text \<open>
  The operator \<open>LIKE\<close> (\<open>matchLike\<close> of \<open>SQL/EX/eval.go\<close>): a loop with two indices that remembers the last
  percent sign and backtracks to it only. It is proved equal to the textbook definition, in which a percent
  sign stands for any text.
\<close>

subsection \<open>The loop\<close>

text \<open>
  \<open>star\<close> holds \<open>starPI\<close> and \<open>starSI\<close>; before the first percent sign both are \<open>-1\<close> in the code and
  \<open>None\<close> here. \<open>ml_order\<close> makes the loop end: backtracking moves \<open>starSI\<close> up, everything else moves an
  index up.
\<close>

fun star_at :: "nat \<Rightarrow> (nat \<times> nat) option \<Rightarrow> nat" where
  "star_at n None = n + 2"
| "star_at n (Some (sp, ss)) = n + 1 - ss"

fun star_ahead :: "nat \<Rightarrow> (nat \<times> nat) option \<Rightarrow> nat" where
  "star_ahead si None = 0"
| "star_ahead si (Some (sp, ss)) = (if si < ss then 1 else 0)"

lemma star_order:
  "si < n \<Longrightarrow> star_ahead si (Some (pi, si)) < star_ahead si star \<or>
     star_ahead si (Some (pi, si)) = star_ahead si star \<and>
     (star_at n (Some (pi, si)) < star_at n star \<or> star_at n (Some (pi, si)) = star_at n star)"
  "star_ahead (Suc si) star < star_ahead si star \<or> star_ahead (Suc si) star = star_ahead si star"
  "si < n \<Longrightarrow> star_ahead (Suc ss) (Some (sp, Suc ss)) < star_ahead si (Some (sp, ss)) \<or>
     star_ahead (Suc ss) (Some (sp, Suc ss)) = star_ahead si (Some (sp, ss)) \<and>
     star_at n (Some (sp, Suc ss)) < star_at n (Some (sp, ss))"
proof -
  show "si < n \<Longrightarrow> star_ahead si (Some (pi, si)) < star_ahead si star \<or>
     star_ahead si (Some (pi, si)) = star_ahead si star \<and>
     (star_at n (Some (pi, si)) < star_at n star \<or> star_at n (Some (pi, si)) = star_at n star)"
    by (cases star) (auto split: if_splits)
  show "star_ahead (Suc si) star < star_ahead si star \<or> star_ahead (Suc si) star = star_ahead si star"
    by (cases star) (auto simp: less_Suc_eq split: if_splits)
  show "si < n \<Longrightarrow> star_ahead (Suc ss) (Some (sp, Suc ss)) < star_ahead si (Some (sp, ss)) \<or>
     star_ahead (Suc ss) (Some (sp, Suc ss)) = star_ahead si (Some (sp, ss)) \<and>
     star_at n (Some (sp, Suc ss)) < star_at n (Some (sp, ss))"
    by auto
qed

function matchLike_loop :: "string \<Rightarrow> string \<Rightarrow> nat \<Rightarrow> nat \<Rightarrow> (nat \<times> nat) option \<Rightarrow> bool" where
  "matchLike_loop p s pi si star =
     (if si < length s then
        if pi < length p \<and> p ! pi = CHR 0x25 then matchLike_loop p s (pi + 1) si (Some (pi, si))
        else if pi < length p \<and> (p ! pi = CHR ''_'' \<or> p ! pi = s ! si) then matchLike_loop p s (pi + 1) (si + 1) star
        else case star of
               Some (sp, ss) \<Rightarrow> matchLike_loop p s (sp + 1) (ss + 1) (Some (sp, ss + 1))
             | None \<Rightarrow> False
      else pi \<le> length p \<and> dropWhile (\<lambda>c. c = CHR 0x25) (drop pi p) = [])"
  by pat_completeness auto

termination
proof (relation "(\<lambda>(p, s, pi, si, star). star_ahead si star) <*mlex*>
                (\<lambda>(p, s, pi, si, star). star_at (length s) star) <*mlex*>
                measure (\<lambda>(p, s, pi, si, star). (length p - pi) + (length s - si))", goal_cases)
  case 1
  show ?case by (intro wf_mlex wf_measure)
next
  case (2 p s pi si star)
  then show ?case using star_order(1) [of si "length s" pi star]
    by (simp add: mlex_prod_def del: star_ahead.simps star_at.simps) linarith
next
  case (3 p s pi si star)
  then show ?case using star_order(2) [of si star]
    by (simp add: mlex_prod_def del: star_ahead.simps star_at.simps) linarith
next
  case (4 p s pi si star z sp ss)
  then show ?case using star_order(3) [of si "length s" ss sp]
    by (simp add: mlex_prod_def del: star_ahead.simps star_at.simps) linarith
qed

declare matchLike_loop.simps [simp del]

definition matchLike :: "string \<Rightarrow> string \<Rightarrow> bool" where
  "matchLike pattern s = matchLike_loop pattern s 0 0 None"

fun val_like :: "val \<Rightarrow> val \<Rightarrow> val" where
  "val_like (VStr s) (VStr pattern) = VBool (matchLike pattern s)"
| "val_like a b = VBool False"

subsection \<open>The textbook definition\<close>

fun like_spec :: "string \<Rightarrow> string \<Rightarrow> bool" where
  "like_spec [] s = (s = [])"
| "like_spec (c # p) s =
     (if c = CHR 0x25 then like_spec p s \<or> (case s of [] \<Rightarrow> False | _ # s' \<Rightarrow> like_spec (c # p) s')
      else case s of [] \<Rightarrow> False | d # s' \<Rightarrow> (c = CHR ''_'' \<or> c = d) \<and> like_spec p s')"

lemma like_percent: "like_spec (CHR 0x25 # p) s \<longleftrightarrow> (\<exists>k \<le> length s. like_spec p (drop k s))"
proof (induction s)
  case (Cons d s)
  have "(\<exists>k \<le> length (d # s). like_spec p (drop k (d # s))) \<longleftrightarrow>
      like_spec p (d # s) \<or> (\<exists>k \<le> length s. like_spec p (drop k s))"
    by (metis Suc_le_mono drop0 drop_Suc_Cons length_Cons not0_implies_Suc zero_le)
  then show ?case using Cons by simp
qed simp

lemma like_empty: "like_spec p [] \<longleftrightarrow> dropWhile (\<lambda>c. c = CHR 0x25) p = []"
  by (induction p) auto

lemma like_plain: "\<forall>c \<in> set q. c \<noteq> CHR 0x25 \<Longrightarrow> like_spec (q @ p) s \<Longrightarrow>
  length q \<le> length s \<and> like_spec p (drop (length q) s)"
  by (induction q arbitrary: s) (auto split: list.splits if_splits)

subsection \<open>The loop is the definition\<close>

text \<open>
  What a state of the loop still accepts: the rest of the pattern here, or the pattern after the last
  percent sign at a later place. Invariant: between that percent sign and \<open>pi\<close> the pattern has no other one,
  and as many characters as the text between \<open>starSI\<close> and \<open>si\<close>.
\<close>

definition star_later :: "string \<Rightarrow> string \<Rightarrow> (nat \<times> nat) option \<Rightarrow> bool" where
  "star_later p s star = (case star of None \<Rightarrow> False
     | Some (sp, ss) \<Rightarrow> \<exists>k. ss < k \<and> k \<le> length s \<and> like_spec (drop (sp + 1) p) (drop k s))"

definition ml_inv :: "string \<Rightarrow> string \<Rightarrow> nat \<Rightarrow> nat \<Rightarrow> (nat \<times> nat) option \<Rightarrow> bool" where
  "ml_inv p s pi si star \<longleftrightarrow> pi \<le> length p \<and> si \<le> length s \<and>
     (case star of None \<Rightarrow> True
      | Some (sp, ss) \<Rightarrow> sp < pi \<and> ss \<le> si \<and> si - ss = pi - (sp + 1) \<and>
          (\<forall>c \<in> set (sub p (sp + 1) pi). c \<noteq> CHR 0x25))"

lemma later_shift:
  assumes "ml_inv p s pi si star" "star_later p s star"
  shows "\<exists>n>0. si + n \<le> length s \<and> like_spec (drop pi p) (drop (si + n) s)"
proof -
  obtain sp ss k where st: "star = Some (sp, ss)" "ss < k" "k \<le> length s"
      "like_spec (drop (sp + 1) p) (drop k s)"
    using assms(2) by (auto simp: star_later_def split: option.splits)
  let ?q = "sub p (sp + 1) pi"
  have i: "sp < pi" "pi \<le> length p" "ss \<le> si" "si - ss = pi - (sp + 1)" "\<forall>c \<in> set ?q. c \<noteq> CHR 0x25"
    using assms(1) st(1) by (auto simp: ml_inv_def)
  have lq: "length ?q = si - ss" using i by simp
  have "drop (sp + 1) p = ?q @ drop pi p"
    using i(1) by (simp add: sub_def) (metis append_take_drop_id diff_Suc_Suc drop_drop le_add_diff_inverse2 Suc_leI)
  then have "like_spec (?q @ drop pi p) (drop k s)" using st(4) by simp
  then have l: "si - ss \<le> length s - k" "like_spec (drop pi p) (drop (si - ss) (drop k s))"
    using like_plain [OF i(5), of "drop pi p" "drop k s"] unfolding lq by simp_all
  have "si - ss + k = si + (k - ss)" using st(2) i(3) by simp
  then show ?thesis using l st(2,3) i(3) by (intro exI [of _ "k - ss"]) (auto simp: add.commute)
qed

lemma later_absorbed:
  assumes "ml_inv p s pi si star" "pi < length p" "p ! pi = CHR 0x25" "star_later p s star"
  shows "like_spec (drop pi p) (drop si s)"
proof -
  obtain n where n: "si + n \<le> length s" "like_spec (drop pi p) (drop (si + n) s)"
    using later_shift [OF assms(1,4)] by blast
  have d: "drop pi p = CHR 0x25 # drop (Suc pi) p" using assms(2,3) by (metis Cons_nth_drop_Suc)
  obtain j where "like_spec (drop (Suc pi) p) (drop j (drop (si + n) s))" "j \<le> length (drop (si + n) s)"
    using n(2) unfolding d like_percent by blast
  then have "like_spec (drop (Suc pi) p) (drop (j + n) (drop si s))" "j + n \<le> length (drop si s)"
    using n(1) by (simp_all add: ac_simps)
  then show ?thesis unfolding d like_percent by blast
qed

text \<open>
  The two ways to go on from a percent sign: it matches the empty text, or \<open>later\<close> a longer one.
\<close>

lemma later_step:
  assumes "ss < length s"
  shows "star_later p s (Some (sp, ss)) \<longleftrightarrow>
     like_spec (drop (sp + 1) p) (drop (ss + 1) s) \<or> star_later p s (Some (sp, ss + 1))"
proof -
  let ?P = "\<lambda>k. like_spec (drop (sp + 1) p) (drop k s)"
  have "(\<exists>k. ss < k \<and> k \<le> length s \<and> ?P k) \<longleftrightarrow> (\<exists>k. (k = ss + 1 \<or> ss + 1 < k \<and> k \<le> length s) \<and> ?P k)"
    using assms by (intro ex_cong1) auto
  then show ?thesis by (auto simp: star_later_def)
qed

lemma percent_later:
  "pi < length p \<Longrightarrow> p ! pi = CHR 0x25 \<Longrightarrow> si \<le> length s \<Longrightarrow>
   like_spec (drop pi p) (drop si s) \<longleftrightarrow>
     like_spec (drop (pi + 1) p) (drop si s) \<or> star_later p s (Some (pi, si))"
proof -
  assume a: "pi < length p" "p ! pi = CHR 0x25" "si \<le> length s"
  have "drop pi p = CHR 0x25 # drop (pi + 1) p" using a by (metis Cons_nth_drop_Suc Suc_eq_plus1)
  then have "like_spec (drop pi p) (drop si s) \<longleftrightarrow>
      (\<exists>k \<le> length s - si. like_spec (drop (pi + 1) p) (drop (k + si) s))"
    by (simp only: like_percent length_drop drop_drop)
  also have "\<dots> \<longleftrightarrow> (\<exists>k. si \<le> k \<and> k \<le> length s \<and> like_spec (drop (pi + 1) p) (drop k s))"
    by (metis add.commute add_le_cancel_right le_add2 le_add_diff_inverse2 a(3))
  also have "\<dots> \<longleftrightarrow> like_spec (drop (pi + 1) p) (drop si s) \<or> star_later p s (Some (pi, si))"
    using a(3) by (auto simp: star_later_def le_less)
  finally show ?thesis .
qed

lemma ml_inv_step:
  assumes "ml_inv p s pi si star" "pi < length p" "si < length s" "p ! pi \<noteq> CHR 0x25"
  shows "ml_inv p s (pi + 1) (si + 1) star"
proof (cases star)
  case (Some q)
  obtain sp ss where q: "q = (sp, ss)" by fastforce
  have i: "sp < pi" "ss \<le> si" "si - ss = pi - (sp + 1)" "\<forall>c \<in> set (sub p (sp + 1) pi). c \<noteq> CHR 0x25"
    using assms(1) Some q by (simp_all add: ml_inv_def)
  have "sub p (sp + 1) (Suc pi) = sub p (sp + 1) pi @ [p ! pi]"
    using i(1) assms(2) by (intro sub_snoc) auto
  moreover have "si + 1 - ss = pi + 1 - (sp + 1)" using i by linarith
  ultimately show ?thesis using i assms Some q by (simp add: ml_inv_def)
qed (use assms in \<open>simp add: ml_inv_def\<close>)

lemma matchLike_loop_spec:
  "ml_inv p s pi si star \<Longrightarrow>
   matchLike_loop p s pi si star \<longleftrightarrow> like_spec (drop pi p) (drop si s) \<or> star_later p s star"
proof (induction p s pi si star rule: matchLike_loop.induct)
  case (1 p s pi si star)
  note inv = "1.prems"
  have b: "pi \<le> length p" "si \<le> length s" using inv by (auto simp: ml_inv_def)
  consider "si = length s"
    | "si < length s" "pi < length p" "p ! pi = CHR 0x25"
    | "si < length s" "pi < length p" "p ! pi \<noteq> CHR 0x25" "p ! pi = CHR ''_'' \<or> p ! pi = s ! si"
    | "si < length s" "pi < length p \<Longrightarrow> p ! pi \<noteq> CHR 0x25 \<and> \<not> (p ! pi = CHR ''_'' \<or> p ! pi = s ! si)"
    using b le_neq_implies_less by blast
  then show ?case
  proof cases
    case stop: 1
    have "\<not> star_later p s star"
      using later_shift [OF inv] stop by auto
    then show ?thesis using stop b like_empty by (subst matchLike_loop.simps) simp
  next
    case percent: 2
    have i: "ml_inv p s (pi + 1) si (Some (pi, si))" using percent by (simp add: ml_inv_def)
    have "matchLike_loop p s pi si star = matchLike_loop p s (pi + 1) si (Some (pi, si))"
      using percent by (subst matchLike_loop.simps) simp
    also have "\<dots> \<longleftrightarrow> like_spec (drop pi p) (drop si s)"
      using 1(1) percent i percent_later [of pi p si s] b by simp
    finally show ?thesis using later_absorbed [OF inv percent(2,3)] by blast
  next
    case plain: 3
    have i: "ml_inv p s (pi + 1) (si + 1) star"
      using ml_inv_step [OF inv] plain by simp
    have d: "drop pi p = p ! pi # drop (pi + 1) p" "drop si s = s ! si # drop (si + 1) s"
      using plain by (simp_all add: Cons_nth_drop_Suc)
    have "matchLike_loop p s pi si star = matchLike_loop p s (pi + 1) (si + 1) star"
      using plain by (subst matchLike_loop.simps) simp
    then show ?thesis using 1(2) plain i unfolding d by simp
  next
    case retry: 4
    have n: "\<not> like_spec (drop pi p) (drop si s)"
    proof (cases "pi < length p")
      case True
      have d: "drop pi p = p ! pi # drop (pi + 1) p" "drop si s = s ! si # drop (si + 1) s"
        using True retry by (simp_all add: Cons_nth_drop_Suc)
      show ?thesis using retry(2) [OF True] unfolding d by simp
    qed (use retry in simp)
    show ?thesis
    proof (cases star)
      case None
      then show ?thesis using retry n by (subst matchLike_loop.simps) (auto simp: star_later_def)
    next
      case (Some q)
      obtain sp ss where q: "q = (sp, ss)" by fastforce
      have i: "sp < pi" "ss \<le> si" using inv Some q by (auto simp: ml_inv_def)
      have "matchLike_loop p s pi si star = matchLike_loop p s (sp + 1) (ss + 1) (Some (sp, ss + 1))"
        using retry Some q by (subst matchLike_loop.simps) auto
      moreover have "ml_inv p s (sp + 1) (ss + 1) (Some (sp, ss + 1))"
        using i b retry by (simp add: ml_inv_def)
      then have "matchLike_loop p s (sp + 1) (ss + 1) (Some (sp, ss + 1)) \<longleftrightarrow>
          like_spec (drop (sp + 1) p) (drop (ss + 1) s) \<or> star_later p s (Some (sp, ss + 1))"
        using 1(3) [OF retry(1) _ _ Some q [symmetric]] retry(2) by blast
      moreover have "ss < length s" using i(2) retry(1) by simp
      ultimately show ?thesis
        using n later_step [of ss s p sp] Some q by simp
    qed
  qed
qed

text \<open>C19. \<open>LIKE\<close> matches exactly what SQL says: \<open>%\<close> stands for any text, \<open>_\<close> for one byte, every
  other byte for itself. The loop never misses a match although it goes back to the last \<open>%\<close> only, and it
  ends for every pattern and text.\<close>

theorem like_correct: "matchLike pattern s \<longleftrightarrow> like_spec pattern s"
  using matchLike_loop_spec [of pattern s 0 0 None] by (simp add: matchLike_def ml_inv_def star_later_def)

end
