(* ===== verification/Go_Utf8.thy ===== *)
theory Go_Utf8
  imports Sql_Token
begin

text \<open>
  The package \<open>unicode/utf8\<close> as the scalar functions use it: the bytes of a code point
  (\<open>AppendRune\<close>) and the first code point of a byte string with its width
  (\<open>DecodeRuneInString\<close>), with U+FFFD for what is no UTF-8.
\<close>

definition rune_error :: nat where "rune_error = 65533"
definition max_rune :: nat where "max_rune = 1114111"

definition valid_rune :: "nat \<Rightarrow> bool" where
  "valid_rune n \<longleftrightarrow> n < 55296 \<or> 57344 \<le> n \<and> n \<le> max_rune"

definition byte_of :: "nat \<Rightarrow> char" where
  "byte_of n = char_of n"

definition encode_valid :: "nat \<Rightarrow> string" where
  "encode_valid n =
     (if n < 128 then [byte_of n]
      else if n < 2048 then [byte_of (192 + n div 64), byte_of (128 + n mod 64)]
      else if n < 65536 then
        [byte_of (224 + n div 4096), byte_of (128 + n div 64 mod 64), byte_of (128 + n mod 64)]
      else [byte_of (240 + n div 262144), byte_of (128 + n div 4096 mod 64),
            byte_of (128 + n div 64 mod 64), byte_of (128 + n mod 64)])"

definition encode_rune :: "nat \<Rightarrow> string" where
  "encode_rune n = encode_valid (if valid_rune n then n else rune_error)"

text \<open>The range of the second byte depends on the first; the others are \<open>80\<close> to \<open>BF\<close>.\<close>

definition second_lo :: "nat \<Rightarrow> nat" where
  "second_lo x = (if x = 224 then 160 else if x = 240 then 144 else 128)"

definition second_hi :: "nat \<Rightarrow> nat" where
  "second_hi x = (if x = 237 then 159 else if x = 244 then 143 else 191)"

definition cont_byte :: "char \<Rightarrow> bool" where
  "cont_byte c \<longleftrightarrow> 128 \<le> ch c \<and> ch c \<le> 191"

definition decode_rune :: "string \<Rightarrow> nat \<times> nat" where
  "decode_rune s =
     (case s of [] \<Rightarrow> (rune_error, 0)
      | c0 # r \<Rightarrow>
        let x = ch c0;
            ok = (\<lambda>c. second_lo x \<le> ch c \<and> ch c \<le> second_hi x)
        in if x < 128 then (x, 1)
           else if x < 194 \<or> 244 < x then (rune_error, 1)
           else if x < 224 then
             (case r of c1 # _ \<Rightarrow> if ok c1 then ((x - 192) * 64 + (ch c1 - 128), 2) else (rune_error, 1)
              | [] \<Rightarrow> (rune_error, 1))
           else if x < 240 then
             (case r of c1 # c2 # _ \<Rightarrow>
                if ok c1 \<and> cont_byte c2
                then ((x - 224) * 4096 + (ch c1 - 128) * 64 + (ch c2 - 128), 3) else (rune_error, 1)
              | _ \<Rightarrow> (rune_error, 1))
           else
             (case r of c1 # c2 # c3 # _ \<Rightarrow>
                if ok c1 \<and> cont_byte c2 \<and> cont_byte c3
                then ((x - 240) * 262144 + (ch c1 - 128) * 4096 + (ch c2 - 128) * 64 + (ch c3 - 128), 4)
                else (rune_error, 1)
              | _ \<Rightarrow> (rune_error, 1)))"

lemma ch_byte_of [simp]: "n < 256 \<Longrightarrow> ch (byte_of n) = n"
  by (simp add: ch_def byte_of_def)

lemma decode_width: "s \<noteq> [] \<Longrightarrow> 0 < snd (decode_rune s) \<and> snd (decode_rune s) \<le> length s"
  by (auto simp: decode_rune_def Let_def split: list.splits)

lemma base64_digits:
  "n div 64 * 64 + n mod 64 = (n :: nat)"
  "n div 4096 * 4096 + n div 64 mod 64 * 64 + n mod 64 = n"
  "n div 262144 * 262144 + n div 4096 mod 64 * 4096 + n div 64 mod 64 * 64 + n mod 64 = n"
proof -
  show a: "n div 64 * 64 + n mod 64 = n" by simp
  have "n div 4096 = n div 64 div 64" by (simp add: div_mult2_eq [symmetric])
  then have b: "n div 4096 * 64 + n div 64 mod 64 = n div 64" by simp
  then show c: "n div 4096 * 4096 + n div 64 mod 64 * 64 + n mod 64 = n" using a by linarith
  have "n div 262144 = n div 4096 div 64" by (simp add: div_mult2_eq [symmetric])
  then have "n div 262144 * 64 + n div 4096 mod 64 = n div 4096" by simp
  then show "n div 262144 * 262144 + n div 4096 mod 64 * 4096 + n div 64 mod 64 * 64 + n mod 64 = n"
    using c by linarith
qed

lemma mod_64_le [simp]: "n mod 64 \<le> (63 :: nat)"
  using mod_less_divisor [of 64 n] by linarith

lemma decode_encode:
  assumes "valid_rune n"
  shows "decode_rune (encode_rune n @ r) = (n, length (encode_rune n))"
proof -
  have m: "n \<le> 1114111" using assms by (auto simp: valid_rune_def max_rune_def)
  have l: "n mod 64 < 64" "n div 64 mod 64 < 64" "n div 4096 mod 64 < 64" by simp_all
  consider "n < 128" | "128 \<le> n" "n < 2048" | "2048 \<le> n" "n < 65536" | "65536 \<le> n" by linarith
  then show ?thesis
  proof cases
    case 1
    then show ?thesis using assms by (simp add: encode_rune_def encode_valid_def decode_rune_def)
  next
    case 2
    then have d: "2 \<le> n div 64" "n div 64 < 32" "n mod 64 \<le> 63" using l by linarith+
    show ?thesis
      using assms 2 d base64_digits(1) [of n]
      by (simp add: encode_rune_def encode_valid_def decode_rune_def second_lo_def second_hi_def Let_def)
         (use 2 in linarith)
  next
    case 3
    then have d: "n div 4096 < 16" by linarith
    have s: "n div 4096 = 0 \<Longrightarrow> 32 \<le> n div 64 mod 64"
      using 3 base64_digits(2) [of n] l by linarith
    have t: "n div 4096 = 13 \<Longrightarrow> n div 64 mod 64 < 32"
    proof -
      assume q: "n div 4096 = 13"
      have "n < 55296"
      proof (rule ccontr)
        assume "\<not> n < 55296"
        then have "57344 \<le> n" using assms by (auto simp: valid_rune_def)
        then show False using q by linarith
      qed
      then show ?thesis using q base64_digits(2) [of n] by linarith
    qed
    show ?thesis
      using assms 3 l d s t base64_digits(2) [of n]
      by (auto simp: encode_rune_def encode_valid_def decode_rune_def second_lo_def second_hi_def
          cont_byte_def Let_def)
  next
    case 4
    then have d: "n div 262144 < 5" using m by linarith
    have s: "n div 262144 = 0 \<Longrightarrow> 16 \<le> n div 4096 mod 64"
      using 4 base64_digits(3) [of n] l by linarith
    have t: "n div 262144 = 4 \<Longrightarrow> n div 4096 mod 64 < 16"
      using m base64_digits(3) [of n] by linarith
    show ?thesis
      using assms 4 l d s t base64_digits(3) [of n]
      by (auto simp: encode_rune_def encode_valid_def decode_rune_def second_lo_def second_hi_def
          cont_byte_def Let_def)
  qed
qed

end
