(* ===== verification/Sql_Funcs.thy ===== *)
theory Sql_Funcs
  imports Sql_Like Go_Utf8 Sql_Lexer
begin

text \<open>
  The scalar SQL functions (\<open>eval*\<close> of \<open>SQL/EX/eval.go\<close>). A function gets the results of evaluating its
  arguments, in order, and looks at as many of them as the code evaluates: an argument that the code would
  not evaluate is not looked at, so its error does not matter. Evaluation has no effect, so this is the same.
  What depends on the world or on code that is not modelled is a field of \<open>go_env\<close>.
\<close>

subsection \<open>The environment\<close>

text \<open>
  \<open>ge_float\<close>: \<open>strconv.FormatFloat(x, 'g', -1, 64)\<close>, which is also \<open>%v\<close>; \<open>ge_parse_float\<close>:
  \<open>strconv.ParseFloat\<close>; \<open>ge_exprs\<close>: \<open>%v\<close> of a slice of nodes, which prints addresses; \<open>ge_upper\<close>,
  \<open>ge_lower\<close>, \<open>ge_equal_fold\<close>, \<open>ge_trim_*\<close>: the Unicode cases of \<open>strings\<close>, asked for texts outside ASCII only;
  \<open>ge_pow10\<close>: \<open>math.Pow(10, n)\<close>; \<open>ge_sprintf\<close>: \<open>fmt.Sprintf\<close>; \<open>ge_call\<close>: the functions that read
  the clock, the random source, the session counters, and those of \<open>datetime.go\<close>, \<open>json.go\<close> and GLOB
  (package \<open>regexp\<close>); \<open>ge_is_date\<close>, \<open>ge_date_arith\<close>: \<open>ParseDateTime\<close> and \<open>DateTimeArithmetic\<close>;
  \<open>ge_decimal\<close>: \<open>evalDecimalCast\<close> (\<open>math/big\<close>); \<open>ge_interval\<close>: \<open>ParseInterval\<close>; \<open>ge_subquery\<close>: plan
  and run a subquery for the outer row (its column names and data), the rows it yields.
\<close>

record go_env =
  ge_float :: "f64 \<Rightarrow> string"
  ge_parse_float :: "string \<Rightarrow> f64 option"
  ge_exprs :: "expr list \<Rightarrow> string"
  ge_upper :: "string \<Rightarrow> string"
  ge_lower :: "string \<Rightarrow> string"
  ge_equal_fold :: "string \<Rightarrow> string \<Rightarrow> bool"
  ge_trim_left :: "string \<Rightarrow> string \<Rightarrow> string"
  ge_trim_right :: "string \<Rightarrow> string \<Rightarrow> string"
  ge_trim_space :: "string \<Rightarrow> string"
  ge_pow10 :: "int \<Rightarrow> f64"
  ge_sprintf :: "string \<Rightarrow> val list \<Rightarrow> string"
  ge_call :: "string \<Rightarrow> val res list \<Rightarrow> val res"
  ge_is_date :: "string \<Rightarrow> bool"
  ge_is_time :: "val \<Rightarrow> bool"
  ge_date_arith :: "val \<Rightarrow> val \<Rightarrow> string \<Rightarrow> val res"
  ge_decimal :: "val \<Rightarrow> int \<Rightarrow> int \<Rightarrow> val res"
  ge_interval :: "string \<Rightarrow> (int \<times> string) option"
  ge_subquery :: "(expr, stmt) select \<Rightarrow> (string list \<times> val list) list \<Rightarrow> val list \<Rightarrow> (string list \<times> val list) list res"

text \<open>An environment for examples: ASCII only, no dates, no decimals, and subqueries without rows.\<close>

definition sample_env :: go_env where
  "sample_env =
     \<lparr>ge_float = (\<lambda>f. ''0''), ge_parse_float = (\<lambda>s. None), ge_exprs = (\<lambda>es. ''[]''),
      ge_upper = (\<lambda>s. s), ge_lower = (\<lambda>s. s), ge_equal_fold = (\<lambda>s t. s = t),
      ge_trim_left = (\<lambda>s c. s), ge_trim_right = (\<lambda>s c. s), ge_trim_space = (\<lambda>s. s),
      ge_pow10 = (\<lambda>n. f_of_int (10 ^ nat n)), ge_sprintf = (\<lambda>f vs. f), ge_call = (\<lambda>n vs. Fail ErrEval),
      ge_is_date = (\<lambda>s. False), ge_is_time = (\<lambda>v. False), ge_date_arith = (\<lambda>a b op. Fail ErrEval),
      ge_decimal = (\<lambda>v p s. Fail ErrEval), ge_interval = (\<lambda>s. None), ge_subquery = (\<lambda>sel r ps. Ok [])\<rparr>"

definition is_ascii :: "string \<Rightarrow> bool" where
  "is_ascii s = list_all (\<lambda>c. ch c < 128) s"

definition ToUpper :: "go_env \<Rightarrow> string \<Rightarrow> string" where
  "ToUpper env s = (if is_ascii s then ascii_upper s else ge_upper env s)"

text \<open>\<open>strings.EqualFold\<close>.\<close>

definition EqualFold :: "go_env \<Rightarrow> string \<Rightarrow> string \<Rightarrow> bool" where
  "EqualFold env s t =
     (if is_ascii s \<and> is_ascii t then ascii_lower s = ascii_lower t else ge_equal_fold env s t)"

definition ToLower :: "go_env \<Rightarrow> string \<Rightarrow> string" where
  "ToLower env s = (if is_ascii s then ascii_lower s else ge_lower env s)"

text \<open>\<open>fmt.Sprint(v)\<close>, the verb \<open>%v\<close>: a byte slice prints as its decimal values in brackets.\<close>

fun join_spaced :: "string list \<Rightarrow> string" where
  "join_spaced [] = []"
| "join_spaced [x] = x"
| "join_spaced (x # xs) = x @ '' '' @ join_spaced xs"

fun go_sprint :: "go_env \<Rightarrow> val \<Rightarrow> string" where
  "go_sprint env VNull = ''<nil>''"
| "go_sprint env (VInt i) = FormatInt i"
| "go_sprint env (VFloat f) = ge_float env f"
| "go_sprint env (VStr s) = s"
| "go_sprint env (VBool b) = (if b then ''true'' else ''false'')"
| "go_sprint env (VBytes s) = ''['' @ join_spaced (map (\<lambda>c. nat_str (ch c)) s) @ '']''"
| "go_sprint env (VGoInt i) = FormatInt i"
| "go_sprint env (VUint i) = FormatInt i"
| "go_sprint env (VInterval n u) = ''&{'' @ FormatInt n @ '' '' @ u @ ''}''"
| "go_sprint env (VExprs es) = ge_exprs env es"

definition val_concat :: "go_env \<Rightarrow> val \<Rightarrow> val \<Rightarrow> val" where
  "val_concat env a b =
     (if a = VNull \<or> b = VNull then VNull else VStr (go_sprint env a @ go_sprint env b))"

subsection \<open>Strings of package \<open>strings\<close>\<close>

fun str_prefix :: "string \<Rightarrow> string \<Rightarrow> bool" where
  "str_prefix s [] = True"
| "str_prefix [] (c # p) = False"
| "str_prefix (d # s) (c # p) = (d = c \<and> str_prefix s p)"

fun go_index :: "string \<Rightarrow> string \<Rightarrow> nat option" where
  "go_index [] p = (if p = [] then Some 0 else None)"
| "go_index (c # s) p = (if str_prefix (c # s) p then Some 0 else map_option Suc (go_index s p))"

function replace_loop :: "string \<Rightarrow> string \<Rightarrow> string \<Rightarrow> string" where
  "replace_loop old new s =
     (if s = [] \<or> old = [] then s
      else if str_prefix s old then new @ replace_loop old new (drop (length old) s)
      else hd s # replace_loop old new (tl s))"
  by pat_completeness auto
termination by (relation "measure (\<lambda>(old, new, s). length s)") auto

declare replace_loop.simps [simp del]

text \<open>With an empty pattern, the replacement goes before every code point and at the end.\<close>

function replace_empty :: "string \<Rightarrow> string \<Rightarrow> string" where
  "replace_empty new s =
     (if s = [] then new
      else let n = snd (decode_rune s) in new @ take n s @ replace_empty new (drop n s))"
  by pat_completeness auto
termination
proof (relation "measure (\<lambda>(new, s). length s)")
  fix new s x assume "s \<noteq> []" "x = snd (decode_rune s)"
  then show "((new, drop x s), new, s) \<in> measure (\<lambda>(new, s). length s)"
    using decode_width [of s] by simp
qed simp

declare replace_empty.simps [simp del]

definition ReplaceAll :: "string \<Rightarrow> string \<Rightarrow> string \<Rightarrow> string" where
  "ReplaceAll s old new =
     (if old = new then s else if old = [] then replace_empty new s else replace_loop old new s)"

definition TrimLeft :: "go_env \<Rightarrow> string \<Rightarrow> string \<Rightarrow> string" where
  "TrimLeft env s cutset =
     (if is_ascii cutset then dropWhile (\<lambda>c. c \<in> set cutset) s else ge_trim_left env s cutset)"

definition TrimRight :: "go_env \<Rightarrow> string \<Rightarrow> string \<Rightarrow> string" where
  "TrimRight env s cutset =
     (if is_ascii cutset then rev (dropWhile (\<lambda>c. c \<in> set cutset) (rev s)) else ge_trim_right env s cutset)"

definition Trim :: "go_env \<Rightarrow> string \<Rightarrow> string \<Rightarrow> string" where
  "Trim env s cutset = TrimRight env (TrimLeft env s cutset) cutset"

definition TrimSpace :: "go_env \<Rightarrow> string \<Rightarrow> string" where
  "TrimSpace env s =
     (if is_ascii s then rev (dropWhile is_space (rev (dropWhile is_space s))) else ge_trim_space env s)"

definition hex_digit_char :: "nat \<Rightarrow> char" where
  "hex_digit_char d = char_of (if d < 10 then 48 + d else 87 + d)"

definition hex_string :: "string \<Rightarrow> string" where
  "hex_string s = concat (map (\<lambda>c. [hex_digit_char (ch c div 16), hex_digit_char (ch c mod 16)]) s)"

text \<open>\<open>strconv.ParseInt(s, 10, 64)\<close>: an optional sign and decimal digits, in range.\<close>

definition ParseInt :: "string \<Rightarrow> int option" where
  "ParseInt s =
     (let (neg, ds) = (case s of c # r \<Rightarrow> if c = CHR ''-'' then (True, r) else if c = CHR ''+'' then (False, r) else (False, s)
                       | [] \<Rightarrow> (False, []));
          v = (if neg then - int (digits_val ds) else int (digits_val ds))
      in if ds \<noteq> [] \<and> list_all is_digit ds \<and> int64_range v then Some v else None)"

subsection \<open>Arguments\<close>

abbreviation ok_str :: "string \<Rightarrow> val res" where "ok_str s \<equiv> Ok (VStr s)"
abbreviation ok_int :: "int \<Rightarrow> val res" where "ok_int i \<equiv> Ok (VInt i)"

text \<open>\<open>v, _ := Eval(arg)\<close>: the error is dropped and the value is nil.\<close>

fun ignore_err :: "val res \<Rightarrow> val res" where
  "ignore_err (Fail e) = Ok VNull"
| "ignore_err m = m"

text \<open>The common prologue: the argument is evaluated, an error is returned, NULL yields NULL.\<close>

definition unless_null :: "val res \<Rightarrow> (val \<Rightarrow> val res) \<Rightarrow> val res" where
  "unless_null m f = obind m (\<lambda>v. if v = VNull then Ok VNull else f v)"

fun seq_args :: "val res list \<Rightarrow> val list res" where
  "seq_args [] = Ok []"
| "seq_args (m # ms) = obind m (\<lambda>v. obind (seq_args ms) (\<lambda>vs. Ok (v # vs)))"

subsection \<open>The functions\<close>

fun evalAbs :: "val res list \<Rightarrow> val res" where
  "evalAbs [m] = unless_null m (\<lambda>v. case v of
      VInt x \<Rightarrow> (if x = min_int64 then Fail (ErrMsg ''abs: integer overflow'')
                 else if x < 0 then ok_int (- x) else ok_int x)
    | VFloat x \<Rightarrow> Ok (VFloat (if f_lt x f_zero then f_neg x else x))
    | _ \<Rightarrow> Ok (VFloat f_zero))"
| "evalAbs args = Fail ErrEval"

fun evalHex :: "go_env \<Rightarrow> val res list \<Rightarrow> val res" where
  "evalHex env [m] = unless_null m (\<lambda>v. ok_str (ascii_upper (hex_string (case v of
      VBytes s \<Rightarrow> s | VStr s \<Rightarrow> s | _ \<Rightarrow> go_sprint env v))))"
| "evalHex env args = Fail ErrEval"

definition round_places :: "val res list \<Rightarrow> int res" where
  "round_places args =
     (if length args = 2 then
        obind (args ! 1) (\<lambda>pv. Ok (case toInt64 pv of Some p \<Rightarrow> (if p < 0 then 0 else p) | None \<Rightarrow> 0))
      else Ok 0)"

definition evalRound :: "go_env \<Rightarrow> val res list \<Rightarrow> val res" where
  "evalRound env args =
     (if length args < 1 \<or> 2 < length args then Fail ErrEval
      else unless_null (args ! 0) (\<lambda>v. case numericFloat v of
             None \<Rightarrow> Ok (VFloat f_zero)
           | Some x \<Rightarrow> obind (round_places args) (\<lambda>places.
               let mult = ge_pow10 env places
               in Ok (VFloat (f_div (f_rint (f_mul x mult)) mult)))))"

text \<open>\<open>SUBSTR\<close> has no test for NULL. The sum \<open>offset + int(length)\<close> wraps around; the slice expression
  panics when its bounds are not in order.\<close>

definition evalSubstr :: "go_env \<Rightarrow> val res list \<Rightarrow> val res" where
  "evalSubstr env args =
     (if length args < 2 then Fail ErrEval
      else obind (args ! 0) (\<lambda>rawStr.
        let s = go_sprint env rawStr
        in obind (args ! 1) (\<lambda>startV. case toInt64 startV of
             None \<Rightarrow> Fail ErrEval
           | Some start \<Rightarrow>
               let offset = (if start < 1 then 1 else start) - 1
               in if int (length s) \<le> offset then ok_str []
                  else if 3 \<le> length args then
                    obind (args ! 2) (\<lambda>lenV. case toInt64 lenV of
                      None \<Rightarrow> Fail ErrEval
                    | Some n \<Rightarrow>
                        if n < 0 then ok_str []
                        else let stop = wrap64 (offset + n);
                                 stop = (if int (length s) < stop then int (length s) else stop)
                             in obind (go_slice s offset stop) ok_str)
                  else ok_str (drop (nat offset) s))))"

fun char_loop :: "string \<Rightarrow> val res list \<Rightarrow> val res" where
  "char_loop sb [] = ok_str sb"
| "char_loop sb (m # ms) = unless_null m (\<lambda>v. case toInt64 v of
      None \<Rightarrow> char_loop sb ms
    | Some n \<Rightarrow> if n < 0 \<or> int max_rune < n then char_loop sb ms
               else char_loop (sb @ encode_rune (nat n)) ms)"

definition evalChar :: "val res list \<Rightarrow> val res" where
  "evalChar args = char_loop [] args"

fun concat_loop :: "go_env \<Rightarrow> string \<Rightarrow> val res list \<Rightarrow> val res" where
  "concat_loop env sb [] = ok_str sb"
| "concat_loop env sb (m # ms) = unless_null m (\<lambda>v. concat_loop env (sb @ go_sprint env v) ms)"

definition evalConcat :: "go_env \<Rightarrow> val res list \<Rightarrow> val res" where
  "evalConcat env args = concat_loop env [] args"

fun concat_ws_loop :: "go_env \<Rightarrow> string \<Rightarrow> bool \<Rightarrow> string \<Rightarrow> val res list \<Rightarrow> val res" where
  "concat_ws_loop env sep first sb [] = ok_str sb"
| "concat_ws_loop env sep first sb (m # ms) = obind m (\<lambda>v.
      if v = VNull then concat_ws_loop env sep first sb ms
      else concat_ws_loop env sep False (sb @ (if first then [] else sep) @ go_sprint env v) ms)"

definition evalConcatWS :: "go_env \<Rightarrow> val res list \<Rightarrow> val res" where
  "evalConcatWS env args =
     (if length args < 2 then Fail ErrEval
      else unless_null (args ! 0) (\<lambda>sep. concat_ws_loop env (go_sprint env sep) True [] (tl args)))"

definition evalFormat :: "go_env \<Rightarrow> val res list \<Rightarrow> val res" where
  "evalFormat env args =
     (if length args < 1 then Fail ErrEval
      else unless_null (args ! 0) (\<lambda>fmtV. obind (seq_args (tl args)) (\<lambda>vs.
             ok_str (ge_sprintf env (go_sprint env fmtV) vs))))"

definition trim_with :: "(go_env \<Rightarrow> string \<Rightarrow> string \<Rightarrow> string) \<Rightarrow> go_env \<Rightarrow> val res list \<Rightarrow> val res" where
  "trim_with trim env args =
     (if length args < 1 then Fail ErrEval
      else unless_null (args ! 0) (\<lambda>v.
        let s = go_sprint env v
        in if 2 \<le> length args then
             obind (args ! 1) (\<lambda>trimV.
               if trimV \<noteq> VNull then ok_str (trim env s (go_sprint env trimV)) else ok_str (trim env s '' ''))
           else ok_str (trim env s '' '')))"

definition evalLtrim :: "go_env \<Rightarrow> val res list \<Rightarrow> val res" where "evalLtrim = trim_with TrimLeft"
definition evalRtrim :: "go_env \<Rightarrow> val res list \<Rightarrow> val res" where "evalRtrim = trim_with TrimRight"
definition evalTrim :: "go_env \<Rightarrow> val res list \<Rightarrow> val res" where "evalTrim = trim_with Trim"

fun evalReplace :: "go_env \<Rightarrow> val res list \<Rightarrow> val res" where
  "evalReplace env [mx, my, mz] = unless_null mx (\<lambda>x. obind my (\<lambda>y. obind mz (\<lambda>z.
      let xs = go_sprint env x
      in if y = VNull then ok_str xs
         else ok_str (ReplaceAll xs (go_sprint env y) (if z = VNull then [] else go_sprint env z)))))"
| "evalReplace env args = Fail ErrEval"

text \<open>The character is the single quote: \<open>strings.ReplaceAll(x, "'", "''")\<close>.\<close>

definition quote_text :: "string \<Rightarrow> string" where
  "quote_text x = CHR 0x27 # ReplaceAll x [CHR 0x27] [CHR 0x27, CHR 0x27] @ [CHR 0x27]"

fun evalQuote :: "go_env \<Rightarrow> val res list \<Rightarrow> val res" where
  "evalQuote env [m] = obind m (\<lambda>v. case v of
      VNull \<Rightarrow> ok_str ''NULL''
    | VStr x \<Rightarrow> ok_str (quote_text x)
    | VInt i \<Rightarrow> ok_str (go_sprint env v)
    | VFloat f \<Rightarrow> ok_str (go_sprint env v)
    | VGoInt i \<Rightarrow> ok_str (go_sprint env v)
    | VBool b \<Rightarrow> ok_str (go_sprint env v)
    | VBytes x \<Rightarrow> ok_str (CHR ''X'' # CHR 0x27 # hex_string x @ [CHR 0x27])
    | _ \<Rightarrow> ok_str (quote_text (go_sprint env v)))"
| "evalQuote env args = Fail ErrEval"

fun typeof_name :: "val \<Rightarrow> string" where
  "typeof_name VNull = ''null''"
| "typeof_name (VFloat f) = ''real''"
| "typeof_name (VInt i) = ''integer''"
| "typeof_name (VGoInt i) = ''integer''"
| "typeof_name (VBool b) = ''integer''"
| "typeof_name (VBytes s) = ''blob''"
| "typeof_name v = ''text''"

fun evalTypeof :: "val res list \<Rightarrow> val res" where
  "evalTypeof [m] = obind m (\<lambda>v. ok_str (typeof_name v))"
| "evalTypeof args = Fail ErrEval"

fun evalOctetLength :: "go_env \<Rightarrow> val res list \<Rightarrow> val res" where
  "evalOctetLength env [m] = unless_null m (\<lambda>v. ok_int (int (length (go_sprint env v))))"
| "evalOctetLength env args = Fail ErrEval"

fun evalUnicode :: "go_env \<Rightarrow> val res list \<Rightarrow> val res" where
  "evalUnicode env [m] = unless_null m (\<lambda>v.
      let s = go_sprint env v in if s = [] then ok_int 0 else ok_int (int (fst (decode_rune s))))"
| "evalUnicode env args = Fail ErrEval"

fun evalIIF :: "val res list \<Rightarrow> val res" where
  "evalIIF [m, x, y] = obind m (\<lambda>cond. if truthy cond then x else y)"
| "evalIIF args = Fail ErrEval"

fun evalInstr :: "go_env \<Rightarrow> val res list \<Rightarrow> val res" where
  "evalInstr env [mx, my] = obind mx (\<lambda>x.
      if x = VNull then ok_int 0
      else obind my (\<lambda>y.
        if y = VNull then ok_int 0
        else let xs = go_sprint env x; ys = go_sprint env y
             in if ys = [] then ok_int 1
                else case go_index xs ys of Some pos \<Rightarrow> ok_int (int pos + 1) | None \<Rightarrow> ok_int 0))"
| "evalInstr env args = Fail ErrEval"

fun evalSign :: "val res list \<Rightarrow> val res" where
  "evalSign [m] = obind m (\<lambda>v.
      if v = VNull then ok_int 0
      else case numericFloat v of
             None \<Rightarrow> ok_int 0
           | Some n \<Rightarrow> if f_lt n f_zero then ok_int (- 1) else if f_lt f_zero n then ok_int 1 else ok_int 0)"
| "evalSign args = Fail ErrEval"

text \<open>\<open>MAX\<close> and \<open>MIN\<close> of several arguments: \<open>better\<close> is the test that replaces the value so far.\<close>

fun extreme_loop :: "(int \<Rightarrow> bool) \<Rightarrow> val \<Rightarrow> val res list \<Rightarrow> val res" where
  "extreme_loop better acc [] = Ok acc"
| "extreme_loop better acc (m # ms) = obind m (\<lambda>v.
      if v = VNull then extreme_loop better acc ms
      else if acc = VNull \<or> better (val_compare v acc) then extreme_loop better v ms
      else extreme_loop better acc ms)"

definition evalMaxScalar :: "val res list \<Rightarrow> val res" where
  "evalMaxScalar args = extreme_loop (\<lambda>c. 0 < c) VNull args"

definition evalMinScalar :: "val res list \<Rightarrow> val res" where
  "evalMinScalar args = extreme_loop (\<lambda>c. c < 0) VNull args"

text \<open>\<open>make([]byte, n)\<close> panics when the length is out of range; the bound of the platform is \<open>2^48\<close>
  bytes, the address space of amd64. A length below it may still be more than the machine has.\<close>

fun evalZeroblob :: "val res list \<Rightarrow> val res" where
  "evalZeroblob [m] = obind m (\<lambda>nV. case toInt64 nV of
      None \<Rightarrow> Ok VNull
    | Some n \<Rightarrow> if n < 0 then Ok VNull
               else if 2 ^ 48 < n then Panic
               else Ok (VBytes (replicate (nat n) (CHR 0x00))))"
| "evalZeroblob args = Fail ErrEval"

text \<open>\<open>LIKELY\<close>, \<open>UNLIKELY\<close> and \<open>LIKELIHOOD\<close> pass their first argument on.\<close>

definition pass_first :: "val res list \<Rightarrow> val res" where
  "pass_first args = (case args of [] \<Rightarrow> Ok VNull | m # _ \<Rightarrow> m)"

definition evalLikelihood :: "val res list \<Rightarrow> val res" where "evalLikelihood = pass_first"
definition evalLikely :: "val res list \<Rightarrow> val res" where "evalLikely = pass_first"
definition evalUnlikely :: "val res list \<Rightarrow> val res" where "evalUnlikely = pass_first"

definition soundex_codes :: "(char \<times> char) list" where
  "soundex_codes =
     map (\<lambda>c. (c, CHR ''1'')) ''BFPV'' @ map (\<lambda>c. (c, CHR ''2'')) ''CGJKQSXZ'' @
     map (\<lambda>c. (c, CHR ''3'')) ''DT'' @ [(CHR ''L'', CHR ''4'')] @
     map (\<lambda>c. (c, CHR ''5'')) ''MN'' @ [(CHR ''R'', CHR ''6'')]"

text \<open>A letter without a code has the zero byte.\<close>

definition soundex_code :: "char \<Rightarrow> char" where
  "soundex_code c = (case map_of soundex_codes c of Some d \<Rightarrow> d | None \<Rightarrow> CHR 0x00)"

fun soundex_letters :: "string \<Rightarrow> string" where
  "soundex_letters [] = []"
| "soundex_letters (c # s) =
     (if 97 \<le> ch c \<and> ch c \<le> 122 then upper_char c # soundex_letters s
      else if 65 \<le> ch c \<and> ch c \<le> 90 then c # soundex_letters s
      else soundex_letters s)"

fun soundex_loop :: "char \<Rightarrow> string \<Rightarrow> string \<Rightarrow> string" where
  "soundex_loop prev result [] = result"
| "soundex_loop prev result (c # s) =
     (if length result < 4 then
        let code = soundex_code c;
            result' = (if code \<noteq> CHR 0x00 \<and> code \<noteq> prev then result @ [code] else result)
        in soundex_loop (if c \<in> set ''AEIOUYHW'' then prev else code) result' s
      else result)"

definition soundex_text :: "string \<Rightarrow> string" where
  "soundex_text s =
     (case soundex_letters s of
        [] \<Rightarrow> ''?000''
      | c # cs \<Rightarrow> let r = soundex_loop (soundex_code c) [c] cs in r @ replicate (4 - length r) (CHR ''0''))"

definition evalSoundex :: "val res list \<Rightarrow> val res" where
  "evalSoundex args =
     (case args of [] \<Rightarrow> Ok VNull
      | m # _ \<Rightarrow> unless_null m (\<lambda>v. case v of VStr s \<Rightarrow> ok_str (soundex_text s) | _ \<Rightarrow> ok_str ''?000''))"

definition hexDigit :: "char \<Rightarrow> nat" where
  "hexDigit c =
     (let n = ch c
      in if 48 \<le> n \<and> n \<le> 57 then n - 48
         else if 97 \<le> n \<and> n \<le> 102 then n - 87
         else if 65 \<le> n \<and> n \<le> 70 then n - 55
         else 255)"

fun unhex_loop :: "string \<Rightarrow> string option" where
  "unhex_loop (a # b # s) =
     (let h1 = hexDigit a; h2 = hexDigit b
      in if h1 = 255 \<or> h2 = 255 then None
         else map_option (\<lambda>r. char_of (h1 * 16 + h2) # r) (unhex_loop s))"
| "unhex_loop s = Some []"

definition evalUnhex :: "go_env \<Rightarrow> val res list \<Rightarrow> val res" where
  "evalUnhex env args =
     (case args of [] \<Rightarrow> Ok VNull
      | m # _ \<Rightarrow> unless_null m (\<lambda>v. case v of
          VStr s0 \<Rightarrow>
            (let s = TrimSpace env s0
             in if odd (length s) then Ok VNull
                else case unhex_loop s of Some b \<Rightarrow> Ok (VBytes b) | None \<Rightarrow> Ok VNull)
        | _ \<Rightarrow> Ok VNull))"

text \<open>\<open>strconv.ParseUint(s, 16, _)\<close> of 4, 6 or 8 characters: hexadecimal digits only.\<close>

definition parse_hex :: "string \<Rightarrow> nat option" where
  "parse_hex s =
     (if list_all (\<lambda>c. hexDigit c \<noteq> 255) s then Some (foldl (\<lambda>v c. 16 * v + hexDigit c) 0 s) else None)"

abbreviation BSL :: char where "BSL \<equiv> CHR 0x5C"

text \<open>The digits that follow \<open>\u\<close>, \<open>\U\<close> or \<open>\+\<close>; \<open>rune(v)\<close> of a value over 31 bits is negative, which
  \<open>WriteRune\<close> replaces like any other invalid code point.\<close>

definition unistr_hex :: "char \<Rightarrow> nat \<Rightarrow> string \<Rightarrow> string" where
  "unistr_hex d n t = (case parse_hex (take n t) of Some v \<Rightarrow> encode_rune v | None \<Rightarrow> BSL # d # take n t)"

definition unistr_width :: "char \<Rightarrow> nat" where
  "unistr_width d = (if d = CHR ''u'' then 4 else if d = CHR ''U'' then 8 else if d = CHR ''+'' then 6 else 0)"

function unistr_loop :: "string \<Rightarrow> string" where
  "unistr_loop [] = []"
| "unistr_loop [c] = [c]"
| "unistr_loop (c # d # t) =
     (if c \<noteq> BSL then c # unistr_loop (d # t)
      else if unistr_width d \<noteq> 0 then
        if length t < unistr_width d then BSL # d # unistr_loop t
        else unistr_hex d (unistr_width d) t @ unistr_loop (drop (unistr_width d) t)
      else if d = CHR ''n'' then CHR 0x0A # unistr_loop t
      else if d = CHR ''r'' then CHR 0x0D # unistr_loop t
      else if d = CHR ''t'' then CHR 0x09 # unistr_loop t
      else if d = BSL then BSL # unistr_loop t
      else BSL # d # unistr_loop t)"
  by pat_completeness auto
termination by (relation "measure length") auto

definition evalUnistr :: "val res list \<Rightarrow> val res" where
  "evalUnistr args =
     (case args of [] \<Rightarrow> Ok VNull
      | m # _ \<Rightarrow> unless_null m (\<lambda>v. case v of VStr s \<Rightarrow> ok_str (unistr_loop s) | _ \<Rightarrow> Ok VNull))"

subsection \<open>The dispatcher\<close>

fun text_arg :: "val res list \<Rightarrow> (string \<Rightarrow> val) \<Rightarrow> val res" where
  "text_arg (m # ms) f = obind (ignore_err m) (\<lambda>v. case v of VStr s \<Rightarrow> Ok (f s) | _ \<Rightarrow> Fail ErrEval)"
| "text_arg [] f = Fail ErrEval"

fun coalesce_loop :: "val res list \<Rightarrow> val res" where
  "coalesce_loop [] = Ok VNull"
| "coalesce_loop (m # ms) = obind (ignore_err m) (\<lambda>v. if v \<noteq> VNull then Ok v else coalesce_loop ms)"

fun evalIfnull :: "val res list \<Rightarrow> val res" where
  "evalIfnull [m, n] = obind (ignore_err m) (\<lambda>v1. if v1 = VNull then n else Ok v1)"
| "evalIfnull args = Fail ErrEval"

fun evalNullif :: "val res list \<Rightarrow> val res" where
  "evalNullif [m, n] = obind (ignore_err m) (\<lambda>a. obind (ignore_err n) (\<lambda>b.
      obind (equalValue a b) (\<lambda>e. if e then Ok VNull else Ok a)))"
| "evalNullif args = Fail (ErrMsg ''nullif: expected 2 args'')"

definition world_functions :: "string list" where
  "world_functions =
     [''NOW'', ''RANDOM'', ''RANDOMBLOB'', ''GLOB'', ''CHANGES'', ''LAST_INSERT_ROWID'', ''TOTAL_CHANGES'',
      ''DATE'', ''TIME'', ''DATETIME'', ''JULIANDAY'', ''STRFTIME'', ''EXTRACT'', ''CURRENT_TIMESTAMP'',
      ''CURRENT_DATE'', ''CURRENT_TIME'',
      ''JSON_EXTRACT'', ''JSON_TYPE'', ''JSON_VALID'', ''JSON_ARRAY'', ''JSON_OBJECT'', ''JSON_SET'']"

text \<open>The \<open>switch\<close> of \<open>evalFunction\<close> on the upper-case name, one entry per case.\<close>

definition function_table :: "go_env \<Rightarrow> (string \<times> (val res list \<Rightarrow> val res)) list" where
  "function_table env =
     [(''LENGTH'', \<lambda>args. text_arg args (\<lambda>s. VInt (int (length s)))),
      (''UPPER'', \<lambda>args. text_arg args (\<lambda>s. VStr (ToUpper env s))),
      (''LOWER'', \<lambda>args. text_arg args (\<lambda>s. VStr (ToLower env s))),
      (''IFNULL'', evalIfnull), (''COALESCE'', coalesce_loop), (''NULLIF'', evalNullif),
      (''SUBSTR'', evalSubstr env), (''ABS'', evalAbs), (''HEX'', evalHex env), (''ROUND'', evalRound env),
      (''CHAR'', evalChar), (''CONCAT'', evalConcat env), (''CONCAT_WS'', evalConcatWS env),
      (''FORMAT'', evalFormat env), (''LTRIM'', evalLtrim env), (''RTRIM'', evalRtrim env),
      (''TRIM'', evalTrim env), (''REPLACE'', evalReplace env), (''QUOTE'', evalQuote env),
      (''TYPEOF'', evalTypeof), (''OCTET_LENGTH'', evalOctetLength env), (''UNICODE'', evalUnicode env),
      (''SQLITE_VERSION'', \<lambda>args. ok_str ''0.26.7''),
      (''SQLITE_SOURCE_ID'', \<lambda>args. ok_str ''razordata-v0.26.7''),
      (''IIF'', evalIIF), (''IF'', evalIIF), (''INSTR'', evalInstr env), (''SIGN'', evalSign),
      (''MAX'', evalMaxScalar), (''MIN'', evalMinScalar), (''ZEROBLOB'', evalZeroblob),
      (''LIKELIHOOD'', evalLikelihood), (''LIKELY'', evalLikely), (''SOUNDEX'', evalSoundex),
      (''UNHEX'', evalUnhex env), (''UNISTR'', evalUnistr), (''UNLIKELY'', evalUnlikely)]"

definition evalFunction :: "go_env \<Rightarrow> string \<Rightarrow> val res list \<Rightarrow> val res" where
  "evalFunction env name args =
     (let n = ToUpper env name
      in case map_of (function_table env) n of
           Some f \<Rightarrow> f args
         | None \<Rightarrow> if n \<in> set world_functions then ge_call env n args else Fail ErrEval)"

subsection \<open>Round trips\<close>

lemma encode_not_Nil [simp]: "encode_rune n \<noteq> []"
  by (simp add: encode_rune_def encode_valid_def)

text \<open>\<open>UNICODE(CHAR(n))\<close> is \<open>n\<close> for every Unicode code point: the UTF-8 that \<open>CHAR\<close> writes is read back.\<close>

theorem unicode_char_roundtrip:
  assumes "valid_rune n"
  shows "evalUnicode env [evalChar [Ok (VInt (int n))]] = Ok (VInt (int n))"
proof -
  have "n \<le> max_rune" using assms by (auto simp: valid_rune_def max_rune_def)
  then show ?thesis
    using decode_encode [OF assms, of "[]"] by (simp add: evalChar_def unless_null_def Let_def)
qed

theorem unicode_char_roundtrip_witness:
  "evalUnicode sample_env [evalChar [Ok (VInt 8364)]] = Ok (VInt 8364)"
  using unicode_char_roundtrip [of 8364 sample_env] by (simp add: valid_rune_def)

lemma hexDigit_upper: "d < 16 \<Longrightarrow> hexDigit (upper_char (hex_digit_char d)) = d"
  by (auto simp: hexDigit_def upper_char_def hex_digit_char_def ch_def Let_def)

lemma hex_upper_ascii: "d < 16 \<Longrightarrow> ch (upper_char (hex_digit_char d)) < 128 \<and> \<not> is_space (upper_char (hex_digit_char d))"
  by (auto simp: upper_char_def hex_digit_char_def ch_def is_space_def Let_def)

lemma unhex_hex: "unhex_loop (ascii_upper (hex_string s)) = Some s"
proof (induction s)
  case (Cons c s)
  have "ch c div 16 < 16" "ch c div 16 * 16 + ch c mod 16 = ch c" using ch_less [of c] by auto
  moreover have "char_of (ch c) = c" by (simp add: ch_def)
  ultimately show ?case using Cons by (simp add: ascii_upper_def hex_string_def hexDigit_upper Let_def)
qed (simp add: ascii_upper_def hex_string_def)

lemma hex_chars: "c \<in> set (ascii_upper (hex_string s)) \<Longrightarrow> ch c < 128 \<and> \<not> is_space c"
proof -
  assume "c \<in> set (ascii_upper (hex_string s))"
  then obtain x where x: "c = upper_char (hex_digit_char (ch x div 16)) \<or> c = upper_char (hex_digit_char (ch x mod 16))"
    by (auto simp: ascii_upper_def hex_string_def)
  have "ch x div 16 < 16" "ch x mod 16 < 16" using ch_less [of x] by auto
  then show ?thesis using x hex_upper_ascii by blast
qed

lemma trim_clean: "\<forall>c \<in> set s. ch c < 128 \<and> \<not> is_space c \<Longrightarrow> TrimSpace env s = s"
proof -
  assume a: "\<forall>c \<in> set s. ch c < 128 \<and> \<not> is_space c"
  have d: "dropWhile is_space t = t" if "set t \<subseteq> set s" for t
    using that a by (cases t) auto
  show ?thesis using a d [of s] d [of "rev s"] by (simp add: TrimSpace_def is_ascii_def list_all_iff)
qed

lemma hex_length_even: "even (length (ascii_upper (hex_string s)))"
  by (induction s) (simp_all add: ascii_upper_def hex_string_def)

text \<open>\<open>UNHEX(HEX(b))\<close> is \<open>b\<close> for every byte string.\<close>

theorem unhex_hex_roundtrip:
  "evalUnhex env [evalHex env [Ok (VBytes b)]] = Ok (VBytes b)"
  using trim_clean [of "ascii_upper (hex_string b)" env] hex_chars [of _ b] unhex_hex [of b] hex_length_even [of b]
  by (simp add: evalUnhex_def unless_null_def Let_def)

lemma replace_quotes: "replace_loop [CHR 0x27] [CHR 0x27, CHR 0x27] s = double_quotes s"
proof (induction s)
  case (Cons c s)
  then show ?case by (subst replace_loop.simps) (simp add: eq_commute)
qed (simp add: replace_loop.simps)

lemma quote_text_sql: "quote_text s = sql_quote s"
  by (simp add: quote_text_def sql_quote_def ReplaceAll_def replace_quotes)

text \<open>C27. What the SQL function \<open>QUOTE\<close> writes for a text, the lexer reads back as one string literal with
  exactly this text: quotes inside are doubled and halved again, and the closing quote is found, provided the
  text holds no zero byte, which the lexer takes for the end of the input, and no quote follows.\<close>

theorem quote_lexes_back:
  assumes "NUL \<notin> set s" "lx_rest l = q @ r" "\<And>r'. r \<noteq> CHR 0x27 # r'"
    "evalQuote env [Ok (VStr s)] = Ok (VStr q)"
  shows "\<exists>l'. lx_next l = (tok T_STRING s (LStr s) l, l') \<and> lx_rest l' = r"
proof -
  have "q = sql_quote s" using assms(4) by (simp add: quote_text_sql)
  then show ?thesis using scanString_quote [OF assms(1) _ assms(3)] assms(2) by simp
qed

theorem quote_lexes_back_witness:
  "\<exists>l'. lx_next (NewLexer (quote_text [CHR 0x27] @ '',1'')) =
       (tok T_STRING [CHR 0x27] (LStr [CHR 0x27]) (NewLexer (quote_text [CHR 0x27] @ '',1'')), l') \<and> lx_rest l' = '',1''"
  by (rule quote_lexes_back [where env = sample_env and q = "quote_text [CHR 0x27]"]) simp_all

text \<open>
  \<open>SUBSTR\<close> of NULL is text, the first characters of \<open>fmt.Sprint(nil)\<close>. A great length makes the end
  of the slice wrap around to a negative number, and the slice expression panics.
\<close>

lemma substr_of_null: "evalSubstr env [Ok VNull, Ok (VInt 1), Ok (VInt 3)] = Ok (VStr ''<ni'')"
  by (simp add: evalSubstr_def wrap64_id go_slice_def sub_def Let_def)

lemma wrap64_over: "2 ^ 63 \<le> i \<Longrightarrow> i < 2 ^ 64 + 2 ^ 63 \<Longrightarrow> wrap64 i = i - 2 ^ 64"
proof -
  assume i: "2 ^ 63 \<le> i" "i < 2 ^ 64 + 2 ^ 63"
  have "(word_of_int i :: u64) = word_of_int (i - 2 ^ 64)"
    by (simp only: word_of_int_eq_iff take_bit_eq_mod) simp
  then have "wrap64 i = wrap64 (i - 2 ^ 64)" by (simp only: wrap64_def)
  also have "\<dots> = i - 2 ^ 64" using i by (intro wrap64_id) auto
  finally show ?thesis .
qed

text \<open>\<open>SUBSTR(s, start, n)\<close> with an int64 length panics exactly when \<open>start - 1 + n\<close> passes the greatest
  int64: the sum wraps to a negative end of the slice. \<open>SUBSTR('abc', 2, 9223372036854775807)\<close> stops the
  process; with any smaller sum the function returns the text from \<open>start\<close>, cut after \<open>n\<close> bytes.\<close>

theorem substr_wraps:
  assumes "1 \<le> start" "start \<le> int (length s)" "int (length s) \<le> max_int64" "0 \<le> n" "n \<le> max_int64"
  shows "evalSubstr env [Ok (VStr s), Ok (VInt start), Ok (VInt n)] =
     (if max_int64 < start - 1 + n then Panic else Ok (VStr (take (nat n) (drop (nat (start - 1)) s))))"
proof -
  have o: "\<not> int (length s) \<le> start - 1" using assms by simp
  show ?thesis
  proof (cases "max_int64 < start - 1 + n")
    case True
    have "wrap64 (start - 1 + n) = start - 1 + n - 2 ^ 64"
      using assms True by (intro wrap64_over) (auto simp: max_int64_def)
    then show ?thesis
      using True assms o by (simp add: evalSubstr_def go_slice_def Let_def max_int64_def)
  next
    case False
    then have w: "wrap64 (start - 1 + n) = start - 1 + n" using assms by (intro wrap64_id) (auto simp: max_int64_def)
    then show ?thesis
      using False assms o by (auto simp: evalSubstr_def go_slice_def Let_def sub_def nat_diff_distrib nat_add_distrib)
  qed
qed

theorem substr_wraps_witness:
  "evalSubstr sample_env [Ok (VStr ''abc''), Ok (VInt 2), Ok (VInt max_int64)] = Panic \<and>
   evalSubstr sample_env [Ok (VStr ''abc''), Ok (VInt 2), Ok (VInt 2)] = Ok (VStr ''bc'')"
  using substr_wraps [of 2 "''abc''" max_int64 sample_env] substr_wraps [of 2 "''abc''" 2 sample_env]
  by (simp add: max_int64_def)

end
