(* ===== verification/Sql_Eval.thy ===== *)
theory Sql_Eval
  imports Sql_Funcs
begin

text \<open>
  The expression evaluator of the SQL executor (\<open>Eval\<close> and its cases, \<open>SQL/EX/eval.go\<close>). A row is the
  chain of its column names and data, the innermost first; nil is the empty chain. Evaluation has no effect,
  so a case may evaluate all operands and look at those the code evaluates.
\<close>

type_synonym row = "(string list \<times> val list) list"

subsection \<open>Columns\<close>

text \<open>\<open>Row.Lookup\<close>: the first matching name decides, even when the data is too short for it.\<close>

fun lookup_cols :: "go_env \<Rightarrow> string \<Rightarrow> string list \<Rightarrow> val list \<Rightarrow> val option option" where
  "lookup_cols env name [] data = None"
| "lookup_cols env name (c # cs) data =
     (if EqualFold env c name then Some (case data of v # _ \<Rightarrow> Some v | [] \<Rightarrow> None)
      else lookup_cols env name cs (tl data))"

fun row_Lookup :: "go_env \<Rightarrow> row \<Rightarrow> string \<Rightarrow> val option" where
  "row_Lookup env [] name = None"
| "row_Lookup env ((cols, data) # outer) name =
     (case lookup_cols env name cols data of Some r \<Rightarrow> r | None \<Rightarrow> row_Lookup env outer name)"

text \<open>The loop for a qualified name passes over a match that has no data.\<close>

fun qualified_cols :: "go_env \<Rightarrow> string \<Rightarrow> string list \<Rightarrow> val list \<Rightarrow> val option" where
  "qualified_cols env key (c # cs) (v # vs) = (if EqualFold env c key then Some v else qualified_cols env key cs vs)"
| "qualified_cols env key cs vs = None"

fun row_qualified :: "go_env \<Rightarrow> row \<Rightarrow> string \<Rightarrow> val option" where
  "row_qualified env [] key = None"
| "row_qualified env ((cols, data) # outer) key =
     (case qualified_cols env key cols data of Some v \<Rightarrow> Some v | None \<Rightarrow> row_qualified env outer key)"

definition evalIdent :: "go_env \<Rightarrow> row \<Rightarrow> string \<Rightarrow> val" where
  "evalIdent env row name = (case row_Lookup env row name of Some v \<Rightarrow> v | None \<Rightarrow> VStr name)"

definition evalQualified :: "go_env \<Rightarrow> row \<Rightarrow> string \<Rightarrow> string \<Rightarrow> val" where
  "evalQualified env row tab name =
     (let key = tab @ ''.'' @ name in case row_qualified env row key of Some v \<Rightarrow> v | None \<Rightarrow> VStr key)"

definition evalParam :: "val list \<Rightarrow> int \<Rightarrow> val res" where
  "evalParam params i =
     (if i < int (length params) then (if i < 0 then Panic else Ok (normalizeInt (params ! nat i)))
      else Ok VNull)"

subsection \<open>Operators\<close>

definition unary_op :: "int \<Rightarrow> val \<Rightarrow> val res" where
  "unary_op op v =
     (if op = T_MINUS then
        (case v of VNull \<Rightarrow> Ok VNull | VInt i \<Rightarrow> Ok (VInt (wrap64 (- i))) | VFloat f \<Rightarrow> Ok (VFloat (f_neg f))
         | _ \<Rightarrow> Fail ErrEval)
      else if op = T_PLUS then Ok v
      else if op = T_NOT then (if v = VNull then Ok VNull else Ok (VBool (\<not> truthy v)))
      else if op = T_BITNOT then (case toInt64 v of Some i \<Rightarrow> Ok (VInt (- i - 1)) | None \<Rightarrow> Fail ErrEval)
      else Fail ErrEval)"

text \<open>A comparison operator: NULL when an operand is.\<close>

definition cmp_op :: "(int \<Rightarrow> bool) \<Rightarrow> val \<Rightarrow> val \<Rightarrow> val" where
  "cmp_op test l r = (if l = VNull \<or> r = VNull then VNull else VBool (test (val_compare l r)))"

definition eq_op :: "(bool \<Rightarrow> bool) \<Rightarrow> val \<Rightarrow> val \<Rightarrow> val res" where
  "eq_op f l r = (if l = VNull \<or> r = VNull then Ok VNull else obind (equalValue l r) (\<lambda>b. Ok (VBool (f b))))"

fun is_interval :: "val \<Rightarrow> bool" where
  "is_interval (VInterval n u) = True"
| "is_interval v = False"

definition date_string :: "go_env \<Rightarrow> val \<Rightarrow> bool" where
  "date_string env v = (case v of VStr s \<Rightarrow> ge_is_date env s | _ \<Rightarrow> False)"

definition plus_op :: "go_env \<Rightarrow> val \<Rightarrow> val \<Rightarrow> val res" where
  "plus_op env l r =
     (if is_interval r \<and> date_string env l then ge_date_arith env l r ''+''
      else if is_interval l \<and> date_string env r then ge_date_arith env r l ''+''
      else Ok (val_add l r))"

definition minus_op :: "go_env \<Rightarrow> val \<Rightarrow> val \<Rightarrow> val res" where
  "minus_op env l r =
     (if is_interval r then ge_date_arith env l r ''-''
      else if date_string env l \<and> ge_is_time env r then ge_date_arith env l r ''-''
      else Ok (val_sub l r))"

text \<open>\<open>not_null\<close>: the right operand is the expression \<open>NOT NULL\<close>.\<close>

definition binary_op :: "go_env \<Rightarrow> int \<Rightarrow> bool \<Rightarrow> val \<Rightarrow> val \<Rightarrow> val res" where
  "binary_op env op not_null l r =
     (if op = T_EQ then eq_op id l r
      else if op = T_NE then eq_op Not l r
      else if op = T_LT then Ok (cmp_op (\<lambda>c. c < 0) l r)
      else if op = T_LE then Ok (cmp_op (\<lambda>c. c \<le> 0) l r)
      else if op = T_GT then Ok (cmp_op (\<lambda>c. 0 < c) l r)
      else if op = T_GE then Ok (cmp_op (\<lambda>c. 0 \<le> c) l r)
      else if op = T_PLUS then plus_op env l r
      else if op = T_MINUS then minus_op env l r
      else if op = T_STAR then Ok (val_mul l r)
      else if op = T_SLASH then Ok (val_div l r)
      else if op = T_MOD then Ok (val_mod l r)
      else if op = T_BITAND then Ok (bitand l r)
      else if op = T_BITOR then Ok (bitor l r)
      else if op = T_BITXOR then Ok (bitxor l r)
      else if op = T_CONCAT then Ok (val_concat env l r)
      else if op = T_AND then Ok (band l r)
      else if op = T_OR then Ok (bor l r)
      else if op = T_LIKE then Ok (val_like l r)
      else if op = T_IS then
        (if not_null then Ok (VBool (l \<noteq> VNull)) else obind (val_is l r) (\<lambda>b. Ok (VBool b)))
      else Fail ErrEval)"

definition is_not_null :: "expr \<Rightarrow> bool" where
  "is_not_null e = (case e of UnaryExpr op x \<Rightarrow> op = T_NOT \<and> x = NullLiteral | _ \<Rightarrow> False)"

definition between_op :: "val \<Rightarrow> val \<Rightarrow> val \<Rightarrow> val" where
  "between_op v lo hi = VBool (0 \<le> val_compare v lo \<and> val_compare v hi \<le> 0)"

text \<open>The loop of \<open>evalIn\<close> over the items, with \<open>hadNull\<close>.\<close>

fun in_loop :: "val \<Rightarrow> bool \<Rightarrow> val res list \<Rightarrow> val res" where
  "in_loop target hadNull [] = Ok (if hadNull then VNull else VBool False)"
| "in_loop target hadNull (m # ms) = obind m (\<lambda>v.
     if v = VNull then in_loop target True ms
     else obind (equalValue target v) (\<lambda>b. if b then Ok (VBool True) else in_loop target hadNull ms))"

text \<open>The same over the rows of a subquery: a row without columns is skipped, one without data panics.\<close>

fun in_rows :: "val \<Rightarrow> bool \<Rightarrow> (string list \<times> val list) list \<Rightarrow> val res" where
  "in_rows target hadNull [] = Ok (if hadNull then VNull else VBool False)"
| "in_rows target hadNull ((cols, data) # rs) =
     (if cols = [] then in_rows target hadNull rs
      else case data of
             [] \<Rightarrow> Panic
           | v # _ \<Rightarrow> if v = VNull then in_rows target True rs
                     else obind (equalValue target v) (\<lambda>b. if b then Ok (VBool True) else in_rows target hadNull rs))"

definition run_subquery :: "go_env \<Rightarrow> stmt \<Rightarrow> row \<Rightarrow> val list \<Rightarrow> (string list \<times> val list) list res" where
  "run_subquery env st row params =
     (case st of Select sel \<Rightarrow> ge_subquery env sel row params | _ \<Rightarrow> Fail ErrSubquery)"

definition evalExists :: "go_env \<Rightarrow> stmt \<Rightarrow> row \<Rightarrow> val list \<Rightarrow> val res" where
  "evalExists env st row params = obind (run_subquery env st row params) (\<lambda>rs. Ok (VBool (rs \<noteq> [])))"

definition evalScalarSubquery :: "go_env \<Rightarrow> stmt \<Rightarrow> row \<Rightarrow> val list \<Rightarrow> val res" where
  "evalScalarSubquery env st row params = obind (run_subquery env st row params) (\<lambda>rs.
     Ok (case rs of (cols, v # _) # _ \<Rightarrow> v | _ \<Rightarrow> VNull))"

text \<open>\<open>CASE x WHEN\<close> compares with \<open>equalValue\<close>, for which NULL equals NULL.\<close>

fun case_target :: "val \<Rightarrow> (val res \<times> val res) list \<Rightarrow> val res \<Rightarrow> val res" where
  "case_target v [] els = els"
| "case_target v ((c, t) # ws) els =
     obind c (\<lambda>w. obind (equalValue v w) (\<lambda>b. if b then t else case_target v ws els))"

fun case_search :: "(val res \<times> val res) list \<Rightarrow> val res \<Rightarrow> val res" where
  "case_search [] els = els"
| "case_search ((c, t) # ws) els = obind c (\<lambda>w. if truthy w then t else case_search ws els)"

definition evalInterval :: "go_env \<Rightarrow> string \<Rightarrow> string \<Rightarrow> val res" where
  "evalInterval env v u =
     (case ge_interval env (v @ '' '' @ u) of
        Some (n, un) \<Rightarrow> Ok (VInterval n un)
      | None \<Rightarrow> Fail (ErrMsg (''invalid interval: '' @ v @ '' '' @ u)))"

text \<open>The text of a cast error is \<open>ex: cast "x" to int\<close> and the error of \<open>strconv\<close>; the model keeps the start.\<close>

definition cast_value :: "go_env \<Rightarrow> type_info option \<Rightarrow> val \<Rightarrow> val res" where
  "cast_value env ty v =
     (if v = VNull then Ok VNull
      else case ty of None \<Rightarrow> Ok v
      | Some ti \<Rightarrow>
        if ti_type ti = T_INT_KW \<or> ti_type ti = T_BIGINT then
          (case v of VInt x \<Rightarrow> Ok (VInt x) | VFloat x \<Rightarrow> Ok (VInt (f_to_int x))
           | VStr x \<Rightarrow> (case ParseInt x of Some n \<Rightarrow> Ok (VInt n) | None \<Rightarrow> Fail (ErrMsg ''ex: cast to int''))
           | VBool x \<Rightarrow> Ok (VInt (if x then 1 else 0))
           | _ \<Rightarrow> Fail ErrEval)
        else if ti_type ti = T_FLOAT_KW then
          (case v of VInt x \<Rightarrow> Ok (VFloat (f_of_int x)) | VFloat x \<Rightarrow> Ok (VFloat x)
           | VStr x \<Rightarrow> (case ge_parse_float env x of Some f \<Rightarrow> Ok (VFloat f) | None \<Rightarrow> Fail (ErrMsg ''ex: cast to float''))
           | _ \<Rightarrow> Fail ErrEval)
        else if ti_type ti = T_TEXT then Ok (VStr (go_sprint env v))
        else if ti_type ti = T_DECIMAL \<or> ti_type ti = T_NUMERIC then ge_decimal env v (ti_precision ti) (ti_scale ti)
        else if ti_type ti = T_BOOL then Ok (VBool (truthy v))
        else Fail ErrEval)"

definition evalAggregate :: "go_env \<Rightarrow> row \<Rightarrow> string \<Rightarrow> expr \<Rightarrow> val res" where
  "evalAggregate env row name arg =
     (let found = (case arg of
            StarExpr \<Rightarrow> row_Lookup env row (name @ ''(*)'')
          | Ident x \<Rightarrow> row_Lookup env row (name @ ''('' @ x @ '')'')
          | _ \<Rightarrow> None)
      in case found of Some v \<Rightarrow> Ok v
         | None \<Rightarrow>
           let n = ToUpper env name
           in if n = ''COUNT'' \<or> n = ''SUM'' then Ok (VInt 0)
              else if n = ''AVG'' then Ok (VFloat f_zero)
              else if n = ''MIN'' \<or> n = ''MAX'' then Ok VNull
              else Fail ErrEval)"

subsection \<open>The evaluator\<close>

fun eval :: "go_env \<Rightarrow> row \<Rightarrow> val list \<Rightarrow> expr \<Rightarrow> val res" where
  "eval env row params ENil = Ok VNull"
| "eval env row params (NumberLiteral n) = Ok (VInt n)"
| "eval env row params (FloatLiteral f) = Ok (VFloat f)"
| "eval env row params (StringLiteral s) = Ok (VStr s)"
| "eval env row params (BoolLiteral b) = Ok (VBool b)"
| "eval env row params NullLiteral = Ok VNull"
| "eval env row params (Ident x) = Ok (evalIdent env row x)"
| "eval env row params (QualifiedName t x) = Ok (evalQualified env row t x)"
| "eval env row params (Param i) = evalParam params i"
| "eval env row params StarExpr = Ok (VStr ''*'')"
| "eval env row params (UnaryExpr op e) = obind (eval env row params e) (unary_op op)"
| "eval env row params (BinaryExpr op l r) =
     obind (eval env row params l) (\<lambda>lv. obind (eval env row params r) (\<lambda>rv.
       binary_op env op (is_not_null r) lv rv))"
| "eval env row params (ListExpr es) = Ok (VExprs es)"
| "eval env row params (BetweenExpr e lo hi) =
     obind (eval env row params e) (\<lambda>v. obind (eval env row params lo) (\<lambda>lv.
       obind (eval env row params hi) (\<lambda>hv. Ok (between_op v lv hv))))"
| "eval env row params (InExpr e items sq) =
     obind (eval env row params e) (\<lambda>target.
       if target = VNull then Ok VNull
       else if sq \<noteq> SNil then obind (run_subquery env sq row params) (in_rows target False)
       else in_loop target False (map (eval env row params) items))"
| "eval env row params (ExistsExpr st) = evalExists env st row params"
| "eval env row params (SubqueryExpr st) = evalScalarSubquery env st row params"
| "eval env row params (IntervalLiteral v u) = evalInterval env v u"
| "eval env row params (CaseExpr e ws els) =
     (let branches = map (\<lambda>w. (eval env row params (fst w), eval env row params (snd w))) ws;
          other = eval env row params els
      in if e \<noteq> ENil then obind (eval env row params e) (\<lambda>v. case_target v branches other)
         else case_search branches other)"
| "eval env row params (AggregateFunc name arg d) = evalAggregate env row name arg"
| "eval env row params (WindowFunc name args over) =
     Fail (ErrMsg (''window function '' @ name @ '' requires WindowOperator execution''))"
| "eval env row params (FunctionCall name args) = evalFunction env name (map (eval env row params) args)"
| "eval env row params (CastExpr e ty) = obind (eval env row params e) (cast_value env ty)"
| "eval env row params (AliasedExpr e a) = eval env row params e"

subsection \<open>Round trip of a cast\<close>

lemma digits_val_eq_0: "digits_val [] = 0"
  by (simp add: digits_val_def)

lemma ParseInt_FormatInt: "int64_range i \<Longrightarrow> ParseInt (FormatInt i) = Some i"
proof -
  assume r: "int64_range i"
  have d: "list_all is_digit (nat_str n)" for n by (auto simp: list_all_iff nat_str_is_digit)
  show ?thesis
  proof (cases "i < 0")
    case True
    then show ?thesis using r d [of "nat (- i)"] by (simp add: ParseInt_def FormatInt_def)
  next
    case False
    obtain c w where w: "nat_str (nat i) = c # w" using nat_str_not_Nil by (cases "nat_str (nat i)") auto
    have "is_digit c" using nat_str_is_digit [of c "nat i"] w by simp
    then have "c \<noteq> CHR ''-''" "c \<noteq> CHR ''+''" by (auto simp: is_digit_def ch_def)
    then show ?thesis
      using False r d [of "nat i"] digits_val_nat_str [of "nat i"]
      by (simp add: ParseInt_def FormatInt_def w Let_def)
  qed
qed

text \<open>\<open>CAST(CAST(n AS TEXT) AS INT)\<close> is \<open>n\<close> for every int64, the least one included.\<close>

theorem cast_text_int_roundtrip:
  assumes "int64_range i" "eval env row params e = Ok (VInt i)"
  shows "eval env row params
    (CastExpr (CastExpr e (Some (\<lparr>ti_type = T_TEXT, ti_precision = 0, ti_scale = 0, ti_size = 0\<rparr>)))
       (Some (\<lparr>ti_type = T_BIGINT, ti_precision = 0, ti_scale = 0, ti_size = 0\<rparr>))) = Ok (VInt i)"
  using assms by (simp add: cast_value_def ParseInt_FormatInt)

theorem cast_text_int_roundtrip_witness:
  "eval sample_env [] []
    (CastExpr (CastExpr (NumberLiteral min_int64) (Some (\<lparr>ti_type = T_TEXT, ti_precision = 0, ti_scale = 0, ti_size = 0\<rparr>)))
       (Some (\<lparr>ti_type = T_BIGINT, ti_precision = 0, ti_scale = 0, ti_size = 0\<rparr>))) = Ok (VInt min_int64)"
  by (rule cast_text_int_roundtrip) (simp_all add: int64_range_def min_int64_def max_int64_def)

end
