(* ===== verification/Sql_Rewrite.thy ===== *)
theory Sql_Rewrite
  imports Sql_Eval
begin

text \<open>
  The rewriter between parser and planner (\<open>SQL/RE/rewrite.go\<close>). The code copies a node when a child
  changed and returns the old node otherwise; as values both are the node with the rewritten children.
  A \<open>nil\<close> result of the fold functions is \<open>None\<close>.
\<close>

subsection \<open>Constant folding\<close>

fun isLiteral :: "expr \<Rightarrow> bool" where
  "isLiteral (NumberLiteral n) = True"
| "isLiteral (FloatLiteral f) = True"
| "isLiteral (StringLiteral s) = True"
| "isLiteral (BoolLiteral b) = True"
| "isLiteral NullLiteral = True"
| "isLiteral e = False"

definition equalLiteral :: "expr \<Rightarrow> expr \<Rightarrow> bool" where
  "equalLiteral a b =
     (case a of
        NumberLiteral i \<Rightarrow> (case b of NumberLiteral j \<Rightarrow> i = j | _ \<Rightarrow> False)
      | FloatLiteral f \<Rightarrow> (case b of FloatLiteral g \<Rightarrow> f_eq f g | _ \<Rightarrow> False)
      | StringLiteral s \<Rightarrow> (case b of StringLiteral t \<Rightarrow> s = t | _ \<Rightarrow> False)
      | BoolLiteral p \<Rightarrow> (case b of BoolLiteral q \<Rightarrow> p = q | _ \<Rightarrow> False)
      | _ \<Rightarrow> False)"

fun constantFoldUnaryMinus :: "expr \<Rightarrow> expr option" where
  "constantFoldUnaryMinus (NumberLiteral n) = Some (NumberLiteral (wrap64 (- n)))"
| "constantFoldUnaryMinus (FloatLiteral f) = Some (FloatLiteral (f_neg f))"
| "constantFoldUnaryMinus e = None"

fun constantFoldNot :: "expr \<Rightarrow> expr option" where
  "constantFoldNot (BoolLiteral b) = Some (BoolLiteral (\<not> b))"
| "constantFoldNot NullLiteral = Some NullLiteral"
| "constantFoldNot e = None"

definition foldIntInt :: "int \<Rightarrow> int \<Rightarrow> int \<Rightarrow> expr option" where
  "foldIntInt op a b =
     (if op = T_PLUS then Some (NumberLiteral (wrap64 (a + b)))
      else if op = T_MINUS then Some (NumberLiteral (wrap64 (a - b)))
      else if op = T_STAR then Some (NumberLiteral (wrap64 (a * b)))
      else if op = T_SLASH then (if b = 0 then None else Some (NumberLiteral (wrap64 (go_quot a b))))
      else None)"

definition intFromFloat :: "f64 \<Rightarrow> int option" where
  "intFromFloat f = (let i = f_to_int f in if f_eq (f_of_int i) f then Some i else None)"

text \<open>Two integral operands make an integer literal, with the sum, difference or product of the integers.\<close>

definition fold_float_op :: "(int \<Rightarrow> int \<Rightarrow> int) \<Rightarrow> (f64 \<Rightarrow> f64 \<Rightarrow> f64) \<Rightarrow> f64 \<Rightarrow> f64 \<Rightarrow> expr" where
  "fold_float_op iop fop a b =
     (case (intFromFloat a, intFromFloat b) of
        (Some i, Some j) \<Rightarrow> NumberLiteral (wrap64 (iop i j))
      | _ \<Rightarrow> FloatLiteral (fop a b))"

definition foldFloatFloat :: "int \<Rightarrow> f64 \<Rightarrow> f64 \<Rightarrow> expr option" where
  "foldFloatFloat op a b =
     (if op = T_PLUS then Some (fold_float_op (+) f_add a b)
      else if op = T_MINUS then Some (fold_float_op (-) f_sub a b)
      else if op = T_STAR then Some (fold_float_op (*) f_mul a b)
      else if op = T_SLASH then (if f_eq b f_zero then None else Some (FloatLiteral (f_div a b)))
      else None)"

definition cmp_test :: "int \<Rightarrow> int \<Rightarrow> bool" where
  "cmp_test op c =
     (if op = T_EQ then c = 0 else if op = T_NE then c \<noteq> 0 else if op = T_LT then c < 0
      else if op = T_LE then c \<le> 0 else if op = T_GT then 0 < c else 0 \<le> c)"

definition is_cmp_op :: "int \<Rightarrow> bool" where
  "is_cmp_op op \<longleftrightarrow> op \<in> {T_EQ, T_NE, T_LT, T_LE, T_GT, T_GE}"

definition cmpInt :: "int \<Rightarrow> int \<Rightarrow> int" where
  "cmpInt a b = (if a < b then - 1 else if b < a then 1 else 0)"

definition foldCompare :: "int \<Rightarrow> expr \<Rightarrow> expr \<Rightarrow> expr option" where
  "foldCompare op l r =
     map_option (\<lambda>c. BoolLiteral (cmp_test op c))
       (case l of
          NumberLiteral i \<Rightarrow> (case r of NumberLiteral j \<Rightarrow> Some (cmpInt i j) | _ \<Rightarrow> None)
        | FloatLiteral f \<Rightarrow> (case r of FloatLiteral g \<Rightarrow> Some (cmpFloat f g) | _ \<Rightarrow> None)
        | StringLiteral s \<Rightarrow> (case r of StringLiteral t \<Rightarrow> Some (cmpString s t) | _ \<Rightarrow> None)
        | BoolLiteral p \<Rightarrow> (case r of BoolLiteral q \<Rightarrow> Some (cmpBool p q) | _ \<Rightarrow> None)
        | _ \<Rightarrow> None)"

fun literal_float :: "expr \<Rightarrow> f64 option" where
  "literal_float (NumberLiteral n) = Some (f_of_int n)"
| "literal_float (FloatLiteral f) = Some f"
| "literal_float e = None"

definition constantFoldBinary :: "int \<Rightarrow> expr \<Rightarrow> expr \<Rightarrow> expr option" where
  "constantFoldBinary op l r =
     (if \<not> isLiteral l \<or> \<not> isLiteral r \<or> l = NullLiteral \<or> r = NullLiteral then None
      else if op = T_PLUS \<or> op = T_MINUS \<or> op = T_STAR \<or> op = T_SLASH then
        (case (l, r) of
           (NumberLiteral a, NumberLiteral b) \<Rightarrow> foldIntInt op a b
         | _ \<Rightarrow> (case (literal_float l, literal_float r) of
             (Some a, Some b) \<Rightarrow> foldFloatFloat op a b
           | _ \<Rightarrow> None))
      else if is_cmp_op op then foldCompare op l r
      else if op = T_AND \<or> op = T_OR then
        (case (l, r) of
           (BoolLiteral a, BoolLiteral b) \<Rightarrow> Some (BoolLiteral (if op = T_AND then a \<and> b else a \<or> b))
         | _ \<Rightarrow> None)
      else None)"

subsection \<open>Simplification\<close>

text \<open>The functions take the rewritten operands. \<open>folded != nil\<close> fails for the nil expression.\<close>

definition simplifyUnary :: "int \<Rightarrow> expr \<Rightarrow> expr" where
  "simplifyUnary op x =
     (if op = T_MINUS then (case constantFoldUnaryMinus x of Some e \<Rightarrow> e | None \<Rightarrow> UnaryExpr op x)
      else if op = T_PLUS then (if x = ENil then UnaryExpr op x else x)
      else if op = T_NOT then
        (if x = NullLiteral then UnaryExpr op x
         else case constantFoldNot x of
                Some e \<Rightarrow> e
              | None \<Rightarrow> (case x of UnaryExpr op' y \<Rightarrow> if op' = T_NOT then y else UnaryExpr op x
                        | _ \<Rightarrow> UnaryExpr op x))
      else UnaryExpr op x)"

fun bool_literal :: "expr \<Rightarrow> bool option" where
  "bool_literal (BoolLiteral b) = Some b"
| "bool_literal e = None"

definition simplifyAnd :: "expr \<Rightarrow> expr \<Rightarrow> expr option" where
  "simplifyAnd l r =
     (case bool_literal l of
        Some b \<Rightarrow> Some (if b then r else l)
      | None \<Rightarrow> (case bool_literal r of
          Some b \<Rightarrow> Some (if b then l else r)
        | None \<Rightarrow> if equalLiteral l r \<and> (isLiteral l \<or> isLiteral r) then Some l else None))"

definition simplifyOr :: "expr \<Rightarrow> expr \<Rightarrow> expr option" where
  "simplifyOr l r =
     (case bool_literal l of
        Some b \<Rightarrow> Some (if b then l else r)
      | None \<Rightarrow> (case bool_literal r of
          Some b \<Rightarrow> Some (if b then r else l)
        | None \<Rightarrow> if equalLiteral l r \<and> (isLiteral l \<or> isLiteral r) then Some l else None))"

definition simplifyBinary :: "int \<Rightarrow> expr \<Rightarrow> expr \<Rightarrow> expr" where
  "simplifyBinary op l r =
     (case constantFoldBinary op l r of
        Some e \<Rightarrow> e
      | None \<Rightarrow>
        (case (if op = T_AND then simplifyAnd l r
               else if op = T_OR then simplifyOr l r
               else if op = T_EQ \<and> isLiteral l \<and> isLiteral r \<and> equalLiteral l r then Some (BoolLiteral True)
               else if op = T_NE \<and> isLiteral l \<and> isLiteral r \<and> equalLiteral l r then Some (BoolLiteral False)
               else None) of
           Some e \<Rightarrow> e
         | None \<Rightarrow> BinaryExpr op l r))"

text \<open>\<open>flattenSubquery\<close> looks at FROM, its alias and WHERE, and at no other clause.\<close>

definition flattenSubquery :: "stmt \<Rightarrow> expr list option" where
  "flattenSubquery st =
     (case st of
        Select sel \<Rightarrow>
          (if sel_from sel \<noteq> [] \<or> sel_where sel \<noteq> ENil \<or> sel_from_alias sel \<noteq> [] then None
           else if list_all isLiteral (sel_cols sel) then Some (sel_cols sel) else None)
      | _ \<Rightarrow> None)"

definition simplifyIn :: "expr \<Rightarrow> expr list \<Rightarrow> expr list \<Rightarrow> stmt \<Rightarrow> expr" where
  "simplifyIn target items rewritten sq =
     (if sq = SNil then InExpr target rewritten sq
      else case flattenSubquery sq of
             None \<Rightarrow> InExpr target items sq
           | Some cols \<Rightarrow> InExpr target cols SNil)"

fun RewriteExpr :: "expr \<Rightarrow> expr" where
  "RewriteExpr (UnaryExpr op x) = simplifyUnary op (RewriteExpr x)"
| "RewriteExpr (BinaryExpr op l r) = simplifyBinary op (RewriteExpr l) (RewriteExpr r)"
| "RewriteExpr (AggregateFunc n x d) = AggregateFunc n (RewriteExpr x) d"
| "RewriteExpr (FunctionCall n xs) = FunctionCall n (map RewriteExpr xs)"
| "RewriteExpr (AliasedExpr x a) = AliasedExpr (RewriteExpr x) a"
| "RewriteExpr (CastExpr x ty) = CastExpr (RewriteExpr x) ty"
| "RewriteExpr (ListExpr xs) = ListExpr (map RewriteExpr xs)"
| "RewriteExpr (BetweenExpr x lo hi) = BetweenExpr (RewriteExpr x) (RewriteExpr lo) (RewriteExpr hi)"
| "RewriteExpr (CaseExpr x ws els) =
     CaseExpr (RewriteExpr x) (map (\<lambda>w. (RewriteExpr (fst w), RewriteExpr (snd w))) ws) (RewriteExpr els)"
| "RewriteExpr (InExpr x items sq) = simplifyIn (RewriteExpr x) items (map RewriteExpr items) sq"
| "RewriteExpr e = e"

fun SplitAnd :: "expr \<Rightarrow> expr list" where
  "SplitAnd ENil = []"
| "SplitAnd (BinaryExpr op l r) = (if op = T_AND then SplitAnd l @ SplitAnd r else [BinaryExpr op l r])"
| "SplitAnd e = [e]"

fun SplitOr :: "expr \<Rightarrow> expr list" where
  "SplitOr ENil = []"
| "SplitOr (BinaryExpr op l r) = (if op = T_OR then SplitOr l @ SplitOr r else [BinaryExpr op l r])"
| "SplitOr e = [e]"

fun InferredType :: "expr \<Rightarrow> string" where
  "InferredType (NumberLiteral n) = ''INTEGER''"
| "InferredType (FloatLiteral f) = ''FLOAT''"
| "InferredType (StringLiteral s) = ''TEXT''"
| "InferredType (BoolLiteral b) = ''BOOLEAN''"
| "InferredType NullLiteral = ''NULL''"
| "InferredType e = []"

subsection \<open>Statements\<close>

definition cloneOrderBy :: "(expr \<times> bool) list \<Rightarrow> (expr \<times> bool) list" where
  "cloneOrderBy os = map (\<lambda>(e, d). (RewriteExpr e, d)) os"

text \<open>ON, GROUP BY, HAVING and a subquery in FROM are copied as they are.\<close>

definition rewriteSelect :: "(expr, stmt) select \<Rightarrow> (expr, stmt) select" where
  "rewriteSelect s =
     MkSelect (map RewriteExpr (sel_cols s)) (sel_from s) (sel_from_alias s) (sel_joins s)
       (RewriteExpr (sel_where s)) (cloneOrderBy (sel_order_by s)) (RewriteExpr (sel_limit s))
       (RewriteExpr (sel_offset s)) (sel_distinct s) (sel_group_by s) (sel_having s) (sel_subquery_from s)"

definition rewriteColDef :: "expr col_def \<Rightarrow> expr col_def" where
  "rewriteColDef c =
     ColDef (cd_name c) (cd_type c) (cd_size c) (cd_nullable c) (RewriteExpr (cd_default c)) (cd_pk c)
       (cd_unique c) (cd_check c) (cd_ref_table c) (cd_ref_column c) (cd_on_delete c) (cd_on_update c)
       (cd_generated c) (cd_virtual c)"

text \<open>\<open>None\<close> is the error \<open>re: unknown statement type\<close>. A compound keeps a side that is refused.\<close>

fun Rewrite :: "stmt \<Rightarrow> stmt option" where
  "Rewrite (Select s) = Some (Select (rewriteSelect s))"
| "Rewrite (CompoundStmt l op r os lim off) =
     Some (CompoundStmt (case Rewrite l of Some l' \<Rightarrow> l' | None \<Rightarrow> l) op
       (case Rewrite r of Some r' \<Rightarrow> r' | None \<Rightarrow> r) (cloneOrderBy os) (RewriteExpr lim) (RewriteExpr off))"
| "Rewrite (Insert t cs vs ret oc ca) = Some (Insert t cs (map (map RewriteExpr) vs) ret oc ca)"
| "Rewrite (Update t sets w ret) = Some (Update t (map (\<lambda>(c, e). (c, RewriteExpr e)) sets) (RewriteExpr w) ret)"
| "Rewrite (Delete t w ret) = Some (Delete t (RewriteExpr w) ret)"
| "Rewrite (CreateTable n cs pk uq fk) = Some (CreateTable n (map rewriteColDef cs) pk uq fk)"
| "Rewrite (DropTable n) = Some (DropTable n)"
| "Rewrite (AnalyzeStmt t) = Some (AnalyzeStmt t)"
| "Rewrite (VacuumStmt t) = Some (VacuumStmt t)"
| "Rewrite (PragmaStmt n v) = Some (PragmaStmt n v)"
| "Rewrite st = None"

subsection \<open>When a rewriting keeps the result\<close>

text \<open>Expressions that always evaluate to a bool, and those that evaluate to a bool or to NULL.\<close>

definition is_bool_op :: "int \<Rightarrow> bool" where
  "is_bool_op op \<longleftrightarrow> op \<in> {T_AND, T_OR, T_LIKE, T_IS}"

fun always_bool :: "expr \<Rightarrow> bool" where
  "always_bool (BoolLiteral b) = True"
| "always_bool (BinaryExpr op l r) = is_bool_op op"
| "always_bool (BetweenExpr e lo hi) = True"
| "always_bool (AliasedExpr e a) = always_bool e"
| "always_bool e = False"

fun bool_or_null :: "expr \<Rightarrow> bool" where
  "bool_or_null NullLiteral = True"
| "bool_or_null (BoolLiteral b) = True"
| "bool_or_null (UnaryExpr op e) = (op = T_NOT)"
| "bool_or_null (BinaryExpr op l r) = (is_bool_op op \<or> is_cmp_op op)"
| "bool_or_null (BetweenExpr e lo hi) = True"
| "bool_or_null (InExpr e xs sq) = True"
| "bool_or_null (ExistsExpr sq) = True"
| "bool_or_null (AliasedExpr e a) = bool_or_null e"
| "bool_or_null e = False"

text \<open>Expressions whose evaluation never fails and never panics.\<close>

fun total_expr :: "expr \<Rightarrow> bool" where
  "total_expr (NumberLiteral n) = True"
| "total_expr (FloatLiteral f) = True"
| "total_expr (StringLiteral s) = True"
| "total_expr (BoolLiteral b) = True"
| "total_expr NullLiteral = True"
| "total_expr (Ident x) = True"
| "total_expr (QualifiedName t x) = True"
| "total_expr (UnaryExpr op e) = ((op = T_NOT \<or> op = T_PLUS) \<and> total_expr e)"
| "total_expr (BinaryExpr op l r) =
     (op \<in> {T_LT, T_LE, T_GT, T_GE, T_STAR, T_SLASH, T_MOD, T_CONCAT, T_AND, T_OR, T_LIKE} \<and>
      total_expr l \<and> total_expr r)"
| "total_expr (BetweenExpr e lo hi) = (total_expr e \<and> total_expr lo \<and> total_expr hi)"
| "total_expr (AliasedExpr e a) = total_expr e"
| "total_expr e = False"

definition is_bool :: "val \<Rightarrow> bool" where
  "is_bool v \<longleftrightarrow> (\<exists>b. v = VBool b)"

lemma val_like_bool: "is_bool (val_like a b)"
  by (cases "(a, b)" rule: val_like.cases) (auto simp: is_bool_def)

lemma binary_op_bool: "is_bool_op op \<Longrightarrow> binary_op env op nn l r = Ok v \<Longrightarrow> is_bool v"
  using val_like_bool
  by (auto simp: is_bool_op_def binary_op_def band_def bor_def is_bool_def obind_Ok_iff split: if_splits)

lemma binary_op_cmp:
  "is_cmp_op op \<Longrightarrow> binary_op env op nn l r = Ok v \<Longrightarrow> v = VNull \<or> is_bool v"
  by (auto simp: binary_op_def is_cmp_op_def cmp_op_def eq_op_def is_bool_def obind_Ok_iff split: if_splits)

lemma eval_always_bool: "always_bool e \<Longrightarrow> eval env row ps e = Ok v \<Longrightarrow> is_bool v"
proof (induction e arbitrary: v rule: always_bool.induct)
  case (2 op l r)
  then show ?case using binary_op_bool by (auto simp: obind_Ok_iff)
qed (auto simp: is_bool_def obind_Ok_iff between_op_def)

lemma in_loop_bool: "in_loop t h ms = Ok v \<Longrightarrow> v = VNull \<or> is_bool v"
  by (induction ms arbitrary: h) (auto simp: is_bool_def obind_Ok_iff split: if_splits)

lemma in_rows_bool: "in_rows t h ms = Ok v \<Longrightarrow> v = VNull \<or> is_bool v"
  by (induction ms arbitrary: h) (auto simp: is_bool_def obind_Ok_iff split: if_splits list.splits)

lemma eval_bool_or_null: "bool_or_null e \<Longrightarrow> eval env row ps e = Ok v \<Longrightarrow> v = VNull \<or> is_bool v"
proof (induction e arbitrary: v rule: bool_or_null.induct)
  case (3 op e)
  then show ?case by (auto simp: unary_op_def is_bool_def obind_Ok_iff split: if_splits)
next
  case (4 op l r)
  then show ?case using binary_op_bool binary_op_cmp by (fastforce simp: obind_Ok_iff)
next
  case (6 e xs sq)
  then show ?case using in_loop_bool in_rows_bool by (fastforce simp: obind_Ok_iff split: if_splits)
qed (auto simp: is_bool_def obind_Ok_iff between_op_def evalExists_def)

lemma eval_total: "total_expr e \<Longrightarrow> \<exists>v. eval env row ps e = Ok v"
proof (induction e rule: total_expr.induct)
  case (8 op e)
  then show ?case by (auto simp: unary_op_def)
next
  case (9 op l r)
  then obtain lv rv where "eval env row ps l = Ok lv" "eval env row ps r = Ok rv" by auto
  then show ?case using 9(3) by (auto simp: binary_op_def)
qed auto

text \<open>
  The side conditions of the folds: what the two literals, or the literal and the other operand, must be for
  the rewritten node to mean the same.
\<close>

definition small_int :: "int \<Rightarrow> bool" where
  "small_int n \<longleftrightarrow> \<bar>n\<bar> < 2 ^ 53"

definition num_safe :: "int \<Rightarrow> int \<Rightarrow> int \<Rightarrow> bool" where
  "num_safe op a b \<longleftrightarrow>
     op \<noteq> T_AND \<and> op \<noteq> T_OR \<and>
     (op = T_PLUS \<longrightarrow> small_int a \<and> small_int b) \<and>
     (op = T_MINUS \<longrightarrow> small_int a \<and> small_int b) \<and>
     (op = T_STAR \<longrightarrow> small_int a \<and> small_int b \<and> int64_range (a * b)) \<and>
     (is_cmp_op op \<and> op \<noteq> T_EQ \<and> op \<noteq> T_NE \<longrightarrow> small_int a \<and> small_int b)"

definition float_safe :: "int \<Rightarrow> f64 \<Rightarrow> f64 \<Rightarrow> bool" where
  "float_safe op a b \<longleftrightarrow>
     op \<noteq> T_AND \<and> op \<noteq> T_OR \<and> a \<noteq> F_NaN \<and> b \<noteq> F_NaN \<and>
     (op = T_PLUS \<or> op = T_MINUS \<or> op = T_STAR \<longrightarrow> intFromFloat a = None \<or> intFromFloat b = None)"

definition drop_safe :: "expr \<Rightarrow> bool \<Rightarrow> bool \<Rightarrow> bool" where
  "drop_safe other b neutral \<longleftrightarrow> (if b = neutral then always_bool other else total_expr other)"

definition connective_safe :: "bool \<Rightarrow> expr \<Rightarrow> expr \<Rightarrow> bool" where
  "connective_safe neutral l r \<longleftrightarrow>
     (case bool_literal l of
        Some b \<Rightarrow> drop_safe r b neutral
      | None \<Rightarrow> (case bool_literal r of
          Some b \<Rightarrow> drop_safe l b neutral
        | None \<Rightarrow> \<not> equalLiteral l r))"

definition binary_safe :: "int \<Rightarrow> expr \<Rightarrow> expr \<Rightarrow> bool" where
  "binary_safe op l r \<longleftrightarrow>
     (case (l, r) of
        (NumberLiteral a, NumberLiteral b) \<Rightarrow> num_safe op a b
      | _ \<Rightarrow> (case (literal_float l, literal_float r) of
          (Some a, Some b) \<Rightarrow> float_safe op a b
        | _ \<Rightarrow> (op = T_AND \<longrightarrow> connective_safe True l r) \<and> (op = T_OR \<longrightarrow> connective_safe False l r)))"

definition unary_safe :: "int \<Rightarrow> expr \<Rightarrow> bool" where
  "unary_safe op x \<longleftrightarrow>
     (case x of UnaryExpr op' y \<Rightarrow> op = T_NOT \<and> op' = T_NOT \<longrightarrow> bool_or_null y | _ \<Rightarrow> True)"

subsection \<open>The folds are right under them\<close>

lemma f_eq_trichotomy: "f \<noteq> F_NaN \<Longrightarrow> g \<noteq> F_NaN \<Longrightarrow> f_eq f g \<longleftrightarrow> \<not> f_lt f g \<and> \<not> f_lt g f"
  by (cases f; cases g) (auto simp: min.commute)

lemma wrap64_range: "int64_range i \<Longrightarrow> wrap64 i = i"
  by (rule wrap64_id) (auto simp: int64_range_def min_int64_def max_int64_def)

lemma small_sum: "small_int a \<Longrightarrow> small_int b \<Longrightarrow> int64_range (a + b) \<and> int64_range (a - b)"
  by (auto simp: small_int_def int64_range_def min_int64_def max_int64_def)

lemma num_arith_eval:
  assumes "small_int a" "small_int b" "int64_range (exact_arith op a b)"
  shows "numericArith (VInt a) (VInt b) op = VInt (exact_arith op a b)"
  using assms int_arith_exact [of a b op] small_range
  by (simp add: small_int_def numericArith_def f_to_int_of_int del: int_arith.simps)

lemma num_compare_eval: "small_int a \<Longrightarrow> small_int b \<Longrightarrow> val_compare (VInt a) (VInt b) = cmpInt a b"
  using f_holds_lt [OF f_holds_of_int f_holds_of_int]
  by (simp add: small_int_def val_compare_def cmpFloat_def cmpInt_def)

lemmas arith_ops = val_add_def val_sub_def val_mul_def

lemma foldIntInt_sound:
  assumes "num_safe op a b" "foldIntInt op a b = Some e"
  shows "eval env row ps e = binary_op env op nn (VInt a) (VInt b)"
proof -
  consider "op = T_PLUS" | "op = T_MINUS" | "op = T_STAR" | "op = T_SLASH" "b \<noteq> 0"
    using assms(2) by (auto simp: foldIntInt_def split: if_splits)
  then show ?thesis
  proof cases
    case 1
    then have "small_int a" "small_int b" using assms(1) by (auto simp: num_safe_def)
    then show ?thesis
      using 1 assms(2) num_arith_eval [of a b OpAdd] small_sum
      by (auto simp: foldIntInt_def binary_op_def plus_op_def arith_ops wrap64_range)
  next
    case 2
    then have "small_int a" "small_int b" using assms(1) by (auto simp: num_safe_def)
    then show ?thesis
      using 2 assms(2) num_arith_eval [of a b OpSub] small_sum
      by (auto simp: foldIntInt_def binary_op_def minus_op_def date_string_def arith_ops wrap64_range)
  next
    case 3
    then have "small_int a" "small_int b" "int64_range (a * b)" using assms(1) by (auto simp: num_safe_def)
    then show ?thesis
      using 3 assms(2) num_arith_eval [of a b OpMul]
      by (auto simp: foldIntInt_def binary_op_def arith_ops wrap64_range)
  qed (use assms(2) in \<open>auto simp: foldIntInt_def binary_op_def val_div_def\<close>)
qed

fun float_val :: "expr \<Rightarrow> val" where
  "float_val (NumberLiteral n) = VInt n"
| "float_val (FloatLiteral f) = VFloat f"
| "float_val e = VNull"

lemma literal_float_eval:
  "literal_float e = Some f \<Longrightarrow> eval env row ps e = Ok (float_val e) \<and> numericFloat (float_val e) = Some f \<and>
     float_val e \<noteq> VNull \<and> \<not> is_interval (float_val e) \<and> \<not> date_string env (float_val e)"
  by (cases e) (auto simp: date_string_def)

lemma foldFloat_sound:
  assumes "literal_float l = Some a" "literal_float r = Some b"
    "\<not> (\<exists>i j. l = NumberLiteral i \<and> r = NumberLiteral j)"
    "float_safe op a b" "foldFloatFloat op a b = Some e"
  shows "eval env row ps e = binary_op env op nn (float_val l) (float_val r)"
proof -
  note L = literal_float_eval [OF assms(1), of env row ps] and R = literal_float_eval [OF assms(2), of env row ps]
  have ar: "numericArith (float_val l) (float_val r) p = VFloat (float_arith p a b)" for p
    using assms(1-3) by (cases l; cases r) (auto simp: numericArith_def)
  have dv: "\<not> f_eq b f_zero \<Longrightarrow> val_div (float_val l) (float_val r) = VFloat (f_div a b)"
    using assms(1-3) by (cases l; cases r) (auto simp: val_div_def)
  have ns: "intFromFloat a = None \<or> intFromFloat b = None" if "op = T_PLUS \<or> op = T_MINUS \<or> op = T_STAR"
    using assms(4) that by (auto simp: float_safe_def)
  have fo: "fold_float_op iop fop a b = FloatLiteral (fop a b)" if "op = T_PLUS \<or> op = T_MINUS \<or> op = T_STAR" for iop fop
    using ns [OF that] by (auto simp: fold_float_op_def split: option.splits)
  consider "op = T_PLUS" | "op = T_MINUS" | "op = T_STAR" | "op = T_SLASH" "\<not> f_eq b f_zero"
    using assms(5) by (auto simp: foldFloatFloat_def split: if_splits)
  then show ?thesis
    by cases (use assms(5) ar dv fo L R in
        \<open>auto simp: foldFloatFloat_def binary_op_def plus_op_def minus_op_def arith_ops\<close>)
qed

lemma cmp_op_test: "is_cmp_op op \<Longrightarrow> op \<noteq> T_EQ \<Longrightarrow> op \<noteq> T_NE \<Longrightarrow> l \<noteq> VNull \<Longrightarrow> r \<noteq> VNull \<Longrightarrow>
   binary_op env op nn l r = Ok (VBool (cmp_test op (val_compare l r)))"
  by (auto simp: is_cmp_op_def binary_op_def cmp_op_def cmp_test_def)

lemma eq_op_test: "op = T_EQ \<or> op = T_NE \<Longrightarrow> l \<noteq> VNull \<Longrightarrow> r \<noteq> VNull \<Longrightarrow> equalValue l r = Ok (c = 0) \<Longrightarrow>
   binary_op env op nn l r = Ok (VBool (cmp_test op c))"
  by (auto simp: binary_op_def eq_op_def cmp_test_def)

lemma foldCompare_sound:
  assumes "is_cmp_op op" "binary_safe op l r" "foldCompare op l r = Some e"
    "eval env row ps l = Ok lv" "eval env row ps r = Ok rv"
  shows "eval env row ps e = binary_op env op nn lv rv"
proof (cases "op = T_EQ \<or> op = T_NE")
  case True
  from assms(3) show ?thesis
  proof (cases l; cases r)
    fix f g assume lr: "l = FloatLiteral f" "r = FloatLiteral g"
    then have "f_eq f g \<longleftrightarrow> cmpFloat f g = 0"
      using assms(2) f_eq_trichotomy [of f g] by (auto simp: binary_safe_def float_safe_def cmpFloat_def)
    then show ?thesis
      using assms(3-5) lr eq_op_test [OF True, of "VFloat f" "VFloat g" "cmpFloat f g" env nn]
      by (auto simp: foldCompare_def equalValue_def)
  next
    fix s u assume lr: "l = StringLiteral s" "r = StringLiteral u"
    then show ?thesis
      using assms(3-5) lr eq_op_test [OF True, of "VStr s" "VStr u" "cmpString s u" env nn]
      by (auto simp: foldCompare_def equalValue_def iface_eq_def cmpString_def)
  next
    fix p q assume lr: "l = BoolLiteral p" "r = BoolLiteral q"
    then show ?thesis
      using assms(3-5) lr eq_op_test [OF True, of "VBool p" "VBool q" "cmpBool p q" env nn]
      by (auto simp: foldCompare_def equalValue_def iface_eq_def cmpBool_def)
  next
    fix i j assume lr: "l = NumberLiteral i" "r = NumberLiteral j"
    then show ?thesis
      using assms(3-5) lr eq_op_test [OF True, of "VInt i" "VInt j" "cmpInt i j" env nn]
      by (auto simp: foldCompare_def equalValue_def cmpInt_def)
  qed (auto simp: foldCompare_def)
next
  case False
  then have t: "lv \<noteq> VNull \<Longrightarrow> rv \<noteq> VNull \<Longrightarrow> binary_op env op nn lv rv = Ok (VBool (cmp_test op (val_compare lv rv)))"
    using cmp_op_test assms(1) by blast
  from assms(3) show ?thesis
  proof (cases l; cases r)
    fix i j assume lr: "l = NumberLiteral i" "r = NumberLiteral j"
    then have "small_int i" "small_int j"
      using assms(1,2) False by (auto simp: binary_safe_def num_safe_def)
    then show ?thesis
      using assms(3-5) lr t num_compare_eval [of i j] by (auto simp: foldCompare_def)
  qed (use assms(4,5) t in \<open>auto simp: foldCompare_def val_compare_def\<close>)
qed

lemma literal_eval: "isLiteral e \<Longrightarrow> \<exists>v. eval env row ps e = Ok v"
  by (cases e) auto

lemma fold_sound:
  assumes "binary_safe op l r" "constantFoldBinary op l r = Some e"
    "eval env row ps l = Ok lv" "eval env row ps r = Ok rv"
  shows "eval env row ps e = binary_op env op nn lv rv"
proof -
  have lit: "isLiteral l" "isLiteral r" "l \<noteq> NullLiteral" "r \<noteq> NullLiteral"
    using assms(2) by (auto simp: constantFoldBinary_def split: if_splits)
  consider (num) i j where "l = NumberLiteral i" "r = NumberLiteral j" "op = T_PLUS \<or> op = T_MINUS \<or> op = T_STAR \<or> op = T_SLASH"
    | (flt) a b where "\<not> (\<exists>i j. l = NumberLiteral i \<and> r = NumberLiteral j)" "literal_float l = Some a" "literal_float r = Some b"
        "foldFloatFloat op a b = Some e" "op = T_PLUS \<or> op = T_MINUS \<or> op = T_STAR \<or> op = T_SLASH"
    | (cmp) "is_cmp_op op" "foldCompare op l r = Some e"
    | (con) p q where "l = BoolLiteral p" "r = BoolLiteral q" "op = T_AND \<or> op = T_OR"
    using assms(2) lit
    by (cases l; cases r) (auto simp: constantFoldBinary_def split: if_splits)
  then show ?thesis
  proof cases
    case num
    then have "foldIntInt op i j = Some e" "num_safe op i j"
      using assms(1,2) by (auto simp: constantFoldBinary_def binary_safe_def)
    then show ?thesis using foldIntInt_sound num assms(3,4) by auto
  next
    case flt
    then have "float_safe op a b"
      using assms(1) by (cases l; cases r) (auto simp: binary_safe_def)
    then show ?thesis
      using foldFloat_sound [OF flt(2,3,1) _ flt(4)] literal_float_eval [OF flt(2)] literal_float_eval [OF flt(3)]
        assms(3,4) by (metis outcome.inject(1))
  next
    case cmp
    then show ?thesis using foldCompare_sound assms by blast
  next
    case con
    then show ?thesis
      using assms(2-4) by (auto simp: constantFoldBinary_def is_cmp_op_def binary_op_def band_def bor_def)
  qed
qed

text \<open>A bool literal beside another operand: the neutral one goes, the absorbing one stays alone.\<close>

lemma bool_literal_Some: "bool_literal e = Some b \<longleftrightarrow> e = BoolLiteral b"
  by (cases e) auto

lemma drop_sound:
  assumes "drop_safe x b neutral" "\<And>p. f (VBool p) = VBool (if b = neutral then p else b)" "\<And>v. b \<noteq> neutral \<Longrightarrow> f v = VBool b"
  shows "eval env row ps (if b = neutral then x else BoolLiteral b) = obind (eval env row ps x) (\<lambda>v. Ok (f v))"
proof (cases "b = neutral")
  case True
  then show ?thesis
    using eval_always_bool [of x env row ps] assms(1,2)
    by (cases "eval env row ps x") (auto simp: drop_safe_def is_bool_def)
next
  case False
  then obtain v where "eval env row ps x = Ok v"
    using assms(1) eval_total [of x env row ps] by (auto simp: drop_safe_def)
  then show ?thesis using assms(3) False by simp
qed

lemma obind_Ok_id [simp]: "obind m Ok = m"
  by (cases m) auto

lemma connective_sound:
  assumes "connective_safe (op = T_AND) l r" "op = T_AND \<or> op = T_OR"
    "(if op = T_AND then simplifyAnd l r else simplifyOr l r) = Some e"
  shows "eval env row ps e = obind (eval env row ps l) (\<lambda>lv. obind (eval env row ps r) (\<lambda>rv. binary_op env op nn lv rv))"
proof -
  let ?n = "op = T_AND"
  have op: "binary_op env op nn u v = Ok (if ?n then band u v else bor u v)" for u v
    using assms(2) by (auto simp: binary_op_def)
  show ?thesis
  proof (cases "bool_literal l")
    case (Some b)
    then have "drop_safe r b ?n" "e = (if b = ?n then r else BoolLiteral b)"
      using assms by (auto simp: connective_safe_def simplifyAnd_def simplifyOr_def bool_literal_Some split: if_splits)
    then show ?thesis
      using drop_sound [of r b ?n "\<lambda>v. if ?n then band (VBool b) v else bor (VBool b) v" env row ps] Some
      by (auto simp: bool_literal_Some op band_def bor_def)
  next
    case None
    then obtain b where r: "bool_literal r = Some b"
      using assms by (cases "bool_literal r")
        (auto simp: connective_safe_def simplifyAnd_def simplifyOr_def split: if_splits)
    then have "drop_safe l b ?n" "e = (if b = ?n then l else BoolLiteral b)"
      using assms None by (auto simp: connective_safe_def simplifyAnd_def simplifyOr_def bool_literal_Some split: if_splits)
    then show ?thesis
      using drop_sound [of l b ?n "\<lambda>v. if ?n then band v (VBool b) else bor v (VBool b)" env row ps] r
      by (auto simp: bool_literal_Some op band_def bor_def)
  qed
qed

lemma simplifyBinary_sound:
  assumes "binary_safe op l r" "op = T_IS \<longrightarrow> is_not_null r = nn"
  shows "eval env row ps (simplifyBinary op l r) =
    obind (eval env row ps l) (\<lambda>lv. obind (eval env row ps r) (\<lambda>rv. binary_op env op nn lv rv))"
proof (cases "constantFoldBinary op l r")
  case (Some e)
  then have "isLiteral l" "isLiteral r" by (auto simp: constantFoldBinary_def split: if_splits)
  then obtain lv rv where "eval env row ps l = Ok lv" "eval env row ps r = Ok rv"
    using literal_eval by metis
  then show ?thesis using fold_sound [OF assms(1) Some] Some by (simp add: simplifyBinary_def)
next
  case None
  have keep: "eval env row ps (BinaryExpr op l r) =
      obind (eval env row ps l) (\<lambda>lv. obind (eval env row ps r) (\<lambda>rv. binary_op env op nn lv rv))"
  proof (cases "op = T_IS")
    case False
    then have "binary_op env op (is_not_null r) = binary_op env op nn" by (simp add: binary_op_def fun_eq_iff)
    then show ?thesis by simp
  qed (use assms(2) in simp)
  have eqn: "\<not> (isLiteral l \<and> isLiteral r \<and> equalLiteral l r)" if "op = T_EQ \<or> op = T_NE"
    using None that by (cases l; cases r) (auto simp: constantFoldBinary_def is_cmp_op_def foldCompare_def equalLiteral_def)
  show ?thesis
  proof (cases "op = T_AND \<or> op = T_OR")
    case True
    have cs: "connective_safe (op = T_AND) l r"
      using assms(1) True
      by (cases l; cases r) (auto simp: binary_safe_def num_safe_def float_safe_def connective_safe_def equalLiteral_def split: if_splits)
    show ?thesis
    proof (cases "if op = T_AND then simplifyAnd l r else simplifyOr l r")
      case None': None
      then have "simplifyBinary op l r = BinaryExpr op l r"
        using None True by (auto simp: simplifyBinary_def)
      then show ?thesis using keep by simp
    next
      case (Some e)
      then have "simplifyBinary op l r = e"
        using None True by (auto simp: simplifyBinary_def)
      then show ?thesis using connective_sound [OF cs True Some] by simp
    qed
  next
    case False
    then have "simplifyBinary op l r = BinaryExpr op l r"
      using None eqn by (auto simp: simplifyBinary_def)
    then show ?thesis using keep by simp
  qed
qed

lemma simplifyUnary_sound:
  assumes "unary_safe op x"
  shows "eval env row ps (simplifyUnary op x) = obind (eval env row ps x) (unary_op op)"
proof -
  consider "op = T_MINUS" | "op = T_PLUS" | "op = T_NOT" | "op \<noteq> T_MINUS" "op \<noteq> T_PLUS" "op \<noteq> T_NOT" by blast
  then show ?thesis
  proof cases
    case 1
    then show ?thesis by (cases x) (auto simp: simplifyUnary_def unary_op_def)
  next
    case 2
    then have "unary_op op = Ok" by (auto simp: unary_op_def)
    then show ?thesis using 2 by (auto simp: simplifyUnary_def)
  next
    case 3
    show ?thesis
    proof (cases x)
      case (UnaryExpr op' y)
      show ?thesis
      proof (cases "op' = T_NOT")
        case True
        then have "bool_or_null y" using assms UnaryExpr 3 by (simp add: unary_safe_def)
        then show ?thesis
          using UnaryExpr True 3 eval_bool_or_null [of y env row ps]
          by (cases "eval env row ps y") (auto simp: simplifyUnary_def unary_op_def is_bool_def)
      qed (use UnaryExpr 3 in \<open>simp add: simplifyUnary_def\<close>)
    qed (use 3 in \<open>auto simp: simplifyUnary_def unary_op_def\<close>)
  qed (simp add: simplifyUnary_def)
qed

subsection \<open>The whole rewriter\<close>

text \<open>
  \<open>rw_safe e\<close>: every fold that the rewriter makes in \<open>e\<close> meets its side condition. It is computed from the
  expression alone; it does not look at rows or parameters.
\<close>

fun rw_safe :: "expr \<Rightarrow> bool" where
  "rw_safe (UnaryExpr op x) = (rw_safe x \<and> unary_safe op (RewriteExpr x))"
| "rw_safe (BinaryExpr op l r) =
     (rw_safe l \<and> rw_safe r \<and> binary_safe op (RewriteExpr l) (RewriteExpr r) \<and>
      (op = T_IS \<longrightarrow> is_not_null (RewriteExpr r) = is_not_null r))"
| "rw_safe (AggregateFunc n x d) = (RewriteExpr x = x)"
| "rw_safe (FunctionCall n xs) = list_all rw_safe xs"
| "rw_safe (AliasedExpr x a) = rw_safe x"
| "rw_safe (CastExpr x ty) = rw_safe x"
| "rw_safe (ListExpr xs) = (map RewriteExpr xs = xs)"
| "rw_safe (BetweenExpr x lo hi) = (rw_safe x \<and> rw_safe lo \<and> rw_safe hi)"
| "rw_safe (CaseExpr x ws els) =
     (rw_safe x \<and> (RewriteExpr x = ENil) = (x = ENil) \<and> list_all (\<lambda>w. rw_safe (fst w) \<and> rw_safe (snd w)) ws \<and> rw_safe els)"
| "rw_safe (InExpr x xs sq) =
     (rw_safe x \<and> (sq = SNil \<longrightarrow> list_all rw_safe xs) \<and> (sq \<noteq> SNil \<longrightarrow> flattenSubquery sq = None))"
| "rw_safe e = True"

lemma rewrite_eval: "rw_safe e \<Longrightarrow> eval env row ps (RewriteExpr e) = eval env row ps e"
proof (induction e rule: RewriteExpr.induct)
  case (1 op x)
  then show ?case by (simp add: simplifyUnary_sound)
next
  case (2 op l r)
  then show ?case using simplifyBinary_sound [of op "RewriteExpr l" "RewriteExpr r" "is_not_null r" env row ps] by simp
next
  case (4 n xs)
  then have "map (eval env row ps) (map RewriteExpr xs) = map (eval env row ps) xs"
    by (auto simp: list_all_iff)
  then show ?case by (simp only: RewriteExpr.simps eval.simps)
next
  case (9 x ws els)
  then have "map (\<lambda>w. (eval env row ps (fst w), eval env row ps (snd w)))
      (map (\<lambda>w. (RewriteExpr (fst w), RewriteExpr (snd w))) ws) =
      map (\<lambda>w. (eval env row ps (fst w), eval env row ps (snd w))) ws"
    by (auto simp: list_all_iff)
  then show ?case using 9 by (simp only: RewriteExpr.simps eval.simps rw_safe.simps)
next
  case (10 x items sq)
  show ?case
  proof (cases "sq = SNil")
    case True
    then have "map (eval env row ps) (map RewriteExpr items) = map (eval env row ps) items"
      using 10 by (auto simp: list_all_iff)
    then show ?thesis using 10 True by (simp add: simplifyIn_def del: map_map cong: if_cong)
  qed (use 10 in \<open>auto simp: simplifyIn_def\<close>)
qed auto

text \<open>C18. Rewriting does not change what an expression evaluates to, for every row, every parameter list and
  every environment, including errors and panics, when \<open>rw_safe\<close> holds. Its conditions are all on the expression,
  with its operands as rewritten: two int literals under \<open>+\<close>, \<open>-\<close> or an order comparison are below \<open>2^53\<close> in size,
  under \<open>*\<close> they also have a product in int64; two numeric literals of which one is a float are not NaN, and not
  both integral under \<open>+\<close>, \<open>-\<close>, \<open>*\<close>; under AND and OR there are no two numeric literals and no two equal literals,
  and beside a bool literal stands only an operand that is a bool by its form where it is kept, and one that cannot fail
  where it is dropped; NOT NOT stands only before an operand that is a bool or NULL by its form; the right
  operand of IS has the form NOT NULL after rewriting exactly when it had it before; the operand of CASE is
  missing after rewriting exactly when it was before; rewriting leaves arguments of aggregates and items of list
  expressions as they are; a subquery under IN is not one that the rewriter flattens.\<close>

theorem rewrite_preserves_eval:
  assumes "rw_safe e"
  shows "eval env row ps (RewriteExpr e) = eval env row ps e"
  using assms by (rule rewrite_eval)

definition sample_condition :: expr where
  "sample_condition =
     BinaryExpr T_AND (BinaryExpr T_LT (NumberLiteral 1) (NumberLiteral 2))
       (BinaryExpr T_LIKE (Ident ''name'') (StringLiteral ''a%''))"

theorem rewrite_preserves_eval_witness:
  "RewriteExpr sample_condition = BinaryExpr T_LIKE (Ident ''name'') (StringLiteral ''a%'') \<and>
   eval sample_env [([''name''], [VStr ''abc''])] [] (RewriteExpr sample_condition) = eval sample_env [([''name''], [VStr ''abc''])] [] sample_condition"
proof -
  note ev = sample_condition_def simplifyBinary_def constantFoldBinary_def is_cmp_op_def foldCompare_def cmpInt_def
    cmp_test_def simplifyAnd_def binary_safe_def num_safe_def small_int_def connective_safe_def drop_safe_def is_bool_op_def
  have r: "RewriteExpr sample_condition = BinaryExpr T_LIKE (Ident ''name'') (StringLiteral ''a%'')"
    by (simp add: ev)
  have s: "rw_safe sample_condition" by (simp add: ev)
  show ?thesis using rewrite_preserves_eval [OF s] r by blast
qed

text \<open>The conditions are needed. \<open>TRUE AND 5\<close> is false and is rewritten to 5, which counts as true in a
  filter; \<open>NOT (TRUE AND NULL)\<close> is true and becomes NULL; \<open>1.0 + 2.0\<close> is the float 3 and becomes the
  integer 3; the greatest integer plus one wraps to the least already in the fold.\<close>

lemma rewrite_changes_results:
  "eval env row ps (BinaryExpr T_AND (BoolLiteral True) (NumberLiteral 5)) = Ok (VBool False) \<and>
   RewriteExpr (BinaryExpr T_AND (BoolLiteral True) (NumberLiteral 5)) = NumberLiteral 5 \<and>
   eval env row ps (UnaryExpr T_NOT (BinaryExpr T_AND (BoolLiteral True) NullLiteral)) = Ok (VBool True) \<and>
   eval env row ps (RewriteExpr (UnaryExpr T_NOT (BinaryExpr T_AND (BoolLiteral True) NullLiteral))) = Ok VNull \<and>
   eval env row ps (BinaryExpr T_PLUS (FloatLiteral (f_of_int 1)) (FloatLiteral (f_of_int 2))) = Ok (VFloat (f_of_int 3)) \<and>
   RewriteExpr (BinaryExpr T_PLUS (FloatLiteral (f_of_int 1)) (FloatLiteral (f_of_int 2))) = NumberLiteral 3 \<and>
   RewriteExpr (BinaryExpr T_PLUS (NumberLiteral max_int64) (NumberLiteral 1)) = NumberLiteral min_int64"
proof -
  have f: "f_add (f_of_int 1) (f_of_int 2) = f_of_int 3"
    by (simp add: f64_eval f_scaled_def f_units_def)
  have h: "f_eq (f_of_int 1) (f_of_int 1)" "f_eq (f_of_int 2) (f_of_int 2)"
    using f_holds_eq [OF f_holds_of_int f_holds_of_int] by simp_all
  note ev = simplifyBinary_def constantFoldBinary_def is_cmp_op_def foldFloatFloat_def fold_float_op_def
    intFromFloat_def f_to_int_of_int binary_op_def band_def unary_op_def simplifyUnary_def simplifyAnd_def
    plus_op_def val_add_def numericArith_def foldIntInt_def equalLiteral_def
  show ?thesis
    by (simp add: ev f h Let_def wrap64_id) (simp add: wrap64_def max_int64_def min_int64_def)
qed

text \<open>C31. The rewriter changes which rows a filter keeps: \<open>TRUE AND e\<close> becomes \<open>e\<close>, for every \<open>e\<close> that is no literal and
  that it leaves as it is. The condition as written counts as true only in the rows where \<open>e\<close> is the bool TRUE, the
  rewritten one in all rows where the value of \<open>e\<close> counts as true, a nonzero number for instance: the two differ exactly
  in the rows where \<open>e\<close> counts as true without being a bool.\<close>

theorem rewrite_widens_filter:
  assumes "RewriteExpr e = e" "\<not> isLiteral e" "eval env row ps e = Ok v"
  defines "cond \<equiv> BinaryExpr T_AND (BoolLiteral True) e"
  shows "\<exists>w w'. eval env row ps cond = Ok w \<and> eval env row ps (RewriteExpr cond) = Ok w' \<and>
    (truthy w \<longleftrightarrow> v = VBool True) \<and> (truthy w' \<longleftrightarrow> truthy v) \<and> (truthy w \<noteq> truthy w' \<longleftrightarrow> truthy v \<and> (\<nexists>b. v = VBool b))"
proof -
  have "bool_literal e = None" using assms(2) by (cases e) auto
  then have "RewriteExpr cond = e"
    using assms(1,2) by (simp add: cond_def simplifyBinary_def constantFoldBinary_def simplifyAnd_def)
  then show ?thesis using assms(3)
    by (intro exI [of _ "VBool (v = VBool True)"] exI [of _ v]) (auto simp: cond_def binary_op_def band_def)
qed

theorem rewrite_widens_filter_witness:
  "eval sample_env [([''a''], [VInt 5])] [] (BinaryExpr T_AND (BoolLiteral True) (Ident ''a'')) = Ok (VBool False) \<and>
   (\<exists>w'. eval sample_env [([''a''], [VInt 5])] [] (RewriteExpr (BinaryExpr T_AND (BoolLiteral True) (Ident ''a''))) = Ok w' \<and> truthy w')"
proof -
  let ?row = "[([''a''], [VInt 5])]"
  have e: "eval sample_env ?row [] (Ident ''a'') = Ok (VInt 5)"
    "eval sample_env ?row [] (BinaryExpr T_AND (BoolLiteral True) (Ident ''a'')) = Ok (VBool False)" by code_simp+
  have "RewriteExpr (Ident ''a'') = Ident ''a''" "\<not> isLiteral (Ident ''a'')" by simp_all
  from rewrite_widens_filter [OF this e(1)] show ?thesis using e(2) by auto
qed

fun no_nil_part :: "expr \<Rightarrow> bool" where
  "no_nil_part ENil = False"
| "no_nil_part (BinaryExpr op l r) = (op = T_AND \<longrightarrow> no_nil_part l \<and> no_nil_part r)"
| "no_nil_part e = True"

lemma eval_and_true:
  "eval env row ps (BinaryExpr T_AND l r) = Ok (VBool True) \<longleftrightarrow>
     eval env row ps l = Ok (VBool True) \<and> eval env row ps r = Ok (VBool True)"
  by (auto simp: obind_Ok_iff binary_op_def band_def)

text \<open>C30. Splitting a condition at its ANDs, which the planner does to push the parts down to the scans, keeps
  the rows for which the condition is true: it is the bool true exactly when every part is. (The parser
  makes no AND with a nil operand.)\<close>

theorem split_and_correct:
  assumes "no_nil_part e"
  shows "eval env row ps e = Ok (VBool True) \<longleftrightarrow>
     (\<forall>x \<in> set (SplitAnd e). eval env row ps x = Ok (VBool True))"
  using assms
proof (induction e rule: SplitAnd.induct)
  case (2 op l r)
  show ?case
  proof (cases "op = T_AND")
    case True
    then have "eval env row ps l = Ok (VBool True) \<longleftrightarrow> (\<forall>x \<in> set (SplitAnd l). eval env row ps x = Ok (VBool True))"
      "eval env row ps r = Ok (VBool True) \<longleftrightarrow> (\<forall>x \<in> set (SplitAnd r). eval env row ps x = Ok (VBool True))"
      using 2 by auto
    then show ?thesis unfolding True eval_and_true by auto
  qed simp
qed simp_all

theorem split_and_correct_witness:
  "eval sample_env [] [] (BinaryExpr T_AND (BoolLiteral True) (BoolLiteral False)) \<noteq> Ok (VBool True)"
  using split_and_correct [of "BinaryExpr T_AND (BoolLiteral True) (BoolLiteral False)" sample_env "[]" "[]"] by simp

text \<open>
  A filter tests its condition with \<open>truthy\<close>. A part that is true in this sense but is not the bool true
  passes as a filter of its own and fails inside the AND.
\<close>

lemma split_and_truthy:
  "truthy (VInt 5)" "eval env row ps (BinaryExpr T_AND (NumberLiteral 5) (NumberLiteral 6)) = Ok (VBool False)"
  "SplitAnd (BinaryExpr T_AND (NumberLiteral 5) (NumberLiteral 6)) = [NumberLiteral 5, NumberLiteral 6]"
  by (simp_all add: binary_op_def band_def)

text \<open>
  \<open>x IN (SELECT 1 LIMIT 0)\<close> asks about an empty list and is rewritten to \<open>x IN (1)\<close>;
  \<open>x IN (SELECT 1, 2)\<close> looks at the first column only and is rewritten to \<open>x IN (1, 2)\<close>.
\<close>

lemma flatten_ignores_clauses:
  "RewriteExpr (InExpr (Ident ''x'') [] (Select (MkSelect [NumberLiteral 1] [] [] [] ENil [] (NumberLiteral 0) ENil
     False [] ENil SNil))) = InExpr (Ident ''x'') [NumberLiteral 1] SNil"
  "RewriteExpr (InExpr (Ident ''x'') [] (Select (MkSelect [NumberLiteral 1, NumberLiteral 2] [] [] [] ENil [] ENil ENil
     False [] ENil SNil))) = InExpr (Ident ''x'') [NumberLiteral 1, NumberLiteral 2] SNil"
  by (simp_all add: simplifyIn_def flattenSubquery_def)

end
