(* ===== verification/Sql_Parser.thy ===== *)
theory Sql_Parser
  imports Sql_Lexer Sql_Ast
begin

text \<open>
  The SQL parser (\<open>SQL/PS/ps.go\<close>), expressions and SELECT: a recursive descent over the tokens of the
  lexer with one token of lookahead (\<open>current\<close>) and the method \<open>Peek\<close>. A method is a function of the
  state \<open>parser\<close>; a returned error is \<open>Refused\<close>, a run-time panic \<open>Crashed\<close>.

  The methods call each other recursively through \<open>parseUnary\<close>, \<open>parseBinary\<close> and \<open>parseSelect\<close>. Each method
  is a definition over these three (the record \<open>grammar\<close>) and a bound for its loops; \<open>parsers\<close> ties
  the knot with fuel, and \<open>NoFuel\<close> marks its end. \<open>Sql_Parser_Total\<close> proves that the fuel which
  \<open>parse_text\<close> takes from the length of the text is always enough.
\<close>

subsection \<open>Errors and state\<close>

record syntax_error =
  se_input :: string
  se_line :: int
  se_col :: int
  se_expected :: string
  se_got :: string
  se_lexeme :: string

datatype parse_error = SyntaxError syntax_error | ErrText string

text \<open>\<open>tokenNames\<close> is an array up to \<open>T_ALL\<close>, with the empty string where it has no entry.\<close>

definition tokenNames :: "(int \<times> string) list" where
  "tokenNames =
    [(T_EOF, ''EOF''), (T_IDENT, ''identifier''), (T_STRING, ''string literal''), 
     (T_INT, ''integer''), (T_FLOAT, ''float''), (T_BIND, ''?''), (T_EQ, ''=''), (T_NE, ''!=''), 
     (T_LT, ''<''), (T_LE, ''<=''), (T_GT, ''>''), (T_GE, ''>=''), (T_PLUS, ''+''), (T_MINUS, ''-''), 
     (T_STAR, ''*''), (T_SLASH, ''/''), (T_LPAREN, ''(''), (T_RPAREN, '')''), (T_COMMA, '',''), 
     (T_DOT, ''.''), (T_SEMICOLON, '';''), (T_COLON, '':''), (T_CREATE, ''CREATE''), 
     (T_DROP, ''DROP''), (T_INSERT, ''INSERT''), (T_UPDATE, ''UPDATE''), (T_DELETE, ''DELETE''), 
     (T_SELECT, ''SELECT''), (T_FROM, ''FROM''), (T_WHERE, ''WHERE''), (T_AND, ''AND''), 
     (T_OR, ''OR''), (T_NOT, ''NOT''), (T_IN, ''IN''), (T_BETWEEN, ''BETWEEN''), (T_LIKE, ''LIKE''), 
     (T_IS, ''IS''), (T_NULL, ''NULL''), (T_BEGIN, ''BEGIN''), (T_COMMIT, ''COMMIT''), 
     (T_ROLLBACK, ''ROLLBACK''), (T_AS, ''AS''), (T_BY, ''BY''), (T_ASC, ''ASC''), (T_DESC, ''DESC''), 
     (T_LIMIT, ''LIMIT''), (T_OFFSET, ''OFFSET''), (T_TABLE, ''TABLE''), (T_INDEX, ''INDEX''), 
     (T_PRIMARY, ''PRIMARY''), (T_KEY, ''KEY''), (T_NOTNULL, ''NOTNULL''), (T_DEFAULT, ''DEFAULT''), 
     (T_UNIQUE, ''UNIQUE''), (T_INT_KW, ''INTEGER''), (T_BIGINT, ''BIGINT''), (T_FLOAT_KW, ''FLOAT''), 
     (T_BOOL, ''BOOLEAN''), (T_TEXT, ''TEXT''), (T_BLOB, ''BLOB''), (T_VARCHAR, ''VARCHAR''), 
     (T_TIMESTAMP, ''TIMESTAMP''), (T_VALUES, ''VALUES''), (T_SET, ''SET''), (T_INTO, ''INTO''), 
     (T_ORDER, ''ORDER''), (T_JOIN, ''JOIN''), (T_LEFT, ''LEFT''), (T_RIGHT, ''RIGHT''), 
     (T_INNER, ''INNER''), (T_CROSS, ''CROSS''), (T_ON, ''ON''), (T_USING, ''USING''), 
     (T_GROUP, ''GROUP''), (T_HAVING, ''HAVING''), (T_COUNT, ''COUNT''), (T_SUM, ''SUM''), 
     (T_AVG, ''AVG''), (T_MIN, ''MIN''), (T_MAX, ''MAX''), (T_DISTINCT, ''DISTINCT''), 
     (T_CASE, ''CASE''), (T_WHEN, ''WHEN''), (T_THEN, ''THEN''), (T_ELSE, ''ELSE''), (T_END, ''END''), 
     (T_CAST, ''CAST''), (T_EXISTS, ''EXISTS''), (T_TRUE, ''TRUE''), (T_FALSE, ''FALSE''), 
     (T_EXPLAIN, ''EXPLAIN''), (T_QUERY, ''QUERY''), (T_PLAN, ''PLAN''), (T_RETURNING, ''RETURNING''), 
     (T_CONFLICT, ''CONFLICT''), (T_DO, ''DO''), (T_NOTHING, ''NOTHING''), (T_EXCLUDED, ''EXCLUDED''), 
     (T_WITH, ''WITH''), (T_SAVEPOINT, ''SAVEPOINT''), (T_RELEASE, ''RELEASE''), (T_TO, ''TO''), 
     (T_INTERVAL, ''INTERVAL''), (T_OVER, ''OVER''), (T_PARTITION, ''PARTITION''), (T_ROWS, ''ROWS''), 
     (T_RANGE, ''RANGE''), (T_PRECEDING, ''PRECEDING''), (T_FOLLOWING, ''FOLLOWING''), 
     (T_CURRENT, ''CURRENT''), (T_UNBOUNDED, ''UNBOUNDED''), (T_ROW_NUMBER, ''ROW_NUMBER''), 
     (T_RANK, ''RANK''), (T_DENSE_RANK, ''DENSE_RANK''), (T_LAG, ''LAG''), (T_LEAD, ''LEAD''), 
     (T_FIRST_VALUE, ''FIRST_VALUE''), (T_LAST_VALUE, ''LAST_VALUE''), (T_NTH_VALUE, ''NTH_VALUE''), 
     (T_ROW, ''ROW''), (T_TRANSACTION, ''TRANSACTION''), (T_ISOLATION, ''ISOLATION''), 
     (T_LEVEL, ''LEVEL''), (T_READ, ''READ''), (T_COMMITTED, ''COMMITTED''), 
     (T_UNCOMMITTED, ''UNCOMMITTED''), (T_REPEATABLE, ''REPEATABLE''), 
     (T_SERIALIZABLE, ''SERIALIZABLE''), (T_VIEW, ''VIEW''), (T_ALTER, ''ALTER''), 
     (T_COLUMN, ''COLUMN''), (T_ADD, ''ADD''), (T_RENAME, ''RENAME''), (T_FETCH, ''FETCH''), 
     (T_FIRST, ''FIRST''), (T_ONLY, ''ONLY''), (T_REFERENCES, ''REFERENCES''), 
     (T_FOREIGN, ''FOREIGN''), (T_CASCADE, ''CASCADE''), (T_RESTRICT, ''RESTRICT''), (T_NO, ''NO''), 
     (T_ACTION, ''ACTION''), (T_BITAND, ''&''), (T_BITOR, ''|''), (T_BITXOR, ''^''), 
     (T_BITNOT, ''~''), (T_MOD, ''%''), (T_CONCAT, ''||''), (T_UNION, ''UNION''), 
     (T_INTERSECT, ''INTERSECT''), (T_EXCEPT, ''EXCEPT''), (T_ALL, ''ALL'')]"

definition tokenName :: "int \<Rightarrow> string" where
  "tokenName t =
     (if t < 0 then ''<error>''
      else if T_ALL + 1 \<le> t then ''<unknown>''
      else case map_of tokenNames t of Some s \<Rightarrow> s | None \<Rightarrow> [])"

record parser =
  ps_lex :: lexer
  ps_current :: token
  ps_param :: int
  ps_joins :: "string list"
  ps_subquery :: stmt
  ps_subquery_alias :: string

definition NewParser :: "string \<Rightarrow> parser" where
  "NewParser s =
     \<lparr>ps_lex = NewLexer s,
      ps_current = \<lparr>tk_type = T_EOF, tk_lexeme = [], tk_lit = LNil, tk_line = 0, tk_col = 0\<rparr>,
      ps_param = 0, ps_joins = [], ps_subquery = SNil, ps_subquery_alias = []\<rparr>"

datatype 'a parsed = Parsed 'a parser | Refused parse_error | Crashed | NoFuel

type_synonym 'a pm = "parser \<Rightarrow> 'a parsed"

subsection \<open>Steps\<close>

definition p_return :: "'a \<Rightarrow> 'a pm" where
  "p_return a = Parsed a"

definition p_bind :: "'a pm \<Rightarrow> ('a \<Rightarrow> 'b pm) \<Rightarrow> 'b pm" where
  "p_bind f g p = (case f p of
       Parsed a p' \<Rightarrow> g a p'
     | Refused e \<Rightarrow> Refused e
     | Crashed \<Rightarrow> Crashed
     | NoFuel \<Rightarrow> NoFuel)"

definition p_then :: "'a pm \<Rightarrow> 'b pm \<Rightarrow> 'b pm" where
  "p_then f g = p_bind f (\<lambda>_. g)"

definition p_fail :: "parse_error \<Rightarrow> 'a pm" where
  "p_fail e p = Refused e"

definition p_crash :: "'a pm" where
  "p_crash p = Crashed"

definition p_no_fuel :: "'a pm" where
  "p_no_fuel p = NoFuel"

abbreviation p_type :: "parser \<Rightarrow> int" where "p_type p \<equiv> tk_type (ps_current p)"

definition p_reset :: "unit pm" where
  "p_reset p = Parsed () (p\<lparr>ps_param := 0, ps_joins := [], ps_subquery := SNil\<rparr>)"

definition p_advance :: "unit pm" where
  "p_advance p = (let (t, l) = lx_next (ps_lex p) in Parsed () (p\<lparr>ps_current := t, ps_lex := l\<rparr>))"

text \<open>The \<open>SyntaxError\<close> at the current token, with the text that is expected.\<close>

definition error_here :: "string \<Rightarrow> string \<Rightarrow> parser \<Rightarrow> parse_error" where
  "error_here expected got p =
     SyntaxError \<lparr>se_input = lx_input (ps_lex p), se_line = tk_line (ps_current p), se_col = tk_col (ps_current p),
                  se_expected = expected, se_got = got, se_lexeme = tk_lexeme (ps_current p)\<rparr>"

definition p_refuse :: "string \<Rightarrow> 'a pm" where
  "p_refuse expected p = Refused (error_here expected (tokenName (p_type p)) p)"

text \<open>\<open>expect(t)\<close> alone, and the idiom \<open>expect(t)\<close>, use of the token, \<open>advance()\<close>.\<close>

definition p_expect :: "int \<Rightarrow> unit pm" where
  "p_expect t p = (if p_type p \<noteq> t then p_refuse (tokenName t) p else Parsed () p)"

definition p_token :: "int \<Rightarrow> token pm" where
  "p_token t p = p_then (p_expect t) (p_then p_advance (p_return (ps_current p))) p"

definition p_accept :: "int \<Rightarrow> unit pm" where
  "p_accept t = p_then (p_token t) (p_return ())"

definition p_ident :: "string pm" where
  "p_ident = p_bind (p_token T_IDENT) (\<lambda>t. p_return (tk_lexeme t))"

text \<open>Tests of the current token: without consuming it, and with \<open>advance()\<close> in the first branch.\<close>

definition p_if :: "int list \<Rightarrow> 'a pm \<Rightarrow> 'a pm \<Rightarrow> 'a pm" where
  "p_if ts f g p = (if p_type p \<in> set ts then f p else g p)"

definition p_on :: "(int \<Rightarrow> bool) \<Rightarrow> (token \<Rightarrow> 'a pm) \<Rightarrow> 'a pm \<Rightarrow> 'a pm" where
  "p_on P f g p = (if P (p_type p) then p_then p_advance (f (ps_current p)) p else g p)"

definition p_case :: "int list \<Rightarrow> (token \<Rightarrow> 'a pm) \<Rightarrow> 'a pm \<Rightarrow> 'a pm" where
  "p_case ts = p_on (\<lambda>t. t \<in> set ts)"

definition p_when :: "int \<Rightarrow> 'a pm \<Rightarrow> 'a pm \<Rightarrow> 'a pm" where
  "p_when t f g = p_case [t] (\<lambda>_. f) g"

definition p_skip :: "int \<Rightarrow> unit pm" where
  "p_skip t = p_when t (p_return ()) (p_return ())"

text \<open>\<open>p.lex.Peek()\<close> and \<open>p.lex.Peek2()\<close>: the types of the next tokens.\<close>

definition p_peek :: "int pm" where
  "p_peek p = (let (t, l) = lx_Peek (ps_lex p) in Parsed (tk_type t) (p\<lparr>ps_lex := l\<rparr>))"

definition p_peek2 :: "int pm" where
  "p_peek2 p = (let (t, l) = lx_Peek2 (ps_lex p) in Parsed (tk_type t) (p\<lparr>ps_lex := l\<rparr>))"

text \<open>The loop of a list: an item, and another one while a comma follows.\<close>

primrec sep_list :: "nat \<Rightarrow> 'a pm \<Rightarrow> 'a list pm" where
  "sep_list 0 item = p_no_fuel"
| "sep_list (Suc n) item =
     p_bind item (\<lambda>x. p_when T_COMMA (p_bind (sep_list n item) (\<lambda>xs. p_return (x # xs))) (p_return [x]))"

subsection \<open>Operators\<close>

definition isBinaryOp :: "int \<Rightarrow> bool" where
  "isBinaryOp t \<longleftrightarrow> t \<in> set [T_EQ, T_NE, T_LT, T_LE, T_GT, T_GE, T_AND, T_OR, T_PLUS, T_MINUS, T_STAR, T_SLASH,
     T_LIKE, T_IS, T_BITAND, T_BITOR, T_BITXOR, T_MOD, T_CONCAT]"

definition precedence :: "int \<Rightarrow> int" where
  "precedence t =
     (if t = T_OR then 1
      else if t = T_AND then 2
      else if t = T_BITOR then 3
      else if t = T_BITXOR then 4
      else if t = T_BITAND then 5
      else if t \<in> set [T_EQ, T_NE, T_LT, T_LE, T_GT, T_GE, T_LIKE, T_IS] then 6
      else if t = T_CONCAT then 7
      else if t = T_PLUS \<or> t = T_MINUS then 8
      else if t = T_STAR \<or> t = T_SLASH \<or> t = T_MOD then 9
      else 0)"

definition isAggregateName :: "string \<Rightarrow> bool" where
  "isAggregateName name \<longleftrightarrow>
     ascii_upper name \<in> set [''COUNT'', ''SUM'', ''AVG'', ''MIN'', ''MAX'', ''GROUP_CONCAT'']"

definition isMinMaxName :: "string \<Rightarrow> bool" where
  "isMinMaxName name \<longleftrightarrow> ascii_upper name \<in> set [''MIN'', ''MAX'']"

text \<open>\<open>float64(c - '0')\<close> for the characters of a float literal, which are digits and one point.\<close>

fun parse_float_loop :: "f64 \<Rightarrow> bool \<Rightarrow> f64 \<Rightarrow> string \<Rightarrow> f64" where
  "parse_float_loop val dot dv [] = val"
| "parse_float_loop val dot dv (c # s) =
     (if c = CHR ''.'' then parse_float_loop val True dv s
      else let d = f_of_int (int (ch c) - 48)
           in if \<not> dot then parse_float_loop (f_add (f_mul val (f_of_int 10)) d) dot dv s
              else let dv = f_mul dv (f_of_int 10) in parse_float_loop (f_add val (f_div d dv)) dot dv s)"

definition parseFloat :: "string \<Rightarrow> f64" where
  "parseFloat s = parse_float_loop f_zero False (f_of_int 1) s"

subsection \<open>The grammar\<close>

record grammar =
  g_unary :: "expr pm"
  g_binary :: "int \<Rightarrow> expr pm"
  g_select :: "stmt pm"

definition parseExpr :: "grammar \<Rightarrow> expr pm" where
  "parseExpr g = g_binary g 1"

definition opt_expr :: "int \<Rightarrow> grammar \<Rightarrow> expr pm" where
  "opt_expr t g = p_when t (parseExpr g) (p_return ENil)"

definition parse_exprs :: "nat \<Rightarrow> grammar \<Rightarrow> expr list pm" where
  "parse_exprs n g = sep_list n (parseExpr g)"

text \<open>A SELECT and the closing parenthesis.\<close>

definition parse_subselect :: "grammar \<Rightarrow> stmt pm" where
  "parse_subselect g = p_bind (g_select g) (\<lambda>sel. p_then (p_accept T_RPAREN) (p_return sel))"

subsection \<open>Types in CAST and in column definitions\<close>

text \<open>\<open>fmt.Sscanf(lexeme, "%d", &n)\<close> of an integer token, which the lexer has checked to be in range.\<close>

definition p_int :: "int pm" where
  "p_int = p_case [T_INT] (\<lambda>t. p_return (int (digits_val (tk_lexeme t))))
     (\<lambda>p. p_fail (error_here [] ''integer'' p) p)"

definition parseTypeSize :: "int pm" where
  "parseTypeSize =
     p_when T_LPAREN (p_bind p_int (\<lambda>n. p_then (p_accept T_RPAREN) (p_return n))) (p_return 0)"

definition parseTypePrecision :: "(int \<times> int) pm" where
  "parseTypePrecision =
     p_when T_LPAREN
       (p_bind p_int (\<lambda>n. p_bind (p_when T_COMMA p_int (p_return 0)) (\<lambda>m.
          p_then (p_accept T_RPAREN) (p_return (n, m)))))
       (p_return (0, 0))"

definition type_of :: "int \<Rightarrow> int \<Rightarrow> int \<Rightarrow> int \<Rightarrow> type_info" where
  "type_of t pr sc sz = \<lparr>ti_type = t, ti_precision = pr, ti_scale = sc, ti_size = sz\<rparr>"

definition parseCastType :: "type_info pm" where
  "parseCastType =
     p_case [T_INT_KW, T_BIGINT, T_FLOAT_KW, T_BOOL, T_TEXT, T_BLOB, T_TIMESTAMP, T_DATE, T_TIME, T_JSON]
       (\<lambda>t. p_return (type_of (tk_type t) 0 0 0))
     (p_case [T_VARCHAR] (\<lambda>t. p_bind parseTypeSize (\<lambda>n. p_return (type_of T_VARCHAR 0 0 n)))
     (p_case [T_NUMERIC, T_DECIMAL]
       (\<lambda>t. p_bind parseTypePrecision (\<lambda>(pr, sc). p_return (type_of (tk_type t) pr sc pr)))
     (\<lambda>p. p_fail (error_here [] (''type '' @ tokenName (p_type p)) p) p)))"

definition parseCast :: "grammar \<Rightarrow> expr pm" where
  "parseCast g =
     p_then (p_accept T_LPAREN) (p_bind (parseExpr g) (\<lambda>e. p_then (p_accept T_AS)
       (p_bind parseCastType (\<lambda>ty. p_then (p_accept T_RPAREN) (p_return (CastExpr e (Some ty)))))))"

subsection \<open>Windows\<close>

definition parse_direction :: "bool pm" where
  "parse_direction = p_when T_ASC (p_return False) (p_when T_DESC (p_return True) (p_return False))"

definition parse_order_items :: "nat \<Rightarrow> grammar \<Rightarrow> (expr \<times> bool) list pm" where
  "parse_order_items n g =
     sep_list n (p_bind (parseExpr g) (\<lambda>e. p_bind parse_direction (\<lambda>d. p_return (e, d))))"

definition parse_order_by :: "nat \<Rightarrow> grammar \<Rightarrow> (expr \<times> bool) list pm" where
  "parse_order_by n g =
     p_when T_ORDER (p_then (p_accept T_BY) (parse_order_items n g)) (p_return [])"

definition parseFrameBound :: "grammar \<Rightarrow> expr frame_bound pm" where
  "parseFrameBound g =
    (let offset = p_bind (parseExpr g) (\<lambda>e.
           p_when T_PRECEDING (p_return (FrameBound ''PRECEDING'' e))
          (p_when T_FOLLOWING (p_return (FrameBound ''FOLLOWING'' e)) (p_refuse [])));
         row = p_when T_CURRENT (p_then (p_accept T_ROW) (p_return (FrameBound ''CURRENT_ROW'' ENil))) offset
     in p_when T_UNBOUNDED
          (p_when T_PRECEDING (p_return (FrameBound ''UNBOUNDED_PRECEDING'' ENil))
          (p_when T_FOLLOWING (p_return (FrameBound ''UNBOUNDED_FOLLOWING'' ENil)) row))
          row)"

definition parseWindowFrame :: "grammar \<Rightarrow> string \<Rightarrow> expr window_frame pm" where
  "parseWindowFrame g ty =
     p_then (p_accept T_BETWEEN) (p_bind (parseFrameBound g) (\<lambda>s. p_then (p_accept T_AND)
       (p_bind (parseFrameBound g) (\<lambda>e. p_return (WindowFrame (ascii_upper ty) s e)))))"

definition parseWindowSpec :: "nat \<Rightarrow> grammar \<Rightarrow> expr window_spec pm" where
  "parseWindowSpec n g =
     p_then (p_accept T_LPAREN)
      (p_bind (p_when T_PARTITION (p_then (p_accept T_BY) (parse_exprs n g)) (p_return [])) (\<lambda>part.
       p_bind (parse_order_by n g) (\<lambda>ord.
       p_bind (p_case [T_ROWS, T_RANGE] (\<lambda>t. p_bind (parseWindowFrame g (tk_lexeme t)) (\<lambda>f. p_return (Some f)))
                (p_return None)) (\<lambda>fr.
       p_then (p_accept T_RPAREN) (p_return (WindowSpec part ord fr))))))"

definition parseWindowFunc :: "nat \<Rightarrow> grammar \<Rightarrow> string \<Rightarrow> expr list \<Rightarrow> expr pm" where
  "parseWindowFunc n g name args =
     p_then (p_accept T_OVER) (p_bind (parseWindowSpec n g) (\<lambda>s. p_return (WindowFunc name args (Some s))))"

definition parseWindowBuiltin :: "nat \<Rightarrow> grammar \<Rightarrow> token \<Rightarrow> expr pm" where
  "parseWindowBuiltin n g t =
     p_then (p_accept T_LPAREN)
      (p_bind (p_if [T_RPAREN] (p_return []) (parse_exprs n g)) (\<lambda>args.
       p_then (p_accept T_RPAREN) (parseWindowFunc n g (ascii_upper (tk_lexeme t)) args)))"

subsection \<open>Primary expressions\<close>

primrec when_loop :: "nat \<Rightarrow> grammar \<Rightarrow> (expr \<times> expr) list pm" where
  "when_loop 0 g = p_no_fuel"
| "when_loop (Suc n) g =
     p_when T_WHEN
       (p_bind (parseExpr g) (\<lambda>c. p_then (p_accept T_THEN) (p_bind (parseExpr g) (\<lambda>r.
          p_bind (when_loop n g) (\<lambda>ws. p_return ((c, r) # ws))))))
       (p_return [])"

definition parseCaseExpr :: "nat \<Rightarrow> grammar \<Rightarrow> expr pm" where
  "parseCaseExpr n g =
     p_bind (p_if [T_WHEN] (p_return ENil) (parseExpr g)) (\<lambda>e.
     p_bind (when_loop n g) (\<lambda>ws.
     p_bind (opt_expr T_ELSE g) (\<lambda>els.
     p_then (p_accept T_END) (p_return (CaseExpr e ws els)))))"

definition parseCoalesce :: "nat \<Rightarrow> grammar \<Rightarrow> expr pm" where
  "parseCoalesce n g =
     p_bind (p_when T_LPAREN
         (p_bind (parse_exprs n g) (\<lambda>args. p_then (p_accept T_RPAREN) (p_return args)))
         (parse_exprs n g))
       (\<lambda>args. p_return (FunctionCall ''COALESCE'' args))"

definition nullif_args :: "grammar \<Rightarrow> expr list pm" where
  "nullif_args g =
     p_bind (parseExpr g) (\<lambda>a. p_then (p_accept T_COMMA) (p_bind (parseExpr g) (\<lambda>b. p_return [a, b])))"

definition parseNullif :: "grammar \<Rightarrow> expr pm" where
  "parseNullif g =
     p_bind (p_when T_LPAREN
         (p_bind (nullif_args g) (\<lambda>args. p_then (p_accept T_RPAREN) (p_return args)))
         (nullif_args g))
       (\<lambda>args. p_return (FunctionCall ''NULLIF'' args))"

definition parseExists :: "grammar \<Rightarrow> expr pm" where
  "parseExists g =
     p_then (p_accept T_LPAREN) (p_bind (parse_subselect g) (\<lambda>s. p_return (ExistsExpr s)))"

definition interval_units :: "string list" where
  "interval_units =
     [''YEAR'', ''YEARS'', ''MONTH'', ''MONTHS'', ''DAY'', ''DAYS'', ''HOUR'', ''HOURS'', ''MINUTE'', ''MINUTES'',
      ''SECOND'', ''SECONDS'']"

text \<open>A type assertion \<open>Literal.(string)\<close> or \<open>Literal.(int64)\<close> panics on another literal.\<close>

definition string_lit :: "token \<Rightarrow> string pm" where
  "string_lit t = (case tk_lit t of LStr s \<Rightarrow> p_return s | _ \<Rightarrow> p_crash)"

definition int_lit :: "token \<Rightarrow> int pm" where
  "int_lit t = (case tk_lit t of LInt i \<Rightarrow> p_return i | _ \<Rightarrow> p_crash)"

definition parse_unit :: "string pm" where
  "parse_unit p =
     (let u = ascii_upper (tk_lexeme (ps_current p))
      in if u \<notin> set interval_units then Refused (error_here [] u p)
         else p_then p_advance (p_return u) p)"

definition parseInterval :: "expr pm" where
  "parseInterval =
     p_bind (p_token T_STRING) (\<lambda>t. p_bind (string_lit t) (\<lambda>v.
     p_bind (p_if [T_IDENT] parse_unit (p_return ''DAY'')) (\<lambda>u. p_return (IntervalLiteral v u))))"

text \<open>The arguments of \<open>COUNT\<close>, \<open>SUM\<close>, \<open>AVG\<close>, then of \<open>MIN\<close>, \<open>MAX\<close>: \<open>args[0]\<close> of no argument panics.\<close>

definition parse_distinct :: "bool pm" where
  "parse_distinct = p_when T_DISTINCT (p_return True) (p_return False)"

definition parse_aggregate :: "nat \<Rightarrow> grammar \<Rightarrow> string \<Rightarrow> expr pm" where
  "parse_aggregate n g name =
     p_then (p_accept T_LPAREN) (p_bind parse_distinct (\<lambda>d.
     p_bind (p_when T_STAR (p_return StarExpr) (parseExpr g)) (\<lambda>arg.
     p_then (p_accept T_RPAREN)
       (p_if [T_OVER] (parseWindowFunc n g name [arg]) (p_return (AggregateFunc name arg d))))))"

definition parse_min_max :: "nat \<Rightarrow> grammar \<Rightarrow> string \<Rightarrow> expr pm" where
  "parse_min_max n g name =
     p_then (p_accept T_LPAREN) (p_bind parse_distinct (\<lambda>d.
     p_bind (p_when T_STAR (p_return [StarExpr]) (p_if [T_RPAREN] (p_return []) (parse_exprs n g))) (\<lambda>args.
     p_then (p_accept T_RPAREN)
       (if 1 < length args then p_return (FunctionCall name args)
        else case args of
               [] \<Rightarrow> p_crash
             | a # _ \<Rightarrow> p_if [T_OVER] (parseWindowFunc n g name args) (p_return (AggregateFunc name a d))))))"

definition parse_call :: "nat \<Rightarrow> grammar \<Rightarrow> string \<Rightarrow> expr pm" where
  "parse_call n g name =
     p_bind (if isAggregateName name then parse_distinct else p_return False) (\<lambda>d.
     p_bind (p_if [T_RPAREN] (p_return [])
         (p_if (if d then [T_STAR] else [])
           (p_fail (ErrText ''ps: syntax error: DISTINCT not allowed with COUNT(*)''))
           (parse_exprs n g))) (\<lambda>args.
     p_then (p_accept T_RPAREN)
       (if isAggregateName name then
          if 1 < length args \<and> isMinMaxName name then p_return (FunctionCall name args)
          else p_return (AggregateFunc name (case args of [] \<Rightarrow> ENil | a # _ \<Rightarrow> a) d)
        else p_return (FunctionCall name args))))"

definition parse_name :: "nat \<Rightarrow> grammar \<Rightarrow> string \<Rightarrow> expr pm" where
  "parse_name n g name =
     p_when T_DOT (p_bind p_ident (\<lambda>col. p_return (QualifiedName name col)))
    (p_when T_LPAREN (parse_call n g name)
    (p_return (Ident name)))"

definition parse_paren :: "grammar \<Rightarrow> expr pm" where
  "parse_paren g =
     p_if [T_SELECT] (p_bind (parse_subselect g) (\<lambda>s. p_return (SubqueryExpr s)))
       (p_bind (parseExpr g) (\<lambda>e. p_then (p_accept T_RPAREN) (p_return e)))"

definition next_param :: "int pm" where
  "next_param p = Parsed (ps_param p) (p\<lparr>ps_param := ps_param p + 1\<rparr>)"

definition parsePrimary :: "nat \<Rightarrow> grammar \<Rightarrow> expr pm" where
  "parsePrimary n g =
     p_case [T_INT] (\<lambda>t. p_bind (int_lit t) (\<lambda>v. p_return (NumberLiteral v)))
    (p_case [T_FLOAT] (\<lambda>t. p_return (FloatLiteral (parseFloat (tk_lexeme t))))
    (p_case [T_STRING] (\<lambda>t. p_bind (string_lit t) (\<lambda>v. p_return (StringLiteral v)))
    (p_when T_NULL (p_return NullLiteral)
    (p_when T_TRUE (p_return (BoolLiteral True))
    (p_when T_FALSE (p_return (BoolLiteral False))
    (p_when T_BIND (p_bind next_param (\<lambda>i. p_return (Param i)))
    (p_when T_STAR (p_return StarExpr)
    (p_case [T_IDENT, T_EXCLUDED] (\<lambda>t. parse_name n g (tk_lexeme t))
    (p_case [T_COUNT, T_SUM, T_AVG] (\<lambda>t. parse_aggregate n g (ascii_upper (tk_lexeme t)))
    (p_case [T_MIN, T_MAX] (\<lambda>t. parse_min_max n g (ascii_upper (tk_lexeme t)))
    (p_case [T_ROW_NUMBER, T_RANK, T_DENSE_RANK, T_LAG, T_LEAD, T_FIRST_VALUE, T_LAST_VALUE, T_NTH_VALUE]
       (parseWindowBuiltin n g)
    (p_when T_LPAREN (parse_paren g)
    (p_when T_CASE (parseCaseExpr n g)
    (p_when T_CAST (parseCast g)
    (p_when T_COALESCE (parseCoalesce n g)
    (p_when T_NULLIF (parseNullif g)
    (p_when T_EXISTS (parseExists g)
    (p_when T_INTERVAL parseInterval
    (p_refuse [])))))))))))))))))))"

subsection \<open>Unary, postfix and binary operators\<close>

definition negated :: "expr pm \<Rightarrow> expr pm" where
  "negated f = p_bind f (\<lambda>e. p_return (UnaryExpr T_NOT e))"

definition parseBetween :: "grammar \<Rightarrow> expr \<Rightarrow> expr pm" where
  "parseBetween g e =
     p_bind (g_binary g 3) (\<lambda>lo. p_then (p_accept T_AND) (p_bind (g_binary g 3) (\<lambda>hi.
       p_return (BetweenExpr e lo hi))))"

definition parseInBody :: "nat \<Rightarrow> grammar \<Rightarrow> expr \<Rightarrow> expr pm" where
  "parseInBody n g e =
     p_then (p_accept T_LPAREN)
      (p_if [T_SELECT] (p_bind (parse_subselect g) (\<lambda>s. p_return (InExpr e [] s)))
        (p_bind (p_if [T_RPAREN] (p_return []) (parse_exprs n g)) (\<lambda>items.
           p_then (p_accept T_RPAREN) (p_return (InExpr e items SNil)))))"

definition parseNotLike :: "grammar \<Rightarrow> expr \<Rightarrow> expr pm" where
  "parseNotLike g e = negated (p_bind (g_binary g 7) (\<lambda>r. p_return (BinaryExpr T_LIKE e r)))"

text \<open>After a primary expression and NOT, \<open>Peek\<close> decides: both tokens are consumed when LIKE, IN or
  BETWEEN follows; otherwise NOT is left for the caller.\<close>

definition parse_not :: "nat \<Rightarrow> grammar \<Rightarrow> expr \<Rightarrow> expr pm" where
  "parse_not n g e =
     p_bind p_peek (\<lambda>nx.
       if nx = T_LIKE then p_then p_advance (p_then p_advance (parseNotLike g e))
       else if nx = T_IN then p_then p_advance (p_then p_advance (negated (parseInBody n g e)))
       else if nx = T_BETWEEN then p_then p_advance (p_then p_advance (negated (parseBetween g e)))
       else p_return e)"

definition parsePostfix :: "nat \<Rightarrow> grammar \<Rightarrow> expr pm" where
  "parsePostfix n g =
     p_bind (parsePrimary n g) (\<lambda>e.
       p_when T_BETWEEN (parseBetween g e)
      (p_when T_IN (parseInBody n g e)
      (p_if [T_NOT] (parse_not n g e)
      (p_return e))))"

definition parseUnary :: "nat \<Rightarrow> grammar \<Rightarrow> expr pm" where
  "parseUnary n g =
     p_case [T_NOT, T_MINUS, T_PLUS, T_BITNOT]
       (\<lambda>t. p_bind (g_unary g) (\<lambda>e. p_return (UnaryExpr (tk_type t) e)))
       (parsePostfix n g)"

primrec binary_loop :: "nat \<Rightarrow> grammar \<Rightarrow> int \<Rightarrow> expr \<Rightarrow> expr pm" where
  "binary_loop 0 g minPrec left = p_no_fuel"
| "binary_loop (Suc n) g minPrec left =
     p_on (\<lambda>t. isBinaryOp t \<and> minPrec \<le> precedence t)
       (\<lambda>t. p_bind (g_binary g (precedence (tk_type t) + 1)) (\<lambda>right.
              binary_loop n g minPrec (BinaryExpr (tk_type t) left right)))
       (p_return left)"

definition parseBinary :: "nat \<Rightarrow> grammar \<Rightarrow> int \<Rightarrow> expr pm" where
  "parseBinary n g minPrec = p_bind (g_unary g) (binary_loop n g minPrec)"

subsection \<open>SELECT\<close>

definition select_item :: "grammar \<Rightarrow> expr pm" where
  "select_item g =
     p_bind (parseExpr g) (\<lambda>e. p_when T_AS (p_bind p_ident (\<lambda>a. p_return (AliasedExpr e a))) (p_return e))"

definition select_items :: "nat \<Rightarrow> grammar \<Rightarrow> expr list pm" where
  "select_items n g = p_when T_STAR (p_return [StarExpr]) (sep_list n (select_item g))"

definition opt_ident :: "string pm" where
  "opt_ident = p_case [T_IDENT] (\<lambda>t. p_return (tk_lexeme t)) (p_return [])"

definition set_pending :: "stmt \<Rightarrow> unit pm" where
  "set_pending s p = Parsed () (p\<lparr>ps_subquery := s\<rparr>)"

text \<open>The subquery of FROM is kept in \<open>pendingSubquery\<close> until the end of the method.\<close>

definition parse_from :: "grammar \<Rightarrow> string pm" where
  "parse_from g =
     p_when T_FROM
       (p_when T_LPAREN
          (p_if [T_SELECT]
             (p_bind (parse_subselect g) (\<lambda>sub.
              p_bind (p_when T_AS opt_ident opt_ident) (\<lambda>a.
              p_then (set_pending sub) (p_return (if a \<noteq> [] then a else ''$$subquery$$'')))))
             (p_refuse ''SELECT''))
          p_ident)
       (p_return [])"

definition add_join :: "string \<Rightarrow> unit pm" where
  "add_join t p = Parsed () (p\<lparr>ps_joins := ps_joins p @ [t]\<rparr>)"

primrec comma_loop :: "nat \<Rightarrow> unit pm" where
  "comma_loop 0 = p_no_fuel"
| "comma_loop (Suc n) =
     p_when T_COMMA (p_bind p_ident (\<lambda>t. p_then (add_join t) (comma_loop n))) (p_return ())"

definition take_joins :: "expr join_clause list pm" where
  "take_joins p = Parsed (map (\<lambda>t. JoinClause ''CROSS'' t ENil) (ps_joins p)) (p\<lparr>ps_joins := []\<rparr>)"

definition join_kind :: "int \<Rightarrow> string" where
  "join_kind t =
     (if t = T_LEFT then ''LEFT'' else if t = T_RIGHT then ''RIGHT'' else if t = T_CROSS then ''CROSS'' else ''INNER'')"

primrec join_loop :: "nat \<Rightarrow> grammar \<Rightarrow> expr join_clause list \<Rightarrow> expr join_clause list pm" where
  "join_loop 0 g js = p_no_fuel"
| "join_loop (Suc n) g js =
     p_case [T_JOIN, T_LEFT, T_RIGHT, T_INNER, T_CROSS]
       (\<lambda>t. p_then (p_skip T_OUTER) (p_then (p_skip T_JOIN)
         (p_bind p_ident (\<lambda>right.
          p_bind (opt_expr T_ON g) (\<lambda>on.
            join_loop n g (js @ [JoinClause (join_kind (tk_type t)) right on]))))))
       (p_return js)"

definition parse_group_by :: "nat \<Rightarrow> grammar \<Rightarrow> expr list pm" where
  "parse_group_by n g = p_when T_GROUP (p_then (p_accept T_BY) (parse_exprs n g)) (p_return [])"

definition parse_alias :: "string pm" where
  "parse_alias = p_when T_AS p_ident (p_return [])"

definition get_pending :: "stmt pm" where
  "get_pending p = Parsed (ps_subquery p) p"

definition parseOneSelect :: "nat \<Rightarrow> grammar \<Rightarrow> (expr, stmt) select pm" where
  "parseOneSelect n g =
     p_then (set_pending SNil) (p_then p_advance
      (p_bind parse_distinct (\<lambda>distinct.
       p_bind (select_items n g) (\<lambda>cols.
       p_bind (parse_from g) (\<lambda>from.
       p_then (comma_loop n)
      (p_bind parse_alias (\<lambda>alias.
       p_bind (p_bind take_joins (join_loop n g)) (\<lambda>joins.
       p_bind (opt_expr T_WHERE g) (\<lambda>wh.
       p_bind (parse_group_by n g) (\<lambda>group.
       p_bind (opt_expr T_HAVING g) (\<lambda>having.
       p_bind get_pending (\<lambda>sub.
         p_return (MkSelect cols from alias joins wh [] ENil ENil distinct group having sub)))))))))))))"

primrec intersect_loop :: "nat \<Rightarrow> nat \<Rightarrow> grammar \<Rightarrow> stmt \<Rightarrow> stmt pm" where
  "intersect_loop 0 m g left = p_no_fuel"
| "intersect_loop (Suc n) m g left =
     p_when T_INTERSECT
       (p_bind (parseOneSelect m g) (\<lambda>right.
          intersect_loop n m g (CompoundStmt left CompoundIntersect (Select right) [] ENil ENil)))
       (p_return left)"

definition parseIntersectChain :: "nat \<Rightarrow> grammar \<Rightarrow> stmt pm" where
  "parseIntersectChain n g = p_bind (parseOneSelect n g) (\<lambda>s. intersect_loop n n g (Select s))"

definition union_op :: "int \<Rightarrow> compound_op pm" where
  "union_op t =
     (if t = T_EXCEPT then p_if [T_ALL] (p_refuse ''EXCEPT (no ALL suffix)'') (p_return CompoundExcept)
      else p_when T_ALL (p_return CompoundUnionAll) (p_return CompoundUnion))"

primrec union_loop :: "nat \<Rightarrow> nat \<Rightarrow> grammar \<Rightarrow> stmt \<Rightarrow> stmt pm" where
  "union_loop 0 m g left = p_no_fuel"
| "union_loop (Suc n) m g left =
     p_case [T_UNION, T_EXCEPT]
       (\<lambda>t. p_bind (union_op (tk_type t)) (\<lambda>op. p_bind (parseIntersectChain m g) (\<lambda>right.
          union_loop n m g (CompoundStmt left op right [] ENil ENil))))
       (p_return left)"

definition parseTrailingClauses :: "nat \<Rightarrow> grammar \<Rightarrow> ((expr \<times> bool) list \<times> expr \<times> expr) pm" where
  "parseTrailingClauses n g =
     p_bind (parse_order_by n g) (\<lambda>ob. p_bind (opt_expr T_LIMIT g) (\<lambda>lim. p_bind (opt_expr T_OFFSET g) (\<lambda>off.
       p_return (ob, lim, off))))"

fun set_trailing :: "stmt \<Rightarrow> (expr \<times> bool) list \<times> expr \<times> expr \<Rightarrow> stmt" where
  "set_trailing (CompoundStmt l op r _ _ _) (ob, lim, off) = CompoundStmt l op r ob lim off"
| "set_trailing (Select s) (ob, lim, off) =
     Select (MkSelect (sel_cols s) (sel_from s) (sel_from_alias s) (sel_joins s) (sel_where s) ob lim off
       (sel_distinct s) (sel_group_by s) (sel_having s) (sel_subquery_from s))"
| "set_trailing st _ = st"

definition parseSelect :: "nat \<Rightarrow> grammar \<Rightarrow> stmt pm" where
  "parseSelect n g =
     p_bind (p_bind (parseIntersectChain n g) (union_loop n n g)) (\<lambda>left.
       p_bind (parseTrailingClauses n g) (\<lambda>tr. p_return (set_trailing left tr)))"

subsection \<open>The knot\<close>

primrec parsers :: "nat \<Rightarrow> grammar" where
  "parsers 0 = \<lparr>g_unary = p_no_fuel, g_binary = (\<lambda>m. p_no_fuel), g_select = p_no_fuel\<rparr>"
| "parsers (Suc n) =
     (let g = parsers n
      in \<lparr>g_unary = parseUnary n g, g_binary = parseBinary n g, g_select = parseSelect n g\<rparr>)"

end
