(* ===== verification/Sql_Statements.thy ===== *)
theory Sql_Statements
  imports Sql_Parser
begin

text \<open>
  The SQL parser (\<open>SQL/PS/ps.go\<close>), the other statements, and \<open>Parse\<close>, the entry point. \<open>parse_text\<close> is
  \<open>NewParser(s).Parse()\<close> with fuel from the length of the text.
\<close>

subsection \<open>INSERT, UPDATE, DELETE\<close>

definition ident_list :: "nat \<Rightarrow> string list pm" where
  "ident_list n = sep_list n p_ident"

definition paren_idents :: "nat \<Rightarrow> string list pm" where
  "paren_idents n =
     p_when T_LPAREN (p_bind (ident_list n) (\<lambda>cs. p_then (p_accept T_RPAREN) (p_return cs))) (p_return [])"

definition parseReturning :: "nat \<Rightarrow> grammar \<Rightarrow> expr list pm" where
  "parseReturning n g = p_when T_RETURNING (parse_exprs n g) (p_return [])"

definition set_item :: "grammar \<Rightarrow> (string \<times> expr) pm" where
  "set_item g =
     p_bind p_ident (\<lambda>col. p_then (p_accept T_EQ) (p_bind (parseExpr g) (\<lambda>v. p_return (col, v))))"

definition parseOnConflict :: "nat \<Rightarrow> grammar \<Rightarrow> expr on_conflict pm" where
  "parseOnConflict n g =
     p_then (p_accept T_ON) (p_then (p_accept T_CONFLICT)
      (p_bind (paren_idents n) (\<lambda>cols.
       p_then (p_accept T_DO)
        (p_when T_NOTHING (p_return (OnConflict cols True []))
          (p_then (p_accept T_UPDATE) (p_then (p_accept T_SET)
            (p_bind (sep_list n (set_item g)) (\<lambda>set. p_return (OnConflict cols False set)))))))))"

definition values_row :: "nat \<Rightarrow> grammar \<Rightarrow> expr list pm" where
  "values_row n g =
     p_then (p_accept T_LPAREN) (p_bind (parse_exprs n g) (\<lambda>row. p_then (p_accept T_RPAREN) (p_return row)))"

definition opt_conflict :: "nat \<Rightarrow> grammar \<Rightarrow> expr on_conflict option pm" where
  "opt_conflict n g =
     p_if [T_ON]
       (p_bind p_peek (\<lambda>nx. if nx = T_CONFLICT then p_bind (parseOnConflict n g) (\<lambda>c. p_return (Some c))
                            else p_return None))
       (p_return None)"

definition parseInsertTail :: "nat \<Rightarrow> grammar \<Rightarrow> conflict_action \<Rightarrow> stmt pm" where
  "parseInsertTail n g action =
     p_bind p_ident (\<lambda>table.
     p_bind (paren_idents n) (\<lambda>cols.
     p_then (p_accept T_VALUES)
    (p_bind (sep_list n (values_row n g)) (\<lambda>values.
     p_bind (parseReturning n g) (\<lambda>ret.
     p_bind (opt_conflict n g) (\<lambda>oc. p_return (Insert table cols values ret oc action)))))))"

definition conflict_actions :: "(string \<times> conflict_action) list" where
  "conflict_actions =
     [(''ROLLBACK'', ConflictActionRollback), (''ABORT'', ConflictActionAbort), (''FAIL'', ConflictActionFail),
      (''IGNORE'', ConflictActionIgnore), (''REPLACE'', ConflictActionReplace)]"

definition insert_action :: "conflict_action pm" where
  "insert_action p =
     (let w = tk_lexeme (ps_current p)
      in case map_of conflict_actions (ascii_upper w) of
           Some a \<Rightarrow> p_then p_advance (p_return a) p
         | None \<Rightarrow> Refused (ErrText (''expected ROLLBACK/ABORT/FAIL/IGNORE/REPLACE after INSERT OR, got '' @ w)))"

definition parseInsert :: "nat \<Rightarrow> grammar \<Rightarrow> stmt pm" where
  "parseInsert n g =
     p_then p_advance (p_bind (p_when T_OR insert_action (p_return ConflictActionUnspecified)) (\<lambda>a.
       p_then (p_accept T_INTO) (parseInsertTail n g a)))"

definition parseReplace :: "nat \<Rightarrow> grammar \<Rightarrow> stmt pm" where
  "parseReplace n g =
     p_then p_advance (p_then (p_accept T_INTO) (parseInsertTail n g ConflictActionReplace))"

definition parseUpdate :: "nat \<Rightarrow> grammar \<Rightarrow> stmt pm" where
  "parseUpdate n g =
     p_then p_advance (p_bind p_ident (\<lambda>table. p_then (p_accept T_SET)
      (p_bind (sep_list n (set_item g)) (\<lambda>set.
       p_bind (opt_expr T_WHERE g) (\<lambda>wh.
       p_bind (parseReturning n g) (\<lambda>ret. p_return (Update table set wh ret)))))))"

definition parseDelete :: "nat \<Rightarrow> grammar \<Rightarrow> stmt pm" where
  "parseDelete n g =
     p_then p_advance (p_then (p_accept T_FROM) (p_bind p_ident (\<lambda>table.
       p_bind (opt_expr T_WHERE g) (\<lambda>wh.
       p_bind (parseReturning n g) (\<lambda>ret. p_return (Delete table wh ret))))))"

subsection \<open>Tables\<close>

definition NewColDef :: "string \<Rightarrow> int \<Rightarrow> expr col_def" where
  "NewColDef name t = ColDef name t 0 True ENil False False ENil [] [] [] [] ENil False"

definition set_size :: "int \<Rightarrow> expr col_def \<Rightarrow> expr col_def" where
  "set_size n c = (case c of ColDef name t s nul def pk uq chk rt rc od ou gen virt \<Rightarrow>
     ColDef name t n nul def pk uq chk rt rc od ou gen virt)"

definition set_nullable :: "bool \<Rightarrow> expr col_def \<Rightarrow> expr col_def" where
  "set_nullable b c = (case c of ColDef name t s nul def pk uq chk rt rc od ou gen virt \<Rightarrow>
     ColDef name t s b def pk uq chk rt rc od ou gen virt)"

definition set_default :: "expr \<Rightarrow> expr col_def \<Rightarrow> expr col_def" where
  "set_default e c = (case c of ColDef name t s nul def pk uq chk rt rc od ou gen virt \<Rightarrow>
     ColDef name t s nul e pk uq chk rt rc od ou gen virt)"

definition set_pk :: "expr col_def \<Rightarrow> expr col_def" where
  "set_pk c = (case c of ColDef name t s nul def pk uq chk rt rc od ou gen virt \<Rightarrow>
     ColDef name t s nul def True uq chk rt rc od ou gen virt)"

definition set_unique :: "expr col_def \<Rightarrow> expr col_def" where
  "set_unique c = (case c of ColDef name t s nul def pk uq chk rt rc od ou gen virt \<Rightarrow>
     ColDef name t s nul def pk True chk rt rc od ou gen virt)"

definition set_check :: "expr \<Rightarrow> expr col_def \<Rightarrow> expr col_def" where
  "set_check e c = (case c of ColDef name t s nul def pk uq chk rt rc od ou gen virt \<Rightarrow>
     ColDef name t s nul def pk uq e rt rc od ou gen virt)"

definition set_generated :: "expr \<Rightarrow> bool \<Rightarrow> expr col_def \<Rightarrow> expr col_def" where
  "set_generated e v c = (case c of ColDef name t s nul def pk uq chk rt rc od ou gen virt \<Rightarrow>
     ColDef name t s nul def pk uq chk rt rc od ou e v)"

definition set_references :: "string \<Rightarrow> string \<Rightarrow> string \<times> string \<Rightarrow> expr col_def \<Rightarrow> expr col_def" where
  "set_references tab col acts c = (case c of ColDef name t s nul def pk uq chk rt rc od ou gen virt \<Rightarrow>
     ColDef name t s nul def pk uq chk tab col (fst acts) (snd acts) gen virt)"

definition parseFKAction :: "string pm" where
  "parseFKAction =
     p_when T_CASCADE (p_return ''CASCADE'')
    (p_when T_RESTRICT (p_return ''RESTRICT'')
    (p_when T_SET
       (p_when T_NULL (p_return ''SET NULL'') (p_when T_DEFAULT (p_return ''SET DEFAULT'') (p_return ''SET'')))
    (p_when T_NO (p_when T_ACTION (p_return ''NO ACTION'') (p_return ''NO''))
    (p_return ''NO ACTION''))))"

text \<open>\<open>ON DELETE\<close> and \<open>ON UPDATE\<close>, in any order and number; the last one counts.\<close>

primrec fk_actions :: "nat \<Rightarrow> string \<times> string \<Rightarrow> (string \<times> string) pm" where
  "fk_actions 0 acts = p_no_fuel"
| "fk_actions (Suc n) acts =
     p_when T_ON
       (p_when T_DELETE (p_bind parseFKAction (\<lambda>a. fk_actions n (a, snd acts)))
       (p_when T_UPDATE (p_bind parseFKAction (\<lambda>a. fk_actions n (fst acts, a)))
       (fk_actions n acts)))
       (p_return acts)"

text \<open>An identifier that is compared with a word by \<open>strings.EqualFold\<close>.\<close>

definition at_word :: "string \<Rightarrow> parser \<Rightarrow> bool" where
  "at_word w p \<longleftrightarrow> p_type p = T_IDENT \<and> ascii_upper (tk_lexeme (ps_current p)) = w"

definition p_word :: "string \<Rightarrow> 'a pm \<Rightarrow> 'a pm \<Rightarrow> 'a pm" where
  "p_word w f g p = (if at_word w p then p_then p_advance f p else g p)"

definition col_constraint :: "grammar \<Rightarrow> expr col_def \<Rightarrow> (expr col_def \<Rightarrow> expr col_def pm) \<Rightarrow> expr col_def pm" where
  "col_constraint g c loop =
     p_when T_NOTNULL (loop (set_nullable False c))
    (p_when T_NOT (p_bind (p_when T_NULL (p_return (set_nullable False c)) (p_return c)) loop)
    (p_when T_PRIMARY (p_then (p_skip T_KEY) (loop (set_nullable False (set_pk c))))
    (p_when T_DEFAULT (p_bind (parseExpr g) (\<lambda>e. loop (set_default e c)))
    (p_when T_CHECK
      (p_then (p_accept T_LPAREN) (p_bind (parseExpr g) (\<lambda>e. p_then (p_accept T_RPAREN) (loop (set_check e c)))))
    (p_when T_UNIQUE (p_then (p_skip T_KEY) (loop (set_unique c)))
    (p_return c))))))"

text \<open>\<open>PRIMARY KEY\<close> before a parenthesis ends the loop, with both words consumed.\<close>

primrec col_constraints :: "nat \<Rightarrow> grammar \<Rightarrow> expr col_def \<Rightarrow> expr col_def pm" where
  "col_constraints 0 g c p = NoFuel"
| "col_constraints (Suc n) g c p =
     p_if [T_PRIMARY]
       (p_bind p_peek (\<lambda>nx.
          if nx = T_KEY then
            p_then p_advance (p_then p_advance (p_if [T_LPAREN] (p_return c) (col_constraints n g (set_pk c))))
          else col_constraint g c (col_constraints n g)))
       (col_constraint g c (col_constraints n g)) p"

definition virtual_word :: "bool pm" where
  "virtual_word = p_word ''VIRTUAL'' (p_return True) (p_word ''STORED'' (p_return False) (p_return False))"

definition col_generated :: "grammar \<Rightarrow> expr col_def \<Rightarrow> expr col_def pm" where
  "col_generated g c =
     p_when T_AS
       (p_then (p_accept T_LPAREN) (p_bind (parseExpr g) (\<lambda>e. p_then (p_accept T_RPAREN)
         (p_bind virtual_word (\<lambda>v. p_return (set_generated e v c))))))
       (p_return c)"

definition col_references :: "nat \<Rightarrow> expr col_def \<Rightarrow> expr col_def pm" where
  "col_references n c =
     p_when T_REFERENCES
       (p_bind p_ident (\<lambda>tab.
        p_bind (p_when T_LPAREN (p_bind p_ident (\<lambda>col. p_then (p_accept T_RPAREN) (p_return col))) (p_return []))
          (\<lambda>col. p_bind (fk_actions n ([], [])) (\<lambda>acts. p_return (set_references tab col acts c)))))
       (p_return c)"

definition parse_column :: "nat \<Rightarrow> grammar \<Rightarrow> expr col_def pm" where
  "parse_column n g =
     p_bind p_ident (\<lambda>name. p_bind parseCastType (\<lambda>ty.
       p_bind (col_constraints n g (set_size (ti_size ty) (NewColDef name (ti_type ty)))) (\<lambda>c.
       p_bind (col_generated g c) (col_references n))))"

primrec col_list :: "nat \<Rightarrow> nat \<Rightarrow> grammar \<Rightarrow> expr col_def list pm" where
  "col_list 0 m g = p_no_fuel"
| "col_list (Suc n) m g =
     p_if [T_PRIMARY, T_UNIQUE, T_FOREIGN] (p_return [])
       (p_bind (parse_column m g) (\<lambda>c.
          p_when T_COMMA (p_bind (col_list n m g) (\<lambda>cs. p_return (c # cs))) (p_return [c])))"

definition parse_foreign :: "nat \<Rightarrow> string list \<Rightarrow> foreign_key pm" where
  "parse_foreign n names =
     p_then (p_accept T_REFERENCES) (p_bind p_ident (\<lambda>tab. p_bind (paren_idents n) (\<lambda>cols.
       p_bind (fk_actions n ([], [])) (\<lambda>acts.
         p_return \<lparr>fk_columns = names, fk_ref_table = tab, fk_ref_columns = cols,
                   fk_on_delete = fst acts, fk_on_update = snd acts\<rparr>))))"

type_synonym table_keys = "string option \<times> string list list \<times> foreign_key list"

definition table_key :: "nat \<Rightarrow> int \<Rightarrow> table_keys \<Rightarrow> table_keys pm" where
  "table_key n t ks =
     p_then (if t = T_UNIQUE then p_skip T_KEY else p_accept T_KEY) (p_then (p_accept T_LPAREN)
      (p_bind (ident_list n) (\<lambda>names. p_then (p_accept T_RPAREN)
        (case ks of (pk, uqs, fks) \<Rightarrow>
           if t = T_FOREIGN then p_bind (parse_foreign n names) (\<lambda>fk. p_return (pk, uqs, fks @ [fk]))
           else if t = T_PRIMARY then
             (if length names \<noteq> 1
              then p_fail (ErrText (''ps: composite PRIMARY KEY (a, b) not supported, got '' @
                                    FormatInt (int (length names)) @ '' columns''))
              else p_return (Some (hd names), uqs, fks))
           else p_return (pk, uqs @ [names], fks)))))"

primrec key_loop :: "nat \<Rightarrow> nat \<Rightarrow> table_keys \<Rightarrow> table_keys pm" where
  "key_loop 0 m ks = p_no_fuel"
| "key_loop (Suc n) m ks =
     p_case [T_PRIMARY, T_UNIQUE, T_FOREIGN]
       (\<lambda>t. p_bind (table_key m (tk_type t) ks) (\<lambda>ks'. p_then (p_skip T_COMMA) (key_loop n m ks')))
       (p_return ks)"

definition first_pk :: "expr col_def list \<Rightarrow> string option \<Rightarrow> string option" where
  "first_pk cols pk = (case filter cd_pk cols of [] \<Rightarrow> pk | c # _ \<Rightarrow> Some (cd_name c))"

definition parseCreateTable :: "nat \<Rightarrow> grammar \<Rightarrow> stmt pm" where
  "parseCreateTable n g =
     p_then p_advance (p_then (p_accept T_TABLE) (p_bind p_ident (\<lambda>name. p_then (p_accept T_LPAREN)
      (p_bind (col_list n n g) (\<lambda>cols.
       p_bind (key_loop n n (None, [], [])) (\<lambda>(pk, uqs, fks).
       p_then (p_accept T_RPAREN) (p_return (CreateTable name cols (first_pk cols pk) uqs fks))))))))"

definition parseDropTable :: "stmt pm" where
  "parseDropTable =
     p_then p_advance (p_then (p_accept T_TABLE) (p_then (p_word ''IF'' (p_return ()) (p_return ()))
      (p_then (p_skip T_EXISTS) (p_bind p_ident (\<lambda>name. p_return (DropTable name))))))"

subsection \<open>Indexes, views, ALTER TABLE and short statements\<close>

definition parseCreateIndex :: "nat \<Rightarrow> stmt pm" where
  "parseCreateIndex n =
     p_then p_advance (p_bind (p_when T_UNIQUE (p_return True) (p_return False)) (\<lambda>unique.
       p_then (p_accept T_INDEX) (p_bind p_ident (\<lambda>name. p_then (p_accept T_ON)
      (p_bind p_ident (\<lambda>table. p_then (p_accept T_LPAREN)
      (p_bind (ident_list n) (\<lambda>cols. p_then (p_accept T_RPAREN)
        (p_return (CreateIndexStmt name table cols unique))))))))))"

definition parseDropIndex :: "stmt pm" where
  "parseDropIndex =
     p_then p_advance (p_then (p_accept T_INDEX) (p_bind p_ident (\<lambda>name. p_return (DropIndexStmt name))))"

definition parseCreateView :: "grammar \<Rightarrow> stmt pm" where
  "parseCreateView g =
     p_then p_advance
      (p_bind (p_case [T_TEMP, T_TEMPORARY] (\<lambda>t. p_return True) (p_return False)) (\<lambda>temporary.
       p_then (p_accept T_VIEW) (p_bind p_ident (\<lambda>name. p_then (p_accept T_AS)
        (p_bind (g_select g) (\<lambda>sel. p_return (CreateViewStmt name sel temporary)))))))"

primrec alter_constraints :: "nat \<Rightarrow> grammar \<Rightarrow> expr col_def \<Rightarrow> expr col_def pm" where
  "alter_constraints 0 g c p = NoFuel"
| "alter_constraints (Suc n) g c p =
     p_when T_NOT (p_when T_NULL (alter_constraints n g (set_nullable False c)) (p_refuse []))
    (p_when T_NOTNULL (alter_constraints n g (set_nullable False c))
    (p_when T_DEFAULT (p_bind (parseExpr g) (\<lambda>e. alter_constraints n g (set_default e c)))
    (p_return c))) p"

definition parseAlterTable :: "nat \<Rightarrow> grammar \<Rightarrow> stmt pm" where
  "parseAlterTable n g =
     p_then p_advance (p_then (p_accept T_TABLE) (p_bind p_ident (\<lambda>table.
       p_when T_ADD
         (p_then (p_skip T_COLUMN) (p_bind p_ident (\<lambda>name. p_bind parseCastType (\<lambda>ty.
           p_bind (alter_constraints n g (set_size (ti_size ty) (NewColDef name (ti_type ty)))) (\<lambda>c.
             p_return (AlterTableStmt table ''ADD COLUMN'' name (Some c)))))))
      (p_when T_DROP
         (p_then (p_skip T_COLUMN) (p_bind p_ident (\<lambda>c. p_return (AlterTableStmt table ''DROP COLUMN'' c None))))
      (p_when T_RENAME
         (p_then (p_skip T_TO) (p_bind p_ident (\<lambda>c. p_return (AlterTableStmt table ''RENAME'' c None))))
      (p_refuse [])))))) "

definition parseAnalyze :: "stmt pm" where
  "parseAnalyze = p_then p_advance (p_bind opt_ident (\<lambda>t. p_return (AnalyzeStmt t)))"

definition parseVacuum :: "stmt pm" where
  "parseVacuum = p_then p_advance (p_bind opt_ident (\<lambda>t. p_return (VacuumStmt t)))"

definition parsePragma :: "stmt pm" where
  "parsePragma =
     p_then p_advance
      (p_case [T_IDENT]
        (\<lambda>t. p_bind (p_when T_EQ (p_case [T_IDENT, T_STRING, T_INT] (\<lambda>v. p_return (tk_lexeme v)) (p_return []))
                       (p_return []))
               (\<lambda>v. p_return (PragmaStmt (tk_lexeme t) v)))
        (p_refuse ''identifier after PRAGMA''))"

definition parseSavepoint :: "stmt pm" where
  "parseSavepoint = p_then p_advance (p_bind p_ident (\<lambda>n. p_return (SavepointStmt n)))"

definition parseReleaseSavepoint :: "stmt pm" where
  "parseReleaseSavepoint =
     p_then p_advance (p_then (p_skip T_SAVEPOINT) (p_bind p_ident (\<lambda>n. p_return (ReleaseSavepointStmt n))))"

definition parseRollbackTo :: "stmt pm" where
  "parseRollbackTo =
     p_then p_advance (p_then p_advance (p_then (p_skip T_SAVEPOINT)
       (p_bind p_ident (\<lambda>n. p_return (RollbackToStmt n)))))"

definition isolation_level :: "string pm" where
  "isolation_level =
     p_when T_READ
       (p_when T_UNCOMMITTED (p_return ''READ UNCOMMITTED'')
       (p_when T_COMMITTED (p_return ''READ COMMITTED'') (p_refuse [])))
    (p_when T_REPEATABLE (p_then (p_accept T_READ) (p_return ''REPEATABLE READ''))
    (p_when T_SERIALIZABLE (p_return ''SERIALIZABLE'') (p_refuse [])))"

definition parseSet :: "stmt pm" where
  "parseSet =
     p_then p_advance (p_then (p_accept T_TRANSACTION) (p_then (p_accept T_ISOLATION) (p_then (p_accept T_LEVEL)
       (p_bind isolation_level (\<lambda>l. p_return (SetTransactionStmt l))))))"

subsection \<open>Triggers\<close>

primrec skip_to :: "nat \<Rightarrow> int list \<Rightarrow> unit pm" where
  "skip_to 0 ts = p_no_fuel"
| "skip_to (Suc n) ts = p_on (\<lambda>t. t \<notin> set ts) (\<lambda>t. skip_to n ts) (p_return ())"

text \<open>A statement of another type is skipped, and the result is nil.\<close>

definition parseTriggerBodyStmt :: "nat \<Rightarrow> grammar \<Rightarrow> stmt pm" where
  "parseTriggerBodyStmt n g =
     p_if [T_SELECT] (g_select g)
    (p_if [T_INSERT] (parseInsert n g)
    (p_if [T_UPDATE] (parseUpdate n g)
    (p_if [T_DELETE] (parseDelete n g)
    (p_then (skip_to n [T_SEMICOLON, T_END, T_EOF]) (p_return SNil)))))"

primrec trigger_body :: "nat \<Rightarrow> nat \<Rightarrow> grammar \<Rightarrow> stmt list pm" where
  "trigger_body 0 m g = p_no_fuel"
| "trigger_body (Suc n) m g =
     p_if [T_END, T_EOF] (p_return [])
    (p_when T_SEMICOLON (trigger_body n m g)
    (p_bind (parseTriggerBodyStmt m g) (\<lambda>s. p_bind (trigger_body n m g) (\<lambda>ss.
       p_return (if s = SNil then ss else s # ss)))))"

definition trigger_time :: "string pm" where
  "trigger_time =
     p_case [T_BEFORE, T_AFTER] (\<lambda>t. p_return (ascii_upper (tk_lexeme t)))
    (p_when T_INSTEAD (p_then (p_accept T_OF) (p_return ''INSTEAD OF''))
    (p_return ''BEFORE''))"

text \<open>The error of another event holds the line and the column as text.\<close>

definition trigger_event :: "nat \<Rightarrow> (string \<times> string list) pm" where
  "trigger_event n =
     p_case [T_INSERT, T_DELETE] (\<lambda>t. p_return (ascii_upper (tk_lexeme t), []))
    (p_when T_UPDATE
       (p_when T_OF (p_bind (ident_list n) (\<lambda>cs. p_return (''UPDATE'', cs))) (p_return (''UPDATE'', [])))
    (\<lambda>p. Refused (ErrText (''ps: syntax error at line '' @ FormatInt (tk_line (ps_current p)) @ '' col '' @
       FormatInt (tk_col (ps_current p)) @ '': expected INSERT/UPDATE/DELETE, got '' @ tokenName (p_type p)))))"

definition parseCreateTrigger :: "nat \<Rightarrow> grammar \<Rightarrow> stmt pm" where
  "parseCreateTrigger n g =
     p_then p_advance (p_then (p_accept T_TRIGGER)
      (p_bind (p_word ''IF'' (p_then (p_accept T_NOT) (p_then (p_accept T_EXISTS) (p_return True))) (p_return False))
        (\<lambda>ine.
       p_bind p_ident (\<lambda>name.
       p_bind trigger_time (\<lambda>time.
       p_bind (trigger_event n) (\<lambda>(event, cols).
       p_then (p_accept T_ON) (p_bind p_ident (\<lambda>table.
       p_then (p_when T_FOR (p_then (p_accept T_EACH) (p_accept T_ROW)) (p_return ()))
      (p_then (p_when T_WHEN (skip_to n [T_BEGIN, T_SEMICOLON, T_EOF]) (p_return ()))
      (p_bind (p_when T_BEGIN
           (p_bind (trigger_body n n g) (\<lambda>ss. p_then (p_skip T_END) (p_return ss)))
           (p_bind (parseTriggerBodyStmt n g) (\<lambda>s. p_return [s]))) (\<lambda>body.
        p_return (TriggerStmt name time event table ''FOR EACH ROW'' body ine [] cols))))))))))))"

subsection \<open>EXPLAIN, WITH and the entry point\<close>

definition create_stmt :: "nat \<Rightarrow> grammar \<Rightarrow> bool \<Rightarrow> stmt pm" where
  "create_stmt n g triggers =
     p_bind p_peek (\<lambda>nx.
       if nx = T_INDEX then parseCreateIndex n
       else p_bind (if nx = T_UNIQUE \<or> (triggers \<and> (nx = T_TEMP \<or> nx = T_TEMPORARY)) then p_peek2 else p_return T_EOF) (\<lambda>nx2.
         if nx = T_UNIQUE \<and> nx2 = T_INDEX then parseCreateIndex n
         else if nx = T_VIEW then parseCreateView g
         else if triggers \<and> nx = T_TRIGGER then parseCreateTrigger n g
         else if triggers \<and> (nx = T_TEMP \<or> nx = T_TEMPORARY) \<and> nx2 = T_VIEW then parseCreateView g
         else parseCreateTable n g))"

definition drop_stmt :: "stmt pm" where
  "drop_stmt = p_bind p_peek (\<lambda>nx. if nx = T_INDEX then parseDropIndex else parseDropTable)"

definition explain_mode_of :: "explain_mode pm" where
  "explain_mode_of =
     p_if [T_QUERY]
       (p_bind p_peek (\<lambda>nx. if nx = T_PLAN then p_then p_advance (p_then p_advance (p_return ExplainQueryPlan))
                            else p_refuse ''PLAN''))
       (p_return ExplainNormal)"

primrec parseExplain :: "nat \<Rightarrow> nat \<Rightarrow> grammar \<Rightarrow> stmt pm" where
  "parseExplain 0 n g = p_no_fuel"
| "parseExplain (Suc k) n g =
     p_then p_advance (p_bind explain_mode_of (\<lambda>mode.
       p_bind
        (p_if [T_SELECT] (g_select g)
        (p_if [T_INSERT] (parseInsert n g)
        (p_if [T_UPDATE] (parseUpdate n g)
        (p_if [T_DELETE] (parseDelete n g)
        (p_if [T_CREATE] (create_stmt n g False)
        (p_if [T_DROP] drop_stmt
        (p_if [T_EXPLAIN] (parseExplain k n g)
        (p_if [T_ANALYZE] parseAnalyze
        (p_if [T_VACUUM] parseVacuum
        (p_refuse ''statement''))))))))))
        (\<lambda>inner. p_return (ExplainStmt mode inner))))"

text \<open>The body of a WITH that is not a SELECT is parsed by \<open>Parse\<close> itself, the parameter.\<close>

definition parseCteBody :: "grammar \<Rightarrow> stmt pm \<Rightarrow> stmt pm" where
  "parseCteBody g parse = p_if [T_SELECT] (g_select g) parse"

definition parse_cte :: "nat \<Rightarrow> grammar \<Rightarrow> stmt pm \<Rightarrow> (string \<times> string list \<times> stmt) pm" where
  "parse_cte n g parse =
     p_bind p_ident (\<lambda>name. p_bind (paren_idents n) (\<lambda>cols.
       p_then (p_accept T_AS) (p_then (p_accept T_LPAREN)
        (p_bind (parseCteBody g parse) (\<lambda>q. p_then (p_accept T_RPAREN) (p_return (name, cols, q)))))))"

definition parseWith :: "nat \<Rightarrow> grammar \<Rightarrow> stmt pm \<Rightarrow> stmt pm" where
  "parseWith n g parse =
     p_then p_advance
      (p_bind (p_word ''RECURSIVE'' (p_return True) (p_return False)) (\<lambda>rec.
       p_bind (sep_list n (parse_cte n g parse)) (\<lambda>ctes.
       p_bind (g_select g) (\<lambda>inner. p_return (WithStmt rec ctes inner)))))"

text \<open>The dispatch of \<open>Parse\<close>. ROLLBACK without TO yields no statement and no error, and stays unread.\<close>

definition statement :: "nat \<Rightarrow> grammar \<Rightarrow> stmt pm \<Rightarrow> stmt pm" where
  "statement n g parse =
     p_if [T_SELECT] (g_select g)
    (p_if [T_INSERT] (parseInsert n g)
    (p_if [T_UPDATE] (parseUpdate n g)
    (p_if [T_DELETE] (parseDelete n g)
    (p_if [T_CREATE] (create_stmt n g True)
    (p_if [T_DROP] drop_stmt
    (p_if [T_EXPLAIN] (parseExplain n n g)
    (p_if [T_ANALYZE] parseAnalyze
    (p_if [T_VACUUM] parseVacuum
    (p_if [T_PRAGMA] parsePragma
    (p_if [T_WITH] (parseWith n g parse)
    (p_if [T_SAVEPOINT] parseSavepoint
    (p_if [T_RELEASE] parseReleaseSavepoint
    (p_if [T_ROLLBACK] (p_bind p_peek (\<lambda>nx. if nx = T_TO then parseRollbackTo else p_return SNil))
    (p_if [T_SET] parseSet
    (p_if [T_ALTER] (parseAlterTable n g)
    (\<lambda>p. (if at_word ''REPLACE'' p
          then p_bind p_peek (\<lambda>nx. if nx = T_INTO then parseReplace n g else p_refuse [])
          else p_refuse []) p))))))))))))))))"

definition at_end :: "stmt \<Rightarrow> stmt pm" where
  "at_end st = p_if [T_EOF] (p_return st) (p_refuse [])"

primrec Parse :: "nat \<Rightarrow> nat \<Rightarrow> grammar \<Rightarrow> stmt pm" where
  "Parse 0 n g = p_no_fuel"
| "Parse (Suc k) n g =
     p_then p_reset (p_then p_advance (p_bind (statement n g (\<lambda>p. Parse k n g p)) at_end))"

definition parse_fuel :: "string \<Rightarrow> nat" where
  "parse_fuel s = 4 * length s + 4"

definition parse_text :: "string \<Rightarrow> stmt parsed" where
  "parse_text s = (let n = parse_fuel s in Parse n n (parsers n) (NewParser s))"

end
