(* ===== verification/Sql_Parser_Total.thy ===== *)
theory Sql_Parser_Total
  imports Sql_Statements
begin

text \<open>
  The parser always ends. \<open>left\<close> is what a state of the parser has still to read: the bytes after the current
  token, and the token itself. A step is \<open>steady\<close> up to a size when, from every state of at most that size,
  it does not run out of fuel and does not grow, and \<open>eager\<close> when it also makes the state smaller.
\<close>

named_theorems steps "steady and eager steps"

definition left :: "parser \<Rightarrow> nat" where
  "left p = lx_left (ps_lex p) + (if p_type p = T_EOF then 0 else 1)"

definition steady :: "nat \<Rightarrow> 'a pm \<Rightarrow> bool" where
  "steady d f \<longleftrightarrow> (\<forall>p. left p \<le> d \<longrightarrow> f p \<noteq> NoFuel \<and> (\<forall>a p'. f p = Parsed a p' \<longrightarrow> left p' \<le> left p))"

definition eager :: "nat \<Rightarrow> 'a pm \<Rightarrow> bool" where
  "eager d f \<longleftrightarrow> (\<forall>p. left p \<le> d \<longrightarrow> f p \<noteq> NoFuel \<and> (\<forall>a p'. f p = Parsed a p' \<longrightarrow> left p' < left p))"

lemma steadyI: "(\<And>p. left p \<le> d \<Longrightarrow> f p \<noteq> NoFuel) \<Longrightarrow>
    (\<And>p a p'. left p \<le> d \<Longrightarrow> f p = Parsed a p' \<Longrightarrow> left p' \<le> left p) \<Longrightarrow> steady d f"
  by (simp add: steady_def)

lemma eager_steady: "eager d f \<Longrightarrow> steady d f"
  by (fastforce simp: steady_def eager_def)

lemma steady_less: "steady d f \<Longrightarrow> d' \<le> d \<Longrightarrow> steady d' f"
  by (simp add: steady_def)

lemma eager_less: "eager d f \<Longrightarrow> d' \<le> d \<Longrightarrow> eager d' f"
  by (simp add: eager_def)

subsection \<open>Combinators\<close>

lemma bind_cases: "p_bind f g p = (case f p of Parsed a p' \<Rightarrow> g a p' | Refused e \<Rightarrow> Refused e | Crashed \<Rightarrow> Crashed | NoFuel \<Rightarrow> NoFuel)"
  by (simp add: p_bind_def)

lemma steady_bind: "steady d f \<Longrightarrow> (\<And>a. steady d (g a)) \<Longrightarrow> steady d (p_bind f g)"
proof -
  assume f: "steady d f" and g: "\<And>a. steady d (g a)"
  have "p_bind f g p \<noteq> NoFuel \<and> (\<forall>a p'. p_bind f g p = Parsed a p' \<longrightarrow> left p' \<le> left p)" if "left p \<le> d" for p
  proof (cases "f p")
    case (Parsed a q)
    then have q: "left q \<le> left p" using f that by (simp add: steady_def)
    then have "g a q \<noteq> NoFuel \<and> (\<forall>b p'. g a q = Parsed b p' \<longrightarrow> left p' \<le> left q)"
      using g [of a] that by (simp add: steady_def)
    then show ?thesis using Parsed q by (auto simp: bind_cases)
  next
    case NoFuel
    then show ?thesis using f that by (simp add: steady_def)
  qed (simp_all add: bind_cases)
  then show ?thesis by (simp add: steady_def)
qed

lemma eager_bind_first: "eager d f \<Longrightarrow> (\<And>a. 0 < d \<Longrightarrow> steady (d - 1) (g a)) \<Longrightarrow> eager d (p_bind f g)"
proof -
  assume f: "eager d f" and g: "\<And>a. 0 < d \<Longrightarrow> steady (d - 1) (g a)"
  have "p_bind f g p \<noteq> NoFuel \<and> (\<forall>a p'. p_bind f g p = Parsed a p' \<longrightarrow> left p' < left p)" if "left p \<le> d" for p
  proof (cases "f p")
    case (Parsed a q)
    then have "left q < left p" using f that by (simp add: eager_def)
    moreover from this that have "0 < d" "left q \<le> d - 1" by simp_all
    moreover from calculation have "g a q \<noteq> NoFuel \<and> (\<forall>b p'. g a q = Parsed b p' \<longrightarrow> left p' \<le> left q)"
      using g [of a] by (simp add: steady_def)
    ultimately show ?thesis using Parsed by (auto simp: bind_cases)
  next
    case NoFuel
    then show ?thesis using f that by (simp add: eager_def)
  qed (simp_all add: bind_cases)
  then show ?thesis by (simp add: eager_def)
qed

lemma eager_bind_then: "steady d f \<Longrightarrow> (\<And>a. eager d (g a)) \<Longrightarrow> eager d (p_bind f g)"
proof -
  assume f: "steady d f" and g: "\<And>a. eager d (g a)"
  have "p_bind f g p \<noteq> NoFuel \<and> (\<forall>a p'. p_bind f g p = Parsed a p' \<longrightarrow> left p' < left p)" if "left p \<le> d" for p
  proof (cases "f p")
    case (Parsed a q)
    then have "left q \<le> left p" using f that by (simp add: steady_def)
    then have "g a q \<noteq> NoFuel \<and> (\<forall>b p'. g a q = Parsed b p' \<longrightarrow> left p' < left q)"
      using g [of a] that by (simp add: eager_def)
    then show ?thesis using Parsed \<open>left q \<le> left p\<close> by (auto simp: bind_cases)
  next
    case NoFuel
    then show ?thesis using f that by (simp add: steady_def)
  qed (simp_all add: bind_cases)
  then show ?thesis by (simp add: eager_def)
qed

lemma steady_return [steps]: "steady d (p_return a)"
  and steady_fail [steps]: "steady d (p_fail e)" and eager_fail [steps]: "eager d (p_fail e)"
  and steady_crash [steps]: "steady d p_crash" and eager_crash [steps]: "eager d p_crash"
  and steady_refuse [steps]: "steady d (p_refuse s)" and eager_refuse [steps]: "eager d (p_refuse s)"
  and steady_expect [steps]: "steady d (p_expect t)"
  and steady_reset [steps]: "steady d p_reset"
  by (auto simp: steady_def eager_def p_return_def p_fail_def p_crash_def p_refuse_def p_expect_def p_reset_def left_def)

lemma advance_left: "p_advance p = Parsed () p' \<Longrightarrow> (p_type p \<noteq> T_EOF \<longrightarrow> left p' < left p) \<and> left p' \<le> left p"
proof -
  assume "p_advance p = Parsed () p'"
  then obtain t l where n: "lx_next (ps_lex p) = (t, l)" and p': "p' = p\<lparr>ps_current := t, ps_lex := l\<rparr>"
    by (auto simp: p_advance_def Let_def split: prod.splits)
  have "lx_left l \<le> lx_left (ps_lex p)"
    using next_consumes [OF n] le_left [of "ps_lex p" l] le_left [OF lx_skip_le, of "ps_lex p"]
    by (auto simp: lx_less_def split: if_splits)
  moreover have "tk_type t \<noteq> T_EOF \<Longrightarrow> lx_left l < lx_left (ps_lex p)"
    using next_left [OF n] by simp
  ultimately show ?thesis using p' by (auto simp: left_def)
qed

lemma advance_Parsed: "\<exists>p'. p_advance p = Parsed () p'"
  by (simp add: p_advance_def Let_def split: prod.splits)

lemma steady_advance [steps]: "steady d p_advance"
proof (rule steadyI)
  fix p show "p_advance p \<noteq> NoFuel" using advance_Parsed [of p] by auto
next
  fix p a p' assume "p_advance p = Parsed a p'"
  then show "left p' \<le> left p" using advance_left by simp
qed

lemma left_0: "left p = 0 \<Longrightarrow> p_type p = T_EOF"
  by (simp add: left_def split: if_splits)

text \<open>A test of the current token, then \<open>advance()\<close>: the branch may rely on a smaller state.\<close>

lemma advance_then:
  assumes "p_type p \<noteq> T_EOF" "left p \<le> d" "0 < d \<Longrightarrow> steady (d - 1) f"
  shows "p_then p_advance f p \<noteq> NoFuel \<and> (\<forall>a p'. p_then p_advance f p = Parsed a p' \<longrightarrow> left p' < left p)"
proof -
  obtain q where q: "p_advance p = Parsed () q" using advance_Parsed by blast
  have l: "left q < left p" using advance_left [OF q] assms(1) by simp
  then have "0 < d" "left q \<le> d - 1" using assms(2) by simp_all
  then have "f q \<noteq> NoFuel \<and> (\<forall>b p'. f q = Parsed b p' \<longrightarrow> left p' \<le> left q)"
    using assms(3) by (simp add: steady_def)
  then show ?thesis using q l by (auto simp: p_then_def bind_cases)
qed

lemma steady_on: "\<not> P T_EOF \<Longrightarrow> (\<And>t. P (tk_type t) \<Longrightarrow> 0 < d \<Longrightarrow> steady (d - 1) (f t)) \<Longrightarrow> steady d g \<Longrightarrow> steady d (p_on P f g)"
  unfolding steady_def [of d "p_on P f g"]
proof (intro allI impI)
  fix p assume P: "\<not> P T_EOF" and f: "\<And>t. P (tk_type t) \<Longrightarrow> 0 < d \<Longrightarrow> steady (d - 1) (f t)" and g: "steady d g" and l: "left p \<le> d"
  show "p_on P f g p \<noteq> NoFuel \<and> (\<forall>a p'. p_on P f g p = Parsed a p' \<longrightarrow> left p' \<le> left p)"
  proof (cases "P (p_type p)")
    case True
    then have "p_type p \<noteq> T_EOF" using P by metis
    then show ?thesis using advance_then [of p d "f (ps_current p)"] f [of "ps_current p"] True l
      by (auto simp: p_on_def intro: less_imp_le)
  next
    case False
    then show ?thesis using g l by (simp add: p_on_def steady_def)
  qed
qed

lemma eager_on: "\<not> P T_EOF \<Longrightarrow> (\<And>t. P (tk_type t) \<Longrightarrow> 0 < d \<Longrightarrow> steady (d - 1) (f t)) \<Longrightarrow> eager d g \<Longrightarrow> eager d (p_on P f g)"
  unfolding eager_def [of d "p_on P f g"]
proof (intro allI impI)
  fix p assume P: "\<not> P T_EOF" and f: "\<And>t. P (tk_type t) \<Longrightarrow> 0 < d \<Longrightarrow> steady (d - 1) (f t)" and g: "eager d g" and l: "left p \<le> d"
  show "p_on P f g p \<noteq> NoFuel \<and> (\<forall>a p'. p_on P f g p = Parsed a p' \<longrightarrow> left p' < left p)"
  proof (cases "P (p_type p)")
    case True
    then have "p_type p \<noteq> T_EOF" using P by metis
    then show ?thesis using advance_then [of p d "f (ps_current p)"] f [of "ps_current p"] True l
      by (auto simp: p_on_def intro: less_imp_le)
  next
    case False
    then show ?thesis using g l by (simp add: p_on_def eager_def)
  qed
qed

lemma steady_then: "steady d f \<Longrightarrow> steady d g \<Longrightarrow> steady d (p_then f g)"
  by (simp add: p_then_def steady_bind)

lemma eager_then_first: "eager d f \<Longrightarrow> (0 < d \<Longrightarrow> steady (d - 1) g) \<Longrightarrow> eager d (p_then f g)"
  by (simp add: p_then_def eager_bind_first)

lemma eager_then_second: "steady d f \<Longrightarrow> eager d g \<Longrightarrow> eager d (p_then f g)"
  by (simp add: p_then_def eager_bind_then)

lemma steady_case: "T_EOF \<notin> set ts \<Longrightarrow> (\<And>t. 0 < d \<Longrightarrow> steady (d - 1) (f t)) \<Longrightarrow> steady d g \<Longrightarrow> steady d (p_case ts f g)"
  by (simp add: p_case_def steady_on)

lemma eager_case: "T_EOF \<notin> set ts \<Longrightarrow> (\<And>t. 0 < d \<Longrightarrow> steady (d - 1) (f t)) \<Longrightarrow> eager d g \<Longrightarrow> eager d (p_case ts f g)"
  by (simp add: p_case_def eager_on)

lemma steady_when: "t \<noteq> T_EOF \<Longrightarrow> (0 < d \<Longrightarrow> steady (d - 1) f) \<Longrightarrow> steady d g \<Longrightarrow> steady d (p_when t f g)"
  by (simp add: p_when_def steady_case)

lemma eager_when: "t \<noteq> T_EOF \<Longrightarrow> (0 < d \<Longrightarrow> steady (d - 1) f) \<Longrightarrow> eager d g \<Longrightarrow> eager d (p_when t f g)"
  by (simp add: p_when_def eager_case)

lemma steady_if: "steady d f \<Longrightarrow> steady d g \<Longrightarrow> steady d (p_if ts f g)"
  by (simp add: steady_def p_if_def)

lemma eager_if: "eager d f \<Longrightarrow> eager d g \<Longrightarrow> eager d (p_if ts f g)"
  by (simp add: eager_def p_if_def)

lemma steady_If: "(b \<Longrightarrow> steady d f) \<Longrightarrow> (\<not> b \<Longrightarrow> steady d g) \<Longrightarrow> steady d (if b then f else g)"
  by simp

lemma eager_If: "(b \<Longrightarrow> eager d f) \<Longrightarrow> (\<not> b \<Longrightarrow> eager d g) \<Longrightarrow> eager d (if b then f else g)"
  by simp

lemma steady_skip [steps]: "t \<noteq> T_EOF \<Longrightarrow> steady d (p_skip t)"
  by (simp add: p_skip_def steady_when steady_return)

lemma eager_token: "t \<noteq> T_EOF \<Longrightarrow> eager d (p_token t)"
proof -
  assume t: "t \<noteq> T_EOF"
  have "p_token t p \<noteq> NoFuel \<and> (\<forall>a p'. p_token t p = Parsed a p' \<longrightarrow> left p' < left p)" for p
  proof (cases "p_type p = t")
    case True
    then have "p_token t p = p_then p_advance (p_return (ps_current p)) p"
      by (simp add: p_token_def p_expect_def p_then_def bind_cases)
    then show ?thesis
      using advance_then [OF _ order_refl steady_return, of p "ps_current p"] True t by auto
  qed (simp add: p_token_def p_expect_def p_then_def bind_cases p_refuse_def)
  then show ?thesis by (simp add: eager_def)
qed

lemma eager_accept: "t \<noteq> T_EOF \<Longrightarrow> eager d (p_accept t)"
  by (simp add: p_accept_def eager_then_first eager_token steady_return)

lemma eager_ident [steps]: "eager d p_ident"
  by (simp add: p_ident_def eager_bind_first eager_token steady_return)

lemma steady_peek [steps]: "steady d p_peek"
  and steady_peek2 [steps]: "steady d p_peek2"
proof -
  show "steady d p_peek"
    by (auto simp: steady_def p_peek_def Let_def left_def lx_left_def dest!: Peek_stays split: prod.splits)
  show "steady d p_peek2"
    by (auto simp: steady_def p_peek2_def Let_def left_def lx_left_def dest!: Peek2_stays split: prod.splits)
qed

lemma eager_sep_list: "eager d item \<Longrightarrow> d < n \<Longrightarrow> eager d (sep_list n item)"
proof (induction n arbitrary: d)
  case (Suc n)
  have "eager (d - 1 - 1) (sep_list n item)" if "0 < d - 1"
    using Suc that by (intro Suc.IH) (auto intro: eager_less)
  then show ?case
    by (auto intro!: eager_bind_first steady_when steady_bind steady_return Suc.prems intro: eager_steady)
qed simp

subsection \<open>The grammar\<close>

text \<open>The three methods of the grammar are eager; what holds up to a size holds below it.\<close>

definition gok :: "nat \<Rightarrow> grammar \<Rightarrow> bool" where
  "gok d g \<longleftrightarrow> eager d (g_unary g) \<and> (\<forall>m. eager d (g_binary g m)) \<and> eager d (g_select g)"

named_theorems calm "rules for steady steps"
named_theorems keen "rules for eager steps"

lemma gok_less: "gok d g \<Longrightarrow> d' \<le> d \<Longrightarrow> gok d' g"
  by (auto simp: gok_def intro: eager_less)

lemma gok_unary [keen]: "gok d g \<Longrightarrow> eager d (g_unary g)"
  and gok_binary [keen]: "gok d g \<Longrightarrow> eager d (g_binary g m)"
  and gok_select [keen]: "gok d g \<Longrightarrow> eager d (g_select g)"
  and gok_expr [keen]: "gok d g \<Longrightarrow> eager d (parseExpr g)"
  by (simp_all add: gok_def parseExpr_def)

lemmas gok_steady [calm] = gok_unary [THEN eager_steady] gok_binary [THEN eager_steady]
  gok_select [THEN eager_steady] gok_expr [THEN eager_steady]

lemmas token_steady [calm] = eager_token [THEN eager_steady] eager_accept [THEN eager_steady] eager_ident [THEN eager_steady]
lemmas token_eager [keen] = eager_token eager_accept eager_ident

declare steps [calm] steps [keen]
declare steady_bind [calm] steady_then [calm] steady_case [calm] steady_when [calm] steady_if [calm] steady_If [calm]
declare eager_bind_first [keen] eager_then_first [keen] eager_case [keen] eager_when [keen] eager_if [keen] eager_If [keen]

lemma steady_opt_expr [calm]: "gok d g \<Longrightarrow> t \<noteq> T_EOF \<Longrightarrow> steady d (opt_expr t g)"
  by (auto simp: opt_expr_def intro!: calm intro: gok_less)

lemma eager_exprs [keen]: "gok d g \<Longrightarrow> d < n \<Longrightarrow> eager d (parse_exprs n g)"
  by (auto simp: parse_exprs_def intro: eager_sep_list gok_expr)

lemma steady_exprs [calm]: "gok d g \<Longrightarrow> d < n \<Longrightarrow> steady d (parse_exprs n g)"
  by (simp add: eager_exprs eager_steady)

lemma eager_subselect [keen]: "gok d g \<Longrightarrow> eager d (parse_subselect g)"
  by (auto simp: parse_subselect_def intro!: keen calm intro: gok_less)

lemmas steady_subselect [calm] = eager_subselect [THEN eager_steady]

lemma steady_int [calm]: "steady d p_int"
  unfolding p_int_def by (auto intro!: calm intro: gok_less) (simp add: steady_def p_fail_def)

lemma steady_type_size [calm]: "steady d parseTypeSize"
  unfolding parseTypeSize_def by (auto intro!: calm intro: gok_less)

lemma steady_type_precision [calm]: "steady d parseTypePrecision"
  unfolding parseTypePrecision_def by (auto intro!: calm intro: gok_less)

lemma eager_cast_type [keen]: "eager d parseCastType"
proof -
  have "eager d (\<lambda>p. p_fail (error_here [] (''type '' @ tokenName (p_type p)) p) p)"
    by (simp add: eager_def p_fail_def)
  then show ?thesis unfolding parseCastType_def by (auto intro!: keen calm intro: gok_less)
qed

lemmas steady_cast_type [calm] = eager_cast_type [THEN eager_steady]

lemma steady_cast [calm]: "gok d g \<Longrightarrow> steady d (parseCast g)"
  unfolding parseCast_def by (auto intro!: calm intro: gok_less)

lemma steady_direction [calm]: "steady d parse_direction"
  unfolding parse_direction_def by (auto intro!: calm)

lemma eager_order_items: "gok d g \<Longrightarrow> d < n \<Longrightarrow> eager d (parse_order_items n g)"
  unfolding parse_order_items_def by (auto intro!: eager_sep_list keen calm)

lemmas steady_order_items [calm] = eager_order_items [THEN eager_steady]

lemma steady_order_by [calm]: "gok d g \<Longrightarrow> d < n \<Longrightarrow> steady d (parse_order_by n g)"
  unfolding parse_order_by_def by (auto intro!: calm intro: gok_less)

lemma steady_frame_bound [calm]: "gok d g \<Longrightarrow> steady d (parseFrameBound g)"
  unfolding parseFrameBound_def Let_def by (auto intro!: calm intro: gok_less)

lemma steady_window_frame [calm]: "gok d g \<Longrightarrow> steady d (parseWindowFrame g ty)"
  unfolding parseWindowFrame_def by (auto intro!: calm intro: gok_less)

lemma steady_window_spec [calm]: "gok d g \<Longrightarrow> d < n \<Longrightarrow> steady d (parseWindowSpec n g)"
  unfolding parseWindowSpec_def by (auto intro!: calm intro: gok_less)

lemma steady_window_func [calm]: "gok d g \<Longrightarrow> d < n \<Longrightarrow> steady d (parseWindowFunc n g name args)"
  unfolding parseWindowFunc_def by (auto intro!: calm intro: gok_less)

lemma steady_window_builtin [calm]: "gok d g \<Longrightarrow> d < n \<Longrightarrow> steady d (parseWindowBuiltin n g t)"
  unfolding parseWindowBuiltin_def by (auto intro!: calm intro: gok_less)

lemma steady_when_loop [calm]: "gok d g \<Longrightarrow> d < n \<Longrightarrow> steady d (when_loop n g)"
proof (induction n arbitrary: d)
  case (Suc n)
  have "steady (d - 1) (when_loop n g)" if "0 < d"
    using that Suc.prems by (intro Suc.IH) (auto intro: gok_less)
  then show ?case using Suc.prems by (auto intro!: calm intro: gok_less)
qed simp

lemma steady_case_expr [calm]: "gok d g \<Longrightarrow> d < n \<Longrightarrow> steady d (parseCaseExpr n g)"
  unfolding parseCaseExpr_def by (auto intro!: calm intro: gok_less)

lemma steady_coalesce [calm]: "gok d g \<Longrightarrow> d < n \<Longrightarrow> steady d (parseCoalesce n g)"
  unfolding parseCoalesce_def by (auto intro!: calm intro: gok_less)

lemma steady_nullif [calm]: "gok d g \<Longrightarrow> steady d (parseNullif g)"
  unfolding parseNullif_def nullif_args_def by (auto intro!: calm intro: gok_less)

lemma steady_exists [calm]: "gok d g \<Longrightarrow> steady d (parseExists g)"
  unfolding parseExists_def by (auto intro!: calm intro: gok_less)

lemma steady_string_lit [calm]: "steady d (string_lit t)"
  unfolding string_lit_def by (auto intro!: calm split: literal.split)

lemma steady_int_lit [calm]: "steady d (int_lit t)"
  unfolding int_lit_def by (auto intro!: calm split: literal.split)

lemma steady_at: "(\<And>p. \<exists>f. steady d f \<and> h p = f p) \<Longrightarrow> steady d h"
  unfolding steady_def by metis

lemma steady_Refused: "steady d (\<lambda>p. Refused (e p))"
  by (simp add: steady_def)

lemma steady_unit [calm]: "steady d parse_unit"
proof (rule steady_at)
  fix p :: parser
  show "\<exists>f. steady d f \<and> parse_unit p = f p"
    using steady_Refused [of d "\<lambda>p. error_here [] (ascii_upper (tk_lexeme (ps_current p))) p"]
      steady_then [OF steady_advance steady_return, of d "ascii_upper (tk_lexeme (ps_current p))"]
    by (cases "ascii_upper (tk_lexeme (ps_current p)) \<in> set interval_units")
       (auto simp: parse_unit_def Let_def)
qed

lemma steady_interval [calm]: "steady d parseInterval"
  unfolding parseInterval_def by (auto intro!: calm)

lemma steady_distinct [calm]: "steady d parse_distinct"
  unfolding parse_distinct_def by (auto intro!: calm)

lemma steady_aggregate [calm]: "gok d g \<Longrightarrow> d < n \<Longrightarrow> steady d (parse_aggregate n g name)"
  unfolding parse_aggregate_def by (auto intro!: calm intro: gok_less)

lemma steady_min_max [calm]: "gok d g \<Longrightarrow> d < n \<Longrightarrow> steady d (parse_min_max n g name)"
  unfolding parse_min_max_def by (auto intro!: calm intro: gok_less split: list.split)

lemma steady_call [calm]: "gok d g \<Longrightarrow> d < n \<Longrightarrow> steady d (parse_call n g name)"
  unfolding parse_call_def by (auto intro!: calm intro: gok_less)

lemma steady_name [calm]: "gok d g \<Longrightarrow> d < n \<Longrightarrow> steady d (parse_name n g name)"
  unfolding parse_name_def by (auto intro!: calm intro: gok_less)

lemma steady_paren [calm]: "gok d g \<Longrightarrow> steady d (parse_paren g)"
  unfolding parse_paren_def by (auto intro!: calm intro: gok_less)

lemma steady_param [calm]: "steady d next_param"
  by (simp add: steady_def next_param_def left_def)

lemma eager_primary: "(0 < d \<Longrightarrow> gok (d - 1) g) \<Longrightarrow> d \<le> n \<Longrightarrow> eager d (parsePrimary n g)"
  unfolding parsePrimary_def
  by (intro eager_case eager_when eager_refuse) (auto intro!: calm)

lemma steady_negated [calm]: "steady d f \<Longrightarrow> steady d (negated f)"
  unfolding negated_def by (auto intro!: calm)

lemma steady_between [calm]: "gok d g \<Longrightarrow> steady d (parseBetween g e)"
  unfolding parseBetween_def by (auto intro!: calm intro: gok_less)

lemma steady_in_body [calm]: "gok d g \<Longrightarrow> d < n \<Longrightarrow> steady d (parseInBody n g e)"
  unfolding parseInBody_def by (auto intro!: calm intro: gok_less)

lemma steady_not_like [calm]: "gok d g \<Longrightarrow> steady d (parseNotLike g e)"
  unfolding parseNotLike_def by (auto intro!: calm intro: gok_less)

lemma steady_not [calm]: "gok d g \<Longrightarrow> d < n \<Longrightarrow> steady d (parse_not n g e)"
  unfolding parse_not_def by (auto intro!: calm intro: gok_less)

lemma eager_postfix: "(0 < d \<Longrightarrow> gok (d - 1) g) \<Longrightarrow> d \<le> n \<Longrightarrow> eager d (parsePostfix n g)"
  unfolding parsePostfix_def by (intro eager_bind_first eager_primary) (auto intro!: calm intro: gok_less)

lemma eager_unary: "(0 < d \<Longrightarrow> gok (d - 1) g) \<Longrightarrow> d \<le> n \<Longrightarrow> eager d (parseUnary n g)"
  unfolding parseUnary_def by (intro eager_case eager_postfix) (auto intro!: calm)

lemma steady_binary_loop [calm]: "gok d g \<Longrightarrow> d < n \<Longrightarrow> steady d (binary_loop n g m l)"
proof (induction n arbitrary: d l)
  case (Suc n)
  have "steady (d - 1) (binary_loop n g m l')" if "0 < d" for l'
    using that Suc.prems by (intro Suc.IH) (auto intro: gok_less)
  then show ?case using Suc.prems
    by (auto intro!: calm steady_on simp: isBinaryOp_def intro: gok_less)
qed simp

lemma eager_binary: "eager d (g_unary g) \<Longrightarrow> (0 < d \<Longrightarrow> gok (d - 1) g) \<Longrightarrow> d \<le> n \<Longrightarrow> eager d (parseBinary n g m)"
  unfolding parseBinary_def by (intro eager_bind_first) (auto intro!: calm)

subsection \<open>SELECT\<close>

lemma eager_select_item: "(\<And>m. eager d (g_binary g m)) \<Longrightarrow> eager d (select_item g)"
  unfolding select_item_def parseExpr_def by (intro eager_bind_first) (auto intro!: calm)

lemma eager_select_items: "(\<And>m. eager d (g_binary g m)) \<Longrightarrow> d < n \<Longrightarrow> eager d (select_items n g)"
  unfolding select_items_def by (intro eager_when eager_sep_list eager_select_item) (auto intro!: calm)

lemma steady_opt_ident [calm]: "steady d opt_ident"
  unfolding opt_ident_def by (auto intro!: calm)

lemma steady_set_pending [calm]: "steady d (set_pending s)"
  and steady_get_pending [calm]: "steady d get_pending"
  and steady_add_join [calm]: "steady d (add_join t)"
  and steady_take_joins [calm]: "steady d take_joins"
  by (simp_all add: steady_def set_pending_def get_pending_def add_join_def take_joins_def left_def)

lemma steady_from [calm]: "gok d g \<Longrightarrow> steady d (parse_from g)"
  unfolding parse_from_def by (auto intro!: calm intro: gok_less)

lemma steady_comma_loop [calm]: "d < n \<Longrightarrow> steady d (comma_loop n)"
proof (induction n arbitrary: d)
  case (Suc n)
  have "steady (d - 1) (comma_loop n)" if "0 < d" using that Suc.prems by (intro Suc.IH) auto
  then show ?case by (auto intro!: calm)
qed simp

lemma steady_join_loop [calm]: "gok d g \<Longrightarrow> d < n \<Longrightarrow> steady d (join_loop n g js)"
proof (induction n arbitrary: d js)
  case (Suc n)
  have "steady (d - 1) (join_loop n g js')" if "0 < d" for js'
    using that Suc.prems by (intro Suc.IH) (auto intro: gok_less)
  then show ?case using Suc.prems by (auto intro!: calm intro: gok_less)
qed simp

lemma steady_group_by [calm]: "gok d g \<Longrightarrow> d < n \<Longrightarrow> steady d (parse_group_by n g)"
  unfolding parse_group_by_def by (auto intro!: calm intro: gok_less)

lemma steady_alias [calm]: "steady d parse_alias"
  unfolding parse_alias_def by (auto intro!: calm)

text \<open>The word SELECT itself is consumed by \<open>advance()\<close> without a test, so \<open>parseOneSelect\<close> is eager for
  its first column only.\<close>

lemma eager_one_select:
  assumes "\<And>m. eager d (g_binary g m)" "0 < d \<Longrightarrow> gok (d - 1) g" "d < n"
  shows "eager d (parseOneSelect n g)"
  unfolding parseOneSelect_def
  by (rule eager_then_second [OF steady_set_pending eager_then_second [OF steady_advance
        eager_bind_then [OF steady_distinct eager_bind_first [OF eager_select_items [OF assms(1,3)]]]]])
     (use assms in \<open>auto intro!: calm intro: gok_less\<close>)

lemma steady_one_select [calm]: "gok d g \<Longrightarrow> d < n \<Longrightarrow> steady d (parseOneSelect n g)"
  by (rule eager_steady [OF eager_one_select]) (auto intro: gok_less keen)

lemma steady_intersect_loop [calm]: "gok d g \<Longrightarrow> d < n \<Longrightarrow> d < m \<Longrightarrow> steady d (intersect_loop n m g l)"
proof (induction n arbitrary: d l)
  case (Suc n)
  have "steady (d - 1) (intersect_loop n m g l')" if "0 < d" for l'
    using that Suc.prems by (intro Suc.IH) (auto intro: gok_less)
  then show ?case using Suc.prems by (auto intro!: calm intro: gok_less)
qed simp

lemma eager_intersect_chain:
  assumes "\<And>m. eager d (g_binary g m)" "0 < d \<Longrightarrow> gok (d - 1) g" "d < n"
  shows "eager d (parseIntersectChain n g)"
  unfolding parseIntersectChain_def
  by (rule eager_bind_first [OF eager_one_select [OF assms]]) (use assms in \<open>auto intro!: calm\<close>)

lemma steady_intersect_chain [calm]: "gok d g \<Longrightarrow> d < n \<Longrightarrow> steady d (parseIntersectChain n g)"
  unfolding parseIntersectChain_def by (auto intro!: calm)

lemma steady_union_op [calm]: "steady d (union_op t)"
  unfolding union_op_def by (auto intro!: calm)

lemma steady_union_loop [calm]: "gok d g \<Longrightarrow> d < n \<Longrightarrow> d < m \<Longrightarrow> steady d (union_loop n m g l)"
proof (induction n arbitrary: d l)
  case (Suc n)
  have "steady (d - 1) (union_loop n m g l')" if "0 < d" for l'
    using that Suc.prems by (intro Suc.IH) (auto intro: gok_less)
  then show ?case using Suc.prems by (auto intro!: calm intro: gok_less)
qed simp

lemma steady_trailing [calm]: "gok d g \<Longrightarrow> d < n \<Longrightarrow> steady d (parseTrailingClauses n g)"
  unfolding parseTrailingClauses_def by (auto intro!: calm intro: gok_less)

lemma eager_parse_select:
  assumes "\<And>m. eager d (g_binary g m)" "0 < d \<Longrightarrow> gok (d - 1) g" "d < n"
  shows "eager d (parseSelect n g)"
  unfolding parseSelect_def
  by (rule eager_bind_first [OF eager_bind_first [OF eager_intersect_chain [OF assms]]])
     (use assms in \<open>auto intro!: calm\<close>)

subsection \<open>The knot\<close>

lemma parsers_eager:
  "(3 * d + 1 \<le> n \<longrightarrow> eager d (g_unary (parsers n))) \<and>
   (3 * d + 2 \<le> n \<longrightarrow> (\<forall>m. eager d (g_binary (parsers n) m))) \<and>
   (3 * d + 3 \<le> n \<longrightarrow> eager d (g_select (parsers n)))"
proof (induction n arbitrary: d)
  case (Suc n)
  have below: "gok (d - 1) (parsers n)" if "3 * d \<le> n" "0 < d"
  proof -
    have "3 * (d - 1) + 3 \<le> n" using that by simp
    then show ?thesis using Suc.IH [of "d - 1"] by (simp add: gok_def)
  qed
  have "eager d (g_unary (parsers (Suc n)))" if "3 * d + 1 \<le> Suc n"
    using that below by (auto simp: Let_def intro!: eager_unary)
  moreover have "eager d (g_binary (parsers (Suc n)) m)" if "3 * d + 2 \<le> Suc n" for m
    using that below Suc.IH [of d] by (auto simp: Let_def intro!: eager_binary)
  moreover have "eager d (g_select (parsers (Suc n)))" if "3 * d + 3 \<le> Suc n"
    using that below Suc.IH [of d] by (auto simp: Let_def intro!: eager_parse_select)
  ultimately show ?case by blast
qed simp

lemma parsers_gok: "3 * d + 3 \<le> n \<Longrightarrow> gok d (parsers n)"
  using parsers_eager [of d n] by (simp add: gok_def)

subsection \<open>Statements\<close>

lemma eager_ident_list: "d < n \<Longrightarrow> eager d (ident_list n)"
  unfolding ident_list_def by (auto intro: eager_sep_list eager_ident)

lemmas steady_ident_list [calm] = eager_ident_list [THEN eager_steady]

lemma steady_paren_idents [calm]: "d < n \<Longrightarrow> steady d (paren_idents n)"
  unfolding paren_idents_def by (auto intro!: calm)

lemma steady_returning [calm]: "gok d g \<Longrightarrow> d < n \<Longrightarrow> steady d (parseReturning n g)"
  unfolding parseReturning_def by (auto intro!: calm intro: gok_less)

lemma eager_set_item: "gok d g \<Longrightarrow> eager d (set_item g)"
  unfolding set_item_def by (auto intro!: keen calm intro: gok_less)

lemma eager_set_list: "gok d g \<Longrightarrow> d < n \<Longrightarrow> eager d (sep_list n (set_item g))"
  by (simp add: eager_sep_list eager_set_item)

lemmas steady_set_list [calm] = eager_set_list [THEN eager_steady]

lemma steady_on_conflict [calm]: "gok d g \<Longrightarrow> d < n \<Longrightarrow> steady d (parseOnConflict n g)"
  unfolding parseOnConflict_def by (auto intro!: calm intro: gok_less)

lemma steady_opt_conflict [calm]: "gok d g \<Longrightarrow> d < n \<Longrightarrow> steady d (opt_conflict n g)"
  unfolding opt_conflict_def by (auto intro!: calm intro: gok_less)

lemma eager_values_row: "gok d g \<Longrightarrow> d < n \<Longrightarrow> eager d (values_row n g)"
  unfolding values_row_def by (auto intro!: keen calm intro: gok_less)

lemma eager_values: "gok d g \<Longrightarrow> d < n \<Longrightarrow> eager d (sep_list n (values_row n g))"
  by (simp add: eager_sep_list eager_values_row)

lemmas steady_values [calm] = eager_values [THEN eager_steady]

lemma eager_insert_tail: "gok d g \<Longrightarrow> d < n \<Longrightarrow> eager d (parseInsertTail n g a)"
  unfolding parseInsertTail_def by (auto intro!: keen calm intro: gok_less)

lemmas steady_insert_tail [calm] = eager_insert_tail [THEN eager_steady]

lemma steady_insert_action [calm]: "steady d insert_action"
proof (rule steady_at)
  fix p :: parser
  have "steady d (p_then p_advance (p_return a))" for a :: conflict_action
    by (auto intro!: calm)
  then show "\<exists>f. steady d f \<and> insert_action p = f p"
    using steady_Refused [of d "\<lambda>q. ErrText (''expected ROLLBACK/ABORT/FAIL/IGNORE/REPLACE after INSERT OR, got '' @
      tk_lexeme (ps_current p))"]
    by (cases "map_of conflict_actions (ascii_upper (tk_lexeme (ps_current p)))") (auto simp: insert_action_def Let_def)
qed

lemma eager_insert: "gok d g \<Longrightarrow> d < n \<Longrightarrow> eager d (parseInsert n g)"
  unfolding parseInsert_def
  by (rule eager_then_second [OF steady_advance eager_bind_then])
     (auto intro!: calm keen intro: gok_less)

lemma eager_replace: "gok d g \<Longrightarrow> d < n \<Longrightarrow> eager d (parseReplace n g)"
  unfolding parseReplace_def
  by (rule eager_then_second [OF steady_advance])
     (auto intro!: calm keen intro: gok_less)

lemma eager_update: "gok d g \<Longrightarrow> d < n \<Longrightarrow> eager d (parseUpdate n g)"
  unfolding parseUpdate_def
  by (rule eager_then_second [OF steady_advance]) (auto intro!: calm keen intro: gok_less)

lemma eager_delete: "gok d g \<Longrightarrow> d < n \<Longrightarrow> eager d (parseDelete n g)"
  unfolding parseDelete_def
  by (rule eager_then_second [OF steady_advance]) (auto intro!: calm keen intro: gok_less)

lemma steady_fk_action [calm]: "steady d parseFKAction"
  unfolding parseFKAction_def by (auto intro!: calm)

lemma steady_fk_actions [calm]: "d < n \<Longrightarrow> steady d (fk_actions n acts)"
proof (induction n arbitrary: d acts)
  case (Suc n)
  have "steady d' (fk_actions n (x, y))" if "d' < n" for d' x y using that by (rule Suc.IH)
  then show ?case using Suc.prems by (cases acts) (auto intro!: calm)
qed simp

lemma steady_word [calm]: "steady d f \<Longrightarrow> steady d g \<Longrightarrow> steady d (p_word w f g)"
proof (rule steady_at)
  fix p assume fg: "steady d f" "steady d g"
  have "steady d (p_then p_advance f)" using fg by (auto intro!: calm)
  then show "\<exists>h. steady d h \<and> p_word w f g p = h p" using fg by (cases "at_word w p") (auto simp: p_word_def)
qed

lemma steady_col_constraint:
  "gok d g \<Longrightarrow> (\<And>d' c'. d' < d \<Longrightarrow> steady d' (loop c')) \<Longrightarrow> steady d (col_constraint g c loop)"
  unfolding col_constraint_def by (auto intro!: calm intro: gok_less)

lemma steady_if_peek:
  assumes "T_EOF \<notin> set ts" "0 < d \<Longrightarrow> steady (d - 1) f" "steady d g"
  shows "steady d (p_if ts (p_bind p_peek (\<lambda>nx. if nx = k then p_then p_advance f else g)) g)"
proof (rule steady_at)
  fix p
  show "\<exists>h. steady d h \<and> p_if ts (p_bind p_peek (\<lambda>nx. if nx = k then p_then p_advance f else g)) g p = h p"
  proof (cases "p_type p \<in> set ts")
    case True
    have "steady d (p_bind p_peek (\<lambda>nx. if nx = k then p_case ts (\<lambda>t. f) g else g))"
      using assms by (auto intro!: calm)
    moreover have "p_then p_advance f q = p_case ts (\<lambda>t. f) g q" if "p_type q = p_type p" for q
      using True that by (simp add: p_case_def p_on_def)
    then have "p_bind p_peek (\<lambda>nx. if nx = k then p_then p_advance f else g) p =
        p_bind p_peek (\<lambda>nx. if nx = k then p_case ts (\<lambda>t. f) g else g) p"
      by (auto simp: bind_cases p_peek_def Let_def split: prod.split)
    ultimately show ?thesis using True by (auto simp: p_if_def)
  next
    case False
    then show ?thesis using assms(3) by (auto simp: p_if_def)
  qed
qed

lemma steady_col_constraints [calm]: "gok d g \<Longrightarrow> d < n \<Longrightarrow> steady d (col_constraints n g c)"
proof (induction n arbitrary: d c)
  case (Suc n)
  have ih: "steady d' (col_constraints n g c')" if "d' < d" for d' c'
    using that Suc.prems by (intro Suc.IH) (auto intro: gok_less)
  have "steady d (p_if [T_PRIMARY]
       (p_bind p_peek (\<lambda>nx.
          if nx = T_KEY then
            p_then p_advance (p_then p_advance (p_if [T_LPAREN] (p_return c) (col_constraints n g (set_pk c))))
          else col_constraint g c (col_constraints n g)))
       (col_constraint g c (col_constraints n g)))"
    by (rule steady_if_peek) (use Suc.prems ih in \<open>auto intro!: calm steady_col_constraint\<close>)
  then show ?case by (simp add: steady_def)
qed simp

lemma steady_virtual_word [calm]: "steady d virtual_word"
  unfolding virtual_word_def by (auto intro!: calm)

lemma steady_generated [calm]: "gok d g \<Longrightarrow> steady d (col_generated g c)"
  unfolding col_generated_def by (auto intro!: calm intro: gok_less)

lemma steady_references [calm]: "d < n \<Longrightarrow> steady d (col_references n c)"
  unfolding col_references_def by (auto intro!: calm)

lemma eager_column: "gok d g \<Longrightarrow> d < n \<Longrightarrow> eager d (parse_column n g)"
  unfolding parse_column_def by (auto intro!: keen calm intro: gok_less)

lemmas steady_column [calm] = eager_column [THEN eager_steady]

lemma steady_col_list [calm]: "gok d g \<Longrightarrow> d < n \<Longrightarrow> d < m \<Longrightarrow> steady d (col_list n m g)"
proof (induction n arbitrary: d)
  case (Suc n)
  have "steady (d - 1) (col_list n m g)" if "0 < d"
    using that Suc.prems by (intro Suc.IH) (auto intro: gok_less)
  then show ?case using Suc.prems by (auto intro!: calm)
qed simp

lemma steady_foreign [calm]: "d < n \<Longrightarrow> steady d (parse_foreign n names)"
  unfolding parse_foreign_def by (auto intro!: calm)

lemma steady_table_key [calm]: "d < n \<Longrightarrow> steady d (table_key n t ks)"
  unfolding table_key_def by (cases ks) (auto intro!: calm)

lemma steady_key_loop [calm]: "d < n \<Longrightarrow> d < m \<Longrightarrow> steady d (key_loop n m ks)"
proof (induction n arbitrary: d ks)
  case (Suc n)
  have "steady (d - 1) (key_loop n m (x, y, z))" if "0 < d" for x y z
    using that Suc.prems by (intro Suc.IH) auto
  then show ?case using Suc.prems by (auto intro!: calm)
qed simp

lemma steady_create_table [calm]: "gok d g \<Longrightarrow> d < n \<Longrightarrow> steady d (parseCreateTable n g)"
  unfolding parseCreateTable_def by (auto intro!: calm)

lemma steady_drop_table [calm]: "steady d parseDropTable"
  unfolding parseDropTable_def by (auto intro!: calm)

lemma steady_create_index [calm]: "d < n \<Longrightarrow> steady d (parseCreateIndex n)"
  unfolding parseCreateIndex_def by (auto intro!: calm)

lemma steady_drop_index [calm]: "steady d parseDropIndex"
  unfolding parseDropIndex_def by (auto intro!: calm)

lemma steady_create_view [calm]: "gok d g \<Longrightarrow> steady d (parseCreateView g)"
  unfolding parseCreateView_def by (auto intro!: calm)

lemma steady_alter_constraints [calm]: "gok d g \<Longrightarrow> d < n \<Longrightarrow> steady d (alter_constraints n g c)"
proof (induction n arbitrary: d c)
  case (Suc n)
  have ih: "steady d' (alter_constraints n g c')" if "d' < d" for d' c'
    using that Suc.prems by (intro Suc.IH) (auto intro: gok_less)
  have "steady d (p_when T_NOT (p_when T_NULL (alter_constraints n g (set_nullable False c)) (p_refuse []))
    (p_when T_NOTNULL (alter_constraints n g (set_nullable False c))
    (p_when T_DEFAULT (p_bind (parseExpr g) (\<lambda>e. alter_constraints n g (set_default e c)))
    (p_return c))))"
    using Suc.prems ih by (auto intro!: calm intro: gok_less)
  then show ?case by (simp add: steady_def)
qed simp

lemma steady_alter_table [calm]: "gok d g \<Longrightarrow> d < n \<Longrightarrow> steady d (parseAlterTable n g)"
  unfolding parseAlterTable_def by (auto intro!: calm intro: gok_less)

lemma steady_short [calm]:
  "steady d parseAnalyze" "steady d parseVacuum" "steady d parsePragma" "steady d parseSavepoint"
  "steady d parseReleaseSavepoint" "steady d parseRollbackTo" "steady d parseSet"
  unfolding parseAnalyze_def parseVacuum_def parsePragma_def parseSavepoint_def parseReleaseSavepoint_def
    parseRollbackTo_def parseSet_def isolation_level_def
  by (auto intro!: calm)

lemma steady_skip_to [calm]: "T_EOF \<in> set ts \<Longrightarrow> d < n \<Longrightarrow> steady d (skip_to n ts)"
proof (induction n arbitrary: d)
  case (Suc n)
  have "steady (d - 1) (skip_to n ts)" if "0 < d" using that Suc.prems by (intro Suc.IH) auto
  then show ?case using Suc.prems by (auto intro!: calm steady_on)
qed simp

lemmas steady_writes [calm] = eager_insert [THEN eager_steady] eager_update [THEN eager_steady]
  eager_delete [THEN eager_steady] eager_replace [THEN eager_steady]

lemma steady_body_stmt [calm]: "gok d g \<Longrightarrow> d < n \<Longrightarrow> steady d (parseTriggerBodyStmt n g)"
  unfolding parseTriggerBodyStmt_def by (auto intro!: calm)

text \<open>A statement of a trigger's body consumes something unless it starts at a semicolon, END or the end
  of the text; this is why the loop over the body ends.\<close>

lemma body_stmt_eager:
  assumes "gok d g" "d < n" "left p \<le> d" "p_type p \<notin> {T_END, T_EOF, T_SEMICOLON}"
  shows "parseTriggerBodyStmt n g p \<noteq> NoFuel \<and> (\<forall>a p'. parseTriggerBodyStmt n g p = Parsed a p' \<longrightarrow> left p' < left p)"
proof -
  let ?skip = "p_then (skip_to n [T_SEMICOLON, T_END, T_EOF]) (p_return SNil)"
  let ?other = "p_case [p_type p] (\<lambda>t. p_then (skip_to (n - 1) [T_SEMICOLON, T_END, T_EOF]) (p_return SNil)) (p_refuse [])"
  have e: "eager d ?other"
    using assms by (intro eager_case) (auto intro!: calm keen)
  have o: "?skip p = ?other p"
    using assms by (cases n) (simp_all add: p_then_def bind_cases p_case_def p_on_def split: parsed.split)
  define h where "h = p_if [T_SELECT] (g_select g) (p_if [T_INSERT] (parseInsert n g) (p_if [T_UPDATE] (parseUpdate n g)
    (p_if [T_DELETE] (parseDelete n g) ?other)))"
  have "eager d h"
    unfolding h_def using assms(1,2) e by (intro eager_if gok_select eager_insert eager_update eager_delete)
  moreover have "parseTriggerBodyStmt n g p = h p"
    using o by (simp add: h_def parseTriggerBodyStmt_def p_if_def)
  ultimately show ?thesis using assms(3) by (simp add: eager_def)
qed

lemma steady_trigger_body [calm]: "gok d g \<Longrightarrow> d < n \<Longrightarrow> d < m \<Longrightarrow> steady d (trigger_body n m g)"
proof (induction n arbitrary: d)
  case (Suc n)
  have ih: "steady d' (trigger_body n m g)" if "d' < d" for d'
    using that Suc.prems by (intro Suc.IH) (auto intro: gok_less)
  have semi: "steady d (p_when T_SEMICOLON (trigger_body n m g) (p_return []))"
    using ih by (auto intro!: calm)
  have "trigger_body (Suc n) m g p \<noteq> NoFuel \<and> (\<forall>a p'. trigger_body (Suc n) m g p = Parsed a p' \<longrightarrow> left p' \<le> left p)"
    if l: "left p \<le> d" for p
  proof -
    consider "p_type p \<in> {T_END, T_EOF}" | "p_type p = T_SEMICOLON" | "p_type p \<notin> {T_END, T_EOF, T_SEMICOLON}" by blast
    then show ?thesis
    proof cases
      case 1
      then show ?thesis by (auto simp: p_if_def p_return_def)
    next
      case 2
      then have "trigger_body (Suc n) m g p = p_when T_SEMICOLON (trigger_body n m g) (p_return []) p"
        by (simp add: p_if_def p_when_def p_case_def p_on_def)
      then show ?thesis using semi l by (simp add: steady_def)
    next
      case 3
      let ?tail = "\<lambda>s. p_bind (trigger_body n m g) (\<lambda>ss. p_return (if s = SNil then ss else s # ss))"
      have t: "trigger_body (Suc n) m g p = p_bind (parseTriggerBodyStmt m g) ?tail p"
        using 3 by (simp add: p_if_def p_when_def p_case_def p_on_def)
      show ?thesis
      proof (cases "parseTriggerBodyStmt m g p")
        case (Parsed s q)
        have q: "left q < left p" using body_stmt_eager [OF Suc.prems(1,3) l 3] Parsed by simp
        have "steady (left q) (?tail s)" using ih q l by (auto intro!: calm)
        then have "?tail s q \<noteq> NoFuel \<and> (\<forall>b p'. ?tail s q = Parsed b p' \<longrightarrow> left p' \<le> left q)"
          by (simp add: steady_def)
        then show ?thesis using t Parsed q by (auto simp: bind_cases)
      next
        case NoFuel
        then show ?thesis using body_stmt_eager [OF Suc.prems(1,3) l 3] by simp
      qed (simp_all add: t bind_cases del: trigger_body.simps)
    qed
  qed
  then show ?case by (simp add: steady_def)
qed simp

lemma steady_trigger_event [calm]: "d < n \<Longrightarrow> steady d (trigger_event n)"
  unfolding trigger_event_def by (auto intro!: calm) (simp add: steady_def)

lemma steady_create_trigger [calm]: "gok d g \<Longrightarrow> d < n \<Longrightarrow> steady d (parseCreateTrigger n g)"
  unfolding parseCreateTrigger_def trigger_time_def by (auto intro!: calm intro: gok_less)

lemma steady_create_stmt [calm]: "gok d g \<Longrightarrow> d < n \<Longrightarrow> steady d (create_stmt n g b)"
  unfolding create_stmt_def by (auto intro!: calm)

lemma steady_drop_stmt [calm]: "steady d drop_stmt"
  unfolding drop_stmt_def by (auto intro!: calm)

lemma steady_explain_mode [calm]: "steady d explain_mode_of"
  unfolding explain_mode_of_def by (auto intro!: calm)

lemma eager_explain: "gok d g \<Longrightarrow> d < n \<Longrightarrow> d < k \<Longrightarrow> p_type p = T_EXPLAIN \<Longrightarrow> left p \<le> d \<Longrightarrow>
   parseExplain k n g p \<noteq> NoFuel \<and> (\<forall>a p'. parseExplain k n g p = Parsed a p' \<longrightarrow> left p' < left p)"
proof (induction k arbitrary: d p)
  case (Suc k)
  let ?inner = "p_if [T_SELECT] (g_select g)
        (p_if [T_INSERT] (parseInsert n g)
        (p_if [T_UPDATE] (parseUpdate n g)
        (p_if [T_DELETE] (parseDelete n g)
        (p_if [T_CREATE] (create_stmt n g False)
        (p_if [T_DROP] drop_stmt
        (p_if [T_EXPLAIN] (parseExplain k n g)
        (p_if [T_ANALYZE] parseAnalyze
        (p_if [T_VACUUM] parseVacuum
        (p_refuse ''statement'')))))))))"
  have ex: "steady (d - 1) (p_if [T_EXPLAIN] (parseExplain k n g) f)" if f: "steady (d - 1) f" and d: "0 < d" for f
  proof -
    have "p_if [T_EXPLAIN] (parseExplain k n g) f q \<noteq> NoFuel \<and>
        (\<forall>a q'. p_if [T_EXPLAIN] (parseExplain k n g) f q = Parsed a q' \<longrightarrow> left q' \<le> left q)" if "left q \<le> d - 1" for q
    proof (cases "p_type q = T_EXPLAIN")
      case True
      have "gok (d - 1) g" "d - 1 < n" "d - 1 < k" using Suc.prems d by (auto intro: gok_less)
      then show ?thesis using Suc.IH [of "d - 1" q] True that by (auto simp: p_if_def intro: less_imp_le)
    next
      case False
      then show ?thesis using f that by (auto simp: p_if_def steady_def)
    qed
    then show ?thesis by (simp add: steady_def)
  qed
  have "steady (d - 1) ?inner" if d: "0 < d"
  proof -
    have g: "gok (d - 1) g" "d - 1 < n" using d Suc.prems(1,2) by (auto intro: gok_less)
    show ?thesis
      by (intro steady_if [of _ "g_select g"] steady_if [of _ "parseInsert n g"] steady_if [of _ "parseUpdate n g"]
          steady_if [of _ "parseDelete n g"] steady_if [of _ "create_stmt n g False"] steady_if [of _ drop_stmt]
          ex [OF _ d] steady_if [of _ parseAnalyze] steady_if [of _ parseVacuum] calm g)
  qed
  then have st: "0 < d \<Longrightarrow> steady (d - 1) (p_bind explain_mode_of (\<lambda>mode. p_bind ?inner (\<lambda>inner. p_return (ExplainStmt mode inner))))"
    by (auto intro!: calm)
  have "p_type p \<noteq> T_EOF" using Suc.prems(4) by simp
  from advance_then [OF this Suc.prems(5) st] show ?case unfolding parseExplain.simps .
qed simp

lemma eager_cte: "gok d g \<Longrightarrow> d < n \<Longrightarrow> (0 < d \<Longrightarrow> steady (d - 1) parse) \<Longrightarrow> eager d (parse_cte n g parse)"
  unfolding parse_cte_def parseCteBody_def by (auto intro!: keen calm intro: gok_less steady_less)

lemma steady_with [calm]: "gok d g \<Longrightarrow> d < n \<Longrightarrow> (0 < d \<Longrightarrow> steady (d - 1) parse) \<Longrightarrow> steady d (parseWith n g parse)"
  unfolding parseWith_def
  by (auto intro!: calm eager_steady [OF eager_sep_list] eager_cte intro: gok_less)

lemma steady_statement:
  assumes "gok d g" "d < n" "0 < d \<Longrightarrow> steady (d - 1) parse"
  shows "steady d (statement n g parse)"
proof -
  have ex: "steady d (p_if [T_EXPLAIN] (parseExplain n n g) f)" if "steady d f" for f
    using eager_explain [OF assms(1,2,2)] that
    by (auto simp: steady_def p_if_def intro: less_imp_le)
  have rep: "steady d (\<lambda>p. (if at_word ''REPLACE'' p
          then p_bind p_peek (\<lambda>nx. if nx = T_INTO then parseReplace n g else p_refuse [])
          else p_refuse []) p)"
  proof (rule steady_at)
    fix p
    have "steady d (p_bind p_peek (\<lambda>nx. if nx = T_INTO then parseReplace n g else p_refuse []))" "steady d (p_refuse [])"
      using assms(1,2) by (auto intro!: calm)
    then show "\<exists>f. steady d f \<and> (if at_word ''REPLACE'' p
          then p_bind p_peek (\<lambda>nx. if nx = T_INTO then parseReplace n g else p_refuse [])
          else p_refuse []) p = f p" by (cases "at_word ''REPLACE'' p") auto
  qed
  show ?thesis
    unfolding statement_def
    by (intro steady_if [of _ "g_select g"] steady_if [of _ "parseInsert n g"] steady_if [of _ "parseUpdate n g"]
        steady_if [of _ "parseDelete n g"] steady_if [of _ "create_stmt n g True"] steady_if [of _ drop_stmt] ex)
       (use assms rep in \<open>auto intro!: calm\<close>)
qed

lemma steady_Parse: "gok d g \<Longrightarrow> d < n \<Longrightarrow> d < k \<Longrightarrow> steady d (Parse k n g)"
proof (induction k arbitrary: d)
  case (Suc k)
  have "steady (d - 1) (\<lambda>p. Parse k n g p)" if "0 < d"
    using that Suc.prems by (intro Suc.IH) (auto intro: gok_less)
  then have "steady d (statement n g (\<lambda>p. Parse k n g p))" using Suc.prems by (intro steady_statement) auto
  moreover have "steady d (at_end st)" for st unfolding at_end_def by (auto intro!: calm)
  ultimately show ?case by (auto intro!: calm)
qed simp

text \<open>C21. Parsing ends on every text: the fuel that \<open>parse_text\<close> computes from its length, four units for each
  byte and four more, is never used up, however the parser's methods recurse and loop. This covers every statement,
  nested subqueries, lists, triggers and WITH, and texts that are refused.\<close>

theorem parser_terminates:
  "parse_text s \<noteq> NoFuel"
proof -
  have "left (NewParser s) = length s"
    by (simp add: left_def NewParser_def lx_left_def NewLexer_def)
  moreover have "gok (length s) (parsers (parse_fuel s))" by (rule parsers_gok) (simp add: parse_fuel_def)
  then have "steady (length s) (Parse (parse_fuel s) (parse_fuel s) (parsers (parse_fuel s)))"
    by (rule steady_Parse) (simp_all add: parse_fuel_def)
  ultimately show ?thesis by (simp add: steady_def parse_text_def Let_def)
qed

end
