(* ===== verification/Sql_Format.thy ===== *)
theory Sql_Format
  imports Sql_Ast
begin

text \<open>
  The printer of statements (\<open>SQL/RE/format.go\<close>). The argument \<open>ff\<close> is \<open>fmt.Sprintf("%f", x)\<close>.
\<close>

subsection \<open>Expressions\<close>

definition typeName :: "int \<Rightarrow> string" where
  "typeName t =
     (if t = T_INT_KW then ''INTEGER''
      else if t = T_BIGINT then ''BIGINT''
      else if t = T_FLOAT_KW then ''FLOAT''
      else if t = T_BOOL then ''BOOLEAN''
      else if t = T_TEXT then ''TEXT''
      else if t = T_BLOB then ''BLOB''
      else if t = T_VARCHAR then ''VARCHAR''
      else if t = T_TIMESTAMP then ''TIMESTAMP''
      else ''TEXT'')"

definition op_strings :: "(int \<times> string) list" where
  "op_strings =
     [(T_EQ, ''=''), (T_NE, ''<>''), (T_LT, ''<''), (T_LE, ''<=''), (T_GT, ''>''), (T_GE, ''>=''),
      (T_PLUS, ''+''), (T_MINUS, ''-''), (T_STAR, ''*''), (T_SLASH, ''/''), (T_AND, ''AND''), (T_OR, ''OR''),
      (T_NOT, ''NOT''), (T_IN, ''IN''), (T_BETWEEN, ''BETWEEN''), (T_LIKE, ''LIKE''), (T_IS, ''IS'')]"

definition opString :: "int \<Rightarrow> string" where
  "opString op = (case map_of op_strings op of Some s \<Rightarrow> s | None \<Rightarrow> ''?'')"

fun join_comma :: "string list \<Rightarrow> string" where
  "join_comma [] = []"
| "join_comma [x] = x"
| "join_comma (x # xs) = x @ '', '' @ join_comma xs"

fun exprString :: "(f64 \<Rightarrow> string) \<Rightarrow> expr \<Rightarrow> string" where
  "exprString ff (NumberLiteral n) = FormatInt n"
| "exprString ff (FloatLiteral f) = ff f"
| "exprString ff (StringLiteral s) = CHR 0x27 # s @ [CHR 0x27]"
| "exprString ff (BoolLiteral b) = (if b then ''TRUE'' else ''FALSE'')"
| "exprString ff NullLiteral = ''NULL''"
| "exprString ff (Ident x) = x"
| "exprString ff (AliasedExpr e a) = exprString ff e @ '' AS '' @ a"
| "exprString ff (Param i) = ''?''"
| "exprString ff StarExpr = ''*''"
| "exprString ff (BinaryExpr op l r) = ''('' @ exprString ff l @ '' '' @ opString op @ '' '' @ exprString ff r @ '')''"
| "exprString ff (UnaryExpr op e) =
     (if opString op \<in> set [''NOT'', ''AND'', ''OR''] then opString op @ '' '' @ exprString ff e
      else opString op @ exprString ff e)"
| "exprString ff (FunctionCall name args) = name @ ''('' @ join_comma (map (exprString ff) args) @ '')''"
| "exprString ff (AggregateFunc name arg d) = name @ ''('' @ exprString ff arg @ '')''"
| "exprString ff (CastExpr e ty) =
     ''CAST('' @ exprString ff e @ '' AS '' @ (case ty of None \<Rightarrow> ''UNKNOWN'' | Some ti \<Rightarrow> typeName (ti_type ti)) @ '')''"
| "exprString ff (ListExpr es) = ''('' @ join_comma (map (exprString ff) es) @ '')''"
| "exprString ff (BetweenExpr e lo hi) = exprString ff e @ '' BETWEEN '' @ exprString ff lo @ '' AND '' @ exprString ff hi"
| "exprString ff (CaseExpr e ws els) =
     ''CASE'' @ (if e \<noteq> ENil then '' '' @ exprString ff e else []) @
     concat (map (\<lambda>w. '' WHEN '' @ exprString ff (fst w) @ '' THEN '' @ exprString ff (snd w)) ws) @
     (if els \<noteq> ENil then '' ELSE '' @ exprString ff els else []) @ '' END''"
| "exprString ff e = ''?''"

subsection \<open>Statements\<close>

definition order_item :: "(f64 \<Rightarrow> string) \<Rightarrow> expr \<times> bool \<Rightarrow> string" where
  "order_item ff it = exprString ff (fst it) @ (if snd it then '' DESC'' else [])"

definition clause :: "(f64 \<Rightarrow> string) \<Rightarrow> string \<Rightarrow> expr \<Rightarrow> string" where
  "clause ff kw e = (if e \<noteq> ENil then kw @ exprString ff e else [])"

definition formatSelect :: "(f64 \<Rightarrow> string) \<Rightarrow> (expr, stmt) select \<Rightarrow> string" where
  "formatSelect ff s =
     ''SELECT '' @ (if sel_distinct s then ''DISTINCT '' else []) @
     (if sel_cols s = [] then ''*'' else join_comma (map (exprString ff) (sel_cols s))) @
     (if sel_from s \<noteq> [] then '' FROM '' @ sel_from s @
        (if sel_from_alias s \<noteq> [] then '' AS '' @ sel_from_alias s else []) else []) @
     clause ff '' WHERE '' (sel_where s) @
     (if sel_order_by s \<noteq> [] then '' ORDER BY '' @ join_comma (map (order_item ff) (sel_order_by s)) else []) @
     clause ff '' LIMIT '' (sel_limit s) @ clause ff '' OFFSET '' (sel_offset s)"

definition values_string :: "(f64 \<Rightarrow> string) \<Rightarrow> expr list \<Rightarrow> string" where
  "values_string ff row = ''('' @ join_comma (map (exprString ff) row) @ '')''"

definition formatInsert :: "(f64 \<Rightarrow> string) \<Rightarrow> string \<Rightarrow> string list \<Rightarrow> expr list list \<Rightarrow> string" where
  "formatInsert ff table cols rows =
     ''INSERT INTO '' @ table @ (if cols \<noteq> [] then '' ('' @ join_comma cols @ '')'' else []) @
     '' VALUES '' @ join_comma (map (values_string ff) rows)"

definition set_string :: "(f64 \<Rightarrow> string) \<Rightarrow> string \<times> expr \<Rightarrow> string" where
  "set_string ff cv = fst cv @ '' = '' @ exprString ff (snd cv)"

definition formatUpdate :: "(f64 \<Rightarrow> string) \<Rightarrow> string \<Rightarrow> (string \<times> expr) list \<Rightarrow> expr \<Rightarrow> string" where
  "formatUpdate ff table sets wh =
     ''UPDATE '' @ table @ '' SET '' @ join_comma (map (set_string ff) sets) @ clause ff '' WHERE '' wh"

definition formatDelete :: "(f64 \<Rightarrow> string) \<Rightarrow> string \<Rightarrow> expr \<Rightarrow> string" where
  "formatDelete ff table wh = ''DELETE FROM '' @ table @ clause ff '' WHERE '' wh"

definition column_string :: "expr col_def \<Rightarrow> string" where
  "column_string c =
     cd_name c @ '' '' @ typeName (cd_type c) @ (if cd_pk c then '' PRIMARY KEY'' else []) @
     (if \<not> cd_nullable c then '' NOT NULL'' else [])"

definition formatCreateTable :: "string \<Rightarrow> expr col_def list \<Rightarrow> string" where
  "formatCreateTable name cols = ''CREATE TABLE '' @ name @ '' ('' @ join_comma (map column_string cols) @ '')''"

definition compound_string :: "compound_op \<Rightarrow> string" where
  "compound_string op = (case op of CompoundUnion \<Rightarrow> '' UNION '' | CompoundUnionAll \<Rightarrow> '' UNION ALL ''
     | CompoundIntersect \<Rightarrow> '' INTERSECT '' | CompoundExcept \<Rightarrow> '' EXCEPT '')"

definition compound_item :: "(f64 \<Rightarrow> string) \<Rightarrow> expr \<times> bool \<Rightarrow> string" where
  "compound_item ff it = exprString ff (fst it) @ '' '' @ (if snd it then ''DESC'' else ''ASC'')"

text \<open>\<open>None\<close> is the error \<open>re: unknown statement type\<close>; a body or a query that has it prints as nothing.\<close>

fun Format :: "(f64 \<Rightarrow> string) \<Rightarrow> stmt \<Rightarrow> string option" where
  "Format ff (Select s) = Some (formatSelect ff s)"
| "Format ff (CompoundStmt l op r os lim off) =
     (case Format ff l of None \<Rightarrow> None | Some ls \<Rightarrow>
      (case Format ff r of None \<Rightarrow> None | Some rs \<Rightarrow>
       Some (ls @ compound_string op @ rs @
         (if os \<noteq> [] then '' ORDER BY '' @ join_comma (map (compound_item ff) os) else []) @
         clause ff '' LIMIT '' lim @ clause ff '' OFFSET '' off)))"
| "Format ff (Insert t cs vs ret oc ca) = Some (formatInsert ff t cs vs)"
| "Format ff (Update t sets w ret) = Some (formatUpdate ff t sets w)"
| "Format ff (Delete t w ret) = Some (formatDelete ff t w)"
| "Format ff (CreateTable n cs pk uq fk) = Some (formatCreateTable n cs)"
| "Format ff (DropTable n) = Some (''DROP TABLE '' @ n)"
| "Format ff (TriggerStmt name time event table fe body ine wh cols) =
     Some (''CREATE TRIGGER '' @ name @ '' '' @ time @ '' '' @ event @ '' ON '' @ table @ '' BEGIN'' @ [CHR 0x0A] @
       concat (map (\<lambda>s. (case Format ff s of Some t \<Rightarrow> t | None \<Rightarrow> []) @ '';'' @ [CHR 0x0A]) body) @ ''END'')"
| "Format ff (WithStmt rec ctes inner) =
     Some (''WITH '' @ (if rec then ''RECURSIVE '' else []) @
       join_comma (map (\<lambda>c. fst c @ (if fst (snd c) \<noteq> [] then ''('' @ join_comma (fst (snd c)) @ '')'' else []) @
         '' AS ('' @ (case Format ff (snd (snd c)) of Some t \<Rightarrow> t | None \<Rightarrow> []) @ '')'') ctes) @ '' '' @
       (case Format ff inner of Some t \<Rightarrow> t | None \<Rightarrow> []))"
| "Format ff (AlterTableStmt table action col nc) = Some (''ALTER TABLE '' @ table @ '' '' @ action)"
| "Format ff st = None"

end
