(* ===== verification/Sql_Roundtrip.thy ===== *)
theory Sql_Roundtrip
  imports Sql_Format Sql_Parser_Total
begin

text \<open>
  The round trip of the printer for expressions: a calculus for the parser's steps on a printed text, and the
  expressions that are read back.
\<close>

subsection \<open>Tokens of a text\<close>

text \<open>\<open>lexes txt t w v r\<close>: wherever a lexer stands before \<open>txt\<close>, \<open>Next\<close> returns a token of type \<open>t\<close>, lexeme \<open>w\<close>
  and literal \<open>v\<close>, and leaves \<open>r\<close>. \<open>reads txt p\<close>: the current token of the parser is the first one of \<open>txt\<close>.\<close>

definition lexes :: "string \<Rightarrow> int \<Rightarrow> string \<Rightarrow> literal \<Rightarrow> string \<Rightarrow> bool" where
  "lexes txt t w v r \<longleftrightarrow> (\<forall>l. lx_rest l = txt \<longrightarrow> (\<exists>m l'. lx_next l = (tok t w v m, l') \<and> lx_rest l' = r))"

definition reads :: "string \<Rightarrow> parser \<Rightarrow> bool" where
  "reads txt p \<longleftrightarrow> (\<exists>l. lx_rest l = txt \<and> lx_next l = (ps_current p, ps_lex p))"

definition nxt :: "parser \<Rightarrow> parser" where
  "nxt p = p\<lparr>ps_current := fst (lx_next (ps_lex p)), ps_lex := snd (lx_next (ps_lex p))\<rparr>"

definition frame :: "parser \<Rightarrow> int \<times> string list \<times> stmt \<times> string" where
  "frame p = (ps_param p, ps_joins p, ps_subquery p, ps_subquery_alias p)"

definition boundary :: "string \<Rightarrow> bool" where
  "boundary r \<longleftrightarrow> (case r of [] \<Rightarrow> True | c # _ \<Rightarrow> \<not> ident_char c \<and> c \<noteq> CHR ''.'' \<and> c \<noteq> CHR 0x27)"

lemma reads_token:
  assumes "reads txt p" "lexes txt t w v r"
  shows "p_type p = t" "tk_lexeme (ps_current p) = w" "tk_lit (ps_current p) = v" "reads r (nxt p)"
proof -
  obtain l where l: "lx_rest l = txt" "lx_next l = (ps_current p, ps_lex p)" using assms(1) by (auto simp: reads_def)
  obtain m l' where "lx_next l = (tok t w v m, l')" "lx_rest l' = r" using assms(2) l(1) by (auto simp: lexes_def)
  then have c: "ps_current p = tok t w v m" "lx_rest (ps_lex p) = r" using l(2) by simp_all
  show "p_type p = t" "tk_lexeme (ps_current p) = w" "tk_lit (ps_current p) = v" using c(1) by simp_all
  show "reads r (nxt p)" unfolding reads_def nxt_def using c(2) by (intro exI [of _ "ps_lex p"]) simp
qed

lemma frame_nxt [simp]: "frame (nxt p) = frame p"
  by (simp add: frame_def nxt_def)

lemma lexes_unique: "lexes txt t w v r \<Longrightarrow> lexes txt t' w' v' r' \<Longrightarrow> t' = t"
proof -
  assume a: "lexes txt t w v r" "lexes txt t' w' v' r'"
  have l: "lx_rest (NewLexer txt) = txt" by simp
  obtain m l' where "lx_next (NewLexer txt) = (tok t w v m, l')" using a(1) l unfolding lexes_def by blast
  moreover obtain m' l'' where "lx_next (NewLexer txt) = (tok t' w' v' m', l'')" using a(2) l unfolding lexes_def by blast
  ultimately have "tok t w v m = tok t' w' v' m'" by simp
  then show ?thesis by (metis tok_type)
qed

lemma lexes_end: "lexes [] T_EOF [] LNil []"
proof -
  have "lx_next l = (tok T_EOF [] LNil l, l)" if "lx_rest l = []" for l
  proof -
    have "lx_skip l = l" using that by (simp add: skip_skipped lx_skipped_def)
    then show ?thesis using that by (simp add: lx_next_def rest_empty)
  qed
  then show ?thesis unfolding lexes_def by blast
qed

lemma lexes_space: "lexes r t w v r' \<Longrightarrow> lexes (CHR '' '' # r) t w v r'"
proof -
  assume a: "lexes r t w v r'"
  have "lx_next l = lx_next (adv l)" if "lx_rest l = CHR '' '' # r" for l
    using skip_space [OF that] by (simp add: lx_next_def is_space_def ch_def)
  then show ?thesis using a adv_Cons unfolding lexes_def by metis
qed

lemma lexes_word:
  assumes "is_letter c \<or> c = CHR ''_''" "list_all ident_char w" "boundary r"
  shows "lexes (c # w @ r) (case map_of lx_keywords (ascii_upper (c # w)) of Some t \<Rightarrow> t | None \<Rightarrow> T_IDENT) (c # w) LNil r"
  unfolding lexes_def
proof (intro allI impI)
  fix l assume l: "lx_rest l = c # w @ r"
  have "\<And>d. d \<in> set w \<Longrightarrow> ident_char d" using assms(2) by (simp add: list_all_iff)
  moreover have "\<And>d r'. r = d # r' \<Longrightarrow> \<not> ident_char d" using assms(3) by (simp add: boundary_def)
  ultimately show "\<exists>m l'. lx_next l = (tok (case map_of lx_keywords (ascii_upper (c # w)) of Some t \<Rightarrow> t | None \<Rightarrow> T_IDENT)
      (c # w) LNil m, l') \<and> lx_rest l' = r"
    using next_word [OF assms(1) _ l] by blast
qed

lemma lexes_number: "0 \<le> i \<Longrightarrow> i \<le> max_int64 \<Longrightarrow> boundary r \<Longrightarrow> lexes (FormatInt i @ r) T_INT (FormatInt i) (LInt i) r"
  unfolding lexes_def
proof (intro allI impI)
  fix l assume i: "0 \<le> i" "i \<le> max_int64" "boundary r" and l: "lx_rest l = FormatInt i @ r"
  have f: "FormatInt i = nat_str (nat i)" using i(1) by (simp add: FormatInt_def)
  have "\<And>c r'. r = c # r' \<Longrightarrow> \<not> is_digit c \<and> c \<noteq> CHR ''.''"
    using i(3) by (auto simp: boundary_def ident_char_def)
  then show "\<exists>m l'. lx_next l = (tok T_INT (FormatInt i) (LInt i) m, l') \<and> lx_rest l' = r"
    using next_number [of "nat i" l r] i l f by auto
qed

lemma lexes_string:
  assumes "NUL \<notin> set s" "CHR 0x27 \<notin> set s" "boundary r"
  shows "lexes (CHR 0x27 # s @ CHR 0x27 # r) T_STRING s (LStr s) r"
  unfolding lexes_def
proof (intro allI impI)
  fix l assume l: "lx_rest l = CHR 0x27 # s @ CHR 0x27 # r"
  have "double_quotes s = s" using assms(2) by (induction s) auto
  then have "lx_rest l = sql_quote s @ r" using l by (simp add: sql_quote_def)
  moreover have "\<And>r'. r \<noteq> CHR 0x27 # r'" using assms(3) by (auto simp: boundary_def)
  ultimately show "\<exists>m l'. lx_next l = (tok T_STRING s (LStr s) m, l') \<and> lx_rest l' = r"
    using scanString_quote [OF assms(1)] by blast
qed

text \<open>Operators. A minus or slash must not begin a comment, a less-than or greater-than no longer operator.\<close>

lemma symbol_chars:
  "c \<in> set ''(),=+-*/<>'' \<Longrightarrow> \<not> is_letter c \<and> \<not> is_digit c \<and> \<not> is_space c \<and> c \<noteq> CHR ''_'' \<and> c \<noteq> CHR 0x27 \<and>
     c \<noteq> NUL \<and> c \<noteq> CHR ''!'' \<and> c \<noteq> CHR ''|''"
proof -
  have "list_all (\<lambda>c. \<not> is_letter c \<and> \<not> is_digit c \<and> \<not> is_space c \<and> c \<noteq> CHR ''_'' \<and> c \<noteq> CHR 0x27 \<and>
     c \<noteq> NUL \<and> c \<noteq> CHR ''!'' \<and> c \<noteq> CHR ''|'') ''(),=+-*/<>''" by code_simp
  then show "c \<in> set ''(),=+-*/<>'' \<Longrightarrow> ?thesis" by (simp only: list_all_iff) blast
qed

lemma operator_next:
  assumes "lx_rest l = c # r" "c \<in> set ''(),=+-*/<>''" "c \<in> set ''-/'' \<Longrightarrow> \<forall>d r'. r = d # r' \<longrightarrow> d \<notin> set ''-*''"
  shows "lx_next l = scanOperator l"
proof -
  have "lx_skipped l"
    using symbol_chars [OF assms(2)] assms(1,3) by (auto simp: lx_skipped_def split: list.splits)
  then show ?thesis
    using symbol_chars [OF assms(2)] assms(1) by (simp add: lx_next_def skip_skipped peek_Cons flip: rest_empty)
qed

lemma lexes_symbol:
  assumes "map_of one_char_ops c = Some t" "c \<in> set ''(),=+-*/''" "c \<in> set ''-/'' \<Longrightarrow> \<forall>d r'. r = d # r' \<longrightarrow> d \<notin> set ''-*''"
  shows "lexes (c # r) t [c] LNil r"
  unfolding lexes_def
proof (intro allI impI)
  fix l assume l: "lx_rest l = c # r"
  have c: "c \<in> set ''(),=+-*/<>''" "c \<noteq> CHR ''<''" "c \<noteq> CHR ''>''" using assms(2) by auto
  obtain l1 where l1: "lx_advance l = (c, l1)" "lx_rest l1 = r"
    using advance_Cons [OF l] adv_Cons [OF l] by blast
  have "scanOperator l = (tok t [c] LNil l, l1)"
    using assms(1) c symbol_chars [OF c(1)] l1 by (simp add: scanOperator_def)
  then show "\<exists>m l'. lx_next l = (tok t [c] LNil m, l') \<and> lx_rest l' = r"
    using operator_next [OF l c(1) assms(3)] l1 by (intro exI [of _ l] exI [of _ l1]) simp
qed

lemma lexes_less:
  assumes "\<forall>r'. r \<noteq> CHR ''='' # r'"
  shows "lexes (CHR ''<'' # r) T_LT ''<'' LNil r" "lexes (CHR ''>'' # r) T_GT ''>'' LNil r"
proof -
  have "\<exists>m l'. lx_next l = (tok (if c = CHR ''<'' then T_LT else T_GT) [c] LNil m, l') \<and> lx_rest l' = r"
    if l: "lx_rest l = c # r" and c: "c = CHR ''<'' \<or> c = CHR ''>''" for l c
  proof -
    have s: "c \<in> set ''(),=+-*/<>''" using c by auto
    obtain l1 where l1: "lx_advance l = (c, l1)" "lx_rest l1 = r"
      using advance_Cons [OF l] adv_Cons [OF l] by blast
    have "lx_peek l1 \<noteq> CHR ''=''" using assms l1(2) by (auto simp: peek_rest split: list.splits)
    then have "scanOperator l = (tok (if c = CHR ''<'' then T_LT else T_GT) [c] LNil l, l1)"
      using c l1 by (auto simp: scanOperator_def)
    then show ?thesis using operator_next [OF l s] c l1 by auto
  qed
  from this [of _ "CHR ''<''"] this [of _ "CHR ''>''"]
  show "lexes (CHR ''<'' # r) T_LT ''<'' LNil r" "lexes (CHR ''>'' # r) T_GT ''>'' LNil r"
    by (simp_all add: lexes_def)
qed

lemma lexes_two:
  "lexes (CHR ''<'' # CHR ''='' # r) T_LE ''<='' LNil r" "lexes (CHR ''>'' # CHR ''='' # r) T_GE ''>='' LNil r"
proof -
  have "\<exists>m l'. lx_next l = (tok (if c = CHR ''<'' then T_LE else T_GE) [c, CHR ''=''] LNil m, l') \<and> lx_rest l' = r"
    if l: "lx_rest l = c # CHR ''='' # r" and c: "c = CHR ''<'' \<or> c = CHR ''>''" for l c
  proof -
    have s: "c \<in> set ''(),=+-*/<>''" using c by auto
    obtain l1 where l1: "lx_advance l = (c, l1)" "lx_rest l1 = CHR ''='' # r"
      using advance_Cons [OF l] adv_Cons [OF l] by blast
    have "scanOperator l = (tok (if c = CHR ''<'' then T_LE else T_GE) [c, CHR ''=''] LNil l, adv l1)"
      using c l1 by (auto simp: scanOperator_def peek_Cons)
    then show ?thesis using operator_next [OF l s] c adv_Cons [OF l1(2)] by auto
  qed
  from this [of _ "CHR ''<''"] this [of _ "CHR ''>''"]
  show "lexes (CHR ''<'' # CHR ''='' # r) T_LE ''<='' LNil r" "lexes (CHR ''>'' # CHR ''='' # r) T_GE ''>='' LNil r"
    by (simp_all add: lexes_def)
qed

subsection \<open>Steps of the parser on a text\<close>

text \<open>\<open>gives f txt a E\<close>: before \<open>txt\<close> and then a rest that satisfies \<open>E\<close>, the step \<open>f\<close> returns \<open>a\<close> and stops
  before the rest.\<close>

definition gives :: "'a pm \<Rightarrow> string \<Rightarrow> 'a \<Rightarrow> (string \<Rightarrow> bool) \<Rightarrow> bool" where
  "gives f txt a E \<longleftrightarrow>
     (\<forall>r p. E r \<longrightarrow> reads (txt @ r) p \<longrightarrow> (\<exists>p'. f p = Parsed a p' \<and> reads r p' \<and> frame p' = frame p))"

definition starts :: "string \<Rightarrow> int \<Rightarrow> bool" where
  "starts txt t \<longleftrightarrow> (\<exists>w v r. lexes txt t w v r)"

named_theorems at "the parser's combinators at a known token"

lemma advance_at [at]: "p_advance p = Parsed () (nxt p)"
  by (simp add: p_advance_def nxt_def Let_def split: prod.split)

lemma return_at [at]: "p_return a p = Parsed a p"
  by (simp add: p_return_def)

lemma then_at [at]: "p_then f g p = p_bind f (\<lambda>_. g) p"
  by (simp add: p_then_def)

lemma on_at [at]: "p_on P f g p = (if P (p_type p) then f (ps_current p) (nxt p) else g p)"
  by (simp add: p_on_def at bind_cases)

lemma case_at [at]: "p_case ts f g p = (if p_type p \<in> set ts then f (ps_current p) (nxt p) else g p)"
  by (simp add: p_case_def at)

lemma when_at [at]: "p_when t f g p = (if p_type p = t then f (nxt p) else g p)"
  by (simp add: p_when_def at)

lemma if_at [at]: "p_if ts f g p = (if p_type p \<in> set ts then f p else g p)"
  by (simp add: p_if_def)

lemma token_at: "p_type p = t \<Longrightarrow> p_token t p = Parsed (ps_current p) (nxt p)"
  by (simp add: p_token_def p_expect_def at bind_cases)

lemma accept_at: "p_type p = t \<Longrightarrow> p_accept t p = Parsed () (nxt p)"
  by (simp add: p_accept_def at bind_cases token_at)

lemma ident_at: "p_type p = T_IDENT \<Longrightarrow> p_ident p = Parsed (tk_lexeme (ps_current p)) (nxt p)"
  by (simp add: p_ident_def at bind_cases token_at)

lemma reads_type: "reads txt p \<Longrightarrow> starts txt t \<Longrightarrow> p_type p = t"
  by (auto simp: starts_def dest: reads_token)

lemma reads_space: "reads (CHR '' '' # txt) p \<Longrightarrow> reads txt p"
proof -
  assume "reads (CHR '' '' # txt) p"
  then obtain l where l: "lx_rest l = CHR '' '' # txt" "lx_next l = (ps_current p, ps_lex p)" by (auto simp: reads_def)
  have "lx_next l = lx_next (adv l)" using skip_space [OF l(1)] by (simp add: lx_next_def is_space_def ch_def)
  then show ?thesis using l adv_Cons [OF l(1)] by (auto simp: reads_def intro: exI [of _ "adv l"])
qed

lemma starts_space: "starts txt t \<Longrightarrow> starts (CHR '' '' # txt) t"
  unfolding starts_def using lexes_space by blast

lemma gives_space: "gives f txt a E \<Longrightarrow> gives f (CHR '' '' # txt) a E"
  by (simp add: gives_def reads_space)

lemma gives_weaken: "gives f txt a E \<Longrightarrow> (\<And>r. E' r \<Longrightarrow> E r) \<Longrightarrow> gives f txt a E'"
  by (simp add: gives_def)

lemma gives_return: "gives (p_return a) [] a E"
  by (simp add: gives_def at)

lemma gives_bind:
  assumes "gives f t1 a E1" "gives (g a) t2 b E2" "\<And>r. E2 r \<Longrightarrow> E1 (t2 @ r)"
  shows "gives (p_bind f g) (t1 @ t2) b E2"
  unfolding gives_def
proof (intro allI impI)
  fix r p assume r: "E2 r" and p: "reads ((t1 @ t2) @ r) p"
  obtain q where q: "f p = Parsed a q" "reads (t2 @ r) q" "frame q = frame p"
    using assms(1,3) r p unfolding gives_def by (metis append.assoc)
  then obtain p' where "g a q = Parsed b p'" "reads r p'" "frame p' = frame q"
    using assms(2) r unfolding gives_def by metis
  then show "\<exists>p'. p_bind f g p = Parsed b p' \<and> reads r p' \<and> frame p' = frame p"
    using q by (simp add: bind_cases)
qed

lemma gives_then: "gives f t1 a E1 \<Longrightarrow> gives g t2 b E2 \<Longrightarrow> (\<And>r. E2 r \<Longrightarrow> E1 (t2 @ r)) \<Longrightarrow> gives (p_then f g) (t1 @ t2) b E2"
  unfolding p_then_def by (rule gives_bind)

lemma gives_end: "gives f txt a E1 \<Longrightarrow> gives (g a) [] b E2 \<Longrightarrow> (\<And>r. E2 r \<Longrightarrow> E1 r) \<Longrightarrow> gives (p_bind f g) txt b E2"
  using gives_bind [of f "txt" a E1 g "[]" b E2] by simp

lemma gives_accept: "(\<And>r. E r \<Longrightarrow> \<exists>v. lexes (w @ r) t x v r) \<Longrightarrow> gives (p_accept t) w () E"
  unfolding gives_def by (metis accept_at frame_nxt reads_token(1,4))

lemma gives_case_yes:
  assumes "\<And>r. E r \<Longrightarrow> lexes (w @ txt @ r) t x v (txt @ r)" "t \<in> set ts"
    "\<And>k. tk_type k = t \<Longrightarrow> tk_lexeme k = x \<Longrightarrow> tk_lit k = v \<Longrightarrow> gives (f k) txt a E"
  shows "gives (p_case ts f g) (w @ txt) a E"
  unfolding gives_def
proof (intro allI impI)
  fix r p assume r: "E r" and p: "reads ((w @ txt) @ r) p"
  note k = reads_token [OF p [unfolded append.assoc] assms(1) [OF r]]
  obtain p' where "f (ps_current p) (nxt p) = Parsed a p'" "reads r p'" "frame p' = frame (nxt p)"
    using assms(3) [OF k(1-3)] r k(4) unfolding gives_def by blast
  then show "\<exists>p'. p_case ts f g p = Parsed a p' \<and> reads r p' \<and> frame p' = frame p"
    using assms(2) k(1) by (simp add: at)
qed

lemma gives_case_no:
  assumes "\<And>r. E r \<Longrightarrow> \<exists>t. starts (txt @ r) t \<and> t \<notin> set ts" "gives g txt a E"
  shows "gives (p_case ts f g) txt a E"
  unfolding gives_def
proof (intro allI impI)
  fix r p assume r: "E r" and p: "reads (txt @ r) p"
  obtain t where "starts (txt @ r) t" "t \<notin> set ts" using assms(1) [OF r] by blast
  then have "p_type p \<notin> set ts" using reads_type [OF p] by metis
  then show "\<exists>p'. p_case ts f g p = Parsed a p' \<and> reads r p' \<and> frame p' = frame p"
    using assms(2) r p by (simp add: at gives_def)
qed

lemma gives_if_no:
  "(\<And>r. E r \<Longrightarrow> \<exists>t. starts (txt @ r) t \<and> t \<notin> set ts) \<Longrightarrow> gives g txt a E \<Longrightarrow> gives (p_if ts f g) txt a E"
  using gives_case_no [of E "txt" ts g a "\<lambda>_. f"] by (simp add: gives_def at split: if_splits) (metis reads_type)

lemma gives_when_yes:
  "(\<And>r. E r \<Longrightarrow> lexes (w @ txt @ r) t x v (txt @ r)) \<Longrightarrow> gives f txt a E \<Longrightarrow> gives (p_when t f g) (w @ txt) a E"
  unfolding p_when_def by (rule gives_case_yes) auto

lemma gives_when_no:
  "(\<And>r. E r \<Longrightarrow> \<exists>t'. starts (txt @ r) t' \<and> t' \<noteq> t) \<Longrightarrow> gives g txt a E \<Longrightarrow> gives (p_when t f g) txt a E"
  unfolding p_when_def by (rule gives_case_no) auto

subsection \<open>Printable expressions\<close>

definition plain_name :: "string \<Rightarrow> bool" where
  "plain_name x \<longleftrightarrow> (case x of [] \<Rightarrow> False
     | c # w \<Rightarrow> (is_letter c \<or> c = CHR ''_'') \<and> list_all ident_char w \<and> map_of lx_keywords (ascii_upper x) = None)"

definition printed_ops :: "int list" where
  "printed_ops = [T_EQ, T_LT, T_LE, T_GT, T_GE, T_PLUS, T_MINUS, T_STAR, T_SLASH, T_AND, T_OR, T_LIKE, T_IS]"

definition printed_types :: "int list" where
  "printed_types = [T_INT_KW, T_BIGINT, T_FLOAT_KW, T_BOOL, T_TEXT, T_BLOB, T_VARCHAR, T_TIMESTAMP]"

fun is_minus :: "expr \<Rightarrow> bool" where
  "is_minus (UnaryExpr op e) = (op = T_MINUS)"
| "is_minus e = False"

fun printable :: "expr \<Rightarrow> bool" where
  "printable (NumberLiteral n) = (0 \<le> n \<and> n \<le> max_int64)"
| "printable (StringLiteral s) = (NUL \<notin> set s \<and> CHR 0x27 \<notin> set s)"
| "printable (BoolLiteral b) = True"
| "printable NullLiteral = True"
| "printable (Ident x) = plain_name x"
| "printable (BinaryExpr op l r) = (op \<in> set printed_ops \<and> printable l \<and> printable r)"
| "printable (UnaryExpr op e) = ((op = T_NOT \<or> op = T_MINUS \<and> \<not> is_minus e) \<and> printable e)"
| "printable (FunctionCall name args) = (plain_name name \<and> \<not> isAggregateName name \<and> list_all printable args)"
| "printable (CaseExpr e ws els) =
     ((e = ENil \<longrightarrow> ws \<noteq> []) \<and> (e \<noteq> ENil \<longrightarrow> printable e) \<and>
      list_all (\<lambda>w. printable (fst w) \<and> printable (snd w)) ws \<and> (els \<noteq> ENil \<longrightarrow> printable els))"
| "printable (CastExpr e ty) =
     (printable e \<and> (case ty of None \<Rightarrow> False
        | Some ti \<Rightarrow> ti_type ti \<in> set printed_types \<and> ti = type_of (ti_type ti) 0 0 0))"
| "printable e = False"

definition words :: "(string \<times> int) list" where
  "words =
     [(''TRUE'', T_TRUE), (''FALSE'', T_FALSE), (''NULL'', T_NULL), (''NOT'', T_NOT), (''AND'', T_AND), (''OR'', T_OR),
      (''LIKE'', T_LIKE), (''IS'', T_IS), (''CASE'', T_CASE), (''WHEN'', T_WHEN), (''THEN'', T_THEN), (''ELSE'', T_ELSE),
      (''END'', T_END), (''CAST'', T_CAST), (''AS'', T_AS), (''INTEGER'', T_INT_KW), (''BIGINT'', T_BIGINT),
      (''FLOAT'', T_FLOAT_KW), (''BOOLEAN'', T_BOOL), (''TEXT'', T_TEXT), (''BLOB'', T_BLOB), (''VARCHAR'', T_VARCHAR),
      (''TIMESTAMP'', T_TIMESTAMP), (''SELECT'', T_SELECT), (''DISTINCT'', T_DISTINCT), (''FROM'', T_FROM),
      (''WHERE'', T_WHERE), (''ORDER'', T_ORDER), (''BY'', T_BY), (''DESC'', T_DESC), (''LIMIT'', T_LIMIT),
      (''OFFSET'', T_OFFSET), (''INSERT'', T_INSERT), (''INTO'', T_INTO), (''VALUES'', T_VALUES), (''UPDATE'', T_UPDATE),
      (''SET'', T_SET), (''DELETE'', T_DELETE)]"

lemma words_ok:
  "list_all (\<lambda>(w, t). w \<noteq> [] \<and> list_all is_letter w \<and> map_of lx_keywords (ascii_upper w) = Some t) words"
  by code_simp

lemma lexes_kw: "(w, t) \<in> set words \<Longrightarrow> boundary r \<Longrightarrow> lexes (w @ r) t w LNil r"
proof -
  assume w: "(w, t) \<in> set words" and r: "boundary r"
  have k: "w \<noteq> []" "list_all is_letter w" "map_of lx_keywords (ascii_upper w) = Some t"
    using words_ok w by (auto simp: list_all_iff)
  obtain c u where cu: "w = c # u" using k(1) by (cases w) auto
  have "list_all ident_char u" using k(2) cu by (auto simp: list_all_iff ident_char_def)
  then show ?thesis using lexes_word [of c u r] k cu r by simp
qed

lemma lexes_name: "plain_name x \<Longrightarrow> boundary r \<Longrightarrow> lexes (x @ r) T_IDENT x LNil r"
  using lexes_word [of "hd x" "tl x" r] by (cases x) (simp_all add: plain_name_def)

lemma boundary_Cons: "boundary (c # r) \<longleftrightarrow> \<not> ident_char c \<and> c \<noteq> CHR ''.'' \<and> c \<noteq> CHR 0x27"
  by (simp add: boundary_def)

lemma boundary_simps [simp]:
  "boundary []" "boundary (CHR '' '' # r)" "boundary (CHR ''('' # r)" "boundary (CHR '')'' # r)" "boundary (CHR '','' # r)"
  by (simp_all add: boundary_def ident_char_def is_letter_def is_digit_def ch_def)

text \<open>An expression may be followed by what is no part of it: by no dot, parenthesis, IN, BETWEEN or NOT, and,
  where operators are read, by no operator.\<close>

definition ends_unary :: "string \<Rightarrow> bool" where
  "ends_unary r \<longleftrightarrow> boundary r \<and> (\<exists>t. starts r t \<and> t \<notin> set [T_DOT, T_LPAREN, T_IN, T_BETWEEN, T_NOT])"

definition ends_binary :: "string \<Rightarrow> bool" where
  "ends_binary r \<longleftrightarrow> boundary r \<and>
     (\<exists>t. starts r t \<and> t \<notin> set [T_DOT, T_LPAREN, T_IN, T_BETWEEN, T_NOT] \<and> \<not> isBinaryOp t)"

lemma ends_binary_unary: "ends_binary r \<Longrightarrow> ends_unary r"
  by (auto simp: ends_binary_def ends_unary_def)

lemma ends_boundary: "ends_unary r \<Longrightarrow> boundary r"
  by (simp add: ends_unary_def)

lemma starts_symbol:
  "starts (CHR ''('' # r) T_LPAREN" "starts (CHR '')'' # r) T_RPAREN" "starts (CHR '','' # r) T_COMMA"
proof -
  have "lexes (CHR ''('' # r) T_LPAREN ''('' LNil r" "lexes (CHR '')'' # r) T_RPAREN '')'' LNil r"
    "lexes (CHR '','' # r) T_COMMA '','' LNil r"
    by (rule lexes_symbol; simp add: one_char_ops_def)+
  then show "starts (CHR ''('' # r) T_LPAREN" "starts (CHR '')'' # r) T_RPAREN" "starts (CHR '','' # r) T_COMMA"
    by (auto simp: starts_def)
qed

lemma starts_kw: "(w, t) \<in> set words \<Longrightarrow> boundary r \<Longrightarrow> starts (w @ r) t"
  unfolding starts_def using lexes_kw by blast

lemma ends_kw:
  assumes "(w, t) \<in> set words" "boundary r" "t \<notin> set [T_IN, T_BETWEEN, T_NOT]"
  shows "ends_unary (CHR '' '' # w @ r)" "\<not> isBinaryOp t \<Longrightarrow> ends_binary (CHR '' '' # w @ r)"
proof -
  have s: "starts (CHR '' '' # w @ r) t" by (rule starts_space [OF starts_kw [OF assms(1,2)]])
  have "t \<notin> set [T_DOT, T_LPAREN]" using assms(1) by (auto simp: words_def)
  then show "ends_unary (CHR '' '' # w @ r)" "\<not> isBinaryOp t \<Longrightarrow> ends_binary (CHR '' '' # w @ r)"
    using s assms(3) by (auto simp: ends_unary_def ends_binary_def)
qed

lemma ends_binaryI:
  "starts r t \<Longrightarrow> t \<notin> set [T_DOT, T_LPAREN, T_IN, T_BETWEEN, T_NOT] \<Longrightarrow> \<not> isBinaryOp t \<Longrightarrow> boundary r \<Longrightarrow> ends_binary r"
  unfolding ends_binary_def by blast

lemma ends_symbols: "ends_binary (CHR '')'' # r)" "ends_binary (CHR '','' # r)" "ends_binary []"
proof -
  have "starts [] T_EOF" using lexes_end by (auto simp: starts_def)
  then show "ends_binary []" by (rule ends_binaryI) (simp_all add: isBinaryOp_def)
  show "ends_binary (CHR '')'' # r)" by (rule ends_binaryI [OF starts_symbol(2)]) (simp_all add: isBinaryOp_def)
  show "ends_binary (CHR '','' # r)" by (rule ends_binaryI [OF starts_symbol(3)]) (simp_all add: isBinaryOp_def)
qed

subsection \<open>Expressions are read back\<close>

definition parses_u :: "(f64 \<Rightarrow> string) \<Rightarrow> expr \<Rightarrow> bool" where
  "parses_u ff e \<longleftrightarrow>
     (\<forall>n. 4 * length (exprString ff e) \<le> n \<longrightarrow> gives (g_unary (parsers n)) (exprString ff e) e ends_unary)"

definition parses_b :: "(f64 \<Rightarrow> string) \<Rightarrow> expr \<Rightarrow> bool" where
  "parses_b ff e \<longleftrightarrow>
     (\<forall>n m. 4 * length (exprString ff e) + 2 \<le> n \<longrightarrow> gives (g_binary (parsers n) m) (exprString ff e) e ends_binary)"

lemma loop_stops: "gives (binary_loop (Suc k) g m e) [] e ends_binary"
  unfolding gives_def
proof (intro allI impI)
  fix r p assume "ends_binary r" "reads ([] @ r) p"
  then have "\<not> isBinaryOp (p_type p)" unfolding ends_binary_def using reads_type by fastforce
  then show "\<exists>p'. binary_loop (Suc k) g m e p = Parsed e p' \<and> reads r p' \<and> frame p' = frame p"
    using \<open>reads ([] @ r) p\<close> by (simp add: at)
qed

lemma unary_Suc: "g_unary (parsers (Suc k)) = parseUnary k (parsers k)"
  by (simp add: Let_def)

lemma binary_Suc: "g_binary (parsers (Suc k)) = parseBinary k (parsers k)"
  by (simp add: Let_def)

lemma select_Suc: "g_select (parsers (Suc k)) = parseSelect k (parsers k)"
  by (simp add: Let_def)

declare parsers.simps(2) [simp del]

lemma parses_b_of_u:
  assumes "parses_u ff e"
  shows "parses_b ff e"
  unfolding parses_b_def
proof (intro allI impI)
  fix n m assume n: "4 * length (exprString ff e) + 2 \<le> n"
  define k where "k = n - 2"
  have k: "n = Suc (Suc k)" "4 * length (exprString ff e) \<le> Suc k" using n by (simp_all add: k_def)
  from k(2) have u: "gives (g_unary (parsers (Suc k))) (exprString ff e) e ends_unary"
    by (rule assms [unfolded parses_u_def, rule_format])
  show "gives (g_binary (parsers n) m) (exprString ff e) e ends_binary"
    unfolding k(1) binary_Suc parseBinary_def by (rule gives_end [OF u]) (rule loop_stops, erule ends_binary_unary)
qed

lemma parses_bD: "parses_b ff e \<Longrightarrow> 4 * length (exprString ff e) + 2 \<le> n \<Longrightarrow> gives (parseExpr (parsers n)) (exprString ff e) e ends_binary"
  by (simp add: parses_b_def parseExpr_def)

lemma gives_postfix:
  assumes "gives (parsePrimary k g) t e ends_unary"
  shows "gives (parsePostfix k g) t e ends_unary"
  unfolding parsePostfix_def
proof (rule gives_end [OF assms])
  have "\<exists>t'. starts ([] @ r) t' \<and> t' \<notin> set [T_DOT, T_LPAREN, T_IN, T_BETWEEN, T_NOT]" if "ends_unary r" for r
    using that by (simp add: ends_unary_def)
  then show "gives (p_when T_BETWEEN (parseBetween g e) (p_when T_IN (parseInBody k g e)
      (p_if [T_NOT] (parse_not k g e) (p_return e)))) [] e ends_unary"
    by (intro gives_when_no gives_if_no gives_return) (fastforce+)
qed

lemma gives_unary:
  assumes "gives (parsePrimary k g) t e ends_unary"
    "\<And>r. ends_unary r \<Longrightarrow> \<exists>t'. starts (t @ r) t' \<and> t' \<notin> set [T_NOT, T_MINUS, T_PLUS, T_BITNOT]"
  shows "gives (parseUnary k g) t e ends_unary"
  unfolding parseUnary_def using assms(2) by (intro gives_case_no gives_postfix assms(1))

lemma parses_uI:
  assumes "0 < length (exprString ff e)"
    "\<And>k. 4 * length (exprString ff e) \<le> Suc k \<Longrightarrow> gives (parsePrimary k (parsers k)) (exprString ff e) e ends_unary"
    "\<And>r. ends_unary r \<Longrightarrow> \<exists>t'. starts (exprString ff e @ r) t' \<and> t' \<notin> set [T_NOT, T_MINUS, T_PLUS, T_BITNOT]"
  shows "parses_u ff e"
  unfolding parses_u_def
proof (intro allI impI)
  fix n assume n: "4 * length (exprString ff e) \<le> n"
  then obtain k where k: "n = Suc k" using assms(1) by (cases n) auto
  show "gives (g_unary (parsers n)) (exprString ff e) e ends_unary"
    unfolding k unary_Suc using assms(2) [of k] n k by (intro gives_unary assms(3)) auto
qed

lemma parses_literal_number: "0 \<le> i \<Longrightarrow> i \<le> max_int64 \<Longrightarrow> parses_u ff (NumberLiteral i)"
proof (rule parses_uI)
  assume i: "0 \<le> i" "i \<le> max_int64"
  have l: "lexes (FormatInt i @ r) T_INT (FormatInt i) (LInt i) r" if "ends_unary r" for r
    using lexes_number [OF i ends_boundary [OF that]] .
  show "0 < length (exprString ff (NumberLiteral i))" using i nat_str_not_Nil by (simp add: FormatInt_def)
  show "\<exists>t'. starts (exprString ff (NumberLiteral i) @ r) t' \<and> t' \<notin> set [T_NOT, T_MINUS, T_PLUS, T_BITNOT]"
    if "ends_unary r" for r
    using l [OF that] unfolding starts_def by fastforce
  show "gives (parsePrimary k (parsers k)) (exprString ff (NumberLiteral i)) (NumberLiteral i) ends_unary" for k
    unfolding gives_def
  proof (intro allI impI)
    fix r p assume "ends_unary r" "reads (exprString ff (NumberLiteral i) @ r) p"
    then show "\<exists>p'. parsePrimary k (parsers k) p = Parsed (NumberLiteral i) p' \<and> reads r p' \<and> frame p' = frame p"
      using reads_token [OF _ l, of r p] by (simp add: parsePrimary_def at int_lit_def bind_cases)
  qed
qed

lemma parses_string: "NUL \<notin> set s \<Longrightarrow> CHR 0x27 \<notin> set s \<Longrightarrow> parses_u ff (StringLiteral s)"
proof (rule parses_uI)
  assume s: "NUL \<notin> set s" "CHR 0x27 \<notin> set s"
  have l: "lexes (exprString ff (StringLiteral s) @ r) T_STRING s (LStr s) r" if "ends_unary r" for r
    using lexes_string [OF s ends_boundary [OF that]] by simp
  show "0 < length (exprString ff (StringLiteral s))" by simp
  show "\<exists>t'. starts (exprString ff (StringLiteral s) @ r) t' \<and> t' \<notin> set [T_NOT, T_MINUS, T_PLUS, T_BITNOT]"
    if "ends_unary r" for r
    using l [OF that] unfolding starts_def by fastforce
  show "gives (parsePrimary k (parsers k)) (exprString ff (StringLiteral s)) (StringLiteral s) ends_unary" for k
    unfolding gives_def
  proof (intro allI impI)
    fix r p assume "ends_unary r" "reads (exprString ff (StringLiteral s) @ r) p"
    then show "\<exists>p'. parsePrimary k (parsers k) p = Parsed (StringLiteral s) p' \<and> reads r p' \<and> frame p' = frame p"
      using reads_token [OF _ l, of r p] by (simp add: parsePrimary_def at string_lit_def bind_cases)
  qed
qed

lemma parses_word:
  assumes "(exprString ff e, t) \<in> set words" "(t, e) \<in> set [(T_TRUE, BoolLiteral True), (T_FALSE, BoolLiteral False), (T_NULL, NullLiteral)]"
  shows "parses_u ff e"
proof (rule parses_uI)
  have l: "lexes (exprString ff e @ r) t (exprString ff e) LNil r" if "ends_unary r" for r
    using lexes_kw [OF assms(1) ends_boundary [OF that]] .
  show "0 < length (exprString ff e)" using assms(2) by auto
  show "\<exists>t'. starts (exprString ff e @ r) t' \<and> t' \<notin> set [T_NOT, T_MINUS, T_PLUS, T_BITNOT]" if "ends_unary r" for r
    using l [OF that] assms(2) unfolding starts_def by fastforce
  show "gives (parsePrimary k (parsers k)) (exprString ff e) e ends_unary" for k
    unfolding gives_def
  proof (intro allI impI)
    fix r p assume "ends_unary r" "reads (exprString ff e @ r) p"
    then show "\<exists>p'. parsePrimary k (parsers k) p = Parsed e p' \<and> reads r p' \<and> frame p' = frame p"
      using reads_token [OF _ l, of r p] assms(2) by (auto simp: parsePrimary_def at)
  qed
qed

lemma gives_on_yes:
  assumes "\<And>r. E r \<Longrightarrow> lexes (w @ t1 @ r) t x v (t1 @ r)" "P t"
    "\<And>k. tk_type k = t \<Longrightarrow> gives (f k) t1 a E"
  shows "gives (p_on P f g) (w @ t1) a E"
  unfolding gives_def
proof (intro allI impI)
  fix r p assume r: "E r" and p: "reads ((w @ t1) @ r) p"
  note k = reads_token [OF p [unfolded append.assoc] assms(1) [OF r]]
  obtain p' where "f (ps_current p) (nxt p) = Parsed a p'" "reads r p'" "frame p' = frame (nxt p)"
    using assms(3) [OF k(1)] r k(4) unfolding gives_def by blast
  then show "\<exists>p'. p_on P f g p = Parsed a p' \<and> reads r p' \<and> frame p' = frame p"
    using assms(2) k(1) by (simp add: at)
qed

subsection \<open>First tokens\<close>

lemma lexes_open: "lexes (CHR ''('' # r) T_LPAREN ''('' LNil r"
  and lexes_close: "lexes (CHR '')'' # r) T_RPAREN '')'' LNil r"
  and lexes_comma: "lexes (CHR '','' # r) T_COMMA '','' LNil r"
  and lexes_eq: "lexes (CHR ''='' # r) T_EQ ''='' LNil r"
  and lexes_star: "lexes (CHR ''*'' # r) T_STAR ''*'' LNil r"
  and lexes_plus: "lexes (CHR ''+'' # r) T_PLUS ''+'' LNil r"
  by (rule lexes_symbol; simp add: one_char_ops_def)+

lemma lexes_minus: "(\<forall>d r'. r = d # r' \<longrightarrow> d \<notin> set ''-*'') \<Longrightarrow> lexes (CHR ''-'' # r) T_MINUS ''-'' LNil r"
  and lexes_slash: "(\<forall>d r'. r = d # r' \<longrightarrow> d \<notin> set ''-*'') \<Longrightarrow> lexes (CHR ''/'' # r) T_SLASH ''/'' LNil r"
  by (rule lexes_symbol; simp add: one_char_ops_def)+

lemma lexes_op:
  assumes "op \<in> set printed_ops"
  shows "lexes (opString op @ CHR '' '' # r) op (opString op) LNil (CHR '' '' # r)"
proof -
  have kw: "lexes (w @ CHR '' '' # r) t w LNil (CHR '' '' # r)" if "(w, t) \<in> set words" for w t
    using lexes_kw [OF that] by simp
  show ?thesis
    using assms lexes_eq lexes_star lexes_plus lexes_two lexes_minus [of "CHR '' '' # r"] lexes_slash [of "CHR '' '' # r"]
      lexes_less [of "CHR '' '' # r"] kw [of "''AND''" T_AND] kw [of "''OR''" T_OR] kw [of "''LIKE''" T_LIKE] kw [of "''IS''" T_IS]
    by (auto simp: printed_ops_def opString_def op_strings_def words_def)
qed

lemma ends_op: "op \<in> set printed_ops \<Longrightarrow> ends_unary (CHR '' '' # opString op @ CHR '' '' # r)"
proof -
  assume op: "op \<in> set printed_ops"
  have "starts (CHR '' '' # opString op @ CHR '' '' # r) op"
    using lexes_op [OF op] starts_space unfolding starts_def by blast
  moreover have "op \<notin> set [T_DOT, T_LPAREN, T_IN, T_BETWEEN, T_NOT]" using op by (auto simp: printed_ops_def)
  ultimately show ?thesis by (auto simp: ends_unary_def)
qed

definition starters :: "int list" where
  "starters = [T_INT, T_STRING, T_TRUE, T_FALSE, T_NULL, T_IDENT, T_LPAREN, T_CASE, T_CAST]"

lemma starts_simple:
  assumes "printable e" "boundary r" "\<And>op x. e \<noteq> UnaryExpr op x"
  shows "\<exists>t \<in> set starters. starts (exprString ff e @ r) t"
proof -
  have n: "starts (x @ r') T_IDENT" if "plain_name x" "boundary r'" for x r'
    using lexes_name [OF that] by (auto simp: starts_def)
  have i: "starts (FormatInt i @ r) T_INT" if "0 \<le> i" "i \<le> max_int64" for i
    using lexes_number [OF that assms(2)] by (auto simp: starts_def)
  have s: "starts (CHR 0x27 # u @ CHR 0x27 # r) T_STRING" if "NUL \<notin> set u" "CHR 0x27 \<notin> set u" for u
    using lexes_string [OF that assms(2)] by (auto simp: starts_def)
  have w: "starts (u @ r') t" if "(u, t) \<in> set words" "boundary r'" for u t r' using starts_kw [OF that] .
  show ?thesis
  proof (cases e)
    case (CaseExpr x ws els)
    let ?rest = "(if x \<noteq> ENil then '' '' @ exprString ff x else []) @
     concat (map (\<lambda>w. '' WHEN '' @ exprString ff (fst w) @ '' THEN '' @ exprString ff (snd w)) ws) @
     (if els \<noteq> ENil then '' ELSE '' @ exprString ff els else []) @ '' END'' @ r"
    have "boundary ?rest" by (cases ws) auto
    from w [of "''CASE''" T_CASE, OF _ this] show ?thesis
      unfolding CaseExpr by (simp add: words_def starters_def)
  next
    case (CastExpr x ty)
    show ?thesis using w [of "''CAST''" T_CAST "CHR ''('' # exprString ff x @ '' AS '' @
        (case ty of None \<Rightarrow> ''UNKNOWN'' | Some ti \<Rightarrow> typeName (ti_type ti)) @ CHR '')'' # r"]
      unfolding CastExpr by (simp add: words_def starters_def)
  next
    case (FunctionCall name args)
    then have "plain_name name" using assms(1) by simp
    from n [OF this, of "CHR ''('' # join_comma (map (exprString ff) args) @ CHR '')'' # r"]
    show ?thesis unfolding FunctionCall by (simp add: starters_def)
  next
    case (BoolLiteral b)
    then show ?thesis using w [of "''TRUE''" T_TRUE r] w [of "''FALSE''" T_FALSE r] assms(2)
      by (cases b) (simp_all add: words_def starters_def)
  next
    case NullLiteral
    then show ?thesis using w [of "''NULL''" T_NULL r] assms(2) by (simp add: words_def starters_def)
  qed (use assms i s n [OF _ assms(2)] starts_symbol(1) in \<open>auto simp: starters_def\<close>)
qed

lemma not_minus_char:
  assumes "printable e" "\<not> is_minus e"
  shows "exprString ff e @ r = d # r' \<Longrightarrow> d \<notin> set ''-*''" "exprString ff e \<noteq> []"
proof -
  have name: "\<exists>c w. x = c # w \<and> c \<notin> set ''-*''" if "plain_name x" for x
    using that by (cases x) (auto simp: plain_name_def is_letter_def ch_def)
  have num: "\<exists>c w. FormatInt i = c # w \<and> c \<notin> set ''-*''" if "0 \<le> i" for i
  proof -
    have f: "FormatInt i = nat_str (nat i)" using that by (simp add: FormatInt_def)
    obtain c w where w: "nat_str (nat i) = c # w" using nat_str_not_Nil by (cases "nat_str (nat i)") auto
    then have "is_digit c" using nat_str_is_digit [of c "nat i"] by simp
    then show ?thesis using f w by (auto simp: is_digit_def ch_def)
  qed
  have "\<exists>c w. exprString ff e = c # w \<and> c \<notin> set ''-*''"
    using assms
  proof (cases e)
    case (UnaryExpr op x)
    then have "op = T_NOT" using assms by auto
    then show ?thesis unfolding UnaryExpr by (simp add: opString_def op_strings_def)
  next
    case (FunctionCall n args)
    then show ?thesis using name [of n] assms by auto
  qed (use assms name num in auto)
  then show "exprString ff e @ r = d # r' \<Longrightarrow> d \<notin> set ''-*''" "exprString ff e \<noteq> []" by auto
qed

lemma not_Nil: "printable e \<Longrightarrow> exprString ff e \<noteq> []"
proof (cases "is_minus e")
  case True
  then show ?thesis by (cases e) (simp_all add: opString_def op_strings_def)
qed (rule not_minus_char)

lemma starts_expr:
  assumes "printable e" "boundary r"
  shows "\<exists>t \<in> set (T_NOT # T_MINUS # starters). starts (exprString ff e @ r) t"
proof (cases "\<exists>op x. e = UnaryExpr op x")
  case True
  then obtain op x where e: "e = UnaryExpr op x" by blast
  consider "op = T_NOT" | "op = T_MINUS" "\<not> is_minus x" "printable x" using assms(1) e by auto
  then show ?thesis
  proof cases
    case 1
    then show ?thesis using starts_kw [of "''NOT''" T_NOT "CHR '' '' # exprString ff x @ r"]
      unfolding e by (simp add: words_def opString_def op_strings_def)
  next
    case 2
    have "lexes (CHR ''-'' # exprString ff x @ r) T_MINUS ''-'' LNil (exprString ff x @ r)"
      using not_minus_char(1) [OF 2(3,2), of ff r] by (intro lexes_minus) blast
    then have "starts (exprString ff e @ r) T_MINUS"
      using 2(1) unfolding e by (auto simp: starts_def opString_def op_strings_def)
    then show ?thesis by (auto simp del: T_MINUS_def)
  qed
next
  case False
  then show ?thesis using starts_simple [OF assms] by auto
qed

text \<open>What may stand at the start of an expression is no closing parenthesis, SELECT, WHEN and so on.\<close>

lemma starts_expr_not:
  assumes "printable e" "boundary r" "set ts \<inter> set (T_NOT # T_MINUS # starters) = {}"
  shows "\<exists>t. starts (exprString ff e @ r) t \<and> t \<notin> set ts"
  using starts_expr [OF assms(1,2)] assms(3) by blast

lemma starts_primary:
  assumes "printable e" "\<And>op x. e \<noteq> UnaryExpr op x" "ends_unary r"
  shows "\<exists>t. starts (exprString ff e @ r) t \<and> t \<notin> set [T_NOT, T_MINUS, T_PLUS, T_BITNOT]"
proof -
  obtain t where "t \<in> set starters" "starts (exprString ff e @ r) t"
    using starts_simple [OF assms(1) ends_boundary [OF assms(3)] assms(2)] by blast
  then show ?thesis by (intro exI [of _ t]) (auto simp: starters_def)
qed

subsection \<open>Names, operators, calls\<close>

lemma parses_uI':
  assumes "printable e" "\<And>op x. e \<noteq> UnaryExpr op x"
    "\<And>k. 4 * length (exprString ff e) \<le> Suc k \<Longrightarrow> gives (parsePrimary k (parsers k)) (exprString ff e) e ends_unary"
  shows "parses_u ff e"
  using not_Nil [OF assms(1)] starts_primary [OF assms(1,2)] by (intro parses_uI assms(3)) auto

lemma parses_ident: "plain_name x \<Longrightarrow> parses_u ff (Ident x)"
proof (rule parses_uI')
  assume x: "plain_name x"
  then show "printable (Ident x)" by simp
  show "gives (parsePrimary k (parsers k)) (exprString ff (Ident x)) (Ident x) ends_unary" for k
    unfolding gives_def
  proof (intro allI impI)
    fix r p assume r: "ends_unary r" and p: "reads (exprString ff (Ident x) @ r) p"
    have "lexes (exprString ff (Ident x) @ r) T_IDENT x LNil r"
      using lexes_name [OF x ends_boundary [OF r]] by simp
    note k = reads_token [OF p this]
    have "p_type (nxt p) \<notin> set [T_DOT, T_LPAREN]"
      using r reads_type [OF k(4)] by (fastforce simp: ends_unary_def)
    then show "\<exists>p'. parsePrimary k (parsers k) p = Parsed (Ident x) p' \<and> reads r p' \<and> frame p' = frame p"
      using k by (simp add: parsePrimary_def at parse_name_def)
  qed
qed simp

lemma gives_primary_open: "gives (parse_paren g) t a E \<Longrightarrow> gives (parsePrimary k g) (CHR ''('' # t) a E"
  unfolding gives_def
proof (intro allI impI)
  fix r p assume g: "\<forall>r p. E r \<longrightarrow> reads (t @ r) p \<longrightarrow> (\<exists>p'. parse_paren g p = Parsed a p' \<and> reads r p' \<and> frame p' = frame p)"
    and r: "E r" and p: "reads ((CHR ''('' # t) @ r) p"
  have l: "lexes ((CHR ''('' # t) @ r) T_LPAREN ''('' LNil (t @ r)" using lexes_open by simp
  note k = reads_token [OF p l]
  obtain p' where "parse_paren g (nxt p) = Parsed a p'" "reads r p'" "frame p' = frame (nxt p)" using g r k(4) by blast
  then show "\<exists>p'. parsePrimary k g p = Parsed a p' \<and> reads r p' \<and> frame p' = frame p"
    using k(1) by (simp add: parsePrimary_def at)
qed

lemma gives_symbol:
  "gives (p_accept T_LPAREN) ''('' () E" "gives (p_accept T_RPAREN) '')'' () E" "gives (p_accept T_COMMA) '','' () E"
  by (rule gives_accept, simp only: append.simps, rule exI, rule lexes_open lexes_close lexes_comma)+

lemma gives_close: "gives (p_then (p_accept T_RPAREN) (p_return a)) '')'' a E"
  using gives_then [OF gives_symbol(2) gives_return, where ?E2.0 = E and ?E1.0 = "\<lambda>_. True"] by simp

lemma gives_operation:
  assumes "parses_u ff l" "parses_u ff r" "op \<in> set printed_ops" "4 * (length (exprString ff l) + length (exprString ff r)) + 8 \<le> n"
  shows "gives (parseExpr (parsers n)) (exprString ff l @ '' '' @ opString op @ '' '' @ exprString ff r)
    (BinaryExpr op l r) ends_binary"
proof -
  define i where "i = n - 3"
  have n: "n = Suc (Suc (Suc i))" using assms(4) by (simp add: i_def)
  let ?g = "parsers (Suc (Suc i))"
  have b: "gives (g_binary ?g m) (exprString ff r) r ends_binary" for m
    using parses_b_of_u [OF assms(2)] assms(4) n unfolding parses_b_def by simp
  have rest: "gives (binary_loop (Suc (Suc i)) ?g 1 l) (opString op @ '' '' @ exprString ff r) (BinaryExpr op l r) ends_binary"
    unfolding binary_loop.simps(2) [of "Suc i"]
  proof (rule gives_on_yes)
    show "lexes (opString op @ ('' '' @ exprString ff r) @ x) op (opString op) LNil (('' '' @ exprString ff r) @ x)" for x
      using lexes_op [OF assms(3), of "exprString ff r @ x"] by simp
    show "isBinaryOp op \<and> 1 \<le> precedence op"
      using assms(3) by (auto simp: printed_ops_def isBinaryOp_def precedence_def)
    fix k assume k: "tk_type k = op"
    show "gives (p_bind (g_binary ?g (precedence (tk_type k) + 1)) (\<lambda>right. binary_loop (Suc i) ?g 1 (BinaryExpr (tk_type k) l right)))
       ('' '' @ exprString ff r) (BinaryExpr op l r) ends_binary"
      using gives_space [OF gives_end [OF b loop_stops]] k by simp
  qed
  have u: "gives (g_unary ?g) (exprString ff l) l ends_unary"
    using assms(1,4) n unfolding parses_u_def by simp
  have "gives (p_bind (g_unary ?g) (binary_loop (Suc (Suc i)) ?g 1))
      (exprString ff l @ CHR '' '' # opString op @ '' '' @ exprString ff r) (BinaryExpr op l r) ends_binary"
    by (rule gives_bind [where a = l, OF u], rule gives_space [OF rest]) (use ends_op [OF assms(3)] in simp)
  then show ?thesis unfolding n parseExpr_def binary_Suc parseBinary_def by simp
qed

lemma parses_binary:
  assumes "parses_u ff l" "parses_u ff r" "printable (BinaryExpr op l r)"
  shows "parses_u ff (BinaryExpr op l r)"
proof (rule parses_uI' [OF assms(3)])
  fix k assume k: "4 * length (exprString ff (BinaryExpr op l r)) \<le> Suc k"
  let ?t = "exprString ff l @ '' '' @ opString op @ '' '' @ exprString ff r"
  have "gives (parseExpr (parsers k)) ?t (BinaryExpr op l r) ends_binary"
    using k assms(3) by (intro gives_operation assms(1,2)) auto
  from gives_bind [OF this gives_close, of ends_unary]
  have "gives (p_bind (parseExpr (parsers k)) (\<lambda>e. p_then (p_accept T_RPAREN) (p_return e))) (?t @ '')'') (BinaryExpr op l r) ends_unary"
    by (simp add: ends_symbols)
  then have "gives (parse_paren (parsers k)) (?t @ '')'') (BinaryExpr op l r) ends_unary"
    unfolding parse_paren_def
  proof (rule gives_if_no [rotated])
    show "\<exists>t'. starts ((?t @ '')'') @ x) t' \<and> t' \<notin> set [T_SELECT]" if "ends_unary x" for x
      using starts_expr_not [of l "'' '' @ opString op @ '' '' @ exprString ff r @ '')'' @ x" "[T_SELECT]" ff] assms(3)
      by (simp add: starters_def)
  qed
  from gives_primary_open [OF this]
  show "gives (parsePrimary k (parsers k)) (exprString ff (BinaryExpr op l r)) (BinaryExpr op l r) ends_unary" by simp
qed simp

subsection \<open>Lists\<close>

definition no_comma :: "(string \<Rightarrow> bool) \<Rightarrow> string \<Rightarrow> bool" where
  "no_comma E r \<longleftrightarrow> E r \<and> (\<exists>t. starts r t \<and> t \<noteq> T_COMMA)"

lemma gives_sep_list:
  assumes "\<forall>x \<in> set xs. gives item (t x) x E" "xs \<noteq> []" "length xs \<le> n" "\<And>r. E (CHR '','' # r)"
  shows "gives (sep_list n item) (join_comma (map t xs)) xs (no_comma E)"
  using assms(1-3)
proof (induction xs arbitrary: n)
  case (Cons x xs)
  then obtain m where n: "n = Suc m" by (cases n) auto
  have x: "gives item (t x) x E" using Cons.prems(1) by simp
  show ?case
  proof (cases xs)
    case Nil
    have w: "gives (p_when T_COMMA (p_bind (sep_list m item) (\<lambda>xs. p_return (x # xs))) (p_return [x])) [] [x] (no_comma E)"
      by (rule gives_when_no [OF _ gives_return]) (auto simp: no_comma_def)
    have "gives (sep_list n item) (t x) [x] (no_comma E)"
      unfolding n sep_list.simps(2) by (rule gives_end [where a = x, OF x], rule w) (simp add: no_comma_def)
    then show ?thesis by (simp add: Nil)
  next
    case (Cons y ys)
    have "gives (sep_list m item) (join_comma (map t xs)) xs (no_comma E)"
      using Cons.IH Cons.prems n \<open>xs = y # ys\<close> by simp
    from gives_end [OF this gives_return]
    have "gives (p_bind (sep_list m item) (\<lambda>xs. p_return (x # xs))) (join_comma (map t xs)) (x # xs) (no_comma E)" .
    from gives_when_yes [OF _ gives_space [OF this], of "'',''" T_COMMA "'',''" LNil "p_return [x]"]
    have w: "gives (p_when T_COMMA (p_bind (sep_list m item) (\<lambda>xs. p_return (x # xs))) (p_return [x]))
        ('','' @ CHR '' '' # join_comma (map t xs)) (x # xs) (no_comma E)"
      using lexes_comma by simp
    have "gives (sep_list n item) (t x @ '','' @ CHR '' '' # join_comma (map t xs)) (x # xs) (no_comma E)"
      unfolding n sep_list.simps(2) by (rule gives_bind [where a = x, OF x], rule w) (simp add: assms(4))
    then show ?thesis using \<open>xs = y # ys\<close> by simp
  qed
qed simp

lemma length_join: "x \<in> set xs \<Longrightarrow> length x \<le> length (join_comma xs)"
  by (induction xs rule: join_comma.induct) auto

lemma count_join: "\<forall>x \<in> set xs. x \<noteq> [] \<Longrightarrow> length xs \<le> length (join_comma xs)"
  by (induction xs rule: join_comma.induct) (auto simp: Suc_le_eq)

lemma gives_exprs:
  assumes "\<forall>e \<in> set es. printable e \<and> parses_u ff e" "es \<noteq> []"
    "4 * length (join_comma (map (exprString ff) es)) + 2 \<le> k" "length (join_comma (map (exprString ff) es)) \<le> n"
  shows "gives (parse_exprs n (parsers k)) (join_comma (map (exprString ff) es)) es (no_comma ends_binary)"
  unfolding parse_exprs_def
proof (rule gives_sep_list)
  show "length es \<le> n"
    using count_join [of "map (exprString ff) es"] assms(1,4) not_Nil by force
  show "\<forall>e \<in> set es. gives (parseExpr (parsers k)) (exprString ff e) e ends_binary"
  proof
    fix e assume e: "e \<in> set es"
    then have "length (exprString ff e) \<le> length (join_comma (map (exprString ff) es))" by (intro length_join) simp
    then show "gives (parseExpr (parsers k)) (exprString ff e) e ends_binary"
      using e assms by (intro parses_bD parses_b_of_u) auto
  qed
qed (use assms(2) ends_symbols(2) in auto)

lemma no_comma_close: "no_comma ends_binary (CHR '')'' # r)"
  using starts_symbol(2) [of r] ends_symbols(1) by (auto simp: no_comma_def)

lemma gives_bind_pure: "gives (g a) txt b E \<Longrightarrow> gives (p_bind (p_return a) g) txt b E"
  by (simp add: gives_def p_bind_def p_return_def)

lemma gives_if_yes:
  assumes "\<And>r. E r \<Longrightarrow> \<exists>t. starts (txt @ r) t \<and> t \<in> set ts" "gives f txt a E"
  shows "gives (p_if ts f g) txt a E"
  using assms unfolding gives_def by (simp add: at) (metis reads_type)

lemma gives_if_none: "gives g txt a E \<Longrightarrow> gives (p_if [] f g) txt a E"
  by (simp add: gives_def at)

lemma gives_args:
  assumes "\<forall>e \<in> set es. printable e \<and> parses_u ff e"
    "4 * length (join_comma (map (exprString ff) es)) + 2 \<le> k"
  shows "gives (p_bind (p_if [T_RPAREN] (p_return []) (p_if [] f (parse_exprs k (parsers k))))
      (\<lambda>args. p_then (p_accept T_RPAREN) (p_return (h args))))
    (join_comma (map (exprString ff) es) @ '')'') (h es) E"
proof (cases "es = []")
  case True
  have "gives (p_if [T_RPAREN] (p_return []) (p_if [] f (parse_exprs k (parsers k)))) [] [] (\<lambda>r. \<exists>r'. r = CHR '')'' # r')"
    by (rule gives_if_yes [OF _ gives_return]) (use starts_symbol(2) in auto)
  from gives_bind [OF this gives_close] show ?thesis using True by simp
next
  case False
  have n: "\<exists>t. starts (join_comma (map (exprString ff) es) @ r) t \<and> t \<notin> set [T_RPAREN]" if "no_comma ends_binary r" for r
  proof -
    obtain e es' where e: "es = e # es'" using False by (cases es) auto
    have "boundary r" using that by (simp add: no_comma_def ends_binary_def)
    have "\<exists>r'. join_comma (map (exprString ff) es) @ r = exprString ff e @ r' \<and> boundary r'"
      using e \<open>boundary r\<close> by (cases es') auto
    then show ?thesis using starts_expr_not [of e _ "[T_RPAREN]" ff] assms(1) e by (auto simp: starters_def)
  qed
  have "gives (p_if [T_RPAREN] (p_return []) (p_if [] f (parse_exprs k (parsers k))))
      (join_comma (map (exprString ff) es)) es (no_comma ends_binary)"
    by (rule gives_if_no [OF n], assumption, rule gives_if_none, rule gives_exprs)
      (use assms False in auto)
  from gives_bind [OF this gives_close] show ?thesis by (simp add: no_comma_close)
qed

lemma parses_call:
  assumes "printable (FunctionCall f es)" "\<forall>e \<in> set es. parses_u ff e"
  shows "parses_u ff (FunctionCall f es)"
proof (rule parses_uI' [OF assms(1)])
  fix k assume k: "4 * length (exprString ff (FunctionCall f es)) \<le> Suc k"
  let ?t = "join_comma (map (exprString ff) es) @ '')''"
  let ?g = "parsers k"
  have f: "plain_name f" "\<not> isAggregateName f" using assms(1) by simp_all
  have "gives (parse_call k ?g f) ?t (FunctionCall f es) ends_unary"
    unfolding parse_call_def using f(2) assms k
    by (simp only: if_False) (rule gives_bind_pure, simp only: if_False, rule gives_args, auto simp: list_all_iff)
  from gives_when_yes [OF _ this, of "''(''" T_LPAREN "''(''" LNil]
  have "gives (p_when T_LPAREN (parse_call k ?g f) (p_return (Ident f))) (''('' @ ?t) (FunctionCall f es) ends_unary"
    using lexes_open by simp
  then have c: "gives (parse_name k ?g f) (''('' @ ?t) (FunctionCall f es) ends_unary"
    unfolding parse_name_def
  proof (rule gives_when_no [rotated])
    show "\<exists>t'. starts ((''('' @ ?t) @ r) t' \<and> t' \<noteq> T_DOT" for r
      using starts_symbol(1) [of "?t @ r"] by (intro exI [of _ T_LPAREN]) simp
  qed
  show "gives (parsePrimary k ?g) (exprString ff (FunctionCall f es)) (FunctionCall f es) ends_unary"
    unfolding gives_def
  proof (intro allI impI)
    fix r p assume r: "ends_unary r" and p: "reads (exprString ff (FunctionCall f es) @ r) p"
    have "lexes (exprString ff (FunctionCall f es) @ r) T_IDENT f LNil (''('' @ ?t @ r)"
      using lexes_name [OF f(1), of "''('' @ ?t @ r"] by simp
    note q = reads_token [OF p this]
    obtain p' where "parse_name k ?g f (nxt p) = Parsed (FunctionCall f es) p'" "reads r p'" "frame p' = frame (nxt p)"
      using c [unfolded gives_def, rule_format, OF r, of "nxt p"] q(4) by auto
    then show "\<exists>p'. parsePrimary k ?g p = Parsed (FunctionCall f es) p' \<and> reads r p' \<and> frame p' = frame p"
      using q by (simp add: parsePrimary_def at)
  qed
qed simp


subsection \<open>Unary operators, CASE, CAST\<close>

lemma gives_kw: "(w, t) \<in> set words \<Longrightarrow> (\<And>r. E r \<Longrightarrow> boundary r) \<Longrightarrow> gives (p_accept t) w () E"
  by (rule gives_accept) (blast intro: lexes_kw)

lemma gives_when_kw:
  "(w, t) \<in> set words \<Longrightarrow> (\<And>r. E r \<Longrightarrow> boundary (u @ r)) \<Longrightarrow> gives f u a E \<Longrightarrow> gives (p_when t f g) (w @ u) a E"
  by (rule gives_when_yes) (auto intro: lexes_kw)

lemma parses_unary:
  assumes "printable (UnaryExpr op e)" "parses_u ff e"
  shows "parses_u ff (UnaryExpr op e)"
  unfolding parses_u_def
proof (intro allI impI)
  fix n assume n: "4 * length (exprString ff (UnaryExpr op e)) \<le> n"
  have op: "op = T_NOT \<or> op = T_MINUS \<and> \<not> is_minus e" "printable e" using assms(1) by auto
  have l: "0 < length (exprString ff (UnaryExpr op e)) \<and> length (exprString ff e) < length (exprString ff (UnaryExpr op e))"
    using op(1) by (auto simp: opString_def op_strings_def)
  then obtain k where k: "n = Suc k" "4 * length (exprString ff e) \<le> k" using n by (cases n) auto
  have u: "gives (g_unary (parsers k)) (exprString ff e) e ends_unary"
    using assms(2) k(2) by (simp add: parses_u_def)
  have e: "gives (p_bind (g_unary (parsers k)) (\<lambda>x. p_return (UnaryExpr op x))) (exprString ff e) (UnaryExpr op e) ends_unary"
    by (rule gives_end [OF u gives_return])
  show "gives (g_unary (parsers n)) (exprString ff (UnaryExpr op e)) (UnaryExpr op e) ends_unary"
  proof (cases "op = T_NOT")
    case True
    have "gives (parseUnary k (parsers k)) (''NOT'' @ CHR '' '' # exprString ff e) (UnaryExpr op e) ends_unary"
      unfolding parseUnary_def
      by (rule gives_case_yes [where t = T_NOT and x = "''NOT''" and v = LNil])
        (use gives_space [OF e] lexes_kw [of "''NOT''" T_NOT] True in \<open>simp_all add: words_def\<close>)
    then show ?thesis unfolding k(1) unary_Suc using True by (simp add: opString_def op_strings_def)
  next
    case False
    then have m: "op = T_MINUS" "\<not> is_minus e" using op(1) by simp_all
    have l: "lexes (CHR ''-'' # exprString ff e @ r) T_MINUS ''-'' LNil (exprString ff e @ r)" for r
      using not_minus_char(1) [OF op(2) m(2), of ff r] by (intro lexes_minus) blast
    have "gives (parseUnary k (parsers k)) (''-'' @ exprString ff e) (UnaryExpr op e) ends_unary"
      unfolding parseUnary_def
      by (rule gives_case_yes [where t = T_MINUS and x = "''-''" and v = LNil]) (use l e m(1) in simp_all)
    then show ?thesis unfolding k(1) unary_Suc using m(1) by (simp add: opString_def op_strings_def)
  qed
qed

lemma gives_type:
  assumes "t \<in> set printed_types"
  shows "gives parseCastType (typeName t) (type_of t 0 0 0) (\<lambda>r. \<exists>r'. r = CHR '')'' # r')"
  unfolding gives_def
proof (intro allI impI)
  fix r p assume r: "\<exists>r'. r = CHR '')'' # r'" and p: "reads (typeName t @ r) p"
  have "(typeName t, t) \<in> set words" using assms by (auto simp: typeName_def words_def printed_types_def)
  from reads_token [OF p lexes_kw [OF this]]
  have q: "p_type p = t" "reads r (nxt p)" using r by auto
  have "p_type (nxt p) = T_RPAREN" using r reads_type [OF q(2)] starts_symbol(2) by blast
  then show "\<exists>p'. parseCastType p = Parsed (type_of t 0 0 0) p' \<and> reads r p' \<and> frame p' = frame p"
    using q assms by (auto simp: parseCastType_def parseTypeSize_def printed_types_def at bind_cases)
qed

lemma gives_primary_kw:
  assumes "(w, t) \<in> set words" "\<And>r. E r \<Longrightarrow> boundary (u @ r)" "gives f u a E"
    "(t, f) \<in> set [(T_CASE, parseCaseExpr k g), (T_CAST, parseCast g)]"
  shows "gives (parsePrimary k g) (w @ u) a E"
  unfolding gives_def
proof (intro allI impI)
  fix r p assume r: "E r" and p: "reads ((w @ u) @ r) p"
  have l: "lexes ((w @ u) @ r) t w LNil (u @ r)" using lexes_kw [OF assms(1) assms(2) [OF r]] by simp
  note q = reads_token [OF p l]
  obtain p' where "f (nxt p) = Parsed a p'" "reads r p'" "frame p' = frame (nxt p)"
    using assms(3) [unfolded gives_def, rule_format, OF r q(4)] by blast
  then show "\<exists>p'. parsePrimary k g p = Parsed a p' \<and> reads r p' \<and> frame p' = frame p"
    using q(1) assms(4) by (auto simp: parsePrimary_def at)
qed

lemma parses_cast:
  assumes "printable (CastExpr e ty)" "parses_u ff e"
  shows "parses_u ff (CastExpr e ty)"
proof (rule parses_uI' [OF assms(1)])
  fix k assume k: "4 * length (exprString ff (CastExpr e ty)) \<le> Suc k"
  obtain ti where ti: "ty = Some ti" "ti_type ti \<in> set printed_types" "ti = type_of (ti_type ti) 0 0 0"
    using assms(1) by (auto split: option.splits)
  let ?g = "parsers k" and ?r = "CastExpr e ty"
  have e: "gives (parseExpr ?g) (exprString ff e) e ends_binary"
    using k by (intro parses_bD parses_b_of_u assms(2)) simp
  have t: "gives parseCastType (typeName (ti_type ti)) ti (\<lambda>r. \<exists>r'. r = CHR '')'' # r')"
    using gives_type [OF ti(2)] ti(3) by simp
  have s1: "gives (p_bind parseCastType (\<lambda>ty. p_then (p_accept T_RPAREN) (p_return (CastExpr e (Some ty)))))
      (typeName (ti_type ti) @ '')'') ?r ends_unary"
    by (rule gives_bind [where a = ti, OF t]) (use gives_close ti(1) in auto)
  have s2: "gives (p_then (p_accept T_AS) (p_bind parseCastType (\<lambda>ty. p_then (p_accept T_RPAREN) (p_return (CastExpr e (Some ty))))))
      (''AS'' @ CHR '' '' # typeName (ti_type ti) @ '')'') ?r ends_unary"
    by (rule gives_then [where a = "()", OF gives_kw [of "''AS''" T_AS boundary] gives_space [OF s1]]) (auto simp: words_def)
  have s3: "gives (p_bind (parseExpr ?g) (\<lambda>e. p_then (p_accept T_AS) (p_bind parseCastType (\<lambda>ty. p_then (p_accept T_RPAREN) (p_return (CastExpr e (Some ty)))))))
      (exprString ff e @ CHR '' '' # ''AS'' @ CHR '' '' # typeName (ti_type ti) @ '')'') ?r ends_unary"
    by (rule gives_bind [where a = e, OF e], rule gives_space [OF s2])
      (use ends_kw(2) [of "''AS''" T_AS] in \<open>simp add: words_def isBinaryOp_def\<close>)
  have s4: "gives (parseCast ?g)
      (''('' @ exprString ff e @ CHR '' '' # ''AS'' @ CHR '' '' # typeName (ti_type ti) @ '')'') ?r ends_unary"
    unfolding parseCast_def by (rule gives_then [where a = "()", OF gives_symbol(1) [of "\<lambda>_. True"] s3]) simp
  from gives_primary_kw [OF _ _ s4, of "''CAST''" T_CAST k]
  show "gives (parsePrimary k ?g) (exprString ff ?r) ?r ends_unary"
    unfolding ti(1) by (simp add: words_def)
qed simp

definition when_text :: "(f64 \<Rightarrow> string) \<Rightarrow> expr \<times> expr \<Rightarrow> string" where
  "when_text ff w = '' WHEN '' @ exprString ff (fst w) @ '' THEN '' @ exprString ff (snd w)"

definition ends_when :: "string \<Rightarrow> bool" where
  "ends_when r \<longleftrightarrow> ends_binary r \<and> (\<exists>t. starts r t \<and> t \<noteq> T_WHEN)"

lemma gives_whens:
  assumes "\<forall>w \<in> set ws. parses_u ff (fst w) \<and> parses_u ff (snd w)"
    "4 * length (concat (map (when_text ff) ws)) + 2 \<le> k" "length ws < n"
  shows "gives (when_loop n (parsers k)) (concat (map (when_text ff) ws)) ws ends_when"
  using assms
proof (induction ws arbitrary: n)
  case Nil
  then obtain m where n: "n = Suc m" by (cases n) auto
  have "gives (when_loop n (parsers k)) [] [] ends_when"
    unfolding n when_loop.simps(2) by (rule gives_when_no [OF _ gives_return]) (simp add: ends_when_def)
  then show ?case by simp
next
  case (Cons w ws)
  then obtain m where n: "n = Suc m" by (cases n) auto
  obtain c e where w: "w = (c, e)" by (cases w)
  let ?g = "parsers k" and ?ws = "concat (map (when_text ff) ws)"
  have c: "gives (parseExpr ?g) (exprString ff c) c ends_binary" and e: "gives (parseExpr ?g) (exprString ff e) e ends_binary"
    using Cons.prems(1,2) w by (auto intro!: parses_bD parses_b_of_u simp: when_text_def)
  have "gives (when_loop m ?g) ?ws ws ends_when" using Cons.IH [of m] Cons.prems n by (simp add: when_text_def [abs_def])
  from gives_end [OF this gives_return]
  have s1: "gives (p_bind (when_loop m ?g) (\<lambda>ws. p_return ((c, e) # ws))) ?ws ((c, e) # ws) ends_when" .
  have b: "ends_binary (?ws @ r)" if "ends_when r" for r
    using that ends_kw(2) [of "''WHEN''" T_WHEN]
    by (cases ws) (auto simp: ends_when_def when_text_def words_def isBinaryOp_def)
  have s2: "gives (p_bind (parseExpr ?g) (\<lambda>r. p_bind (when_loop m ?g) (\<lambda>ws. p_return ((c, r) # ws))))
      (exprString ff e @ ?ws) ((c, e) # ws) ends_when"
    by (rule gives_bind [where a = e, OF e], rule s1, rule b)
  have s3: "gives (p_then (p_accept T_THEN) (p_bind (parseExpr ?g) (\<lambda>r. p_bind (when_loop m ?g) (\<lambda>ws. p_return ((c, r) # ws)))))
      (''THEN'' @ CHR '' '' # exprString ff e @ ?ws) ((c, e) # ws) ends_when"
    by (rule gives_then [where a = "()", OF gives_kw [of "''THEN''" T_THEN boundary] gives_space [OF s2]]) (auto simp: words_def)
  have s4: "gives (p_bind (parseExpr ?g) (\<lambda>c. p_then (p_accept T_THEN) (p_bind (parseExpr ?g)
        (\<lambda>r. p_bind (when_loop m ?g) (\<lambda>ws. p_return ((c, r) # ws))))))
      (exprString ff c @ CHR '' '' # ''THEN'' @ CHR '' '' # exprString ff e @ ?ws) ((c, e) # ws) ends_when"
    by (rule gives_bind [where a = c, OF c], rule gives_space [OF s3])
      (use ends_kw(2) [of "''THEN''" T_THEN] in \<open>simp add: words_def isBinaryOp_def\<close>)
  have "gives (when_loop n ?g) (''WHEN'' @ CHR '' '' # exprString ff c @ CHR '' '' # ''THEN'' @ CHR '' '' # exprString ff e @ ?ws)
      ((c, e) # ws) ends_when"
    unfolding n when_loop.simps(2)
    by (rule gives_when_kw [OF _ _ gives_space [OF s4]]) (simp_all add: words_def)
  from gives_space [OF this] show ?case by (simp add: w when_text_def [abs_def])
qed

definition else_text :: "(f64 \<Rightarrow> string) \<Rightarrow> expr \<Rightarrow> string" where
  "else_text ff els = (if els \<noteq> ENil then '' ELSE '' @ exprString ff els else [])"

lemma case_string:
  "exprString ff (CaseExpr e ws els) =
     ''CASE'' @ (if e \<noteq> ENil then '' '' @ exprString ff e else []) @ concat (map (when_text ff) ws) @ else_text ff els @ '' END''"
  by (simp add: else_text_def when_text_def [abs_def])

lemma gives_opt_no:
  "(\<And>r. E r \<Longrightarrow> \<exists>t'. starts r t' \<and> t' \<noteq> t) \<Longrightarrow> gives (opt_expr t g) [] ENil E"
  unfolding opt_expr_def by (rule gives_when_no [OF _ gives_return]) simp

lemma gives_opt_yes:
  assumes "(w, t) \<in> set words" "gives (parseExpr g) u e E"
  shows "gives (opt_expr t g) (CHR '' '' # w @ CHR '' '' # u) e E"
  unfolding opt_expr_def by (rule gives_space, rule gives_when_kw [OF assms(1) _ gives_space [OF assms(2)]]) simp

lemma parses_case:
  assumes "printable (CaseExpr e ws els)" "e \<noteq> ENil \<Longrightarrow> parses_u ff e"
    "\<forall>w \<in> set ws. parses_u ff (fst w) \<and> parses_u ff (snd w)" "els \<noteq> ENil \<Longrightarrow> parses_u ff els"
  shows "parses_u ff (CaseExpr e ws els)"
proof (rule parses_uI' [OF assms(1)])
  fix k assume k: "4 * length (exprString ff (CaseExpr e ws els)) \<le> Suc k"
  let ?g = "parsers k" and ?r = "CaseExpr e ws els" and ?ws = "concat (map (when_text ff) ws)"
  have END: "ends_binary (CHR '' '' # ''END'' @ r)" "starts (CHR '' '' # ''END'' @ r) T_END" if "boundary r" for r
    using that ends_kw(2) [of "''END''" T_END r] starts_space [OF starts_kw [of "''END''" T_END r]]
    by (simp_all add: words_def isBinaryOp_def)
  have ELSE: "ends_binary (CHR '' '' # ''ELSE'' @ CHR '' '' # r)" "starts (CHR '' '' # ''ELSE'' @ CHR '' '' # r) T_ELSE" for r
    using ends_kw(2) [of "''ELSE''" T_ELSE "CHR '' '' # r"] starts_space [OF starts_kw [of "''ELSE''" T_ELSE "CHR '' '' # r"]]
    by (simp_all add: words_def isBinaryOp_def)
  let ?stop = "\<lambda>r. \<exists>r'. boundary r' \<and> r = CHR '' '' # ''END'' @ r'"
  have s1: "gives (p_then (p_accept T_END) (p_return ?r)) (CHR '' '' # ''END'') ?r boundary"
    using gives_space [OF gives_then [where a = "()", OF gives_kw [of "''END''" T_END boundary] gives_return, of boundary ?r]]
    by (simp add: words_def)
  have els: "gives (opt_expr T_ELSE ?g) (else_text ff els) els ?stop"
  proof (cases "els = ENil")
    case True
    show ?thesis unfolding True else_text_def
      using gives_opt_no [of ?stop T_ELSE ?g] END(2) by fastforce
  next
    case False
    have "gives (parseExpr ?g) (exprString ff els) els ends_binary"
      using k False by (intro parses_bD parses_b_of_u assms(4)) simp_all
    from gives_weaken [OF gives_opt_yes [OF _ this, of "''ELSE''" T_ELSE], of ?stop] False END(1)
    show ?thesis by (auto simp: else_text_def words_def)
  qed
  have s2: "gives (p_bind (opt_expr T_ELSE ?g) (\<lambda>els. p_then (p_accept T_END) (p_return (CaseExpr e ws els))))
      (else_text ff els @ '' END'') ?r boundary"
    by (rule gives_bind [where a = els, OF els]) (use s1 in auto)
  have t: "ends_binary (else_text ff els @ '' END'' @ r)"
    "\<exists>t. starts (else_text ff els @ '' END'' @ r) t \<and> t \<noteq> T_WHEN" if "boundary r" for r
    using END [OF that] ELSE by (fastforce simp: else_text_def)+
  have "length ws \<le> length ?ws" by (induction ws) (auto simp: when_text_def)
  then have wl: "gives (when_loop k ?g) ?ws ws ends_when"
    using k assms(3) by (intro gives_whens) (simp_all only: case_string, auto)
  have s3: "gives (p_bind (when_loop k ?g) (\<lambda>ws. p_bind (opt_expr T_ELSE ?g) (\<lambda>els. p_then (p_accept T_END) (p_return (CaseExpr e ws els)))))
      (?ws @ else_text ff els @ '' END'') ?r boundary"
    by (rule gives_bind [where a = ws, OF wl], rule s2) (use t in \<open>auto simp: ends_when_def\<close>)
  let ?e = "if e \<noteq> ENil then '' '' @ exprString ff e else []"
  have WHEN: "starts (?ws @ r) T_WHEN" "ends_binary (?ws @ r)" if "ws \<noteq> []" for r
    using that ends_kw(2) [of "''WHEN''" T_WHEN] starts_space [OF starts_kw [of "''WHEN''" T_WHEN]]
    by (cases ws; simp add: when_text_def words_def isBinaryOp_def)+
  let ?f = "p_bind (p_if [T_WHEN] (p_return ENil) (parseExpr ?g)) (\<lambda>e. p_bind (when_loop k ?g)
       (\<lambda>ws. p_bind (opt_expr T_ELSE ?g) (\<lambda>els. p_then (p_accept T_END) (p_return (CaseExpr e ws els)))))"
  have s4: "gives (parseCaseExpr k ?g) (?e @ ?ws @ else_text ff els @ '' END'') ?r boundary"
    unfolding parseCaseExpr_def
  proof (cases "e = ENil")
    case True
    then have "ws \<noteq> []" using assms(1) by simp
    have f: "gives (p_if [T_WHEN] (p_return ENil) (parseExpr ?g)) [] e (\<lambda>r. starts r T_WHEN)"
      unfolding True by (intro gives_if_yes gives_return) auto
    have "gives ?f ([] @ ?ws @ else_text ff els @ '' END'') ?r boundary"
      by (rule gives_bind [where a = e, OF f], rule s3) (use WHEN(1) [OF \<open>ws \<noteq> []\<close>] in simp)
    then show "gives ?f (?e @ ?ws @ else_text ff els @ '' END'') ?r boundary" using True by simp
  next
    case False
    then have p: "printable e" "parses_u ff e" using assms(1,2) by auto
    have b: "gives (parseExpr ?g) (exprString ff e) e ends_binary"
      using k False by (intro parses_bD parses_b_of_u p(2)) simp
    have f: "gives (p_if [T_WHEN] (p_return ENil) (parseExpr ?g)) (exprString ff e) e ends_binary"
    proof (rule gives_if_no [OF _ b])
      show "\<exists>t. starts (exprString ff e @ r) t \<and> t \<notin> set [T_WHEN]" if "ends_binary r" for r
        using starts_expr_not [OF p(1), of r "[T_WHEN]" ff] that by (simp add: ends_binary_def starters_def)
    qed
    have "ends_binary ((?ws @ else_text ff els @ '' END'') @ r)" if "boundary r" for r
      using WHEN(2) t(1) [OF that] by (cases "ws = []") auto
    then have "gives ?f (exprString ff e @ ?ws @ else_text ff els @ '' END'') ?r boundary"
      by (intro gives_bind [where a = e, OF f] s3)
    from gives_space [OF this] show "gives ?f (?e @ ?ws @ else_text ff els @ '' END'') ?r boundary" using False by simp
  qed
  have bd: "boundary ((?e @ ?ws @ else_text ff els @ '' END'') @ r)" for r
    by (cases ws) (auto simp: when_text_def else_text_def)
  show "gives (parsePrimary k ?g) (exprString ff ?r) ?r ends_unary"
    unfolding case_string
    by (rule gives_weaken [OF gives_primary_kw [OF _ bd s4] ends_boundary]) (auto simp: words_def)
qed simp

lemma parses_printable: "printable e \<Longrightarrow> parses_u ff e"
proof (induction e rule: printable.induct)
  case (3 b)
  have "(exprString ff (BoolLiteral b), if b then T_TRUE else T_FALSE) \<in> set words" by (cases b) (simp_all add: words_def)
  then show ?case by (rule parses_word) simp
next
  case 4
  have "(exprString ff NullLiteral, T_NULL) \<in> set words" by (simp add: words_def)
  then show ?case by (rule parses_word) simp
next
  case (1 n)
  then show ?case by (intro parses_literal_number) simp_all
next
  case (2 s)
  then show ?case by (intro parses_string) simp_all
next
  case (5 x)
  then show ?case by (intro parses_ident) simp
next
  case (6 op l r)
  then show ?case by (intro parses_binary) simp_all
next
  case (7 op e)
  then show ?case by (intro parses_unary) simp_all
next
  case (8 f es)
  then show ?case by (intro parses_call) (simp_all add: list_all_iff)
next
  case (9 e ws els)
  show ?case
  proof (rule parses_case [OF 9(5)])
    show "\<forall>w \<in> set ws. parses_u ff (fst w) \<and> parses_u ff (snd w)"
    proof
      fix w assume "w \<in> set ws"
      then show "parses_u ff (fst w) \<and> parses_u ff (snd w)" using 9 by (simp add: list_all_iff)
    qed
  qed (use 9 in simp_all)
next
  case (10 e ty)
  then show ?case by (intro parses_cast) simp_all
qed simp_all

end
