(* ===== verification/Sql_Roundtrip_Select.thy ===== *)
theory Sql_Roundtrip_Select
  imports Sql_Roundtrip
begin

text \<open>
  The round trip of the printer for SELECT: the parser reads the printed statement back.
\<close>

subsection \<open>SELECT is read back\<close>

text \<open>What may follow a part of a statement: one of the tokens \<open>ts\<close>.\<close>

definition follow :: "int list \<Rightarrow> string \<Rightarrow> bool" where
  "follow ts r \<longleftrightarrow> ends_binary r \<and> (\<exists>t. starts r t \<and> t \<in> set ts)"

lemma follow_end: "follow [T_EOF] []"
  using ends_symbols(3) lexes_end by (auto simp: follow_def starts_def)

lemma follow_mono: "follow ts r \<Longrightarrow> set ts \<subseteq> set ts' \<Longrightarrow> follow ts' r"
  by (auto simp: follow_def)

lemma follow_kw:
  assumes "(w, t) \<in> set words" "t \<notin> set [T_IN, T_BETWEEN, T_NOT]" "\<not> isBinaryOp t" "boundary r"
  shows "follow (t # ts) (CHR '' '' # w @ r)"
  unfolding follow_def using ends_kw(2) [OF assms(1,4,2,3)] starts_space [OF starts_kw [OF assms(1,4)]] by auto

lemma follow_opt:
  assumes "(w, t) \<in> set words" "t \<notin> set [T_IN, T_BETWEEN, T_NOT]" "\<not> isBinaryOp t" "follow ts r"
  shows "follow (t # ts) ((if c then CHR '' '' # w @ CHR '' '' # u else []) @ r)"
  using follow_kw [OF assms(1-3), of "CHR '' '' # u @ r" ts] follow_mono [OF assms(4), of "t # ts"] by auto

lemma gives_none:
  assumes "t \<notin> set ts"
  shows "gives (p_when t f (p_return a)) [] a (follow ts)"
proof (rule gives_when_no [OF _ gives_return])
  show "\<exists>t'. starts ([] @ r) t' \<and> t' \<noteq> t" if "follow ts r" for r using that assms by (auto simp: follow_def)
qed

lemma gives_none_case:
  assumes "set ts \<inter> set ts' = {}"
  shows "gives (p_case ts' f (p_return a)) [] a (follow ts)"
proof (rule gives_case_no [OF _ gives_return])
  show "\<exists>t'. starts ([] @ r) t' \<and> t' \<notin> set ts'" if "follow ts r" for r using that assms by (auto simp: follow_def)
qed

lemma gives_opt_word:
  assumes "(w, t) \<in> set words" "t \<notin> set ts" "c \<Longrightarrow> gives f u a (follow ts)" "\<not> c \<Longrightarrow> a = b"
  shows "gives (p_when t f (p_return b)) (if c then CHR '' '' # w @ CHR '' '' # u else []) a (follow ts)"
proof (cases c)
  case True
  have "gives (p_when t f (p_return b)) (w @ CHR '' '' # u) a (follow ts)"
    by (rule gives_when_kw [OF assms(1) _ gives_space [OF assms(3) [OF True]]]) simp
  from gives_space [OF this] show ?thesis using True by simp
qed (use gives_none [OF assms(2)] assms(4) in simp)

lemma follow_binary: "follow ts r \<Longrightarrow> ends_binary r"
  by (simp add: follow_def)

lemma follow_no_comma: "follow ts r \<Longrightarrow> T_COMMA \<notin> set ts \<Longrightarrow> no_comma (follow ts) r"
  by (auto simp: follow_def no_comma_def)

definition opt_printable :: "expr \<Rightarrow> bool" where
  "opt_printable e \<longleftrightarrow> (e \<noteq> ENil \<longrightarrow> printable e)"

lemma gives_clause:
  assumes "(w, t) \<in> set words" "t \<notin> set ts" "opt_printable e" "4 * length (clause ff (CHR '' '' # w @ '' '') e) \<le> k"
  shows "gives (opt_expr t (parsers k)) (clause ff (CHR '' '' # w @ '' '') e) e (follow ts)"
proof -
  have "gives (parseExpr (parsers k)) (exprString ff e) e (follow ts)" if "e \<noteq> ENil"
    by (rule gives_weaken [OF parses_bD follow_binary])
      (use that assms(3,4) in \<open>auto simp: opt_printable_def clause_def intro!: parses_b_of_u parses_printable\<close>)
  from gives_opt_word [where c = "e \<noteq> ENil" and b = ENil, OF assms(1,2) this]
  show ?thesis by (cases "e = ENil") (simp_all add: opt_expr_def clause_def)
qed

text \<open>A name, an item of the select list, an item of ORDER BY.\<close>

lemma gives_ident: "plain_name x \<Longrightarrow> (\<And>r. E r \<Longrightarrow> boundary r) \<Longrightarrow> gives p_ident x x E"
  unfolding gives_def using reads_token [OF _ lexes_name] ident_at by (metis frame_nxt)

fun printable_item :: "expr \<Rightarrow> bool" where
  "printable_item (AliasedExpr e a) = (printable e \<and> plain_name a)"
| "printable_item e = printable e"

definition ends_item :: "string \<Rightarrow> bool" where
  "ends_item r \<longleftrightarrow> ends_binary r \<and> (\<exists>t. starts r t \<and> t \<noteq> T_AS)"

lemma gives_item:
  assumes "printable_item c" "4 * length (exprString ff c) + 2 \<le> k"
  shows "gives (select_item (parsers k)) (exprString ff c) c ends_item"
proof (cases "\<exists>e a. c = AliasedExpr e a")
  case True
  then obtain e a where c: "c = AliasedExpr e a" by blast
  then have e: "gives (parseExpr (parsers k)) (exprString ff e) e ends_binary" and a: "plain_name a"
    using assms by (auto intro!: parses_bD parses_b_of_u parses_printable)
  have i: "gives (p_bind p_ident (\<lambda>a. p_return (AliasedExpr e a))) a c ends_item"
    unfolding c by (rule gives_end [where a = a, OF gives_ident [OF a, of boundary] gives_return])
      (auto simp: ends_item_def ends_binary_def)
  have w: "gives (p_when T_AS (p_bind p_ident (\<lambda>a. p_return (AliasedExpr e a))) (p_return e))
      (''AS'' @ CHR '' '' # a) c ends_item"
    by (rule gives_when_kw [OF _ _ gives_space [OF i]]) (simp_all add: words_def)
  have "gives (select_item (parsers k)) (exprString ff e @ CHR '' '' # ''AS'' @ CHR '' '' # a) c ends_item"
    unfolding select_item_def
    by (rule gives_bind [where a = e, OF e], rule gives_space [OF w])
      (use ends_kw(2) [of "''AS''" T_AS] in \<open>simp add: words_def isBinaryOp_def\<close>)
  then show ?thesis by (simp add: c)
next
  case False
  then have "printable c" using assms(1) by (cases c) auto
  then have e: "gives (parseExpr (parsers k)) (exprString ff c) c ends_binary"
    using assms(2) by (intro parses_bD parses_b_of_u parses_printable)
  have "gives (p_when T_AS f (p_return c)) [] c ends_item" for f
    by (rule gives_when_no [OF _ gives_return]) (simp add: ends_item_def)
  then show ?thesis unfolding select_item_def
    by (rule gives_end [where a = c, OF e]) (simp add: ends_item_def)
qed

definition ends_order :: "string \<Rightarrow> bool" where
  "ends_order r \<longleftrightarrow> ends_binary r \<and> (\<exists>t. starts r t \<and> t \<notin> set [T_ASC, T_DESC])"

lemma gives_order_item:
  assumes "printable e" "4 * length (order_item ff (e, d)) + 2 \<le> k"
  shows "gives (p_bind (parseExpr (parsers k)) (\<lambda>e. p_bind parse_direction (\<lambda>d. p_return (e, d)))) (order_item ff (e, d)) (e, d) ends_order"
proof -
  have e: "gives (parseExpr (parsers k)) (exprString ff e) e ends_binary"
    using assms by (intro parses_bD parses_b_of_u parses_printable) (simp_all add: order_item_def)
  have dir: "gives parse_direction (if d then '' DESC'' else []) d ends_order"
  proof (cases d)
    case True
    have l: "lexes (''DESC'' @ r) T_DESC ''DESC'' LNil r" if "ends_order r" for r
      using lexes_kw [of "''DESC''" T_DESC r] that by (simp add: words_def ends_order_def ends_binary_def)
    have "gives (p_when T_ASC (p_return False) (p_when T_DESC (p_return True) (p_return False))) (''DESC'' @ []) True ends_order"
    proof (rule gives_when_no)
      show "\<exists>t'. starts ((''DESC'' @ []) @ r) t' \<and> t' \<noteq> T_ASC" if "ends_order r" for r
        using l [OF that] by (intro exI [of _ T_DESC]) (auto simp: starts_def)
      show "gives (p_when T_DESC (p_return True) (p_return False)) (''DESC'' @ []) True ends_order"
        by (rule gives_when_yes [OF _ gives_return]) (use l in auto)
    qed
    then show ?thesis using True gives_space [of parse_direction "''DESC''"] by (simp add: parse_direction_def)
  next
    case False
    have "gives (p_when T_ASC (p_return False) (p_when T_DESC (p_return True) (p_return False))) [] False ends_order"
      by (intro gives_when_no gives_return) (auto simp: ends_order_def)
    then show ?thesis using False by (simp add: parse_direction_def)
  qed
  have "gives (p_bind parse_direction (\<lambda>d. p_return (e, d))) (if d then '' DESC'' else []) (e, d) ends_order"
    by (rule gives_end [where a = d, OF dir gives_return])
  then have "gives (p_bind (parseExpr (parsers k)) (\<lambda>e. p_bind parse_direction (\<lambda>d. p_return (e, d))))
      (exprString ff e @ (if d then '' DESC'' else [])) (e, d) ends_order"
  proof (rule gives_bind [where a = e, OF e])
    show "ends_binary ((if d then '' DESC'' else []) @ r)" if "ends_order r" for r
      using that ends_kw(2) [of "''DESC''" T_DESC r] by (simp add: ends_order_def words_def isBinaryOp_def ends_binary_def)
  qed
  then show ?thesis by (simp add: order_item_def)
qed

text \<open>The SELECT of a FROM clause and the tables of a comma list pass through the parser's state. \<open>tidy\<close>: they are
  empty; \<open>yields\<close> is \<open>gives\<close> in such a state.\<close>

definition tidy :: "parser \<Rightarrow> bool" where
  "tidy p \<longleftrightarrow> ps_joins p = [] \<and> ps_subquery p = SNil"

definition yields :: "'a pm \<Rightarrow> string \<Rightarrow> 'a \<Rightarrow> (string \<Rightarrow> bool) \<Rightarrow> bool" where
  "yields f t a E \<longleftrightarrow>
     (\<forall>r p. E r \<longrightarrow> tidy p \<longrightarrow> reads (t @ r) p \<longrightarrow> (\<exists>p'. f p = Parsed a p' \<and> reads r p' \<and> frame p' = frame p))"

lemma yields_gives: "gives f t a E \<Longrightarrow> yields f t a E"
  by (simp add: yields_def gives_def)

lemma yields_pure: "(\<And>p. tidy p \<Longrightarrow> f p = Parsed a p) \<Longrightarrow> yields f [] a E"
  by (simp add: yields_def)

lemma tidy_frame: "frame q = frame p \<Longrightarrow> tidy q = tidy p"
  by (simp add: frame_def tidy_def)

lemma yields_bind:
  assumes "yields f t1 a E1" "yields (g a) t2 b E2" "\<And>r. E2 r \<Longrightarrow> E1 (t2 @ r)"
  shows "yields (p_bind f g) (t1 @ t2) b E2"
  unfolding yields_def
proof (intro allI impI)
  fix r p assume r: "E2 r" and c: "tidy p" and p: "reads ((t1 @ t2) @ r) p"
  obtain q where q: "f p = Parsed a q" "reads (t2 @ r) q" "frame q = frame p"
    using assms(1) [unfolded yields_def, rule_format, OF assms(3) [OF r] c] p by auto
  then obtain p' where "g a q = Parsed b p'" "reads r p'" "frame p' = frame q"
    using assms(2) [unfolded yields_def, rule_format, OF r] c tidy_frame by blast
  then show "\<exists>p'. p_bind f g p = Parsed b p' \<and> reads r p' \<and> frame p' = frame p"
    using q by (simp add: bind_cases)
qed

lemma yields_then: "yields f t1 a E1 \<Longrightarrow> yields g t2 b E2 \<Longrightarrow> (\<And>r. E2 r \<Longrightarrow> E1 (t2 @ r)) \<Longrightarrow> yields (p_then f g) (t1 @ t2) b E2"
  unfolding p_then_def by (rule yields_bind)

lemma yields_silent: "yields f [] a E \<Longrightarrow> yields (g a) t b E2 \<Longrightarrow> (\<And>r. E2 r \<Longrightarrow> E (t @ r)) \<Longrightarrow> yields (p_bind f g) t b E2"
  using yields_bind [of f "[]" a E g t b E2] by simp

lemma yields_silent_then: "yields f [] a E \<Longrightarrow> yields g t b E2 \<Longrightarrow> (\<And>r. E2 r \<Longrightarrow> E (t @ r)) \<Longrightarrow> yields (p_then f g) t b E2"
  unfolding p_then_def by (rule yields_silent)

lemma yields_space: "yields f t a E \<Longrightarrow> yields f (CHR '' '' # t) a E"
  by (simp add: yields_def reads_space)

lemma yields_state:
  "yields (set_pending SNil) [] () E" "yields take_joins [] [] E" "yields get_pending [] SNil E"
  by (rule yields_pure; simp add: tidy_def set_pending_def take_joins_def get_pending_def)+

lemma gives_advance: "(w, t) \<in> set words \<Longrightarrow> gives p_advance w () boundary"
  unfolding gives_def using reads_token(4) [OF _ lexes_kw] advance_at by fastforce

definition printable_select :: "(expr, stmt) select \<Rightarrow> bool" where
  "printable_select s \<longleftrightarrow>
     (sel_cols s = [StarExpr] \<or> sel_cols s \<noteq> [] \<and> list_all printable_item (sel_cols s)) \<and>
     (if sel_from s = [] then sel_from_alias s = []
      else plain_name (sel_from s) \<and> (sel_from_alias s \<noteq> [] \<longrightarrow> plain_name (sel_from_alias s))) \<and>
     opt_printable (sel_where s) \<and> list_all (\<lambda>it. printable (fst it)) (sel_order_by s) \<and>
     opt_printable (sel_limit s) \<and> opt_printable (sel_offset s) \<and>
     sel_joins s = [] \<and> sel_group_by s = [] \<and> sel_having s = ENil \<and> sel_subquery_from s = SNil"

definition kw_opt :: "bool \<Rightarrow> string \<Rightarrow> string \<Rightarrow> string" where
  "kw_opt c w u = (if c then CHR '' '' # w @ CHR '' '' # u else [])"

definition select_list :: "(f64 \<Rightarrow> string) \<Rightarrow> (expr, stmt) select \<Rightarrow> string" where
  "select_list ff s = join_comma (map (exprString ff) (sel_cols s))"

definition trailing_text :: "(f64 \<Rightarrow> string) \<Rightarrow> (expr, stmt) select \<Rightarrow> string" where
  "trailing_text ff s =
     kw_opt (sel_order_by s \<noteq> []) ''ORDER'' (''BY'' @ CHR '' '' # join_comma (map (order_item ff) (sel_order_by s))) @
     clause ff '' LIMIT '' (sel_limit s) @ clause ff '' OFFSET '' (sel_offset s)"

definition from_text :: "(expr, stmt) select \<Rightarrow> string" where
  "from_text s = kw_opt (sel_from s \<noteq> []) ''FROM'' (sel_from s)"

definition alias_text :: "(expr, stmt) select \<Rightarrow> string" where
  "alias_text s = kw_opt (sel_from_alias s \<noteq> []) ''AS'' (sel_from_alias s)"

definition distinct_text :: "(expr, stmt) select \<Rightarrow> string" where
  "distinct_text s = (if sel_distinct s then ''DISTINCT'' @ '' '' else [])"

lemma select_string:
  "printable_select s \<Longrightarrow> formatSelect ff s =
     ''SELECT'' @ '' '' @ distinct_text s @ select_list ff s @ from_text s @ alias_text s @
     clause ff '' WHERE '' (sel_where s) @ trailing_text ff s"
  by (auto simp: formatSelect_def select_list_def trailing_text_def from_text_def alias_text_def distinct_text_def kw_opt_def
      printable_select_def split: if_splits)

lemma order_not_Nil: "printable (fst it) \<Longrightarrow> order_item ff it \<noteq> []"
  using not_Nil by (simp add: order_item_def)

lemma gives_order_items:
  assumes "\<forall>it \<in> set os. printable (fst it)" "os \<noteq> []" "4 * length (join_comma (map (order_item ff) os)) + 2 \<le> k"
  shows "gives (parse_order_items k (parsers k)) (join_comma (map (order_item ff) os)) os (no_comma ends_order)"
  unfolding parse_order_items_def
proof (rule gives_sep_list)
  show "length os \<le> k" using count_join [of "map (order_item ff) os"] assms(1,3) order_not_Nil by force
  show "\<forall>it \<in> set os. gives (p_bind (parseExpr (parsers k)) (\<lambda>e. p_bind parse_direction (\<lambda>d. p_return (e, d))))
     (order_item ff it) it ends_order"
  proof
    fix it assume it: "it \<in> set os"
    then have "length (order_item ff it) \<le> length (join_comma (map (order_item ff) os))" by (intro length_join) simp
    then show "gives (p_bind (parseExpr (parsers k)) (\<lambda>e. p_bind parse_direction (\<lambda>d. p_return (e, d))))
     (order_item ff it) it ends_order"
      using gives_order_item [of "fst it" ff "snd it" k] it assms by auto
  qed
  show "ends_order (CHR '','' # r)" for r
    using ends_symbols(2) [of r] starts_symbol(3) [of r] by (auto simp: ends_order_def)
qed (rule assms(2))

lemma gives_order_by:
  assumes "\<forall>it \<in> set os. printable (fst it)" "set ts \<inter> {T_ORDER, T_ASC, T_DESC, T_COMMA} = {}"
    "4 * length (kw_opt (os \<noteq> []) ''ORDER'' (''BY'' @ CHR '' '' # join_comma (map (order_item ff) os))) \<le> k"
  shows "gives (parse_order_by k (parsers k))
    (kw_opt (os \<noteq> []) ''ORDER'' (''BY'' @ CHR '' '' # join_comma (map (order_item ff) os))) os (follow ts)"
  unfolding parse_order_by_def kw_opt_def
proof (rule gives_opt_word)
  show "(''ORDER'', T_ORDER) \<in> set words" by (simp add: words_def)
  assume c: "os \<noteq> []"
  have f: "no_comma ends_order r" if "follow ts r" for r
    using that assms(2) unfolding follow_def no_comma_def ends_order_def by auto
  have "gives (parse_order_items k (parsers k)) (join_comma (map (order_item ff) os)) os (follow ts)"
    by (rule gives_weaken [OF gives_order_items f]) (use assms(1,3) c in \<open>auto simp: kw_opt_def\<close>)
  then show "gives (p_then (p_accept T_BY) (parse_order_items k (parsers k)))
      (''BY'' @ CHR '' '' # join_comma (map (order_item ff) os)) os (follow ts)"
    using gives_then [where a = "()", OF gives_kw [of "''BY''" T_BY boundary] gives_space] by (simp add: words_def)
qed (use assms(2) in auto)

lemma follow_clause:
  assumes "(w, t) \<in> set words" "t \<notin> set [T_IN, T_BETWEEN, T_NOT]" "\<not> isBinaryOp t" "follow ts r"
  shows "follow (t # ts) (clause ff (CHR '' '' # w @ '' '') e @ r)"
  using follow_opt [OF assms, of "e \<noteq> ENil" "exprString ff e"] by (cases "e = ENil") (simp_all add: clause_def)

lemma gives_trailing:
  assumes "printable_select s" "4 * length (trailing_text ff s) \<le> k"
  shows "gives (parseTrailingClauses k (parsers k)) (trailing_text ff s)
    (sel_order_by s, sel_limit s, sel_offset s) (follow [T_EOF])"
proof -
  let ?g = "parsers k"
  have pr: "\<forall>it \<in> set (sel_order_by s). printable (fst it)" "opt_printable (sel_limit s)" "opt_printable (sel_offset s)"
    using assms(1) by (auto simp: printable_select_def list_all_iff)
  have off: "gives (opt_expr T_OFFSET ?g) (clause ff '' OFFSET '' (sel_offset s)) (sel_offset s) (follow [T_EOF])"
    using gives_clause [of "''OFFSET''" T_OFFSET "[T_EOF]" "sel_offset s" ff k] pr(3) assms(2)
    by (simp add: words_def trailing_text_def)
  have lim: "gives (opt_expr T_LIMIT ?g) (clause ff '' LIMIT '' (sel_limit s)) (sel_limit s) (follow [T_OFFSET, T_EOF])"
    using gives_clause [of "''LIMIT''" T_LIMIT "[T_OFFSET, T_EOF]" "sel_limit s" ff k] pr(2) assms(2)
    by (simp add: words_def trailing_text_def)
  have ord: "gives (parse_order_by k ?g) (kw_opt (sel_order_by s \<noteq> []) ''ORDER''
      (''BY'' @ CHR '' '' # join_comma (map (order_item ff) (sel_order_by s)))) (sel_order_by s) (follow [T_LIMIT, T_OFFSET, T_EOF])"
    using pr(1) assms(2) by (intro gives_order_by) (auto simp: trailing_text_def)
  have f2: "follow [T_OFFSET, T_EOF] (clause ff '' OFFSET '' (sel_offset s) @ r)" if "follow [T_EOF] r" for r
    using follow_clause [of "''OFFSET''" T_OFFSET "[T_EOF]" r ff "sel_offset s"] that by (simp add: words_def isBinaryOp_def)
  have f1: "follow [T_LIMIT, T_OFFSET, T_EOF] (clause ff '' LIMIT '' (sel_limit s) @ r)" if "follow [T_OFFSET, T_EOF] r" for r
    using follow_clause [of "''LIMIT''" T_LIMIT "[T_OFFSET, T_EOF]" r ff "sel_limit s"] that by (simp add: words_def isBinaryOp_def)
  have s1: "gives (p_bind (opt_expr T_OFFSET ?g) (\<lambda>off. p_return (sel_order_by s, sel_limit s, off)))
      (clause ff '' OFFSET '' (sel_offset s)) (sel_order_by s, sel_limit s, sel_offset s) (follow [T_EOF])"
    by (rule gives_end [where a = "sel_offset s", OF off gives_return])
  have s2: "gives (p_bind (opt_expr T_LIMIT ?g) (\<lambda>lim. p_bind (opt_expr T_OFFSET ?g) (\<lambda>off. p_return (sel_order_by s, lim, off))))
      (clause ff '' LIMIT '' (sel_limit s) @ clause ff '' OFFSET '' (sel_offset s))
      (sel_order_by s, sel_limit s, sel_offset s) (follow [T_EOF])"
    by (rule gives_bind [where a = "sel_limit s", OF lim], rule s1, rule f2)
  show ?thesis unfolding parseTrailingClauses_def trailing_text_def
    by (rule gives_bind [where a = "sel_order_by s", OF ord], rule s2) (use f1 f2 in simp)
qed

abbreviation "after_where \<equiv> [T_ORDER, T_LIMIT, T_OFFSET, T_EOF]"
abbreviation "after_alias \<equiv> T_WHERE # after_where"

lemma follow_boundary: "follow ts r \<Longrightarrow> boundary r"
  by (simp add: follow_def ends_binary_def)

lemma follow_trailing: "follow [T_EOF] r \<Longrightarrow> follow after_where (trailing_text ff s @ r)"
  using follow_opt [of "''ORDER''" T_ORDER "[T_LIMIT, T_OFFSET, T_EOF]", OF _ _ _ follow_clause [of "''LIMIT''" T_LIMIT "[T_OFFSET, T_EOF]",
      OF _ _ _ follow_clause [of "''OFFSET''" T_OFFSET "[T_EOF]"]]]
  by (simp add: trailing_text_def kw_opt_def words_def isBinaryOp_def del: follow_def)

lemma follow_where: "follow after_where r \<Longrightarrow> follow after_alias (clause ff '' WHERE '' e @ r)"
  using follow_clause [of "''WHERE''" T_WHERE after_where] by (simp add: words_def isBinaryOp_def)

lemma follow_alias: "follow after_alias r \<Longrightarrow> follow (T_AS # after_alias) (alias_text s @ r)"
  using follow_opt [of "''AS''" T_AS after_alias] by (simp add: alias_text_def kw_opt_def words_def isBinaryOp_def)

lemma follow_from:
  "printable_select s \<Longrightarrow> follow after_alias r \<Longrightarrow> follow (T_FROM # after_alias) (from_text s @ alias_text s @ r)"
  using follow_kw [of "''FROM''" T_FROM "CHR '' '' # sel_from s @ alias_text s @ r" after_alias]
    follow_mono [of after_alias r "T_FROM # after_alias"]
  by (auto simp: from_text_def alias_text_def kw_opt_def words_def isBinaryOp_def printable_select_def split: if_splits)

lemma gives_from:
  assumes "printable_select s"
  shows "gives (parse_from g) (from_text s) (sel_from s) (follow (T_AS # after_alias))"
  unfolding parse_from_def from_text_def kw_opt_def
proof (rule gives_opt_word)
  show "(''FROM'', T_FROM) \<in> set words" by (simp add: words_def)
  assume "sel_from s \<noteq> []"
  then have n: "plain_name (sel_from s)" using assms by (simp add: printable_select_def split: if_splits)
  show "gives (p_when T_LPAREN f p_ident) (sel_from s) (sel_from s) (follow (T_AS # after_alias))" for f
  proof (rule gives_when_no)
    show "\<exists>t'. starts (sel_from s @ r) t' \<and> t' \<noteq> T_LPAREN" if "follow (T_AS # after_alias) r" for r
      using lexes_name [OF n follow_boundary [OF that]] by (intro exI [of _ T_IDENT]) (auto simp: starts_def)
  qed (rule gives_ident [OF n follow_boundary])
qed simp_all

lemma gives_alias:
  assumes "printable_select s"
  shows "gives parse_alias (alias_text s) (sel_from_alias s) (follow after_alias)"
  unfolding parse_alias_def alias_text_def kw_opt_def
proof (rule gives_opt_word)
  assume "sel_from_alias s \<noteq> []"
  then have "plain_name (sel_from_alias s)" using assms by (simp add: printable_select_def split: if_splits)
  then show "gives p_ident (sel_from_alias s) (sel_from_alias s) (follow after_alias)" by (rule gives_ident [OF _ follow_boundary])
qed (simp_all add: words_def)

lemma starts_item:
  assumes "printable_item c" "boundary r"
  shows "\<exists>t \<in> set (T_NOT # T_MINUS # starters). starts (exprString ff c @ r) t"
proof (cases "\<exists>e a. c = AliasedExpr e a")
  case True
  then obtain e a where "c = AliasedExpr e a" by blast
  then show ?thesis using starts_expr [of e "'' AS '' @ a @ r" ff] assms by simp
next
  case False
  then have "printable c" using assms(1) by (cases c) auto
  then show ?thesis by (rule starts_expr [OF _ assms(2)])
qed

lemma starts_list:
  assumes "printable_select s" "boundary r"
  shows "\<exists>t \<in> set (T_STAR # T_NOT # T_MINUS # starters). starts (select_list ff s @ r) t"
proof (cases "sel_cols s = [StarExpr]")
  case True
  then show ?thesis using lexes_star [of r] by (auto simp: select_list_def starts_def)
next
  case False
  then obtain c cs where c: "sel_cols s = c # cs" "printable_item c"
    using assms(1) by (cases "sel_cols s") (auto simp: printable_select_def)
  have "\<exists>r'. select_list ff s @ r = exprString ff c @ r' \<and> boundary r'"
    using c assms(2) by (cases cs) (auto simp: select_list_def)
  then show ?thesis using starts_item [OF c(2)] by (metis list.set_intros(2))
qed

lemma item_not_Nil: "printable_item c \<Longrightarrow> exprString ff c \<noteq> []"
proof (cases "\<exists>e a. c = AliasedExpr e a")
  case False
  assume "printable_item c"
  then have "printable c" using False by (cases c) auto
  then show ?thesis by (rule not_Nil)
qed auto

lemma gives_list:
  assumes "printable_select s" "4 * length (select_list ff s) + 2 \<le> k"
  shows "gives (select_items k (parsers k)) (select_list ff s) (sel_cols s) (follow (T_FROM # after_alias))"
proof (cases "sel_cols s = [StarExpr]")
  case True
  have "gives (select_items k (parsers k)) (''*'' @ []) [StarExpr] (follow (T_FROM # after_alias))"
    unfolding select_items_def by (rule gives_when_yes [OF _ gives_return]) (use lexes_star in simp)
  then show ?thesis using True by (simp add: select_list_def)
next
  case False
  then have c: "\<forall>c \<in> set (sel_cols s). printable_item c" "sel_cols s \<noteq> []"
    using assms(1) by (auto simp: printable_select_def list_all_iff)
  have f: "no_comma ends_item r" if "follow (T_FROM # after_alias) r" for r
    using that by (auto simp: follow_def no_comma_def ends_item_def)
  have l: "gives (sep_list k (select_item (parsers k))) (select_list ff s) (sel_cols s) (no_comma ends_item)"
    unfolding select_list_def
  proof (rule gives_sep_list)
    show "length (sel_cols s) \<le> k"
      using count_join [of "map (exprString ff) (sel_cols s)"] c(1) item_not_Nil assms(2) by (force simp: select_list_def)
    show "\<forall>c \<in> set (sel_cols s). gives (select_item (parsers k)) (exprString ff c) c ends_item"
    proof
      fix e assume e: "e \<in> set (sel_cols s)"
      then have "length (exprString ff e) \<le> length (select_list ff s)" unfolding select_list_def by (intro length_join) simp
      then show "gives (select_item (parsers k)) (exprString ff e) e ends_item"
        using e c(1) assms(2) by (intro gives_item) auto
    qed
    show "ends_item (CHR '','' # r)" for r
      using ends_symbols(2) [of r] starts_symbol(3) [of r] by (auto simp: ends_item_def)
  qed (rule c(2))
  show ?thesis unfolding select_items_def
  proof (rule gives_when_no [OF _ gives_weaken [OF l f]])
    show "\<exists>t'. starts (select_list ff s @ r) t' \<and> t' \<noteq> T_STAR" if "follow (T_FROM # after_alias) r" for r
    proof -
      obtain e es where e: "sel_cols s = e # es" "printable_item e" using c by (cases "sel_cols s") auto
      have "\<exists>r'. select_list ff s @ r = exprString ff e @ r' \<and> boundary r'"
        using e follow_boundary [OF that] by (cases es) (auto simp: select_list_def)
      then obtain r' t where "select_list ff s @ r = exprString ff e @ r'" "t \<in> set (T_NOT # T_MINUS # starters)"
        "starts (exprString ff e @ r') t" using starts_item [OF e(2)] by blast
      then show ?thesis by (intro exI [of _ t]) (auto simp: starters_def)
    qed
  qed
qed

lemma yields_distinct:
  assumes "yields (g d) u b E" "\<And>r. E r \<Longrightarrow> \<exists>t. starts (u @ r) t \<and> t \<noteq> T_DISTINCT"
  shows "yields (p_bind parse_distinct g) ((if d then ''DISTINCT'' @ '' '' else []) @ u) b E"
proof (cases d)
  case True
  have y: "gives parse_distinct (''DISTINCT'' @ []) True boundary"
    unfolding parse_distinct_def by (rule gives_when_kw [OF _ _ gives_return]) (simp_all add: words_def)
  have "yields (p_bind parse_distinct g) (''DISTINCT'' @ CHR '' '' # u) b E"
    by (rule yields_bind [OF yields_gives [OF y [unfolded append_Nil2]]], rule yields_space) (use assms(1) True in simp_all)
  then show ?thesis using True by simp
next
  case False
  have "gives parse_distinct [] False (\<lambda>r. \<exists>t. starts r t \<and> t \<noteq> T_DISTINCT)"
    unfolding parse_distinct_def by (rule gives_when_no [OF _ gives_return]) simp
  then have "yields (p_bind parse_distinct g) u b E"
    by (rule yields_silent [where a = False, OF yields_gives]) (use assms False in simp_all)
  then show ?thesis using False by simp
qed

definition bare_select :: "(expr, stmt) select \<Rightarrow> (expr, stmt) select" where
  "bare_select s = MkSelect (sel_cols s) (sel_from s) (sel_from_alias s) [] (sel_where s) [] ENil ENil (sel_distinct s) [] ENil SNil"

lemma yields_select:
  assumes s: "printable_select s" and k: "4 * length (select_list ff s) + 4 * length (clause ff '' WHERE '' (sel_where s)) + 2 \<le> k"
  shows "yields (parseOneSelect k (parsers k))
    (''SELECT'' @ CHR '' '' # distinct_text s @ select_list ff s @ from_text s @ alias_text s @ clause ff '' WHERE '' (sel_where s))
    (bare_select s) (follow after_where)"
proof -
  obtain m where m: "k = Suc m" using k by (cases k) auto
  have wh: "gives (opt_expr T_WHERE (parsers k)) (clause ff '' WHERE '' (sel_where s)) (sel_where s) (follow after_where)"
    using gives_clause [of "''WHERE''" T_WHERE after_where "sel_where s" ff k] s k
    by (simp add: words_def printable_select_def)
  have l: "gives (select_items k (parsers k)) (select_list ff s) (sel_cols s) (follow (T_FROM # after_alias))"
    using k by (intro gives_list s) simp
  have nojoin: "gives (join_loop k (parsers k) []) [] [] (follow after_alias)"
    unfolding m join_loop.simps(2) by (rule gives_none_case) simp
  have nocomma: "gives (comma_loop k) [] () (follow (T_AS # after_alias))"
    unfolding m comma_loop.simps(2) by (rule gives_none) simp
  have nogroup: "gives (parse_group_by k (parsers k)) [] [] (follow after_where)"
    unfolding parse_group_by_def by (rule gives_none) simp
  have nohaving: "gives (opt_expr T_HAVING (parsers k)) [] ENil (follow after_where)"
    unfolding opt_expr_def by (rule gives_none) simp
  have ret: "yields (p_return (bare_select s)) [] (bare_select s) (follow after_where)" by (rule yields_gives [OF gives_return])
  let ?stop = "\<lambda>cols from alias joins wh group having. p_bind get_pending (\<lambda>sub. p_return (MkSelect cols from alias joins wh [] ENil ENil (sel_distinct s) group having sub))"
  have s1: "yields (p_bind (opt_expr T_WHERE (parsers k)) (\<lambda>wh. p_bind (parse_group_by k (parsers k)) (\<lambda>group. p_bind (opt_expr T_HAVING (parsers k))
       (\<lambda>having. ?stop (sel_cols s) (sel_from s) (sel_from_alias s) [] wh group having))))
     (clause ff '' WHERE '' (sel_where s) @ []) (bare_select s) (follow after_where)"
    by (rule yields_bind [OF yields_gives [OF wh]], rule yields_silent [OF yields_gives [OF nogroup]],
        rule yields_silent [OF yields_gives [OF nohaving]], rule yields_silent [OF yields_state(3)])
      (use ret in \<open>simp_all add: bare_select_def\<close>)
  have nj: "yields (p_bind take_joins (join_loop k (parsers k))) [] [] (follow after_alias)"
    by (rule yields_silent [OF yields_state(2)], rule yields_gives [OF nojoin]) simp
  have s2: "yields (p_bind (parse_from (parsers k)) (\<lambda>from. p_then (comma_loop k) (p_bind parse_alias (\<lambda>alias.
       p_bind (p_bind take_joins (join_loop k (parsers k))) (\<lambda>joins. p_bind (opt_expr T_WHERE (parsers k)) (\<lambda>wh.
       p_bind (parse_group_by k (parsers k)) (\<lambda>group. p_bind (opt_expr T_HAVING (parsers k)) (\<lambda>having.
         ?stop (sel_cols s) from alias joins wh group having))))))))
     (from_text s @ alias_text s @ clause ff '' WHERE '' (sel_where s) @ []) (bare_select s) (follow after_where)"
    by (rule yields_bind [OF yields_gives [OF gives_from [OF s]]], rule yields_silent_then [OF yields_gives [OF nocomma]],
        rule yields_bind [OF yields_gives [OF gives_alias [OF s]]], rule yields_silent [OF nj], rule s1)
      (use follow_where [of _ ff "sel_where s"] follow_alias [OF follow_where, of _ s ff "sel_where s"] in simp_all)
  have f: "follow (T_FROM # after_alias) ((from_text s @ alias_text s @ clause ff '' WHERE '' (sel_where s) @ []) @ r)"
    if "follow after_where r" for r
    using follow_from [OF s follow_where [OF that]] by simp
  have nd: "\<exists>t. starts ((select_list ff s @ from_text s @ alias_text s @ clause ff '' WHERE '' (sel_where s) @ []) @ r) t \<and> t \<noteq> T_DISTINCT"
    if "follow after_where r" for r
    using starts_list [OF s follow_boundary [OF f [OF that]], of ff] by (auto simp: starters_def)
  have "yields (parseOneSelect k (parsers k))
    (''SELECT'' @ CHR '' '' # (if sel_distinct s then ''DISTINCT'' @ '' '' else []) @ select_list ff s @ from_text s @ alias_text s @
       clause ff '' WHERE '' (sel_where s) @ []) (bare_select s) (follow after_where)"
    unfolding parseOneSelect_def
    by (rule yields_silent_then [OF yields_state(1)], rule yields_then [OF yields_gives [OF gives_advance [of "''SELECT''" T_SELECT]]],
        simp add: words_def, rule yields_space, rule yields_distinct, rule yields_bind [OF yields_gives [OF l]], rule s2)
      (use f nd in \<open>simp_all\<close>)
  then show ?thesis by (simp add: distinct_text_def)
qed

lemma gives_loops:
  "0 < k \<Longrightarrow> gives (intersect_loop k n g st) [] st (follow after_where)"
  "0 < k \<Longrightarrow> gives (union_loop k n g st) [] st (follow after_where)"
proof -
  assume "0 < k"
  then obtain m where m: "k = Suc m" by (cases k) auto
  show "gives (intersect_loop k n g st) [] st (follow after_where)"
    unfolding m intersect_loop.simps(2) by (rule gives_none) simp
  show "gives (union_loop k n g st) [] st (follow after_where)"
    unfolding m union_loop.simps(2) by (rule gives_none_case) simp
qed

lemma yields_parseSelect:
  assumes s: "printable_select s" and k: "4 * length (formatSelect ff s) \<le> k"
  shows "yields (parseSelect k (parsers k)) (formatSelect ff s) (Select s) (follow [T_EOF])"
proof -
  let ?g = "parsers k"
  let ?head = "''SELECT'' @ CHR '' '' # distinct_text s @ select_list ff s @ from_text s @ alias_text s @ clause ff '' WHERE '' (sel_where s)"
  have t: "formatSelect ff s = ?head @ trailing_text ff s" using select_string [OF s, of ff] by simp
  have sz: "4 * length (select_list ff s) + 4 * length (clause ff '' WHERE '' (sel_where s)) + 2 \<le> k"
    "4 * length (trailing_text ff s) \<le> k" "0 < k"
    using k unfolding t by auto
  have a: "yields (parseIntersectChain k ?g) (?head @ []) (Select (bare_select s)) (follow after_where)"
    unfolding parseIntersectChain_def
    by (rule yields_bind [OF yields_select [OF s sz(1)]], rule yields_gives [OF gives_loops(1) [OF sz(3)]]) simp
  have b: "yields (p_bind (parseIntersectChain k ?g) (union_loop k k ?g)) ((?head @ []) @ []) (Select (bare_select s)) (follow after_where)"
    by (rule yields_bind [OF a], rule yields_gives [OF gives_loops(2) [OF sz(3)]]) simp
  have eq: "set_trailing (Select (bare_select s)) (sel_order_by s, sel_limit s, sel_offset s) = Select s"
    using s by (cases s) (simp add: bare_select_def printable_select_def)
  have c: "yields (p_bind (parseTrailingClauses k ?g) (\<lambda>tr. p_return (set_trailing (Select (bare_select s)) tr)))
      (trailing_text ff s) (Select s) (follow [T_EOF])"
    by (rule yields_gives, rule gives_end [OF gives_trailing [OF s sz(2)]]) (use eq gives_return in simp_all)
  have "yields (parseSelect k ?g) (((?head @ []) @ []) @ trailing_text ff s) (Select s) (follow [T_EOF])"
    unfolding parseSelect_def by (rule yields_bind [OF b], rule c, rule follow_trailing)
  then show ?thesis by (simp add: t)
qed

text \<open>C20. Printing a SELECT and parsing the text gives the statement back: DISTINCT, a star or a select list with aliases,
  FROM one table with an alias, WHERE, ORDER BY, LIMIT and OFFSET. The expressions are built, nested in any way, from
  int literals from 0 to the greatest int64, strings without a quote or a NUL byte, TRUE, FALSE, NULL, unqualified names
  that are no keywords, the operators \<open>=\<close>, \<open><\<close>, \<open><=\<close>, \<open>>\<close>, \<open>>=\<close>, \<open>+\<close>, \<open>-\<close>, \<open>*\<close>, \<open>/\<close>, AND, OR, LIKE and IS, NOT, a minus
  that does not follow a minus, calls of functions that are no aggregates, CASE with a branch or an operand, and CAST to
  INT, BIGINT, FLOAT, BOOL, TEXT, BLOB, VARCHAR or TIMESTAMP without a size. Nothing else is covered, in particular no
  float literals, qualified names, parameters, aggregates, window calls, BETWEEN, IN, EXISTS, subqueries, intervals,
  other types or sized ones, other operators, joins, GROUP BY and HAVING, which the printer loses or may write unreadably.\<close>

theorem select_roundtrip:
  assumes "printable_select s"
  shows "\<exists>txt p. Format ff (Select s) = Some txt \<and> parse_text txt = Parsed (Select s) p"
proof -
  let ?t = "formatSelect ff s"
  define n where "n = 4 * length ?t + 3"
  have f: "parse_fuel ?t = Suc n" by (simp add: parse_fuel_def n_def)
  obtain q0 where q0: "p_reset (NewParser ?t) = Parsed () q0" "tidy q0" "ps_lex q0 = NewLexer ?t"
    by (simp add: p_reset_def tidy_def NewParser_def)
  have r: "reads ?t (nxt q0)"
    unfolding reads_def nxt_def using q0(3) by (intro exI [of _ "NewLexer ?t"]) (simp add: lx_rest_def NewLexer_def)
  have y: "yields (parseSelect n (parsers n)) ?t (Select s) (follow [T_EOF])"
    by (rule yields_parseSelect [OF assms]) (simp add: n_def)
  have c: "tidy (nxt q0)" using q0(2) tidy_frame [OF frame_nxt] by blast
  obtain p' where p: "parseSelect n (parsers n) (nxt q0) = Parsed (Select s) p'" "reads [] p'"
    using y [unfolded yields_def, rule_format, OF follow_end c] r by auto
  have sel: "p_type (nxt q0) = T_SELECT"
  proof (rule reads_type [OF r])
    obtain u where "?t = ''SELECT'' @ CHR '' '' # u" using select_string [OF assms, of ff] by simp
    then show "starts ?t T_SELECT" using starts_kw [of "''SELECT''" T_SELECT "CHR '' '' # u"] by (simp add: words_def)
  qed
  have eof: "p_type p' = T_EOF" using reads_type [OF p(2)] lexes_end by (auto simp: starts_def)
  have "Parse (Suc n) (Suc n) (parsers (Suc n)) (NewParser ?t) = Parsed (Select s) p'"
    using q0(1) sel p(1) eof by (simp add: at bind_cases statement_def at_end_def select_Suc)
  then have "parse_text ?t = Parsed (Select s) p'" unfolding parse_text_def Let_def f .
  then show ?thesis by (intro exI [of _ ?t] exI [of _ p']) simp
qed

definition sample_select :: "(expr, stmt) select" where
  "sample_select =
     MkSelect [AliasedExpr (FunctionCall ''f'' [Ident ''a'', NumberLiteral 2]) ''x'', CaseExpr ENil [(Ident ''a'', NullLiteral)] (StringLiteral ''b'')]
       ''t'' ''u'' [] (BinaryExpr T_AND (UnaryExpr T_NOT (Ident ''a'')) (BinaryExpr T_LE (NumberLiteral 1) (UnaryExpr T_MINUS (Ident ''b''))))
       [(Ident ''a'', True)] (NumberLiteral 3) ENil True [] ENil SNil"

theorem select_roundtrip_witness:
  "\<exists>txt p. Format (\<lambda>_. []) (Select sample_select) = Some txt \<and> parse_text txt = Parsed (Select sample_select) p"
  by (rule select_roundtrip) code_simp

end
