(* ===== verification/Sql_Rows.thy ===== *)
theory Sql_Rows
  imports Sql_Eval "HOL-Library.Sublist"
begin

text \<open>
  Rows and operators of the SQL executor: the interface \<open>Operator\<close> (\<open>SQL/EX/ex.go\<close>) as the locale
  \<open>row_source\<close>, the in-memory scan of a table (\<open>SQL/EX/operators.go\<close>, \<open>source.go\<close>), which interprets it, and
  \<open>Distinct\<close> (\<open>SQL/EX/distinct.go\<close>). A context that is cancelled is not modelled.
\<close>

subsection \<open>Rows\<close>

record orow =
  or_cols :: "string list"
  or_types :: "int list"
  or_data :: "val list"
  or_outer :: row

definition row_chain :: "orow \<Rightarrow> row" where
  "row_chain r = (or_cols r, or_data r) # or_outer r"

definition row_eval :: "go_env \<Rightarrow> val list \<Rightarrow> expr \<Rightarrow> orow \<Rightarrow> val res" where
  "row_eval env params e r = eval env (row_chain r) params e"

definition cloneRow :: "orow \<Rightarrow> orow" where
  "cloneRow r = r\<lparr>or_outer := []\<rparr>"

subsection \<open>Operators\<close>

text \<open>
  \<open>Next\<close> returns a row, \<open>ErrNoRows\<close> (\<open>Ok None\<close>), another error or a panic, and the new state; \<open>None\<close> is a
  call that does not return, because it drains a child that has no end.
\<close>

record 's operator =
  op_next :: "'s \<Rightarrow> (orow option res \<times> 's) option"
  op_close :: "'s \<Rightarrow> unit res \<times> 's"

partial_function (option) drainAll :: "'s operator \<Rightarrow> orow list \<Rightarrow> 's \<Rightarrow> (orow list res \<times> 's) option" where
  "drainAll op out s =
     Option.bind (op_next op s) (\<lambda>(r, s').
       case r of
         Ok (Some x) \<Rightarrow> drainAll op (out @ [x]) s'
       | Ok None \<Rightarrow> Some (Ok out, s')
       | Fail e \<Rightarrow> Some (Fail e, s')
       | Panic \<Rightarrow> Some (Panic, s'))"

lemma drop_eq_Cons: "drop n xs = r # rs \<Longrightarrow> n < length xs \<and> xs ! n = r \<and> drop (Suc n) xs = rs"
  by (metis Cons_nth_drop_Suc drop_eq_Nil linorder_not_less list.distinct(1) list.inject)

lemma drain_promised:
  assumes "\<And>s r rs. R s (r # rs) \<Longrightarrow> \<exists>s'. op_next op s = Some (Ok (Some r), s') \<and> R s' rs"
    "\<And>s. R s [] \<Longrightarrow> \<exists>s'. op_next op s = Some (Ok None, s') \<and> R s' []" "R s rs"
  shows "\<exists>s'. drainAll op out s = Some (Ok (out @ rs), s') \<and> R s' []"
  using assms(3)
proof (induction rs arbitrary: s out)
  case Nil
  then show ?case using assms(2) [of s] by (auto simp: drainAll.simps [of op _ s])
next
  case (Cons r rs)
  obtain s' where s': "op_next op s = Some (Ok (Some r), s')" "R s' rs" using assms(1) [OF Cons.prems] by blast
  then show ?case using Cons.IH [OF s'(2), of "out @ [r]"] by (simp add: drainAll.simps [of op _ s])
qed

text \<open>The promise of an operator that ends and does not fail: \<open>rows s\<close> are the rows that it still delivers.\<close>

locale row_source =
  fixes op :: "'s operator" and rows :: "'s \<Rightarrow> orow list"
  assumes next_row: "rows s = r # rs \<Longrightarrow> \<exists>s'. op_next op s = Some (Ok (Some r), s') \<and> rows s' = rs"
    and next_end: "rows s = [] \<Longrightarrow> \<exists>s'. op_next op s = Some (Ok None, s') \<and> rows s' = []"
begin

lemma drain: "\<exists>s'. drainAll op out s = Some (Ok (out @ rows s), s') \<and> rows s' = []"
  by (rule drain_promised [of "\<lambda>s rs. rows s = rs"]) (auto intro: next_row next_end)

end

text \<open>An operator that \<open>Close\<close> sets back to its first row.\<close>

locale rewindable_source = row_source +
  fixes whole :: "'s \<Rightarrow> orow list"
  assumes close_rewinds: "\<exists>s'. op_close op s = (Ok (), s') \<and> rows s' = whole s \<and> whole s' = whole s"
    and next_whole: "op_next op s = Some (r, s') \<Longrightarrow> whole s' = whole s"

subsection \<open>The scan of a table in memory\<close>

record seq_scan =
  ss_rows :: "orow list option"
  ss_pos :: nat

definition new_seq_scan :: seq_scan where
  "new_seq_scan = \<lparr>ss_rows = None, ss_pos = 0\<rparr>"

definition seq_scan_snapshot :: "orow list \<Rightarrow> orow list" where
  "seq_scan_snapshot tab = map cloneRow tab"

definition seq_scan_next :: "orow list \<Rightarrow> seq_scan \<Rightarrow> orow option res \<times> seq_scan" where
  "seq_scan_next tab s =
     (let s = (case ss_rows s of None \<Rightarrow> \<lparr>ss_rows = Some (seq_scan_snapshot tab), ss_pos = 0\<rparr> | Some _ \<Rightarrow> s);
          rs = the (ss_rows s)
      in if length rs \<le> ss_pos s then (Ok None, s)
         else (Ok (Some (rs ! ss_pos s)), s\<lparr>ss_pos := ss_pos s + 1\<rparr>))"

definition seq_scan_close :: "seq_scan \<Rightarrow> unit res \<times> seq_scan" where
  "seq_scan_close s = (Ok (), s\<lparr>ss_rows := None, ss_pos := 0\<rparr>)"

definition seq_scan_op :: "orow list \<Rightarrow> seq_scan operator" where
  "seq_scan_op tab = \<lparr>op_next = \<lambda>s. Some (seq_scan_next tab s), op_close = seq_scan_close\<rparr>"

definition seq_scan_rows :: "orow list \<Rightarrow> seq_scan \<Rightarrow> orow list" where
  "seq_scan_rows tab s =
     (case ss_rows s of None \<Rightarrow> seq_scan_snapshot tab | Some rs \<Rightarrow> drop (ss_pos s) rs)"

interpretation scan: rewindable_source "seq_scan_op tab" "seq_scan_rows tab" "\<lambda>_. seq_scan_snapshot tab" for tab
proof
  show "\<exists>s'. op_next (seq_scan_op tab) s = Some (Ok (Some r), s') \<and> seq_scan_rows tab s' = rs"
    if "seq_scan_rows tab s = r # rs" for s r rs
  proof (cases "ss_rows s")
    case None
    then show ?thesis using that
      by (auto simp: seq_scan_op_def seq_scan_next_def seq_scan_rows_def Let_def)
  next
    case (Some xs)
    then have "drop (ss_pos s) xs = r # rs" using that by (simp add: seq_scan_rows_def)
    then show ?thesis using Some drop_eq_Cons [of "ss_pos s" xs r rs] by (simp add: seq_scan_op_def seq_scan_next_def seq_scan_rows_def Let_def)
  qed
qed (auto simp: seq_scan_op_def seq_scan_next_def seq_scan_rows_def seq_scan_close_def Let_def split: option.splits)

subsection \<open>The key of DISTINCT\<close>

text \<open>\<open>itoa\<close>: the least int64 is its own negation, so the loop does not start.\<close>

fun itoa_loop :: "nat \<Rightarrow> string \<Rightarrow> string" where
  "itoa_loop n acc = (if n = 0 then acc else itoa_loop (n div 10) (digit_char (n mod 10) # acc))"

declare itoa_loop.simps [simp del]

definition itoa :: "int \<Rightarrow> string" where
  "itoa i =
     (if i = 0 then ''0''
      else let s = itoa_loop (nat (if i < 0 then wrap64 (- i) else i)) []
           in if i < 0 then CHR ''-'' # s else s)"

definition ftoa :: "f64 \<Rightarrow> string" where
  "ftoa f = itoa (f_to_int f) @ ''.'' @ itoa (go_rem (f_to_int (f_mul f (f_of_int 1000))) 1000)"

fun cell_key :: "val \<Rightarrow> string" where
  "cell_key VNull = ''N''"
| "cell_key (VStr s) = ''S'' @ s"
| "cell_key (VBytes s) = ''B'' @ s"
| "cell_key (VInt i) = ''I'' @ itoa i"
| "cell_key (VGoInt i) = ''I'' @ itoa i"
| "cell_key (VFloat f) = ''F'' @ ftoa f"
| "cell_key (VBool b) = (if b then ''T'' else ''F'')"
| "cell_key v = ''?''"

fun join_nul :: "string list \<Rightarrow> string" where
  "join_nul [] = []"
| "join_nul [x] = x"
| "join_nul (x # xs) = x @ NUL # join_nul xs"

definition distinctKey :: "orow \<Rightarrow> string" where
  "distinctKey r = join_nul (map cell_key (or_data r))"

subsection \<open>Distinct\<close>

text \<open>\<open>buf\<close> is nil exactly when it is empty. After an error of the child, \<open>seen\<close> and \<open>buf\<close> keep what they hold.\<close>

record 's distinct_st =
  ds_child :: 's
  ds_seen :: "string list"
  ds_buf :: "orow list"
  ds_pos :: nat

definition new_distinct :: "'s \<Rightarrow> 's distinct_st" where
  "new_distinct c = \<lparr>ds_child = c, ds_seen = [], ds_buf = [], ds_pos = 0\<rparr>"

definition ds_add :: "orow \<Rightarrow> 's distinct_st \<Rightarrow> 's distinct_st" where
  "ds_add r d =
     (let key = distinctKey r
      in if key \<in> set (ds_seen d) then d
         else d\<lparr>ds_seen := key # ds_seen d, ds_buf := ds_buf d @ [r]\<rparr>)"

partial_function (option) ds_fill :: "'s operator \<Rightarrow> 's distinct_st \<Rightarrow> (unit res \<times> 's distinct_st) option" where
  "ds_fill op d =
     Option.bind (op_next op (ds_child d)) (\<lambda>(r, c).
       let d = d\<lparr>ds_child := c\<rparr>
       in case r of
            Ok (Some x) \<Rightarrow> ds_fill op (ds_add x d)
          | Ok None \<Rightarrow> Some (Ok (), d)
          | Fail e \<Rightarrow> Some (Fail e, d)
          | Panic \<Rightarrow> Some (Panic, d))"

definition ds_emit :: "'s distinct_st \<Rightarrow> orow option res \<times> 's distinct_st" where
  "ds_emit d =
     (if length (ds_buf d) \<le> ds_pos d then (Ok None, d)
      else (Ok (Some (ds_buf d ! ds_pos d)), d\<lparr>ds_pos := ds_pos d + 1\<rparr>))"

definition distinct_next :: "'s operator \<Rightarrow> 's distinct_st \<Rightarrow> (orow option res \<times> 's distinct_st) option" where
  "distinct_next op d =
     (if ds_buf d = [] then
        Option.bind (ds_fill op d) (\<lambda>(r, d).
          case r of Ok _ \<Rightarrow> Some (ds_emit d) | Fail e \<Rightarrow> Some (Fail e, d) | Panic \<Rightarrow> Some (Panic, d))
      else Some (ds_emit d))"

definition distinct_close :: "'s operator \<Rightarrow> 's distinct_st \<Rightarrow> unit res \<times> 's distinct_st" where
  "distinct_close op d =
     (let (r, c) = op_close op (ds_child d)
      in (r, d\<lparr>ds_child := c, ds_buf := [], ds_pos := 0, ds_seen := []\<rparr>))"

definition distinct_op :: "'s operator \<Rightarrow> 's distinct_st operator" where
  "distinct_op op = \<lparr>op_next = distinct_next op, op_close = distinct_close op\<rparr>"

subsection \<open>What Distinct delivers\<close>

fun dedup :: "('a \<Rightarrow> 'k) \<Rightarrow> 'k list \<Rightarrow> 'a list \<Rightarrow> 'a list" where
  "dedup k seen [] = []"
| "dedup k seen (x # xs) = (if k x \<in> set seen then dedup k seen xs else x # dedup k (k x # seen) xs)"

lemma dedup_keys: "set (map k (dedup k seen xs)) = set (map k xs) - set seen"
  by (induction xs arbitrary: seen) auto

lemma dedup_image: "k ` set (dedup k seen xs) = k ` set xs - set seen"
  using dedup_keys [of k seen xs] by simp

lemma dedup_distinct: "distinct (map k (dedup k seen xs))"
proof (induction xs arbitrary: seen)
  case (Cons x xs)
  then show ?case using dedup_keys [of k "k x # seen" xs] by auto
qed simp

lemma dedup_subseq: "subseq (dedup k seen xs) xs"
  by (induction xs arbitrary: seen) auto

lemma dedup_subset: "set (dedup k seen xs) \<subseteq> set xs"
  by (induction xs arbitrary: seen) auto

lemma dedup_first: "x \<in> set xs \<Longrightarrow> k x \<notin> set seen \<Longrightarrow> \<exists>y \<in> set (dedup k seen xs). k y = k x"
proof -
  assume "x \<in> set xs" "k x \<notin> set seen"
  then have "k x \<in> set (map k (dedup k seen xs))" unfolding dedup_keys by simp
  then show ?thesis by auto
qed

definition distinct_rows :: "('s \<Rightarrow> orow list) \<Rightarrow> 's distinct_st \<Rightarrow> orow list" where
  "distinct_rows rows d =
     drop (ds_pos d) (if ds_buf d = [] then dedup distinctKey (ds_seen d) (rows (ds_child d)) else ds_buf d)"

context row_source
begin

lemma fill:
  "\<exists>c seen. ds_fill op d = Some (Ok (), d\<lparr>ds_child := c, ds_seen := seen,
     ds_buf := ds_buf d @ dedup distinctKey (ds_seen d) (rows (ds_child d))\<rparr>) \<and> rows c = []"
proof (induction "rows (ds_child d)" arbitrary: d)
  case Nil
  then obtain c where "op_next op (ds_child d) = Some (Ok None, c)" "rows c = []" using next_end by metis
  then show ?case using Nil [symmetric]
    by (intro exI [of _ c] exI [of _ "ds_seen d"]) (simp add: ds_fill.simps [of op d])
next
  case (Cons r rs)
  obtain c where c: "op_next op (ds_child d) = Some (Ok (Some r), c)" "rows c = rs" using next_row Cons.hyps(2) by metis
  define d' where "d' = ds_add r (d\<lparr>ds_child := c\<rparr>)"
  have d': "ds_child d' = c" by (simp add: d'_def ds_add_def Let_def)
  have step: "ds_fill op d = ds_fill op d'" by (simp add: ds_fill.simps [of op d] c(1) d'_def Let_def)
  obtain c' seen where "ds_fill op d' = Some (Ok (), d'\<lparr>ds_child := c', ds_seen := seen,
     ds_buf := ds_buf d' @ dedup distinctKey (ds_seen d') (rows c)\<rparr>)" "rows c' = []"
    using Cons.hyps(1) [of d'] c(2) d' by auto
  then show ?case using step c(2) Cons.hyps(2) [symmetric]
    by (intro exI [of _ c'] exI [of _ seen]) (simp add: d'_def ds_add_def Let_def)
qed

lemma distinct_source: "row_source (distinct_op op) (distinct_rows rows)"
proof
  have emit: "(\<forall>r rs. drop (ds_pos d) (ds_buf d) = r # rs \<longrightarrow>
        (\<exists>d'. ds_emit d = (Ok (Some r), d') \<and> ds_buf d' = ds_buf d \<and> drop (ds_pos d') (ds_buf d') = rs \<and> ds_child d' = ds_child d)) \<and>
      (drop (ds_pos d) (ds_buf d) = [] \<longrightarrow> ds_emit d = (Ok None, d))" for d :: "'a distinct_st"
  proof (intro conjI allI impI)
    fix r rs assume d: "drop (ds_pos d) (ds_buf d) = r # rs"
    then show "\<exists>d'. ds_emit d = (Ok (Some r), d') \<and> ds_buf d' = ds_buf d \<and> drop (ds_pos d') (ds_buf d') = rs \<and>
        ds_child d' = ds_child d"
      using drop_eq_Cons [OF d] by (simp add: ds_emit_def)
  qed (simp add: ds_emit_def)
  have step: "\<exists>d'. distinct_next op d = Some (ds_emit d') \<and>
      ds_buf d' = (if ds_buf d = [] then dedup distinctKey (ds_seen d) (rows (ds_child d)) else ds_buf d) \<and>
      ds_pos d' = ds_pos d \<and> (ds_buf d = [] \<longrightarrow> rows (ds_child d') = [])" for d
    using fill [of d] by (cases "ds_buf d = []") (auto simp: distinct_next_def)
  show "\<exists>d'. op_next (distinct_op op) d = Some (Ok (Some r), d') \<and> distinct_rows rows d' = rs"
    if r: "distinct_rows rows d = r # rs" for d r rs
  proof -
    obtain d1 where d1: "distinct_next op d = Some (ds_emit d1)"
      "ds_buf d1 = (if ds_buf d = [] then dedup distinctKey (ds_seen d) (rows (ds_child d)) else ds_buf d)" "ds_pos d1 = ds_pos d"
      using step [of d] by blast
    then have "drop (ds_pos d1) (ds_buf d1) = r # rs" using r by (simp add: distinct_rows_def)
    then obtain d' where "ds_emit d1 = (Ok (Some r), d')" "ds_buf d' = ds_buf d1" "drop (ds_pos d') (ds_buf d') = rs"
      using emit [of d1] by blast
    moreover have "ds_buf d1 \<noteq> []" using \<open>drop (ds_pos d1) (ds_buf d1) = r # rs\<close> by auto
    ultimately show ?thesis using d1(1) by (simp add: distinct_op_def distinct_rows_def)
  qed
  show "\<exists>d'. op_next (distinct_op op) d = Some (Ok None, d') \<and> distinct_rows rows d' = []"
    if r: "distinct_rows rows d = []" for d
  proof -
    obtain d1 where d1: "distinct_next op d = Some (ds_emit d1)"
      "ds_buf d1 = (if ds_buf d = [] then dedup distinctKey (ds_seen d) (rows (ds_child d)) else ds_buf d)" "ds_pos d1 = ds_pos d"
      "ds_buf d = [] \<longrightarrow> rows (ds_child d1) = []"
      using step [of d] by blast
    then have "drop (ds_pos d1) (ds_buf d1) = []" using r by (simp add: distinct_rows_def)
    moreover have "distinct_rows rows d1 = []"
      using d1(2,4) \<open>drop (ds_pos d1) (ds_buf d1) = []\<close> by (auto simp: distinct_rows_def split: if_splits)
    ultimately show ?thesis using d1(1) emit [of d1] by (simp add: distinct_op_def)
  qed
qed

end

subsection \<open>When the key is exact\<close>

text \<open>The key writes floats with three digits and separates cells by a NUL byte. It tells rows apart whose cells are
  NULL, bools, integers above the least one, and strings without a NUL byte.\<close>

fun plain_cell :: "val \<Rightarrow> bool" where
  "plain_cell VNull = True"
| "plain_cell (VBool b) = True"
| "plain_cell (VInt i) = (int64_range i \<and> i \<noteq> min_int64)"
| "plain_cell (VStr s) = (NUL \<notin> set s)"
| "plain_cell v = False"

lemma itoa_loop_str: "0 < n \<Longrightarrow> itoa_loop n acc = nat_str n @ acc"
proof (induction n arbitrary: acc rule: nat_str.induct)
  case (1 n)
  show ?case
  proof (cases "n < 10")
    case True
    then show ?thesis using 1(2) by (simp add: itoa_loop.simps nat_str.simps [of n])
  next
    case False
    then show ?thesis using 1(1) [OF False] 1(2) by (simp add: itoa_loop.simps [of n] nat_str.simps [of n])
  qed
qed

lemma digit_char_0: "digit_char 0 = CHR ''0''"
  by code_simp

lemma itoa_FormatInt: "int64_range i \<Longrightarrow> i \<noteq> min_int64 \<Longrightarrow> itoa i = FormatInt i"
proof -
  assume i: "int64_range i" "i \<noteq> min_int64"
  then have "wrap64 (- i) = - i" by (intro wrap64_id) (auto simp: int64_range_def min_int64_def max_int64_def)
  then show ?thesis using i
    by (auto simp: itoa_def FormatInt_def Let_def itoa_loop_str nat_str.simps [of 0] digit_char_0)
qed

lemma FormatInt_chars: "c \<in> set (FormatInt i) \<Longrightarrow> c = CHR ''-'' \<or> is_digit c"
  using nat_str_is_digit by (auto simp: FormatInt_def split: if_splits)

definition key_cell :: "string \<Rightarrow> val" where
  "key_cell k =
     (if hd k = CHR ''S'' then VStr (tl k) else if hd k = CHR ''I'' then VInt (the (ParseInt (tl k)))
      else if hd k = CHR ''N'' then VNull else VBool (hd k = CHR ''T''))"

lemma key_cell_each:
  "plain_cell (VInt i) \<Longrightarrow> key_cell (cell_key (VInt i)) = VInt i" "key_cell (cell_key (VStr s)) = VStr s"
  "key_cell (cell_key (VBool b)) = VBool b" "key_cell (cell_key VNull) = VNull"
  by (simp_all add: key_cell_def itoa_FormatInt ParseInt_FormatInt)

lemma key_cell: "plain_cell v \<Longrightarrow> key_cell (cell_key v) = v"
  using key_cell_each by (cases v) (simp_all only: plain_cell.simps)

lemma plain_key_inj: "plain_cell v \<Longrightarrow> plain_cell w \<Longrightarrow> cell_key v = cell_key w \<Longrightarrow> v = w"
  by (metis key_cell)

lemma plain_key_no_NUL: "plain_cell v \<Longrightarrow> NUL \<notin> set (cell_key v) \<and> cell_key v \<noteq> []"
proof (cases v)
  case (VInt i)
  assume "plain_cell v"
  then have "itoa i = FormatInt i" using VInt itoa_FormatInt by simp
  then show ?thesis using VInt FormatInt_chars [of NUL i] by (auto simp: is_digit_def ch_def)
qed auto

lemma split_at_NUL:
  assumes "NUL \<notin> set a" "NUL \<notin> set b" "a @ NUL # x = b @ NUL # y"
  shows "a = b \<and> x = y"
  using assms
proof (induction a arbitrary: b)
  case Nil
  then show ?case by (cases b) auto
next
  case (Cons c a)
  then show ?case by (cases b) auto
qed

lemma join_nul_inj:
  assumes "\<forall>x \<in> set xs. NUL \<notin> set x \<and> x \<noteq> []" "\<forall>y \<in> set ys. NUL \<notin> set y \<and> y \<noteq> []" "join_nul xs = join_nul ys"
  shows "xs = ys"
  using assms
proof (induction xs arbitrary: ys rule: join_nul.induct)
  case 1
  then show ?case by (cases ys rule: join_nul.cases) auto
next
  case (2 x)
  then show ?case by (cases ys rule: join_nul.cases) (auto dest: arg_cong [of _ _ set])
next
  case (3 x x' xs)
  show ?case
  proof (cases ys rule: join_nul.cases)
    case (3 y y' ys')
    then have "x @ NUL # join_nul (x' # xs) = y @ NUL # join_nul (y' # ys')" using "3.prems" by simp
    then have "x = y \<and> join_nul (x' # xs) = join_nul (y' # ys')"
      using "3.prems" 3 by (intro split_at_NUL) auto
    then show ?thesis using "3.IH" [of "y' # ys'"] "3.prems" 3 by simp
  qed (use 3 in \<open>auto dest: arg_cong [of _ _ set]\<close>)
qed

lemma map_key_inj:
  "list_all plain_cell vs \<Longrightarrow> list_all plain_cell ws \<Longrightarrow> map cell_key vs = map cell_key ws \<Longrightarrow> vs = ws"
proof (induction vs arbitrary: ws)
  case (Cons v vs)
  then obtain w ws' where ws: "ws = w # ws'" by (cases ws) auto
  have "v = w" using Cons.prems ws by (intro plain_key_inj) simp_all
  moreover have "vs = ws'" using Cons.prems ws by (intro Cons.IH) simp_all
  ultimately show ?case using ws by simp
qed simp

lemma distinctKey_inj:
  assumes "list_all plain_cell (or_data a)" "list_all plain_cell (or_data b)"
  shows "distinctKey a = distinctKey b \<longleftrightarrow> or_data a = or_data b"
proof
  assume "distinctKey a = distinctKey b"
  then have "map cell_key (or_data a) = map cell_key (or_data b)"
    unfolding distinctKey_def using assms plain_key_no_NUL by (intro join_nul_inj) (auto simp: list_all_iff)
  then show "or_data a = or_data b" by (rule map_key_inj [OF assms])
qed (simp add: distinctKey_def)

definition plain_table :: "orow list \<Rightarrow> bool" where
  "plain_table tab \<longleftrightarrow> (\<forall>r \<in> set tab. list_all plain_cell (or_data r))"

text \<open>The list of the first occurrences.\<close>

lemma remdups_snoc: "remdups (xs @ [x]) = filter (\<lambda>y. y \<noteq> x) (remdups xs) @ [x]"
  by (induction xs) auto

definition firsts :: "'a list \<Rightarrow> 'a list" where
  "firsts xs = rev (remdups (rev xs))"

lemma firsts_simps [simp]: "firsts [] = []" "firsts (x # xs) = x # filter (\<lambda>y. y \<noteq> x) (firsts xs)"
  by (simp_all add: firsts_def remdups_snoc rev_filter)

lemma dedup_firsts: "map k (dedup k seen xs) = filter (\<lambda>v. v \<notin> set seen) (firsts (map k xs))"
  by (induction xs arbitrary: seen) (auto intro: filter_cong)

lemma dedup_cong:
  assumes "\<And>a b. a \<in> set (ys @ xs) \<Longrightarrow> b \<in> set (ys @ xs) \<Longrightarrow> k a = k b \<longleftrightarrow> h a = h b"
  shows "dedup k (map k ys) xs = dedup h (map h ys) xs"
  using assms
proof (induction xs arbitrary: ys)
  case (Cons x xs)
  have "k x \<in> set (map k ys) \<longleftrightarrow> h x \<in> set (map h ys)" using Cons.prems by auto
  moreover have "dedup k (map k ys) xs = dedup h (map h ys) xs" by (rule Cons.IH) (use Cons.prems in auto)
  moreover have "dedup k (map k (x # ys)) xs = dedup h (map h (x # ys)) xs" by (rule Cons.IH) (use Cons.prems in auto)
  ultimately show ?case by simp
qed simp

lemma dedup_plain:
  assumes "plain_table rs"
  shows "map or_data (dedup distinctKey [] rs) = firsts (map or_data rs)"
proof -
  have "distinctKey a = distinctKey b \<longleftrightarrow> or_data a = or_data b" if "a \<in> set rs" "b \<in> set rs" for a b
    using assms that by (intro distinctKey_inj) (auto simp: plain_table_def)
  then have "dedup distinctKey [] rs = dedup or_data [] rs" using dedup_cong [of "[]" rs distinctKey or_data] by simp
  then show ?thesis using dedup_firsts [of or_data "[]" rs] by simp
qed

lemma clone_data [simp]: "or_data (cloneRow r) = or_data r" "distinctKey (cloneRow r) = distinctKey r"
  by (simp_all add: cloneRow_def distinctKey_def)

interpretation scan_distinct: row_source "distinct_op (seq_scan_op tab)" "distinct_rows (seq_scan_rows tab)" for tab
  by (rule scan.distinct_source)

lemma drain_distinct:
  "\<exists>s'. drainAll (distinct_op (seq_scan_op tab)) [] (new_distinct new_seq_scan) =
     Some (Ok (dedup distinctKey [] (map cloneRow tab)), s')"
  using scan_distinct.drain [of tab "[]" "new_distinct new_seq_scan"]
  by (auto simp: distinct_rows_def new_distinct_def new_seq_scan_def seq_scan_rows_def seq_scan_snapshot_def)

definition data_row :: "val list \<Rightarrow> orow" where
  "data_row vs = \<lparr>or_cols = [], or_types = [], or_data = vs, or_outer = []\<rparr>"

text \<open>C24. DISTINCT over a table whose cells are NULL, bools, integers above the least one and strings without NUL bytes
  ends, and delivers every different row of the table exactly once, in the order of the first occurrences: the rows
  delivered are rows of the table in their order, and the list of their cells is the list of the first occurrences.\<close>

theorem distinct_exact:
  assumes "plain_table tab"
  shows "\<exists>out s'. drainAll (distinct_op (seq_scan_op tab)) [] (new_distinct new_seq_scan) = Some (Ok out, s') \<and>
    subseq out (map cloneRow tab) \<and> map or_data out = rev (remdups (rev (map or_data tab)))"
proof -
  let ?rs = "map cloneRow tab"
  have p: "plain_table ?rs" using assms by (auto simp: plain_table_def)
  obtain s' where "drainAll (distinct_op (seq_scan_op tab)) [] (new_distinct new_seq_scan) =
     Some (Ok (dedup distinctKey [] ?rs), s')" using drain_distinct by blast
  moreover have "map or_data ?rs = map or_data tab" by simp
  ultimately show ?thesis using dedup_plain [OF p] dedup_subseq unfolding firsts_def by metis
qed

theorem distinct_exact_witness:
  "\<exists>out s'. drainAll (distinct_op (seq_scan_op [data_row [VInt 1, VStr ''a''], data_row [VNull, VBool True], data_row [VInt 1, VStr ''a'']])) []
      (new_distinct new_seq_scan) = Some (Ok out, s') \<and> map or_data out = [[VInt 1, VStr ''a''], [VNull, VBool True]]"
proof -
  let ?tab = "[data_row [VInt 1, VStr ''a''], data_row [VNull, VBool True], data_row [VInt 1, VStr ''a'']]"
  have "plain_table ?tab" by (simp add: plain_table_def data_row_def int64_range_def min_int64_def max_int64_def)
  from distinct_exact [OF this] obtain out s' where
    "drainAll (distinct_op (seq_scan_op ?tab)) [] (new_distinct new_seq_scan) = Some (Ok out, s')"
      "map or_data out = rev (remdups (rev (map or_data ?tab)))" by blast
  then show ?thesis by (intro exI [of _ out] exI [of _ s']) (simp add: data_row_def)
qed

text \<open>The key of DISTINCT does not separate cells unambiguously: two rows of strings that hold a NUL byte in different
  places have one key, and DISTINCT delivers only the first of them, although they differ in both columns.\<close>

theorem distinct_loses_rows:
  fixes a b c
  defines "r1 \<equiv> data_row [VStr (a @ NUL # CHR ''S'' # b), VStr c]" and "r2 \<equiv> data_row [VStr a, VStr (b @ NUL # CHR ''S'' # c)]"
  shows "or_data r1 \<noteq> or_data r2 \<and>
    (\<exists>s'. drainAll (distinct_op (seq_scan_op [r1, r2])) [] (new_distinct new_seq_scan) = Some (Ok [r1], s'))"
proof -
  have "distinctKey r1 = distinctKey r2" by (simp add: r1_def r2_def data_row_def distinctKey_def)
  moreover have "cloneRow r1 = r1" by (simp add: r1_def data_row_def cloneRow_def)
  ultimately have "dedup distinctKey [] (map cloneRow [r1, r2]) = [r1]" by simp
  then show ?thesis using drain_distinct [of "[r1, r2]"] by (simp add: r1_def r2_def data_row_def)
qed

end
