(* ===== verification/Sql_Compound.thy ===== *)
theory Sql_Compound
  imports Sql_Rows "HOL-Library.Multiset"
begin

text \<open>
  UNION, UNION ALL, INTERSECT and EXCEPT (\<open>SQL/EX/compound.go\<close>): \<open>CompoundOp\<close> drains both children, combines
  their rows by the key of DISTINCT, sorts, and cuts by OFFSET and LIMIT.
\<close>

subsection \<open>Stable sorting\<close>

text \<open>
  \<open>sort.SliceStable\<close> with its insertion sort, which is the whole algorithm for up to 20 elements. For more, Go sorts
  blocks and merges them; with a comparison that is a weak order, all stable sorts agree.
\<close>

fun insert_right :: "('a \<Rightarrow> 'a \<Rightarrow> bool res) \<Rightarrow> 'a \<Rightarrow> 'a list \<Rightarrow> 'a list res" where
  "insert_right lt x [] = Ok [x]"
| "insert_right lt x (y # ys) =
     obind (lt x y) (\<lambda>b. if b then obind (insert_right lt x ys) (\<lambda>zs. Ok (y # zs)) else Ok (x # y # ys))"

fun sort_loop :: "('a \<Rightarrow> 'a \<Rightarrow> bool res) \<Rightarrow> 'a list \<Rightarrow> 'a list \<Rightarrow> 'a list res" where
  "sort_loop lt done [] = Ok (rev done)"
| "sort_loop lt done (x # xs) = obind (insert_right lt x done) (\<lambda>d. sort_loop lt d xs)"

definition go_sort_stable :: "('a \<Rightarrow> 'a \<Rightarrow> bool res) \<Rightarrow> 'a list \<Rightarrow> 'a list res" where
  "go_sort_stable lt xs = sort_loop lt [] xs"

lemma insert_right_mset: "insert_right lt x ys = Ok zs \<Longrightarrow> mset zs = add_mset x (mset ys)"
  by (induction ys arbitrary: zs) (auto simp: obind_Ok_iff split: if_splits)

lemma sort_loop_mset: "sort_loop lt done xs = Ok zs \<Longrightarrow> mset zs = mset done + mset xs"
  by (induction xs arbitrary: "done") (auto simp: obind_Ok_iff dest: insert_right_mset)

lemma sort_stable_mset: "go_sort_stable lt xs = Ok ys \<Longrightarrow> mset ys = mset xs"
  using sort_loop_mset [of lt "[]" xs ys] by (simp add: go_sort_stable_def)

text \<open>With the order of a key, the result is the library's stable sort.\<close>

lemma insert_right_key:
  fixes k :: "'a \<Rightarrow> 'k::linorder"
  assumes "\<And>x y. x \<in> S \<Longrightarrow> y \<in> S \<Longrightarrow> lt x y = Ok (k x < k y)" "sorted (map k (rev ys))" "x \<in> S" "set ys \<subseteq> S"
  shows "\<exists>zs. insert_right lt x ys = Ok zs \<and> sorted (map k (rev zs)) \<and>
    (\<forall>v. filter (\<lambda>z. k z = v) (rev zs) = filter (\<lambda>z. k z = v) (rev ys @ [x]))"
  using assms(2,4)
proof (induction ys)
  case (Cons y ys)
  have lt: "lt x y = Ok (k x < k y)" using assms(1,3) Cons.prems(2) by simp
  show ?case
  proof (cases "k x < k y")
    case True
    obtain zs where zs: "insert_right lt x ys = Ok zs" "sorted (map k (rev zs))"
      "\<forall>v. filter (\<lambda>z. k z = v) (rev zs) = filter (\<lambda>z. k z = v) (rev ys @ [x])"
      using Cons by (auto simp: sorted_append)
    have "set zs = insert x (set ys)" using insert_right_mset [OF zs(1)] by (metis set_mset_add_mset_insert set_mset_mset)
    then have "sorted (map k (rev (y # zs)))" using zs(2) Cons.prems True by (auto simp: sorted_append less_imp_le)
    moreover have "filter (\<lambda>z. k z = v) (rev (y # zs)) = filter (\<lambda>z. k z = v) (rev (y # ys) @ [x])" for v
      using zs(3) True by auto
    moreover have "insert_right lt x (y # ys) = Ok (y # zs)" using zs(1) True by (simp add: lt)
    ultimately show ?thesis by blast
  next
    case False
    then have "sorted (map k (rev (x # y # ys)))" using Cons.prems by (fastforce simp: sorted_append)
    then show ?thesis using False lt by simp
  qed
qed simp

lemma sort_loop_key:
  fixes k :: "'a \<Rightarrow> 'k::linorder"
  assumes "\<And>x y. x \<in> S \<Longrightarrow> y \<in> S \<Longrightarrow> lt x y = Ok (k x < k y)" "sorted (map k (rev d))" "set d \<subseteq> S" "set xs \<subseteq> S"
  shows "\<exists>zs. sort_loop lt d xs = Ok zs \<and> sorted (map k zs) \<and>
    (\<forall>v. filter (\<lambda>z. k z = v) zs = filter (\<lambda>z. k z = v) (rev d @ xs))"
  using assms(2-4)
proof (induction xs arbitrary: d)
  case (Cons x xs)
  have "\<exists>d'. insert_right lt x d = Ok d' \<and> sorted (map k (rev d')) \<and>
    (\<forall>v. filter (\<lambda>z. k z = v) (rev d') = filter (\<lambda>z. k z = v) (rev d @ [x]))"
    by (rule insert_right_key [of S]) (use assms(1) Cons.prems in auto)
  then obtain d' where d': "insert_right lt x d = Ok d'" "sorted (map k (rev d'))"
    "\<forall>v. filter (\<lambda>z. k z = v) (rev d') = filter (\<lambda>z. k z = v) (rev d @ [x])" by blast
  have "set d' \<subseteq> S" using insert_right_mset [OF d'(1)] Cons.prems(2,3) by (metis insert_subset list.set_intros(1) set_mset_add_mset_insert set_mset_mset subset_code(1))
  obtain zs where "sort_loop lt d' xs = Ok zs" "sorted (map k zs)"
    "\<forall>v. filter (\<lambda>z. k z = v) zs = filter (\<lambda>z. k z = v) (rev d' @ xs)"
    using Cons.IH [OF d'(2) \<open>set d' \<subseteq> S\<close>] Cons.prems(3) by auto
  then show ?case using d' by auto
qed simp

lemma sort_stable_key:
  fixes k :: "'a \<Rightarrow> 'k::linorder"
  assumes "\<And>x y. x \<in> set xs \<Longrightarrow> y \<in> set xs \<Longrightarrow> lt x y = Ok (k x < k y)"
  shows "go_sort_stable lt xs = Ok (sort_key k xs)"
proof -
  obtain zs where zs: "go_sort_stable lt xs = Ok zs" "sorted (map k zs)" "\<forall>v. filter (\<lambda>z. k z = v) zs = filter (\<lambda>z. k z = v) xs"
    using sort_loop_key [of "set xs" lt k "[]" xs] assms by (auto simp: go_sort_stable_def)
  have "filter (\<lambda>x. v = k x) zs = filter (\<lambda>x. v = k x) xs" for v
    using zs(3) by (metis (mono_tags, lifting) filter_cong)
  then have "sort_key k xs = zs"
    using sort_stable_mset [OF zs(1)] zs(2) by (intro properties_for_sort_key) auto
  then show ?thesis using zs(1) by simp
qed

subsection \<open>Set operations\<close>

definition dedupRows :: "orow list \<Rightarrow> orow list" where
  "dedupRows rs = dedup distinctKey [] rs"

fun intersect_loop :: "string set \<Rightarrow> string set \<Rightarrow> orow list \<Rightarrow> orow list" where
  "intersect_loop rk seen [] = []"
| "intersect_loop rk seen (r # l) =
     (let k = distinctKey r
      in if k \<in> rk \<and> k \<notin> seen then r # intersect_loop rk (insert k seen) l else intersect_loop rk seen l)"

definition intersectRows :: "orow list \<Rightarrow> orow list \<Rightarrow> orow list" where
  "intersectRows l r = (if l = [] \<or> r = [] then [] else intersect_loop (set (map distinctKey r)) {} l)"

fun except_loop :: "string set \<Rightarrow> string set \<Rightarrow> orow list \<Rightarrow> orow list" where
  "except_loop rk seen [] = []"
| "except_loop rk seen (r # l) =
     (let k = distinctKey r
      in if k \<in> rk \<or> k \<in> seen then except_loop rk seen l else r # except_loop rk (insert k seen) l)"

definition exceptRows :: "orow list \<Rightarrow> orow list \<Rightarrow> orow list" where
  "exceptRows l r = (if l = [] then [] else except_loop (set (map distinctKey r)) {} l)"

definition combine_rows :: "compound_op \<Rightarrow> orow list \<Rightarrow> orow list \<Rightarrow> orow list" where
  "combine_rows op l r =
     (case op of
        CompoundUnionAll \<Rightarrow> l @ r
      | CompoundUnion \<Rightarrow> dedupRows (l @ r)
      | CompoundIntersect \<Rightarrow> intersectRows l r
      | CompoundExcept \<Rightarrow> exceptRows l r)"

text \<open>All rows get the columns and types of the first row of the left side, or of the right side.\<close>

definition normalize_rows :: "orow list \<Rightarrow> orow list \<Rightarrow> orow list \<Rightarrow> orow list" where
  "normalize_rows l r rs =
     (case l @ r of [] \<Rightarrow> map (\<lambda>x. x\<lparr>or_cols := [], or_types := []\<rparr>) rs
      | h # _ \<Rightarrow> map (\<lambda>x. x\<lparr>or_cols := or_cols h, or_types := or_types h\<rparr>) rs)"

subsection \<open>ORDER BY, OFFSET and LIMIT\<close>

text \<open>\<open>v, _ := Eval(..)\<close>: an error counts as nil.\<close>

definition or_null :: "val res \<Rightarrow> val res" where
  "or_null m = (case m of Fail e \<Rightarrow> Ok VNull | _ \<Rightarrow> m)"

fun order_less :: "go_env \<Rightarrow> val list \<Rightarrow> (expr \<times> bool) list \<Rightarrow> orow \<Rightarrow> orow \<Rightarrow> bool res" where
  "order_less env params [] a b = Ok False"
| "order_less env params ((e, desc) # ks) a b =
     obind (or_null (row_eval env params e a)) (\<lambda>av. obind (or_null (row_eval env params e b)) (\<lambda>bv.
       let c = val_compare av bv
       in if c = 0 then order_less env params ks a b else Ok (if desc then 0 < c else c < 0)))"

definition clause_int :: "go_env \<Rightarrow> val list \<Rightarrow> expr \<Rightarrow> int option res" where
  "clause_int env params e =
     (if e = ENil then Ok None
      else case eval env [] params e of Ok v \<Rightarrow> Ok (toInt64 v) | Fail err \<Rightarrow> Ok None | Panic \<Rightarrow> Panic)"

definition apply_offset :: "int option \<Rightarrow> 'a list \<Rightarrow> 'a list" where
  "apply_offset n rs =
     (let off = (case n of Some i \<Rightarrow> i | None \<Rightarrow> 0)
      in if 0 < off \<and> off < int (length rs) then drop (nat off) rs
         else if int (length rs) \<le> off then [] else rs)"

text \<open>\<open>result[:n]\<close> of a negative \<open>n\<close> panics.\<close>

definition apply_limit :: "int option \<Rightarrow> 'a list \<Rightarrow> 'a list res" where
  "apply_limit n rs =
     (case n of None \<Rightarrow> Ok rs
      | Some i \<Rightarrow> if i < int (length rs) then (if i < 0 then Panic else Ok (take (nat i) rs)) else Ok rs)"

subsection \<open>CompoundOp\<close>

record compound_cfg =
  cc_env :: go_env
  cc_params :: "val list"
  cc_op :: compound_op
  cc_order :: "(expr \<times> bool) list"
  cc_limit :: expr
  cc_offset :: expr

record ('s, 't) compound_st =
  co_left :: 's
  co_right :: 't
  co_done :: bool
  co_buf :: "orow list"
  co_pos :: nat

definition new_compound :: "'s \<Rightarrow> 't \<Rightarrow> ('s, 't) compound_st" where
  "new_compound l r = \<lparr>co_left = l, co_right = r, co_done = False, co_buf = [], co_pos = 0\<rparr>"

definition compound_rows :: "compound_cfg \<Rightarrow> orow list \<Rightarrow> orow list \<Rightarrow> orow list res" where
  "compound_rows c l r =
     (if l \<noteq> [] \<and> r \<noteq> [] \<and> length (or_data (hd l)) \<noteq> length (or_data (hd r))
      then Fail (ErrMsg (''compound select: column count mismatch ('' @ FormatInt (int (length (or_data (hd l)))) @
             '' vs '' @ FormatInt (int (length (or_data (hd r)))) @ '')''))
      else let rs = normalize_rows l r (combine_rows (cc_op c) l r)
           in obind (if cc_order c = [] then Ok rs
                     else go_sort_stable (order_less (cc_env c) (cc_params c) (cc_order c)) rs) (\<lambda>rs.
              obind (clause_int (cc_env c) (cc_params c) (cc_offset c)) (\<lambda>off.
              obind (clause_int (cc_env c) (cc_params c) (cc_limit c)) (\<lambda>lim.
                apply_limit lim (apply_offset off rs)))))"

definition compound_emit :: "('s, 't) compound_st \<Rightarrow> orow option res \<times> ('s, 't) compound_st" where
  "compound_emit s =
     (if length (co_buf s) \<le> co_pos s then (Ok None, s)
      else (Ok (Some (co_buf s ! co_pos s)), s\<lparr>co_pos := co_pos s + 1\<rparr>))"

definition compound_next :: "compound_cfg \<Rightarrow> 's operator \<Rightarrow> 't operator \<Rightarrow>
    ('s, 't) compound_st \<Rightarrow> (orow option res \<times> ('s, 't) compound_st) option" where
  "compound_next c opl opr s =
     (if co_done s then Some (compound_emit s)
      else Option.bind (drainAll opl [] (co_left s)) (\<lambda>(rl, sl).
        let s = s\<lparr>co_left := sl\<rparr>
        in case rl of Fail e \<Rightarrow> Some (Fail e, s) | Panic \<Rightarrow> Some (Panic, s)
         | Ok l \<Rightarrow> Option.bind (drainAll opr [] (co_right s)) (\<lambda>(rr, sr).
             let s = s\<lparr>co_right := sr\<rparr>
             in case rr of Fail e \<Rightarrow> Some (Fail e, s) | Panic \<Rightarrow> Some (Panic, s)
              | Ok r \<Rightarrow> (case compound_rows c l r of Fail e \<Rightarrow> Some (Fail e, s) | Panic \<Rightarrow> Some (Panic, s)
                 | Ok rs \<Rightarrow> Some (compound_emit (s\<lparr>co_buf := rs, co_done := True\<rparr>))))))"

definition compound_close :: "'s operator \<Rightarrow> 't operator \<Rightarrow> ('s, 't) compound_st \<Rightarrow> unit res \<times> ('s, 't) compound_st" where
  "compound_close opl opr s =
     (let s = s\<lparr>co_buf := [], co_pos := 0\<rparr>; (rl, sl) = op_close opl (co_left s); s = s\<lparr>co_left := sl\<rparr>
      in if rl = Ok () then let (rr, sr) = op_close opr (co_right s) in (rr, s\<lparr>co_right := sr\<rparr>) else (rl, s))"

definition compound_operator :: "compound_cfg \<Rightarrow> 's operator \<Rightarrow> 't operator \<Rightarrow> ('s, 't) compound_st operator" where
  "compound_operator c opl opr = \<lparr>op_next = compound_next c opl opr, op_close = compound_close opl opr\<rparr>"

lemma compound_emits:
  "drop (co_pos s) (co_buf s) = r # rs \<Longrightarrow>
     \<exists>s'. compound_emit s = (Ok (Some r), s') \<and> drop (co_pos s') (co_buf s') = rs \<and> co_done s' = co_done s"
  "drop (co_pos s) (co_buf s) = [] \<Longrightarrow> compound_emit s = (Ok None, s)"
  using drop_eq_Cons [of "co_pos s" "co_buf s" r rs] by (auto simp: compound_emit_def)

text \<open>The operator over two children that keep their promise.\<close>

locale two_sources = left: row_source opl rowsl + right: row_source opr rowsr
  for opl :: "'s operator" and rowsl and opr :: "'t operator" and rowsr
begin

lemma compound_first:
  "\<exists>sl sr. compound_next c opl opr (new_compound l r) =
     (let s = (new_compound l r)\<lparr>co_left := sl, co_right := sr\<rparr>
      in case compound_rows c (rowsl l) (rowsr r) of Fail e \<Rightarrow> Some (Fail e, s) | Panic \<Rightarrow> Some (Panic, s)
         | Ok rs \<Rightarrow> Some (compound_emit (s\<lparr>co_buf := rs, co_done := True\<rparr>)))"
proof -
  obtain sl where sl: "drainAll opl [] l = Some (Ok (rowsl l), sl)" using left.drain [of "[]" l] by auto
  obtain sr where sr: "drainAll opr [] r = Some (Ok (rowsr r), sr)" using right.drain [of "[]" r] by auto
  show ?thesis
    by (intro exI [of _ sl] exI [of _ sr]) (simp add: compound_next_def new_compound_def sl sr Let_def)
qed

lemma compound_drain:
  assumes "compound_rows c (rowsl l) (rowsr r) = Ok rs"
  shows "\<exists>s'. drainAll (compound_operator c opl opr) [] (new_compound l r) = Some (Ok rs, s')"
proof -
  define R where "R s rs \<longleftrightarrow> (co_done s \<and> drop (co_pos s) (co_buf s) = rs) \<or>
    (\<exists>l r. s = new_compound l r \<and> compound_rows c (rowsl l) (rowsr r) = Ok rs)" for s :: "('s, 't) compound_st" and rs
  have emit: "\<exists>s1. op_next (compound_operator c opl opr) s = Some (compound_emit s1) \<and> co_done s1 \<and>
      drop (co_pos s1) (co_buf s1) = rs" if R: "R s rs" for s rs
  proof (cases "co_done s")
    case True
    then have "drop (co_pos s) (co_buf s) = rs" using R by (auto simp: R_def new_compound_def)
    then show ?thesis using True by (intro exI [of _ s]) (simp add: compound_operator_def compound_next_def)
  next
    case False
    then obtain l r where s: "s = new_compound l r" "compound_rows c (rowsl l) (rowsr r) = Ok rs" using R by (auto simp: R_def)
    obtain sl sr where "compound_next c opl opr s =
        Some (compound_emit ((new_compound l r)\<lparr>co_left := sl, co_right := sr, co_buf := rs, co_done := True\<rparr>))"
      using compound_first [of c l r] s by (simp add: Let_def) blast
    then show ?thesis
      by (intro exI [of _ "(new_compound l r)\<lparr>co_left := sl, co_right := sr, co_buf := rs, co_done := True\<rparr>"])
        (simp add: compound_operator_def new_compound_def)
  qed
  have "\<exists>s'. drainAll (compound_operator c opl opr) [] (new_compound l r) = Some (Ok ([] @ rs), s') \<and> R s' []"
  proof (rule drain_promised)
    fix s x xs assume "R s (x # xs)"
    then obtain s1 where s1: "op_next (compound_operator c opl opr) s = Some (compound_emit s1)" "co_done s1"
      "drop (co_pos s1) (co_buf s1) = x # xs" using emit by blast
    then show "\<exists>s'. op_next (compound_operator c opl opr) s = Some (Ok (Some x), s') \<and> R s' xs"
      using compound_emits(1) [OF s1(3)] unfolding R_def by auto
  next
    fix s assume "R s []"
    then obtain s1 where "op_next (compound_operator c opl opr) s = Some (compound_emit s1)" "co_done s1"
      "drop (co_pos s1) (co_buf s1) = []" using emit by blast
    then show "\<exists>s'. op_next (compound_operator c opl opr) s = Some (Ok None, s') \<and> R s' []"
      using compound_emits(2) [of s1] unfolding R_def by auto
  qed (use assms in \<open>auto simp: R_def\<close>)
  then show ?thesis by auto
qed

end

interpretation scans: two_sources "seq_scan_op tabl" "seq_scan_rows tabl" "seq_scan_op tabr" "seq_scan_rows tabr" for tabl tabr
  by unfold_locales

subsection \<open>What a compound delivers\<close>

lemma intersect_loop_keys:
  "distinctKey ` set (intersect_loop rk seen l) = distinctKey ` set l \<inter> rk - seen"
  "distinct (map distinctKey (intersect_loop rk seen l))"
  by (induction rk seen l rule: intersect_loop.induct) (auto simp: Let_def)

lemma except_loop_keys:
  "distinctKey ` set (except_loop rk seen l) = distinctKey ` set l - rk - seen"
  "distinct (map distinctKey (except_loop rk seen l))"
  by (induction rk seen l rule: except_loop.induct) (auto simp: Let_def)

lemma intersect_keys:
  "set (map distinctKey (intersectRows l r)) = set (map distinctKey l) \<inter> set (map distinctKey r)"
  "distinct (map distinctKey (intersectRows l r))"
  by (auto simp: intersectRows_def intersect_loop_keys)

lemma except_keys:
  "set (map distinctKey (exceptRows l r)) = set (map distinctKey l) - set (map distinctKey r)"
  "distinct (map distinctKey (exceptRows l r))"
  by (simp_all add: exceptRows_def except_loop_keys)

lemma normalize_keys: "map distinctKey (normalize_rows l r rs) = map distinctKey rs"
  by (auto simp: normalize_rows_def distinctKey_def split: list.splits)

lemma clone_keys: "map distinctKey (map cloneRow tab) = map distinctKey tab"
  by simp

definition plain_cfg :: "go_env \<Rightarrow> compound_op \<Rightarrow> compound_cfg" where
  "plain_cfg env op = \<lparr>cc_env = env, cc_params = [], cc_op = op, cc_order = [], cc_limit = ENil, cc_offset = ENil\<rparr>"

definition same_width :: "orow list \<Rightarrow> orow list \<Rightarrow> bool" where
  "same_width l r \<longleftrightarrow> l = [] \<or> r = [] \<or> length (or_data (hd l)) = length (or_data (hd r))"

lemma scan_width: "same_width l r \<Longrightarrow> same_width (map cloneRow l) (map cloneRow r)"
  by (cases l; cases r) (simp_all add: same_width_def)

lemma drain_compound:
  assumes "compound_rows c (map cloneRow tabl) (map cloneRow tabr) = Ok rs"
  shows "\<exists>s'. drainAll (compound_operator c (seq_scan_op tabl) (seq_scan_op tabr)) [] (new_compound new_seq_scan new_seq_scan) = Some (Ok rs, s')"
  using scans.compound_drain [of c tabl new_seq_scan tabr new_seq_scan rs] assms
  by (simp add: seq_scan_rows_def new_seq_scan_def seq_scan_snapshot_def)

text \<open>C22. A compound SELECT over two tables, up to the equality of DISTINCT's key: UNION ALL delivers the rows of both in
  order, UNION, INTERSECT and EXCEPT deliver the union, the intersection and the difference, each key once.\<close>

theorem compound_set_semantics:
  assumes "same_width l r"
  shows "\<exists>out s'. drainAll (compound_operator (plain_cfg env op) (seq_scan_op l) (seq_scan_op r)) []
      (new_compound new_seq_scan new_seq_scan) = Some (Ok out, s') \<and>
    (let keys = map distinctKey; L = set (keys l); R = set (keys r)
     in case op of
          CompoundUnionAll \<Rightarrow> keys out = keys l @ keys r
        | CompoundUnion \<Rightarrow> distinct (keys out) \<and> set (keys out) = L \<union> R
        | CompoundIntersect \<Rightarrow> distinct (keys out) \<and> set (keys out) = L \<inter> R
        | CompoundExcept \<Rightarrow> distinct (keys out) \<and> set (keys out) = L - R)"
proof -
  let ?l = "map cloneRow l" and ?r = "map cloneRow r"
  let ?out = "normalize_rows ?l ?r (combine_rows op ?l ?r)"
  have "compound_rows (plain_cfg env op) ?l ?r = Ok ?out"
    using scan_width [OF assms]
    by (auto simp: compound_rows_def same_width_def plain_cfg_def Let_def clause_int_def apply_offset_def apply_limit_def)
  from drain_compound [OF this] obtain s' where
    "drainAll (compound_operator (plain_cfg env op) (seq_scan_op l) (seq_scan_op r)) []
      (new_compound new_seq_scan new_seq_scan) = Some (Ok ?out, s')" by blast
  moreover have A: "map distinctKey ?out = map distinctKey (combine_rows op ?l ?r)" by (rule normalize_keys)
  moreover have B: "case op of
          CompoundUnionAll \<Rightarrow> map distinctKey (combine_rows op ?l ?r) = map distinctKey l @ map distinctKey r
        | CompoundUnion \<Rightarrow> distinct (map distinctKey (combine_rows op ?l ?r)) \<and>
            set (map distinctKey (combine_rows op ?l ?r)) = set (map distinctKey l) \<union> set (map distinctKey r)
        | CompoundIntersect \<Rightarrow> distinct (map distinctKey (combine_rows op ?l ?r)) \<and>
            set (map distinctKey (combine_rows op ?l ?r)) = set (map distinctKey l) \<inter> set (map distinctKey r)
        | CompoundExcept \<Rightarrow> distinct (map distinctKey (combine_rows op ?l ?r)) \<and>
            set (map distinctKey (combine_rows op ?l ?r)) = set (map distinctKey l) - set (map distinctKey r)"
    using intersect_keys [of ?l ?r] except_keys [of ?l ?r] dedup_distinct [of distinctKey "[]" "?l @ ?r"]
      dedup_keys [of distinctKey "[]" "?l @ ?r"]
    by (cases op) (simp_all add: combine_rows_def dedupRows_def image_Un image_image)
  ultimately show ?thesis unfolding Let_def by (intro exI [of _ ?out] exI [of _ s'] conjI) (simp_all only: A)
qed

theorem compound_set_semantics_witness:
  "\<exists>out s'. drainAll (compound_operator (plain_cfg sample_env CompoundExcept) (seq_scan_op [data_row [VInt 1], data_row [VInt 2]])
      (seq_scan_op [data_row [VInt 2]])) [] (new_compound new_seq_scan new_seq_scan) = Some (Ok out, s') \<and>
    set (map distinctKey out) = {''I1''}"
proof -
  have "same_width [data_row [VInt 1], data_row [VInt 2]] [data_row [VInt 2]]" by (simp add: same_width_def data_row_def)
  from compound_set_semantics [OF this, of sample_env CompoundExcept] obtain out s' where
    "drainAll (compound_operator (plain_cfg sample_env CompoundExcept) (seq_scan_op [data_row [VInt 1], data_row [VInt 2]])
      (seq_scan_op [data_row [VInt 2]])) [] (new_compound new_seq_scan new_seq_scan) = Some (Ok out, s')"
    "set (map distinctKey out) = set (map distinctKey [data_row [VInt 1], data_row [VInt 2]]) - set (map distinctKey [data_row [VInt 2]])"
    unfolding Let_def compound_op.case by blast
  moreover have "set (map distinctKey [data_row [VInt 1], data_row [VInt 2]]) - set (map distinctKey [data_row [VInt 2]]) = {''I1''}"
    by code_simp
  ultimately show ?thesis by blast
qed

lemma offset_drop: "apply_offset (Some (int m)) rs = drop m rs"
  by (auto simp: apply_offset_def Let_def)

lemma limit_take: "apply_limit (Some (int n)) rs = Ok (take n rs)"
  by (simp add: apply_limit_def)

text \<open>C23. ORDER BY, OFFSET and LIMIT of a compound: when the comparison of the combined rows is the order of a key, the
  operator delivers the stably sorted combination without the first OFFSET rows, and LIMIT rows of it.\<close>

theorem compound_order_limit:
  fixes k :: "orow \<Rightarrow> int"
  assumes "same_width l r" "cc_order c \<noteq> []"
    "\<forall>a \<in> set (normalize_rows l r (combine_rows (cc_op c) l r)). \<forall>b \<in> set (normalize_rows l r (combine_rows (cc_op c) l r)).
       order_less (cc_env c) (cc_params c) (cc_order c) a b = Ok (k a < k b)"
    "clause_int (cc_env c) (cc_params c) (cc_offset c) = Ok (Some (int m))"
    "clause_int (cc_env c) (cc_params c) (cc_limit c) = Ok (Some (int n))"
  shows "compound_rows c l r = Ok (take n (drop m (sort_key k (normalize_rows l r (combine_rows (cc_op c) l r)))))"
proof -
  have "go_sort_stable (order_less (cc_env c) (cc_params c) (cc_order c)) (normalize_rows l r (combine_rows (cc_op c) l r)) =
      Ok (sort_key k (normalize_rows l r (combine_rows (cc_op c) l r)))"
    using assms(3) by (intro sort_stable_key) blast
  then show ?thesis using assms(1,2,4,5)
    by (auto simp: compound_rows_def same_width_def Let_def offset_drop limit_take)
qed

definition int_row :: "int \<Rightarrow> orow" where
  "int_row i = \<lparr>or_cols = [''a''], or_types = [1], or_data = [VInt i], or_outer = []\<rparr>"

definition sample_cfg :: compound_cfg where
  "sample_cfg = \<lparr>cc_env = sample_env, cc_params = [], cc_op = CompoundUnion, cc_order = [(Ident ''a'', True)],
     cc_limit = NumberLiteral 2, cc_offset = NumberLiteral 1\<rparr>"

lemma order_int_row:
  "order_less sample_env [] [(Ident ''a'', d)] (int_row i) (int_row j) =
     (let c = val_compare (VInt i) (VInt j) in Ok (c \<noteq> 0 \<and> (if d then 0 < c else c < 0)))"
  by (simp add: row_eval_def row_chain_def int_row_def evalIdent_def EqualFold_def or_null_def Let_def is_ascii_def ch_def)

lemma compare_small:
  assumes "\<bar>i\<bar> < 2 ^ 53" "\<bar>j\<bar> < 2 ^ 53"
  shows "val_compare (VInt i) (VInt j) = (if i < j then - 1 else if j < i then 1 else 0)"
  using f_holds_lt [OF f_holds_of_int f_holds_of_int] assms by (simp add: val_compare_def cmpFloat_def)

theorem compound_order_limit_witness:
  "compound_rows sample_cfg [int_row 1, int_row 3] [int_row 2, int_row 3] = Ok [int_row 2, int_row 1]"
proof -
  let ?k = "\<lambda>r. case or_data r of [VInt i] \<Rightarrow> - i | _ \<Rightarrow> 0"
  have rs: "normalize_rows [int_row 1, int_row 3] [int_row 2, int_row 3]
      (combine_rows (cc_op sample_cfg) [int_row 1, int_row 3] [int_row 2, int_row 3]) = [int_row 1, int_row 3, int_row 2]"
    by code_simp
  have k: "?k (int_row i) = - i" for i by (simp add: int_row_def)
  have "compound_rows sample_cfg [int_row 1, int_row 3] [int_row 2, int_row 3] =
      Ok (take 2 (drop 1 (sort_key ?k (normalize_rows [int_row 1, int_row 3] [int_row 2, int_row 3]
        (combine_rows (cc_op sample_cfg) [int_row 1, int_row 3] [int_row 2, int_row 3])))))"
  proof (rule compound_order_limit)
    show "\<forall>a \<in> set (normalize_rows [int_row 1, int_row 3] [int_row 2, int_row 3]
        (combine_rows (cc_op sample_cfg) [int_row 1, int_row 3] [int_row 2, int_row 3])).
       \<forall>b \<in> set (normalize_rows [int_row 1, int_row 3] [int_row 2, int_row 3]
        (combine_rows (cc_op sample_cfg) [int_row 1, int_row 3] [int_row 2, int_row 3])).
       order_less (cc_env sample_cfg) (cc_params sample_cfg) (cc_order sample_cfg) a b = Ok (?k a < ?k b)"
      unfolding rs by (simp add: sample_cfg_def order_int_row compare_small k del: order_less.simps)
  qed (simp_all add: same_width_def int_row_def sample_cfg_def clause_int_def)
  then show ?thesis unfolding rs by (simp add: k)
qed

text \<open>A negative LIMIT, which other databases read as no limit, is a slice bound of a compound SELECT: as soon as the
  result has a row, \<open>Next\<close> panics.\<close>

theorem compound_negative_limit_panics:
  assumes "clause_int env [] lim = Ok (Some n)" "n < 0" "l \<noteq> []"
  shows "\<exists>s'. drainAll (compound_operator (plain_cfg env CompoundUnionAll\<lparr>cc_limit := lim\<rparr>) (seq_scan_op l) (seq_scan_op []))
    [] (new_compound new_seq_scan new_seq_scan) = Some (Panic, s')"
proof -
  let ?c = "plain_cfg env CompoundUnionAll\<lparr>cc_limit := lim\<rparr>"
  have "normalize_rows (map cloneRow l) [] (map cloneRow l) \<noteq> []"
    using assms(3) by (auto simp: normalize_rows_def split: list.splits)
  then have "compound_rows ?c (map cloneRow l) (map cloneRow []) = Panic"
    using assms by (simp add: compound_rows_def plain_cfg_def combine_rows_def clause_int_def apply_offset_def apply_limit_def Let_def)
  then show ?thesis
    using scans.compound_first [of ?c l "[]" new_seq_scan new_seq_scan]
    by (auto simp: drainAll.simps [of _ _ "new_compound _ _"] compound_operator_def seq_scan_rows_def new_seq_scan_def
        seq_scan_snapshot_def Let_def)
qed

theorem compound_negative_limit_panics_witness:
  "\<exists>s'. drainAll (compound_operator (plain_cfg sample_env CompoundUnionAll\<lparr>cc_limit := UnaryExpr T_MINUS (NumberLiteral 1)\<rparr>)
    (seq_scan_op [int_row 1]) (seq_scan_op [])) [] (new_compound new_seq_scan new_seq_scan) = Some (Panic, s')"
  by (rule compound_negative_limit_panics [of _ _ "- 1"]) (simp_all add: clause_int_def unary_op_def wrap64_id)

end
