(* ===== verification/Sql_Ops.thy ===== *)
theory Sql_Ops
  imports Sql_Compound
begin

text \<open>
  The operators of \<open>SQL/EX/intermediate.go\<close> above any child: Filter, Project, Sort, Limit and Offset.
  \<open>yields\<close> says what an operator delivers from a state: the rows, and how the sequence ends. Every operator is
  a function on what its child yields, errors and panics of the child and of the expressions included.
\<close>

subsection \<open>What an operator yields\<close>

inductive yields :: "'s operator \<Rightarrow> 's \<Rightarrow> orow list \<Rightarrow> unit res \<Rightarrow> bool" for op :: "'s operator" where
  yields_end: "op_next op s = Some (Ok None, s') \<Longrightarrow> yields op s [] (Ok ())"
| yields_fail: "op_next op s = Some (Fail e, s') \<Longrightarrow> yields op s [] (Fail e)"
| yields_panic: "op_next op s = Some (Panic, s') \<Longrightarrow> yields op s [] Panic"
| yields_row: "op_next op s = Some (Ok (Some r), s') \<Longrightarrow> yields op s' rs en \<Longrightarrow> yields op s (r # rs) en"

lemma yields_det: "yields op s rs en \<Longrightarrow> yields op s rs' en' \<Longrightarrow> rs' = rs \<and> en' = en"
proof (induction arbitrary: rs' en' rule: yields.induct)
  case (yields_row s r s' rs en)
  show ?case using yields_row.prems yields_row.hyps(1) yields_row.IH by (cases rule: yields.cases) auto
qed (erule yields.cases; simp)+

definition drained :: "orow list \<Rightarrow> unit res \<Rightarrow> orow list res" where
  "drained rs en = (case en of Ok _ \<Rightarrow> Ok rs | Fail e \<Rightarrow> Fail e | Panic \<Rightarrow> Panic)"

lemma yields_drainAll: "yields op s rs en \<Longrightarrow> \<exists>s'. drainAll op out s = Some (drained (out @ rs) en, s')"
proof (induction arbitrary: out rule: yields.induct)
  case (yields_row s r s' rs en)
  then show ?case using yields_row.IH [of "out @ [r]"] by (simp add: drainAll.simps [of op _ s])
qed (simp_all add: drainAll.simps drained_def)

context row_source
begin

lemma yields_rows: "yields op s (rows s) (Ok ())"
proof (induction "rows s" arbitrary: s)
  case Nil
  then show ?case using next_end [of s] by (metis yields_end)
next
  case (Cons r rs)
  then obtain s' where "op_next op s = Some (Ok (Some r), s')" "rows s' = rs" using next_row by metis
  then show ?case using Cons by (metis yields_row)
qed

end

lemma yields_scan: "yields (seq_scan_op tab) new_seq_scan (map cloneRow tab) (Ok ())"
  using scan.yields_rows [of tab new_seq_scan] by (simp add: seq_scan_rows_def new_seq_scan_def seq_scan_snapshot_def)

text \<open>An operator that delivers a buffer from a position on.\<close>

lemma yields_buffer:
  assumes "\<And>s i. P s i \<Longrightarrow> i < length buf \<Longrightarrow> \<exists>s'. op_next op s = Some (Ok (Some (buf ! i)), s') \<and> P s' (Suc i)"
    "\<And>s. P s (length buf) \<Longrightarrow> \<exists>s'. op_next op s = Some (Ok None, s')" "P s i" "i \<le> length buf"
  shows "yields op s (drop i buf) (Ok ())"
  using assms(3,4)
proof (induction "length buf - i" arbitrary: s i)
  case 0
  then have "i = length buf" by simp
  then show ?case using assms(2) 0 by (metis drop_all order_refl yields_end)
next
  case (Suc n)
  then have i: "i < length buf" by simp
  then obtain s' where s': "op_next op s = Some (Ok (Some (buf ! i)), s')" "P s' (Suc i)" using assms(1) Suc.prems(1) by blast
  have "yields op s' (drop (Suc i) buf) (Ok ())" using Suc s'(2) i by (intro Suc.hyps(1)) auto
  then show ?case using s'(1) i by (metis Cons_nth_drop_Suc yields_row)
qed

text \<open>An operator that another one simulates, up to the shape of the state.\<close>

lemma yields_map:
  assumes "yields op s rs en" "\<And>s. op_next op' (f s) = map_option (apsnd f) (op_next op s)"
  shows "yields op' (f s) rs en"
  using assms(1) by (induction rule: yields.induct) (auto simp: assms(2) intro: yields.intros)

subsection \<open>Filter\<close>

partial_function (option) filter_next ::
  "go_env \<Rightarrow> val list \<Rightarrow> expr \<Rightarrow> 's operator \<Rightarrow> 's \<Rightarrow> (orow option res \<times> 's) option" where
  "filter_next env params p op s =
     Option.bind (op_next op s) (\<lambda>(r, s').
       case r of
         Ok (Some row) \<Rightarrow>
           if p = ENil then Some (Ok (Some row), s')
           else (case row_eval env params p row of
               Ok v \<Rightarrow> if truthy v then Some (Ok (Some row), s') else filter_next env params p op s'
             | Fail e \<Rightarrow> Some (Fail e, s')
             | Panic \<Rightarrow> Some (Panic, s'))
       | _ \<Rightarrow> Some (r, s'))"

definition filter_op :: "go_env \<Rightarrow> val list \<Rightarrow> expr \<Rightarrow> 's operator \<Rightarrow> 's operator" where
  "filter_op env params p op = \<lparr>op_next = filter_next env params p op, op_close = op_close op\<rparr>"

fun filter_rows :: "(orow \<Rightarrow> val res) \<Rightarrow> orow list \<Rightarrow> unit res \<Rightarrow> orow list \<times> unit res" where
  "filter_rows f [] en = ([], en)"
| "filter_rows f (r # rs) en =
     (case f r of
        Ok v \<Rightarrow> if truthy v then apfst ((#) r) (filter_rows f rs en) else filter_rows f rs en
      | Fail e \<Rightarrow> ([], Fail e)
      | Panic \<Rightarrow> ([], Panic))"

lemma yields_filter:
  assumes "yields op s rs en" "p \<noteq> ENil"
  shows "case filter_rows (row_eval env params p) rs en of (out, en') \<Rightarrow> yields (filter_op env params p op) s out en'"
  using assms(1)
proof (induction rule: yields.induct)
  case (yields_row s r s' rs en)
  let ?op = "filter_op env params p op"
  obtain out en' where o: "filter_rows (row_eval env params p) rs en = (out, en')" by fastforce
  then have IH: "yields ?op s' out en'" using yields_row.IH by simp
  have step: "op_next ?op s = (case row_eval env params p r of
       Ok v \<Rightarrow> if truthy v then Some (Ok (Some r), s') else op_next ?op s' | Fail e \<Rightarrow> Some (Fail e, s') | Panic \<Rightarrow> Some (Panic, s'))"
    using yields_row.hyps(1) assms(2) by (simp add: filter_op_def filter_next.simps [of env params p op s] split: outcome.split)
  have skip: "yields ?op s out en'" if "op_next ?op s = op_next ?op s'"
    using IH by (cases rule: yields.cases) (metis that yields.intros)+
  show ?case
  proof (cases "row_eval env params p r")
    case (Ok v)
    then show ?thesis using step o IH skip by (auto intro: yields.yields_row)
  qed (use step in \<open>auto intro: yields.intros\<close>)
qed (auto simp: filter_op_def filter_next.simps intro!: yields.intros)

lemma filter_rows_total:
  assumes "\<And>r. r \<in> set rs \<Longrightarrow> f r = Ok (g r)"
  shows "filter_rows f rs en = (filter (\<lambda>r. truthy (g r)) rs, en)"
  using assms by (induction rs) auto

subsection \<open>Project\<close>

definition isStar :: "expr list \<Rightarrow> bool" where
  "isStar cols \<longleftrightarrow> (case cols of [StarExpr] \<Rightarrow> True | _ \<Rightarrow> False)"

definition proj_name :: "expr \<Rightarrow> string" where
  "proj_name c =
     (let name = (case c of
            Ident x \<Rightarrow> x
          | AliasedExpr e a \<Rightarrow> (let n = (case e of Ident x \<Rightarrow> x | _ \<Rightarrow> []) in if n = [] then a else n)
          | UnaryExpr op (Ident x) \<Rightarrow> x
          | _ \<Rightarrow> [])
      in case c of AliasedExpr e a \<Rightarrow> a | _ \<Rightarrow> name)"

fun project_loop :: "go_env \<Rightarrow> val list \<Rightarrow> orow \<Rightarrow> expr list \<Rightarrow> orow \<Rightarrow> orow res" where
  "project_loop env params row [] out = Ok out"
| "project_loop env params row (c # cs) out =
     obind (row_eval env params c row) (\<lambda>v.
       project_loop env params row cs (out\<lparr>or_cols := or_cols out @ [proj_name c], or_data := or_data out @ [v]\<rparr>))"

definition empty_row :: orow where
  "empty_row = \<lparr>or_cols = [], or_types = [], or_data = [], or_outer = []\<rparr>"

definition project_row :: "go_env \<Rightarrow> val list \<Rightarrow> expr list \<Rightarrow> orow \<Rightarrow> orow res" where
  "project_row env params cols row = (if isStar cols then Ok row else project_loop env params row cols empty_row)"

definition project_next :: "go_env \<Rightarrow> val list \<Rightarrow> expr list \<Rightarrow> 's operator \<Rightarrow> 's \<Rightarrow> (orow option res \<times> 's) option" where
  "project_next env params cols op s =
     Option.bind (op_next op s) (\<lambda>(r, s').
       case r of
         Ok (Some row) \<Rightarrow>
           (case project_row env params cols row of
              Ok out \<Rightarrow> Some (Ok (Some out), s') | Fail e \<Rightarrow> Some (Fail e, s') | Panic \<Rightarrow> Some (Panic, s'))
       | _ \<Rightarrow> Some (r, s'))"

definition project_op :: "go_env \<Rightarrow> val list \<Rightarrow> expr list \<Rightarrow> 's operator \<Rightarrow> 's operator" where
  "project_op env params cols op = \<lparr>op_next = project_next env params cols op, op_close = op_close op\<rparr>"

fun map_rows :: "(orow \<Rightarrow> orow res) \<Rightarrow> orow list \<Rightarrow> unit res \<Rightarrow> orow list \<times> unit res" where
  "map_rows f [] en = ([], en)"
| "map_rows f (r # rs) en =
     (case f r of
        Ok r' \<Rightarrow> apfst ((#) r') (map_rows f rs en)
      | Fail e \<Rightarrow> ([], Fail e)
      | Panic \<Rightarrow> ([], Panic))"

lemma yields_project:
  assumes "yields op s rs en"
  shows "case map_rows (project_row env params cols) rs en of (out, en') \<Rightarrow> yields (project_op env params cols op) s out en'"
  using assms
proof (induction rule: yields.induct)
  case (yields_row s r s' rs en)
  then show ?case
    by (cases "project_row env params cols r"; cases "map_rows (project_row env params cols) rs en")
      (auto simp: project_op_def project_next_def intro: yields.intros)
qed (auto simp: project_op_def project_next_def intro: yields.intros)

lemma map_rows_total:
  assumes "\<And>r. r \<in> set rs \<Longrightarrow> f r = Ok (g r)"
  shows "map_rows f rs en = (map g rs, en)"
  using assms by (induction rs) auto

subsection \<open>Sort\<close>

record 's sort_st =
  so_child :: 's
  so_buf :: "orow list"
  so_pos :: nat
  so_done :: bool

definition new_sort :: "'s \<Rightarrow> 's sort_st" where
  "new_sort c = \<lparr>so_child = c, so_buf = [], so_pos = 0, so_done = False\<rparr>"

partial_function (option) sort_fill :: "'s operator \<Rightarrow> 's sort_st \<Rightarrow> (unit res \<times> 's sort_st) option" where
  "sort_fill op s =
     Option.bind (op_next op (so_child s)) (\<lambda>(r, c).
       let s = s\<lparr>so_child := c\<rparr>
       in case r of
            Ok (Some x) \<Rightarrow> sort_fill op (s\<lparr>so_buf := so_buf s @ [x]\<rparr>)
          | Ok None \<Rightarrow> Some (Ok (), s)
          | Fail e \<Rightarrow> Some (Fail e, s)
          | Panic \<Rightarrow> Some (Panic, s))"

definition sort_emit :: "'s sort_st \<Rightarrow> orow option res \<times> 's sort_st" where
  "sort_emit s =
     (if length (so_buf s) \<le> so_pos s then (Ok None, s)
      else (Ok (Some (so_buf s ! so_pos s)), s\<lparr>so_pos := so_pos s + 1\<rparr>))"

definition sort_next :: "go_env \<Rightarrow> val list \<Rightarrow> (expr \<times> bool) list \<Rightarrow> 's operator \<Rightarrow> 's sort_st \<Rightarrow>
    (orow option res \<times> 's sort_st) option" where
  "sort_next env params keys op s =
     (if so_done s then Some (sort_emit s)
      else Option.bind (sort_fill op s) (\<lambda>(r, s).
        case r of
          Fail e \<Rightarrow> Some (Fail e, s)
        | Panic \<Rightarrow> Some (Panic, s)
        | Ok _ \<Rightarrow> (case go_sort_stable (order_less env params keys) (so_buf s) of
              Fail e \<Rightarrow> Some (Fail e, s)
            | Panic \<Rightarrow> Some (Panic, s)
            | Ok ys \<Rightarrow> Some (sort_emit (s\<lparr>so_buf := ys, so_done := True\<rparr>)))))"

definition sort_close :: "'s operator \<Rightarrow> 's sort_st \<Rightarrow> unit res \<times> 's sort_st" where
  "sort_close op s = (let (r, c) = op_close op (so_child s) in (r, new_sort c))"

definition sort_op :: "go_env \<Rightarrow> val list \<Rightarrow> (expr \<times> bool) list \<Rightarrow> 's operator \<Rightarrow> 's sort_st operator" where
  "sort_op env params keys op = \<lparr>op_next = sort_next env params keys op, op_close = sort_close op\<rparr>"

lemma sort_fill_yields:
  assumes "yields op (so_child s) rs en"
  shows "\<exists>c buf. sort_fill op s = Some (en, s\<lparr>so_child := c, so_buf := buf\<rparr>) \<and> (en = Ok () \<longrightarrow> buf = so_buf s @ rs)"
  using assms
proof (induction "so_child s" rs en arbitrary: s rule: yields.induct)
  case (yields_row r c rs en)
  let ?s = "s\<lparr>so_child := c, so_buf := so_buf s @ [r]\<rparr>"
  obtain c' buf where "sort_fill op ?s = Some (en, ?s\<lparr>so_child := c', so_buf := buf\<rparr>)" "en = Ok () \<longrightarrow> buf = so_buf s @ [r] @ rs"
    using yields_row.hyps(3) [of ?s] by auto
  then show ?case using yields_row.hyps(1)
    by (intro exI [of _ c'] exI [of _ buf]) (simp add: sort_fill.simps [of op s] Let_def)
next
  case (yields_end c)
  then show ?case by (intro exI [of _ c] exI [of _ "so_buf s"]) (simp add: sort_fill.simps [of op s] Let_def)
next
  case (yields_fail e c)
  then show ?case by (intro exI [of _ c] exI [of _ "so_buf s"]) (simp add: sort_fill.simps [of op s] Let_def)
next
  case (yields_panic c)
  then show ?case by (intro exI [of _ c] exI [of _ "so_buf s"]) (simp add: sort_fill.simps [of op s] Let_def)
qed

definition sort_rows :: "('a \<Rightarrow> 'a \<Rightarrow> bool res) \<Rightarrow> 'a list \<Rightarrow> unit res \<Rightarrow> 'a list \<times> unit res" where
  "sort_rows lt rs en =
     (case en of
        Ok _ \<Rightarrow> (case go_sort_stable lt rs of Ok ys \<Rightarrow> (ys, Ok ()) | Fail e \<Rightarrow> ([], Fail e) | Panic \<Rightarrow> ([], Panic))
      | _ \<Rightarrow> ([], en))"

lemma yields_sort_emit:
  assumes "so_done s" "so_pos s \<le> length (so_buf s)"
  shows "yields (sort_op env params keys op) s (drop (so_pos s) (so_buf s)) (Ok ())"
proof (rule yields_buffer [where P = "\<lambda>t i. so_done t \<and> so_buf t = so_buf s \<and> so_pos t = i"])
qed (use assms in \<open>auto simp: sort_op_def sort_next_def sort_emit_def\<close>)

lemma yields_first:
  assumes "op_next op s = op_next op t" "yields op t rs en"
  shows "yields op s rs en"
  using assms(2) by (cases rule: yields.cases) (metis assms(1) yields.intros)+

lemma yields_sort:
  assumes "yields op c rs en"
  shows "case sort_rows (order_less env params keys) rs en of (out, en') \<Rightarrow> yields (sort_op env params keys op) (new_sort c) out en'"
proof -
  let ?op = "sort_op env params keys op"
  obtain c' buf where f: "sort_fill op (new_sort c) = Some (en, (new_sort c)\<lparr>so_child := c', so_buf := buf\<rparr>)"
    "en = Ok () \<longrightarrow> buf = rs"
    using sort_fill_yields [of op "new_sort c" rs en] assms by (auto simp: new_sort_def)
  show ?thesis
  proof (cases "en = Ok () \<and> (\<exists>ys. go_sort_stable (order_less env params keys) rs = Ok ys)")
    case True
    then obtain ys where ys: "go_sort_stable (order_less env params keys) rs = Ok ys" by blast
    let ?t = "(new_sort c)\<lparr>so_child := c', so_buf := ys, so_done := True\<rparr>"
    have "op_next ?op (new_sort c) = op_next ?op ?t"
      using f ys True by (simp add: sort_op_def sort_next_def new_sort_def)
    moreover have "yields ?op ?t ys (Ok ())" using yields_sort_emit [of ?t env params keys op] by (simp add: new_sort_def)
    ultimately show ?thesis using True ys by (simp add: sort_rows_def yields_first)
  next
    case False
    then show ?thesis using f
      by (cases en; cases "go_sort_stable (order_less env params keys) rs")
        (auto simp: sort_rows_def sort_op_def sort_next_def new_sort_def intro!: yields.intros)
  qed
qed

lemma sort_rows_key:
  fixes k :: "'a \<Rightarrow> 'k::linorder"
  assumes "\<And>x y. x \<in> set xs \<Longrightarrow> y \<in> set xs \<Longrightarrow> lt x y = Ok (k x < k y)"
  shows "sort_rows lt xs (Ok ()) = (sort_key k xs, Ok ())"
  using sort_stable_key [of xs lt k] assms by (simp add: sort_rows_def)

subsection \<open>Limit and Offset\<close>

record 's limit_st =
  li_child :: 's
  li_seen :: int

definition new_limit :: "'s \<Rightarrow> 's limit_st" where
  "new_limit c = \<lparr>li_child = c, li_seen = 0\<rparr>"

definition limit_next :: "int \<Rightarrow> 's operator \<Rightarrow> 's limit_st \<Rightarrow> (orow option res \<times> 's limit_st) option" where
  "limit_next n op s =
     (if n \<le> li_seen s then Some (Ok None, s)
      else Option.bind (op_next op (li_child s)) (\<lambda>(r, c).
        let s = s\<lparr>li_child := c\<rparr>
        in Some (r, case r of Ok (Some _) \<Rightarrow> s\<lparr>li_seen := li_seen s + 1\<rparr> | _ \<Rightarrow> s)))"

definition limit_close :: "'s operator \<Rightarrow> 's limit_st \<Rightarrow> unit res \<times> 's limit_st" where
  "limit_close op s = (let (r, c) = op_close op (li_child s) in (r, new_limit c))"

definition limit_op :: "int \<Rightarrow> 's operator \<Rightarrow> 's limit_st operator" where
  "limit_op n op = \<lparr>op_next = limit_next n op, op_close = limit_close op\<rparr>"

definition limit_rows :: "nat \<Rightarrow> 'a list \<Rightarrow> unit res \<Rightarrow> 'a list \<times> unit res" where
  "limit_rows n rs en = (take n rs, if n \<le> length rs then Ok () else en)"

lemma yields_limit_seen:
  assumes "yields op (li_child s) rs en" "li_seen s \<le> n"
  shows "case limit_rows (nat (n - li_seen s)) rs en of (out, en') \<Rightarrow> yields (limit_op n op) s out en'"
  using assms
proof (induction "li_child s" rs en arbitrary: s rule: yields.induct)
  case (yields_row r c rs en)
  show ?case
  proof (cases "n \<le> li_seen s")
    case True
    then show ?thesis by (auto simp: limit_rows_def limit_op_def limit_next_def intro: yields.intros)
  next
    case False
    let ?s = "s\<lparr>li_child := c, li_seen := li_seen s + 1\<rparr>"
    have "op_next (limit_op n op) s = Some (Ok (Some r), ?s)"
      using yields_row.hyps(1) False by (simp add: limit_op_def limit_next_def Let_def)
    moreover have "case limit_rows (nat (n - li_seen ?s)) rs en of (out, en') \<Rightarrow> yields (limit_op n op) ?s out en'"
      using yields_row.hyps(3) [of ?s] False by simp
    moreover have "nat (n - li_seen s) = Suc (nat (n - li_seen ?s))" using False by simp
    ultimately show ?thesis by (auto simp: limit_rows_def intro: yields.yields_row)
  qed
next
  case (yields_end c)
  then show ?case by (cases "n \<le> li_seen s") (auto simp: limit_rows_def limit_op_def limit_next_def intro: yields.intros)
next
  case (yields_fail e c)
  then show ?case by (cases "n \<le> li_seen s") (auto simp: limit_rows_def limit_op_def limit_next_def intro: yields.intros)
next
  case (yields_panic c)
  then show ?case by (cases "n \<le> li_seen s") (auto simp: limit_rows_def limit_op_def limit_next_def intro: yields.intros)
qed

lemma yields_limit:
  assumes "yields op c rs en"
  shows "case limit_rows (nat n) rs en of (out, en') \<Rightarrow> yields (limit_op n op) (new_limit c) out en'"
proof (cases "0 \<le> n")
  case True
  then show ?thesis using yields_limit_seen [of op "new_limit c" rs en n] assms by (simp add: new_limit_def)
next
  case False
  then show ?thesis by (auto simp: limit_rows_def limit_op_def limit_next_def new_limit_def intro: yields.intros)
qed

record 's offset_st =
  of_child :: 's
  of_skipped :: int

text \<open>\<open>NewOffset\<close> reads a negative count as 0.\<close>

definition offset_count :: "int \<Rightarrow> int" where
  "offset_count n = (if n < 0 then 0 else n)"

definition new_offset :: "'s \<Rightarrow> 's offset_st" where
  "new_offset c = \<lparr>of_child = c, of_skipped = 0\<rparr>"

partial_function (option) offset_next :: "int \<Rightarrow> 's operator \<Rightarrow> 's offset_st \<Rightarrow> (orow option res \<times> 's offset_st) option" where
  "offset_next n op s =
     (if of_skipped s < n then
        Option.bind (op_next op (of_child s)) (\<lambda>(r, c).
          let s = s\<lparr>of_child := c\<rparr>
          in case r of Ok (Some _) \<Rightarrow> offset_next n op (s\<lparr>of_skipped := of_skipped s + 1\<rparr>) | _ \<Rightarrow> Some (r, s))
      else Option.bind (op_next op (of_child s)) (\<lambda>(r, c). Some (r, s\<lparr>of_child := c\<rparr>)))"

definition offset_close :: "'s operator \<Rightarrow> 's offset_st \<Rightarrow> unit res \<times> 's offset_st" where
  "offset_close op s = (let (r, c) = op_close op (of_child s) in (r, new_offset c))"

definition offset_op :: "int \<Rightarrow> 's operator \<Rightarrow> 's offset_st operator" where
  "offset_op n op = \<lparr>op_next = offset_next (offset_count n) op, op_close = offset_close op\<rparr>"

lemma yields_offset_skipped:
  assumes "yields op (of_child s) rs en" "of_skipped s \<le> offset_count n"
  shows "yields (offset_op n op) s (drop (nat (offset_count n - of_skipped s)) rs) en"
  using assms
proof (induction "of_child s" rs en arbitrary: s rule: yields.induct)
  case (yields_row r c rs en)
  let ?op = "offset_op n op"
  show ?case
  proof (cases "of_skipped s < offset_count n")
    case True
    let ?s = "s\<lparr>of_child := c, of_skipped := of_skipped s + 1\<rparr>"
    have "op_next ?op s = op_next ?op ?s"
      using yields_row.hyps(1) True by (simp add: offset_op_def offset_next.simps [of _ op s])
    moreover have "yields ?op ?s (drop (nat (offset_count n - of_skipped ?s)) rs) en" using yields_row.hyps(3) [of ?s] True by simp
    moreover have "nat (offset_count n - of_skipped s) = Suc (nat (offset_count n - of_skipped ?s))" using True by simp
    ultimately show ?thesis by (simp add: yields_first)
  next
    case False
    let ?s = "s\<lparr>of_child := c\<rparr>"
    have "op_next ?op s = Some (Ok (Some r), ?s)"
      using yields_row.hyps(1) False by (simp add: offset_op_def offset_next.simps [of _ op s])
    moreover have "yields ?op ?s rs en" using yields_row.hyps(3) [of ?s] yields_row.prems False by simp
    ultimately show ?thesis using False yields_row.prems by (auto intro: yields.yields_row)
  qed
next
  case (yields_end c)
  then show ?case by (cases "of_skipped s < offset_count n") (auto simp: offset_op_def offset_next.simps [of _ op s] intro: yields.intros)
next
  case (yields_fail e c)
  then show ?case by (cases "of_skipped s < offset_count n") (auto simp: offset_op_def offset_next.simps [of _ op s] intro: yields.intros)
next
  case (yields_panic c)
  then show ?case by (cases "of_skipped s < offset_count n") (auto simp: offset_op_def offset_next.simps [of _ op s] intro: yields.intros)
qed

lemma yields_offset:
  assumes "yields op c rs en"
  shows "yields (offset_op n op) (new_offset c) (drop (nat n) rs) en"
proof -
  have "nat (offset_count n) = nat n" by (simp add: offset_count_def)
  then show ?thesis using yields_offset_skipped [of op "new_offset c" rs en n] assms by (simp add: new_offset_def offset_count_def split: if_splits)
qed

subsection \<open>Distinct and compounds\<close>

text \<open>An operator that collects all its rows before the first one is delivered.\<close>

definition collected :: "(orow list \<Rightarrow> orow list res) \<Rightarrow> orow list \<Rightarrow> unit res \<Rightarrow> orow list \<times> unit res" where
  "collected f rs en =
     (case en of
        Ok _ \<Rightarrow> (case f rs of Ok ys \<Rightarrow> (ys, Ok ()) | Fail e \<Rightarrow> ([], Fail e) | Panic \<Rightarrow> ([], Panic))
      | _ \<Rightarrow> ([], en))"

lemma collected_simps [simp]:
  "f rs = Ok ys \<Longrightarrow> collected f rs (Ok u) = (ys, Ok ())"
  "f rs = Fail e \<Longrightarrow> collected f rs (Ok u) = ([], Fail e)"
  "f rs = Panic \<Longrightarrow> collected f rs (Ok u) = ([], Panic)"
  "collected f rs (Fail e) = ([], Fail e)" "collected f rs Panic = ([], Panic)"
  by (simp_all add: collected_def)

lemma ds_fill_yields:
  assumes "yields op (ds_child d) rs en"
  shows "\<exists>c seen buf. ds_fill op d = Some (en, d\<lparr>ds_child := c, ds_seen := seen, ds_buf := buf\<rparr>) \<and>
    (en = Ok () \<longrightarrow> buf = ds_buf d @ dedup distinctKey (ds_seen d) rs)"
  using assms
proof (induction "ds_child d" rs en arbitrary: d rule: yields.induct)
  case (yields_row r c rs en)
  define d' where "d' = ds_add r (d\<lparr>ds_child := c\<rparr>)"
  have "c = ds_child d'" by (simp add: d'_def ds_add_def Let_def)
  then obtain c' seen buf where o: "ds_fill op d' = Some (en, d'\<lparr>ds_child := c', ds_seen := seen, ds_buf := buf\<rparr>)"
    "en = Ok () \<longrightarrow> buf = ds_buf d' @ dedup distinctKey (ds_seen d') rs" using yields_row.hyps(3) [of d'] by blast
  have "ds_fill op d = ds_fill op d'" using yields_row.hyps(1) by (simp add: ds_fill.simps [of op d] d'_def Let_def)
  then show ?case using o by (intro exI [of _ c'] exI [of _ seen] exI [of _ buf]) (auto simp: d'_def ds_add_def Let_def)
next
  case (yields_end c)
  then show ?case by (intro exI [of _ c] exI [of _ "ds_seen d"] exI [of _ "ds_buf d"]) (simp add: ds_fill.simps [of op d] Let_def)
next
  case (yields_fail e c)
  then show ?case by (intro exI [of _ c] exI [of _ "ds_seen d"] exI [of _ "ds_buf d"]) (simp add: ds_fill.simps [of op d] Let_def)
next
  case (yields_panic c)
  then show ?case by (intro exI [of _ c] exI [of _ "ds_seen d"] exI [of _ "ds_buf d"]) (simp add: ds_fill.simps [of op d] Let_def)
qed

lemma yields_distinct_op:
  assumes "yields op c rs en"
  shows "case collected (\<lambda>rs. Ok (dedup distinctKey [] rs)) rs en of (out, en') \<Rightarrow>
    yields (distinct_op op) (new_distinct c) out en'"
proof -
  let ?op = "distinct_op op"
  obtain c' seen buf where f: "ds_fill op (new_distinct c) = Some (en, (new_distinct c)\<lparr>ds_child := c', ds_seen := seen, ds_buf := buf\<rparr>)"
    "en = Ok () \<longrightarrow> buf = dedup distinctKey [] rs"
    using ds_fill_yields [of op "new_distinct c" rs en] assms by (auto simp: new_distinct_def)
  let ?t = "(new_distinct c)\<lparr>ds_child := c', ds_seen := seen, ds_buf := buf\<rparr>"
  show ?thesis
  proof (cases en)
    case (Ok u)
    then have n: "op_next ?op (new_distinct c) = Some (ds_emit ?t)"
      using f by (simp add: distinct_op_def distinct_next_def new_distinct_def)
    show ?thesis
    proof (cases "buf = []")
      case True
      then have "yields ?op (new_distinct c) [] (Ok ())"
        using n by (intro yields_end) (simp add: ds_emit_def new_distinct_def)
      then show ?thesis using f Ok True by simp
    next
      case False
      have "yields ?op ?t (drop 0 buf) (Ok ())"
      proof (rule yields_buffer [where P = "\<lambda>t i. ds_buf t = buf \<and> ds_pos t = i"])
      qed (use False in \<open>auto simp: distinct_op_def distinct_next_def ds_emit_def new_distinct_def\<close>)
      moreover have "op_next ?op ?t = op_next ?op (new_distinct c)"
        unfolding n using False by (simp add: distinct_op_def distinct_next_def)
      ultimately have "yields ?op (new_distinct c) buf (Ok ())" by (metis drop_0 yields_first)
      then show ?thesis using f Ok by simp
    qed
  qed (use f in \<open>auto simp: distinct_op_def distinct_next_def new_distinct_def intro!: yields.intros\<close>)
qed

lemma yields_compound:
  assumes "yields opl l ls enl" "yields opr r rs enr"
  shows "case (case enl of Ok _ \<Rightarrow> collected (compound_rows c ls) rs enr | _ \<Rightarrow> ([], enl)) of (out, en) \<Rightarrow>
    yields (compound_operator c opl opr) (new_compound l r) out en"
proof -
  let ?op = "compound_operator c opl opr"
  obtain sl where sl: "drainAll opl [] l = Some (drained ls enl, sl)" using yields_drainAll [OF assms(1), of "[]"] by auto
  obtain sr where sr: "drainAll opr [] r = Some (drained rs enr, sr)" using yields_drainAll [OF assms(2), of "[]"] by auto
  note d = sl sr drained_def compound_operator_def compound_next_def new_compound_def
  have "yields ?op (new_compound l r) out (Ok ())" if "enl = Ok ()" "enr = Ok ()" "compound_rows c ls rs = Ok out" for out
  proof -
    let ?t = "(new_compound l r)\<lparr>co_left := sl, co_right := sr, co_buf := out, co_done := True\<rparr>"
    have "yields ?op ?t (drop 0 out) (Ok ())"
    proof (rule yields_buffer [where P = "\<lambda>t i. co_done t \<and> co_buf t = out \<and> co_pos t = i"])
    qed (auto simp: compound_operator_def compound_next_def compound_emit_def new_compound_def)
    moreover have "op_next ?op (new_compound l r) = op_next ?op ?t" using that by (simp add: d Let_def)
    ultimately show ?thesis by (simp add: yields_first)
  qed
  then show ?thesis
    by (cases enl; cases enr; cases "compound_rows c ls rs")
      (auto simp: d Let_def intro: yields.intros)
qed

end
