(* ===== verification/Sql_Join.thy ===== *)
theory Sql_Join
  imports Sql_Ops
begin

text \<open>
  The joins of the executor: \<open>NestedLoopJoin\<close> (\<open>SQL/EX/join.go\<close>) over any two operators.
  The ON closure is an argument, as in the code. The nested loop rewinds its right side with \<open>Close\<close>: the locale
  \<open>rewindable_source\<close> states what it needs, and the scan of a table interprets it.
\<close>

subsection \<open>Rows of a join\<close>

definition prefixCols :: "string list \<Rightarrow> string \<Rightarrow> string list" where
  "prefixCols cols pre = map (\<lambda>c. pre @ ''.'' @ c) cols"

definition joinRowsLL :: "orow \<Rightarrow> orow \<Rightarrow> orow" where
  "joinRowsLL a b = \<lparr>or_cols = or_cols a @ or_cols b, or_types = or_types a @ or_types b, or_data = or_data a @ or_data b, or_outer = []\<rparr>"

definition schemaCols :: "orow list \<Rightarrow> string list" where
  "schemaCols rows = (case rows of [] \<Rightarrow> [] | r # _ \<Rightarrow> or_cols r)"

definition schemaTypes :: "orow list \<Rightarrow> int list" where
  "schemaTypes rows = (case rows of [] \<Rightarrow> [] | r # _ \<Rightarrow> or_types r)"

text \<open>\<open>rightSchema\<close> holds the rows of the table: the row of NULLs has as many cells as the table has rows.\<close>

definition nullRightRow :: "orow list \<Rightarrow> string \<Rightarrow> orow" where
  "nullRightRow rightSchema rightTbl =
     \<lparr>or_cols = prefixCols (schemaCols rightSchema) rightTbl, or_types = schemaTypes rightSchema,
      or_data = replicate (length rightSchema) VNull, or_outer = []\<rparr>"

subsection \<open>NestedLoopJoin\<close>

record join_cfg =
  jc_left_tbl :: string
  jc_right_tbl :: string
  jc_on :: "(orow \<Rightarrow> orow \<Rightarrow> bool res) option"
  jc_kind :: string
  jc_right_table :: "orow list"

record ('s, 't) join_st =
  nl_left :: 's
  nl_right :: 't
  nl_row :: "orow option"
  nl_pos :: int
  nl_matched :: bool

definition new_join :: "'s \<Rightarrow> 't \<Rightarrow> ('s, 't) join_st" where
  "new_join l r = \<lparr>nl_left = l, nl_right = r, nl_row = None, nl_pos = 0, nl_matched = False\<rparr>"

definition left_row :: "join_cfg \<Rightarrow> orow \<Rightarrow> orow" where
  "left_row c row = \<lparr>or_cols = prefixCols (or_cols row) (jc_left_tbl c), or_types = or_types row, or_data = or_data row, or_outer = []\<rparr>"

definition inner_row :: "join_cfg \<Rightarrow> orow \<Rightarrow> orow \<Rightarrow> orow" where
  "inner_row c l row = row\<lparr>or_cols := prefixCols (or_cols row) (jc_right_tbl c), or_outer := row_chain l\<rparr>"

definition on_holds :: "join_cfg \<Rightarrow> orow \<Rightarrow> orow \<Rightarrow> bool res" where
  "on_holds c l inner = (case jc_on c of None \<Rightarrow> Ok True | Some f \<Rightarrow> f l inner)"

definition keeps_left :: "join_cfg \<Rightarrow> bool" where
  "keeps_left c \<longleftrightarrow> jc_kind c = ''LEFT'' \<or> jc_kind c = ''FULL''"

text \<open>\<open>Ok None\<close> stands for \<open>errRightExhausted\<close>. The error of \<open>Close\<close> is ignored.\<close>

definition advanceRight :: "'t operator \<Rightarrow> ('s, 't) join_st \<Rightarrow> (orow option res \<times> ('s, 't) join_st) option" where
  "advanceRight opr s =
     (let (closed, s) = (if nl_pos s = -1 then
            let (e, t) = op_close opr (nl_right s) in (e, s\<lparr>nl_right := t, nl_pos := 0\<rparr>) else (Ok (), s))
      in if closed = Panic then Some (Panic, s)
         else Option.bind (op_next opr (nl_right s)) (\<lambda>(r, t).
           let s = s\<lparr>nl_right := t\<rparr>
           in Some (r, if r = Ok None then s\<lparr>nl_pos := -1\<rparr> else s)))"

partial_function (option) join_next :: "join_cfg \<Rightarrow> 's operator \<Rightarrow> 't operator \<Rightarrow> ('s, 't) join_st \<Rightarrow>
    (orow option res \<times> ('s, 't) join_st) option" where
  "join_next c opl opr s =
     Option.bind
       (case nl_row s of
          Some l \<Rightarrow> Some (Ok (Some l), s)
        | None \<Rightarrow> Option.bind (op_next opl (nl_left s)) (\<lambda>(r, l).
            let s = s\<lparr>nl_left := l\<rparr>
            in Some (case r of
                 Ok (Some row) \<Rightarrow> (Ok (Some (left_row c row)), s\<lparr>nl_row := Some (left_row c row), nl_pos := -1, nl_matched := False\<rparr>)
               | _ \<Rightarrow> (r, s))))
       (\<lambda>(r, s).
         case r of
           Ok (Some l) \<Rightarrow>
             Option.bind (advanceRight opr s) (\<lambda>(a, s).
               case a of
                 Ok None \<Rightarrow>
                   (let s' = s\<lparr>nl_row := None\<rparr>
                    in if keeps_left c \<and> \<not> nl_matched s
                       then Some (Ok (Some (joinRowsLL l (nullRightRow (jc_right_table c) (jc_right_tbl c)))), s')
                       else join_next c opl opr s')
               | Ok (Some row) \<Rightarrow>
                   (let inner = inner_row c l row
                    in case on_holds c l inner of
                         Ok b \<Rightarrow> if b then Some (Ok (Some (joinRowsLL l inner)), s\<lparr>nl_matched := True\<rparr>)
                           else join_next c opl opr s
                       | Fail e \<Rightarrow> Some (Fail e, s)
                       | Panic \<Rightarrow> Some (Panic, s))
               | Fail e \<Rightarrow> Some (Fail e, s)
               | Panic \<Rightarrow> Some (Panic, s))
         | _ \<Rightarrow> Some (r, s))"

definition join_close :: "'s operator \<Rightarrow> 't operator \<Rightarrow> ('s, 't) join_st \<Rightarrow> unit res \<times> ('s, 't) join_st" where
  "join_close opl opr s =
     (let s = s\<lparr>nl_row := None, nl_pos := 0\<rparr>; (e, l) = op_close opl (nl_left s); s = s\<lparr>nl_left := l\<rparr>
      in if e = Panic then (Panic, s) else let (e', r) = op_close opr (nl_right s) in (e', s\<lparr>nl_right := r\<rparr>))"

definition join_op :: "join_cfg \<Rightarrow> 's operator \<Rightarrow> 't operator \<Rightarrow> ('s, 't) join_st operator" where
  "join_op c opl opr = \<lparr>op_next = join_next c opl opr, op_close = join_close opl opr\<rparr>"

subsection \<open>What a nested loop delivers\<close>

fun match_rows :: "join_cfg \<Rightarrow> orow \<Rightarrow> orow list \<Rightarrow> orow list \<times> unit res" where
  "match_rows c l [] = ([], Ok ())"
| "match_rows c l (r # rs) =
     (case on_holds c l (inner_row c l r) of
        Ok b \<Rightarrow> if b then apfst ((#) (joinRowsLL l (inner_row c l r))) (match_rows c l rs) else match_rows c l rs
      | Fail e \<Rightarrow> ([], Fail e)
      | Panic \<Rightarrow> ([], Panic))"

definition pad_left :: "join_cfg \<Rightarrow> orow \<Rightarrow> orow list \<Rightarrow> orow list" where
  "pad_left c l ms =
     (if keeps_left c \<and> ms = [] then [joinRowsLL l (nullRightRow (jc_right_table c) (jc_right_tbl c))] else ms)"

fun join_rows :: "join_cfg \<Rightarrow> orow list \<Rightarrow> orow list \<Rightarrow> unit res \<Rightarrow> orow list \<times> unit res" where
  "join_rows c rs [] en = ([], en)"
| "join_rows c rs (row # ls) en =
     (let l = left_row c row
      in case match_rows c l rs of
           (ms, Ok u) \<Rightarrow> apfst ((@) (pad_left c l ms)) (join_rows c rs ls en)
         | (ms, Fail e) \<Rightarrow> (ms, Fail e)
         | (ms, Panic) \<Rightarrow> (ms, Panic))"

lemma match_rows_total:
  assumes "\<And>r. r \<in> set rs \<Longrightarrow> on_holds c l (inner_row c l r) = Ok (P r)"
  shows "match_rows c l rs = (map (\<lambda>r. joinRowsLL l (inner_row c l r)) (filter P rs), Ok ())"
  using assms by (induction rs) auto

lemma join_rows_total:
  assumes "\<And>row r. row \<in> set ls \<Longrightarrow> r \<in> set rs \<Longrightarrow> on_holds c (left_row c row) (inner_row c (left_row c row) r) = Ok (P row r)"
  shows "join_rows c rs ls en =
    (concat (map (\<lambda>row. pad_left c (left_row c row)
       (map (\<lambda>r. joinRowsLL (left_row c row) (inner_row c (left_row c row) r)) (filter (P row) rs))) ls), en)"
  using assms
proof (induction ls)
  case (Cons row ls)
  then have "match_rows c (left_row c row) rs =
    (map (\<lambda>r. joinRowsLL (left_row c row) (inner_row c (left_row c row) r)) (filter (P row) rs), Ok ())"
    by (intro match_rows_total) simp
  then show ?case using Cons by (simp add: Let_def)
qed simp

context rewindable_source
begin

text \<open>From a state with a left row, the remaining right rows are matched, then the join goes on without a left row.\<close>

lemma join_right_side:
  assumes "nl_row s = Some l" "nl_pos s \<noteq> -1" "rows (nl_right s) = rs" "whole (nl_right s) = ws"
    "\<And>s'. nl_left s' = nl_left s \<Longrightarrow> nl_row s' = None \<Longrightarrow> whole (nl_right s') = ws \<Longrightarrow> yields (join_op c opl op) s' out en"
  shows "case match_rows c l rs of
      (ms, Ok u) \<Rightarrow> yields (join_op c opl op) s ((if nl_matched s then ms else pad_left c l ms) @ out) en
    | (ms, Fail e) \<Rightarrow> yields (join_op c opl op) s ms (Fail e)
    | (ms, Panic) \<Rightarrow> yields (join_op c opl op) s ms Panic"
  using assms
proof (induction rs arbitrary: s)
  case Nil
  let ?J = "join_op c opl op"
  obtain t where t: "op_next op (nl_right s) = Some (Ok None, t)" "whole t = ws" using next_end Nil.prems(3,4) next_whole by metis
  let ?s = "s\<lparr>nl_row := None, nl_right := t, nl_pos := -1\<rparr>"
  have e: "s\<lparr>nl_right := t, nl_pos := -1, nl_row := None\<rparr> = ?s" by (cases s) simp
  have y: "yields ?J ?s out en" by (rule Nil.prems(5)) (use t(2) in simp_all)
  have step: "op_next ?J s = (if keeps_left c \<and> \<not> nl_matched s
      then Some (Ok (Some (joinRowsLL l (nullRightRow (jc_right_table c) (jc_right_tbl c)))), ?s) else op_next ?J ?s)"
    using Nil.prems(1,2) t(1) by (simp add: join_op_def join_next.simps [of c opl op s] advanceRight_def Let_def) (simp only: e simp_thms)
  show ?case
  proof (cases "keeps_left c \<and> \<not> nl_matched s")
    case True
    then show ?thesis using step y by (auto simp: pad_left_def intro: yields.yields_row)
  next
    case False
    then show ?thesis using step yields_first [OF _ y, of s] by (auto simp: pad_left_def)
  qed
next
  case (Cons r rs)
  let ?J = "join_op c opl op"
  let ?j = "inner_row c l r"
  obtain t where t: "op_next op (nl_right s) = Some (Ok (Some r), t)" "rows t = rs" "whole t = ws"
    using next_row Cons.prems(3,4) next_whole by metis
  let ?s = "s\<lparr>nl_right := t\<rparr>"
  have step: "op_next ?J s = (case on_holds c l ?j of
      Ok b \<Rightarrow> if b then Some (Ok (Some (joinRowsLL l ?j)), ?s\<lparr>nl_matched := True\<rparr>) else op_next ?J ?s
    | Fail e \<Rightarrow> Some (Fail e, ?s) | Panic \<Rightarrow> Some (Panic, ?s))"
    using Cons.prems(1,2) t(1)
    by (simp add: join_op_def join_next.simps [of c opl op s] advanceRight_def Let_def split: outcome.split)
  have IH: "case match_rows c l rs of
      (ms, Ok u) \<Rightarrow> yields ?J u' ((if nl_matched u' then ms else pad_left c l ms) @ out) en
    | (ms, Fail e) \<Rightarrow> yields ?J u' ms (Fail e)
    | (ms, Panic) \<Rightarrow> yields ?J u' ms Panic"
    if u: "nl_left u' = nl_left s" "nl_row u' = Some l" "nl_pos u' \<noteq> -1" "nl_right u' = t" for u'
  proof (rule Cons.IH)
    fix s' :: "('a, 's) join_st" assume "nl_left s' = nl_left u'" "nl_row s' = None" "whole (nl_right s') = ws"
    then show "yields ?J s' out en" using u(1) by (intro Cons.prems(5)) simp_all
  qed (use u t in simp_all)
  show ?case
  proof (cases "on_holds c l ?j")
    case (Ok b)
    show ?thesis
    proof (cases b)
      case True
      have "case match_rows c l rs of
          (ms, Ok u) \<Rightarrow> yields ?J (?s\<lparr>nl_matched := True\<rparr>) (ms @ out) en
        | (ms, Fail e) \<Rightarrow> yields ?J (?s\<lparr>nl_matched := True\<rparr>) ms (Fail e)
        | (ms, Panic) \<Rightarrow> yields ?J (?s\<lparr>nl_matched := True\<rparr>) ms Panic"
        using IH [of "?s\<lparr>nl_matched := True\<rparr>"] Cons.prems(1,2) by simp
      then show ?thesis using Ok True step
        by (cases "match_rows c l rs"; cases "snd (match_rows c l rs)") (auto simp: pad_left_def intro: yields.yields_row)
    next
      case False
      have "case match_rows c l rs of
          (ms, Ok u) \<Rightarrow> yields ?J ?s ((if nl_matched s then ms else pad_left c l ms) @ out) en
        | (ms, Fail e) \<Rightarrow> yields ?J ?s ms (Fail e)
        | (ms, Panic) \<Rightarrow> yields ?J ?s ms Panic"
        using IH [of ?s] Cons.prems(1,2) by simp
      moreover have "op_next ?J s = op_next ?J ?s" using Ok False step by simp
      ultimately show ?thesis using Ok False yields_first [of ?J s ?s]
        by (cases "match_rows c l rs"; cases "snd (match_rows c l rs)") auto
    qed
  qed (use step in \<open>auto intro: yields.intros\<close>)
qed

lemma join_source:
  assumes "yields opl (nl_left s) ls en" "nl_row s = None" "whole (nl_right s) = ws"
  shows "case join_rows c ws ls en of (out, en') \<Rightarrow> yields (join_op c opl op) s out en'"
  using assms
proof (induction "nl_left s" ls en arbitrary: s rule: yields.induct)
  case (yields_row row l ls en)
  let ?J = "join_op c opl op"
  let ?l = "left_row c row"
  obtain t where t: "op_close op (nl_right s) = (Ok (), t)" "rows t = ws" "whole t = ws"
    using close_rewinds [of "nl_right s"] yields_row.prems(2) by metis
  let ?s = "s\<lparr>nl_left := l, nl_row := Some ?l, nl_pos := 0, nl_matched := False, nl_right := t\<rparr>"
  have step: "op_next ?J s = op_next ?J ?s"
    using yields_row.hyps(1) yields_row.prems t(1)
    by (cases s) (simp add: join_op_def join_next.simps [of c opl op] advanceRight_def Let_def)
  obtain out en' where o: "join_rows c ws ls en = (out, en')" by fastforce
  have IH: "yields ?J s' out en'" if "l = nl_left s'" "nl_row s' = None" "whole (nl_right s') = ws" for s'
    using yields_row.hyps(3) [OF that] o by simp
  have "case match_rows c ?l ws of
      (ms, Ok u) \<Rightarrow> yields ?J ?s (pad_left c ?l ms @ out) en'
    | (ms, Fail e) \<Rightarrow> yields ?J ?s ms (Fail e)
    | (ms, Panic) \<Rightarrow> yields ?J ?s ms Panic"
    using join_right_side [of ?s ?l ws ws c opl out en'] t IH by auto
  then show ?case using o yields_first [OF step]
    by (cases "match_rows c ?l ws"; cases "snd (match_rows c ?l ws)") (auto simp: Let_def)
qed (auto simp: join_op_def join_next.simps Let_def intro: yields.intros)

end

lemma yields_join:
  assumes "yields opl l ls en"
  shows "case join_rows c (map cloneRow tab) ls en of (out, en') \<Rightarrow>
    yields (join_op c opl (seq_scan_op tab)) (new_join l new_seq_scan) out en'"
  using scan.join_source [of opl "new_join l new_seq_scan" ls en tab "seq_scan_snapshot tab" c] assms
  by (simp add: new_join_def seq_scan_snapshot_def)

subsection \<open>Properties\<close>

text \<open>A join of two tables whose ON condition neither fails nor panics: for every row of the left table in order, the
  right rows that match it in order; when there is none, LEFT and FULL deliver the row once, with a row of NULLs.
  RIGHT is not treated: it delivers what INNER delivers.\<close>

theorem nested_loop_join:
  assumes "\<And>row r. row \<in> set tabl \<Longrightarrow> r \<in> set tabr \<Longrightarrow>
      on_holds c (left_row c (cloneRow row)) (inner_row c (left_row c (cloneRow row)) (cloneRow r)) = Ok (P row r)"
  shows "\<exists>s'. drainAll (join_op c (seq_scan_op tabl) (seq_scan_op tabr)) [] (new_join new_seq_scan new_seq_scan) =
    Some (Ok (concat (map (\<lambda>row.
      let l = left_row c (cloneRow row); ms = map (\<lambda>r. joinRowsLL l (inner_row c l (cloneRow r))) (filter (P row) tabr)
      in if ms = [] \<and> (jc_kind c = ''LEFT'' \<or> jc_kind c = ''FULL'')
         then [joinRowsLL l (nullRightRow (jc_right_table c) (jc_right_tbl c))] else ms) tabl)), s')"
proof -
  have "join_rows c (map cloneRow tabr) (map cloneRow tabl) (Ok ()) =
    (concat (map (\<lambda>row. pad_left c (left_row c row)
       (map (\<lambda>r. joinRowsLL (left_row c row) (inner_row c (left_row c row) r)) (filter (\<lambda>r. on_holds c (left_row c row)
          (inner_row c (left_row c row) r) = Ok True) (map cloneRow tabr)))) (map cloneRow tabl)), Ok ())"
    by (rule join_rows_total) (use assms in auto)
  note rows = this
  have f: "filter (\<lambda>r. on_holds c (left_row c (cloneRow row)) (inner_row c (left_row c (cloneRow row)) r) = Ok True) (map cloneRow tabr) =
      map cloneRow (filter (P row) tabr)" if "row \<in> set tabl" for row
    using assms [OF that] by (simp add: filter_map o_def cong: filter_cong)
  have e: "pad_left c (left_row c (cloneRow row)) (map (\<lambda>r. joinRowsLL (left_row c (cloneRow row)) (inner_row c (left_row c (cloneRow row)) r))
        (filter (\<lambda>r. on_holds c (left_row c (cloneRow row)) (inner_row c (left_row c (cloneRow row)) r) = Ok True) (map cloneRow tabr))) =
      (let l = left_row c (cloneRow row); ms = map (\<lambda>r. joinRowsLL l (inner_row c l (cloneRow r))) (filter (P row) tabr)
       in if ms = [] \<and> (jc_kind c = ''LEFT'' \<or> jc_kind c = ''FULL'')
          then [joinRowsLL l (nullRightRow (jc_right_table c) (jc_right_tbl c))] else ms)" if "row \<in> set tabl" for row
    unfolding f [OF that] by (simp add: Let_def pad_left_def keeps_left_def o_def conj_commute)
  have j: "join_rows c (map cloneRow tabr) (map cloneRow tabl) (Ok ()) = (concat (map (\<lambda>row.
      let l = left_row c (cloneRow row); ms = map (\<lambda>r. joinRowsLL l (inner_row c l (cloneRow r))) (filter (P row) tabr)
      in if ms = [] \<and> (jc_kind c = ''LEFT'' \<or> jc_kind c = ''FULL'')
         then [joinRowsLL l (nullRightRow (jc_right_table c) (jc_right_tbl c))] else ms) tabl), Ok ())"
    unfolding rows map_map o_def
    by (rule arg_cong [where f = "\<lambda>x. (concat x, Ok ())"], rule map_cong [OF refl], rule e)
  have "yields (join_op c (seq_scan_op tabl) (seq_scan_op tabr)) (new_join new_seq_scan new_seq_scan)
      (fst (join_rows c (map cloneRow tabr) (map cloneRow tabl) (Ok ()))) (snd (join_rows c (map cloneRow tabr) (map cloneRow tabl) (Ok ())))"
    using yields_join [OF yields_scan, where c = c and tab = tabr and tab1 = tabl] by (simp add: split_beta)
  from yields_drainAll [OF this, of "[]"] show ?thesis unfolding j by (simp add: drained_def)
qed

text \<open>The row of NULLs of an outer join has a cell for every ROW of the right table, not for every column.\<close>

lemma null_row_width: "length (or_data (nullRightRow tab t)) = length tab"
  by (simp add: nullRightRow_def)

text \<open>After a join, an unqualified column is not found, because every column carries the prefix of its table: the name
  evaluates to itself, as a string.\<close>

lemma code_shift: "65 \<le> ch c \<Longrightarrow> ch c \<le> 90 \<Longrightarrow> (of_char (char_of (ch c + 32) :: char) :: nat) = ch c + 32" by (simp only: of_char_of) simp
lemma code_dot: "(of_char (CHR ''.'') :: nat) = 46" by simp
lemma upper_not_dot: "65 \<le> ch c \<Longrightarrow> c \<noteq> CHR ''.''" by (auto simp: ch_def)
lemma shift_not_dot: assumes "65 \<le> ch c" "ch c \<le> 90" shows "(char_of (ch c + 32) :: char) \<noteq> CHR ''.''"
proof
  assume "(char_of (ch c + 32) :: char) = CHR ''.''"
  then have "(of_char (char_of (ch c + 32) :: char) :: nat) = of_char (CHR ''.'')" by (rule arg_cong)
  then show False unfolding code_shift [OF assms] code_dot using assms by linarith
qed
lemma lower_char_dot: "lower_char c = CHR ''.'' \<longleftrightarrow> c = CHR ''.''"
  unfolding lower_char_def using upper_not_dot [of c] shift_not_dot [of c] by (auto split: if_splits)
lemma lower_dot: "CHR ''.'' \<in> set (ascii_lower s) \<longleftrightarrow> CHR ''.'' \<in> set s"
  unfolding ascii_lower_def by (induction s) (simp_all add: lower_char_dot eq_commute [of "CHR ''.''"])

lemma lookup_none: "(\<And>c. c \<in> set cols \<Longrightarrow> \<not> EqualFold env c name) \<Longrightarrow> lookup_cols env name cols data = None"
  by (induction cols arbitrary: data) auto

theorem join_hides_columns:
  assumes "list_all is_ascii (x # or_cols l @ or_cols r @ [jc_left_tbl c, jc_right_tbl c])" "CHR ''.'' \<notin> set x"
  shows "row_eval env ps (Ident x) (joinRowsLL (left_row c l) (inner_row c (left_row c l) r)) = Ok (VStr x)"
proof -
  have "\<not> EqualFold env (t @ ''.'' @ y) x" if "is_ascii t" "is_ascii y" for t y
  proof -
    have "is_ascii (t @ ''.'' @ y)" using that by (simp add: is_ascii_def ch_def)
    moreover have "ascii_lower (t @ ''.'' @ y) \<noteq> ascii_lower x"
      using lower_dot [of "t @ ''.'' @ y"] lower_dot [of x] assms(2) by auto
    ultimately show ?thesis using assms(1) by (simp add: EqualFold_def)
  qed
  then have "lookup_cols env x (prefixCols (or_cols l) (jc_left_tbl c) @ prefixCols (or_cols r) (jc_right_tbl c)) data = None" for data
    using assms(1) by (intro lookup_none) (auto simp: prefixCols_def list_all_iff)
  then show ?thesis
    by (simp add: row_eval_def row_chain_def joinRowsLL_def left_row_def inner_row_def evalIdent_def)
qed

end
