(* ===== verification/Spec2Isabelle.thy ===== *)
theory Spec2Isabelle
  imports Prelude Go_Binary Go_Crc32 Wal_Lz4 Wal_Record Wal_Writer Wal_Replay Txn_Arena Txn_Versions Txn_Record Txn_Commit
    Kv_Store Ls_Skiplist Ls_Sst Ls_Manifest Ls_Engine Go_Heap Ls_Merge Sys_Tx Go_Float Sql_Token Sql_Lexer Sql_Ast Sql_Value Sql_Like Go_Utf8 Sql_Funcs Sql_Eval Sql_Rewrite Sql_Parser Sql_Statements Sql_Parser_Total Sql_Format Sql_Roundtrip Sql_Roundtrip_Select Sql_Rows Sql_Compound Sql_Ops Sql_Join
begin

text \<open>
  Verification of the razordata storage engine (Go module \<open>github.com/cyw0ng95/razordata\<close>, sources under
  \<open>src/internal\<close>).

  \<^bold>\<open>The program.\<close> razordata is an embedded SQL database. A write of a session goes to the storage engine
  (\<open>ENG/LS\<close>: a skip-list memtable, flushed to sorted tables that a manifest lists), is noted by the session
  transaction (\<open>SYS/TX\<close>) for rollback, runs inside a multi-version transaction (\<open>TXN/VL\<close> over \<open>TXN/MV\<close> and
  \<open>TXN/SN\<close>), and the commit is appended to a segmented write-ahead log (\<open>WAL/WR\<close>) that \<open>WAL/RP\<close> replays. A
  statement is cut into tokens (\<open>SQL/LX\<close>), parsed (\<open>SQL/PS\<close>), rewritten (\<open>SQL/RE\<close>) and run by operators that
  evaluate its expressions (\<open>SQL/EX\<close>).

  \<^bold>\<open>Theories.\<close> Names follow the Go names.
  \<^item> \<open>Prelude\<close>: machine types, \<open>outcome\<close> (a value, an error value, a run-time panic), slices, collections of
    simplification rules. \<open>Go_Binary\<close>, \<open>Go_Crc32\<close>, \<open>Go_Heap\<close>: what the code uses of \<open>encoding/binary\<close>,
    \<open>hash/crc32\<close> and \<open>container/heap\<close>.
  \<^item> \<open>Wal_Lz4\<close> (\<open>WAL/WR/lz4/lz4.go\<close>): the block codec. \<open>Wal_Record\<close> (\<open>WAL/WR/encode.go\<close>, \<open>header.go\<close>): log
    records, their envelope with a checksum, checkpoint payloads, the segment header.
  \<^item> \<open>Wal_Writer\<close> (\<open>WAL/WR/wr.go\<close>): Append, Sync, SyncAsync, rotation and Close over a file system given by
    \<open>os_calls\<close>. \<open>Wal_Replay\<close> (\<open>WAL/RP/rp.go\<close>, \<open>parallel.go\<close>): the chunked scan, Replay, checkpoints, truncation.
  \<^item> \<open>Txn_Arena\<close> (\<open>TXN/MV/arena.go\<close>), \<open>Txn_Versions\<close> (\<open>TXN/MV/version.go\<close>, \<open>mv.go\<close>, \<open>gc.go\<close>, \<open>TXN/SN\<close>),
    \<open>Txn_Record\<close> (\<open>TXN/VL/wal_record.go\<close>), \<open>Txn_Commit\<close> (\<open>TXN/VL\<close>: slots, validation, the commit protocol).
  \<^item> \<open>Kv_Store\<close>: the interface of a key-value store and of one with tombstones. \<open>Ls_Skiplist\<close> (\<open>ENG/LS/skiplist.go\<close>,
    \<open>memtable.go\<close>) and \<open>Ls_Engine\<close> (\<open>engine.go\<close>, \<open>flush.go\<close>, \<open>api.go\<close>) interpret it. \<open>Ls_Sst\<close> (\<open>sst_writer.go\<close>,
    \<open>sst_reader.go\<close>, \<open>sst_dict.go\<close>, \<open>fnv.go\<close>), \<open>Ls_Manifest\<close> (\<open>manifest.go\<close>), \<open>Ls_Merge\<close> (the merge iterator of
    \<open>api.go\<close>).
  \<^item> \<open>Sys_Tx\<close> (\<open>SYS/TX/tx.go\<close>): session transactions with their write set, savepoints and rollback.
  \<^item> \<open>Go_Float\<close>, \<open>Go_Utf8\<close>: float64 with its rounding and conversions, UTF-8, as the SQL part uses them.
  \<^item> \<open>Sql_Token\<close>, \<open>Sql_Lexer\<close> (\<open>SQL/LX/token.go\<close>, \<open>lx.go\<close>): the token types and the lexer. \<open>Sql_Ast\<close>
    (\<open>SQL/PS/ast.go\<close>, \<open>typeinfo.go\<close>): expressions and statements.
  \<^item> \<open>Sql_Value\<close>, \<open>Sql_Like\<close>, \<open>Sql_Funcs\<close>, \<open>Sql_Eval\<close> (\<open>SQL/EX/eval.go\<close>): values with arithmetic and comparison,
    LIKE, the scalar functions, the evaluator of expressions.
  \<^item> \<open>Sql_Rewrite\<close> (\<open>SQL/RE/rewrite.go\<close>): the folds of the rewriter and the conditions under which they keep the result.
  \<^item> \<open>Sql_Parser\<close>, \<open>Sql_Statements\<close> (\<open>SQL/PS/ps.go\<close>): the recursive descent parser, as functions from a parser to a
    result, a refusal, a panic or the end of the fuel. \<open>Sql_Parser_Total\<close>: the fuel of \<open>parse_text\<close> is enough.
  \<^item> \<open>Sql_Format\<close> (\<open>SQL/RE/format.go\<close>): the printer of statements. \<open>Sql_Roundtrip\<close>, \<open>Sql_Roundtrip_Select\<close>: the
    parser reads a printed expression, and a printed SELECT, back.
  \<^item> \<open>Sql_Rows\<close> (\<open>SQL/EX/ex.go\<close>, \<open>operators.go\<close>, \<open>source.go\<close>, \<open>distinct.go\<close>): rows, the interface \<open>Operator\<close> as the
    locale \<open>row_source\<close>, the scan of a table in memory, DISTINCT. \<open>Sql_Compound\<close> (\<open>SQL/EX/compound.go\<close>): UNION, INTERSECT and
    EXCEPT with ORDER BY, OFFSET and LIMIT, for any two operators.
  \<^item> \<open>Sql_Ops\<close> (\<open>SQL/EX/intermediate.go\<close>): Filter, Project, Sort, Limit and Offset, each as a function on what its child
    \<open>yields\<close>. \<open>Sql_Join\<close> (\<open>SQL/EX/join.go\<close>): the nested loop join over any two operators.
  \<^bold>\<open>State.\<close> Structs are records, pointers that are shared are indices (memtables, log segments, version
  nodes), a directory is a map from path to contents, and a goroutine is a step of its own. A file system
  that may fail is an argument: \<open>os_calls\<close>, \<open>flush_answers\<close>, \<open>write_answer\<close>. Random levels, the order of Go
  maps and the clock are arguments too. \<open>flate\<close> is the parameter \<open>sst_env\<close> with the law \<open>flate_ok\<close> that
  inflating what was deflated gives it back; \<open>id_env\<close> shows that the law can hold. The evaluator's calls into
  code that is not modelled are the fields of \<open>go_env\<close>; \<open>sample_env\<close> is an instance.

  \<^bold>\<open>What the lemmas show.\<close> Codecs: decoding what was encoded gives it back, a torn or changed encoding is
  refused (the checksum detects a change of up to four consecutive bytes). Writer and replayer: what Append
  reports is where the record can be read, Sync makes it stable, Replay delivers the log. Transactions: slots
  partition, a chain loses no node under interleaved inserts, views are repeatable against later inserts (and not against an insert during the first read). Engine: memtable, tables,
  engine and scans are maps, and where they are not, a theorem states what the code does instead.

  SQL: the lexer makes progress and keeps positions, quoted text lexes back, integer arithmetic is exact or NULL, LIKE
  is its declarative reading, rewriting keeps the result of an expression under stated conditions, the parser
  ends on every text and reads a printed SELECT back. Row operators: each delivers a function of what its child
  delivers (\<open>yields\<close>), and the nested loop join delivers the matching pairs in order.

  \<^bold>\<open>Fuel.\<close> \<open>scan_for\<close> runs with one more than the pairs of the table (\<open>scan_fuel_enough\<close>), \<open>mi_next\<close> and
  \<open>mi_collect\<close> with more than the pairs of all sources (\<open>mi_collect_ok\<close>), \<open>sk_find\<close> and the iterator with the
  number of nodes (\<open>fuel_enough\<close>), the parser with \<open>parse_fuel\<close>, which is linear in the text
  (\<open>parser_terminates\<close>: it is never used up); other loops are functions with a measure.

  \<^bold>\<open>Not modelled.\<close> Locks, the blocking of a full channel (it only delays), logging, metrics, byte-buffer pools
  and their aliasing (keys and values are values), nil slices as distinct from empty ones, system calls and
  io_uring, and the components that \<open>PROJECT.json\<close> lists as not modelled with the reason.
\<close>

end
